(* ===== verification/Prelude.thy ===== *)
theory Prelude
  imports Main "HOL-Library.AList" "HOL-Library.Multiset" "HOL-Library.Word"
    "HOL-Library.Product_Lexorder"
begin

text \<open>
  Shared vocabulary of the development: Rust's fixed-width integer operations on
  \<open>nat\<close> and \<open>int\<close>, Rust strings as their UTF-8 bytes (HOL's \<open>string\<close>, one \<open>char\<close>
  per byte), comparisons and the stable sort of the standard library, keyed stores (the
  \<open>HashMap\<close>s of the code) as association lists, and the generic lemmas the component
  theories share.
\<close>

section \<open>Hint collections\<close>

named_theorems machine_int "unfolding of the machine-integer operations"
named_theorems frame "what an operation leaves unchanged"
named_theorems keeps "preservation of an invariant by one operation"

section \<open>Machine integers\<close>

text \<open>
  Unsigned values are \<open>nat\<close>, signed ones \<open>int\<close>; every operation whose result the
  code clamps, checks or wraps has its own constant below. The release profile of the
  repository keeps Rust's default (no overflow checks), so an unchecked \<open>+\<close> on
  \<open>u64\<close> is \<open>wrapping_add_u64\<close>. \<open>usize\<close> is 64 bits wide.
\<close>

abbreviation U16_MAX :: nat where "U16_MAX \<equiv> 65535"
abbreviation U32_MAX :: nat where "U32_MAX \<equiv> 4294967295"
abbreviation U64_MAX :: nat where "U64_MAX \<equiv> 18446744073709551615"
abbreviation USIZE_MAX :: nat where "USIZE_MAX \<equiv> 18446744073709551615"
abbreviation I64_MAX :: int where "I64_MAX \<equiv> 9223372036854775807"
abbreviation I64_MIN :: int where "I64_MIN \<equiv> -9223372036854775808"

definition wrapping_add_u64 :: "nat \<Rightarrow> nat \<Rightarrow> nat" where
  [machine_int]: "wrapping_add_u64 a b = (a + b) mod (U64_MAX + 1)"

definition wrapping_add_u32 :: "nat \<Rightarrow> nat \<Rightarrow> nat" where
  [machine_int]: "wrapping_add_u32 a b = (a + b) mod (U32_MAX + 1)"

definition wrapping_sub_u64 :: "nat \<Rightarrow> nat \<Rightarrow> nat" where
  [machine_int]: "wrapping_sub_u64 a b = (a + (U64_MAX + 1) - b) mod (U64_MAX + 1)"

definition saturating_add_u64 :: "nat \<Rightarrow> nat \<Rightarrow> nat" where
  [machine_int]: "saturating_add_u64 a b = min U64_MAX (a + b)"

definition saturating_add_u32 :: "nat \<Rightarrow> nat \<Rightarrow> nat" where
  [machine_int]: "saturating_add_u32 a b = min U32_MAX (a + b)"

definition saturating_mul_u64 :: "nat \<Rightarrow> nat \<Rightarrow> nat" where
  [machine_int]: "saturating_mul_u64 a b = min U64_MAX (a * b)"

definition checked_add_usize :: "nat \<Rightarrow> nat \<Rightarrow> nat option" where
  "checked_add_usize a b = (if a + b \<le> USIZE_MAX then Some (a + b) else None)"

definition checked_mul_usize :: "nat \<Rightarrow> nat \<Rightarrow> nat option" where
  "checked_mul_usize a b = (if a * b \<le> USIZE_MAX then Some (a * b) else None)"

definition checked_mul_u32 :: "nat \<Rightarrow> nat \<Rightarrow> nat option" where
  "checked_mul_u32 a b = (if a * b \<le> U32_MAX then Some (a * b) else None)"

text \<open>\<open>div_ceil\<close> of the standard library: quotient rounded up.\<close>

definition div_ceil :: "nat \<Rightarrow> nat \<Rightarrow> nat" where
  "div_ceil a b = (if a mod b = 0 then a div b else a div b + 1)"

definition sat_i64 :: "int \<Rightarrow> int" where
  "sat_i64 x = max I64_MIN (min I64_MAX x)"

definition saturating_add_i64 :: "int \<Rightarrow> int \<Rightarrow> int" where
  [machine_int]: "saturating_add_i64 a b = sat_i64 (a + b)"

definition saturating_sub_i64 :: "int \<Rightarrow> int \<Rightarrow> int" where
  [machine_int]: "saturating_sub_i64 a b = sat_i64 (a - b)"

definition saturating_mul_i64 :: "int \<Rightarrow> int \<Rightarrow> int" where
  [machine_int]: "saturating_mul_i64 a b = sat_i64 (a * b)"

definition checked_add_i64 :: "int \<Rightarrow> int \<Rightarrow> int option" where
  "checked_add_i64 a b =
     (if I64_MIN \<le> a + b \<and> a + b \<le> I64_MAX then Some (a + b) else None)"

definition checked_mul_i64 :: "int \<Rightarrow> int \<Rightarrow> int option" where
  "checked_mul_i64 a b =
     (if I64_MIN \<le> a * b \<and> a * b \<le> I64_MAX then Some (a * b) else None)"

text \<open>Two's complement wrap-around, the release profile's unchecked \<open>i64\<close> addition.\<close>

definition wrap_i64 :: "int \<Rightarrow> int" where
  "wrap_i64 x = (x - I64_MIN) mod (2 ^ 64) + I64_MIN"

definition i64_ok :: "int \<Rightarrow> bool" where
  "i64_ok x \<longleftrightarrow> I64_MIN \<le> x \<and> x \<le> I64_MAX"

text \<open>Rust's \<open>/\<close> on signed integers truncates towards zero.\<close>

definition div_i64 :: "int \<Rightarrow> int \<Rightarrow> int" where
  "div_i64 a b = sgn a * sgn b * (\<bar>a\<bar> div \<bar>b\<bar>)"

lemma sat_i64_id [simp]: "I64_MIN \<le> x \<Longrightarrow> x \<le> I64_MAX \<Longrightarrow> sat_i64 x = x"
  by (simp add: sat_i64_def)

lemma sat_i64_bounds: "I64_MIN \<le> sat_i64 x" "sat_i64 x \<le> I64_MAX"
  by (simp_all add: sat_i64_def)

lemma sat_i64_mono: "x \<le> y \<Longrightarrow> sat_i64 x \<le> sat_i64 y"
  by (auto simp: sat_i64_def)

lemma wrap_i64_id [simp]: "I64_MIN \<le> x \<Longrightarrow> x \<le> I64_MAX \<Longrightarrow> wrap_i64 x = x"
  by (simp add: wrap_i64_def)

lemma wrapping_add_u64_id [simp]: "a + b \<le> U64_MAX \<Longrightarrow> wrapping_add_u64 a b = a + b"
  by (simp add: wrapping_add_u64_def)

lemma wrapping_sub_u64_id [simp]: "b \<le> a \<Longrightarrow> a \<le> U64_MAX \<Longrightarrow> wrapping_sub_u64 a b = a - b"
proof -
  assume "b \<le> a" "a \<le> U64_MAX"
  then have "a + (U64_MAX + 1) - b = (a - b) + (U64_MAX + 1)" "a - b < U64_MAX + 1" by simp_all
  then show ?thesis unfolding wrapping_sub_u64_def by (metis mod_add_self2 mod_less)
qed

lemma wrapping_add_u32_id [simp]: "a + b \<le> U32_MAX \<Longrightarrow> wrapping_add_u32 a b = a + b"
  by (simp add: wrapping_add_u32_def)

lemma foldl_wrapping_add_u64:
  "a + sum_list xs \<le> U64_MAX \<Longrightarrow> foldl wrapping_add_u64 a xs = a + sum_list xs"
  by (induction xs arbitrary: a) auto

lemma checked_add_usize_Some [simp]:
  "checked_add_usize a b = Some c \<longleftrightarrow> c = a + b \<and> a + b \<le> USIZE_MAX"
  by (auto simp: checked_add_usize_def)

lemma checked_add_usize_None [simp]:
  "checked_add_usize a b = None \<longleftrightarrow> USIZE_MAX < a + b"
  by (auto simp: checked_add_usize_def)

lemma div_ceil_ge: "0 < b \<Longrightarrow> a \<le> div_ceil a b * b"
proof -
  assume "0 < b"
  have eq: "a = a div b * b + a mod b" by simp
  have lt: "a mod b < b" using \<open>0 < b\<close> by simp
  have "a \<le> (a div b + 1) * b" unfolding distrib_right using eq lt by linarith
  moreover have "a mod b = 0 \<Longrightarrow> a \<le> a div b * b" using eq by linarith
  ultimately show ?thesis unfolding div_ceil_def by (cases "a mod b = 0") simp_all
qed

lemma div_ceil_least: "0 < b \<Longrightarrow> a \<le> n * b \<Longrightarrow> div_ceil a b \<le> n"
proof -
  assume b: "0 < b" and n: "a \<le> n * b"
  have le: "a div b \<le> n" using div_le_mono [OF n, of b] b by simp
  show ?thesis
  proof (cases "a div b = n")
    case True
    with n have "a mod b = 0"
      by (metis b div_mult_mod_eq le_add1 le_antisym mult.commute mult_mod_right
          add_diff_cancel_left' diff_is_0_eq')
    with True show ?thesis by (simp add: div_ceil_def)
  next
    case False
    with le show ?thesis by (simp add: div_ceil_def)
  qed
qed

section \<open>Strings\<close>

text \<open>
  \<open>s.trim().is_empty()\<close> on the UTF-8 bytes: only characters of the Unicode property
  \<open>White_Space\<close> (U+0009--U+000D, U+0020, U+0085, U+00A0, U+1680, U+2000--U+200A, U+2028,
  U+2029, U+202F, U+205F, U+3000), spelled as one, two or three bytes.
\<close>

definition ascii_space :: "nat \<Rightarrow> bool" where
  "ascii_space b \<longleftrightarrow> 9 \<le> b \<and> b \<le> 13 \<or> b = 32"

definition space3 :: "nat \<Rightarrow> nat \<Rightarrow> nat \<Rightarrow> bool" where
  "space3 b c d \<longleftrightarrow>
     b = 0xE1 \<and> c = 0x9A \<and> d = 0x80
   \<or> b = 0xE2 \<and> c = 0x80 \<and> (0x80 \<le> d \<and> d \<le> 0x8A \<or> d = 0xA8 \<or> d = 0xA9 \<or> d = 0xAF)
   \<or> b = 0xE2 \<and> c = 0x81 \<and> d = 0x9F
   \<or> b = 0xE3 \<and> c = 0x80 \<and> d = 0x80"

fun only_space :: "nat list \<Rightarrow> bool" where
  "only_space [] = True"
| "only_space [b] = ascii_space b"
| "only_space [b, c] =
     (if ascii_space b then only_space [c] else b = 0xC2 \<and> (c = 0x85 \<or> c = 0xA0))"
| "only_space (b # c # d # bs) =
     (if ascii_space b then only_space (c # d # bs)
      else if b = 0xC2 \<and> (c = 0x85 \<or> c = 0xA0) then only_space (d # bs)
      else space3 b c d \<and> only_space bs)"

definition trim_is_empty :: "string \<Rightarrow> bool" where
  "trim_is_empty s = only_space (map of_char s)"

section \<open>Bytes\<close>

type_synonym byte = "8 word"

text \<open>The bytes of an ASCII literal.\<close>

definition ascii :: "string \<Rightarrow> byte list" where
  "ascii s = map of_char s"

lemma of_char_byte_eq [simp]: "(of_char c :: byte) = of_char d \<longleftrightarrow> c = d"
proof
  assume "(of_char c :: byte) = of_char d"
  then have "(of_nat (of_char c) :: byte) = of_nat (of_char d)" by (simp only: of_nat_of_char)
  then have "(of_char c :: nat) mod 256 = of_char d mod 256"
    by (simp add: word_of_nat_eq_iff take_bit_eq_mod)
  then show "c = d" by simp
qed simp

lemma ascii_eq [simp]: "ascii s = ascii t \<longleftrightarrow> s = t"
  by (induction s arbitrary: t; case_tac t) (auto simp: ascii_def)

lemma length_ascii [simp]: "length (ascii s) = length s"
  by (simp add: ascii_def)

text \<open>Big-endian numbers: \<open>be_bytes k n\<close> are the \<open>k\<close> bytes of \<open>n\<close>, dropping what does not fit.\<close>

fun be_bytes :: "nat \<Rightarrow> nat \<Rightarrow> 8 word list" where
  "be_bytes 0 n = []"
| "be_bytes (Suc k) n = of_nat (n div 256 ^ k) # be_bytes k (n mod 256 ^ k)"

definition from_be :: "byte list \<Rightarrow> nat" where
  "from_be bs = foldl (\<lambda>a b. a * 256 + unat b) 0 bs"

lemma length_be_bytes [simp]: "length (be_bytes k n) = k"
  by (induction k arbitrary: n) auto

lemma be_bytes_numeral:
  "be_bytes 4 n = of_nat (n div 16777216) # be_bytes 3 (n mod 16777216)"
  "be_bytes 3 n = of_nat (n div 65536) # be_bytes 2 (n mod 65536)"
  "be_bytes 2 n = [of_nat (n div 256), of_nat (n mod 256)]"
proof -
  show "be_bytes 4 n = of_nat (n div 16777216) # be_bytes 3 (n mod 16777216)" using be_bytes.simps(2) [of 3 n] by simp
  show "be_bytes 3 n = of_nat (n div 65536) # be_bytes 2 (n mod 65536)" using be_bytes.simps(2) [of 2 n] by simp
qed (simp add: numeral_2_eq_2)

lemma be_bytes_Nil [simp]: "be_bytes k n = [] \<longleftrightarrow> k = 0"
  using length_be_bytes [of k n] by (metis length_0_conv)

lemma from_be_fold: "foldl (\<lambda>a b. a * 256 + unat b) x (bs :: byte list) = x * 256 ^ length bs + from_be bs"
proof (induction bs arbitrary: x rule: rev_induct)
  case (snoc b bs)
  show ?case using snoc [of x] by (simp add: from_be_def algebra_simps)
qed (simp add: from_be_def)

lemma from_be_simps: "from_be [] = 0" "from_be (b # bs) = unat b * 256 ^ length bs + from_be bs"
  using from_be_fold [of "unat b" bs] by (simp_all add: from_be_def)

lemma unat_byte: "unat (b :: byte) < 256"
  using unsigned_less [of b] by simp

lemma from_be_bound: "from_be bs < 256 ^ length bs"
proof (induction bs)
  case (Cons b bs)
  have "unat b * 256 ^ length bs + from_be bs < Suc (unat b) * 256 ^ length bs" using Cons by simp
  also have "\<dots> \<le> 256 * 256 ^ length bs" using unat_byte [of b] by (intro mult_right_mono) auto
  finally show ?case by (simp add: from_be_simps)
qed (simp add: from_be_simps)

lemma from_be_bytes: "from_be (be_bytes k n) = n mod 256 ^ k"
proof (induction k arbitrary: n)
  case (Suc k)
  have "n mod 256 ^ Suc k = n div 256 ^ k mod 256 * 256 ^ k + n mod 256 ^ k"
    using mod_mult2_eq [of n "256 ^ k" 256] by (simp add: mult.commute)
  then show ?case using Suc by (simp add: unat_of_nat from_be_simps)
qed (simp add: from_be_simps)

lemma from_be_bytes_id [simp]: "n < 256 ^ k \<Longrightarrow> from_be (be_bytes k n) = n"
  by (simp add: from_be_bytes)

section \<open>Results\<close>

text \<open>The \<open>?\<close> of the code.\<close>

definition and_then :: "'e + 'a \<Rightarrow> ('a \<Rightarrow> 'e + 'b) \<Rightarrow> 'e + 'b" where
  "and_then r f = (case r of Inl e \<Rightarrow> Inl e | Inr x \<Rightarrow> f x)"

lemma and_then_simps [simp]: "and_then (Inl e) f = Inl e" "and_then (Inr x) f = f x"
  by (simp_all add: and_then_def)

lemma and_then_cong [fundef_cong]:
  "r = r' \<Longrightarrow> (\<And>x. r' = Inr x \<Longrightarrow> f x = f' x) \<Longrightarrow> and_then r f = and_then r' f'"
  by (cases r') simp_all

lemma and_then_Inr: "and_then r f = Inr y \<longleftrightarrow> (\<exists>x. r = Inr x \<and> f x = Inr y)"
  by (cases r) simp_all

text \<open>A loop whose body may leave with an error.\<close>

fun for_each :: "'a list \<Rightarrow> ('a \<Rightarrow> 's \<Rightarrow> 'e + 's) \<Rightarrow> 's \<Rightarrow> 'e + 's" where
  "for_each [] body s = Inr s"
| "for_each (x # xs) body s = and_then (body x s) (for_each xs body)"

lemma for_each_append: "for_each (xs @ ys) body s = and_then (for_each xs body s) (for_each ys body)"
proof (induction xs arbitrary: s)
  case (Cons x xs)
  then show ?case by (cases "body x s") simp_all
qed simp

text \<open>The rule of such a loop: what the body keeps of the state, and the errors it may leave with.\<close>

lemma for_each_rule:
  assumes "\<And>x s r. x \<in> set xs \<Longrightarrow> I s \<Longrightarrow> body x s = Inr r \<Longrightarrow> I r"
    and "\<And>x s e. x \<in> set xs \<Longrightarrow> I s \<Longrightarrow> body x s = Inl e \<Longrightarrow> E e" and "I s"
  shows "case for_each xs body s of Inl e \<Rightarrow> E e | Inr r \<Rightarrow> I r"
  using assms
proof (induction xs arbitrary: s)
  case (Cons x xs)
  show ?case
  proof (cases "body x s")
    case (Inl e)
    then show ?thesis using Cons.prems(2) [of x s e] Cons.prems(3) by simp
  next
    case (Inr r)
    then have "I r" using Cons.prems(1) [of x s r] Cons.prems(3) by simp
    then have "case for_each xs body r of Inl e \<Rightarrow> E e | Inr r \<Rightarrow> I r"
      by (intro Cons.IH) (auto intro: Cons.prems(1) dest: Cons.prems(2) [rotated 2])
    then show ?thesis using Inr by simp
  qed
qed simp

section \<open>Comparison and stable sort\<close>

datatype rust_ordering = OrdLess | OrdEqual | OrdGreater

fun then_with :: "rust_ordering \<Rightarrow> rust_ordering \<Rightarrow> rust_ordering" where
  "then_with OrdEqual other = other"
| "then_with OrdLess other = OrdLess"
| "then_with OrdGreater other = OrdGreater"

definition rust_cmp :: "'a::linorder \<Rightarrow> 'a \<Rightarrow> rust_ordering" where
  "rust_cmp a b = (if a < b then OrdLess else if a = b then OrdEqual else OrdGreater)"

text \<open>
  \<open>slice::sort_by\<close> is stable; for a comparison that is a total preorder its result is
  determined, and this insertion sort computes it.
\<close>

fun insert_by :: "('a \<Rightarrow> 'a \<Rightarrow> rust_ordering) \<Rightarrow> 'a \<Rightarrow> 'a list \<Rightarrow> 'a list" where
  "insert_by cmp x [] = [x]"
| "insert_by cmp x (y # ys) =
     (if cmp x y = OrdGreater then y # insert_by cmp x ys else x # y # ys)"

definition sort_by :: "('a \<Rightarrow> 'a \<Rightarrow> rust_ordering) \<Rightarrow> 'a list \<Rightarrow> 'a list" where
  "sort_by cmp xs = foldr (insert_by cmp) xs []"

lemma then_with_Greater:
  "then_with a b = OrdGreater \<longleftrightarrow> a = OrdGreater \<or> a = OrdEqual \<and> b = OrdGreater"
  by (cases a) auto

lemma then_with_Equal: "then_with a b = OrdEqual \<longleftrightarrow> a = OrdEqual \<and> b = OrdEqual"
  by (cases a) auto

lemma rust_cmp_simps [simp]:
  "rust_cmp a b = OrdGreater \<longleftrightarrow> b < a" "rust_cmp a b = OrdEqual \<longleftrightarrow> a = b"
  "rust_cmp a b = OrdLess \<longleftrightarrow> a < b"
  by (auto simp: rust_cmp_def)

lemma mset_insert_by [simp]: "mset (insert_by cmp x xs) = add_mset x (mset xs)"
  by (induction xs) auto

lemma mset_sort_by [simp]: "mset (sort_by cmp xs) = mset xs"
  unfolding sort_by_def by (induction xs) auto

lemma set_sort_by [simp]: "set (sort_by cmp xs) = set xs"
  using mset_sort_by by (metis set_mset_mset)

lemma set_insert_by [simp]: "set (insert_by cmp x xs) = insert x (set xs)"
  by (induction xs) auto

lemma length_sort_by [simp]: "length (sort_by cmp xs) = length xs"
  by (metis mset_sort_by size_mset)

text \<open>
  A list sorted by \<open>cmp\<close> is one where no element exceeds a later one. Sorting makes it
  so when, on the elements at hand, the comparison is transitive and antisymmetric in its
  outcome, and it leaves a sorted list alone.
\<close>

definition cmp_ok_on :: "'a set \<Rightarrow> ('a \<Rightarrow> 'a \<Rightarrow> rust_ordering) \<Rightarrow> bool" where
  "cmp_ok_on A cmp \<longleftrightarrow>
     (\<forall>x \<in> A. \<forall>y \<in> A. cmp x y = OrdGreater \<longrightarrow> cmp y x \<noteq> OrdGreater) \<and>
     (\<forall>x \<in> A. \<forall>y \<in> A. \<forall>z \<in> A. cmp x y \<noteq> OrdGreater \<longrightarrow> cmp y z \<noteq> OrdGreater \<longrightarrow> cmp x z \<noteq> OrdGreater)"

lemma insert_by_sorted:
  assumes "cmp_ok_on A cmp" and "insert x (set xs) \<subseteq> A" and "sorted_wrt (\<lambda>a b. cmp a b \<noteq> OrdGreater) xs"
  shows "sorted_wrt (\<lambda>a b. cmp a b \<noteq> OrdGreater) (insert_by cmp x xs)"
  using assms(2,3)
proof (induction xs)
  case (Cons y ys)
  show ?case
  proof (cases "cmp x y = OrdGreater")
    case True
    then have "cmp y x \<noteq> OrdGreater" using assms(1) Cons.prems(1) by (auto simp: cmp_ok_on_def)
    then show ?thesis using Cons True by auto
  next
    case False
    have trans: "x \<in> A \<Longrightarrow> y \<in> A \<Longrightarrow> z \<in> A \<Longrightarrow> cmp y z \<noteq> OrdGreater \<Longrightarrow> cmp x z \<noteq> OrdGreater" for z
      using assms(1) False unfolding cmp_ok_on_def by blast
    have "cmp x z \<noteq> OrdGreater" if z: "z \<in> set ys" for z
      by (rule trans) (use Cons.prems z in auto)
    then show ?thesis using Cons.prems(2) False by simp
  qed
qed simp

lemma sort_by_sorted:
  "cmp_ok_on (set xs) cmp \<Longrightarrow> sorted_wrt (\<lambda>a b. cmp a b \<noteq> OrdGreater) (sort_by cmp xs)"
proof -
  assume ok: "cmp_ok_on (set xs) cmp"
  have "set ys \<subseteq> set xs \<Longrightarrow> sorted_wrt (\<lambda>a b. cmp a b \<noteq> OrdGreater) (foldr (insert_by cmp) ys [])" for ys
  proof (induction ys)
    case (Cons y ys)
    moreover have "set (foldr (insert_by cmp) ys []) = set ys"
      using set_sort_by [of cmp ys] by (simp add: sort_by_def)
    ultimately show ?case by (simp add: insert_by_sorted [OF ok])
  qed simp
  then show ?thesis by (simp add: sort_by_def)
qed

lemma sort_by_id: "sorted_wrt (\<lambda>a b. cmp a b \<noteq> OrdGreater) xs \<Longrightarrow> sort_by cmp xs = xs"
  unfolding sort_by_def
proof (induction xs)
  case (Cons x xs)
  then show ?case by (cases xs) auto
qed simp

lemma sum_mset_nonneg:
  fixes f :: "'a \<Rightarrow> int"
  shows "\<forall>x \<in># M. 0 \<le> f x \<Longrightarrow> 0 \<le> (\<Sum>x \<in># M. f x)"
  by (induction M) auto

section \<open>Ordered maps\<close>

text \<open>\<open>BTreeMap::insert\<close>, the map as its entries in key order.\<close>

fun btree_insert :: "'k::linorder \<Rightarrow> 'v \<Rightarrow> ('k \<times> 'v) list \<Rightarrow> ('k \<times> 'v) list" where
  "btree_insert k v [] = [(k, v)]"
| "btree_insert k v ((k', v') # rest) =
     (if k < k' then (k, v) # (k', v') # rest
      else if k = k' then (k, v) # rest
      else (k', v') # btree_insert k v rest)"

definition btree :: "('k::linorder \<times> 'v) list \<Rightarrow> bool" where
  "btree m \<longleftrightarrow> sorted_wrt (<) (map fst m)"

lemma keys_btree_insert: "fst ` set (btree_insert k v m) = insert k (fst ` set m)"
  by (induction k v m rule: btree_insert.induct) auto

lemma btree_insert_btree: "btree m \<Longrightarrow> btree (btree_insert k v m)"
proof (induction k v m rule: btree_insert.induct)
  case (2 k v k' v' rest)
  then show ?case using keys_btree_insert [of k v rest] by (auto simp: btree_def)
qed (simp add: btree_def)

lemma set_btree_insert:
  "k \<notin> fst ` set m \<Longrightarrow> set (btree_insert k v m) = insert (k, v) (set m)"
  by (induction k v m rule: btree_insert.induct) auto

section \<open>Keyed stores\<close>

text \<open>
  A \<open>HashMap\<close> is an association list with distinct keys. \<open>weight\<close> is the exact sum of a
  figure over its values, and the code adds the same figures with saturation; the locale
  \<open>nonneg_charge\<close> is the contract under which the two agree.
\<close>

definition weight :: "('v \<Rightarrow> int) \<Rightarrow> ('k \<times> 'v) list \<Rightarrow> int" where
  "weight wt kvs = sum_list (map (\<lambda>(k, v). wt v) kvs)"

lemma weight_simps [simp]: "weight wt [] = 0" "weight wt ((k, v) # kvs) = wt v + weight wt kvs"
  by (simp_all add: weight_def)

lemma weight_update_None: "map_of kvs k = None \<Longrightarrow> weight wt (AList.update k v kvs) = weight wt kvs + wt v"
  by (induction kvs) (auto split: if_splits)

lemma weight_update_Some:
  "map_of kvs k = Some u \<Longrightarrow> weight wt (AList.update k v kvs) = weight wt kvs - wt u + wt v"
  by (induction kvs) (auto split: if_splits)

lemma delete_absent: "map_of kvs k = None \<Longrightarrow> AList.delete k kvs = kvs"
  by (induction kvs) (auto simp: AList.delete_eq split: if_splits)

lemma weight_delete:
  "distinct (map fst kvs) \<Longrightarrow> map_of kvs k = Some u \<Longrightarrow>
   weight wt (AList.delete k kvs) = weight wt kvs - wt u"
proof (induction kvs)
  case (Cons kv kvs)
  obtain k' v where kv: "kv = (k', v)" by (cases kv)
  show ?case
  proof (cases "k' = k")
    case True
    then have "k \<notin> fst ` set kvs" using Cons.prems(1) kv by auto
    then have "map_of kvs k = None" by (simp add: map_of_eq_None_iff)
    then show ?thesis using True Cons.prems(2) kv delete_absent [of kvs k] by (simp add: AList.delete_eq)
  next
    case False
    then show ?thesis using Cons kv by (simp add: AList.delete_eq)
  qed
qed simp

lemma distinct_update_keys: "distinct (map fst kvs) \<Longrightarrow> distinct (map fst (AList.update k v kvs))"
  by (rule distinct_update)

lemma distinct_delete_keys: "distinct (map fst kvs) \<Longrightarrow> distinct (map fst (AList.delete k kvs))"
  by (rule distinct_delete)

lemma set_update_subset: "set (AList.update k v kvs) \<subseteq> insert (k, v) (set kvs)"
  by (induction kvs) auto

lemma set_delete_subset: "set (AList.delete k kvs) \<subseteq> set kvs"
  by (auto simp: AList.delete_eq)

definition sum_sat_i64 :: "int list \<Rightarrow> int" where
  "sum_sat_i64 xs = foldl saturating_add_i64 0 xs"

lemma foldl_saturating:
  "0 \<le> a \<Longrightarrow> a \<le> I64_MAX \<Longrightarrow> \<forall>x \<in> set xs. 0 \<le> x \<Longrightarrow>
   foldl saturating_add_i64 a xs = min I64_MAX (a + sum_list xs)"
proof (induction xs arbitrary: a)
  case (Cons x xs)
  have "0 \<le> sum_list xs" using Cons.prems(3) by (simp add: sum_list_nonneg)
  moreover have "saturating_add_i64 a x = min I64_MAX (a + x)"
    using Cons.prems by (simp add: saturating_add_i64_def sat_i64_def)
  ultimately show ?case using Cons.IH [of "min I64_MAX (a + x)"] Cons.prems by (simp add: min_def)
qed simp

locale nonneg_charge =
  fixes ok :: "'v \<Rightarrow> bool" and wt :: "'v \<Rightarrow> int"
  assumes wt_nonneg: "ok v \<Longrightarrow> 0 \<le> wt v"
begin

lemma weight_nonneg: "\<forall>(k, v) \<in> set kvs. ok v \<Longrightarrow> 0 \<le> weight wt kvs"
proof (induction kvs)
  case (Cons kv kvs)
  then show ?case using wt_nonneg [of "snd kv"] by (cases kv) auto
qed simp

lemma weight_ge: "\<forall>(k, v) \<in> set kvs. ok v \<Longrightarrow> map_of kvs k = Some v \<Longrightarrow> wt v \<le> weight wt kvs"
proof (induction kvs)
  case (Cons kv kvs)
  obtain k' u where kv: "kv = (k', u)" by (cases kv)
  have "0 \<le> weight wt kvs" by (rule weight_nonneg) (use Cons.prems(1) in auto)
  moreover have "0 \<le> wt u" using Cons.prems(1) kv by (auto intro: wt_nonneg)
  ultimately show ?case using Cons kv by (auto split: if_splits)
qed simp

lemma saturating_total:
  "\<forall>(k, v) \<in> set kvs. ok v \<Longrightarrow> sum_sat_i64 (map wt (map snd kvs)) = min I64_MAX (weight wt kvs)"
proof -
  assume ok: "\<forall>(k, v) \<in> set kvs. ok v"
  have "sum_list (map wt (map snd kvs)) = weight wt kvs" by (induction kvs) auto
  moreover have "\<forall>x \<in> set (map wt (map snd kvs)). 0 \<le> x" using ok wt_nonneg by auto
  ultimately show ?thesis using foldl_saturating [of 0 "map wt (map snd kvs)"] by (simp add: sum_sat_i64_def)
qed

end

end
