(* ===== verification/CutPolicy.thy ===== *)
theory CutPolicy
  imports Prelude
begin

text \<open>
  The cut decision of the fragmented-MP4 reader (\<open>crates/plurx-core/src/fmp4.rs\<close>): the
  parsed shape of an initialization segment and of a fragment, the classification of a
  fragment's opening keyframe, and \<open>CutPolicy::cut_before\<close>, which says whether the
  fragments accumulated so far are published before the one that just arrived.
  The locale \<open>cut_rule\<close> is the contract the planner of \<open>SegPlan\<close> relies on.
\<close>

unbundle bit_operations_syntax

section \<open>Parsed initialization segment and fragment\<close>

datatype track_kind = Video | Audio | OtherKind

datatype video_codec = Hevc | H264

record track =
  tr_id :: nat
  tr_kind :: track_kind
  tr_timescale :: nat
  tr_has_edit_list :: bool
  tr_codec :: "video_codec option"
  tr_dolby_vision_config :: bool
  tr_nal_length_size :: nat
  tr_default_sample_duration :: nat
  tr_default_sample_size :: nat
  tr_default_sample_flags :: nat

record init_segment =
  in_bytes :: "8 word list"
  in_tracks :: "track list"

definition init_video :: "init_segment \<Rightarrow> track option" where
  "init_video ini = find (\<lambda>t. tr_kind t = Video) (in_tracks ini)"

definition init_track :: "init_segment \<Rightarrow> nat \<Rightarrow> track option" where
  "init_track ini i = find (\<lambda>t. tr_id t = i) (in_tracks ini)"

record sample =
  sm_duration :: nat
  sm_size :: nat
  sm_size_at :: "nat option"
  sm_flags :: "32 word"
  sm_cto :: int

definition sample_is_sync :: "sample \<Rightarrow> bool" where
  "sample_is_sync s \<longleftrightarrow> sm_flags s AND 0x00010000 = 0"

record run =
  rn_version :: nat
  rn_composition_offsets_present :: bool
  rn_data_offset :: nat
  rn_data_offset_at :: "nat option"
  rn_samples :: "sample list"

definition run_byte_len :: "run \<Rightarrow> nat" where
  "run_byte_len r = (\<Sum>s \<leftarrow> rn_samples r. sm_size s)"

record track_fragment =
  tf_track_id :: nat
  tf_base_decode_time :: nat
  tf_runs :: "run list"

definition tf_samples :: "track_fragment \<Rightarrow> sample list" where
  "tf_samples tf = concat (map rn_samples (tf_runs tf))"

definition tf_sample_count :: "track_fragment \<Rightarrow> nat" where
  "tf_sample_count tf = (\<Sum>r \<leftarrow> tf_runs tf. length (rn_samples r))"

definition tf_duration :: "track_fragment \<Rightarrow> nat" where
  "tf_duration tf = (\<Sum>s \<leftarrow> tf_samples tf. sm_duration s)"

definition tf_byte_len :: "track_fragment \<Rightarrow> nat" where
  "tf_byte_len tf = (\<Sum>r \<leftarrow> tf_runs tf. run_byte_len r)"

record fragment =
  fr_bytes :: "8 word list"
  fr_mdat_payload :: "nat \<times> nat"
  fr_tracks :: "track_fragment list"

definition fragment_track :: "fragment \<Rightarrow> nat \<Rightarrow> track_fragment option" where
  "fragment_track f i = find (\<lambda>t. tf_track_id t = i) (fr_tracks f)"

definition fragment_len :: "fragment \<Rightarrow> nat" where
  "fragment_len f = length (fr_bytes f)"

section \<open>Classification of a fragment's opening keyframe\<close>

datatype cut_class = CleanIdr | CleanCra | Dirty | Unparseable

fun class_is_clean :: "cut_class \<Rightarrow> bool" where
  "class_is_clean CleanIdr = True"
| "class_is_clean CleanCra = True"
| "class_is_clean Dirty = False"
| "class_is_clean Unparseable = False"

fun class_label :: "cut_class \<Rightarrow> string" where
  "class_label CleanIdr = ''idr''"
| "class_label CleanCra = ''cra''"
| "class_label Dirty = ''dirty''"
| "class_label Unparseable = ''unparseable''"

text \<open>
  The length prefix of a NAL unit, most significant byte first, accumulated in a
  \<open>usize\<close>; the shift drops what no longer fits, as it does in the code.
\<close>

fun nal_length :: "64 word \<Rightarrow> 8 word list \<Rightarrow> 64 word" where
  "nal_length acc [] = acc"
| "nal_length acc (b # bs) = nal_length (push_bit 8 acc OR ucast b) bs"

definition nal_type :: "video_codec \<Rightarrow> 8 word \<Rightarrow> 8 word" where
  "nal_type codec head = (case codec of
       Hevc \<Rightarrow> drop_bit 1 head AND 0x3f
     | H264 \<Rightarrow> head AND 0x1f)"

definition nal_is_vcl :: "video_codec \<Rightarrow> 8 word \<Rightarrow> bool" where
  "nal_is_vcl codec ty = (case codec of Hevc \<Rightarrow> ty \<le> 31 | H264 \<Rightarrow> 1 \<le> ty \<and> ty \<le> 5)"

text \<open>
  \<open>first_vcl_nal\<close> walks the length-prefixed units from offset \<open>q\<close>. The two checked
  additions of the code answer \<open>None\<close> past \<open>usize\<close>.
\<close>

function first_vcl_nal_from :: "8 word list \<Rightarrow> nat \<Rightarrow> video_codec \<Rightarrow> nat \<Rightarrow> 8 word option" where
  "first_vcl_nal_from sample lsz codec q =
     (if q + lsz < length sample then
        let nlen = unat (nal_length 0 (take lsz (drop q sample)));
            ty = nal_type codec (sample ! (q + lsz))
        in if nal_is_vcl codec ty then Some ty
           else if nlen = 0 then None
           else case Option.bind (checked_add_usize q lsz) (\<lambda>p. checked_add_usize p nlen) of
                  None \<Rightarrow> None
                | Some q' \<Rightarrow> first_vcl_nal_from sample lsz codec q'
      else None)"
  by pat_completeness auto
termination
  by (relation "measure (\<lambda>(sample, lsz, codec, q). length sample - q)")
     (auto simp: bind_eq_Some_conv)

declare first_vcl_nal_from.simps [simp del]

definition first_vcl_nal :: "8 word list \<Rightarrow> nat \<Rightarrow> video_codec \<Rightarrow> 8 word option" where
  "first_vcl_nal sample length_size codec = first_vcl_nal_from sample length_size codec 0"

text \<open>
  \<open>has_leading_picture\<close>: does any sample present before the first one? \<open>dts\<close> and
  \<open>first_pts\<close> are the loop's two variables; the \<open>i64\<close> additions wrap.
\<close>

fun leading_from :: "int \<Rightarrow> int option \<Rightarrow> sample list \<Rightarrow> bool" where
  "leading_from dts first_pts [] = False"
| "leading_from dts first_pts (s # ss) =
     (let pts = wrap_i64 (dts + sm_cto s);
          dts' = wrap_i64 (dts + int (sm_duration s))
      in case first_pts of
           None \<Rightarrow> leading_from dts' (Some pts) ss
         | Some p0 \<Rightarrow> if pts < p0 then True else leading_from dts' first_pts ss)"

definition has_leading_picture :: "track_fragment \<Rightarrow> bool" where
  "has_leading_picture tf = leading_from 0 None (tf_samples tf)"

definition classify_nal :: "video_codec \<Rightarrow> 8 word \<Rightarrow> track_fragment \<Rightarrow> cut_class" where
  "classify_nal codec nal tf = (case codec of
       Hevc \<Rightarrow>
         if nal = 19 \<or> nal = 20 then CleanIdr
         else if (16 \<le> nal \<and> nal \<le> 18) \<or> nal = 21
              then (if has_leading_picture tf then Dirty else CleanCra)
         else Dirty
     | H264 \<Rightarrow> if nal = 5 then CleanIdr else Dirty)"

definition classify :: "fragment \<Rightarrow> init_segment \<Rightarrow> cut_class" where
  "classify frag ini = (case init_video ini of None \<Rightarrow> Unparseable | Some video \<Rightarrow>
     (case fragment_track frag (tr_id video) of None \<Rightarrow> Unparseable | Some tf \<Rightarrow>
     (case tf_runs tf of [] \<Rightarrow> Unparseable | rn # _ \<Rightarrow>
     (case rn_samples rn of [] \<Rightarrow> Unparseable | first # _ \<Rightarrow>
     (case tr_codec video of None \<Rightarrow> Unparseable | Some codec \<Rightarrow>
        if tr_nal_length_size video = 0 then Unparseable
        else let start = rn_data_offset rn;
                 stop = min USIZE_MAX (start + sm_size first)
             in if length (fr_bytes frag) < stop then Unparseable
                else case first_vcl_nal (take (stop - start) (drop start (fr_bytes frag)))
                            (tr_nal_length_size video) codec of
                       None \<Rightarrow> Unparseable
                     | Some nal \<Rightarrow> classify_nal codec nal tf)))))"

section \<open>The cut policy\<close>

datatype cut_reason = Clean | ByteCeiling | TimeCeiling | EndOfStream

definition reason_is_clean :: "cut_reason \<Rightarrow> bool" where
  "reason_is_clean r \<longleftrightarrow> r = Clean"

fun reason_label :: "cut_reason \<Rightarrow> string" where
  "reason_label Clean = ''clean''"
| "reason_label ByteCeiling = ''byte-ceiling''"
| "reason_label TimeCeiling = ''time-ceiling''"
| "reason_label EndOfStream = ''eof''"

record cut_policy =
  floor_ticks :: nat
  first_floor_ticks :: nat
  max_bytes :: nat
  max_ticks :: nat
  strict_max_ticks :: "nat option"

text \<open>\<open>CutPolicy::new\<close>: products of two \<open>u32\<close> values, which fit \<open>u64\<close>.\<close>

definition cut_policy_new :: "nat \<Rightarrow> nat \<Rightarrow> nat \<Rightarrow> nat \<Rightarrow> nat \<Rightarrow> cut_policy" where
  "cut_policy_new floor_seconds first_floor_seconds bytes max_seconds timescale =
     (let ts = max timescale 1 in
      \<lparr> floor_ticks = floor_seconds * ts,
        first_floor_ticks = min first_floor_seconds floor_seconds * ts,
        max_bytes = bytes,
        max_ticks = max_seconds * ts,
        strict_max_ticks = None \<rparr>)"

definition with_strict_max_seconds :: "cut_policy \<Rightarrow> nat \<Rightarrow> nat \<Rightarrow> cut_policy" where
  "with_strict_max_seconds p strict_max_seconds timescale =
     p\<lparr> strict_max_ticks := Some (strict_max_seconds * max timescale 1) \<rparr>"

definition cut_before ::
    "cut_policy \<Rightarrow> nat \<Rightarrow> nat \<Rightarrow> cut_class \<Rightarrow> bool \<Rightarrow> cut_reason option" where
  "cut_before p pending_ticks pending_bytes next_class first_segment =
     (let flr = (if first_segment then first_floor_ticks p else floor_ticks p) in
      if pending_bytes = 0 \<or> pending_ticks < flr then None
      else if class_is_clean next_class then Some Clean
      else if max_bytes p \<le> pending_bytes then Some ByteCeiling
      else if max_ticks p \<le> pending_ticks then Some TimeCeiling
      else None)"

section \<open>Leading pictures\<close>

text \<open>
  What \<open>leading_from\<close> computes, without the machine arithmetic: the presentation times
  of the samples from decode time \<open>d\<close>, and the condition that they fit \<open>i64\<close>.
\<close>

fun sample_pts :: "int \<Rightarrow> sample list \<Rightarrow> int list" where
  "sample_pts d [] = []"
| "sample_pts d (s # ss) = (d + sm_cto s) # sample_pts (d + int (sm_duration s)) ss"

fun times_fit :: "int \<Rightarrow> sample list \<Rightarrow> bool" where
  "times_fit d [] = True"
| "times_fit d (s # ss) =
     (i64_ok (d + sm_cto s) \<and> i64_ok (d + int (sm_duration s)) \<and>
      times_fit (d + int (sm_duration s)) ss)"

lemma wrap_i64_ok [simp]: "i64_ok x \<Longrightarrow> wrap_i64 x = x"
  by (simp add: i64_ok_def)

lemma leading_from_Some:
  "times_fit d ss \<Longrightarrow> leading_from d (Some p0) ss \<longleftrightarrow> (\<exists>p \<in> set (sample_pts d ss). p < p0)"
  by (induction ss arbitrary: d) (auto simp: Let_def)

lemma leading_from_None:
  "times_fit d ss \<Longrightarrow>
   leading_from d None ss \<longleftrightarrow> ss \<noteq> [] \<and> (\<exists>p \<in> set (sample_pts d ss). p < hd (sample_pts d ss))"
  by (cases ss) (auto simp: leading_from_Some Let_def)

lemma has_leading_picture_iff:
  "times_fit 0 (tf_samples tf) \<Longrightarrow>
   has_leading_picture tf \<longleftrightarrow>
     tf_samples tf \<noteq> [] \<and>
     (\<exists>p \<in> set (sample_pts 0 (tf_samples tf)). p < hd (sample_pts 0 (tf_samples tf)))"
  by (simp add: has_leading_picture_def leading_from_None)

section \<open>Reading the first slice\<close>

text \<open>
  A reference encoder for length-prefixed samples: a unit is its header byte and its payload.
\<close>

definition encode_nal :: "nat \<Rightarrow> 8 word \<times> 8 word list \<Rightarrow> 8 word list" where
  "encode_nal lsz u = be_bytes lsz (Suc (length (snd u))) @ fst u # snd u"

definition encode_sample :: "nat \<Rightarrow> (8 word \<times> 8 word list) list \<Rightarrow> 8 word list" where
  "encode_sample lsz us = concat (map (encode_nal lsz) us)"

definition first_slice :: "video_codec \<Rightarrow> (8 word \<times> 8 word list) list \<Rightarrow> 8 word option" where
  "first_slice codec us =
     map_option (\<lambda>u. nal_type codec (fst u)) (find (\<lambda>u. nal_is_vcl codec (nal_type codec (fst u))) us)"

lemma shift_in_byte:
  assumes "unat (acc :: 64 word) < 256 ^ 7"
  shows "unat (push_bit 8 acc OR ucast (b :: 8 word)) = unat acc * 256 + unat b"
proof -
  have disj: "push_bit 8 acc AND ucast b = (0 :: 64 word)"
    by (rule bit_word_eqI) (auto simp: bit_simps dest: bit_imp_le_length)
  have "push_bit 8 acc OR ucast b = push_bit 8 acc + (ucast b :: 64 word)"
    by (rule disjunctive_add_eq_or [OF disj, symmetric])
  moreover have "unat (push_bit 8 acc) = unat acc * 256"
    using assms by (simp add: push_bit_eq_mult unat_word_ariths)
  moreover have "unat (ucast b :: 64 word) = unat b"
    using unat_byte [of b] by (simp add: unsigned_ucast_eq take_bit_nat_eq_self)
  moreover have "unat b < 256" using unat_byte [of b] by simp
  ultimately show ?thesis using assms by (simp add: unat_word_ariths)
qed

lemma nal_length_be_bytes:
  "k \<le> 8 \<Longrightarrow> n < 256 ^ k \<Longrightarrow> unat acc < 256 ^ (8 - k) \<Longrightarrow>
   unat (nal_length acc (be_bytes k n)) = unat acc * 256 ^ k + n"
proof (induction k arbitrary: acc n)
  case 0
  then show ?case by simp
next
  case (Suc k)
  let ?b = "of_nat (n div 256 ^ k) :: 8 word"
  have div: "n div 256 ^ k < 256"
    using Suc.prems(2) by (simp add: less_mult_imp_div_less)
  have b: "unat ?b = n div 256 ^ k"
    using div by (simp add: unat_of_nat)
  have "(256::nat) ^ (8 - Suc k) \<le> 256 ^ 7" by (rule power_increasing) auto
  then have acc: "unat acc < 256 ^ 7" using Suc.prems(3) by linarith
  have step: "unat (push_bit 8 acc OR ucast ?b) = unat acc * 256 + n div 256 ^ k"
    using shift_in_byte [OF acc, of ?b] b by simp
  have "Suc (unat acc) * 256 \<le> 256 ^ (8 - Suc k) * 256"
    using Suc.prems(3) by (intro mult_right_mono) auto
  also have "\<dots> = 256 ^ (8 - k)"
    using Suc_diff_le [of k 7] Suc.prems(1) by simp
  finally have "unat acc * 256 + n div 256 ^ k < 256 ^ (8 - k)" using div by simp
  then have "unat (nal_length (push_bit 8 acc OR ucast ?b) (be_bytes k (n mod 256 ^ k)))
      = (unat acc * 256 + n div 256 ^ k) * 256 ^ k + n mod 256 ^ k"
    using Suc.IH [of "n mod 256 ^ k" "push_bit 8 acc OR ucast ?b"] Suc.prems(1) step by simp
  also have "\<dots> = unat acc * 256 ^ Suc k + (n div 256 ^ k * 256 ^ k + n mod 256 ^ k)"
    by (simp add: algebra_simps)
  also have "\<dots> = unat acc * 256 ^ Suc k + n"
    by (simp only: div_mult_mod_eq)
  finally show ?case by simp
qed

lemma first_vcl_nal_from_encoded:
  assumes lsz: "0 < lsz" "lsz \<le> 8"
    and fits: "\<And>u. u \<in> set us \<Longrightarrow> Suc (length (snd u)) < 256 ^ lsz"
    and len: "length (pre @ encode_sample lsz us) \<le> USIZE_MAX"
  shows "first_vcl_nal_from (pre @ encode_sample lsz us) lsz codec (length pre) = first_slice codec us"
  using fits len
proof (induction us arbitrary: pre)
  case Nil
  then show ?case
    using lsz by (simp add: first_slice_def encode_sample_def first_vcl_nal_from.simps)
next
  case (Cons u us)
  let ?sample = "pre @ encode_sample lsz (u # us)"
  let ?n = "Suc (length (snd u))"
  have eq: "?sample = (pre @ encode_nal lsz u) @ encode_sample lsz us"
    by (simp add: encode_sample_def)
  have lenu: "length (pre @ encode_nal lsz u) = length pre + lsz + ?n"
    by (simp add: encode_nal_def)
  have pos: "length pre + lsz < length ?sample"
    by (simp add: encode_sample_def encode_nal_def)
  have prefix: "take lsz (drop (length pre) ?sample) = be_bytes lsz ?n"
    by (simp add: encode_sample_def encode_nal_def)
  have head: "?sample ! (length pre + lsz) = fst u"
    by (simp add: encode_sample_def encode_nal_def nth_append)
  have nlen: "unat (nal_length 0 (be_bytes lsz ?n)) = ?n"
    using nal_length_be_bytes [of lsz ?n 0] lsz Cons.prems(1) [of u] by simp
  have small: "length pre + lsz + ?n \<le> USIZE_MAX"
    using Cons.prems(2) eq lenu by (simp add: encode_sample_def encode_nal_def)
  have rest: "first_vcl_nal_from ?sample lsz codec (length pre + lsz + ?n) = first_slice codec us"
    using Cons.IH [of "pre @ encode_nal lsz u"] Cons.prems eq lenu
    by (simp add: encode_nal_def add.assoc)
  obtain S where S: "S = ?sample" by simp
  have adds: "Option.bind (checked_add_usize (length pre) lsz) (\<lambda>p. checked_add_usize p ?n)
      = Some (length pre + lsz + ?n)"
    using small by (simp add: checked_add_usize_def)
  have "first_vcl_nal_from S lsz codec (length pre) = first_slice codec (u # us)"
    using pos rest prefix head nlen adds unfolding S [symmetric]
    by (subst first_vcl_nal_from.simps) (simp add: first_slice_def Let_def)
  then show ?case by (simp add: S)
qed

lemma first_vcl_nal_encoded:
  assumes "0 < lsz" "lsz \<le> 8" "\<And>u. u \<in> set us \<Longrightarrow> Suc (length (snd u)) < 256 ^ lsz"
    and "length (encode_sample lsz us) \<le> USIZE_MAX"
  shows "first_vcl_nal (encode_sample lsz us) lsz codec = first_slice codec us"
  using first_vcl_nal_from_encoded [of lsz us "[]"] assms by (simp add: first_vcl_nal_def)

section \<open>The class of a fragment\<close>

text \<open>The reference verdict on the type of the first slice.\<close>

definition verdict :: "video_codec \<Rightarrow> 8 word option \<Rightarrow> bool \<Rightarrow> cut_class" where
  "verdict codec ty1 leads = (case (codec, ty1) of
       (_, None) \<Rightarrow> Unparseable
     | (H264, Some ty) \<Rightarrow> if ty = 5 then CleanIdr else Dirty
     | (Hevc, Some ty) \<Rightarrow>
         if ty \<in> {19, 20} then CleanIdr
         else if ty \<in> {16, 17, 18, 21} then (if leads then Dirty else CleanCra)
         else Dirty)"

definition presents_before_first :: "sample list \<Rightarrow> bool" where
  "presents_before_first ss \<longleftrightarrow> ss \<noteq> [] \<and> (\<exists>p \<in> set (sample_pts 0 ss). p < hd (sample_pts 0 ss))"

lemma between_16_18: "(16 :: 8 word) \<le> x \<and> x \<le> 18 \<longleftrightarrow> x = 16 \<or> x = 17 \<or> x = 18"
proof -
  have "16 \<le> unat x \<and> unat x \<le> 18 \<longleftrightarrow> unat x = 16 \<or> unat x = 17 \<or> unat x = 18" by arith
  then show ?thesis by (simp add: word_le_nat_alt word_unat_eq_iff)
qed

text \<open>C37: A fragment is classified by its first slice: when the sample its first run points at is
  a sequence of length-prefixed units, the class is the verdict on the type of the first
  unit that carries picture data, an open keyframe being clean exactly when no sample of the
  fragment presents before the first one.\<close>

theorem classify_reads_first_slice:
  assumes "init_video ini = Some video" and "fragment_track frag (tr_id video) = Some tf"
    and "tf_runs tf = rn # rns" and "rn_samples rn = first # others" and "tr_codec video = Some codec"
    and "0 < tr_nal_length_size video" and "tr_nal_length_size video \<le> 8"
    and "\<forall>u \<in> set us. Suc (length (snd u)) < 256 ^ tr_nal_length_size video"
    and "fr_bytes frag = pre @ encode_sample (tr_nal_length_size video) us @ post"
    and "length (fr_bytes frag) \<le> USIZE_MAX" and "rn_data_offset rn = length pre"
    and "sm_size first = length (encode_sample (tr_nal_length_size video) us)"
    and "times_fit 0 (tf_samples tf)"
  shows "classify frag ini = verdict codec (first_slice codec us) (presents_before_first (tf_samples tf))"
proof -
  let ?enc = "encode_sample (tr_nal_length_size video) us"
  have len: "length pre + length ?enc \<le> USIZE_MAX" using assms(9,10) by simp
  have first1: "first_vcl_nal ?enc (tr_nal_length_size video) codec = first_slice codec us"
    using first_vcl_nal_encoded [of "tr_nal_length_size video" us codec] assms(6-8) len by simp
  have "classify frag ini = (case first_slice codec us of None \<Rightarrow> Unparseable | Some nal \<Rightarrow> classify_nal codec nal tf)"
    using assms(1-6,9,11,12) len first1 by (simp add: classify_def Let_def min_def)
  moreover have "has_leading_picture tf \<longleftrightarrow> presents_before_first (tf_samples tf)"
    using has_leading_picture_iff [OF assms(13)] by (simp add: presents_before_first_def)
  ultimately show ?thesis
    by (simp add: verdict_def classify_nal_def between_16_18 split: option.split video_codec.split)
qed

text \<open>An access unit delimiter, then a clean random access slice, in four-byte framing.\<close>

definition demo_units :: "(8 word \<times> 8 word list) list" where
  "demo_units = [(0x46, [1]), (0x2a, [2, 3])]"

definition demo_init :: init_segment where
  "demo_init = \<lparr> in_bytes = [], in_tracks = [\<lparr> tr_id = 1, tr_kind = Video, tr_timescale = 1000,
     tr_has_edit_list = False, tr_codec = Some Hevc, tr_dolby_vision_config = False, tr_nal_length_size = 4,
     tr_default_sample_duration = 0, tr_default_sample_size = 0, tr_default_sample_flags = 0 \<rparr>] \<rparr>"

definition demo_sample :: "nat \<Rightarrow> int \<Rightarrow> sample" where
  "demo_sample n cto = \<lparr> sm_duration = 40, sm_size = n, sm_size_at = None, sm_flags = 0, sm_cto = cto \<rparr>"

definition demo_fragment :: fragment where
  "demo_fragment = \<lparr> fr_bytes = [9, 9] @ encode_sample 4 demo_units @ [7], fr_mdat_payload = (2, 16),
     fr_tracks = [\<lparr> tf_track_id = 1, tf_base_decode_time = 0, tf_runs =
       [\<lparr> rn_version = 1, rn_composition_offsets_present = True, rn_data_offset = 2, rn_data_offset_at = None,
          rn_samples = [demo_sample 13 80, demo_sample 1 40] \<rparr>] \<rparr>] \<rparr>"

theorem classify_reads_first_slice_witness: "classify demo_fragment demo_init = CleanCra"
proof -
  have "length (encode_sample 4 demo_units) = 13" by (simp add: encode_sample_def encode_nal_def demo_units_def)
  moreover have "first_slice Hevc demo_units = Some 21"
    by (simp add: first_slice_def demo_units_def nal_type_def nal_is_vcl_def)
  moreover have "\<not> presents_before_first [demo_sample 13 80, demo_sample 1 40]"
    by (simp add: presents_before_first_def demo_sample_def)
  moreover have "\<forall>u \<in> set demo_units. Suc (length (snd u)) < 256 ^ 4" by (simp add: demo_units_def)
  ultimately show ?thesis
    using classify_reads_first_slice [of demo_init "hd (in_tracks demo_init)" demo_fragment
        "hd (fr_tracks demo_fragment)" "hd (tf_runs (hd (fr_tracks demo_fragment)))" "[]"
        "demo_sample 13 80" "[demo_sample 1 40]" Hevc demo_units "[9, 9]" "[7]"]
    by (simp add: demo_init_def demo_fragment_def init_video_def fragment_track_def tf_samples_def
        demo_sample_def verdict_def i64_ok_def)
qed

section \<open>The contract of a cut rule\<close>

text \<open>
  What a planner needs of the policy it asks: it never ends an empty segment, it never
  ends one below the floor, it names a boundary clean exactly when the arriving fragment
  is clean, and it never reports the end of the stream.
\<close>

locale cut_rule =
  fixes cut :: "nat \<Rightarrow> nat \<Rightarrow> cut_class \<Rightarrow> bool \<Rightarrow> cut_reason option"
    and flr :: "bool \<Rightarrow> nat"
  assumes cut_nonempty: "cut t b c f = Some r \<Longrightarrow> b \<noteq> 0"
    and cut_floor: "cut t b c f = Some r \<Longrightarrow> flr f \<le> t"
    and cut_clean: "cut t b c f = Some r \<Longrightarrow> r = Clean \<longleftrightarrow> class_is_clean c"
    and cut_not_eof: "cut t b c f = Some r \<Longrightarrow> r \<noteq> EndOfStream"

definition policy_floor :: "cut_policy \<Rightarrow> bool \<Rightarrow> nat" where
  "policy_floor p first_segment = (if first_segment then first_floor_ticks p else floor_ticks p)"

interpretation policy: cut_rule "cut_before p" "policy_floor p" for p
  by unfold_locales (auto simp: cut_before_def policy_floor_def Let_def split: if_splits)

end
