(* ===== verification/FragmentIndex.thy ===== *)
theory FragmentIndex
  imports CutPolicy
begin

text \<open>
  The fragment index of \<open>crates/plurx-core/src/segplan.rs\<close>: its identity (with the FNV-1a
  fingerprint of the video arguments), its rows, and the recorded refusals that say when
  an index may be attempted again (\<open>FragmentIndexOutcome::state\<close>).
\<close>

section \<open>Identity\<close>

abbreviation SEGPLAN_VERSION :: nat where "SEGPLAN_VERSION \<equiv> 3"

record source_identity =
  si_size :: nat
  si_mtime_ms :: int
  si_argv_fingerprint :: string

definition source_identity_new :: "nat \<Rightarrow> int \<Rightarrow> string \<Rightarrow> source_identity" where
  "source_identity_new size_bytes mtime_ms fp =
     \<lparr> si_size = size_bytes, si_mtime_ms = mtime_ms, si_argv_fingerprint = fp \<rparr>"

definition source_matches :: "source_identity \<Rightarrow> source_identity \<Rightarrow> bool" where
  "source_matches a b \<longleftrightarrow> a = b"

text \<open>
  \<open>argv_fingerprint\<close>: FNV-1a over the bytes of every argument, a separator byte
  \<open>0x1f\<close> after each, printed as sixteen lower-case hexadecimal digits.
\<close>

definition fnv_step :: "64 word \<Rightarrow> 8 word \<Rightarrow> 64 word" where
  "fnv_step hash byte = (hash XOR ucast byte) * 0x00000100000001b3"

fun fnv_bytes :: "64 word \<Rightarrow> 8 word list \<Rightarrow> 64 word" where
  "fnv_bytes hash [] = hash"
| "fnv_bytes hash (b # bs) = fnv_bytes (fnv_step hash b) bs"

fun fnv_args :: "64 word \<Rightarrow> 8 word list list \<Rightarrow> 64 word" where
  "fnv_args hash [] = hash"
| "fnv_args hash (a # as) = fnv_args (fnv_step (fnv_bytes hash a) 0x1f) as"

definition hex_digit :: "nat \<Rightarrow> char" where
  "hex_digit n = ''0123456789abcdef'' ! (n mod 16)"

fun hex_digits :: "nat \<Rightarrow> nat \<Rightarrow> string" where
  "hex_digits 0 n = []"
| "hex_digits (Suc k) n = hex_digits k (n div 16) @ [hex_digit n]"

definition argv_fingerprint :: "8 word list list \<Rightarrow> string" where
  "argv_fingerprint video_args = hex_digits 16 (unat (fnv_args 0xcbf29ce484222325 video_args))"

section \<open>Recorded refusals\<close>

datatype index_refusal = Truncated nat | Unsupported

fun refusal_code :: "index_refusal \<Rightarrow> string" where
  "refusal_code (Truncated rows) = ''truncated''"
| "refusal_code Unsupported = ''unsupported''"

fun refusal_is_retryable :: "index_refusal \<Rightarrow> bool" where
  "refusal_is_retryable (Truncated rows) = True"
| "refusal_is_retryable Unsupported = False"

datatype index_failure_code =
  IndexBudgetExceeded | IndexProbeTimeout | IndexSourceIo | IndexProcessFailed
| IndexVideoShortfall | IndexCompletionUnverified | IndexOutputMalformed
| IndexRetryWindowExpired | IndexUnsupported

abbreviation INDEX_FAILURE_POLICY_REVISION :: nat where
  "INDEX_FAILURE_POLICY_REVISION \<equiv> 2"

text \<open>
  \<open>FragmentIndexOutcome\<close>. The attached \<open>IndexDiagnostic\<close> is carried but never read by
  the operations below, so it is a type parameter.
\<close>

record 'd index_outcome =
  io_source :: source_identity
  io_refusal :: index_refusal
  io_reason :: string
  io_attempts :: nat
  io_next_attempt_at_ms :: int
  io_updated_at_ms :: int
  io_typed_code :: "index_failure_code option"
  io_typed_retryable :: "bool option"
  io_retry_deadline_ms :: int
  io_policy_revision :: nat
  io_terminal_reason :: "string option"
  io_diagnostic :: "'d option"

datatype index_outcome_state = Due | WaitUntil int | Terminal

definition outcome_state :: "'d index_outcome \<Rightarrow> int \<Rightarrow> index_outcome_state" where
  "outcome_state o1 now_ms =
     (if io_typed_code o1 = Some IndexBudgetExceeded
         \<and> (case io_refusal o1 of Truncated rows \<Rightarrow> True | Unsupported \<Rightarrow> False)
         \<and> io_policy_revision o1 < INDEX_FAILURE_POLICY_REVISION
      then Due
      else let retryable = (case io_typed_retryable o1 of
                              Some r \<Rightarrow> r
                            | None \<Rightarrow> refusal_is_retryable (io_refusal o1))
           in if \<not> retryable \<or> io_next_attempt_at_ms o1 = I64_MAX then Terminal
              else if io_next_attempt_at_ms o1 \<le> now_ms then Due
              else WaitUntil (io_next_attempt_at_ms o1))"

definition outcome_is_due :: "'d index_outcome \<Rightarrow> int \<Rightarrow> bool" where
  "outcome_is_due o1 now_ms \<longleftrightarrow> outcome_state o1 now_ms = Due"

definition outcome_is_terminal :: "'d index_outcome \<Rightarrow> int \<Rightarrow> bool" where
  "outcome_is_terminal o1 now_ms \<longleftrightarrow> outcome_state o1 now_ms = Terminal"

section \<open>Rows and index\<close>

record index_row =
  ir_dts :: nat
  ir_duration :: nat
  ir_bytes :: nat
  ir_video_bytes :: nat
  ir_class :: cut_class

definition row_clean :: "index_row \<Rightarrow> bool" where
  "row_clean r = class_is_clean (ir_class r)"

text \<open>The serialised spelling of a class, and the reader that refuses any other word.\<close>

definition class_of_label :: "string \<Rightarrow> cut_class option" where
  "class_of_label label =
     (if label = ''idr'' then Some CleanIdr
      else if label = ''cra'' then Some CleanCra
      else if label = ''dirty'' then Some Dirty
      else if label = ''unparseable'' then Some Unparseable
      else None)"

text \<open>
  \<open>FragmentIndex\<close>. The promotion inputs are copied into the served initialization
  segment and never read by the planner or the landing matcher: a type parameter.
\<close>

record 'p fragment_index =
  fi_version :: nat
  fi_timescale :: nat
  fi_rows :: "index_row list"
  fi_init_sha256 :: string
  fi_promotion :: 'p
  fi_parameter_sets_constant :: bool
  fi_source :: source_identity

definition fragment_index_new ::
    "'p \<Rightarrow> nat \<Rightarrow> index_row list \<Rightarrow> string \<Rightarrow> source_identity \<Rightarrow> 'p fragment_index" where
  "fragment_index_new default_promotion timescale rows init_sha source =
     \<lparr> fi_version = SEGPLAN_VERSION, fi_timescale = max timescale 1, fi_rows = rows,
       fi_init_sha256 = init_sha, fi_promotion = default_promotion,
       fi_parameter_sets_constant = True, fi_source = source \<rparr>"

definition index_is_empty :: "'p fragment_index \<Rightarrow> bool" where
  "index_is_empty ix \<longleftrightarrow> fi_rows ix = []"

definition index_ticks :: "'p fragment_index \<Rightarrow> nat" where
  "index_ticks ix = foldl wrapping_add_u64 0 (map ir_duration (fi_rows ix))"

definition usable_for :: "'p fragment_index \<Rightarrow> source_identity \<Rightarrow> bool" where
  "usable_for ix source \<longleftrightarrow>
     fi_version ix = SEGPLAN_VERSION \<and> source_matches (fi_source ix) source \<and> fi_rows ix \<noteq> []"

section \<open>What the fingerprint separates\<close>

text \<open>The multiplier of FNV-1a is odd, so it has an inverse modulo \<open>2^64\<close>.\<close>

lemma fnv_prime_inverse: "(0x00000100000001b3 :: 64 word) * 0xce965057aff6957b = 1"
  by simp

lemma fnv_mult_cancel:
  "a * 0x00000100000001b3 = b * 0x00000100000001b3 \<Longrightarrow> a = (b :: 64 word)"
proof -
  assume "a * 0x00000100000001b3 = b * 0x00000100000001b3"
  then have "a * 0x00000100000001b3 * 0xce965057aff6957b = b * 0x00000100000001b3 * 0xce965057aff6957b"
    by (rule arg_cong)
  then show "a = b" by (simp only: mult.assoc fnv_prime_inverse mult_1_right)
qed

lemma xor_left_cancel: "a XOR x = a XOR y \<Longrightarrow> x = (y :: 64 word)"
proof -
  assume "a XOR x = a XOR y"
  then have "a XOR (a XOR x) = a XOR (a XOR y)" by simp
  then show "x = y" by (simp only: xor.assoc [symmetric] xor_self_eq xor.left_neutral)
qed

lemma xor_right_cancel: "x XOR a = y XOR a \<Longrightarrow> x = (y :: 64 word)"
  by (rule xor_left_cancel [of a]) (simp only: xor.commute [of a])

lemma ucast_byte_inj: "(ucast (x :: 8 word) :: 64 word) = ucast y \<Longrightarrow> x = y"
proof -
  assume "(ucast x :: 64 word) = ucast y"
  then have "unat (ucast x :: 64 word) = unat (ucast y :: 64 word)" by simp
  then show ?thesis
    using unat_byte [of x] unat_byte [of y]
    by (simp add: unsigned_ucast_eq take_bit_nat_eq_self word_unat_eq_iff)
qed

lemma fnv_step_inj_hash: "fnv_step h b = fnv_step h' b \<longleftrightarrow> h = h'"
  by (auto simp: fnv_step_def dest: fnv_mult_cancel xor_right_cancel)

lemma fnv_step_inj_byte: "fnv_step h b = fnv_step h b' \<longleftrightarrow> b = b'"
  by (auto simp: fnv_step_def dest!: fnv_mult_cancel xor_left_cancel ucast_byte_inj)

lemma fnv_bytes_inj_hash: "fnv_bytes h bs = fnv_bytes h' bs \<longleftrightarrow> h = h'"
  by (induction bs arbitrary: h h') (simp_all add: fnv_step_inj_hash)

lemma fnv_args_inj_hash: "fnv_args h as = fnv_args h' as \<longleftrightarrow> h = h'"
  by (induction as arbitrary: h h') (simp_all add: fnv_step_inj_hash fnv_bytes_inj_hash)

lemma fnv_bytes_append [simp]: "fnv_bytes h (xs @ ys) = fnv_bytes (fnv_bytes h xs) ys"
  by (induction xs arbitrary: h) simp_all

lemma fnv_args_append [simp]: "fnv_args h (xs @ ys) = fnv_args (fnv_args h xs) ys"
  by (induction xs arbitrary: h) simp_all

lemma hex_digit_inj: "a < 16 \<Longrightarrow> b < 16 \<Longrightarrow> hex_digit a = hex_digit b \<Longrightarrow> a = b"
proof -
  assume "a < 16" "b < 16" "hex_digit a = hex_digit b"
  moreover have "distinct ''0123456789abcdef''" by simp
  moreover have "length ''0123456789abcdef'' = 16" by simp
  ultimately show ?thesis unfolding hex_digit_def by (metis mod_less nth_eq_iff_index_eq)
qed

lemma hex_digit_mod: "hex_digit a = hex_digit b \<Longrightarrow> a mod 16 = b mod 16"
  using hex_digit_inj [of "a mod 16" "b mod 16"] by (simp add: hex_digit_def)

lemma length_hex_digits [simp]: "length (hex_digits k n) = k"
  by (induction k arbitrary: n) simp_all

lemma hex_digits_inj:
  "a < 16 ^ k \<Longrightarrow> b < 16 ^ k \<Longrightarrow> hex_digits k a = hex_digits k b \<Longrightarrow> a = b"
proof (induction k arbitrary: a b)
  case 0
  then show ?case by simp
next
  case (Suc k)
  have "hex_digits k (a div 16) = hex_digits k (b div 16)"
    using Suc.prems(3) by simp
  moreover have "a div 16 < 16 ^ k" "b div 16 < 16 ^ k"
    using Suc.prems(1,2) by (simp_all add: less_mult_imp_div_less mult.commute)
  ultimately have "a div 16 = b div 16"
    using Suc.IH by blast
  moreover have "a mod 16 = b mod 16"
    by (rule hex_digit_mod) (use Suc.prems(3) in simp)
  ultimately show ?case
    using div_mult_mod_eq [of a 16] div_mult_mod_eq [of b 16] by linarith
qed

lemma argv_fingerprint_eq:
  "argv_fingerprint as = argv_fingerprint bs \<longleftrightarrow>
     fnv_args 0xcbf29ce484222325 as = fnv_args 0xcbf29ce484222325 bs"
proof
  let ?f = "\<lambda>as. unat (fnv_args 0xcbf29ce484222325 as)"
  assume "argv_fingerprint as = argv_fingerprint bs"
  moreover have "?f xs < 16 ^ 16" for xs
    using unsigned_less [of "fnv_args 0xcbf29ce484222325 xs"] by simp
  ultimately have "?f as = ?f bs"
    unfolding argv_fingerprint_def using hex_digits_inj [of "?f as" 16 "?f bs"] by blast
  then show "fnv_args 0xcbf29ce484222325 as = fnv_args 0xcbf29ce484222325 bs"
    by (simp only: word_unat_eq_iff)
qed (simp add: argv_fingerprint_def)

text \<open>The fingerprint of the video arguments separates any two argument lists that differ in
  one byte of one argument, wherever it stands; an index is never reused for such a change.\<close>

theorem fingerprint_separates_a_byte:
  "argv_fingerprint (pre @ (xs @ b # ys) # post) = argv_fingerprint (pre @ (xs @ b' # ys) # post)
     \<longleftrightarrow> b = b'"
  by (simp add: argv_fingerprint_eq fnv_args_inj_hash fnv_step_inj_hash fnv_bytes_inj_hash
      fnv_step_inj_byte)

section \<open>How a refusal ages\<close>

text \<open>A recorded refusal ages one way. Once an attempt is due it stays due; a terminal one stays
  terminal; a waiting one is due exactly from its deadline on; and a retryable one with a
  deadline is never terminal.\<close>

theorem refusal_ages_one_way:
  assumes "t \<le> t'"
  shows "(case outcome_state o1 t of
       Due \<Rightarrow> outcome_is_due o1 t'
     | Terminal \<Rightarrow> outcome_is_terminal o1 t'
     | WaitUntil w \<Rightarrow> t < w \<and> outcome_state o1 t' = (if w \<le> t' then Due else WaitUntil w)) \<and>
    \<not> (io_typed_retryable o1 = Some True \<and> io_next_attempt_at_ms o1 < I64_MAX \<and> outcome_is_terminal o1 t)"
  using assms
  by (auto simp: outcome_state_def outcome_is_due_def outcome_is_terminal_def Let_def split: index_outcome_state.split if_splits)

definition demo_outcome :: "unit index_outcome" where
  "demo_outcome = \<lparr> io_source = source_identity_new 1 2 ''fp'', io_refusal = Truncated 4, io_reason = ''short'',
     io_attempts = 1, io_next_attempt_at_ms = 5000, io_updated_at_ms = 10, io_typed_code = None,
     io_typed_retryable = None, io_retry_deadline_ms = 9000, io_policy_revision = 2,
     io_terminal_reason = None, io_diagnostic = None \<rparr>"

theorem refusal_ages_one_way_witness:
  "outcome_state demo_outcome 4999 = WaitUntil 5000 \<and> outcome_state demo_outcome 5000 = Due"
proof -
  have w: "outcome_state demo_outcome 4999 = WaitUntil 5000" by (simp add: outcome_state_def demo_outcome_def)
  then show ?thesis using refusal_ages_one_way [of 4999 5000 demo_outcome] by simp
qed

end
