(* ===== verification/SegPlan.thy ===== *)
theory SegPlan
  imports FragmentIndex
begin

text \<open>
  The segment plan of \<open>crates/plurx-core/src/segplan.rs\<close>: \<open>plan_copy\<close> (the cut policy
  folded over the index rows, then the audio tail), \<open>plan_transcode\<close> (the fixed two
  second grid) and the plan's own accessors. The loop of \<open>plan_copy\<close> is written over any
  cut rule and any headroom function; the lemmas about it are proved once, inside the
  locale \<open>cut_rule\<close>, and reach the code's policy by interpretation.
\<close>

section \<open>Plan data\<close>

abbreviation TRANSCODE_GRID_MS :: int where "TRANSCODE_GRID_MS \<equiv> 2000"
abbreviation AUDIO_HEADROOM_NUM :: nat where "AUDIO_HEADROOM_NUM \<equiv> 3"
abbreviation AUDIO_HEADROOM_DEN :: nat where "AUDIO_HEADROOM_DEN \<equiv> 2"

datatype plan_entry_kind = VideoEntry | AudioTail

datatype plan_cut = PlanClean | PlanByteCeiling | PlanTimeCeiling | PlanEndOfStream

fun plan_cut_from :: "cut_reason \<Rightarrow> plan_cut" where
  "plan_cut_from Clean = PlanClean"
| "plan_cut_from ByteCeiling = PlanByteCeiling"
| "plan_cut_from TimeCeiling = PlanTimeCeiling"
| "plan_cut_from EndOfStream = PlanEndOfStream"

record plan_entry =
  pe_index :: nat
  pe_kind :: plan_entry_kind
  pe_start_ticks :: nat
  pe_duration_ticks :: nat
  pe_est_bytes :: nat
  pe_cut :: plan_cut
  pe_fragments :: nat

definition end_ticks :: "plan_entry \<Rightarrow> nat" where
  "end_ticks e = wrapping_add_u64 (pe_start_ticks e) (pe_duration_ticks e)"

record segment_plan =
  sp_version :: nat
  sp_timescale :: nat
  sp_entries :: "plan_entry list"
  sp_target_duration :: nat

definition plan_is_empty :: "segment_plan \<Rightarrow> bool" where
  "plan_is_empty p \<longleftrightarrow> sp_entries p = []"

definition plan_len :: "segment_plan \<Rightarrow> nat" where
  "plan_len p = length (sp_entries p)"

definition plan_entry_at :: "segment_plan \<Rightarrow> nat \<Rightarrow> plan_entry option" where
  "plan_entry_at p index =
     (if index < length (sp_entries p) then Some (sp_entries p ! index) else None)"

definition planned_bytes :: "segment_plan \<Rightarrow> nat" where
  "planned_bytes p = foldl wrapping_add_u64 0 (map pe_est_bytes (sp_entries p))"

definition plan_duration_ticks :: "segment_plan \<Rightarrow> nat" where
  "plan_duration_ticks p = (if sp_entries p = [] then 0 else end_ticks (last (sp_entries p)))"

record track_durations =
  td_video_ms :: int
  td_audio_ms :: int
  td_audio_bits_per_second :: nat

definition headroom :: "track_durations \<Rightarrow> nat \<Rightarrow> nat \<Rightarrow> nat" where
  "headroom td timescale ticks =
     (let per_second = td_audio_bits_per_second td div 8;
          bytes = saturating_mul_u64 per_second ticks div max timescale 1
      in saturating_mul_u64 bytes AUDIO_HEADROOM_NUM div AUDIO_HEADROOM_DEN)"

section \<open>The copy plan\<close>

text \<open>The variables of \<open>plan_copy\<close>'s loop.\<close>

record copy_state =
  cs_entries :: "plan_entry list"
  cs_ticks :: nat
  cs_bytes :: nat
  cs_fragments :: nat
  cs_start :: "nat option"

definition copy_init :: copy_state where
  "copy_init = \<lparr> cs_entries = [], cs_ticks = 0, cs_bytes = 0, cs_fragments = 0, cs_start = None \<rparr>"

text \<open>The pending fragments as an entry, with the bytes the policy was asked about.\<close>

definition pending_entry :: "copy_state \<Rightarrow> nat \<Rightarrow> plan_cut \<Rightarrow> plan_entry" where
  "pending_entry s with_headroom why =
     \<lparr> pe_index = length (cs_entries s) mod (U32_MAX + 1), pe_kind = VideoEntry,
       pe_start_ticks = (case cs_start s of None \<Rightarrow> 0 | Some t \<Rightarrow> t),
       pe_duration_ticks = cs_ticks s, pe_est_bytes = with_headroom,
       pe_cut = why, pe_fragments = cs_fragments s \<rparr>"

definition flush_pending :: "copy_state \<Rightarrow> nat \<Rightarrow> plan_cut \<Rightarrow> copy_state" where
  "flush_pending s with_headroom why =
     \<lparr> cs_entries = cs_entries s @ [pending_entry s with_headroom why],
       cs_ticks = 0, cs_bytes = 0, cs_fragments = 0, cs_start = None \<rparr>"

definition accumulate :: "copy_state \<Rightarrow> index_row \<Rightarrow> copy_state" where
  "accumulate s row = s\<lparr>
       cs_start := (case cs_start s of None \<Rightarrow> Some (ir_dts row) | Some t \<Rightarrow> Some t),
       cs_ticks := wrapping_add_u64 (cs_ticks s) (ir_duration row),
       cs_bytes := wrapping_add_u64 (cs_bytes s) (ir_bytes row),
       cs_fragments := wrapping_add_u32 (cs_fragments s) 1 \<rparr>"

definition copy_step ::
    "(nat \<Rightarrow> nat \<Rightarrow> cut_class \<Rightarrow> bool \<Rightarrow> cut_reason option) \<Rightarrow> (nat \<Rightarrow> nat) \<Rightarrow>
     copy_state \<Rightarrow> index_row \<Rightarrow> copy_state" where
  "copy_step cutf hr s row =
     (let with_headroom = saturating_add_u64 (cs_bytes s) (hr (cs_ticks s));
          reason = cutf (cs_ticks s) with_headroom (ir_class row) (cs_entries s = []);
          s' = (case reason of
                  Some r \<Rightarrow> flush_pending s with_headroom (plan_cut_from r)
                | None \<Rightarrow> s)
      in accumulate s' row)"

definition copy_finish :: "(nat \<Rightarrow> nat) \<Rightarrow> copy_state \<Rightarrow> plan_entry list" where
  "copy_finish hr s =
     (if 0 < cs_fragments s
      then cs_entries (flush_pending s (saturating_add_u64 (cs_bytes s) (hr (cs_ticks s)))
             PlanEndOfStream)
      else cs_entries s)"

definition copy_entries ::
    "(nat \<Rightarrow> nat \<Rightarrow> cut_class \<Rightarrow> bool \<Rightarrow> cut_reason option) \<Rightarrow> (nat \<Rightarrow> nat) \<Rightarrow>
     index_row list \<Rightarrow> plan_entry list" where
  "copy_entries cutf hr rows = copy_finish hr (foldl (copy_step cutf hr) copy_init rows)"

definition ms_to_ticks :: "int \<Rightarrow> nat \<Rightarrow> nat" where
  "ms_to_ticks ms timescale = saturating_mul_u64 (nat (max ms 0)) timescale div 1000"

text \<open>\<open>append_audio_tail\<close>: the loop over \<open>remaining\<close>, each span at most the ceiling.\<close>

function audio_tail_from ::
    "(nat \<Rightarrow> nat) \<Rightarrow> nat \<Rightarrow> nat \<Rightarrow> nat \<Rightarrow> plan_entry list \<Rightarrow> plan_entry list" where
  "audio_tail_from hr ceiling start remaining entries =
     (if 0 < remaining \<and> 0 < ceiling then
        let span = min remaining ceiling in
        audio_tail_from hr ceiling (wrapping_add_u64 start span) (remaining - span)
          (entries @ [\<lparr> pe_index = length entries mod (U32_MAX + 1), pe_kind = AudioTail,
             pe_start_ticks = start, pe_duration_ticks = span, pe_est_bytes = hr span,
             pe_cut = PlanEndOfStream, pe_fragments = 0 \<rparr>])
      else entries)"
  by pat_completeness auto
termination
  by (relation "measure (\<lambda>(hr, ceiling, start, remaining, entries). remaining)") auto

declare audio_tail_from.simps [simp del]

definition append_audio_tail ::
    "plan_entry list \<Rightarrow> track_durations \<Rightarrow> cut_policy \<Rightarrow> nat \<Rightarrow> plan_entry list" where
  "append_audio_tail entries tracks policy timescale =
     (let tail_ms = wrap_i64 (td_audio_ms tracks - td_video_ms tracks) in
      if tail_ms \<le> 50 \<or> entries = [] then entries
      else audio_tail_from (headroom tracks timescale) (max (max_ticks policy) 1)
             (end_ticks (last entries)) (ms_to_ticks tail_ms timescale) entries)"

definition entry_seconds :: "nat \<Rightarrow> plan_entry \<Rightarrow> nat" where
  "entry_seconds timescale e =
     (let s = div_ceil (pe_duration_ticks e) timescale in if s \<le> U32_MAX then s else U32_MAX)"

definition finish_plan :: "plan_entry list \<Rightarrow> nat \<Rightarrow> segment_plan" where
  "finish_plan entries timescale =
     \<lparr> sp_version = SEGPLAN_VERSION, sp_timescale = timescale, sp_entries = entries,
       sp_target_duration = foldr max (map (entry_seconds timescale) entries) 0 \<rparr>"

definition plan_copy :: "'p fragment_index \<Rightarrow> cut_policy \<Rightarrow> track_durations \<Rightarrow> segment_plan" where
  "plan_copy index policy tracks =
     (let timescale = max (fi_timescale index) 1;
          entries = copy_entries (cut_before policy) (headroom tracks timescale) (fi_rows index)
      in finish_plan (append_audio_tail entries tracks policy timescale) timescale)"

section \<open>The transcode plan\<close>

function transcode_from ::
    "track_durations \<Rightarrow> nat \<Rightarrow> int \<Rightarrow> int \<Rightarrow> plan_entry list \<Rightarrow> plan_entry list" where
  "transcode_from tracks timescale duration_ms start_ms entries =
     (if start_ms < duration_ms then
        let span = min TRANSCODE_GRID_MS (duration_ms - start_ms);
            start_ticks = ms_to_ticks start_ms timescale;
            stop_ticks = ms_to_ticks (start_ms + span) timescale
        in transcode_from tracks timescale duration_ms (start_ms + span)
             (entries @ [\<lparr> pe_index = length entries mod (U32_MAX + 1), pe_kind = VideoEntry,
                pe_start_ticks = start_ticks, pe_duration_ticks = stop_ticks - start_ticks,
                pe_est_bytes = headroom tracks timescale (stop_ticks - start_ticks),
                pe_cut = (if duration_ms \<le> start_ms + span then PlanEndOfStream else PlanClean),
                pe_fragments = 0 \<rparr>])
      else entries)"
  by pat_completeness auto
termination
  by (relation "measure (\<lambda>(tracks, timescale, duration_ms, start_ms, entries).
        nat (duration_ms - start_ms))") (auto simp: min_def)

declare transcode_from.simps [simp del]

definition plan_transcode :: "int \<Rightarrow> nat \<Rightarrow> track_durations \<Rightarrow> segment_plan" where
  "plan_transcode duration_ms timescale tracks =
     (let ts = max timescale 1 in
      finish_plan (transcode_from tracks ts (max duration_ms 0) 0 []) ts)"

section \<open>What a copy plan covers\<close>

text \<open>
  The reference description of a copy plan: the rows fall into consecutive non-empty
  groups, and each video entry is exactly one group. \<open>ends_before\<close> says why an entry that
  is not the last one ended in front of \<open>row\<close>: the rule, asked about the entry, cuts there, for
  the reason the entry records.
\<close>

definition covers :: "(nat \<Rightarrow> nat) \<Rightarrow> plan_entry \<Rightarrow> index_row list \<Rightarrow> bool" where
  "covers hr e g \<longleftrightarrow>
     g \<noteq> [] \<and> pe_kind e = VideoEntry \<and>
     pe_start_ticks e = ir_dts (hd g) \<and>
     pe_duration_ticks e = sum_list (map ir_duration g) \<and>
     pe_est_bytes e = saturating_add_u64 (sum_list (map ir_bytes g)) (hr (pe_duration_ticks e)) \<and>
     pe_fragments e = length g"

definition ends_before ::
    "(nat \<Rightarrow> nat \<Rightarrow> cut_class \<Rightarrow> bool \<Rightarrow> cut_reason option) \<Rightarrow> (bool \<Rightarrow> nat) \<Rightarrow> nat \<Rightarrow> plan_entry \<Rightarrow> index_row \<Rightarrow> bool" where
  "ends_before cutf fl i e row \<longleftrightarrow>
     (\<exists>r. cutf (pe_duration_ticks e) (pe_est_bytes e) (ir_class row) (i = 0) = Some r \<and> pe_cut e = plan_cut_from r) \<and>
     pe_cut e \<noteq> PlanEndOfStream \<and> fl (i = 0) \<le> pe_duration_ticks e \<and>
     (pe_cut e = PlanClean \<longleftrightarrow> row_clean row)"

definition rows_fit :: "index_row list \<Rightarrow> bool" where
  "rows_fit rows \<longleftrightarrow> sum_list (map ir_duration rows) \<le> U64_MAX \<and>
     sum_list (map ir_bytes rows) \<le> U64_MAX \<and> length rows \<le> U32_MAX"

definition plan_groups ::
    "(nat \<Rightarrow> nat \<Rightarrow> cut_class \<Rightarrow> bool \<Rightarrow> cut_reason option) \<Rightarrow> (bool \<Rightarrow> nat) \<Rightarrow> (nat \<Rightarrow> nat) \<Rightarrow> index_row list \<Rightarrow> plan_entry list \<Rightarrow> index_row list list \<Rightarrow> bool" where
  "plan_groups cutf fl hr rows es gs \<longleftrightarrow>
     concat gs = rows \<and> list_all2 (covers hr) es gs \<and> map pe_index es = [0..<length es] \<and>
     (\<forall>i. Suc i < length es \<longrightarrow> ends_before cutf fl i (es ! i) (hd (gs ! Suc i))) \<and>
     (es \<noteq> [] \<longrightarrow> pe_cut (last es) = PlanEndOfStream)"

text \<open>The loop invariant: \<open>gs\<close> are the groups already cut, \<open>g\<close> the pending one.\<close>

definition copy_inv ::
    "(nat \<Rightarrow> nat \<Rightarrow> cut_class \<Rightarrow> bool \<Rightarrow> cut_reason option) \<Rightarrow> (bool \<Rightarrow> nat) \<Rightarrow> (nat \<Rightarrow> nat) \<Rightarrow> index_row list \<Rightarrow> copy_state \<Rightarrow>
     index_row list list \<Rightarrow> index_row list \<Rightarrow> bool" where
  "copy_inv cutf fl hr rows s gs g \<longleftrightarrow>
     concat gs @ g = rows \<and> g \<noteq> [] \<and> list_all2 (covers hr) (cs_entries s) gs \<and>
     map pe_index (cs_entries s) = [0..<length gs] \<and>
     (\<forall>i < length gs. ends_before cutf fl i (cs_entries s ! i) (hd ((gs @ [g]) ! Suc i))) \<and>
     cs_ticks s = sum_list (map ir_duration g) \<and> cs_bytes s = sum_list (map ir_bytes g) \<and>
     cs_fragments s = length g \<and> cs_start s = Some (ir_dts (hd g))"

text \<open>
  Why a group is no longer than it is: in front of none of its rows but the first would the
  rule have cut.
\<close>

definition greedy_group ::
    "(nat \<Rightarrow> nat \<Rightarrow> cut_class \<Rightarrow> bool \<Rightarrow> cut_reason option) \<Rightarrow> (nat \<Rightarrow> nat) \<Rightarrow>
     bool \<Rightarrow> index_row list \<Rightarrow> bool" where
  "greedy_group cutf hr first g \<longleftrightarrow>
     (\<forall>p x q. g = p @ x # q \<longrightarrow> p \<noteq> [] \<longrightarrow>
        cutf (sum_list (map ir_duration p))
          (saturating_add_u64 (sum_list (map ir_bytes p)) (hr (sum_list (map ir_duration p))))
          (ir_class x) first = None)"

definition greedy_groups ::
    "(nat \<Rightarrow> nat \<Rightarrow> cut_class \<Rightarrow> bool \<Rightarrow> cut_reason option) \<Rightarrow> (nat \<Rightarrow> nat) \<Rightarrow>
     index_row list list \<Rightarrow> bool" where
  "greedy_groups cutf hr gs \<longleftrightarrow> (\<forall>i < length gs. greedy_group cutf hr (i = 0) (gs ! i))"

lemma greedy_single [simp]: "greedy_group cutf hr first [x]"
  by (auto simp: greedy_group_def Cons_eq_append_conv)

lemma greedy_snoc:
  "greedy_group cutf hr first g \<Longrightarrow>
   cutf (sum_list (map ir_duration g))
     (saturating_add_u64 (sum_list (map ir_bytes g)) (hr (sum_list (map ir_duration g)))) (ir_class x) first = None \<Longrightarrow>
   greedy_group cutf hr first (g @ [x])"
  unfolding greedy_group_def
proof (intro allI impI)
  fix p y q
  assume old: "\<forall>p x q. g = p @ x # q \<longrightarrow> p \<noteq> [] \<longrightarrow>
      cutf (sum_list (map ir_duration p))
        (saturating_add_u64 (sum_list (map ir_bytes p)) (hr (sum_list (map ir_duration p)))) (ir_class x) first = None"
    and now: "cutf (sum_list (map ir_duration g))
      (saturating_add_u64 (sum_list (map ir_bytes g)) (hr (sum_list (map ir_duration g)))) (ir_class x) first = None"
    and eq: "g @ [x] = p @ y # q" and p: "p \<noteq> []"
  show "cutf (sum_list (map ir_duration p))
      (saturating_add_u64 (sum_list (map ir_bytes p)) (hr (sum_list (map ir_duration p)))) (ir_class y) first = None"
  proof (cases q rule: rev_cases)
    case Nil
    then show ?thesis using eq now by simp
  next
    case (snoc q' z)
    then have "g = p @ y # q'" using eq by simp
    then show ?thesis using old p by blast
  qed
qed

lemma greedy_groups_snoc:
  "greedy_groups cutf hr (gs @ [g]) \<longleftrightarrow> greedy_groups cutf hr gs \<and> greedy_group cutf hr (gs = []) g"
  by (auto simp: greedy_groups_def nth_append less_Suc_eq)

lemma plan_cut_from_simps [simp]:
  "plan_cut_from r = PlanEndOfStream \<longleftrightarrow> r = EndOfStream"
  "plan_cut_from r = PlanClean \<longleftrightarrow> r = Clean"
  by (cases r; simp)+

lemma rows_fit_appendD: "rows_fit (xs @ ys) \<Longrightarrow> rows_fit xs"
  by (simp add: rows_fit_def)

lemma copy_inv_lengths: "copy_inv cutf fl hr rows s gs g \<Longrightarrow> length (cs_entries s) = length gs"
  by (auto simp: copy_inv_def list_all2_lengthD)

lemma length_concat_nonempty: "\<forall>g \<in> set gs. g \<noteq> [] \<Longrightarrow> length gs \<le> length (concat gs)"
  by (induction gs) (auto simp: Suc_le_eq neq_Nil_conv)

lemma copy_inv_count: "copy_inv cutf fl hr rows s gs g \<Longrightarrow> length gs < length rows"
proof -
  assume inv: "copy_inv cutf fl hr rows s gs g"
  then have "\<forall>h \<in> set gs. h \<noteq> []"
    by (auto simp: copy_inv_def covers_def list_all2_conv_all_nth in_set_conv_nth)
  then have "length gs \<le> length (concat gs)" by (rule length_concat_nonempty)
  moreover from inv have "rows = concat gs @ g" "g \<noteq> []" by (auto simp: copy_inv_def)
  ultimately show ?thesis by (cases g) simp_all
qed

text \<open>Keeping the pending group open.\<close>

lemma copy_inv_keep:
  assumes inv: "copy_inv cutf fl hr xs s gs g" and fit: "rows_fit (xs @ [x])"
  shows "copy_inv cutf fl hr (xs @ [x]) (accumulate s x) gs (g @ [x])"
proof -
  from inv have xs: "xs = concat gs @ g" and g: "g \<noteq> []" by (auto simp: copy_inv_def)
  have bounds: "sum_list (map ir_duration g) + ir_duration x \<le> U64_MAX"
    "sum_list (map ir_bytes g) + ir_bytes x \<le> U64_MAX" "length g + 1 \<le> U32_MAX"
    using fit by (simp_all add: rows_fit_def xs)
  have nth: "hd ((gs @ [g @ [x]]) ! Suc i) = hd ((gs @ [g]) ! Suc i)" if "i < length gs" for i
    using that g by (cases "Suc i = length gs") (auto simp: nth_append)
  show ?thesis using inv g bounds nth by (simp add: copy_inv_def accumulate_def)
qed

text \<open>Closing it and opening a new one at the arriving row.\<close>

lemma copy_inv_cut:
  assumes inv: "copy_inv cutf fl hr xs s gs g" and fit: "rows_fit (xs @ [x])"
    and hrm: "w = saturating_add_u64 (cs_bytes s) (hr (cs_ticks s))"
    and ends: "ends_before cutf fl (length gs) (pending_entry s w c) x"
  shows "copy_inv cutf fl hr (xs @ [x]) (accumulate (flush_pending s w c) x) (gs @ [g]) [x]"
proof -
  let ?e = "pending_entry s w c"
  from inv have xs: "xs = concat gs @ g" and g: "g \<noteq> []" by (auto simp: copy_inv_def)
  have len: "length (cs_entries s) = length gs" using inv by (rule copy_inv_lengths)
  have bounds: "ir_duration x \<le> U64_MAX" "ir_bytes x \<le> U64_MAX"
    using fit by (simp_all add: rows_fit_def)
  have idx: "pe_index ?e = length gs"
    using copy_inv_count [OF inv] fit len by (simp add: pending_entry_def rows_fit_def)
  have cov: "covers hr ?e g"
    using inv hrm g by (simp add: covers_def pending_entry_def copy_inv_def)
  have nth: "ends_before cutf fl i ((cs_entries s @ [?e]) ! i) (hd ((gs @ [g] @ [[x]]) ! Suc i))"
    if "i < Suc (length gs)" for i
  proof (cases "i = length gs")
    case True
    then show ?thesis using ends len by (simp add: nth_append)
  next
    case False
    then have "i < length gs" using that by simp
    moreover from this have "(gs @ [g] @ [[x]]) ! Suc i = (gs @ [g]) ! Suc i"
      by (simp add: nth_append)
    ultimately show ?thesis using inv len by (simp add: copy_inv_def nth_append)
  qed
  show ?thesis
    using inv bounds idx cov nth len xs
    by (simp add: copy_inv_def accumulate_def flush_pending_def list_all2_appendI)
qed

context cut_rule begin

lemma step_first:
  assumes "hr 0 = 0" and "rows_fit [x]"
  shows "copy_inv cut flr hr [x] (copy_step cut hr copy_init x) [] [x]"
proof -
  have "cut 0 0 (ir_class x) True = None"
    using cut_nonempty [of 0 0 "ir_class x" True] by (cases "cut 0 0 (ir_class x) True") auto
  then show ?thesis
    using assms
    by (simp add: copy_step_def copy_init_def copy_inv_def accumulate_def rows_fit_def
        saturating_add_u64_def)
qed

lemma step_next:
  assumes inv: "copy_inv cut flr hr xs s gs g" and fit: "rows_fit (xs @ [x])"
    and gr: "greedy_groups cut hr (gs @ [g])"
  shows "\<exists>gs' g'. copy_inv cut flr hr (xs @ [x]) (copy_step cut hr s x) gs' g' \<and>
    greedy_groups cut hr (gs' @ [g'])"
proof -
  let ?w = "saturating_add_u64 (cs_bytes s) (hr (cs_ticks s))"
  let ?c = "cut (cs_ticks s) ?w (ir_class x) (cs_entries s = [])"
  have len: "length (cs_entries s) = length gs" using inv by (rule copy_inv_lengths)
  then have first: "cs_entries s = [] \<longleftrightarrow> gs = []" by auto
  show ?thesis
  proof (cases ?c)
    case None
    then have "copy_step cut hr s x = accumulate s x" by (simp add: copy_step_def)
    moreover have "cs_ticks s = sum_list (map ir_duration g)" "cs_bytes s = sum_list (map ir_bytes g)"
      using inv by (simp_all add: copy_inv_def)
    then have "greedy_groups cut hr (gs @ [g @ [x]])"
      using gr None first by (auto simp: greedy_groups_snoc intro: greedy_snoc)
    ultimately show ?thesis using copy_inv_keep [OF inv fit] by metis
  next
    case (Some r)
    then have eq: "copy_step cut hr s x = accumulate (flush_pending s ?w (plan_cut_from r)) x"
      by (simp add: copy_step_def)
    have "ends_before cut flr (length gs) (pending_entry s ?w (plan_cut_from r)) x"
      using Some cut_floor [OF Some] cut_clean [OF Some] cut_not_eof [OF Some] first
      by (auto simp: ends_before_def pending_entry_def row_clean_def)
    moreover have "greedy_groups cut hr ((gs @ [g]) @ [[x]])"
      using gr unfolding greedy_groups_snoc [of _ _ "gs @ [g]"] by simp
    ultimately show ?thesis using copy_inv_cut [OF inv fit refl] eq by metis
  qed
qed

lemma loop_inv:
  "hr 0 = 0 \<Longrightarrow> rows \<noteq> [] \<Longrightarrow> rows_fit rows \<Longrightarrow>
   \<exists>gs g. copy_inv cut flr hr rows (foldl (copy_step cut hr) copy_init rows) gs g \<and>
     greedy_groups cut hr (gs @ [g])"
proof (induction rows rule: rev_induct)
  case Nil
  then show ?case by simp
next
  case (snoc x xs)
  show ?case
  proof (cases "xs = []")
    case True
    have "copy_inv cut flr hr [x] (copy_step cut hr copy_init x) [] [x]"
      using snoc.prems step_first True by simp
    moreover have "greedy_groups cut hr ([] @ [[x]])" by (simp add: greedy_groups_def)
    ultimately show ?thesis using True by force
  next
    case False
    then obtain gs g where "copy_inv cut flr hr xs (foldl (copy_step cut hr) copy_init xs) gs g"
      "greedy_groups cut hr (gs @ [g])"
      using snoc.IH snoc.prems rows_fit_appendD by blast
    then show ?thesis using step_next snoc.prems(3) by simp
  qed
qed

lemma finish_groups:
  assumes inv: "copy_inv cut flr hr rows s gs g" and fit: "rows_fit rows"
  shows "plan_groups cut flr hr rows (copy_finish hr s) (gs @ [g])"
proof -
  let ?w = "saturating_add_u64 (cs_bytes s) (hr (cs_ticks s))"
  let ?e = "pending_entry s ?w PlanEndOfStream"
  have len: "length (cs_entries s) = length gs" using inv by (rule copy_inv_lengths)
  have fin: "copy_finish hr s = cs_entries s @ [?e]"
    using inv by (simp add: copy_finish_def copy_inv_def flush_pending_def)
  have cov: "covers hr ?e g" using inv by (simp add: covers_def pending_entry_def copy_inv_def)
  have idx: "pe_index ?e = length gs"
    using copy_inv_count [OF inv] fit len by (simp add: pending_entry_def rows_fit_def)
  have all2: "list_all2 (covers hr) (cs_entries s @ [?e]) (gs @ [g])"
    using inv cov by (simp add: copy_inv_def list_all2_appendI)
  show ?thesis
    unfolding plan_groups_def fin using inv all2 idx len
    by (simp add: copy_inv_def nth_append pending_entry_def)
qed

theorem copy_entries_groups:
  assumes "hr 0 = 0" and "rows_fit rows"
  shows "\<exists>gs. plan_groups cut flr hr rows (copy_entries cut hr rows) gs \<and> greedy_groups cut hr gs"
proof (cases "rows = []")
  case True
  then show ?thesis
    by (intro exI [of _ "[]"])
      (simp add: copy_entries_def copy_finish_def copy_init_def plan_groups_def greedy_groups_def)
next
  case False
  then show ?thesis
    using loop_inv [where hr = hr, OF assms(1) False assms(2)] finish_groups assms(2)
    by (metis copy_entries_def)
qed

end

section \<open>Film time\<close>

text \<open>
  \<open>tiles a es b\<close>: the entries follow each other without gap or overlap from tick \<open>a\<close>
  to tick \<open>b\<close>. \<open>rows_tile\<close> says the same of index rows.
\<close>

fun tiles :: "nat \<Rightarrow> plan_entry list \<Rightarrow> nat \<Rightarrow> bool" where
  "tiles a [] b \<longleftrightarrow> a = b"
| "tiles a (e # es) b \<longleftrightarrow> pe_start_ticks e = a \<and> tiles (a + pe_duration_ticks e) es b"

fun rows_tile :: "nat \<Rightarrow> index_row list \<Rightarrow> nat \<Rightarrow> bool" where
  "rows_tile a [] b \<longleftrightarrow> a = b"
| "rows_tile a (r # rs) b \<longleftrightarrow> ir_dts r = a \<and> rows_tile (a + ir_duration r) rs b"

lemma tiles_append: "tiles a (xs @ ys) b \<longleftrightarrow> (\<exists>m. tiles a xs m \<and> tiles m ys b)"
  by (induction xs arbitrary: a) auto

lemma rows_tile_append: "rows_tile a (xs @ ys) b \<longleftrightarrow> (\<exists>m. rows_tile a xs m \<and> rows_tile m ys b)"
  by (induction xs arbitrary: a) auto

lemma tiles_end: "tiles a es b \<Longrightarrow> b = a + sum_list (map pe_duration_ticks es)"
  by (induction es arbitrary: a) fastforce+

lemma rows_tile_end: "rows_tile a rs b \<Longrightarrow> b = a + sum_list (map ir_duration rs)"
  by (induction rs arbitrary: a) fastforce+

lemma tiles_last_end:
  "tiles a es b \<Longrightarrow> es \<noteq> [] \<Longrightarrow> pe_start_ticks (last es) + pe_duration_ticks (last es) = b"
  by (induction es arbitrary: a) auto

lemma covers_tile:
  assumes "list_all2 (covers hr) es gs" and "rows_tile a (concat gs) b"
  shows "tiles a es b"
  using assms
proof (induction es gs arbitrary: a rule: list_all2_induct)
  case Nil
  then show ?case by simp
next
  case (Cons e es g gs)
  from Cons.prems obtain m where g: "rows_tile a g m" and rest: "rows_tile m (concat gs) b"
    by (auto simp: rows_tile_append)
  have "pe_start_ticks e = a" using Cons.hyps(1) g by (cases g) (auto simp: covers_def)
  moreover have "a + pe_duration_ticks e = m"
    using Cons.hyps(1) rows_tile_end [OF g] by (simp add: covers_def)
  ultimately show ?case using Cons.IH [OF rest] by simp
qed

lemma plan_groups_tile: "plan_groups cutf fl hr rows es gs \<Longrightarrow> rows_tile a rows b \<Longrightarrow> tiles a es b"
  by (auto simp: plan_groups_def intro: covers_tile)

section \<open>The audio tail\<close>

lemma upt_step: "[n..<n + Suc k] = n # [Suc n..<Suc n + k]"
  by (simp add: upt_conv_Cons del: upt_Suc)

lemma audio_tail_from_spec:
  assumes "0 < ceiling" and "start + remaining \<le> U64_MAX" and "length entries + remaining \<le> U32_MAX"
  shows "\<exists>tail. audio_tail_from hr ceiling start remaining entries = entries @ tail \<and>
     tiles start tail (start + remaining) \<and>
     map pe_index tail = [length entries..<length entries + length tail] \<and>
     (\<forall>e \<in> set tail. pe_kind e = AudioTail \<and> pe_fragments e = 0 \<and> 0 < pe_duration_ticks e \<and>
        pe_duration_ticks e \<le> ceiling \<and> pe_est_bytes e = hr (pe_duration_ticks e) \<and> pe_cut e = PlanEndOfStream) \<and>
     (\<forall>e \<in> set (butlast tail). pe_duration_ticks e = ceiling)"
  using assms
proof (induction hr ceiling start remaining entries rule: audio_tail_from.induct)
  case (1 hr ceiling start remaining entries)
  show ?case
  proof (cases "0 < remaining")
    case False
    then show ?thesis
      by (intro exI [of _ "[]"]) (simp add: audio_tail_from.simps [of hr ceiling start 0])
  next
    case True
    let ?span = "min remaining ceiling"
    let ?e = "\<lparr> pe_index = length entries mod (U32_MAX + 1), pe_kind = AudioTail,
             pe_start_ticks = start, pe_duration_ticks = ?span, pe_est_bytes = hr ?span,
             pe_cut = PlanEndOfStream, pe_fragments = 0 \<rparr>"
    have span: "0 < ?span" "?span \<le> remaining" using True "1.prems" by auto
    have next1: "wrapping_add_u64 start ?span = start + ?span"
      using "1.prems" span by simp
    have "\<exists>tail. audio_tail_from hr ceiling (start + ?span) (remaining - ?span) (entries @ [?e])
          = (entries @ [?e]) @ tail \<and>
        tiles (start + ?span) tail (start + ?span + (remaining - ?span)) \<and>
        map pe_index tail = [length (entries @ [?e])..<length (entries @ [?e]) + length tail] \<and>
        (\<forall>e \<in> set tail. pe_kind e = AudioTail \<and> pe_fragments e = 0 \<and> 0 < pe_duration_ticks e \<and>
          pe_duration_ticks e \<le> ceiling \<and> pe_est_bytes e = hr (pe_duration_ticks e) \<and> pe_cut e = PlanEndOfStream) \<and>
        (\<forall>e \<in> set (butlast tail). pe_duration_ticks e = ceiling)"
      using "1.IH" [OF _ refl] True "1.prems" span unfolding next1 by simp
    then obtain tail where tail:
      "audio_tail_from hr ceiling (start + ?span) (remaining - ?span) (entries @ [?e])
         = (entries @ [?e]) @ tail"
      "tiles (start + ?span) tail (start + ?span + (remaining - ?span))"
      "map pe_index tail = [length (entries @ [?e])..<length (entries @ [?e]) + length tail]"
      "\<forall>e \<in> set tail. pe_kind e = AudioTail \<and> pe_fragments e = 0 \<and> 0 < pe_duration_ticks e \<and>
          pe_duration_ticks e \<le> ceiling \<and> pe_est_bytes e = hr (pe_duration_ticks e) \<and> pe_cut e = PlanEndOfStream"
      "\<forall>e \<in> set (butlast tail). pe_duration_ticks e = ceiling"
      by blast
    have "?span = ceiling" if "tail \<noteq> []"
      using tail(1) that by (cases "remaining \<le> ceiling") (simp_all add: audio_tail_from.simps [of hr ceiling _ 0])
    then have full: "\<forall>e \<in> set (butlast (?e # tail)). pe_duration_ticks e = ceiling" using tail(5) by simp
    have "audio_tail_from hr ceiling start remaining entries = entries @ (?e # tail)"
      using True "1.prems" tail(1) next1
      by (simp add: audio_tail_from.simps [of hr ceiling start remaining] Let_def)
    moreover have "map pe_index (?e # tail) = [length entries..<length entries + length (?e # tail)]"
      using tail(3) "1.prems"(3) True upt_step [of "length entries" "length tail"]
      by (simp del: upt_Suc)
    moreover have "start + ?span + (remaining - ?span) = start + remaining" using span by simp
    ultimately show ?thesis
      using tail(2,4) span full by (intro exI [of _ "?e # tail"]) simp
  qed
qed

section \<open>Target duration\<close>

lemma foldr_max_ge: "x \<in> set xs \<Longrightarrow> x \<le> foldr max xs (0::nat)"
  by (induction xs) auto

lemma foldr_max_in: "xs \<noteq> [] \<Longrightarrow> foldr max xs (0::nat) \<in> set xs"
proof (induction xs)
  case (Cons x xs)
  then show ?case by (cases "xs = []") (auto simp: max_def)
qed simp

lemma target_covers_entry:
  assumes "e \<in> set entries" and "0 < timescale"
    and "pe_duration_ticks e \<le> U32_MAX * timescale"
  shows "pe_duration_ticks e \<le> sp_target_duration (finish_plan entries timescale) * timescale"
proof -
  have "div_ceil (pe_duration_ticks e) timescale \<le> U32_MAX"
    using assms(2,3) by (rule div_ceil_least)
  then have "entry_seconds timescale e = div_ceil (pe_duration_ticks e) timescale"
    by (simp add: entry_seconds_def)
  moreover have "entry_seconds timescale e \<le> sp_target_duration (finish_plan entries timescale)"
    using assms(1) by (simp add: finish_plan_def foldr_max_ge)
  ultimately have "div_ceil (pe_duration_ticks e) timescale \<le> sp_target_duration (finish_plan entries timescale)"
    by simp
  then show ?thesis
    using div_ceil_ge [OF assms(2), of "pe_duration_ticks e"] by (meson le_trans mult_le_mono1)
qed

section \<open>The whole copy plan\<close>

definition tail_ticks :: "track_durations \<Rightarrow> nat \<Rightarrow> nat" where
  "tail_ticks tracks timescale =
     (let tail_ms = wrap_i64 (td_audio_ms tracks - td_video_ms tracks) in
      if tail_ms \<le> 50 then 0 else ms_to_ticks tail_ms timescale)"

definition is_tail_entry :: "(nat \<Rightarrow> nat) \<Rightarrow> cut_policy \<Rightarrow> plan_entry \<Rightarrow> bool" where
  "is_tail_entry hr policy e \<longleftrightarrow> pe_kind e = AudioTail \<and> pe_fragments e = 0 \<and>
     0 < pe_duration_ticks e \<and> pe_duration_ticks e \<le> max (max_ticks policy) 1 \<and>
     pe_est_bytes e = hr (pe_duration_ticks e) \<and> pe_cut e = PlanEndOfStream"

text \<open>The tail in order: every entry but the last one is full.\<close>

definition is_tail :: "(nat \<Rightarrow> nat) \<Rightarrow> cut_policy \<Rightarrow> plan_entry list \<Rightarrow> bool" where
  "is_tail hr policy tail \<longleftrightarrow> (\<forall>e \<in> set tail. is_tail_entry hr policy e) \<and>
     (\<forall>e \<in> set (butlast tail). pe_duration_ticks e = max (max_ticks policy) 1)"

lemma headroom_0 [simp]: "headroom td ts 0 = 0"
  by (simp add: headroom_def saturating_mul_u64_def)

lemma append_audio_tail_spec:
  assumes "tiles a es b" and "es \<noteq> []" and "b + tail_ticks tracks ts \<le> U64_MAX"
    and "length es + tail_ticks tracks ts \<le> U32_MAX"
  shows "\<exists>tail. append_audio_tail es tracks policy ts = es @ tail \<and>
     tiles b tail (b + tail_ticks tracks ts) \<and>
     map pe_index tail = [length es..<length es + length tail] \<and>
     is_tail (headroom tracks ts) policy tail"
proof (cases "wrap_i64 (td_audio_ms tracks - td_video_ms tracks) \<le> 50")
  case True
  then show ?thesis by (intro exI [of _ "[]"]) (simp add: append_audio_tail_def tail_ticks_def is_tail_def)
next
  case False
  have "end_ticks (last es) = b"
    using tiles_last_end [OF assms(1,2)] assms(3) by (simp add: end_ticks_def)
  then have eq: "append_audio_tail es tracks policy ts =
      audio_tail_from (headroom tracks ts) (max (max_ticks policy) 1) b (tail_ticks tracks ts) es"
    using False assms(2) by (simp add: append_audio_tail_def tail_ticks_def)
  have "0 < max (max_ticks policy) 1" by simp
  from audio_tail_from_spec [OF this assms(3,4), of "headroom tracks ts"] show ?thesis
    unfolding eq is_tail_entry_def is_tail_def by blast
qed

lemma plan_groups_empty: "plan_groups cutf fl hr rows es gs \<Longrightarrow> es = [] \<longleftrightarrow> rows = []"
  by (cases gs; cases es) (auto simp: plan_groups_def covers_def)

lemma plan_groups_length: "plan_groups cutf fl hr rows es gs \<Longrightarrow> length es \<le> length rows"
proof -
  assume pg: "plan_groups cutf fl hr rows es gs"
  then have "\<forall>h \<in> set gs. h \<noteq> []"
    by (auto simp: plan_groups_def covers_def list_all2_conv_all_nth in_set_conv_nth)
  then have "length gs \<le> length (concat gs)" by (rule length_concat_nonempty)
  with pg show ?thesis by (auto simp: plan_groups_def list_all2_lengthD)
qed

definition plan_room :: "'p fragment_index \<Rightarrow> track_durations \<Rightarrow> nat \<Rightarrow> nat \<Rightarrow> bool" where
  "plan_room index tracks a b \<longleftrightarrow>
     rows_fit (fi_rows index) \<and> rows_tile a (fi_rows index) b \<and> fi_rows index \<noteq> [] \<and>
     b + tail_ticks tracks (max (fi_timescale index) 1) \<le> U64_MAX \<and>
     length (fi_rows index) + tail_ticks tracks (max (fi_timescale index) 1) \<le> U32_MAX"

lemma plan_copy_parts:
  fixes index :: "'p fragment_index"
  assumes "plan_room index tracks a b"
  obtains video groups tail where "sp_entries (plan_copy index policy tracks) = video @ tail"
    and "plan_groups (cut_before policy) (policy_floor policy) (headroom tracks (max (fi_timescale index) 1)) (fi_rows index) video groups"
    and "greedy_groups (cut_before policy) (headroom tracks (max (fi_timescale index) 1)) groups"
    and "tiles a video b"
    and "tiles b tail (b + tail_ticks tracks (max (fi_timescale index) 1))"
    and "map pe_index tail = [length video..<length video + length tail]"
    and "is_tail (headroom tracks (max (fi_timescale index) 1)) policy tail"
proof -
  let ?hr = "headroom tracks (max (fi_timescale index) 1)"
  let ?es = "copy_entries (cut_before policy) ?hr (fi_rows index)"
  have fit: "rows_fit (fi_rows index)" and rt: "rows_tile a (fi_rows index) b" and ne: "fi_rows index \<noteq> []"
    and room: "b + tail_ticks tracks (max (fi_timescale index) 1) \<le> U64_MAX"
      "length (fi_rows index) + tail_ticks tracks (max (fi_timescale index) 1) \<le> U32_MAX"
    using assms by (auto simp: plan_room_def)
  obtain gs where gs: "plan_groups (cut_before policy) (policy_floor policy) ?hr (fi_rows index) ?es gs"
    and gr: "greedy_groups (cut_before policy) ?hr gs"
    using policy.copy_entries_groups [of ?hr, OF headroom_0 fit] by blast
  have t: "tiles a ?es b" using plan_groups_tile [OF gs rt] .
  have "?es \<noteq> []" using plan_groups_empty [OF gs] ne by simp
  moreover have "length ?es + tail_ticks tracks (max (fi_timescale index) 1) \<le> U32_MAX"
    using plan_groups_length [OF gs] room(2) by linarith
  ultimately obtain tail where
    tail: "append_audio_tail ?es tracks policy (max (fi_timescale index) 1) = ?es @ tail"
      "tiles b tail (b + tail_ticks tracks (max (fi_timescale index) 1))"
      "map pe_index tail = [length ?es..<length ?es + length tail]"
      "is_tail ?hr policy tail"
    using append_audio_tail_spec [OF t _ room(1)] by blast
  have "sp_entries (plan_copy index policy tracks) = ?es @ tail"
    using tail(1) by (simp add: plan_copy_def finish_plan_def Let_def)
  then show thesis using that gs gr t tail(2-4) by blast
qed

text \<open>C1: The copy plan is the greedy partition of the film by the policy: its video entries are
  consecutive non-empty groups of index rows, in order, none lost or repeated, each with exactly
  its group's start, duration, bytes and fragment count. Each group ends exactly where the policy
  cuts: asked about the entry and the next row it cuts, for the reason the entry records, never
  below the floor and clean exactly when the next row is, and asked in front of an earlier row of
  the group it would not have. The audio tail follows without a gap, in entries of the full ceiling
  but the last, and the entries are numbered from zero.\<close>

theorem plan_copy_shape:
  assumes "plan_room index tracks a b"
  shows "\<exists>video groups tail. sp_entries (plan_copy index policy tracks) = video @ tail \<and>
     plan_groups (cut_before policy) (policy_floor policy) (headroom tracks (max (fi_timescale index) 1)) (fi_rows index) video groups \<and>
     greedy_groups (cut_before policy) (headroom tracks (max (fi_timescale index) 1)) groups \<and>
     tiles a video b \<and> tiles b tail (b + tail_ticks tracks (max (fi_timescale index) 1)) \<and>
     map pe_index (video @ tail) = [0..<length (video @ tail)] \<and>
     is_tail (headroom tracks (max (fi_timescale index) 1)) policy tail"
proof (rule plan_copy_parts [OF assms, of policy])
  let ?hr = "headroom tracks (max (fi_timescale index) 1)"
  fix video groups tail
  assume p: "sp_entries (plan_copy index policy tracks) = video @ tail"
    "plan_groups (cut_before policy) (policy_floor policy) ?hr (fi_rows index) video groups"
    "greedy_groups (cut_before policy) ?hr groups" "tiles a video b"
    "tiles b tail (b + tail_ticks tracks (max (fi_timescale index) 1))"
    "map pe_index tail = [length video..<length video + length tail]"
    "is_tail ?hr policy tail"
  have "map pe_index (video @ tail) = [0..<length (video @ tail)]"
    using p(2,6) upt_add_eq_append [of 0 "length video" "length tail"]
    by (simp add: plan_groups_def del: upt_Suc)
  then show ?thesis using p(1-5,7) by (intro exI conjI)
qed

section \<open>The whole transcode plan\<close>

lemma ms_to_ticks_mono: "a \<le> b \<Longrightarrow> ms_to_ticks a ts \<le> ms_to_ticks b ts"
proof -
  assume "a \<le> b"
  then have "nat (max a 0) * ts \<le> nat (max b 0) * ts" by (intro mult_right_mono) auto
  then show ?thesis
    unfolding ms_to_ticks_def saturating_mul_u64_def by (intro div_le_mono min.mono order.refl)
qed

lemma grid_step: "(d + 1999) div 2000 = (d - 1) div 2000 + (1::int)"
  using div_add_self2 [of "2000::int" "d - 1"] by simp

lemma grid_count: "0 < d \<Longrightarrow> (d + 1999) div 2000 = (d - min 2000 d + 1999) div 2000 + (1::int)"
  by (cases "2000 \<le> d") (simp_all add: grid_step [of d] div_pos_pos_trivial)

lemma grid_zero: "0 \<le> d \<Longrightarrow> nat ((d + 1999) div 2000) = 0 \<longleftrightarrow> d = (0::int)"
proof -
  assume "0 \<le> d"
  moreover have "0 < d \<Longrightarrow> 0 \<le> (d - 1) div 2000" by simp
  ultimately show ?thesis using grid_step [of d] by (cases "d = 0") auto
qed

lemma transcode_from_spec:
  assumes "length entries + nat (duration_ms - start_ms) \<le> U32_MAX" and "start_ms \<le> duration_ms"
  shows "\<exists>es. transcode_from tracks ts duration_ms start_ms entries = entries @ es \<and>
     tiles (ms_to_ticks start_ms ts) es (ms_to_ticks duration_ms ts) \<and>
     map pe_index es = [length entries..<length entries + length es] \<and>
     length es = nat ((duration_ms - start_ms + 1999) div 2000) \<and>
     (\<forall>i < length es. pe_start_ticks (es ! i) = ms_to_ticks (start_ms + 2000 * int i) ts \<and>
        pe_cut (es ! i) = (if Suc i = length es then PlanEndOfStream else PlanClean))"
  using assms
proof (induction tracks ts duration_ms start_ms entries rule: transcode_from.induct)
  case (1 tracks ts duration_ms start_ms entries)
  show ?case
  proof (cases "start_ms < duration_ms")
    case False
    with "1.prems" have "start_ms = duration_ms" by simp
    then show ?thesis
      by (intro exI [of _ "[]"])
        (simp add: transcode_from.simps [of tracks ts duration_ms duration_ms])
  next
    case True
    let ?span = "min TRANSCODE_GRID_MS (duration_ms - start_ms)"
    let ?a = "ms_to_ticks start_ms ts" and ?b = "ms_to_ticks (start_ms + ?span) ts"
    let ?e = "\<lparr> pe_index = length entries mod (U32_MAX + 1), pe_kind = VideoEntry,
                pe_start_ticks = ?a, pe_duration_ticks = ?b - ?a,
                pe_est_bytes = headroom tracks ts (?b - ?a),
                pe_cut = (if duration_ms \<le> start_ms + ?span then PlanEndOfStream else PlanClean),
                pe_fragments = 0 \<rparr>"
    have span: "0 < ?span" "start_ms + ?span \<le> duration_ms" using True by (auto simp: min_def)
    have fitn: "length (entries @ [?e]) + nat (duration_ms - (start_ms + ?span)) \<le> U32_MAX"
      using "1.prems"(1) span True by simp
    obtain es where es: "transcode_from tracks ts duration_ms (start_ms + ?span) (entries @ [?e])
          = (entries @ [?e]) @ es"
      "tiles ?b es (ms_to_ticks duration_ms ts)"
      "map pe_index es = [length (entries @ [?e])..<length (entries @ [?e]) + length es]"
      "length es = nat ((duration_ms - (start_ms + ?span) + 1999) div 2000)"
      "\<forall>i < length es. pe_start_ticks (es ! i) = ms_to_ticks (start_ms + ?span + 2000 * int i) ts \<and>
        pe_cut (es ! i) = (if Suc i = length es then PlanEndOfStream else PlanClean)"
      using "1.IH" [OF True refl refl refl fitn span(2)] by blast
    have mono: "?a + (?b - ?a) = ?b" using ms_to_ticks_mono [of start_ms "start_ms + ?span" ts] span by simp
    have len: "length (?e # es) = nat ((duration_ms - start_ms + 1999) div 2000)"
      using grid_count [of "duration_ms - start_ms"] True es(4) span(2)
      by (simp add: algebra_simps nat_add_distrib)
    have last_iff: "duration_ms \<le> start_ms + ?span \<longleftrightarrow> es = []"
      using grid_zero [of "duration_ms - (start_ms + ?span)"] es(4) span(2) by auto
    have full: "es \<noteq> [] \<Longrightarrow> ?span = 2000" using last_iff span by (simp add: min_def split: if_splits)
    have each: "pe_start_ticks ((?e # es) ! i) = ms_to_ticks (start_ms + 2000 * int i) ts \<and>
        pe_cut ((?e # es) ! i) = (if Suc i = length (?e # es) then PlanEndOfStream else PlanClean)"
      if "i < length (?e # es)" for i
    proof (cases i)
      case 0
      then show ?thesis using last_iff by (simp add: eq_commute [of 0])
    next
      case (Suc j)
      then have "j < length es" using that by simp
      moreover from this have "es \<noteq> []" by auto
      then have "?span = 2000" by (rule full)
      ultimately show ?thesis using es(5) Suc by (simp add: algebra_simps)
    qed
    have "transcode_from tracks ts duration_ms start_ms entries = entries @ (?e # es)"
      using True es(1) by (simp add: transcode_from.simps [of tracks ts duration_ms start_ms] Let_def)
    moreover have "map pe_index (?e # es) = [length entries..<length entries + length (?e # es)]"
      using es(3) "1.prems"(1) True upt_step [of "length entries" "length es"] by (simp del: upt_Suc)
    moreover have "tiles ?a (?e # es) (ms_to_ticks duration_ms ts)" using es(2) mono by simp
    ultimately show ?thesis using len each by blast
  qed
qed

text \<open>The transcode plan is the fixed grid: the entries follow each other from tick zero to the
  end of the film without gap or overlap, entry \<open>i\<close> starts at \<open>2000 i\<close> milliseconds, there is
  one per started grid step, and only the last is the end of the stream.\<close>

theorem transcode_plan_grid:
  assumes "0 \<le> duration_ms" and "duration_ms \<le> int U32_MAX"
  shows "let es = sp_entries (plan_transcode duration_ms timescale tracks); ts = max timescale 1 in
    tiles 0 es (ms_to_ticks duration_ms ts) \<and> map pe_index es = [0..<length es] \<and>
    length es = nat ((duration_ms + 1999) div 2000) \<and>
    (\<forall>i < length es. pe_start_ticks (es ! i) = ms_to_ticks (2000 * int i) ts \<and>
       pe_cut (es ! i) = (if Suc i = length es then PlanEndOfStream else PlanClean))"
proof -
  have "length ([] :: plan_entry list) + nat (duration_ms - 0) \<le> U32_MAX" using assms by simp
  from transcode_from_spec [OF this assms(1), of tracks "max timescale 1"]
  show ?thesis using assms(1)
    by (auto simp: plan_transcode_def finish_plan_def Let_def ms_to_ticks_def saturating_mul_u64_def)
qed

section \<open>Bounds of a segment\<close>

lemma greedy_group_bound:
  assumes "greedy_group (cut_before policy) hr first g" and "g \<noteq> []"
    and "\<forall>row \<in> set g. 0 < ir_bytes row \<and> ir_duration row \<le> d"
  shows "sum_list (map ir_duration g) \<le> max (policy_floor policy first) (max_ticks policy) + d"
proof (cases g rule: rev_cases)
  case (snoc p x)
  show ?thesis
  proof (cases "p = []")
    case False
    let ?t = "sum_list (map ir_duration p)" and ?b = "sum_list (map ir_bytes p)"
    have "cut_before policy ?t (saturating_add_u64 ?b (hr ?t)) (ir_class x) first = None"
      using assms(1) False snoc unfolding greedy_group_def by blast
    moreover obtain y ys where "p = y # ys" using False by (cases p) auto
    then have "0 < ?b" using assms(3) snoc by simp
    then have "saturating_add_u64 ?b (hr ?t) \<noteq> 0" by (simp add: saturating_add_u64_def)
    ultimately have "?t < max (policy_floor policy first) (max_ticks policy)"
      by (auto simp: cut_before_def policy_floor_def Let_def split: if_splits)
    then show ?thesis using assms(3) snoc by simp
  qed (use assms(3) snoc in simp)
qed (use assms(2) in simp)

text \<open>No published copy segment runs away: when every fragment has bytes and lasts at most
  \<open>d\<close> ticks, every video entry of the plan lasts at most the larger of the floor and the
  time ceiling, plus one fragment.\<close>

theorem copy_segments_bounded:
  fixes index :: "'p fragment_index" and policy tracks
  assumes "plan_room index tracks a b"
    and "\<forall>row \<in> set (fi_rows index). 0 < ir_bytes row \<and> ir_duration row \<le> d"
  shows "\<not> (\<exists>e \<in> set (sp_entries (plan_copy index policy tracks)). pe_kind e = VideoEntry \<and>
    max (max (first_floor_ticks policy) (floor_ticks policy)) (max_ticks policy) + d < pe_duration_ticks e)"
proof (rule plan_copy_parts [OF assms(1), of policy])
  let ?hr = "headroom tracks (max (fi_timescale index) 1)"
  fix es gs tail
  assume p: "sp_entries (plan_copy index policy tracks) = es @ tail"
    "plan_groups (cut_before policy) (policy_floor policy) ?hr (fi_rows index) es gs"
    "greedy_groups (cut_before policy) ?hr gs" "is_tail ?hr policy tail"
  have all2: "list_all2 (covers ?hr) es gs" and cat: "concat gs = fi_rows index"
    using p(2) by (auto simp: plan_groups_def)
  have "pe_duration_ticks (es ! i) \<le>
      max (max (first_floor_ticks policy) (floor_ticks policy)) (max_ticks policy) + d"
    if i: "i < length es" for i
  proof -
    have i': "i < length gs" using i list_all2_lengthD [OF all2] by simp
    have cov: "covers ?hr (es ! i) (gs ! i)" using list_all2_nthD [OF all2 i] .
    have "set (gs ! i) \<subseteq> set (fi_rows index)" using nth_mem [OF i'] unfolding cat [symmetric] by auto
    then have "sum_list (map ir_duration (gs ! i)) \<le> max (policy_floor policy (i = 0)) (max_ticks policy) + d"
      using greedy_group_bound [of policy ?hr "i = 0" "gs ! i" d] p(3) i' cov assms(2)
      by (auto simp: greedy_groups_def covers_def)
    then show ?thesis using cov by (auto simp: covers_def policy_floor_def split: if_splits)
  qed
  then have video: "pe_duration_ticks e \<le>
      max (max (first_floor_ticks policy) (floor_ticks policy)) (max_ticks policy) + d" if "e \<in> set es" for e
    using that unfolding in_set_conv_nth by blast
  have "pe_kind e \<noteq> VideoEntry" if "e \<in> set tail" for e
    using p(4) that by (simp add: is_tail_def is_tail_entry_def)
  then show ?thesis using video p(1) by (metis UnE linorder_not_less set_append)
qed

text \<open>The advertised target duration covers every segment of a copy or transcode plan, and is
  the rounded-up length of one of them.\<close>

theorem target_duration_covers:
  assumes "plan = plan_copy index policy tracks \<or> plan = plan_transcode duration_ms timescale tracks"
    and "e \<in> set (sp_entries plan)" and "pe_duration_ticks e \<le> U32_MAX * sp_timescale plan"
  shows "pe_duration_ticks e \<le> sp_target_duration plan * sp_timescale plan \<and>
    sp_target_duration plan \<in> entry_seconds (sp_timescale plan) ` set (sp_entries plan)"
proof -
  obtain es ts where p: "plan = finish_plan es ts" and ts: "0 < ts"
    using assms(1) by (auto simp: plan_copy_def plan_transcode_def Let_def)
  have e: "e \<in> set es" "pe_duration_ticks e \<le> U32_MAX * ts"
    using assms(2,3) p by (simp_all add: finish_plan_def)
  then have "map (entry_seconds ts) es \<noteq> []" by auto
  from foldr_max_in [OF this] have "sp_target_duration plan \<in> entry_seconds ts ` set es"
    by (simp add: p finish_plan_def)
  then show ?thesis using target_covers_entry [OF e(1) ts e(2)] p by (simp add: finish_plan_def)
qed

section \<open>Witnesses\<close>

text \<open>Four two-second fragments at a timescale of 1000, the third not clean; a policy with a
  floor of four seconds; half a second of audio past the video.\<close>

definition demo_row :: "nat \<Rightarrow> cut_class \<Rightarrow> index_row" where
  "demo_row t c = \<lparr> ir_dts = t, ir_duration = 2000, ir_bytes = 90, ir_video_bytes = 70 + t div 1000, ir_class = c \<rparr>"

definition demo_index :: "unit fragment_index" where
  "demo_index = fragment_index_new () 1000
     [demo_row 0 CleanIdr, demo_row 2000 CleanIdr, demo_row 4000 Dirty, demo_row 6000 CleanCra] ''sha''
     (source_identity_new 360 0 ''fp'')"

definition demo_policy :: cut_policy where
  "demo_policy = cut_policy_new 4 2 1000 6 1000"

definition demo_tracks :: track_durations where
  "demo_tracks = \<lparr> td_video_ms = 8000, td_audio_ms = 8500, td_audio_bits_per_second = 800 \<rparr>"

lemmas demo_plan_simps = demo_index_def demo_row_def demo_policy_def demo_tracks_def fragment_index_new_def
  cut_policy_new_def rows_fit_def tail_ticks_def ms_to_ticks_def saturating_mul_u64_def Let_def

lemma demo_room: "plan_room demo_index demo_tracks 0 8000" "tail_ticks demo_tracks 1000 = 500"
  by (simp_all add: plan_room_def demo_plan_simps)

theorem plan_copy_shape_witness:
  "\<exists>video groups tail. sp_entries (plan_copy demo_index demo_policy demo_tracks) = video @ tail \<and>
     plan_groups (cut_before demo_policy) (policy_floor demo_policy) (headroom demo_tracks 1000) (fi_rows demo_index) video groups \<and>
     tiles 0 video 8000 \<and> tiles 8000 tail 8500"
  using plan_copy_shape [OF demo_room(1), of demo_policy] demo_room(2)
  by (simp add: demo_index_def fragment_index_new_def) blast

theorem transcode_plan_grid_witness:
  "length (sp_entries (plan_transcode 9500 90000 demo_tracks)) = 5"
  using transcode_plan_grid [of 9500 90000 demo_tracks] by (simp add: Let_def)

theorem copy_segments_bounded_witness:
  "\<not> (\<exists>e \<in> set (sp_entries (plan_copy demo_index demo_policy demo_tracks)). pe_kind e = VideoEntry \<and>
     8000 < pe_duration_ticks e)"
  using copy_segments_bounded [OF demo_room(1), of 2000 demo_policy] by (simp add: demo_plan_simps)

theorem target_duration_covers_witness:
  "hd (sp_entries (plan_transcode 1500 1000 demo_tracks)) = last (sp_entries (plan_transcode 1500 1000 demo_tracks)) \<and>
   1500 \<le> sp_target_duration (plan_transcode 1500 1000 demo_tracks) * 1000"
proof -
  have e: "sp_entries (plan_transcode 1500 1000 demo_tracks) =
      [\<lparr> pe_index = 0, pe_kind = VideoEntry, pe_start_ticks = 0, pe_duration_ticks = 1500,
         pe_est_bytes = headroom demo_tracks 1000 1500, pe_cut = PlanEndOfStream, pe_fragments = 0 \<rparr>]"
    by (simp add: plan_transcode_def finish_plan_def transcode_from.simps ms_to_ticks_def
        saturating_mul_u64_def Let_def)
  have t: "sp_timescale (plan_transcode 1500 1000 demo_tracks) = 1000"
    by (simp add: plan_transcode_def finish_plan_def)
  show ?thesis
    using target_duration_covers [OF disjI2 [OF refl], of "hd (sp_entries (plan_transcode 1500 1000 demo_tracks))"
        1500 1000 demo_tracks] e t by simp
qed

end
