(* ===== verification/Landing.thy ===== *)
theory Landing
  imports SegPlan
begin

text \<open>
  The landing matcher of \<open>crates/plurx-core/src/segplan.rs\<close>: where in the index a
  repositioned producer landed, from the summed video bytes of the fragments it emitted
  (\<open>match_landing\<close>), or from the time its demuxer landed at (\<open>match_landing_at\<close>), and
  the number of fragments to discard from there to a plan entry.
\<close>

section \<open>The matcher\<close>

abbreviation LANDING_WINDOW :: nat where "LANDING_WINDOW \<equiv> 3"

datatype landing_error =
  TooShort nat nat                   \<comment> \<open>observed, needed\<close>
| NoMatch
| PastTarget nat nat                 \<comment> \<open>row, target\<close>
| Ambiguous nat nat nat              \<comment> \<open>first, second, compared\<close>
| TimeOffIndex nat
| TimeContradicts nat

text \<open>Do the rows from \<open>start\<close> weigh exactly what was observed, fragment for fragment?\<close>

definition reproduces :: "index_row list \<Rightarrow> nat \<Rightarrow> nat list \<Rightarrow> bool" where
  "reproduces rows start observed \<longleftrightarrow>
     list_all (\<lambda>(row, bytes). ir_video_bytes row = bytes)
       (zip (take (length observed) (drop start rows)) observed)"

definition last_landing_start :: "index_row list \<Rightarrow> nat list \<Rightarrow> landing_error + nat" where
  "last_landing_start rows observed =
     (if observed = [] then Inl (TooShort 0 1)
      else if length rows < min (length observed) LANDING_WINDOW
           then Inl (TooShort (length rows) (min (length observed) LANDING_WINDOW))
      else if length rows < length observed then Inl NoMatch
      else Inr (length rows - length observed))"

text \<open>
  The search loop of \<open>match_landing\<close>: the second candidate found ends it with
  \<open>Ambiguous\<close>.
\<close>

fun landing_scan ::
    "(nat \<Rightarrow> bool) \<Rightarrow> nat \<Rightarrow> nat option \<Rightarrow> nat list \<Rightarrow> landing_error + nat option" where
  "landing_scan matches_at compared found [] = Inr found"
| "landing_scan matches_at compared found (start # starts) =
     (if \<not> matches_at start then landing_scan matches_at compared found starts
      else case found of
             None \<Rightarrow> landing_scan matches_at compared (Some start) starts
           | Some first \<Rightarrow> Inl (Ambiguous first start compared))"

definition match_landing ::
    "'p fragment_index \<Rightarrow> nat list \<Rightarrow> nat \<Rightarrow> landing_error + nat" where
  "match_landing index observed target =
     (let rows = fi_rows index in
      case last_landing_start rows observed of Inl e \<Rightarrow> Inl e | Inr last_start \<Rightarrow>
        let matches_at = (\<lambda>start. reproduces rows start observed) in
        case landing_scan matches_at (length observed) None [0..<Suc (min last_start target)] of
          Inl e \<Rightarrow> Inl e
        | Inr None \<Rightarrow>
            (case find matches_at [min USIZE_MAX (target + 1)..<Suc last_start] of
               Some row \<Rightarrow> Inl (PastTarget row target)
             | None \<Rightarrow> Inl NoMatch)
        | Inr (Some start) \<Rightarrow>
            if length observed < LANDING_WINDOW \<and> start + length observed \<noteq> length rows
            then Inl NoMatch
            else Inr start)"

definition abs_diff :: "nat \<Rightarrow> nat \<Rightarrow> nat" where
  "abs_diff a b = (if a < b then b - a else a - b)"

text \<open>
  \<open>partition_point\<close>: on rows sorted by decode time, the number of rows at or before the
  measured time. \<open>nearest_row\<close> is the \<open>min_by_key\<close> over the one or two rows around it,
  the earlier one on a tie.
\<close>

definition rows_at_or_before :: "index_row list \<Rightarrow> nat \<Rightarrow> nat" where
  "rows_at_or_before rows t = length (takeWhile (\<lambda>row. ir_dts row \<le> t) rows)"

definition nearest_row :: "index_row list \<Rightarrow> nat \<Rightarrow> nat option" where
  "nearest_row rows t =
     (let after = rows_at_or_before rows t;
          dist = (\<lambda>r. abs_diff (ir_dts (rows ! r)) t)
      in if 0 < after
         then if after < length rows \<and> dist after < dist (after - 1)
              then Some after else Some (after - 1)
         else if after < length rows then Some after else None)"

definition match_landing_at ::
    "'p fragment_index \<Rightarrow> nat list \<Rightarrow> nat \<Rightarrow> nat \<Rightarrow> nat \<Rightarrow> landing_error + nat" where
  "match_landing_at index observed target landed_ticks tolerance_ticks =
     (let rows = fi_rows index in
      case last_landing_start rows observed of Inl e \<Rightarrow> Inl e | Inr last_start \<Rightarrow>
      case nearest_row rows landed_ticks of
        None \<Rightarrow> Inl (TimeOffIndex landed_ticks)
      | Some row \<Rightarrow>
          let off = abs_diff (ir_dts (rows ! row)) landed_ticks in
          if max tolerance_ticks 1 \<le> off
             \<or> max (ir_duration (rows ! row)) 1 \<le> saturating_mul_u64 off 2
          then Inl (TimeOffIndex landed_ticks)
          else if target < row then Inl (PastTarget row target)
          else if last_start < row \<or> \<not> reproduces rows row observed
               then Inl (TimeContradicts row)
          else if length observed < LANDING_WINDOW \<and> row + length observed \<noteq> length rows
               then Inl NoMatch
          else Inr row)"

text \<open>\<open>position\<close>: the first index whose element satisfies the predicate.\<close>

fun position_from :: "nat \<Rightarrow> ('a \<Rightarrow> bool) \<Rightarrow> 'a list \<Rightarrow> nat option" where
  "position_from i P [] = None"
| "position_from i P (x # xs) = (if P x then Some i else position_from (Suc i) P xs)"

definition entry_row :: "'p fragment_index \<Rightarrow> plan_entry \<Rightarrow> nat option" where
  "entry_row index entry =
     position_from 0 (\<lambda>row. ir_dts row = pe_start_ticks entry) (fi_rows index)"

definition discards_to :: "'p fragment_index \<Rightarrow> nat \<Rightarrow> plan_entry \<Rightarrow> nat option" where
  "discards_to index landed_row entry =
     (case entry_row index entry of
        None \<Rightarrow> None
      | Some row \<Rightarrow> if landed_row \<le> row then Some (row - landed_row) else None)"

section \<open>What a landing is\<close>

text \<open>The rows from \<open>s\<close> on are exactly the observation.\<close>

definition lands :: "index_row list \<Rightarrow> nat list \<Rightarrow> nat \<Rightarrow> bool" where
  "lands rows observed s \<longleftrightarrow>
     s + length observed \<le> length rows \<and>
     (\<forall>i < length observed. ir_video_bytes (rows ! (s + i)) = observed ! i)"

lemma reproduces_iff:
  "s + length observed \<le> length rows \<Longrightarrow> reproduces rows s observed \<longleftrightarrow> lands rows observed s"
  by (auto simp: reproduces_def lands_def list_all_length)

lemma lands_prefix: "lands rows (xs @ ys) s \<Longrightarrow> lands rows xs s"
  by (force simp: lands_def nth_append)

lemma landing_scan_Some:
  "landing_scan m n (Some f) xs =
     (case filter m xs of [] \<Rightarrow> Inr (Some f) | s # _ \<Rightarrow> Inl (Ambiguous f s n))"
  by (induction xs) auto

lemma landing_scan_None:
  "landing_scan m n None xs =
     (case filter m xs of [] \<Rightarrow> Inr None
      | [r] \<Rightarrow> Inr (Some r)
      | f # s # _ \<Rightarrow> Inl (Ambiguous f s n))"
  by (induction xs) (auto simp: landing_scan_Some split: list.splits)

text \<open>The candidates the search looks at, in order.\<close>

definition candidates :: "index_row list \<Rightarrow> nat list \<Rightarrow> nat \<Rightarrow> nat list" where
  "candidates rows observed target =
     filter (lands rows observed) [0..<Suc (min (length rows - length observed) target)]"

lemma set_candidates:
  "observed \<noteq> [] \<Longrightarrow> length observed \<le> length rows \<Longrightarrow>
   set (candidates rows observed target) = {s. s \<le> target \<and> lands rows observed s}"
  by (auto simp: candidates_def lands_def less_Suc_eq_le simp del: upt_Suc)

lemma distinct_candidates: "distinct (candidates rows observed target)"
  by (simp add: candidates_def)

lemma sorted_candidates: "sorted (candidates rows observed target)"
  by (simp add: candidates_def sorted_wrt_filter del: upt_Suc)

lemma candidates_single:
  "observed \<noteq> [] \<Longrightarrow> length observed \<le> length rows \<Longrightarrow>
   candidates rows observed target = [r] \<longleftrightarrow>
     r \<le> target \<and> lands rows observed r \<and> (\<forall>s \<le> target. lands rows observed s \<longrightarrow> s = r)"
  (is "_ \<Longrightarrow> _ \<Longrightarrow> ?L \<longleftrightarrow> ?R")
proof -
  assume ne: "observed \<noteq> []" and len: "length observed \<le> length rows"
  note set = set_candidates [OF ne len, of target]
  show "?L \<longleftrightarrow> ?R"
  proof
    assume ?L
    then have "{s. s \<le> target \<and> lands rows observed s} = {r}" using set by simp
    then show ?R by blast
  next
    assume ?R
    then have "set (candidates rows observed target) = {r}" unfolding set by blast
    then show ?L using distinct_candidates [of rows observed target]
      by (cases "candidates rows observed target" rule: remdups_adj.cases) auto
  qed
qed

text \<open>\<open>match_landing\<close> over the candidate list.\<close>

lemma match_landing_candidates:
  "match_landing index observed target =
     (let rows = fi_rows index in
      if observed = [] then Inl (TooShort 0 1)
      else if length rows < min (length observed) LANDING_WINDOW
           then Inl (TooShort (length rows) (min (length observed) LANDING_WINDOW))
      else if length rows < length observed then Inl NoMatch
      else case candidates rows observed target of
             [] \<Rightarrow> (case find (lands rows observed)
                       [min USIZE_MAX (target + 1)..<Suc (length rows - length observed)] of
                      Some row \<Rightarrow> Inl (PastTarget row target)
                    | None \<Rightarrow> Inl NoMatch)
           | [r] \<Rightarrow> if length observed < LANDING_WINDOW \<and> r + length observed \<noteq> length rows
                    then Inl NoMatch else Inr r
           | f # s # _ \<Rightarrow> Inl (Ambiguous f s (length observed)))"
proof -
  let ?rows = "fi_rows index" and ?n = "length observed"
  have filt: "filter (\<lambda>s. reproduces ?rows s observed) [0..<Suc (min (length ?rows - ?n) target)]
      = candidates ?rows observed target" if "?n \<le> length ?rows"
    unfolding candidates_def by (rule filter_cong) (use that in \<open>auto simp: reproduces_iff\<close>)
  have past: "find (\<lambda>s. reproduces ?rows s observed) [k..<Suc (length ?rows - ?n)]
      = find (lands ?rows observed) [k..<Suc (length ?rows - ?n)]" if "?n \<le> length ?rows" for k
    by (rule find_cong [OF refl]) (use that in \<open>auto simp: reproduces_iff\<close>)
  show ?thesis
    by (auto simp: match_landing_def last_landing_start_def landing_scan_None filt past Let_def
        split: list.splits simp del: upt_Suc)
qed

lemma match_landing_Ok_iff:
  "match_landing index observed target = Inr r \<longleftrightarrow>
     observed \<noteq> [] \<and> r \<le> target \<and> lands (fi_rows index) observed r \<and>
     (\<forall>s \<le> target. lands (fi_rows index) observed s \<longrightarrow> s = r) \<and>
     (length observed < LANDING_WINDOW \<longrightarrow> r + length observed = length (fi_rows index))"
  (is "?L \<longleftrightarrow> ?R")
proof (cases "observed \<noteq> [] \<and> length observed \<le> length (fi_rows index)")
  case False
  have "\<not> ?L"
  proof (cases "observed = []")
    case True
    then show ?thesis by (simp add: match_landing_def last_landing_start_def Let_def)
  next
    case ne: False
    then have "length (fi_rows index) < length observed" using False by simp
    then show ?thesis using ne by (simp add: match_landing_def last_landing_start_def Let_def)
  qed
  moreover have "\<not> ?R" using False by (auto simp: lands_def)
  ultimately show ?thesis by blast
next
  case True
  then have single: "candidates (fi_rows index) observed target = [r] \<longleftrightarrow>
      r \<le> target \<and> lands (fi_rows index) observed r \<and>
      (\<forall>s \<le> target. lands (fi_rows index) observed s \<longrightarrow> s = r)" for r
    by (intro candidates_single) auto
  have guards: "observed \<noteq> []"
    "\<not> length (fi_rows index) < min (length observed) LANDING_WINDOW"
    "\<not> length (fi_rows index) < length observed"
    using True by auto
  have "?L \<longleftrightarrow> candidates (fi_rows index) observed target = [r] \<and>
      (length observed < LANDING_WINDOW \<longrightarrow> r + length observed = length (fi_rows index))"
  proof (cases "candidates (fi_rows index) observed target")
    case Nil
    then show ?thesis
      unfolding match_landing_candidates Let_def if_not_P [OF guards(2)] if_not_P [OF guards(3)]
      using guards(1) by (simp del: upt_Suc split: option.split)
  next
    case (Cons f rest)
    then show ?thesis
      unfolding match_landing_candidates Let_def if_not_P [OF guards(2)] if_not_P [OF guards(3)]
      using guards(1) by (cases rest) auto
  qed
  then show ?thesis using True single by blast
qed

text \<open>What a true landing meets: the answer, an ambiguity, or the short-probe refusal.\<close>

lemma match_landing_cases:
  assumes true: "lands (fi_rows index) observed r" and bound: "r \<le> target" and ne: "observed \<noteq> []"
  shows "match_landing index observed target = Inr r \<or>
     (\<exists>f s. match_landing index observed target = Inl (Ambiguous f s (length observed)) \<and>
        f < s \<and> s \<le> target \<and> lands (fi_rows index) observed f \<and> lands (fi_rows index) observed s) \<or>
     (match_landing index observed target = Inl NoMatch \<and> length observed < LANDING_WINDOW \<and>
        r + length observed \<noteq> length (fi_rows index))"
proof -
  let ?c = "candidates (fi_rows index) observed target"
  have len: "length observed \<le> length (fi_rows index)" using true by (simp add: lands_def)
  have guards: "\<not> length (fi_rows index) < min (length observed) LANDING_WINDOW"
    "\<not> length (fi_rows index) < length observed" using len by auto
  have r: "r \<in> set ?c" using set_candidates [OF ne len] true bound by simp
  show ?thesis
  proof (cases ?c rule: remdups_adj.cases)
    case 1
    then show ?thesis using r by simp
  next
    case (2 x)
    then have "x = r" using r by simp
    then show ?thesis
      unfolding match_landing_candidates Let_def if_not_P [OF guards(1)] if_not_P [OF guards(2)]
      using ne 2 by simp
  next
    case (3 f s xs)
    then have "f \<in> set ?c" "s \<in> set ?c" by auto
    moreover have "f < s"
      using 3 sorted_candidates [of "fi_rows index" observed target]
        distinct_candidates [of "fi_rows index" observed target] by auto
    moreover have "match_landing index observed target = Inl (Ambiguous f s (length observed))"
      unfolding match_landing_candidates Let_def if_not_P [OF guards(1)] if_not_P [OF guards(2)]
      using ne 3 by simp
    ultimately show ?thesis using set_candidates [OF ne len] by blast
  qed
qed

lemma match_landing_grow:
  assumes "match_landing index observed target = Inr r"
    and "lands (fi_rows index) (observed @ extra) r"
  shows "match_landing index (observed @ extra) target = Inr r"
proof -
  let ?rows = "fi_rows index"
  have old: "observed \<noteq> []" "r \<le> target" "\<forall>s \<le> target. lands ?rows observed s \<longrightarrow> s = r"
    "length observed < LANDING_WINDOW \<longrightarrow> r + length observed = length ?rows"
    using assms(1) unfolding match_landing_Ok_iff by auto
  have "r + length (observed @ extra) \<le> length ?rows" using assms(2) by (simp add: lands_def)
  then have "length (observed @ extra) < LANDING_WINDOW \<longrightarrow>
      r + length (observed @ extra) = length ?rows"
    using old(4) by (simp, linarith)
  moreover have "\<forall>s \<le> target. lands ?rows (observed @ extra) s \<longrightarrow> s = r"
    using old(3) lands_prefix by blast
  ultimately show ?thesis unfolding match_landing_Ok_iff using old(1,2) assms(2) by blast
qed

section \<open>Landing by time\<close>

lemma abs_diff_int: "int (abs_diff a b) = \<bar>int a - int b\<bar>"
  by (simp add: abs_diff_def)

lemma abs_diff_below: "a \<le> b \<Longrightarrow> b \<le> t \<Longrightarrow> abs_diff b t \<le> abs_diff a t"
  by (auto simp: abs_diff_def)

lemma abs_diff_above: "t \<le> a \<Longrightarrow> a \<le> b \<Longrightarrow> abs_diff a t \<le> abs_diff b t"
  by (auto simp: abs_diff_def)

lemma rows_at_or_before_le: "rows_at_or_before rows t \<le> length rows"
  by (simp add: rows_at_or_before_def length_takeWhile_le)

lemma rows_at_or_before_split:
  assumes "sorted (map ir_dts rows)" and "i < length rows"
  shows "ir_dts (rows ! i) \<le> t \<longleftrightarrow> i < rows_at_or_before rows t"
proof
  assume "i < rows_at_or_before rows t"
  then show "ir_dts (rows ! i) \<le> t"
    unfolding rows_at_or_before_def by (metis nth_mem set_takeWhileD takeWhile_nth)
next
  assume le: "ir_dts (rows ! i) \<le> t"
  show "i < rows_at_or_before rows t"
  proof (rule ccontr)
    let ?k = "rows_at_or_before rows t"
    assume "\<not> i < ?k"
    then have ki: "?k \<le> i" by simp
    then have "?k < length rows" using assms(2) by simp
    then have "t < ir_dts (rows ! ?k)"
      unfolding rows_at_or_before_def using nth_length_takeWhile by force
    moreover have "ir_dts (rows ! ?k) \<le> ir_dts (rows ! i)"
      using sorted_nth_mono [OF assms(1) ki] assms(2) \<open>?k < length rows\<close> by simp
    ultimately show False using le by simp
  qed
qed

text \<open>On rows in decode order \<open>nearest_row\<close> is a nearest row.\<close>

lemma nearest_row_is_nearest:
  assumes sorted: "sorted (map ir_dts rows)" and some: "nearest_row rows t = Some r"
  shows "r < length rows \<and>
    (\<forall>j < length rows. abs_diff (ir_dts (rows ! r)) t \<le> abs_diff (ir_dts (rows ! j)) t)"
proof -
  let ?k = "rows_at_or_before rows t"
  have bound: "r < length rows"
    using some rows_at_or_before_le [of rows t]
    by (auto simp: nearest_row_def Let_def split: if_splits)
  have near: "abs_diff (ir_dts (rows ! r)) t \<le> abs_diff (ir_dts (rows ! j)) t"
    if j: "j < length rows" for j
  proof (cases "j < ?k")
    case True
    then have k: "0 < ?k" "?k - 1 < length rows" using rows_at_or_before_le [of rows t] by auto
    have "ir_dts (rows ! j) \<le> ir_dts (rows ! (?k - 1))"
      using sorted_nth_mono [OF sorted, of j "?k - 1"] True k by simp
    moreover have "ir_dts (rows ! (?k - 1)) \<le> t"
      using rows_at_or_before_split [OF sorted, of "?k - 1"] k by simp
    ultimately have "abs_diff (ir_dts (rows ! (?k - 1))) t \<le> abs_diff (ir_dts (rows ! j)) t"
      by (intro abs_diff_below) simp_all
    then show ?thesis using some k by (auto simp: nearest_row_def Let_def split: if_splits)
  next
    case False
    then have k: "?k < length rows" using j by simp
    have "ir_dts (rows ! ?k) \<le> ir_dts (rows ! j)"
      using sorted_nth_mono [OF sorted, of ?k j] False j by simp
    moreover have "\<not> ir_dts (rows ! ?k) \<le> t" using rows_at_or_before_split [OF sorted k] by simp
    ultimately have "abs_diff (ir_dts (rows ! ?k)) t \<le> abs_diff (ir_dts (rows ! j)) t"
      by (intro abs_diff_above) simp_all
    then show ?thesis using some k by (auto simp: nearest_row_def Let_def split: if_splits)
  qed
  show ?thesis using bound near by blast
qed

lemma nearest_row_None: "nearest_row rows t = None \<longleftrightarrow> rows = []"
  by (auto simp: nearest_row_def Let_def rows_at_or_before_def)

lemma nearest_row_unique:
  assumes sorted: "sorted (map ir_dts rows)" and r: "r < length rows"
    and strict: "\<forall>j < length rows. j \<noteq> r \<longrightarrow> abs_diff (ir_dts (rows ! r)) t < abs_diff (ir_dts (rows ! j)) t"
  shows "nearest_row rows t = Some r"
proof -
  obtain q where q: "nearest_row rows t = Some q"
    using nearest_row_None [of rows t] r by (cases "nearest_row rows t") auto
  show ?thesis using nearest_row_is_nearest [OF sorted q] strict q r by (metis not_le)
qed

lemma match_landing_at_Ok_iff:
  "match_landing_at index observed target t tol = Inr r \<longleftrightarrow>
     observed \<noteq> [] \<and> r \<le> target \<and> lands (fi_rows index) observed r \<and>
     nearest_row (fi_rows index) t = Some r \<and>
     abs_diff (ir_dts (fi_rows index ! r)) t < max tol 1 \<and>
     saturating_mul_u64 (abs_diff (ir_dts (fi_rows index ! r)) t) 2
        < max (ir_duration (fi_rows index ! r)) 1 \<and>
     (length observed < LANDING_WINDOW \<longrightarrow> r + length observed = length (fi_rows index))"
  (is "?L \<longleftrightarrow> ?R")
proof (cases "observed \<noteq> [] \<and> length observed \<le> length (fi_rows index)")
  case False
  have "\<not> ?L"
  proof (cases "observed = []")
    case True
    then show ?thesis by (simp add: match_landing_at_def last_landing_start_def)
  next
    case ne: False
    then have "length (fi_rows index) < length observed" using False by simp
    then show ?thesis using ne by (simp add: match_landing_at_def last_landing_start_def Let_def)
  qed
  moreover have "\<not> ?R" using False by (auto simp: lands_def)
  ultimately show ?thesis by blast
next
  case True
  let ?n = "length (fi_rows index) - length observed"
  have start: "last_landing_start (fi_rows index) observed = Inr ?n"
    using True by (auto simp: last_landing_start_def)
  have rep: "\<not> (?n < q \<or> \<not> reproduces (fi_rows index) q observed) \<longleftrightarrow> lands (fi_rows index) observed q" for q
  proof (cases "q \<le> ?n")
    case leq: True
    then have "q + length observed \<le> length (fi_rows index)" using True by linarith
    then show ?thesis using leq by (simp add: reproduces_iff)
  next
    case False
    then show ?thesis by (auto simp: lands_def)
  qed
  show ?thesis
  proof (cases "nearest_row (fi_rows index) t")
    case None
    then show ?thesis using start by (simp add: match_landing_at_def)
  next
    case (Some q)
    show ?thesis
      unfolding match_landing_at_def Let_def start Some sum.case option.case
      using rep [of q] True by (auto simp: not_le)
  qed
qed

section \<open>Discards\<close>

lemma position_from_shift: "position_from i P xs = map_option (\<lambda>k. i + k) (position_from 0 P xs)"
proof (induction xs arbitrary: i)
  case (Cons x xs)
  show ?case using Cons [of "Suc i"] Cons [of "Suc 0"]
    by (auto simp: option.map_comp comp_def)
qed simp

lemma position_from_Some:
  "position_from i P xs = Some row \<Longrightarrow> \<exists>k < length xs. row = i + k \<and> P (xs ! k)"
proof (induction xs arbitrary: i)
  case (Cons y ys)
  show ?case
  proof (cases "P y")
    case False
    then obtain k where "k < length ys" "row = Suc i + k" "P (ys ! k)" using Cons by fastforce
    then show ?thesis by (intro exI [of _ "Suc k"]) simp
  qed (use Cons.prems in force)
qed simp

lemma position_from_distinct:
  "distinct (map f xs) \<Longrightarrow> i < length xs \<Longrightarrow> position_from 0 (\<lambda>x. f x = f (xs ! i)) xs = Some i"
proof (induction xs arbitrary: i)
  case (Cons x xs)
  show ?case
  proof (cases i)
    case (Suc j)
    then have "f x \<noteq> f (xs ! j)" using Cons.prems by auto
    then show ?thesis
      using Cons.IH [of j] Cons.prems Suc
        position_from_shift [of "Suc 0" "\<lambda>x. f x = f (xs ! j)" xs]
      by auto
  qed simp
qed simp

lemma concat_nth_hd:
  assumes "k < length gs" and "gs ! k \<noteq> []"
  shows "sum_list (map length (take k gs)) < length (concat gs) \<and>
     concat gs ! sum_list (map length (take k gs)) = hd (gs ! k)"
proof -
  have split: "concat gs = concat (take k gs) @ gs ! k @ concat (drop (Suc k) gs)"
    using assms(1) by (metis concat.simps(2) concat_append id_take_nth_drop append_assoc)
  have len: "length (concat (take k gs)) = sum_list (map length (take k gs))" by (simp add: length_concat)
  show ?thesis using assms(2) by (auto simp: split nth_append hd_conv_nth simp flip: len)
qed

text \<open>
  In a copy plan the row that begins video entry \<open>k\<close> is the number of fragments its
  predecessors hold.
\<close>

lemma entry_row_of_group:
  assumes pg: "plan_groups cutf fl hr (fi_rows index) es gs" and k: "k < length es"
    and dist: "distinct (map ir_dts (fi_rows index))"
  shows "entry_row index (es ! k) = Some (sum_list (map pe_fragments (take k es)))"
proof -
  have all2: "list_all2 (covers hr) es gs" and cat: "concat gs = fi_rows index"
    using pg by (auto simp: plan_groups_def)
  have len: "length es = length gs" using all2 by (rule list_all2_lengthD)
  have cov: "covers hr (es ! i) (gs ! i)" if "i < length es" for i
    using list_all2_nthD [OF all2 that] .
  have frags: "map pe_fragments (take k es) = map length (take k gs)"
    using cov k len by (intro nth_equalityI) (auto simp: covers_def)
  have ne: "gs ! k \<noteq> []" and st: "pe_start_ticks (es ! k) = ir_dts (hd (gs ! k))"
    using cov [OF k] by (auto simp: covers_def)
  let ?i = "sum_list (map length (take k gs))"
  have i: "?i < length (fi_rows index)" "fi_rows index ! ?i = hd (gs ! k)"
    using concat_nth_hd [of k gs] k len ne cat by auto
  show ?thesis
    unfolding entry_row_def st frags
    using position_from_distinct [OF dist i(1)] i(2) by simp
qed

lemma rows_tile_distinct:
  "rows_tile a rows b \<Longrightarrow> \<forall>row \<in> set rows. 0 < ir_duration row \<Longrightarrow>
   distinct (map ir_dts rows) \<and> (\<forall>row \<in> set rows. a \<le> ir_dts row)"
proof (induction rows arbitrary: a)
  case (Cons r rs)
  then have "distinct (map ir_dts rs) \<and> (\<forall>row \<in> set rs. a + ir_duration r \<le> ir_dts row)" by auto
  then show ?case using Cons.prems by force
qed simp

lemma rows_tile_sorted: "rows_tile a rows b \<Longrightarrow> sorted (map ir_dts rows) \<and> (\<forall>row \<in> set rows. a \<le> ir_dts row)"
proof (induction rows arbitrary: a)
  case (Cons r rs)
  then have "sorted (map ir_dts rs) \<and> (\<forall>row \<in> set rs. a + ir_duration r \<le> ir_dts row)" by auto
  then show ?case using Cons.prems by force
qed simp

section \<open>What a landing answer means\<close>

text \<open>C25: Landing is never wrong: when the producer really landed on row \<open>r\<close> at or before the target,
  the matcher answers \<open>r\<close>, or names two rows that both fit, or refuses a probe that is
  shorter than its window; it never answers another row and refuses for no other reason.\<close>

theorem landing_never_wrong:
  assumes "lands (fi_rows index) observed r" and "r \<le> target" and "observed \<noteq> []"
  shows "case match_landing index observed target of
      Inr q \<Rightarrow> q = r
    | Inl (Ambiguous f s n) \<Rightarrow> f < s \<and> s \<le> target \<and> n = length observed \<and>
        lands (fi_rows index) observed f \<and> lands (fi_rows index) observed s
    | Inl NoMatch \<Rightarrow> length observed < LANDING_WINDOW \<and> r + length observed \<noteq> length (fi_rows index)
    | Inl _ \<Rightarrow> False"
  using match_landing_cases [OF assms] by auto

text \<open>A longer probe never loses a landing: once the matcher has answered a row, every further
  fragment the producer emits from there leaves the answer as it is.\<close>

theorem longer_probe_keeps_landing:
  assumes "match_landing index observed target = Inr r"
    and "lands (fi_rows index) (observed @ extra) r"
  shows "match_landing index (observed @ extra) target = Inr r"
  using match_landing_grow [OF assms] .

lemma rows_tile_nth:
  "rows_tile a rows b \<Longrightarrow> Suc i < length rows \<Longrightarrow> ir_dts (rows ! Suc i) = ir_dts (rows ! i) + ir_duration (rows ! i)"
proof (induction rows arbitrary: a i)
  case (Cons row rows)
  then show ?case by (cases i; cases rows) auto
qed simp

lemma abs_diff_gap:
  "2 * abs_diff y t < d \<Longrightarrow> z + d \<le> y \<or> y + d \<le> z \<Longrightarrow> abs_diff y t < abs_diff z t"
  unfolding abs_diff_def by (cases "y < t"; cases "z < t"; simp; arith)

lemma near_is_nearest:
  assumes tile: "rows_tile a rows b" and r: "r < length rows"
    and own: "2 * abs_diff (ir_dts (rows ! r)) t < ir_duration (rows ! r)"
    and prev: "r = 0 \<or> 2 * abs_diff (ir_dts (rows ! r)) t < ir_duration (rows ! (r - 1))"
    and pos: "\<forall>row \<in> set rows. 0 < ir_duration row"
  shows "nearest_row rows t = Some r"
proof (rule nearest_row_unique [OF _ r])
  show srt: "sorted (map ir_dts rows)" using rows_tile_sorted [OF tile] by simp
  have mono: "ir_dts (rows ! i) \<le> ir_dts (rows ! j)" if "i \<le> j" "j < length rows" for i j
    using sorted_nth_mono [OF srt that(1)] that by simp
  show "\<forall>j < length rows. j \<noteq> r \<longrightarrow> abs_diff (ir_dts (rows ! r)) t < abs_diff (ir_dts (rows ! j)) t"
  proof (intro allI impI)
    fix j assume j: "j < length rows" "j \<noteq> r"
    show "abs_diff (ir_dts (rows ! r)) t < abs_diff (ir_dts (rows ! j)) t"
    proof (cases "j < r")
      case True
      then have "ir_dts (rows ! j) \<le> ir_dts (rows ! (r - 1))" using mono [of j "r - 1"] r by simp
      moreover have "ir_dts (rows ! r) = ir_dts (rows ! (r - 1)) + ir_duration (rows ! (r - 1))"
        using rows_tile_nth [OF tile, of "r - 1"] True r by simp
      ultimately show ?thesis
        using prev True by (intro abs_diff_gap [where d = "ir_duration (rows ! (r - 1))"]) auto
    next
      case False
      then have "ir_dts (rows ! Suc r) \<le> ir_dts (rows ! j)" using mono [of "Suc r" j] j by simp
      moreover have "ir_dts (rows ! Suc r) = ir_dts (rows ! r) + ir_duration (rows ! r)"
        using rows_tile_nth [OF tile, of r] False j by simp
      ultimately show ?thesis using abs_diff_gap [OF own] by simp
    qed
  qed
qed

text \<open>C26: A measured time settles an ambiguous landing: on an index without gaps, when the demuxer
  really landed on row \<open>r\<close> and the time is off by less than the tolerance and less than half
  of \<open>r\<close>'s duration and its predecessor's, the answer is \<open>r\<close>, however many other rows weigh
  the same.\<close>

theorem time_settles_landing:
  assumes "rows_tile a (fi_rows index) b" and "\<forall>row \<in> set (fi_rows index). 0 < ir_duration row"
    and "lands (fi_rows index) observed r" and "r \<le> target" and "observed \<noteq> []"
    and "LANDING_WINDOW \<le> length observed \<or> r + length observed = length (fi_rows index)"
    and "abs_diff (ir_dts (fi_rows index ! r)) t < tolerance"
    and "2 * abs_diff (ir_dts (fi_rows index ! r)) t < ir_duration (fi_rows index ! r)"
    and "r = 0 \<or> 2 * abs_diff (ir_dts (fi_rows index ! r)) t < ir_duration (fi_rows index ! (r - 1))"
  shows "match_landing_at index observed target t tolerance = Inr r"
proof -
  have r: "r < length (fi_rows index)" using assms(3,5) by (cases observed) (auto simp: lands_def)
  have "saturating_mul_u64 (abs_diff (ir_dts (fi_rows index ! r)) t) 2 < ir_duration (fi_rows index ! r)"
    using assms(8) by (simp add: saturating_mul_u64_def min_def mult.commute)
  then show ?thesis
    unfolding match_landing_at_Ok_iff using assms(3-7) near_is_nearest [OF assms(1) r assms(8,9,2)] by auto
qed

lemma tiles_start_ge: "tiles a es b \<Longrightarrow> e \<in> set es \<Longrightarrow> a \<le> pe_start_ticks e"
  by (induction es arbitrary: a) fastforce+

text \<open>Discards reach the entry: for every video entry of a copy plan there is one row of the
  index that begins it, and from any landing at or before that row the discard count is
  exactly the distance to it; a landing past it has none.\<close>

theorem discards_reach_entry:
  fixes index :: "'p fragment_index" and policy tracks
  assumes "plan_room index tracks a b" and "\<forall>row \<in> set (fi_rows index). 0 < ir_duration row"
    and "e \<in> set (sp_entries (plan_copy index policy tracks))" and "pe_kind e = VideoEntry"
  shows "\<exists>row < length (fi_rows index). ir_dts (fi_rows index ! row) = pe_start_ticks e \<and>
    (\<forall>landed. discards_to index landed e = (if landed \<le> row then Some (row - landed) else None))"
proof (rule plan_copy_parts [OF assms(1), of policy])
  let ?hr = "headroom tracks (max (fi_timescale index) 1)"
  fix es gs tail
  assume p: "sp_entries (plan_copy index policy tracks) = es @ tail"
    "plan_groups (cut_before policy) (policy_floor policy) ?hr (fi_rows index) es gs" "is_tail ?hr policy tail"
  have "e \<in> set es" using assms(3,4) p(1,3) by (auto simp: is_tail_def is_tail_entry_def)
  then obtain k where k: "k < length es" "e = es ! k" by (metis in_set_conv_nth)
  have "distinct (map ir_dts (fi_rows index))"
    using rows_tile_distinct assms(1,2) by (auto simp: plan_room_def)
  from entry_row_of_group [OF p(2) k(1) this]
  obtain row where row: "entry_row index e = Some row" using k(2) by blast
  have "row < length (fi_rows index)" "ir_dts (fi_rows index ! row) = pe_start_ticks e"
    using position_from_Some [OF row [unfolded entry_row_def]] by auto
  then show ?thesis using row by (auto simp: discards_to_def)
qed

section \<open>Witnesses\<close>

theorem landing_never_wrong_witness: "match_landing demo_index [72, 74, 76] 3 = Inr 1"
proof -
  have "lands (fi_rows demo_index) [72, 74, 76] 1"
    by (simp add: lands_def demo_index_def fragment_index_new_def demo_row_def nth_Cons split: nat.split)
  from landing_never_wrong [OF this, of 3] show ?thesis
    by (simp add: match_landing_candidates candidates_def lands_def demo_index_def fragment_index_new_def
        demo_row_def upt_rec nth_Cons numeral_3_eq_3 All_less_Suc)
qed

theorem longer_probe_keeps_landing_witness: "match_landing demo_index ([76] @ []) 3 = Inr 3"
proof -
  have l: "lands (fi_rows demo_index) [76] 3"
    by (simp add: lands_def demo_index_def fragment_index_new_def demo_row_def)
  have only: "s = 3" if "lands (fi_rows demo_index) [76] s" for s
  proof -
    have "s < 4" using that by (simp add: lands_def demo_index_def fragment_index_new_def)
    then have "s = 0 \<or> s = 1 \<or> s = 2 \<or> s = 3" by arith
    then show ?thesis
      using that by (elim disjE) (auto simp: lands_def demo_index_def fragment_index_new_def demo_row_def
          dest: spec [of _ "0 :: nat"])
  qed
  have "3 + length [76 :: nat] = length (fi_rows demo_index)" by (simp add: demo_index_def fragment_index_new_def)
  then have "match_landing demo_index [76] 3 = Inr 3"
    unfolding match_landing_Ok_iff using l only by blast
  then show ?thesis by (rule longer_probe_keeps_landing) (use l in simp)
qed

text \<open>Two fragments of the same weight: the bytes alone cannot tell which one was landed on.\<close>

definition demo_twins :: "unit fragment_index" where
  "demo_twins = fragment_index_new () 1000
     (map (\<lambda>t. (demo_row t CleanIdr)\<lparr> ir_video_bytes := 70 \<rparr>) [0, 2000, 4000, 6000]) ''sha'' (source_identity_new 360 0 ''fp'')"

theorem time_settles_landing_witness: "match_landing_at demo_twins [70, 70, 70] 3 2100 500 = Inr 1"
proof -
  have "lands (fi_rows demo_twins) [70, 70, 70] 1"
    by (simp add: lands_def demo_twins_def fragment_index_new_def demo_row_def nth_Cons split: nat.split)
  then show ?thesis
    by (intro time_settles_landing [of 0 _ 8000])
      (simp_all add: demo_twins_def fragment_index_new_def demo_row_def abs_diff_def)
qed

theorem discards_reach_entry_witness:
  "\<exists>row < 4. \<forall>landed. discards_to demo_index landed (hd (sp_entries (plan_copy demo_index demo_policy demo_tracks))) =
     (if landed \<le> row then Some (row - landed) else None)"
proof (rule plan_copy_parts [OF demo_room(1), of demo_policy])
  let ?hr = "headroom demo_tracks (max (fi_timescale demo_index) 1)"
  fix es gs tail
  assume p: "sp_entries (plan_copy demo_index demo_policy demo_tracks) = es @ tail"
    "plan_groups (cut_before demo_policy) (policy_floor demo_policy) ?hr (fi_rows demo_index) es gs"
  have "es \<noteq> []" using plan_groups_empty [OF p(2)] by (simp add: demo_index_def fragment_index_new_def)
  then obtain e rest where es: "es = e # rest" by (cases es) auto
  then have "pe_kind e = VideoEntry" using p(2) by (auto simp: plan_groups_def covers_def list_all2_Cons1)
  moreover have "\<forall>row \<in> set (fi_rows demo_index). 0 < ir_duration row" "length (fi_rows demo_index) = 4"
    by (simp_all add: demo_index_def fragment_index_new_def demo_row_def)
  ultimately obtain row where "row < 4"
    "\<forall>landed. discards_to demo_index landed e = (if landed \<le> row then Some (row - landed) else None)"
    using discards_reach_entry [OF demo_room(1), of e demo_policy] p(1) es by auto
  then show ?thesis using p(1) es by (intro exI [of _ row]) simp
qed

end
