(* ===== verification/Timeline.thy ===== *)
theory Timeline
  imports FragmentIndex Complex_Main
begin

text \<open>
  Timeline annotations of \<open>crates/plurx-core/src/segplan.rs\<close>: what
  \<open>TimelineAnnotationSet::validate_and_normalize\<close> accepts, and how it merges overlapping
  annotations of one kind. Ticks stay integers of an annotation's own timescale; the
  properties speak of them as rational seconds.
\<close>

section \<open>Kinds and provenance\<close>

datatype annotation_kind = Intro | Recap | Credits | Preview

datatype annotation_provenance = Estimated | Detected | Authored | Manual

text \<open>The derived \<open>Ord\<close> of a fieldless enum is the order of its constructors.\<close>

fun kind_rank :: "annotation_kind \<Rightarrow> nat" where
  "kind_rank Intro = 0" | "kind_rank Recap = 1" | "kind_rank Credits = 2" | "kind_rank Preview = 3"

fun provenance_rank :: "annotation_provenance \<Rightarrow> nat" where
  "provenance_rank Estimated = 0" | "provenance_rank Detected = 1"
| "provenance_rank Authored = 2" | "provenance_rank Manual = 3"

lemma kind_rank_inj: "kind_rank a = kind_rank b \<Longrightarrow> a = b"
  by (cases a; cases b) auto

lemma provenance_rank_inj: "provenance_rank a = provenance_rank b \<Longrightarrow> a = b"
  by (cases a; cases b) auto

instantiation annotation_kind :: linorder
begin

definition less_eq_annotation_kind :: "annotation_kind \<Rightarrow> annotation_kind \<Rightarrow> bool" where
  "less_eq_annotation_kind a b \<longleftrightarrow> kind_rank a \<le> kind_rank b"

definition less_annotation_kind :: "annotation_kind \<Rightarrow> annotation_kind \<Rightarrow> bool" where
  "less_annotation_kind a b \<longleftrightarrow> kind_rank a < kind_rank b"

instance
  by standard (auto simp: less_eq_annotation_kind_def less_annotation_kind_def dest: kind_rank_inj)

end

instantiation annotation_provenance :: linorder
begin

definition less_eq_annotation_provenance ::
    "annotation_provenance \<Rightarrow> annotation_provenance \<Rightarrow> bool" where
  "less_eq_annotation_provenance a b \<longleftrightarrow> provenance_rank a \<le> provenance_rank b"

definition less_annotation_provenance ::
    "annotation_provenance \<Rightarrow> annotation_provenance \<Rightarrow> bool" where
  "less_annotation_provenance a b \<longleftrightarrow> provenance_rank a < provenance_rank b"

instance
  by standard
    (auto simp: less_eq_annotation_provenance_def less_annotation_provenance_def
      dest: provenance_rank_inj)

end

definition kind_parse :: "string \<Rightarrow> annotation_kind option" where
  "kind_parse value =
     (if value = ''intro'' then Some Intro
      else if value = ''recap'' then Some Recap
      else if value = ''credits'' then Some Credits
      else if value = ''preview'' then Some Preview
      else None)"

fun kind_as_str :: "annotation_kind \<Rightarrow> string" where
  "kind_as_str Intro = ''intro''" | "kind_as_str Recap = ''recap''"
| "kind_as_str Credits = ''credits''" | "kind_as_str Preview = ''preview''"

fun kind_label :: "annotation_kind \<Rightarrow> string" where
  "kind_label Intro = ''Skip Intro''" | "kind_label Recap = ''Skip Recap''"
| "kind_label Credits = ''Skip Credits''" | "kind_label Preview = ''Skip Preview''"

fun provenance_as_str :: "annotation_provenance \<Rightarrow> string" where
  "provenance_as_str Estimated = ''estimated''" | "provenance_as_str Detected = ''detected''"
| "provenance_as_str Authored = ''authored''" | "provenance_as_str Manual = ''manual''"

section \<open>Annotations\<close>

record timeline_annotation =
  an_kind :: annotation_kind
  an_start_ticks :: int
  an_end_ticks :: int
  an_timescale :: nat
  an_start_ms :: int
  an_end_ms :: int
  an_provenance :: annotation_provenance
  an_confidence_millis :: nat
  an_detector_version :: string
  an_manual_override_revision :: "nat option"

record timeline_annotation_set =
  as_source_identity :: source_identity
  as_generation_id :: string
  as_version :: nat
  as_annotations :: "timeline_annotation list"

abbreviation MAX_TIMELINE_ANNOTATIONS :: nat where "MAX_TIMELINE_ANNOTATIONS \<equiv> 32"
abbreviation MAX_TIMELINE_IDENTIFIER_BYTES :: nat where "MAX_TIMELINE_IDENTIFIER_BYTES \<equiv> 128"

text \<open>The error strings of the source, one constructor each.\<close>

datatype timeline_error =
  DurationNotPositive | GenerationIdEmpty | GenerationIdTooLong | FingerprintInvalid
| VersionNotPositive | TooManyAnnotations
| TimescaleNotPositive | TicksOutOfOrder | MillisOutOfRange int | MillisMismatch
| ConfidenceOutOfRange | DetectorVersionEmpty | DetectorVersionTooLong
| ManualNeedsRevision | RevisionNotManual
| TimescalesUnmergeable | StartTickOverflow | EndTickOverflow

definition compare_ticks :: "int \<Rightarrow> nat \<Rightarrow> int \<Rightarrow> nat \<Rightarrow> rust_ordering" where
  "compare_ticks left_ticks left_timescale right_ticks right_timescale =
     rust_cmp (left_ticks * int right_timescale) (right_ticks * int left_timescale)"

function tick_gcd :: "nat \<Rightarrow> nat \<Rightarrow> nat" where
  "tick_gcd left right = (if right \<noteq> 0 then tick_gcd right (left mod right) else left)"
  by pat_completeness auto
termination
  by (relation "measure snd") auto

declare tick_gcd.simps [simp del]

definition common_timescale :: "nat \<Rightarrow> nat \<Rightarrow> nat option" where
  "common_timescale left right =
     (if tick_gcd left right = 0 then None
      else checked_mul_u32 (left div tick_gcd left right) right)"

definition ticks_to_millis :: "int \<Rightarrow> nat \<Rightarrow> int" where
  "ticks_to_millis ticks timescale =
     sat_i64 (div_i64 (saturating_mul_i64 ticks 1000) (int timescale))"

definition validate_annotation :: "timeline_annotation \<Rightarrow> int \<Rightarrow> timeline_error + unit" where
  "validate_annotation a duration_ms =
     (if an_timescale a = 0 then Inl TimescaleNotPositive
      else if an_start_ticks a < 0 \<or> an_end_ticks a \<le> an_start_ticks a then Inl TicksOutOfOrder
      else if an_start_ms a < 0 \<or> an_end_ms a \<le> an_start_ms a \<or> duration_ms < an_end_ms a
           then Inl (MillisOutOfRange duration_ms)
      else if ticks_to_millis (an_start_ticks a) (an_timescale a) \<noteq> an_start_ms a
              \<or> ticks_to_millis (an_end_ticks a) (an_timescale a) \<noteq> an_end_ms a
           then Inl MillisMismatch
      else if 1000 < an_confidence_millis a then Inl ConfidenceOutOfRange
      else if trim_is_empty (an_detector_version a) then Inl DetectorVersionEmpty
      else if MAX_TIMELINE_IDENTIFIER_BYTES < length (an_detector_version a)
           then Inl DetectorVersionTooLong
      else case (an_provenance a = Manual, an_manual_override_revision a) of
             (True, Some revision) \<Rightarrow> if 0 < revision then Inr () else Inl ManualNeedsRevision
           | (True, None) \<Rightarrow> Inl ManualNeedsRevision
           | (False, Some revision) \<Rightarrow> Inl RevisionNotManual
           | (False, None) \<Rightarrow> Inr ())"

text \<open>The two validation loops: the first refusal ends them.\<close>

fun validate_all :: "timeline_annotation list \<Rightarrow> int \<Rightarrow> timeline_error + unit" where
  "validate_all [] duration_ms = Inr ()"
| "validate_all (a # as) duration_ms =
     (case validate_annotation a duration_ms of
        Inl e \<Rightarrow> Inl e | Inr u \<Rightarrow> validate_all as duration_ms)"

definition annotation_cmp :: "timeline_annotation \<Rightarrow> timeline_annotation \<Rightarrow> rust_ordering" where
  "annotation_cmp l r =
     then_with
       (then_with (rust_cmp (an_kind l) (an_kind r))
          (compare_ticks (an_start_ticks l) (an_timescale l) (an_start_ticks r) (an_timescale r)))
       (compare_ticks (an_end_ticks l) (an_timescale l) (an_end_ticks r) (an_timescale r))"

definition same_evidence :: "timeline_annotation \<Rightarrow> timeline_annotation \<Rightarrow> bool" where
  "same_evidence p a \<longleftrightarrow>
     an_provenance p = an_provenance a \<and> an_confidence_millis p = an_confidence_millis a \<and>
     an_detector_version p = an_detector_version a \<and>
     an_manual_override_revision p = an_manual_override_revision a"

text \<open>The same-evidence arm: both ranges in the common timescale, then their hull.\<close>

definition merge_ranges ::
    "timeline_annotation \<Rightarrow> timeline_annotation \<Rightarrow> timeline_error + timeline_annotation" where
  "merge_ranges p a =
     (case common_timescale (an_timescale p) (an_timescale a) of
        None \<Rightarrow> Inl TimescalesUnmergeable
      | Some timescale \<Rightarrow>
          let pf = int (timescale div an_timescale p); af = int (timescale div an_timescale a) in
          (case checked_mul_i64 (an_start_ticks p) pf of None \<Rightarrow> Inl StartTickOverflow
           | Some ps \<Rightarrow> (case checked_mul_i64 (an_end_ticks p) pf of None \<Rightarrow> Inl EndTickOverflow
           | Some pe \<Rightarrow> (case checked_mul_i64 (an_start_ticks a) af of None \<Rightarrow> Inl StartTickOverflow
           | Some s \<Rightarrow> (case checked_mul_i64 (an_end_ticks a) af of None \<Rightarrow> Inl EndTickOverflow
           | Some e \<Rightarrow>
               Inr (p\<lparr> an_timescale := timescale,
                       an_start_ticks := min ps s, an_end_ticks := max pe e,
                       an_start_ms := ticks_to_millis (min ps s) timescale,
                       an_end_ms := ticks_to_millis (max pe e) timescale \<rparr>))))))"

text \<open>One turn of the merge loop over \<open>normalized.last_mut()\<close>.\<close>

definition merge_step ::
    "timeline_annotation list \<Rightarrow> timeline_annotation \<Rightarrow> timeline_error + timeline_annotation list" where
  "merge_step normalized a =
     (if normalized = [] then Inr [a]
      else let p = last normalized in
        if an_kind p \<noteq> an_kind a
           \<or> compare_ticks (an_end_ticks p) (an_timescale p) (an_start_ticks a) (an_timescale a)
               \<noteq> OrdGreater
        then Inr (normalized @ [a])
        else if same_evidence p a
             then (case merge_ranges p a of
                     Inl e \<Rightarrow> Inl e | Inr m \<Rightarrow> Inr (butlast normalized @ [m]))
        else if an_provenance p < an_provenance a
                \<or> an_provenance a = an_provenance p
                  \<and> an_confidence_millis p < an_confidence_millis a
             then Inr (butlast normalized @ [a])
        else Inr normalized)"

fun merge_all ::
    "timeline_annotation list \<Rightarrow> timeline_annotation list \<Rightarrow> timeline_error + timeline_annotation list" where
  "merge_all normalized [] = Inr normalized"
| "merge_all normalized (a # as) =
     (case merge_step normalized a of Inl e \<Rightarrow> Inl e | Inr n \<Rightarrow> merge_all n as)"

definition validate_and_normalize ::
    "timeline_annotation_set \<Rightarrow> int \<Rightarrow> timeline_error + timeline_annotation_set" where
  "validate_and_normalize self duration_ms =
     (if duration_ms \<le> 0 then Inl DurationNotPositive
      else if trim_is_empty (as_generation_id self) then Inl GenerationIdEmpty
      else if MAX_TIMELINE_IDENTIFIER_BYTES < length (as_generation_id self)
           then Inl GenerationIdTooLong
      else if trim_is_empty (si_argv_fingerprint (as_source_identity self))
              \<or> MAX_TIMELINE_IDENTIFIER_BYTES < length (si_argv_fingerprint (as_source_identity self))
           then Inl FingerprintInvalid
      else if as_version self = 0 then Inl VersionNotPositive
      else if MAX_TIMELINE_ANNOTATIONS < length (as_annotations self) then Inl TooManyAnnotations
      else case validate_all (as_annotations self) duration_ms of Inl e \<Rightarrow> Inl e | Inr u \<Rightarrow>
           case merge_all [] (sort_by annotation_cmp (as_annotations self)) of
             Inl e \<Rightarrow> Inl e
           | Inr normalized \<Rightarrow>
               (case validate_all normalized duration_ms of Inl e \<Rightarrow> Inl e
                | Inr u \<Rightarrow> Inr (self\<lparr> as_annotations := normalized \<rparr>)))"

section \<open>Ticks as seconds\<close>

definition start_time :: "timeline_annotation \<Rightarrow> rat" where
  "start_time a = of_int (an_start_ticks a) / of_nat (an_timescale a)"

definition end_time :: "timeline_annotation \<Rightarrow> rat" where
  "end_time a = of_int (an_end_ticks a) / of_nat (an_timescale a)"

definition well_timed :: "timeline_annotation \<Rightarrow> bool" where
  "well_timed a \<longleftrightarrow> 0 < an_timescale a \<and> 0 \<le> an_start_ticks a \<and> an_start_ticks a < an_end_ticks a"

lemma rat_of_nat_int: "(of_nat n :: rat) = of_int (int n)"
  by simp

lemma cross_less:
  "0 < s1 \<Longrightarrow> 0 < s2 \<Longrightarrow>
   t1 * int s2 < t2 * int s1 \<longleftrightarrow> (of_int t1 / of_nat s1 :: rat) < of_int t2 / of_nat s2"
proof -
  assume s: "0 < s1" "0 < s2"
  have "t1 * int s2 < t2 * int s1 \<longleftrightarrow> (of_int (t1 * int s2) :: rat) < of_int (t2 * int s1)"
    by (simp only: of_int_less_iff)
  also have "\<dots> \<longleftrightarrow> (of_int t1 * of_nat s2 :: rat) < of_int t2 * of_nat s1" by simp
  also have "\<dots> \<longleftrightarrow> (of_int t1 / of_nat s1 :: rat) < of_int t2 / of_nat s2"
    using s by (simp add: field_simps)
  finally show ?thesis .
qed

lemma compare_ticks_greater:
  "0 < s1 \<Longrightarrow> 0 < s2 \<Longrightarrow>
   compare_ticks t1 s1 t2 s2 = OrdGreater \<longleftrightarrow> (of_int t2 / of_nat s2 :: rat) < of_int t1 / of_nat s1"
  by (simp add: compare_ticks_def cross_less)

lemma compare_ticks_equal:
  "0 < s1 \<Longrightarrow> 0 < s2 \<Longrightarrow>
   compare_ticks t1 s1 t2 s2 = OrdEqual \<longleftrightarrow> (of_int t1 / of_nat s1 :: rat) = of_int t2 / of_nat s2"
  using cross_less [of s1 s2 t1 t2] cross_less [of s2 s1 t2 t1]
  unfolding compare_ticks_def rust_cmp_simps by (metis linorder_less_linear order_less_irrefl)

lemma validate_annotation_well_timed: "validate_annotation a d = Inr () \<Longrightarrow> well_timed a"
  by (auto simp: validate_annotation_def well_timed_def split: if_splits)

lemma validate_all_iff: "validate_all as d = Inr () \<longleftrightarrow> (\<forall>a \<in> set as. validate_annotation a d = Inr ())"
  by (induction as) (auto split: sum.splits)

lemma validate_all_well_timed: "validate_all as d = Inr () \<Longrightarrow> \<forall>a \<in> set as. well_timed a"
  by (auto simp: validate_all_iff intro: validate_annotation_well_timed)

text \<open>The order the annotations are sorted in, over rational seconds.\<close>

definition annotation_le :: "timeline_annotation \<Rightarrow> timeline_annotation \<Rightarrow> bool" where
  "annotation_le l r \<longleftrightarrow>
     an_kind l < an_kind r \<or>
     an_kind l = an_kind r \<and>
       (start_time l < start_time r \<or> start_time l = start_time r \<and> end_time l \<le> end_time r)"

lemma annotation_cmp_le:
  "well_timed l \<Longrightarrow> well_timed r \<Longrightarrow> annotation_cmp l r \<noteq> OrdGreater \<longleftrightarrow> annotation_le l r"
  unfolding annotation_cmp_def then_with_Greater annotation_le_def well_timed_def
    start_time_def end_time_def
  by (cases "an_kind l" "an_kind r" rule: linorder_cases)
    (auto simp: compare_ticks_greater compare_ticks_equal then_with_Greater then_with_Equal)

lemma annotation_cmp_ok: "\<forall>a \<in> A. well_timed a \<Longrightarrow> cmp_ok_on A annotation_cmp"
proof -
  assume wt: "\<forall>a \<in> A. well_timed a"
  have le: "x \<in> A \<Longrightarrow> y \<in> A \<Longrightarrow> annotation_cmp x y \<noteq> OrdGreater \<longleftrightarrow> annotation_le x y" for x y
    using wt annotation_cmp_le by blast
  have total: "\<not> annotation_le x y \<Longrightarrow> annotation_le y x" for x y
    by (auto simp: annotation_le_def)
  have trans: "annotation_le x y \<Longrightarrow> annotation_le y z \<Longrightarrow> annotation_le x z" for x y z
    by (auto simp: annotation_le_def)
  show ?thesis unfolding cmp_ok_on_def using le total trans by meson
qed

section \<open>The merge loop\<close>

definition apart :: "timeline_annotation \<Rightarrow> timeline_annotation \<Rightarrow> bool" where
  "apart l r \<longleftrightarrow> an_kind l < an_kind r \<or> an_kind l = an_kind r \<and> end_time l \<le> start_time r"

definition not_after :: "timeline_annotation \<Rightarrow> timeline_annotation \<Rightarrow> bool" where
  "not_after l r \<longleftrightarrow> an_kind l < an_kind r \<or> an_kind l = an_kind r \<and> start_time l \<le> start_time r"

lemma annotation_le_not_after: "annotation_le l r \<Longrightarrow> not_after l r"
  by (auto simp: annotation_le_def not_after_def)

lemma not_after_trans: "not_after a b \<Longrightarrow> not_after b c \<Longrightarrow> not_after a c"
  by (auto simp: not_after_def)

lemma apart_not_after: "apart a b \<Longrightarrow> not_after b c \<Longrightarrow> apart a c"
  by (auto simp: apart_def not_after_def)

lemma well_timed_times: "well_timed a \<Longrightarrow> start_time a < end_time a"
  by (simp add: well_timed_def start_time_def end_time_def divide_strict_right_mono)

lemma apart_annotation_le: "well_timed l \<Longrightarrow> apart l r \<Longrightarrow> annotation_le l r"
  using well_timed_times [of l] by (auto simp: apart_def annotation_le_def)

text \<open>What the result of one overlap owes to the two annotations it came from.\<close>

definition outranks :: "timeline_annotation \<Rightarrow> timeline_annotation \<Rightarrow> bool" where
  "outranks b a \<longleftrightarrow> an_kind b = an_kind a \<and>
     (an_provenance a < an_provenance b \<or>
      an_provenance a = an_provenance b \<and> an_confidence_millis a \<le> an_confidence_millis b)"

definition covers_time :: "timeline_annotation \<Rightarrow> rat \<Rightarrow> bool" where
  "covers_time a t \<longleftrightarrow> start_time a \<le> t \<and> t < end_time a"

definition merged_from ::
    "timeline_annotation \<Rightarrow> timeline_annotation \<Rightarrow> timeline_annotation \<Rightarrow> bool" where
  "merged_from p a m \<longleftrightarrow>
     well_timed m \<and> an_kind m = an_kind a \<and>
     start_time p \<le> start_time m \<and> start_time m \<le> start_time a \<and>
     outranks m p \<and> outranks m a \<and>
     (\<forall>t. covers_time m t \<longrightarrow> covers_time p t \<or> covers_time a t)"

lemma outranks_refl [simp]: "outranks a a"
  by (simp add: outranks_def)

lemma outranks_trans: "outranks a b \<Longrightarrow> outranks b c \<Longrightarrow> outranks a c"
  by (auto simp: outranks_def)

lemma tick_gcd_gcd: "tick_gcd a b = gcd a b"
proof (induction a b rule: tick_gcd.induct)
  case (1 left right)
  then show ?case
    by (cases "right = 0") (simp_all add: tick_gcd.simps [of left] gcd_red_nat [of left right])
qed

lemma common_timescale_Some:
  assumes "common_timescale l r = Some t" and "0 < l" and "0 < r"
  shows "0 < t \<and> l dvd t \<and> r dvd t \<and> t \<le> U32_MAX \<and> t = lcm l r"
proof -
  have t: "t = l div gcd l r * r" "t \<le> U32_MAX"
    using assms(1) by (auto simp: common_timescale_def tick_gcd_gcd checked_mul_u32_def split: if_splits)
  have "l div gcd l r * r = lcm l r" by (simp add: lcm_nat_def div_mult_swap mult.commute)
  then show ?thesis using t assms(2,3) by (simp add: lcm_pos_nat)
qed

text \<open>Rescaling ticks keeps the time.\<close>

lemma rescale:
  assumes "s dvd t" and "0 < s" and "0 < t" and "checked_mul_i64 x (int (t div s)) = Some y"
  shows "(of_int y / of_nat t :: rat) = of_int x / of_nat s"
proof -
  obtain k where k: "t = s * k" using assms(1) by blast
  then have "t div s = k" "0 < k" using assms(2,3) by auto
  moreover have "y = x * int (t div s)"
    using assms(4) by (auto simp: checked_mul_i64_def split: if_splits)
  ultimately show ?thesis using k assms(2) by simp
qed

lemma of_int_div_min:
  "0 < t \<Longrightarrow> (of_int (min x y) / of_nat t :: rat) = min (of_int x / of_nat t) (of_int y / of_nat t)"
  by (simp add: min_def divide_le_cancel)

lemma of_int_div_max:
  "0 < t \<Longrightarrow> (of_int (max x y) / of_nat t :: rat) = max (of_int x / of_nat t) (of_int y / of_nat t)"
  by (simp add: max_def divide_le_cancel)

lemma merge_ranges_from:
  assumes wt: "well_timed p" "well_timed a" and same: "same_evidence p a" "an_kind p = an_kind a"
    and over: "start_time p \<le> start_time a" "start_time a < end_time p"
    and res: "merge_ranges p a = Inr m"
  shows "merged_from p a m"
proof -
  obtain ts ps pe s e where
    ts: "common_timescale (an_timescale p) (an_timescale a) = Some ts" and
    mul: "checked_mul_i64 (an_start_ticks p) (int (ts div an_timescale p)) = Some ps"
      "checked_mul_i64 (an_end_ticks p) (int (ts div an_timescale p)) = Some pe"
      "checked_mul_i64 (an_start_ticks a) (int (ts div an_timescale a)) = Some s"
      "checked_mul_i64 (an_end_ticks a) (int (ts div an_timescale a)) = Some e" and
    m: "m = p\<lparr> an_timescale := ts, an_start_ticks := min ps s, an_end_ticks := max pe e,
          an_start_ms := ticks_to_millis (min ps s) ts,
          an_end_ms := ticks_to_millis (max pe e) ts \<rparr>"
    using res unfolding merge_ranges_def Let_def by (auto split: option.splits)
  have pos: "0 < an_timescale p" "0 < an_timescale a" using wt by (auto simp: well_timed_def)
  have t: "0 < ts" "an_timescale p dvd ts" "an_timescale a dvd ts"
    using common_timescale_Some [OF ts pos] by auto
  have q: "(of_int ps / of_nat ts :: rat) = start_time p" "(of_int pe / of_nat ts :: rat) = end_time p"
    "(of_int s / of_nat ts :: rat) = start_time a" "(of_int e / of_nat ts :: rat) = end_time a"
    unfolding start_time_def end_time_def
    using rescale [OF t(2) pos(1) t(1)] rescale [OF t(3) pos(2) t(1)] mul by blast+
  have m_times: "start_time m = of_int (min ps s) / of_nat ts" "end_time m = of_int (max pe e) / of_nat ts"
    by (simp_all add: start_time_def end_time_def m)
  then have st: "start_time m = start_time p" and en: "end_time m = max (end_time p) (end_time a)"
    using over(1) by (simp_all only: of_int_div_min [OF t(1)] of_int_div_max [OF t(1)] q min_absorb1)
  have "start_time m < end_time m" using st en well_timed_times [OF wt(1)] by simp
  then have "(of_int (min ps s) :: rat) < of_int (max pe e)"
    unfolding m_times using t(1) by (simp only: divide_less_cancel)
  then have "min ps s < max pe e" by (simp only: of_int_less_iff)
  moreover have nonneg: "0 \<le> ps" "0 \<le> s"
    using mul wt by (auto simp: checked_mul_i64_def well_timed_def split: if_splits)
  ultimately have "well_timed m" using t(1) by (simp add: well_timed_def m)
  moreover have "outranks m p" "outranks m a" using same by (auto simp: outranks_def same_evidence_def m)
  moreover have "an_kind m = an_kind a" using same by (simp add: m)
  moreover have "\<forall>t. covers_time m t \<longrightarrow> covers_time p t \<or> covers_time a t"
    using st en over by (auto simp: covers_time_def)
  ultimately show ?thesis using st over by (simp add: merged_from_def)
qed

text \<open>Every overlap, whichever arm decides it.\<close>

definition overlaps :: "timeline_annotation \<Rightarrow> timeline_annotation \<Rightarrow> bool" where
  "overlaps p a \<longleftrightarrow> an_kind p = an_kind a \<and> start_time p \<le> start_time a \<and> start_time a < end_time p"

lemma merge_step_cases:
  assumes ne: "normalized \<noteq> []" and wt: "well_timed (last normalized)" "well_timed a"
    and order: "not_after (last normalized) a" and res: "merge_step normalized a = Inr n"
  shows "(apart (last normalized) a \<and> n = normalized @ [a]) \<or>
    (\<exists>m. merged_from (last normalized) a m \<and> n = butlast normalized @ [m])"
proof -
  let ?p = "last normalized"
  have pos: "0 < an_timescale ?p" "0 < an_timescale a" using wt by (auto simp: well_timed_def)
  define gap where "gap \<longleftrightarrow> an_kind ?p \<noteq> an_kind a \<or>
     compare_ticks (an_end_ticks ?p) (an_timescale ?p) (an_start_ticks a) (an_timescale a) \<noteq> OrdGreater"
  have gap: "gap \<longleftrightarrow> an_kind ?p \<noteq> an_kind a \<or> end_time ?p \<le> start_time a"
    unfolding gap_def compare_ticks_greater [OF pos] start_time_def end_time_def by auto
  show ?thesis
  proof (cases gap)
    case True
    then have "n = normalized @ [a]"
      using res ne unfolding merge_step_def gap_def Let_def by (simp split: if_splits)
    moreover have "apart ?p a" using True order unfolding gap by (auto simp: apart_def not_after_def)
    ultimately show ?thesis by blast
  next
    case False
    then have over: "an_kind ?p = an_kind a" "start_time a < end_time ?p" unfolding gap by auto
    then have st: "start_time ?p \<le> start_time a" using order by (auto simp: not_after_def)
    have self: "butlast normalized @ [?p] = normalized" using ne by simp
    have keep: "merged_from ?p a ?p" if "outranks ?p a"
      using wt over st that by (simp add: merged_from_def)
    have take: "merged_from ?p a a" if "outranks a ?p"
      using wt over st that by (simp add: merged_from_def)
    show ?thesis
    proof (cases "same_evidence ?p a")
      case True
      then obtain m where m: "merge_ranges ?p a = Inr m" "n = butlast normalized @ [m]"
        using res ne False unfolding merge_step_def gap_def Let_def by (auto split: sum.splits)
      show ?thesis using merge_ranges_from [OF wt True over(1) st over(2) m(1)] m(2) by blast
    next
      case diff: False
      define win where "win \<longleftrightarrow> an_provenance ?p < an_provenance a \<or>
        an_provenance a = an_provenance ?p \<and> an_confidence_millis ?p < an_confidence_millis a"
      have n: "n = (if win then butlast normalized @ [a] else normalized)"
        using res ne False diff unfolding merge_step_def gap_def win_def Let_def by auto
      show ?thesis
      proof (cases win)
        case True
        then have "outranks a ?p" using over(1) by (auto simp: win_def outranks_def)
        then show ?thesis using take n True by auto
      next
        case False
        then have "outranks ?p a" using over(1) unfolding win_def outranks_def
          by (cases "an_provenance a" "an_provenance ?p" rule: linorder_cases) auto
        then show ?thesis using keep n False self by auto
      qed
    qed
  qed
qed

text \<open>
  The loop invariant: \<open>seen\<close> are the annotations merged so far.
\<close>

definition merge_inv :: "timeline_annotation list \<Rightarrow> timeline_annotation list \<Rightarrow> bool" where
  "merge_inv seen normalized \<longleftrightarrow>
     (\<forall>a \<in> set normalized. well_timed a) \<and> sorted_wrt apart normalized \<and>
     length normalized \<le> length seen \<and>
     (\<forall>a \<in> set seen. \<exists>b \<in> set normalized. outranks b a) \<and>
     (\<forall>b \<in> set normalized. \<forall>t. covers_time b t \<longrightarrow>
        (\<exists>a \<in> set seen. an_kind a = an_kind b \<and> covers_time a t))"

lemma merge_inv_push:
  assumes inv: "merge_inv seen normalized" and wt: "well_timed a"
    and ap: "normalized \<noteq> [] \<longrightarrow> apart (last normalized) a"
  shows "merge_inv (seen @ [a]) (normalized @ [a])"
proof -
  have "apart x a" if x: "x \<in> set normalized" for x
  proof (cases "x = last normalized")
    case True
    then show ?thesis using ap x by auto
  next
    case False
    have ne: "normalized \<noteq> []" using x by auto
    then have "x \<in> set (butlast normalized)"
      using False x by (metis append_butlast_last_id in_set_conv_decomp set_ConsD
          Un_iff set_append empty_iff list.set(1) list.set(2) singletonD)
    moreover have "sorted_wrt apart (butlast normalized @ [last normalized])"
      using inv ne by (simp add: merge_inv_def)
    ultimately have "apart x (last normalized)" by (auto simp: sorted_wrt_append)
    moreover have "not_after (last normalized) a"
      using ap ne inv well_timed_times [of "last normalized"]
      by (auto simp: apart_def not_after_def merge_inv_def)
    ultimately show ?thesis by (rule apart_not_after)
  qed
  then show ?thesis using inv wt by (auto simp: merge_inv_def sorted_wrt_append)
qed

lemma merge_inv_replace:
  assumes inv: "merge_inv seen (front @ [p])" and m: "merged_from p a m" and kind: "an_kind p = an_kind m"
  shows "merge_inv (seen @ [a]) (front @ [m])"
proof -
  have na: "not_after p m" using m kind by (simp add: merged_from_def not_after_def)
  have "\<forall>x \<in> set front. apart x m"
    using inv apart_not_after [OF _ na] by (auto simp: merge_inv_def sorted_wrt_append)
  moreover have "\<exists>b \<in> set (front @ [m]). outranks b x" if "x \<in> set (seen @ [a])" for x
  proof (cases "x = a")
    case False
    then have "\<exists>b \<in> set (front @ [p]). outranks b x"
      using inv that unfolding merge_inv_def by simp
    then obtain b where b: "b \<in> set (front @ [p])" "outranks b x" by blast
    then show ?thesis using m outranks_trans [of m p x] by (auto simp: merged_from_def)
  qed (use m in \<open>auto simp: merged_from_def\<close>)
  moreover have "\<exists>x \<in> set (seen @ [a]). an_kind x = an_kind b \<and> covers_time x t"
    if b: "b \<in> set (front @ [m])" "covers_time b t" for b t
  proof (cases "b \<in> set front")
    case True
    then show ?thesis using inv b by (auto simp: merge_inv_def)
  next
    case False
    then have "b = m" using b by simp
    then have "covers_time p t \<or> covers_time a t" "an_kind a = an_kind b"
      using m b by (auto simp: merged_from_def)
    then show ?thesis using inv kind \<open>b = m\<close> by (auto simp: merge_inv_def)
  qed
  ultimately show ?thesis using inv m by (auto simp: merge_inv_def merged_from_def sorted_wrt_append)
qed

lemma merge_all_inv:
  assumes "merge_inv seen normalized" and "\<forall>a \<in> set as. well_timed a" and "sorted_wrt not_after as"
    and "normalized \<noteq> [] \<longrightarrow> (\<forall>a \<in> set as. not_after (last normalized) a)"
    and "normalized = [] \<longrightarrow> seen = []" and "merge_all normalized as = Inr n"
  shows "merge_inv (seen @ as) n"
  using assms
proof (induction as arbitrary: seen normalized)
  case (Cons a as)
  obtain n' where step: "merge_step normalized a = Inr n'" and rest: "merge_all n' as = Inr n"
    using Cons.prems(6) by (auto split: sum.splits)
  have wt: "well_timed a" and wts: "\<forall>a \<in> set as. well_timed a" using Cons.prems(2) by auto
  have later: "\<forall>x \<in> set as. not_after a x" and sorted: "sorted_wrt not_after as"
    using Cons.prems(3) by auto
  have push: ?case if "n' = normalized @ [a]" "normalized \<noteq> [] \<longrightarrow> apart (last normalized) a"
    using Cons.IH [of "seen @ [a]" n'] merge_inv_push [OF Cons.prems(1) wt that(2)]
      wts sorted later rest that(1) by simp
  show ?case
  proof (cases "normalized = []")
    case True
    then have "n' = normalized @ [a]" using step by (simp add: merge_step_def)
    then show ?thesis using push True by simp
  next
    case False
    have wtl: "well_timed (last normalized)" and order: "not_after (last normalized) a"
      using Cons.prems(1,4) False by (auto simp: merge_inv_def)
    from merge_step_cases [OF False wtl wt order step] show ?thesis
    proof
      assume "apart (last normalized) a \<and> n' = normalized @ [a]"
      then show ?thesis using push by simp
    next
      assume "\<exists>m. merged_from (last normalized) a m \<and> n' = butlast normalized @ [m]"
      then obtain m where m: "merged_from (last normalized) a m" "n' = butlast normalized @ [m]" by blast
      have kind: "an_kind (last normalized) = an_kind m"
        using m(1) by (auto simp: merged_from_def outranks_def)
      have "merge_inv (seen @ [a]) n'"
        using merge_inv_replace [of seen "butlast normalized" "last normalized" a m] m kind
          Cons.prems(1) False by simp
      moreover have "\<forall>x \<in> set as. not_after m x"
        using later m(1) not_after_trans [of m a] by (auto simp: merged_from_def not_after_def)
      ultimately show ?thesis
        using Cons.IH [of "seen @ [a]" n'] wts sorted rest m(2) by simp
    qed
  qed
qed simp

section \<open>What normalization promises\<close>

lemma normalize_Inr:
  assumes "validate_and_normalize self d = Inr out"
  shows "\<exists>n. merge_all [] (sort_by annotation_cmp (as_annotations self)) = Inr n \<and>
    out = self\<lparr> as_annotations := n \<rparr> \<and> merge_inv (sort_by annotation_cmp (as_annotations self)) n \<and>
    (\<forall>a \<in> set (as_annotations self). validate_annotation a d = Inr ()) \<and>
    (\<forall>a \<in> set n. validate_annotation a d = Inr ())"
proof -
  let ?as = "as_annotations self"
  obtain n where va: "validate_all ?as d = Inr ()" and ma: "merge_all [] (sort_by annotation_cmp ?as) = Inr n"
    and vn: "validate_all n d = Inr ()" and out: "out = self\<lparr> as_annotations := n \<rparr>"
    using assms unfolding validate_and_normalize_def by (auto split: if_splits sum.splits)
  have wt: "\<forall>a \<in> set (sort_by annotation_cmp ?as). well_timed a"
    using validate_all_well_timed [OF va] by simp
  then have "sorted_wrt (\<lambda>a b. annotation_cmp a b \<noteq> OrdGreater) (sort_by annotation_cmp ?as)"
    using sort_by_sorted [of "as_annotations self" annotation_cmp] annotation_cmp_ok by simp
  then have sorted: "sorted_wrt not_after (sort_by annotation_cmp ?as)"
    by (rule sorted_wrt_mono_rel [rotated])
      (use wt annotation_cmp_le annotation_le_not_after in blast)
  have "merge_inv [] []" by (simp add: merge_inv_def)
  from merge_all_inv [OF this wt sorted _ _ ma] have "merge_inv (sort_by annotation_cmp ?as) n" by simp
  then show ?thesis using ma out va vn by (auto simp: validate_all_iff)
qed

lemma merge_all_apart:
  assumes "\<forall>a \<in> set (xs @ ys). well_timed a" and "sorted_wrt apart (xs @ ys)"
  shows "merge_all xs ys = Inr (xs @ ys)"
  using assms
proof (induction ys arbitrary: xs)
  case (Cons y ys)
  have "merge_step xs y = Inr (xs @ [y])"
  proof (cases "xs = []")
    case False
    then have "apart (last xs) y" using Cons.prems(2) by (auto simp: sorted_wrt_append)
    moreover have "0 < an_timescale (last xs)" "0 < an_timescale y"
      using Cons.prems(1) False by (auto simp: well_timed_def)
    ultimately show ?thesis using False
      by (auto simp: merge_step_def Let_def apart_def compare_ticks_greater
          simp flip: start_time_def end_time_def)
  qed (simp add: merge_step_def)
  then show ?case using Cons.IH [of "xs @ [y]"] Cons.prems by simp
qed simp

text \<open>C36: A normalized set is in order and free of same-kind overlaps, and every annotation in it is
  valid for the film; normalization never adds annotations.\<close>

theorem normalized_apart:
  assumes "validate_and_normalize self duration_ms = Inr out"
  shows "sorted_wrt (\<lambda>l r. an_kind l < an_kind r \<or> an_kind l = an_kind r \<and> end_time l \<le> start_time r)
           (as_annotations out) \<and>
         list_all (\<lambda>a. validate_annotation a duration_ms = Inr ()) (as_annotations out) \<and>
         length (as_annotations out) \<le> length (as_annotations self)"
proof -
  have rel: "apart = (\<lambda>l r. an_kind l < an_kind r \<or> an_kind l = an_kind r \<and> end_time l \<le> start_time r)"
    by (intro ext) (simp add: apart_def)
  show ?thesis
    using normalize_Inr [OF assms] unfolding merge_inv_def rel by (auto simp: list_all_iff)
qed

text \<open>Normalizing twice is normalizing once.\<close>

theorem normalize_idempotent:
  assumes "validate_and_normalize self duration_ms = Inr out"
  shows "validate_and_normalize out duration_ms = Inr out"
proof -
  obtain n where n: "out = self\<lparr> as_annotations := n \<rparr>"
    and inv: "merge_inv (sort_by annotation_cmp (as_annotations self)) n"
    and valid: "\<forall>a \<in> set n. validate_annotation a duration_ms = Inr ()"
    using normalize_Inr [OF assms] by blast
  have wt: "\<forall>a \<in> set n. well_timed a" and ap: "sorted_wrt apart n"
    and len: "length n \<le> length (as_annotations self)"
    using inv by (auto simp: merge_inv_def)
  have "sorted_wrt (\<lambda>a b. annotation_cmp a b \<noteq> OrdGreater) n"
    by (rule sorted_wrt_mono_rel [OF _ ap]) (use wt annotation_cmp_le apart_annotation_le in blast)
  then have "sort_by annotation_cmp n = n" by (rule sort_by_id)
  moreover have "merge_all [] n = Inr n" using merge_all_apart [of "[]" n] wt ap by simp
  moreover have "validate_all n duration_ms = Inr ()" using valid by (simp add: validate_all_iff)
  ultimately show ?thesis
    using assms len unfolding n validate_and_normalize_def by (auto split: if_splits sum.splits)
qed

text \<open>Merging loses no evidence and invents no time: every submitted annotation is
  answered by one of its kind with at least its provenance and, at equal provenance, at
  least its confidence, and a moment covered after normalization was covered by a
  submitted annotation of that kind.\<close>

theorem normalize_keeps_evidence:
  assumes "validate_and_normalize self duration_ms = Inr out"
  shows "(\<forall>a \<in> set (as_annotations self). \<exists>b \<in> set (as_annotations out).
            an_kind b = an_kind a \<and>
            (an_provenance a < an_provenance b \<or>
             an_provenance a = an_provenance b \<and> an_confidence_millis a \<le> an_confidence_millis b)) \<and>
         (\<forall>b \<in> set (as_annotations out). \<forall>t. start_time b \<le> t \<and> t < end_time b \<longrightarrow>
            (\<exists>a \<in> set (as_annotations self). an_kind a = an_kind b \<and> start_time a \<le> t \<and> t < end_time a))"
  using normalize_Inr [OF assms] unfolding merge_inv_def outranks_def covers_time_def by auto

definition demo_intro :: timeline_annotation where
  "demo_intro = \<lparr> an_kind = Intro, an_start_ticks = 10, an_end_ticks = 40, an_timescale = 1,
     an_start_ms = 10000, an_end_ms = 40000, an_provenance = Detected, an_confidence_millis = 700,
     an_detector_version = ''v1'', an_manual_override_revision = None \<rparr>"

definition demo_set :: timeline_annotation_set where
  "demo_set = \<lparr> as_source_identity = source_identity_new 10 20 ''f'', as_generation_id = ''g'',
     as_version = 1, as_annotations =
       [demo_intro\<lparr> an_kind := Credits \<rparr>,
        demo_intro\<lparr> an_start_ticks := 60, an_end_ticks := 120, an_timescale := 2,
          an_start_ms := 30000, an_end_ms := 60000 \<rparr>, demo_intro] \<rparr>"

definition demo_normalized :: timeline_annotation_set where
  "demo_normalized = demo_set\<lparr> as_annotations :=
       [demo_intro\<lparr> an_start_ticks := 20, an_end_ticks := 120, an_timescale := 2,
          an_end_ms := 60000 \<rparr>, demo_intro\<lparr> an_kind := Credits \<rparr>] \<rparr>"

lemma demo_normalizes: "validate_and_normalize demo_set 90000 = Inr demo_normalized"
  by (simp add: validate_and_normalize_def validate_annotation_def ticks_to_millis_def machine_int
      div_i64_def trim_is_empty_def ascii_space_def sort_by_def annotation_cmp_def compare_ticks_def
      rust_cmp_def less_annotation_kind_def merge_step_def same_evidence_def merge_ranges_def
      common_timescale_def tick_gcd.simps checked_mul_u32_def checked_mul_i64_def
      source_identity_new_def demo_set_def demo_normalized_def demo_intro_def)

theorem normalized_apart_witness:
  "sorted_wrt (\<lambda>l r. an_kind l < an_kind r \<or> an_kind l = an_kind r \<and> end_time l \<le> start_time r)
     (as_annotations demo_normalized) \<and> length (as_annotations demo_normalized) \<le> 3"
  using normalized_apart [OF demo_normalizes] by (simp add: demo_set_def)

theorem normalize_idempotent_witness:
  "validate_and_normalize demo_normalized 90000 = Inr demo_normalized"
  by (rule normalize_idempotent [OF demo_normalizes])

theorem normalize_keeps_evidence_witness:
  "\<exists>b \<in> set (as_annotations demo_normalized). an_kind b = Intro \<and>
     (Detected < an_provenance b \<or> Detected = an_provenance b \<and> 700 \<le> an_confidence_millis b)"
proof -
  have "demo_intro \<in> set (as_annotations demo_set)" by (simp add: demo_set_def)
  moreover have "an_kind demo_intro = Intro" "an_provenance demo_intro = Detected"
    "an_confidence_millis demo_intro = 700" by (simp_all add: demo_intro_def)
  ultimately show ?thesis using normalize_keeps_evidence [OF demo_normalizes] by metis
qed

end
