(* ===== verification/F64.thy ===== *)
theory F64
  imports Prelude
begin

text \<open>
  The double-precision arithmetic the store and the scheduler use: a quotient or product of
  non-negative finite values, rounded to nearest with ties to even, then truncated or
  rounded up into an unsigned integer by a saturating \<open>as\<close> cast. A finite double is
  \<open>Fin sign m e\<close> for \<open>m * 2 ^ e\<close>. Overflow to infinity and the loss of precision of
  subnormal results are not modelled: both reach only the saturating casts, which give the
  same integer either way for the magnitudes below \<open>1\<close> and above \<open>2 ^ 64\<close> concerned.
\<close>

datatype f64 = NaN | Inf bool | Fin bool nat int

text \<open>Comparison with \<open>0.0\<close> and the constant \<open>1.0\<close>.\<close>

fun f64_positive :: "f64 \<Rightarrow> bool" where
  "f64_positive NaN = False"
| "f64_positive (Inf neg) = (\<not> neg)"
| "f64_positive (Fin neg m e) = (\<not> neg \<and> 0 < m)"

abbreviation f64_one :: f64 where "f64_one \<equiv> Fin False 1 0"
abbreviation f64_zero :: f64 where "f64_zero \<equiv> Fin False 0 0"

text \<open>\<open>m * 2 ^ e\<close> as a quotient of naturals.\<close>

definition ratio :: "nat \<Rightarrow> int \<Rightarrow> nat \<times> nat" where
  "ratio m e = (if 0 \<le> e then (m * 2 ^ nat e, 1) else (m, 2 ^ nat (- e)))"

fun bit_len :: "nat \<Rightarrow> nat" where
  "bit_len n = (if n = 0 then 0 else Suc (bit_len (n div 2)))"

declare bit_len.simps [simp del]

text \<open>Scale \<open>n / d\<close> by \<open>2 ^ -e\<close>; round the scaled quotient to nearest, ties to even.\<close>

definition scaled :: "nat \<Rightarrow> nat \<Rightarrow> int \<Rightarrow> nat \<times> nat" where
  "scaled n d e = (if 0 \<le> e then (n, d * 2 ^ nat e) else (n * 2 ^ nat (- e), d))"

definition nearest_even :: "nat \<Rightarrow> nat \<Rightarrow> nat" where
  "nearest_even num den =
     (let q = num div den; r = num mod den in
      if den < 2 * r \<or> den = 2 * r \<and> odd q then q + 1 else q)"

text \<open>The significand (53 bits) and exponent of the double nearest \<open>n / d\<close>.\<close>

definition exponent53 :: "nat \<Rightarrow> nat \<Rightarrow> int" where
  "exponent53 n d =
     (let e0 = int (bit_len n) - int (bit_len d) - 53 in
      if 2 ^ 53 \<le> fst (scaled n d e0) div snd (scaled n d e0) then e0 + 1 else e0)"

definition round53 :: "nat \<Rightarrow> nat \<Rightarrow> nat \<times> int" where
  "round53 n d =
     (if n = 0 then (0, 0)
      else let e = exponent53 n d in
           (nearest_even (fst (scaled n d e)) (snd (scaled n d e)), e))"

definition f64_trunc :: "nat \<times> int \<Rightarrow> nat" where
  "f64_trunc x = (case x of (m, e) \<Rightarrow> case ratio m e of (num, den) \<Rightarrow> num div den)"

definition f64_ceil :: "nat \<times> int \<Rightarrow> nat" where
  "f64_ceil x = (case x of (m, e) \<Rightarrow> case ratio m e of (num, den) \<Rightarrow> div_ceil num den)"

definition as_u32 :: "nat \<Rightarrow> nat" where
  "as_u32 x = min U32_MAX x"

definition as_u64 :: "nat \<Rightarrow> nat" where
  "as_u64 x = min U64_MAX x"

text \<open>\<open>n as f64\<close>, a quotient and a comparison of non-negative doubles.\<close>

definition f64_of_nat :: "nat \<Rightarrow> nat \<times> int" where
  "f64_of_nat n = round53 n 1"

definition f64_div :: "nat \<times> int \<Rightarrow> nat \<times> int \<Rightarrow> nat \<times> int" where
  "f64_div x y =
     (case ratio (fst x) (snd x) of (xn, xd) \<Rightarrow> case ratio (fst y) (snd y) of (yn, yd) \<Rightarrow> round53 (xn * yd) (xd * yn))"

definition f64_less :: "nat \<times> int \<Rightarrow> nat \<times> int \<Rightarrow> bool" where
  "f64_less x y =
     (case ratio (fst x) (snd x) of (xn, xd) \<Rightarrow> case ratio (fst y) (snd y) of (yn, yd) \<Rightarrow> xn * yd < yn * xd)"

text \<open>\<open>x.clamp(0.0, 1.0)\<close>.\<close>

fun f64_clamp01 :: "f64 \<Rightarrow> f64" where
  "f64_clamp01 NaN = NaN"
| "f64_clamp01 (Inf neg) = (if neg then f64_zero else f64_one)"
| "f64_clamp01 (Fin neg m e) =
     (if neg then f64_zero
      else case ratio m e of (num, den) \<Rightarrow> if den < num then f64_one else Fin False m e)"

lemma bit_len_bounds: "0 < n \<Longrightarrow> 2 ^ (bit_len n - 1) \<le> n \<and> n < 2 ^ bit_len n \<and> 0 < bit_len n"
proof (induction n rule: bit_len.induct)
  case (1 n)
  show ?case
  proof (cases "n div 2 = 0")
    case True
    then have "n = 1" using "1.prems" by linarith
    then show ?thesis by (simp add: bit_len.simps)
  next
    case False
    then have IH: "2 ^ (bit_len (n div 2) - 1) \<le> n div 2" "n div 2 < 2 ^ bit_len (n div 2)"
      "0 < bit_len (n div 2)" using "1.IH" "1.prems" by auto
    have "(2::nat) ^ bit_len (n div 2) = 2 * 2 ^ (bit_len (n div 2) - 1)"
      using IH(3) by (cases "bit_len (n div 2)") simp_all
    then have "2 ^ bit_len (n div 2) \<le> n" "n < 2 * 2 ^ bit_len (n div 2)"
      using IH by linarith+
    then show ?thesis using "1.prems" by (simp add: bit_len.simps [of n])
  qed
qed

lemma nearest_even_exact: "0 < d \<Longrightarrow> nearest_even (k * d) d = k"
  by (simp add: nearest_even_def)

text \<open>An integer below \<open>2 ^ 53\<close> is represented exactly.\<close>

lemma round53_integer:
  assumes "0 < d" and "0 < j" and "j < 2 ^ 53"
  shows "\<exists>t. round53 (j * d) d = (j * 2 ^ t, - int t)"
proof -
  let ?n = "j * d"
  define e0 where "e0 = int (bit_len ?n) - int (bit_len d) - 53"
  have n: "0 < ?n" using assms by simp
  have bl: "2 ^ (bit_len ?n - 1) \<le> ?n" "?n < 2 ^ bit_len ?n" "0 < bit_len ?n"
    using bit_len_bounds [OF n] by auto
  have bd: "2 ^ (bit_len d - 1) \<le> d" "d < 2 ^ bit_len d" "0 < bit_len d"
    using bit_len_bounds [OF assms(1)] by auto
  have le: "e0 \<le> 0"
  proof (rule ccontr)
    assume "\<not> e0 \<le> 0"
    then have ge: "53 + bit_len d \<le> bit_len ?n - 1" using bl(3) by (simp add: e0_def)
    have "?n < 2 ^ 53 * 2 ^ bit_len d"
      using mult_strict_mono [OF assms(3) bd(2)] by simp
    also have "\<dots> = 2 ^ (53 + bit_len d)" by (simp add: power_add)
    also have "\<dots> \<le> 2 ^ (bit_len ?n - 1)" using ge by (rule power_increasing) simp
    finally show False using bl(1) by simp
  qed
  have quot: "fst (scaled ?n d e) div snd (scaled ?n d e) = j * 2 ^ nat (- e)" if "e \<le> 0" for e
    using that assms(1) by (cases "e = 0") (simp_all add: scaled_def ac_simps)
  have near: "nearest_even (fst (scaled ?n d e)) (snd (scaled ?n d e)) = j * 2 ^ nat (- e)"
    if "e \<le> 0" for e
    using nearest_even_exact [OF assms(1), of "j * 2 ^ nat (- e)"] that
    by (cases "e = 0") (simp_all add: scaled_def ac_simps)
  define e where "e = exponent53 ?n d"
  have "e = (if 2 ^ 53 \<le> j * 2 ^ nat (- e0) then e0 + 1 else e0)"
    unfolding e_def exponent53_def Let_def by (simp only: quot [OF le] flip: e0_def)
  then have "e \<le> 0" using le assms(3) by (cases "e0 = 0") (auto split: if_splits)
  have "round53 ?n d = (j * 2 ^ nat (- e), e)"
    using n near [OF \<open>e \<le> 0\<close>] by (simp add: round53_def flip: e_def)
  also have "\<dots> = (j * 2 ^ nat (- e), - int (nat (- e)))" using \<open>e \<le> 0\<close> by simp
  finally show ?thesis by blast
qed

lemma f64_trunc_shift [simp]: "f64_trunc (j * 2 ^ t, - int t) = j"
  by (simp add: f64_trunc_def ratio_def)

lemma f64_ceil_shift [simp]: "f64_ceil (j * 2 ^ t, - int t) = j"
  by (simp add: f64_ceil_def ratio_def div_ceil_def)

lemma as_u32_le [simp]: "as_u32 x \<le> U32_MAX" by (simp add: as_u32_def)
lemma as_u64_le [simp]: "as_u64 x \<le> U64_MAX" by (simp add: as_u64_def)

end
