(* ===== verification/TitleStore.thy ===== *)
theory TitleStore
  imports SegPlan F64
begin

text \<open>
  The title store's bookkeeping, \<open>crates/plurxd/src/titlestore.rs\<close>: which segments of a
  rendition have bytes, which may be evicted for whom, and when the whole rendition may be
  published as a cache hit. A segment index is a \<open>u32\<close>; a plan numbers its entries with
  one, so the list positions below are those indexes and \<open>index as u32\<close> is the identity.
\<close>

section \<open>Data\<close>

datatype seg_state = Planned | Materialized nat int   \<comment> \<open>bytes, at_ms\<close>

fun seg_bytes :: "seg_state \<Rightarrow> nat" where
  "seg_bytes Planned = 0"
| "seg_bytes (Materialized bytes at_ms) = bytes"

fun is_materialized :: "seg_state \<Rightarrow> bool" where
  "is_materialized Planned = False"
| "is_materialized (Materialized bytes at_ms) = True"

record reader_window =
  rw_back :: nat
  rw_playhead :: nat
  rw_frontier :: nat
  rw_ahead :: nat

definition window_covers :: "reader_window \<Rightarrow> nat \<Rightarrow> bool" where
  "window_covers w index \<longleftrightarrow>
     rw_playhead w - rw_back w \<le> index \<and> index \<le> saturating_add_u32 (rw_frontier w) (rw_ahead w)"

record budgets =
  bu_working_set_bytes :: nat
  bu_admission_sizing_bytes :: nat
  bu_admission_share :: f64

definition admission_threshold :: "budgets \<Rightarrow> nat" where
  "admission_threshold b =
     (case f64_clamp01 (bu_admission_share b) of
        Fin neg m e \<Rightarrow>
          (case round53 (bu_admission_sizing_bytes b) 1 of (m1, e1) \<Rightarrow>
           case ratio (m1 * m) (e1 + e) of (num, den) \<Rightarrow> as_u64 (f64_trunc (round53 num den)))
      | _ \<Rightarrow> 0)"

datatype inadmissible = TooLarge nat nat | EmptyPlan   \<comment> \<open>planned, threshold\<close>

datatype completion_refused =
  RefusedInadmissible inadmissible
| RefusedIncomplete nat nat                            \<comment> \<open>missing, first\<close>

record manifest =
  mf_plan :: segment_plan
  mf_states :: "seg_state list"
  mf_admitted :: bool
  mf_reserved :: bool

section \<open>Operations\<close>

definition manifest_new :: "segment_plan \<Rightarrow> manifest" where
  "manifest_new plan =
     \<lparr> mf_plan = plan, mf_states = replicate (length (sp_entries plan)) Planned,
       mf_admitted = False, mf_reserved = False \<rparr>"

definition seg_state_at :: "manifest \<Rightarrow> nat \<Rightarrow> seg_state option" where
  "seg_state_at m index =
     (if index < length (mf_states m) then Some (mf_states m ! index) else None)"

definition manifest_len :: "manifest \<Rightarrow> nat" where
  "manifest_len m = length (mf_states m)"

definition manifest_is_empty :: "manifest \<Rightarrow> bool" where
  "manifest_is_empty m \<longleftrightarrow> mf_states m = []"

definition materialized_bytes :: "manifest \<Rightarrow> nat" where
  "materialized_bytes m = foldl wrapping_add_u64 0 (map seg_bytes (mf_states m))"

definition materialized_count :: "manifest \<Rightarrow> nat" where
  "materialized_count m = length (filter is_materialized (mf_states m))"

definition manifest_planned_bytes :: "manifest \<Rightarrow> nat" where
  "manifest_planned_bytes m = planned_bytes (mf_plan m)"

definition materialize :: "manifest \<Rightarrow> nat \<Rightarrow> nat \<Rightarrow> int \<Rightarrow> manifest \<times> bool" where
  "materialize m index bytes at_ms =
     (if index < length (mf_states m)
      then (m\<lparr> mf_states := (mf_states m)[index := Materialized bytes at_ms] \<rparr>, True)
      else (m, False))"

definition evict :: "manifest \<Rightarrow> nat \<Rightarrow> manifest \<times> bool" where
  "evict m index =
     (if mf_admitted m then (m, False)
      else case seg_state_at m index of
             None \<Rightarrow> (m, False)
           | Some st \<Rightarrow>
               if \<not> is_materialized st then (m, False)
               else (m\<lparr> mf_states := (mf_states m)[index := Planned] \<rparr>, True))"

definition forget :: "manifest \<Rightarrow> nat \<Rightarrow> manifest \<times> bool" where
  "forget m index =
     (case seg_state_at m index of
        None \<Rightarrow> (m, False)
      | Some st \<Rightarrow>
          if \<not> is_materialized st then (m, False)
          else (m\<lparr> mf_states := (mf_states m)[index := Planned],
                   mf_admitted := False, mf_reserved := False \<rparr>, True))"

definition has_evictable :: "manifest \<Rightarrow> nat list \<Rightarrow> reader_window list \<Rightarrow> bool" where
  "has_evictable m owed readers =
     (if mf_admitted m then False
      else list_ex (\<lambda>(index, st). is_materialized st \<and> index \<notin> set owed
                      \<and> \<not> list_ex (\<lambda>r. window_covers r index) readers)
             (enumerate 0 (mf_states m)))"

definition admissible :: "manifest \<Rightarrow> budgets \<Rightarrow> inadmissible + unit" where
  "admissible m b =
     (if mf_states m = [] then Inl EmptyPlan
      else let planned = manifest_planned_bytes m; threshold = admission_threshold b in
           if threshold < planned then Inl (TooLarge planned threshold) else Inr ())"

definition reserve_space :: "manifest \<Rightarrow> budgets \<Rightarrow> manifest \<times> (inadmissible + nat)" where
  "reserve_space m b =
     (case admissible m b of
        Inl e \<Rightarrow> (m, Inl e)
      | Inr u \<Rightarrow> (m\<lparr> mf_reserved := True \<rparr>, Inr (manifest_planned_bytes m)))"

definition missing_segments :: "manifest \<Rightarrow> nat list" where
  "missing_segments m =
     map fst (filter (\<lambda>(index, st). \<not> is_materialized st) (enumerate 0 (mf_states m)))"

definition complete_rendition :: "manifest \<Rightarrow> budgets \<Rightarrow> manifest \<times> (completion_refused + nat)" where
  "complete_rendition m b =
     (case admissible m b of
        Inl reason \<Rightarrow> (m, Inl (RefusedInadmissible reason))
      | Inr u \<Rightarrow>
          (case missing_segments m of
             first # rest \<Rightarrow> (m, Inl (RefusedIncomplete (length (first # rest)) first))
           | [] \<Rightarrow>
               let bytes = materialized_bytes m in
               if bu_admission_sizing_bytes b < bytes
               then (m, Inl (RefusedInadmissible (TooLarge bytes (bu_admission_sizing_bytes b))))
               else (m\<lparr> mf_admitted := True \<rparr>, Inr bytes)))"

text \<open>\<open>eviction_candidates\<close>: the eligible segments by age and index, then the coldest.\<close>

definition by_age :: "manifest \<Rightarrow> reader_window list \<Rightarrow> ((int \<times> nat) \<times> (nat \<times> nat)) list" where
  "by_age m readers =
     foldl (\<lambda>acc (index, st). case st of
              Planned \<Rightarrow> acc
            | Materialized bytes at_ms \<Rightarrow>
                if list_ex (\<lambda>r. window_covers r index) readers then acc
                else btree_insert (at_ms, index) (index, bytes) acc)
       [] (enumerate 0 (mf_states m))"

fun take_coldest :: "nat \<Rightarrow> nat \<Rightarrow> (nat \<times> nat) list \<Rightarrow> nat list" where
  "take_coldest freed wanted [] = []"
| "take_coldest freed wanted ((index, bytes) # rest) =
     (if wanted \<le> freed then []
      else index # take_coldest (wrapping_add_u64 freed bytes) wanted rest)"

definition eviction_candidates :: "manifest \<Rightarrow> reader_window list \<Rightarrow> nat \<Rightarrow> nat list" where
  "eviction_candidates m readers wanted =
     (if mf_admitted m \<or> wanted = 0 then []
      else take_coldest 0 wanted (map snd (by_age m readers)))"

definition next_gap :: "manifest \<Rightarrow> nat \<Rightarrow> nat option" where
  "next_gap m from =
     map_option fst (find (\<lambda>(index, st). \<not> is_materialized st) (drop from (enumerate 0 (mf_states m))))"

definition is_audio_tail :: "manifest \<Rightarrow> nat \<Rightarrow> bool" where
  "is_audio_tail m index =
     (case plan_entry_at (mf_plan m) index of
        None \<Rightarrow> False | Some entry \<Rightarrow> pe_kind entry = AudioTail)"

section \<open>Gaps and evictable segments\<close>

text \<open>A planned segment without bytes, and a segment an eviction may take.\<close>

definition absent :: "manifest \<Rightarrow> nat \<Rightarrow> bool" where
  "absent m index \<longleftrightarrow> seg_state_at m index = Some Planned"

definition evictable :: "manifest \<Rightarrow> reader_window list \<Rightarrow> nat \<Rightarrow> bool" where
  "evictable m readers index \<longleftrightarrow>
     \<not> mf_admitted m \<and> index < length (mf_states m) \<and> is_materialized (mf_states m ! index) \<and>
     (\<forall>r \<in> set readers. \<not> window_covers r index)"

lemma not_materialized [simp]: "\<not> is_materialized st \<longleftrightarrow> st = Planned"
  by (cases st) auto

lemma is_materialized_iff: "is_materialized st \<longleftrightarrow> st \<noteq> Planned"
  by (cases st) auto

lemma materializedE: "is_materialized st \<Longrightarrow> (\<And>b t. st = Materialized b t \<Longrightarrow> P) \<Longrightarrow> P"
  by (cases st) auto

lemma absent_iff: "absent m i \<longleftrightarrow> i < length (mf_states m) \<and> mf_states m ! i = Planned"
  by (simp add: absent_def seg_state_at_def)

lemma enumerate_nth: "(i, x) \<in> set (enumerate 0 xs) \<longleftrightarrow> i < length xs \<and> xs ! i = x"
  by (auto simp: in_set_enumerate_eq)

lemma has_evictable_iff:
  "has_evictable m owed readers \<longleftrightarrow> (\<exists>i. evictable m readers i \<and> i \<notin> set owed)"
  by (auto simp: has_evictable_def evictable_def list_ex_iff enumerate_nth)

lemma enumerate_map: "enumerate 0 xs = map (\<lambda>i. (i, xs ! i)) [0..<length xs]"
  by (rule nth_equalityI) (simp_all add: nth_enumerate_eq)

lemma find_map_fst: "map_option fst (find (\<lambda>(i, st). Q st) (map (\<lambda>i. (i, f i)) xs)) = find (\<lambda>i. Q (f i)) xs"
  by (induction xs) auto

lemma missing_segments_eq: "missing_segments m = filter (absent m) [0..<length (mf_states m)]"
  unfolding missing_segments_def enumerate_map filter_map
  by (simp add: comp_def) (rule filter_cong; auto simp: absent_iff)

lemma find_cong_upt: "(\<And>i. i < n \<Longrightarrow> P i = Q i) \<Longrightarrow> find P [k..<n] = find Q [k..<n]"
  by (rule find_cong) auto

lemma next_gap_eq: "next_gap m from = find (absent m) [from..<length (mf_states m)]"
  unfolding next_gap_def enumerate_map drop_map drop_upt find_map_fst add_0
  by (rule find_cong_upt) (simp add: absent_iff)

text \<open>The contract the scheduler reads a store through.\<close>

locale segment_store =
  fixes absentf :: "nat \<Rightarrow> bool" and gap :: "nat \<Rightarrow> nat option"
  assumes gap_from: "gap from = Some j \<Longrightarrow> from \<le> j"
    and gap_absent: "gap from = Some j \<Longrightarrow> absentf j"
    and gap_least: "gap from = Some j \<Longrightarrow> from \<le> k \<Longrightarrow> k < j \<Longrightarrow> \<not> absentf k"
    and gap_none: "gap from = None \<Longrightarrow> from \<le> k \<Longrightarrow> \<not> absentf k"
begin

lemma gap_some: "from \<le> k \<Longrightarrow> absentf k \<Longrightarrow> \<exists>j. gap from = Some j \<and> from \<le> j \<and> j \<le> k \<and> absentf j"
proof (cases "gap from")
  case None
  then show "from \<le> k \<Longrightarrow> absentf k \<Longrightarrow> ?thesis" using gap_none by blast
next
  case (Some j)
  then show "from \<le> k \<Longrightarrow> absentf k \<Longrightarrow> ?thesis"
    using gap_from gap_absent gap_least by (metis not_le)
qed

lemma gap_iff: "gap from = Some j \<longleftrightarrow> from \<le> j \<and> absentf j \<and> (\<forall>k. from \<le> k \<and> k < j \<longrightarrow> \<not> absentf k)"
  using gap_from gap_absent gap_least gap_none by (cases "gap from") (auto, metis linorder_neqE_nat)

end

lemma find_upt_Some:
  "find P [a..<b] = Some j \<longleftrightarrow> a \<le> j \<and> j < b \<and> P j \<and> (\<forall>k. a \<le> k \<and> k < j \<longrightarrow> \<not> P k)"
proof (cases "a < b")
  case True
  have "find P [a..<b] = Some j \<longleftrightarrow> (\<exists>i < b - a. P (a + i) \<and> j = a + i \<and> (\<forall>k < i. \<not> P (a + k)))"
    unfolding find_Some_iff by auto
  also have "\<dots> \<longleftrightarrow> a \<le> j \<and> j < b \<and> P j \<and> (\<forall>k. a \<le> k \<and> k < j \<longrightarrow> \<not> P k)"
  proof
    assume "\<exists>i < b - a. P (a + i) \<and> j = a + i \<and> (\<forall>k < i. \<not> P (a + k))"
    then obtain i where i: "i < b - a" "P (a + i)" "j = a + i" "\<forall>k < i. \<not> P (a + k)" by blast
    have "\<not> P k" if "a \<le> k" "k < j" for k
      using i(3,4) that by (metis le_Suc_ex nat_add_left_cancel_less)
    then show "a \<le> j \<and> j < b \<and> P j \<and> (\<forall>k. a \<le> k \<and> k < j \<longrightarrow> \<not> P k)" using i by auto
  next
    assume "a \<le> j \<and> j < b \<and> P j \<and> (\<forall>k. a \<le> k \<and> k < j \<longrightarrow> \<not> P k)"
    then show "\<exists>i < b - a. P (a + i) \<and> j = a + i \<and> (\<forall>k < i. \<not> P (a + k))"
      by (intro exI [of _ "j - a"]) auto
  qed
  finally show ?thesis .
qed auto

lemma next_gap_Some:
  "next_gap m from = Some j \<longleftrightarrow> from \<le> j \<and> absent m j \<and> (\<forall>k. from \<le> k \<and> k < j \<longrightarrow> \<not> absent m k)"
  unfolding next_gap_eq find_upt_Some by (auto simp: absent_iff)

lemma next_gap_None: "next_gap m from = None \<longleftrightarrow> (\<forall>k \<ge> from. \<not> absent m k)"
  unfolding next_gap_eq find_None_iff by (auto simp: absent_iff)

interpretation store: segment_store "absent m" "next_gap m" for m
  by unfold_locales (auto simp: next_gap_Some next_gap_None)

section \<open>Eviction\<close>

lemma enumerate_snoc: "enumerate 0 (xs @ [x]) = enumerate 0 xs @ [(length xs, x)]"
  by (simp add: enumerate_append_eq)

definition aged :: "reader_window list \<Rightarrow> seg_state list \<Rightarrow> ((int \<times> nat) \<times> (nat \<times> nat)) set" where
  "aged readers xs = {((t, i), (i, b)) | t i b. i < length xs \<and> xs ! i = Materialized b t \<and>
     (\<forall>r \<in> set readers. \<not> window_covers r i)}"

lemma aged_mem:
  "((t, i), (j, b)) \<in> aged readers xs \<longleftrightarrow> j = i \<and> i < length xs \<and> xs ! i = Materialized b t \<and>
     (\<forall>r \<in> set readers. \<not> window_covers r i)"
  by (auto simp: aged_def)

lemma aged_snoc:
  "aged readers (xs @ [x]) = aged readers xs \<union>
     {((t, length xs), (length xs, b)) | t b. x = Materialized b t \<and>
        (\<forall>r \<in> set readers. \<not> window_covers r (length xs))}"
  by (auto simp: aged_mem nth_append less_Suc_eq set_eq_iff)

lemma by_age_spec: "btree (by_age m readers) \<and> set (by_age m readers) = aged readers (mf_states m)"
proof -
  define f where "f = (\<lambda>acc (index, st). case st of Planned \<Rightarrow> acc
      | Materialized bytes at_ms \<Rightarrow> if list_ex (\<lambda>r. window_covers r index) readers then acc
          else btree_insert (at_ms, index) (index, bytes) acc)"
  have cov: "list_ex (\<lambda>r. window_covers r i) readers \<longleftrightarrow> \<not> (\<forall>r \<in> set readers. \<not> window_covers r i)" for i
    by (auto simp: list_ex_iff)
  have "btree (foldl f [] (enumerate 0 xs)) \<and> set (foldl f [] (enumerate 0 xs)) = aged readers xs" for xs
  proof (induction xs rule: rev_induct)
    case (snoc x xs)
    define acc where "acc = foldl f [] (enumerate 0 xs)"
    have IH: "btree acc" "set acc = aged readers xs" using snoc by (simp_all add: acc_def)
    have fresh: "(t, length xs) \<notin> fst ` set acc" for t unfolding IH by (force simp: aged_mem)
    have fold: "foldl f [] (enumerate 0 (xs @ [x])) = f acc (length xs, x)"
      by (simp add: enumerate_snoc acc_def)
    show ?case
    proof (cases "\<exists>b t. x = Materialized b t \<and> (\<forall>r \<in> set readers. \<not> window_covers r (length xs))")
      case True
      then obtain b t where x: "x = Materialized b t" "\<forall>r \<in> set readers. \<not> window_covers r (length xs)"
        by blast
      then have "f acc (length xs, x) = btree_insert (t, length xs) (length xs, b) acc"
        by (simp add: f_def cov)
      then show ?thesis unfolding fold aged_snoc
        using x IH btree_insert_btree [OF IH(1)] set_btree_insert [OF fresh] by simp
    next
      case False
      then have "f acc (length xs, x) = acc" by (cases x) (simp_all add: f_def cov)
      then show ?thesis unfolding fold aged_snoc using False IH by auto
    qed
  qed (simp add: btree_def aged_def)
  then show ?thesis by (simp add: by_age_def f_def)
qed

lemma take_coldest_spec:
  "freed + sum_list (map snd l) \<le> U64_MAX \<Longrightarrow>
   \<exists>k \<le> length l. take_coldest freed wanted l = map fst (take k l) \<and>
     (k < length l \<longrightarrow> wanted \<le> freed + sum_list (map snd (take k l))) \<and>
     (0 < k \<longrightarrow> freed + sum_list (map snd (take (k - 1) l)) < wanted)"
proof (induction freed wanted l rule: take_coldest.induct)
  case (2 freed wanted index bytes rest)
  show ?case
  proof (cases "wanted \<le> freed")
    case True
    then show ?thesis by (intro exI [of _ 0]) simp
  next
    case False
    have w: "wrapping_add_u64 freed bytes = freed + bytes" using "2.prems" by simp
    obtain k where k: "k \<le> length rest"
      "take_coldest (freed + bytes) wanted rest = map fst (take k rest)"
      "k < length rest \<longrightarrow> wanted \<le> freed + bytes + sum_list (map snd (take k rest))"
      "0 < k \<longrightarrow> freed + bytes + sum_list (map snd (take (k - 1) rest)) < wanted"
      using "2.IH" [OF False] "2.prems" unfolding w by auto
    have "0 < k \<Longrightarrow> take k ((index, bytes) # rest) = (index, bytes) # take (k - 1) rest"
      by (cases k) simp_all
    then show ?thesis using k False w
      by (intro exI [of _ "Suc k"]) (cases "k = 0"; simp add: add.assoc)
  qed
qed simp

definition bytes_at :: "manifest \<Rightarrow> nat \<Rightarrow> nat" where
  "bytes_at m i = seg_bytes (mf_states m ! i)"

fun seg_at_ms :: "seg_state \<Rightarrow> int" where
  "seg_at_ms Planned = 0"
| "seg_at_ms (Materialized bytes at_ms) = at_ms"

text \<open>Coldness: last write, then index.\<close>

definition age_key :: "manifest \<Rightarrow> nat \<Rightarrow> int \<times> nat" where
  "age_key m i = (seg_at_ms (mf_states m ! i), i)"

lemma by_age_entries:
  "map snd (by_age m readers) = map (\<lambda>i. (i, bytes_at m i)) (map (fst \<circ> snd) (by_age m readers))"
  "map fst (by_age m readers) = map (age_key m) (map (fst \<circ> snd) (by_age m readers))"
  using by_age_spec [of m readers] by (auto simp: aged_def bytes_at_def age_key_def)

lemma by_age_indices:
  fixes m readers
  assumes "\<not> mf_admitted m"
  defines "ixs \<equiv> map (fst \<circ> snd) (by_age m readers)"
  shows "set ixs = {i. evictable m readers i}" and "sorted_wrt (\<lambda>i j. age_key m i < age_key m j) ixs"
    and "distinct ixs"
proof -
  have set: "set (by_age m readers) = aged readers (mf_states m)" using by_age_spec by blast
  show "set ixs = {i. evictable m readers i}"
  proof (intro set_eqI iffI)
    fix i assume "i \<in> set ixs"
    then show "i \<in> {i. evictable m readers i}" using assms(1) set by (auto simp: ixs_def aged_def evictable_def)
  next
    fix i assume "i \<in> {i. evictable m readers i}"
    then obtain b t where "((t, i), (i, b)) \<in> aged readers (mf_states m)"
      by (auto simp: evictable_def aged_def elim!: materializedE)
    then show "i \<in> set ixs" unfolding ixs_def set [symmetric] by force
  qed
  show sorted: "sorted_wrt (\<lambda>i j. age_key m i < age_key m j) ixs"
    using by_age_spec [of m readers] unfolding btree_def by_age_entries(2) sorted_wrt_map ixs_def by blast
  then show "distinct ixs" by (auto simp: distinct_conv_nth sorted_wrt_iff_nth_less)
      (metis linorder_neqE_nat order_less_irrefl)
qed

lemma sum_evictable_le:
  "\<not> mf_admitted m \<Longrightarrow>
   sum_list (map (bytes_at m) (map (fst \<circ> snd) (by_age m readers))) \<le> sum_list (map seg_bytes (mf_states m))"
proof -
  assume na: "\<not> mf_admitted m"
  let ?ixs = "map (fst \<circ> snd) (by_age m readers)"
  have "sum_list (map (bytes_at m) ?ixs) = sum (bytes_at m) (set ?ixs)"
    using by_age_indices(3) [OF na] by (simp only: sum_list_distinct_conv_sum_set)
  also have "\<dots> \<le> sum (bytes_at m) {0..<length (mf_states m)}"
    using by_age_indices(1) [OF na] by (intro sum_mono2) (auto simp: evictable_def)
  also have "\<dots> = sum_list (map seg_bytes (mf_states m))"
    by (simp add: sum_list_sum_nth bytes_at_def)
  finally show ?thesis .
qed

lemma eviction_candidates_prefix:
  fixes m readers wanted
  assumes "\<not> mf_admitted m" and "wanted \<noteq> 0" and "sum_list (map seg_bytes (mf_states m)) \<le> U64_MAX"
  defines "ixs \<equiv> map (fst \<circ> snd) (by_age m readers)"
  shows "\<exists>k \<le> length ixs. eviction_candidates m readers wanted = take k ixs \<and>
     (k < length ixs \<longrightarrow> wanted \<le> sum_list (map (bytes_at m) (take k ixs))) \<and>
     (0 < k \<longrightarrow> sum_list (map (bytes_at m) (take (k - 1) ixs)) < wanted)"
proof -
  have ent: "map snd (by_age m readers) = map (\<lambda>i. (i, bytes_at m i)) ixs"
    unfolding ixs_def by (rule by_age_entries(1))
  have "0 + sum_list (map snd (map snd (by_age m readers))) \<le> U64_MAX"
    unfolding ent using sum_evictable_le [OF assms(1), of readers] assms(3)
    by (simp add: comp_def ixs_def)
  from take_coldest_spec [OF this, of wanted] show ?thesis
    using assms(1,2) unfolding eviction_candidates_def ent
    by (simp add: take_map comp_def)
qed

lemma take_coldest_prefix: "\<exists>k. take_coldest freed wanted l = map fst (take k l)"
proof (induction freed wanted l rule: take_coldest.induct)
  case (2 freed wanted index bytes rest)
  then obtain k where "\<not> wanted \<le> freed \<Longrightarrow>
      take_coldest (wrapping_add_u64 freed bytes) wanted rest = map fst (take k rest)" by blast
  then show ?case
    by (intro exI [of _ "if wanted \<le> freed then 0 else Suc k"]) simp
qed simp

lemma candidates_subset:
  "set (eviction_candidates m readers wanted) \<subseteq> {i. evictable m readers i} \<and>
   distinct (eviction_candidates m readers wanted)"
proof (cases "mf_admitted m \<or> wanted = 0")
  case True
  then show ?thesis by (simp add: eviction_candidates_def)
next
  case False
  let ?ixs = "map (fst \<circ> snd) (by_age m readers)"
  obtain k where "take_coldest 0 wanted (map snd (by_age m readers)) = map fst (take k (map snd (by_age m readers)))"
    using take_coldest_prefix by blast
  then have "eviction_candidates m readers wanted = take k ?ixs"
    using False by (simp add: eviction_candidates_def take_map)
  moreover have "set ?ixs = {i. evictable m readers i}" "distinct ?ixs"
    using by_age_indices [of m readers] False by blast+
  ultimately show ?thesis using set_take_subset [of k ?ixs] distinct_take [of ?ixs k] by auto
qed

lemma candidates_coldest:
  fixes m readers wanted
  assumes sum: "sum_list (map seg_bytes (mf_states m)) \<le> U64_MAX"
    and w: "0 < wanted" and na: "\<not> mf_admitted m"
  defines "c \<equiv> eviction_candidates m readers wanted"
  shows "sorted_wrt (\<lambda>i j. age_key m i < age_key m j) c"
    and "\<And>i u. i \<in> set c \<Longrightarrow> evictable m readers u \<Longrightarrow> u \<notin> set c \<Longrightarrow> age_key m i < age_key m u"
    and "\<And>u. evictable m readers u \<Longrightarrow> u \<notin> set c \<Longrightarrow> wanted \<le> sum_list (map (bytes_at m) c)"
    and "c \<noteq> [] \<Longrightarrow> sum_list (map (bytes_at m) (butlast c)) < wanted"
proof -
  define ixs where "ixs = map (fst \<circ> snd) (by_age m readers)"
  have ixs: "set ixs = {i. evictable m readers i}" "sorted_wrt (\<lambda>i j. age_key m i < age_key m j) ixs"
    unfolding ixs_def using by_age_indices [OF na, of readers] by blast+
  obtain k where k: "k \<le> length ixs" "c = take k ixs"
    "k < length ixs \<longrightarrow> wanted \<le> sum_list (map (bytes_at m) (take k ixs))"
    "0 < k \<longrightarrow> sum_list (map (bytes_at m) (take (k - 1) ixs)) < wanted"
    using eviction_candidates_prefix [OF na _ sum, of wanted readers] w
    unfolding c_def ixs_def by auto
  have "sorted_wrt (\<lambda>i j. age_key m i < age_key m j) (take k ixs @ drop k ixs)"
    using ixs(2) by simp
  then have sw: "sorted_wrt (\<lambda>i j. age_key m i < age_key m j) (c @ drop k ixs)" by (simp add: k(2))
  then show "sorted_wrt (\<lambda>i j. age_key m i < age_key m j) c" by (simp add: sorted_wrt_append)
  have rest: "u \<in> set (drop k ixs)" if "evictable m readers u" "u \<notin> set c" for u
  proof -
    have "u \<in> set (take k ixs @ drop k ixs)" using that(1) ixs(1) by simp
    then show ?thesis using that(2) unfolding k(2) set_append by blast
  qed
  show "age_key m i < age_key m u" if "i \<in> set c" "evictable m readers u" "u \<notin> set c" for i u
    using sw rest [OF that(2,3)] that(1) by (auto simp: sorted_wrt_append)
  show "wanted \<le> sum_list (map (bytes_at m) c)" if "evictable m readers u" "u \<notin> set c" for u
  proof -
    have "drop k ixs \<noteq> []" using rest [OF that] by auto
    then show ?thesis using k by simp
  qed
  show "sum_list (map (bytes_at m) (butlast c)) < wanted" if "c \<noteq> []"
  proof -
    have "0 < k" "butlast c = take (k - 1) ixs" using that k(1,2) by (auto simp: butlast_take)
    then show ?thesis using k(4) by simp
  qed
qed

text \<open>Taking every chosen segment.\<close>

definition evict_all :: "manifest \<Rightarrow> nat list \<Rightarrow> manifest" where
  "evict_all m ixs = foldl (\<lambda>m i. fst (evict m i)) m ixs"

lemma evict_Some:
  "\<not> mf_admitted m \<Longrightarrow> i < length (mf_states m) \<Longrightarrow> is_materialized (mf_states m ! i) \<Longrightarrow>
   evict m i = (m\<lparr> mf_states := (mf_states m)[i := Planned] \<rparr>, True)"
  by (auto simp: evict_def seg_state_at_def split: if_splits)

lemma sum_bytes_evict:
  "i < length xs \<Longrightarrow>
   sum_list (map seg_bytes (xs[i := Planned])) + seg_bytes (xs ! i) = sum_list (map seg_bytes xs)"
proof (induction xs arbitrary: i)
  case (Cons x xs)
  then show ?case by (cases i) (auto simp: algebra_simps)
qed simp

lemma evict_all_bytes:
  "distinct ixs \<Longrightarrow> \<forall>i \<in> set ixs. evictable m readers i \<Longrightarrow>
   sum_list (map seg_bytes (mf_states (evict_all m ixs))) + sum_list (map (bytes_at m) ixs)
     = sum_list (map seg_bytes (mf_states m))"
proof (induction ixs arbitrary: m)
  case (Cons i ixs)
  let ?m = "m\<lparr> mf_states := (mf_states m)[i := Planned] \<rparr>"
  have ev: "\<not> mf_admitted m" "i < length (mf_states m)" "is_materialized (mf_states m ! i)"
    using Cons.prems(2) by (auto simp: evictable_def)
  have step: "evict_all m (i # ixs) = evict_all ?m ixs"
    by (simp add: evict_all_def evict_Some [OF ev])
  have ne: "j \<noteq> i" if "j \<in> set ixs" for j using that Cons.prems(1) by auto
  have elig: "\<forall>j \<in> set ixs. evictable ?m readers j"
    using Cons.prems(2) ne by (auto simp: evictable_def nth_list_update)
  have "(mf_states m)[i := Planned] ! j = mf_states m ! j" if "j \<in> set ixs" for j
    using ne [OF that] by (metis nth_list_update_neq)
  then have same: "map (bytes_at ?m) ixs = map (bytes_at m) ixs" by (simp add: bytes_at_def)
  have "sum_list (map seg_bytes (mf_states (evict_all ?m ixs))) + sum_list (map (bytes_at m) ixs)
      = sum_list (map seg_bytes ((mf_states m)[i := Planned]))"
    using Cons.IH [OF _ elig] Cons.prems(1) unfolding same by simp
  then show ?case
    using sum_bytes_evict [OF ev(2)] bytes_at_def [of m i] unfolding step by simp
qed (simp add: evict_all_def)

lemma evict_all_others:
  "\<forall>i \<in> set ixs. evictable m readers i \<Longrightarrow> distinct ixs \<Longrightarrow>
   mf_admitted (evict_all m ixs) = mf_admitted m \<and>
   length (mf_states (evict_all m ixs)) = length (mf_states m) \<and>
   (\<forall>j < length (mf_states m).
      mf_states (evict_all m ixs) ! j = (if j \<in> set ixs then Planned else mf_states m ! j))"
proof (induction ixs arbitrary: m)
  case (Cons i ixs)
  let ?m = "m\<lparr> mf_states := (mf_states m)[i := Planned] \<rparr>"
  have ev: "\<not> mf_admitted m" "i < length (mf_states m)" "is_materialized (mf_states m ! i)"
    using Cons.prems(1) by (auto simp: evictable_def)
  have step: "evict_all m (i # ixs) = evict_all ?m ixs"
    by (simp add: evict_all_def evict_Some [OF ev])
  have "\<forall>j \<in> set ixs. evictable ?m readers j"
    using Cons.prems by (auto simp: evictable_def nth_list_update)
  from Cons.IH [OF this] Cons.prems(2) show ?case unfolding step by (auto simp: nth_list_update)
qed (simp add: evict_all_def)

section \<open>The life of a manifest\<close>

inductive manifest_step :: "manifest \<Rightarrow> manifest \<Rightarrow> bool" where
  step_materialize: "manifest_step m (fst (materialize m index bytes at_ms))"
| step_evict: "manifest_step m (fst (evict m index))"
| step_forget: "manifest_step m (fst (forget m index))"
| step_reserve: "manifest_step m (fst (reserve_space m b))"
| step_complete: "manifest_step m (fst (complete_rendition m b))"

inductive_cases manifest_stepE: "manifest_step m m'"

inductive manifest_reachable :: "segment_plan \<Rightarrow> manifest \<Rightarrow> bool" for plan where
  reach_new: "manifest_reachable plan (manifest_new plan)"
| reach_step: "manifest_reachable plan m \<Longrightarrow> manifest_step m m' \<Longrightarrow> manifest_reachable plan m'"

definition manifest_ok :: "segment_plan \<Rightarrow> manifest \<Rightarrow> bool" where
  "manifest_ok plan m \<longleftrightarrow> mf_plan m = plan \<and> length (mf_states m) = length (sp_entries plan) \<and>
     (mf_admitted m \<longrightarrow> mf_states m \<noteq> [] \<and> list_all is_materialized (mf_states m))"

lemma missing_none: "missing_segments m = [] \<longleftrightarrow> list_all is_materialized (mf_states m)"
  by (auto simp: missing_segments_eq filter_empty_conv absent_iff list_all_length is_materialized_iff)

lemma admissible_cases:
  "admissible m b = (if mf_states m = [] then Inl EmptyPlan
     else if admission_threshold b < manifest_planned_bytes m
     then Inl (TooLarge (manifest_planned_bytes m) (admission_threshold b)) else Inr ())"
  by (simp add: admissible_def Let_def)

lemma ok_materialize [keeps]: "manifest_ok plan m \<Longrightarrow> manifest_ok plan (fst (materialize m i b t))"
  by (auto simp: manifest_ok_def materialize_def list_all_length nth_list_update)

lemma ok_evict [keeps]: "manifest_ok plan m \<Longrightarrow> manifest_ok plan (fst (evict m i))"
  by (auto simp: manifest_ok_def evict_def split: option.split)

lemma ok_forget [keeps]: "manifest_ok plan m \<Longrightarrow> manifest_ok plan (fst (forget m i))"
  by (auto simp: manifest_ok_def forget_def split: option.split)

lemma ok_reserve [keeps]: "manifest_ok plan m \<Longrightarrow> manifest_ok plan (fst (reserve_space m b))"
  by (auto simp: manifest_ok_def reserve_space_def split: sum.split)

lemma ok_complete [keeps]: "manifest_ok plan m \<Longrightarrow> manifest_ok plan (fst (complete_rendition m b))"
proof -
  assume ok: "manifest_ok plan m"
  show ?thesis
  proof (cases "admissible m b")
    case (Inl e)
    then show ?thesis using ok by (simp add: complete_rendition_def)
  next
    case (Inr u)
    then have "mf_states m \<noteq> []" by (auto simp: admissible_cases)
    then show ?thesis using ok Inr missing_none [of m]
      by (cases "missing_segments m")
        (auto simp: complete_rendition_def manifest_ok_def Let_def)
  qed
qed

lemma ok_step: "manifest_step m m' \<Longrightarrow> manifest_ok plan m \<Longrightarrow> manifest_ok plan m'"
  by (erule manifest_stepE) (simp_all add: keeps)

lemma ok_reachable: "manifest_reachable plan m \<Longrightarrow> manifest_ok plan m"
proof (induction rule: manifest_reachable.induct)
  case reach_new
  show ?case by (simp add: manifest_ok_def manifest_new_def)
next
  case (reach_step m m')
  then show ?case using ok_step by blast
qed

section \<open>What the store promises\<close>

lemma length_filter_enumerate:
  "length (filter (\<lambda>(i, x). P x) (enumerate n xs)) = length (filter P xs)"
  by (induction xs arbitrary: n) auto

lemma find_filter: "find P xs = (case filter P xs of [] \<Rightarrow> None | x # _ \<Rightarrow> Some x)"
  by (induction xs) auto

text \<open>Eviction never offers a segment of an admitted rendition, a segment without bytes, or
  one inside any reader's window, and it offers no segment twice.\<close>

theorem eviction_spares_readers:
  "distinct (eviction_candidates m readers wanted) \<and>
   \<not> (\<exists>i r. i \<in> set (eviction_candidates m readers wanted) \<and>
      (mf_admitted m \<or> seg_state_at m i = None \<or> seg_state_at m i = Some Planned \<or>
       r \<in> set readers \<and> window_covers r i))"
  using candidates_subset [of m readers wanted] by (auto simp: evictable_def seg_state_at_def)

text \<open>C33: Eviction is coldest-first and stops as soon as it has freed enough: an eligible segment
  left behind is younger than every chosen one and means the chosen bytes already reach
  what was wanted, and without its last choice the sweep would fall short of it.\<close>

theorem eviction_coldest_first:
  assumes "sum_list (map seg_bytes (mf_states m)) \<le> U64_MAX" and "0 < wanted" and "\<not> mf_admitted m"
  shows "sorted_wrt (\<lambda>i j. age_key m i < age_key m j) (eviction_candidates m readers wanted) \<and>
    (\<forall>u. evictable m readers u \<and> u \<notin> set (eviction_candidates m readers wanted) \<longrightarrow>
       (\<forall>i \<in> set (eviction_candidates m readers wanted). age_key m i < age_key m u) \<and>
       wanted \<le> sum_list (map (bytes_at m) (eviction_candidates m readers wanted))) \<and>
    (eviction_candidates m readers wanted \<noteq> [] \<longrightarrow>
       sum_list (map (bytes_at m) (butlast (eviction_candidates m readers wanted))) < wanted)"
proof (intro conjI allI impI ballI; (elim conjE)?)
  show "sorted_wrt (\<lambda>i j. age_key m i < age_key m j) (eviction_candidates m readers wanted)"
    by (rule candidates_coldest(1) [OF assms])
next
  fix u i
  assume "evictable m readers u" "u \<notin> set (eviction_candidates m readers wanted)"
    "i \<in> set (eviction_candidates m readers wanted)"
  then show "age_key m i < age_key m u" using candidates_coldest(2) [OF assms] by simp
next
  fix u
  assume "evictable m readers u" "u \<notin> set (eviction_candidates m readers wanted)"
  then show "wanted \<le> sum_list (map (bytes_at m) (eviction_candidates m readers wanted))"
    by (rule candidates_coldest(3) [OF assms])
next
  assume "eviction_candidates m readers wanted \<noteq> []"
  then show "sum_list (map (bytes_at m) (butlast (eviction_candidates m readers wanted))) < wanted"
    by (rule candidates_coldest(4) [OF assms])
qed

text \<open>Evicting every candidate releases exactly their bytes: the materialized total drops by
  their sum, they are planned again, and nothing else changes.\<close>

theorem eviction_releases_bytes:
  assumes "sum_list (map seg_bytes (mf_states m)) \<le> U64_MAX"
  shows "materialized_bytes (evict_all m (eviction_candidates m readers wanted))
           + sum_list (map (bytes_at m) (eviction_candidates m readers wanted)) = materialized_bytes m \<and>
         (\<forall>j < length (mf_states m).
            mf_states (evict_all m (eviction_candidates m readers wanted)) ! j =
              (if j \<in> set (eviction_candidates m readers wanted) then Planned else mf_states m ! j))"
proof -
  let ?c = "eviction_candidates m readers wanted"
  have c: "\<forall>i \<in> set ?c. evictable m readers i" "distinct ?c"
    using candidates_subset [of m readers wanted] by auto
  have sum: "sum_list (map seg_bytes (mf_states (evict_all m ?c))) + sum_list (map (bytes_at m) ?c)
      = sum_list (map seg_bytes (mf_states m))"
    by (rule evict_all_bytes [OF c(2,1)])
  have "materialized_bytes m = sum_list (map seg_bytes (mf_states m))"
    using assms by (simp add: materialized_bytes_def foldl_wrapping_add_u64)
  moreover have "materialized_bytes (evict_all m ?c) = sum_list (map seg_bytes (mf_states (evict_all m ?c)))"
    using assms sum by (simp add: materialized_bytes_def foldl_wrapping_add_u64)
  ultimately show ?thesis using sum evict_all_others [OF c] by simp
qed

text \<open>\<open>has_evictable\<close> answers for the sweep it stands for: with nothing owed it is true exactly
  when a sweep for at least one byte would offer a segment.\<close>

theorem has_evictable_agrees:
  assumes "sum_list (map seg_bytes (mf_states m)) \<le> U64_MAX" and "0 < wanted"
  shows "has_evictable m [] readers \<longleftrightarrow> eviction_candidates m readers wanted \<noteq> []"
proof (cases "mf_admitted m")
  case True
  then show ?thesis by (simp add: has_evictable_def eviction_candidates_def)
next
  case False
  have "evictable m readers u \<Longrightarrow> eviction_candidates m readers wanted \<noteq> []" for u
    using candidates_coldest(3) [OF assms False, of readers u] assms(2) by force
  moreover have "eviction_candidates m readers wanted \<noteq> [] \<Longrightarrow> \<exists>u. evictable m readers u"
    using candidates_subset [of m readers wanted] by (cases "eviction_candidates m readers wanted") auto
  ultimately show ?thesis by (auto simp: has_evictable_iff)
qed

text \<open>C28: Completion publishes exactly when the rendition is within both budgets and every segment
  is materialized at once; a refusal changes nothing and names the holes.\<close>

theorem complete_demands_every_segment:
  "(complete_rendition m b = (m', Inr bytes) \<longleftrightarrow>
      mf_states m \<noteq> [] \<and> manifest_planned_bytes m \<le> admission_threshold b \<and>
      next_gap m 0 = None \<and> bytes = materialized_bytes m \<and> bytes \<le> bu_admission_sizing_bytes b \<and>
      m' = m\<lparr> mf_admitted := True \<rparr>) \<and>
   \<not> (\<exists>e. complete_rendition m b = (m', Inl e) \<and> m' \<noteq> m) \<and>
   \<not> (\<exists>n f. complete_rendition m b = (m', Inl (RefusedIncomplete n f)) \<and>
        (next_gap m 0 \<noteq> Some f \<or> n + materialized_count m \<noteq> manifest_len m))"
proof -
  let ?len = "length (mf_states m)"
  have gap0: "next_gap m 0 = None \<longleftrightarrow> missing_segments m = []"
    by (auto simp: next_gap_eq find_None_iff missing_segments_eq filter_empty_conv)
  have first: "next_gap m 0 = Some f" if "missing_segments m = f # rest" for f rest
    using that unfolding next_gap_eq missing_segments_eq find_filter by simp
  have count: "length (missing_segments m) + materialized_count m = manifest_len m"
  proof -
    have "length (missing_segments m) = length (filter (\<lambda>st. \<not> is_materialized st) (mf_states m))"
      unfolding missing_segments_def length_map by (rule length_filter_enumerate)
    then show ?thesis
      using sum_length_filter_compl [of is_materialized "mf_states m"]
      by (simp add: materialized_count_def manifest_len_def)
  qed
  show ?thesis
    using gap0 first count
    by (auto simp: complete_rendition_def admissible_cases Let_def split: list.splits if_splits)
qed

text \<open>C27: Over any sequence of operations a rendition keeps one state per planned segment, and while
  it is admitted every segment is materialized, nothing of it is offered for eviction, an eviction of
  any of its segments is refused, and it stays admitted under every operation but a \<open>forget\<close> that
  takes a segment away, which withdraws admission and reservation.\<close>

theorem admitted_stays_complete:
  assumes "manifest_reachable plan m"
  shows "length (mf_states m) = length (sp_entries plan) \<and>
    (mf_admitted m \<longrightarrow> sp_entries plan \<noteq> [] \<and> missing_segments m = [] \<and> next_gap m 0 = None \<and>
       eviction_candidates m readers wanted = [] \<and> \<not> has_evictable m owed readers \<and> evict m index = (m, False) \<and>
       mf_admitted (fst (materialize m index bytes at_ms)) \<and> mf_admitted (fst (reserve_space m budgets)) \<and>
       mf_admitted (fst (complete_rendition m budgets)) \<and>
       snd (forget m index) = (index < length (mf_states m)) \<and>
       (if snd (forget m index) then \<not> mf_admitted (fst (forget m index)) \<and> \<not> mf_reserved (fst (forget m index))
        else fst (forget m index) = m))"
proof -
  have ok: "manifest_ok plan m" using assms by (rule ok_reachable)
  moreover have "mf_admitted m \<Longrightarrow> next_gap m 0 = None"
    using ok unfolding manifest_ok_def next_gap_None absent_iff
    by (auto simp: list_all_length is_materialized_iff)
  moreover have "mf_admitted m \<Longrightarrow> missing_segments m = []" using ok by (simp add: manifest_ok_def missing_none)
  moreover have "mf_admitted m \<Longrightarrow> snd (forget m index) = (index < length (mf_states m)) \<and>
      (if snd (forget m index) then \<not> mf_admitted (fst (forget m index)) \<and> \<not> mf_reserved (fst (forget m index))
       else fst (forget m index) = m)"
    using ok by (auto simp: manifest_ok_def forget_def seg_state_at_def list_all_length)
  moreover have "mf_admitted m \<Longrightarrow> mf_admitted (fst (materialize m index bytes at_ms)) \<and>
      mf_admitted (fst (reserve_space m budgets)) \<and> mf_admitted (fst (complete_rendition m budgets))"
    by (auto simp: materialize_def reserve_space_def complete_rendition_def Let_def split: sum.split list.split)
  ultimately show ?thesis
    by (auto simp: manifest_ok_def eviction_candidates_def evict_def has_evictable_def)
qed

section \<open>Witnesses\<close>

definition demo_plan :: segment_plan where
  "demo_plan = plan_transcode 7000 1000 \<lparr> td_video_ms = 7000, td_audio_ms = 7000,
     td_audio_bits_per_second = 0 \<rparr>"

definition demo_manifest :: manifest where
  "demo_manifest = \<lparr> mf_plan = demo_plan,
     mf_states = [Materialized 100 5, Materialized 200 3, Planned, Materialized 50 9],
     mf_admitted = False, mf_reserved = False \<rparr>"

theorem eviction_coldest_first_witness:
  "age_key demo_manifest 1 < age_key demo_manifest 0 \<and> 150 \<le> (200::nat)"
proof -
  have c: "eviction_candidates demo_manifest [] 150 = [1]"
    by (simp add: eviction_candidates_def by_age_def demo_manifest_def)
  have "evictable demo_manifest [] 0" by (simp add: evictable_def demo_manifest_def)
  moreover have "sum_list (map seg_bytes (mf_states demo_manifest)) \<le> U64_MAX"
    "\<not> mf_admitted demo_manifest" by (simp_all add: demo_manifest_def)
  ultimately show ?thesis
    using eviction_coldest_first [of demo_manifest 150 "[]"] unfolding c
    by (auto simp: bytes_at_def demo_manifest_def)
qed

theorem eviction_releases_bytes_witness:
  "materialized_bytes (evict_all demo_manifest (eviction_candidates demo_manifest [] 150)) + 200 = 350"
proof -
  have c: "eviction_candidates demo_manifest [] 150 = [1]"
    by (simp add: eviction_candidates_def by_age_def demo_manifest_def)
  have "sum_list (map seg_bytes (mf_states demo_manifest)) \<le> U64_MAX" by (simp add: demo_manifest_def)
  from eviction_releases_bytes [OF this, of "[]" 150] show ?thesis
    unfolding c by (simp add: bytes_at_def demo_manifest_def materialized_bytes_def)
qed

theorem has_evictable_agrees_witness: "has_evictable demo_manifest [] [] \<and> eviction_candidates demo_manifest [] 1 \<noteq> []"
proof -
  have "sum_list (map seg_bytes (mf_states demo_manifest)) \<le> U64_MAX" by (simp add: demo_manifest_def)
  from has_evictable_agrees [OF this, of 1 "[]"] show ?thesis
    by (simp add: has_evictable_def demo_manifest_def)
qed

theorem complete_demands_every_segment_witness:
  "next_gap demo_manifest 0 = Some 2 \<and> 1 + materialized_count demo_manifest = manifest_len demo_manifest"
proof -
  have "complete_rendition demo_manifest \<lparr> bu_working_set_bytes = 0, bu_admission_sizing_bytes = 1000,
      bu_admission_share = f64_one \<rparr> = (demo_manifest, Inl (RefusedIncomplete 1 2))"
    by (simp add: complete_rendition_def admissible_cases missing_segments_def demo_manifest_def
        demo_plan_def plan_transcode_def finish_plan_def transcode_from.simps manifest_planned_bytes_def
        planned_bytes_def headroom_def saturating_mul_u64_def ms_to_ticks_def)
  then show ?thesis
    using complete_demands_every_segment [of demo_manifest "\<lparr> bu_working_set_bytes = 0,
      bu_admission_sizing_bytes = 1000, bu_admission_share = f64_one \<rparr>" demo_manifest 0] by blast
qed

text \<open>A rendition of four segments: each arrives, and the completion admits it.\<close>

definition filled_manifest :: manifest where
  "filled_manifest = (manifest_new demo_plan)\<lparr> mf_states :=
     [Materialized 10 5, Materialized 20 6, Materialized 30 7, Materialized 40 8] \<rparr>"

definition admitted_manifest :: manifest where
  "admitted_manifest = filled_manifest\<lparr> mf_admitted := True \<rparr>"

lemma admitted_reachable: "manifest_reachable demo_plan admitted_manifest"
proof -
  define add where "add = (\<lambda>m (i, b, t). fst (materialize m i b t))"
  have add: "manifest_reachable demo_plan (foldl add m xs)" if "manifest_reachable demo_plan m" for m xs
    using that by (induction xs arbitrary: m) (auto simp: add_def intro: reach_step step_materialize)
  have len: "length (sp_entries demo_plan) = 4"
    by (simp add: demo_plan_def plan_transcode_def finish_plan_def transcode_from.simps ms_to_ticks_def saturating_mul_u64_def)
  have four: "replicate 4 Planned = [Planned, Planned, Planned, Planned]" by (simp add: numeral_eq_Suc)
  have eq: "filled_manifest = foldl add (manifest_new demo_plan) [(0, 10, 5), (1, 20, 6), (2, 30, 7), (3, 40, 8)]"
    by (simp add: filled_manifest_def add_def materialize_def manifest_new_def len four)
  have filled: "manifest_reachable demo_plan filled_manifest" unfolding eq by (rule add [OF reach_new])
  have eq': "admitted_manifest = fst (complete_rendition filled_manifest
      \<lparr> bu_working_set_bytes = 0, bu_admission_sizing_bytes = 1000, bu_admission_share = f64_one \<rparr>)"
    by (simp add: complete_rendition_def admissible_cases missing_segments_def filled_manifest_def admitted_manifest_def
        manifest_new_def demo_plan_def plan_transcode_def finish_plan_def transcode_from.simps manifest_planned_bytes_def
        planned_bytes_def headroom_def saturating_mul_u64_def ms_to_ticks_def materialized_bytes_def wrapping_add_u64_def)
  show ?thesis unfolding eq' by (rule reach_step [OF filled step_complete])
qed

theorem admitted_stays_complete_witness:
  "mf_admitted admitted_manifest \<and> next_gap admitted_manifest 0 = None \<and>
   eviction_candidates admitted_manifest [] 1000 = [] \<and> evict admitted_manifest 2 = (admitted_manifest, False) \<and>
   \<not> mf_admitted (fst (forget admitted_manifest 2))"
proof -
  have "mf_admitted admitted_manifest" "2 < length (mf_states admitted_manifest)"
    by (simp_all add: admitted_manifest_def filled_manifest_def)
  then show ?thesis
    using admitted_stays_complete [OF admitted_reachable, of "[]" 1000 "[]" 2] by (simp split: if_splits)
qed

end
