(* ===== verification/ProdSched.thy ===== *)
theory ProdSched
  imports TitleStore
begin

text \<open>
  The producer scheduler, \<open>crates/plurxd/src/prodsched.rs\<close>: a pure decision from the
  readers' demand, the manifest and the producer's position. The choice of a blocked
  segment reads the store only through the contract \<open>segment_store\<close>; its lemmas are proved
  in that locale and used through the manifest's interpretation.
\<close>

section \<open>Data\<close>

abbreviation AHEAD_HORIZON_SECONDS :: nat where "AHEAD_HORIZON_SECONDS \<equiv> 180"
abbreviation AHEAD_RESUME_SECONDS :: nat where "AHEAD_RESUME_SECONDS \<equiv> 90"
abbreviation AHEAD_YIELD_MARGIN_SECONDS :: nat where "AHEAD_YIELD_MARGIN_SECONDS \<equiv> 30"
abbreviation REPOSITION_GAP_SECONDS :: nat where "REPOSITION_GAP_SECONDS \<equiv> 60"

record demand =
  dm_blocked_on :: "nat option"
  dm_frontier :: nat
  dm_foreground :: bool
  dm_bounded_preparation :: bool
  dm_arrival_order :: "nat option"

definition idle_at :: "nat \<Rightarrow> demand" where
  "idle_at frontier = \<lparr> dm_blocked_on = None, dm_frontier = frontier, dm_foreground = False,
     dm_bounded_preparation = False, dm_arrival_order = None \<rparr>"

definition waiting_on :: "nat \<Rightarrow> demand" where
  "waiting_on index = \<lparr> dm_blocked_on = Some index, dm_frontier = index, dm_foreground = False,
     dm_bounded_preparation = False, dm_arrival_order = None \<rparr>"

datatype hold =
  Ahead nat            \<comment> \<open>horizon\<close>
| WorkingSetFull nat   \<comment> \<open>free_bytes\<close>
| NoRoom nat           \<comment> \<open>wanted\<close>

datatype action =
  Idle
| Produce nat
| Suspend nat hold     \<comment> \<open>produced_through, reason\<close>
| Reposition nat
| MakeRoom nat

record working_set =
  ws_used_bytes :: nat
  ws_budget_bytes :: nat
  ws_held :: bool

record position =
  po_produced_through :: "nat option"
  po_positioned_at :: "nat option"
  po_seconds_per_segment :: f64
  po_ahead_held :: bool
  po_permit_wanted :: bool
  po_working_set :: working_set

definition over_by :: "working_set \<Rightarrow> nat option" where
  "over_by w =
     (if ws_budget_bytes w = 0 then None
      else let release = ws_budget_bytes w div 2;
               enter = (if ws_held w then release else ws_budget_bytes w)
           in if enter < ws_used_bytes w then Some (ws_used_bytes w - release) else None)"

definition reach :: "position \<Rightarrow> nat option" where
  "reach p =
     (case po_produced_through p of
        Some through \<Rightarrow> Some (saturating_add_u32 through 1)
      | None \<Rightarrow> po_positioned_at p)"

text \<open>\<open>(f64::from(seconds) / per).ceil() as u32\<close>, for a positive \<open>per\<close>.\<close>

fun ceil_quotient :: "nat \<Rightarrow> f64 \<Rightarrow> nat" where
  "ceil_quotient seconds (Fin neg m e) =
     (case ratio m e of (num, den) \<Rightarrow> as_u32 (f64_ceil (round53 (seconds * den) num)))"
| "ceil_quotient seconds (Inf neg) = 0"
| "ceil_quotient seconds NaN = 0"

definition horizon_segments :: "position \<Rightarrow> nat \<Rightarrow> nat" where
  "horizon_segments p seconds =
     (let per = (if f64_positive (po_seconds_per_segment p) then po_seconds_per_segment p else f64_one)
      in max (ceil_quotient seconds per) 1)"

section \<open>The decision\<close>

definition furthest_frontier :: "demand list \<Rightarrow> nat" where
  "furthest_frontier demands = foldr max (map dm_frontier demands) 0"

definition early_line :: "position \<Rightarrow> nat option" where
  "early_line p =
     (if po_ahead_held p then Some (horizon_segments p AHEAD_RESUME_SECONDS)
      else if po_permit_wanted p
           then Some (saturating_add_u32 (horizon_segments p AHEAD_RESUME_SECONDS)
                        (horizon_segments p AHEAD_YIELD_MARGIN_SECONDS))
      else None)"

text \<open>\<open>sort_unstable\<close> then \<open>dedup\<close>; equal integers are indistinguishable.\<close>

definition sort_dedup :: "nat list \<Rightarrow> nat list" where
  "sort_dedup xs = remdups_adj (sort xs)"

definition owed_segments :: "manifest \<Rightarrow> demand list \<Rightarrow> nat list" where
  "owed_segments m demands =
     sort_dedup (filter (\<lambda>index. case seg_state_at m index of
                           None \<Rightarrow> False | Some st \<Rightarrow> \<not> is_materialized st)
       (List.map_filter dm_blocked_on demands))"

definition foreground_owed :: "demand list \<Rightarrow> nat list \<Rightarrow> nat list" where
  "foreground_owed demands owed =
     sort_dedup (filter (\<lambda>index. index \<in> set owed)
       (List.map_filter dm_blocked_on (filter dm_foreground demands)))"

text \<open>\<open>.min()\<close> over the (arrival order, index) pairs of the demands for a candidate.\<close>

definition list_min :: "('a::linorder) list \<Rightarrow> 'a option" where
  "list_min xs = (if xs = [] then None else Some (Min (set xs)))"

definition oldest_demand :: "demand list \<Rightarrow> nat list \<Rightarrow> (nat \<times> nat) option" where
  "oldest_demand demands candidates =
     list_min (List.map_filter
       (\<lambda>d. case dm_arrival_order d of None \<Rightarrow> None
          | Some order \<Rightarrow> map_option (Pair order) (dm_blocked_on d))
       (filter (\<lambda>d. case dm_blocked_on d of None \<Rightarrow> False | Some index \<Rightarrow> index \<in> set candidates)
         demands))"

definition restart_gap :: "demand list \<Rightarrow> nat \<Rightarrow> nat \<Rightarrow> nat" where
  "restart_gap demands index reposition =
     (if list_ex (\<lambda>d. dm_bounded_preparation d \<and> dm_blocked_on d = Some index) demands
      then 0 else reposition)"

definition serve_blocked ::
    "(nat \<Rightarrow> nat option) \<Rightarrow> nat list \<Rightarrow> nat option \<Rightarrow> nat \<Rightarrow> action" where
  "serve_blocked gap owed reached reposition =
     (let lowest = hd owed in
      case reached of
        None \<Rightarrow> if lowest = 0 then Produce 0 else Reposition lowest
      | Some r \<Rightarrow>
          (case find (\<lambda>index. r \<le> index) owed of
             Some target \<Rightarrow>
               if target \<le> saturating_add_u32 r reposition
               then Produce (min (case gap r of Some g \<Rightarrow> g | None \<Rightarrow> target) target)
               else Reposition lowest
           | None \<Rightarrow> Reposition lowest))"

definition stop_producing :: "nat option \<Rightarrow> nat \<Rightarrow> nat \<Rightarrow> nat option \<Rightarrow> action" where
  "stop_producing produced_through furthest horizon early =
     (case produced_through of
        Some through \<Rightarrow>
          if saturating_add_u32 furthest horizon \<le> through
             \<or> (case early of None \<Rightarrow> False | Some line \<Rightarrow> saturating_add_u32 furthest line < through)
          then Suspend through (Ahead horizon)
          else Idle
      | None \<Rightarrow> Idle)"

text \<open>The arm for an owed segment.\<close>

definition decide_blocked ::
    "manifest \<Rightarrow> demand list \<Rightarrow> position \<Rightarrow> reader_window list \<Rightarrow> nat list \<Rightarrow> action" where
  "decide_blocked m demands p readers owed =
     (case over_by (po_working_set p) of
        Some wanted \<Rightarrow>
          if has_evictable m owed readers then MakeRoom wanted
          else Suspend (case po_produced_through p of Some t \<Rightarrow> t | None \<Rightarrow> owed ! 0) (NoRoom wanted)
      | None \<Rightarrow>
          let foreground = foreground_owed demands owed;
              candidates = (if foreground = [] then owed else foreground);
              reposition = horizon_segments p REPOSITION_GAP_SECONDS
          in case oldest_demand demands candidates of
               Some oldest \<Rightarrow>
                 serve_blocked (next_gap m) [snd oldest] (reach p)
                   (restart_gap demands (snd oldest) reposition)
             | None \<Rightarrow>
                 serve_blocked (next_gap m) candidates (reach p)
                   (restart_gap demands (candidates ! 0) reposition))"

text \<open>The ahead-fill arm, for the first gap at or after the producer.\<close>

definition decide_ahead :: "manifest \<Rightarrow> nat \<Rightarrow> position \<Rightarrow> action" where
  "decide_ahead m furthest p =
     (let horizon = horizon_segments p AHEAD_HORIZON_SECONDS;
          reposition = horizon_segments p REPOSITION_GAP_SECONDS;
          early = early_line p;
          stopped = stop_producing (po_produced_through p) furthest horizon early
      in case next_gap m (case reach p of Some r \<Rightarrow> r | None \<Rightarrow> furthest) of
           None \<Rightarrow> stopped
         | Some gap \<Rightarrow>
             if saturating_add_u32 furthest horizon < gap
                \<or> (case early of None \<Rightarrow> False | Some line \<Rightarrow>
                     (case po_produced_through p of None \<Rightarrow> False | Some through \<Rightarrow>
                        saturating_add_u32 furthest line < through))
             then stopped
             else case over_by (po_working_set p) of
                    Some free_bytes \<Rightarrow>
                      (case po_produced_through p of
                         Some through \<Rightarrow> Suspend through (WorkingSetFull free_bytes)
                       | None \<Rightarrow> Idle)
                  | None \<Rightarrow>
                      (case reach p of
                         None \<Rightarrow> if gap = 0 then Produce 0 else Reposition gap
                       | Some r \<Rightarrow>
                           if saturating_add_u32 r reposition < gap then Reposition gap
                           else Produce gap))"

definition decide ::
    "manifest \<Rightarrow> demand list \<Rightarrow> position \<Rightarrow> reader_window list \<Rightarrow> action" where
  "decide m demands p readers =
     (if demands = [] then Idle
      else let owed = owed_segments m demands in
           if owed \<noteq> [] then decide_blocked m demands p readers owed
           else decide_ahead m (furthest_frontier demands) p)"

section \<open>Lists\<close>

lemma set_sort_dedup [simp]: "set (sort_dedup xs) = set xs"
  by (simp add: sort_dedup_def)

lemma sorted_sort_dedup: "sorted (sort_dedup xs)"
  by (simp add: sort_dedup_def sorted_remdups_adj)

lemma set_map_filter: "y \<in> set (List.map_filter f xs) \<longleftrightarrow> (\<exists>x \<in> set xs. f x = Some y)"
  by (induction xs) (auto simp: List.map_filter_simps split: option.splits)

lemma map_filter_empty: "List.map_filter f xs = [] \<longleftrightarrow> (\<forall>x \<in> set xs. f x = None)"
  by (induction xs) (auto simp: List.map_filter_simps split: option.splits)

lemma list_min_Some: "list_min xs = Some z \<Longrightarrow> z \<in> set xs \<and> (\<forall>x \<in> set xs. z \<le> x)"
  by (auto simp: list_min_def split: if_splits)

lemma list_min_None: "list_min xs = None \<longleftrightarrow> xs = []"
  by (simp add: list_min_def)

lemma owed_iff:
  "i \<in> set (owed_segments m demands) \<longleftrightarrow> absent m i \<and> (\<exists>d \<in> set demands. dm_blocked_on d = Some i)"
  by (auto simp: owed_segments_def set_map_filter absent_def split: option.splits)

lemma foreground_iff:
  "i \<in> set (foreground_owed demands owed) \<longleftrightarrow>
     i \<in> set owed \<and> (\<exists>d \<in> set demands. dm_foreground d \<and> dm_blocked_on d = Some i)"
  by (auto simp: foreground_owed_def set_map_filter)

lemma oldest_Some:
  "oldest_demand demands cs = Some z \<Longrightarrow>
   snd z \<in> set cs \<and>
   (\<exists>d \<in> set demands. dm_blocked_on d = Some (snd z) \<and> dm_arrival_order d = Some (fst z)) \<and>
   (\<forall>d \<in> set demands. \<forall>i order. dm_blocked_on d = Some i \<and> i \<in> set cs \<and>
      dm_arrival_order d = Some order \<longrightarrow> fst z \<le> order)"
proof -
  assume "oldest_demand demands cs = Some z"
  note z = list_min_Some [OF this [unfolded oldest_demand_def]]
  have mem: "(order, i) \<in> set (List.map_filter
       (\<lambda>d. case dm_arrival_order d of None \<Rightarrow> None | Some order \<Rightarrow> map_option (Pair order) (dm_blocked_on d))
       (filter (\<lambda>d. case dm_blocked_on d of None \<Rightarrow> False | Some index \<Rightarrow> index \<in> set cs) demands)) \<longleftrightarrow>
      (\<exists>d \<in> set demands. dm_blocked_on d = Some i \<and> i \<in> set cs \<and> dm_arrival_order d = Some order)"
    for order i
    by (auto simp: set_map_filter split: option.splits)
  obtain order i where eq: "z = (order, i)" by (cases z)
  have least: "order \<le> order'" if "d \<in> set demands" "dm_blocked_on d = Some j" "j \<in> set cs"
      "dm_arrival_order d = Some order'" for d j order'
  proof -
    have "(order, i) \<le> (order', j)" using z mem [of order' j] that unfolding eq by blast
    then show ?thesis by auto
  qed
  show ?thesis using z mem [of order i] least unfolding eq by auto
qed

lemma oldest_exists:
  assumes "f \<in> set demands" and "dm_blocked_on f = Some j" and "j \<in> set cs"
    and "dm_arrival_order f = Some order"
  shows "\<exists>z. oldest_demand demands cs = Some z"
proof (rule ccontr)
  assume "\<not> ?thesis"
  then have none: "oldest_demand demands cs = None" by (cases "oldest_demand demands cs") auto
  show False
    using none [unfolded oldest_demand_def list_min_None map_filter_empty, rule_format, of f] assms by simp
qed

section \<open>Serving a blocked reader\<close>

context segment_store begin

lemma next_toward:
  assumes "absentf target" and "r \<le> target"
  shows "\<exists>n. min (case gap r of Some g \<Rightarrow> g | None \<Rightarrow> target) target = n \<and>
    r \<le> n \<and> n \<le> target \<and> absentf n \<and> (\<forall>k. r \<le> k \<and> k < n \<longrightarrow> \<not> absentf k)"
proof -
  obtain j where j: "gap r = Some j" "r \<le> j" "j \<le> target" "absentf j"
    using gap_some [OF assms(2,1)] by blast
  then show ?thesis using gap_least [OF j(1)] by auto
qed

lemma serve_blocked_cases:
  assumes ne: "owed \<noteq> []" and ab: "\<forall>i \<in> set owed. absentf i"
  shows "(\<exists>target \<in> set owed. serve_blocked gap owed reached d = Reposition target \<and> target = hd owed) \<or>
    (\<exists>target \<in> set owed. \<exists>n. serve_blocked gap owed reached d = Produce n \<and> absentf n \<and> n \<le> target \<and>
       (case reached of None \<Rightarrow> n = 0 \<and> target = 0
        | Some r \<Rightarrow> r \<le> n \<and> target \<le> saturating_add_u32 r d \<and> (\<forall>k. r \<le> k \<and> k < n \<longrightarrow> \<not> absentf k)))"
proof -
  have hd: "hd owed \<in> set owed" using ne by simp
  show ?thesis
  proof (cases reached)
    case None
    then show ?thesis using hd ab by (cases "hd owed = 0") (auto simp: serve_blocked_def)
  next
    case (Some r)
    show ?thesis
    proof (cases "find (\<lambda>index. r \<le> index) owed")
      case None
      then show ?thesis using Some hd by (auto simp: serve_blocked_def)
    next
      case found: (Some target)
      then have t: "target \<in> set owed" "r \<le> target"
        by (auto simp: find_Some_iff)
      obtain n where n: "min (case gap r of Some g \<Rightarrow> g | None \<Rightarrow> target) target = n"
        "r \<le> n" "n \<le> target" "absentf n" "\<forall>k. r \<le> k \<and> k < n \<longrightarrow> \<not> absentf k"
        using next_toward [of target r] ab t by blast
      show ?thesis
      proof (cases "target \<le> saturating_add_u32 r d")
        case True
        then have "serve_blocked gap owed reached d = Produce n"
          using Some found n(1) by (simp add: serve_blocked_def)
        then show ?thesis using n t True Some by auto
      next
        case False
        then show ?thesis using Some found hd by (auto simp: serve_blocked_def)
      qed
    qed
  qed
qed

lemma serve_blocked_absent:
  assumes "owed \<noteq> []" and "\<forall>i \<in> set owed. absentf i"
    and "serve_blocked gap owed reached d = Produce n \<or> serve_blocked gap owed reached d = Reposition n"
  shows "absentf n"
  using serve_blocked_cases [OF assms(1,2), of reached d] assms(2,3) by auto

end

section \<open>The two arms of a decision\<close>

lemma owed_absent: "\<forall>i \<in> set (owed_segments m demands). absent m i"
  by (simp add: owed_iff)

definition preferred_segments :: "manifest \<Rightarrow> demand list \<Rightarrow> nat list" where
  "preferred_segments m demands =
     (let owed = owed_segments m demands; foreground = foreground_owed demands owed
      in if foreground = [] then owed else foreground)"

lemma preferred_sub: "set (preferred_segments m demands) \<subseteq> set (owed_segments m demands)"
  by (auto simp: preferred_segments_def Let_def foreground_iff)

lemma preferred_ne: "owed_segments m demands \<noteq> [] \<Longrightarrow> preferred_segments m demands \<noteq> []"
  by (simp add: preferred_segments_def Let_def)

text \<open>The candidates handed to \<open>serve_blocked\<close>: the oldest one alone, or all preferred ones.\<close>

definition served_list :: "manifest \<Rightarrow> demand list \<Rightarrow> nat list" where
  "served_list m demands =
     (case oldest_demand demands (preferred_segments m demands) of
        Some oldest \<Rightarrow> [snd oldest] | None \<Rightarrow> preferred_segments m demands)"

lemma served_sub: "set (served_list m demands) \<subseteq> set (preferred_segments m demands)"
  using oldest_Some [of demands "preferred_segments m demands"]
  by (auto simp: served_list_def split: option.splits)

lemma served_ne: "owed_segments m demands \<noteq> [] \<Longrightarrow> served_list m demands \<noteq> []"
  by (simp add: served_list_def preferred_ne split: option.split)

lemma decide_blocked_serves:
  assumes "over_by (po_working_set p) = None"
  shows "decide_blocked m demands p readers (owed_segments m demands) =
    serve_blocked (next_gap m) (served_list m demands) (reach p)
      (restart_gap demands (served_list m demands ! 0) (horizon_segments p REPOSITION_GAP_SECONDS))"
  using assms
  by (auto simp: decide_blocked_def served_list_def preferred_segments_def Let_def split: option.splits)

lemma decide_owed:
  "owed_segments m demands \<noteq> [] \<Longrightarrow>
   decide m demands p readers = decide_blocked m demands p readers (owed_segments m demands)"
  by (auto simp: decide_def owed_segments_def List.map_filter_simps sort_dedup_def)

lemma decide_not_owed:
  "owed_segments m demands = [] \<Longrightarrow> demands \<noteq> [] \<Longrightarrow>
   decide m demands p readers = decide_ahead m (furthest_frontier demands) p"
  by (simp add: decide_def)

lemma stop_not_work: "stop_producing t f h e \<noteq> Produce n" "stop_producing t f h e \<noteq> Reposition n"
  by (auto simp: stop_producing_def split: option.splits)

lemma decide_ahead_work:
  assumes "decide_ahead m furthest p = Produce n \<or> decide_ahead m furthest p = Reposition n"
  shows "next_gap m (case reach p of Some r \<Rightarrow> r | None \<Rightarrow> furthest) = Some n \<and>
    n \<le> saturating_add_u32 furthest (horizon_segments p AHEAD_HORIZON_SECONDS) \<and>
    over_by (po_working_set p) = None \<and>
    \<not> (\<exists>line through. early_line p = Some line \<and> po_produced_through p = Some through \<and>
         saturating_add_u32 furthest line < through)"
  using assms unfolding decide_ahead_def Let_def
  by (auto simp: stop_not_work split: option.splits if_splits)

section \<open>What the scheduler promises\<close>

text \<open>The producer is only ever sent to work on a segment of the plan that has no bytes.\<close>

theorem work_is_missing:
  assumes "decide m demands p readers = Produce n \<or> decide m demands p readers = Reposition n"
  shows "seg_state_at m n = Some Planned"
proof (cases "owed_segments m demands = []")
  case True
  have "demands \<noteq> []" using assms by (auto simp: decide_def)
  then have "next_gap m (case reach p of Some r \<Rightarrow> r | None \<Rightarrow> furthest_frontier demands) = Some n"
    using assms decide_ahead_work decide_not_owed [OF True] by metis
  then show ?thesis using store.gap_absent by (simp add: absent_def)
next
  case False
  have none: "over_by (po_working_set p) = None"
    using assms unfolding decide_owed [OF False]
    by (auto simp: decide_blocked_def split: option.splits if_splits)
  have ab: "\<forall>i \<in> set (served_list m demands). absent m i"
    using served_sub preferred_sub owed_absent by blast
  show ?thesis
    using store.serve_blocked_absent [OF served_ne [OF False] ab] assms
    unfolding decide_owed [OF False] decide_blocked_serves [OF none] absent_def by blast
qed

text \<open>C34: A blocked request outranks the ahead window. While there is room and some reader waits on
  a segment without bytes, the producer works towards a segment somebody waits on: one of a
  foreground demand if there is any, and one no younger, by order of arrival, than any
  competing request that carries its order. Either it restarts there, or it reads forward to it within the restart gap without skipping a
  hole.\<close>

theorem blocked_outranks_ahead:
  assumes "over_by (po_working_set p) = None"
    and "d \<in> set demands" and "dm_blocked_on d = Some i" and "seg_state_at m i = Some Planned"
  shows "\<exists>target e. e \<in> set demands \<and> dm_blocked_on e = Some target \<and> seg_state_at m target = Some Planned \<and>
    ((\<exists>f \<in> set demands. \<exists>j. dm_foreground f \<and> dm_blocked_on f = Some j \<and> seg_state_at m j = Some Planned)
       \<longrightarrow> (\<exists>f \<in> set demands. dm_foreground f \<and> dm_blocked_on f = Some target)) \<and>
    (\<forall>f \<in> set demands. \<forall>j order. dm_blocked_on f = Some j \<and> j \<in> set (preferred_segments m demands) \<and>
       dm_arrival_order f = Some order \<longrightarrow>
       (\<exists>e \<in> set demands. \<exists>first \<le> order. dm_blocked_on e = Some target \<and> dm_arrival_order e = Some first)) \<and>
    (decide m demands p readers = Reposition target \<or>
     (\<exists>n \<le> target. decide m demands p readers = Produce n \<and>
        (case reach p of None \<Rightarrow> n = 0 \<and> target = 0
         | Some r \<Rightarrow> r \<le> n \<and>
             target \<le> saturating_add_u32 r (horizon_segments p REPOSITION_GAP_SECONDS) \<and>
             (\<forall>k. r \<le> k \<and> k < n \<longrightarrow> seg_state_at m k \<noteq> Some Planned))))"
proof -
  have "i \<in> set (owed_segments m demands)" using assms(2-4) by (auto simp: owed_iff absent_def)
  then have ne: "owed_segments m demands \<noteq> []" by auto
  have ab: "\<forall>i \<in> set (served_list m demands). absent m i"
    using served_sub preferred_sub owed_absent by blast
  let ?d = "restart_gap demands (served_list m demands ! 0) (horizon_segments p REPOSITION_GAP_SECONDS)"
  have gap: "?d \<le> horizon_segments p REPOSITION_GAP_SECONDS" by (simp add: restart_gap_def)
  have dec: "decide m demands p readers = serve_blocked (next_gap m) (served_list m demands) (reach p) ?d"
    unfolding decide_owed [OF ne] decide_blocked_serves [OF assms(1)] ..
  obtain target where t: "target \<in> set (served_list m demands)"
    and act: "decide m demands p readers = Reposition target \<or>
      (\<exists>n \<le> target. decide m demands p readers = Produce n \<and>
        (case reach p of None \<Rightarrow> n = 0 \<and> target = 0
         | Some r \<Rightarrow> r \<le> n \<and> target \<le> saturating_add_u32 r ?d \<and> (\<forall>k. r \<le> k \<and> k < n \<longrightarrow> \<not> absent m k)))"
    using store.serve_blocked_cases [OF served_ne [OF ne] ab, of "reach p" ?d] unfolding dec by blast
  have pref: "target \<in> set (preferred_segments m demands)" using t served_sub by blast
  obtain e where e: "e \<in> set demands" "dm_blocked_on e = Some target" "absent m target"
    using pref preferred_sub owed_iff by blast
  have fg: "\<exists>f \<in> set demands. dm_foreground f \<and> dm_blocked_on f = Some target"
    if "f \<in> set demands" "dm_foreground f" "dm_blocked_on f = Some j" "seg_state_at m j = Some Planned" for f j
  proof -
    have "j \<in> set (foreground_owed demands (owed_segments m demands))"
      using that by (auto simp: foreground_iff owed_iff absent_def)
    then have "preferred_segments m demands = foreground_owed demands (owed_segments m demands)"
      by (auto simp: preferred_segments_def Let_def)
    then show ?thesis using pref by (simp add: foreground_iff)
  qed
  have old: "\<exists>e \<in> set demands. \<exists>first \<le> order. dm_blocked_on e = Some target \<and> dm_arrival_order e = Some first"
    if "f \<in> set demands" "dm_blocked_on f = Some j" "j \<in> set (preferred_segments m demands)"
      "dm_arrival_order f = Some order" for f j order
  proof -
    have "\<exists>z. oldest_demand demands (preferred_segments m demands) = Some z"
      using that by (rule oldest_exists)
    then obtain z where z: "oldest_demand demands (preferred_segments m demands) = Some z" by blast
    then have "target = snd z" using t by (simp add: served_list_def)
    then show ?thesis using oldest_Some [OF z] that by metis
  qed
  have "saturating_add_u32 r ?d \<le> saturating_add_u32 r (horizon_segments p REPOSITION_GAP_SECONDS)" for r
    using gap by (simp add: saturating_add_u32_def)
  then have "decide m demands p readers = Reposition target \<or>
     (\<exists>n \<le> target. decide m demands p readers = Produce n \<and>
        (case reach p of None \<Rightarrow> n = 0 \<and> target = 0
         | Some r \<Rightarrow> r \<le> n \<and>
             target \<le> saturating_add_u32 r (horizon_segments p REPOSITION_GAP_SECONDS) \<and>
             (\<forall>k. r \<le> k \<and> k < n \<longrightarrow> seg_state_at m k \<noteq> Some Planned)))"
    using act by (cases "reach p") (auto simp: absent_def intro: order_trans)
  then show ?thesis using e fg old unfolding absent_def by blast
qed

text \<open>C2: A full working set is answered once. With a reader blocked and the working set full, the producer asks for room exactly when an
  eviction could take a segment outside every reader's window, reports the stall otherwise,
  and the bytes it asks for clear the hold in one sweep, held or not.\<close>

theorem room_is_asked_once:
  assumes "over_by (po_working_set p) = Some wanted"
    and "d \<in> set demands" and "dm_blocked_on d = Some i" and "seg_state_at m i = Some Planned"
  shows "decide m demands p readers =
      (if \<exists>j. evictable m readers j then MakeRoom wanted
       else Suspend (case po_produced_through p of Some t \<Rightarrow> t | None \<Rightarrow> hd (owed_segments m demands))
              (NoRoom wanted)) \<and>
    wanted \<le> ws_used_bytes (po_working_set p) \<and>
    over_by ((po_working_set p)\<lparr> ws_used_bytes := ws_used_bytes (po_working_set p) - wanted,
               ws_held := held \<rparr>) = None"
proof -
  have "i \<in> set (owed_segments m demands)" using assms(2-4) by (auto simp: owed_iff absent_def)
  then have ne: "owed_segments m demands \<noteq> []" by auto
  have "evictable m readers j \<Longrightarrow> j \<notin> set (owed_segments m demands)" for j
    by (auto simp: owed_iff evictable_def absent_iff)
  then have "has_evictable m (owed_segments m demands) readers \<longleftrightarrow> (\<exists>j. evictable m readers j)"
    unfolding has_evictable_iff by blast
  then show ?thesis
    using assms(1) ne unfolding decide_owed [OF ne] decide_blocked_def
    by (auto simp: over_by_def Let_def hd_conv_nth split: if_splits option.splits)
qed

text \<open>Ahead-fill stays inside its horizon: with nothing owed, work is ordered only within 180 s of
  the furthest reader, only while the working set has room, and, once the rendition is
  latched in an ahead hold, only after the lead has drained to the 90 s line.\<close>

theorem ahead_fill_is_bounded:
  assumes "decide m demands p readers = Produce n \<or> decide m demands p readers = Reposition n"
    and "owed_segments m demands = []"
  shows "n \<le> saturating_add_u32 (furthest_frontier demands) (horizon_segments p AHEAD_HORIZON_SECONDS) \<and>
    over_by (po_working_set p) = None \<and>
    \<not> (\<exists>through. po_ahead_held p \<and> po_produced_through p = Some through \<and>
         saturating_add_u32 (furthest_frontier demands) (horizon_segments p AHEAD_RESUME_SECONDS) < through)"
proof -
  have "demands \<noteq> []" using assms(1) by (auto simp: decide_def)
  then have "decide_ahead m (furthest_frontier demands) p = Produce n \<or>
      decide_ahead m (furthest_frontier demands) p = Reposition n"
    using assms decide_not_owed by metis
  from decide_ahead_work [OF this] show ?thesis by (auto simp: early_line_def)
qed

section \<open>One blocked reader\<close>

lemma single_owed:
  "dm_blocked_on d = Some t \<Longrightarrow> absent m t \<Longrightarrow> owed_segments m [d] = [t]"
  by (simp add: owed_segments_def List.map_filter_simps sort_dedup_def absent_def)

lemma single_served:
  assumes "dm_blocked_on d = Some t" and "absent m t"
  shows "served_list m [d] = [t]"
proof -
  have "preferred_segments m [d] = [t]"
    using assms by (auto simp: preferred_segments_def single_owed foreground_owed_def
        List.map_filter_simps sort_dedup_def Let_def)
  then show ?thesis
    using assms by (auto simp: served_list_def oldest_demand_def List.map_filter_simps list_min_def
        split: option.splits)
qed

lemma decide_single:
  assumes "dm_blocked_on d = Some t" and "absent m t" and "over_by (po_working_set p) = None"
  shows "decide m [d] p readers = serve_blocked (next_gap m) [t] (reach p)
    (restart_gap [d] t (horizon_segments p REPOSITION_GAP_SECONDS))"
  using decide_blocked_serves [OF assms(3), of m "[d]" readers] decide_owed [of m "[d]" p readers]
  by (simp add: single_owed [OF assms(1,2)] single_served [OF assms(1,2)])

section \<open>Witnesses\<close>

definition demo_position :: position where
  "demo_position = \<lparr> po_produced_through = None, po_positioned_at = None,
     po_seconds_per_segment = Fin False 2 0, po_ahead_held = False, po_permit_wanted = False,
     po_working_set = \<lparr> ws_used_bytes = 350, ws_budget_bytes = 0, ws_held = False \<rparr> \<rparr>"

lemma demo_owed: "owed_segments demo_manifest [waiting_on 2] = [2]"
  by (rule single_owed) (simp_all add: waiting_on_def absent_iff demo_manifest_def)

lemma demo_restart: "decide demo_manifest [waiting_on 2] demo_position [] = Reposition 2"
proof -
  have "dm_blocked_on (waiting_on 2) = Some 2" "absent demo_manifest 2"
    "over_by (po_working_set demo_position) = None"
    by (simp_all add: waiting_on_def absent_iff demo_manifest_def demo_position_def over_by_def)
  from decide_single [OF this, of "[]"] show ?thesis
    by (simp add: serve_blocked_def reach_def demo_position_def)
qed

theorem work_is_missing_witness: "seg_state_at demo_manifest 2 = Some Planned"
  using work_is_missing [of demo_manifest "[waiting_on 2]" demo_position "[]" 2] demo_restart by simp

theorem blocked_outranks_ahead_witness:
  "\<exists>target. dm_blocked_on (waiting_on 2) = Some target \<and>
     decide demo_manifest [waiting_on 2] demo_position [] = Reposition target"
proof -
  have "over_by (po_working_set demo_position) = None" "dm_blocked_on (waiting_on 2) = Some 2"
    "seg_state_at demo_manifest 2 = Some Planned"
    by (simp_all add: over_by_def demo_position_def waiting_on_def seg_state_at_def demo_manifest_def)
  then obtain e target where "e \<in> set [waiting_on 2]" "dm_blocked_on e = Some target"
    using blocked_outranks_ahead [of demo_position "waiting_on 2" "[waiting_on 2]" 2 demo_manifest "[]"]
    by (metis list.set_intros(1))
  moreover from this have "target = 2" by (simp add: waiting_on_def)
  ultimately show ?thesis using demo_restart by simp
qed

theorem room_is_asked_once_witness:
  "decide demo_manifest [waiting_on 2]
     (demo_position\<lparr> po_working_set := \<lparr> ws_used_bytes = 350, ws_budget_bytes = 100, ws_held = False \<rparr> \<rparr>) []
   = MakeRoom 300"
proof -
  let ?p = "demo_position\<lparr> po_working_set := \<lparr> ws_used_bytes = 350, ws_budget_bytes = 100, ws_held = False \<rparr> \<rparr>"
  have "over_by (po_working_set ?p) = Some 300" "dm_blocked_on (waiting_on 2) = Some 2"
    "seg_state_at demo_manifest 2 = Some Planned"
    by (simp_all add: over_by_def waiting_on_def seg_state_at_def demo_manifest_def)
  moreover have "evictable demo_manifest [] 0" by (simp add: evictable_def demo_manifest_def)
  ultimately show ?thesis
    using room_is_asked_once [of ?p 300 "waiting_on 2" "[waiting_on 2]" 2 demo_manifest "[]"] by auto
qed

lemma whole_quotient:
  "0 < m \<Longrightarrow> 0 < j \<Longrightarrow> j \<le> U32_MAX \<Longrightarrow> ceil_quotient (j * m) (Fin False m 0) = j"
proof -
  assume "0 < m" "0 < j" "j \<le> U32_MAX"
  then obtain t where "round53 (j * m) m = (j * 2 ^ t, - int t)"
    using round53_integer [of m j] by auto
  then show ?thesis using \<open>j \<le> U32_MAX\<close> by (simp add: ratio_def as_u32_def)
qed

theorem ahead_fill_is_bounded_witness:
  "2 \<le> saturating_add_u32 (furthest_frontier [idle_at 1])
     (horizon_segments (demo_position\<lparr> po_produced_through := Some 1 \<rparr>) AHEAD_HORIZON_SECONDS)"
proof -
  let ?p = "demo_position\<lparr> po_produced_through := Some 1 \<rparr>"
  have owed: "owed_segments demo_manifest [idle_at 1] = []"
    by (simp add: owed_segments_def sort_dedup_def List.map_filter_simps idle_at_def)
  have "next_gap demo_manifest 2 = Some 2"
    by (simp add: next_gap_def demo_manifest_def numeral_2_eq_2)
  moreover have hor: "horizon_segments ?p 180 = 90" "horizon_segments ?p 60 = 30"
    using whole_quotient [of 2 90] whole_quotient [of 2 30]
    by (simp_all add: horizon_segments_def demo_position_def)
  moreover have "reach ?p = Some 2" "over_by (po_working_set ?p) = None" "early_line ?p = None"
    "furthest_frontier [idle_at 1] = 1"
    by (simp_all add: reach_def saturating_add_u32_def over_by_def early_line_def demo_position_def
        furthest_frontier_def idle_at_def)
  ultimately have "decide_ahead demo_manifest (furthest_frontier [idle_at 1]) ?p = Produce 2"
    by (simp add: decide_ahead_def Let_def saturating_add_u32_def)
  then have "decide demo_manifest [idle_at 1] ?p [] = Produce 2"
    using decide_not_owed [OF owed] by simp
  then show ?thesis using ahead_fill_is_bounded [of demo_manifest "[idle_at 1]" ?p "[]" 2] owed by simp
qed

end
