(* ===== verification/ScratchLedger.thy ===== *)
theory ScratchLedger
  imports Prelude
begin

text \<open>
  The scratch accounting authority, \<open>crates/plurxd/src/scratch_ledger.rs\<close>: one entry per
  scratch allocation, every operation one critical section on the whole ledger (the two of
  \<open>authorize_write\<close> are separate definitions). The guards (\<open>ScratchPermit\<close>,
  \<open>ScratchWriter\<close>, \<open>ScratchWrite\<close>, \<open>ScratchPin\<close>) are values naming what they hold;
  dropping one is the operation its \<open>Drop\<close> calls. A \<open>HashMap\<close> is an association list
  with distinct keys, whose order nothing observes. The barrier of an entry, an
  asynchronous wake-up, is not part of the state.
\<close>

section \<open>Data\<close>

datatype scratch_lifecycle = Provisional | Producing | Retiring | Retained | Releasing

fun lifecycle_label :: "scratch_lifecycle \<Rightarrow> string" where
  "lifecycle_label Provisional = ''provisional''"
| "lifecycle_label Producing = ''producing''"
| "lifecycle_label Retiring = ''retiring''"
| "lifecycle_label Retained = ''retained''"
| "lifecycle_label Releasing = ''releasing''"

record scratch_refusal =
  sr_charged :: int
  sr_requested :: int
  sr_configured :: int

record scratch_snapshot =
  ss_generation :: nat
  ss_total :: int
  ss_provisional :: int
  ss_producing :: int
  ss_retiring :: int
  ss_retained :: int
  ss_releasing :: int
  ss_grant_unused :: int
  ss_pinned :: int
  ss_entries :: nat
  ss_writers :: nat

type_synonym scratch_key = nat
type_synonym pin_object = "string \<times> int"   \<comment> \<open>name, bytes\<close>

record pin_group =
  pg_bytes :: int
  pg_readers :: nat
  pg_linked :: bool

record scratch_entry =
  se_lifecycle :: scratch_lifecycle
  se_session_id :: "string option"
  se_attempt :: nat
  se_grant_bytes :: int
  se_used_bytes :: int
  se_pending_bytes :: int
  se_written_bytes :: int
  se_pins :: "(pin_object \<times> pin_group) list"
  se_writers :: nat
  se_next_writer :: nat
  se_live_writers :: "nat list"
  se_inventory_generation :: nat
  se_writers_fenced :: bool
  se_owner_dropped :: bool
  se_conservative_reason :: "string option"
  se_starved_writers :: nat

definition pinned_extra :: "scratch_entry \<Rightarrow> int" where
  "pinned_extra e = sum_sat_i64 (map pg_bytes (filter (\<lambda>g. \<not> pg_linked g) (map snd (se_pins e))))"

definition materialized :: "scratch_entry \<Rightarrow> int" where
  "materialized e =
     saturating_add_i64 (saturating_add_i64 (se_used_bytes e) (se_written_bytes e)) (se_pending_bytes e)"

definition charge :: "scratch_entry \<Rightarrow> int" where
  "charge e = saturating_add_i64 (max (se_grant_bytes e) (materialized e)) (pinned_extra e)"

definition grant_unused :: "scratch_entry \<Rightarrow> int" where
  "grant_unused e = max (wrap_i64 (se_grant_bytes e - materialized e)) 0"

definition releasable :: "scratch_entry \<Rightarrow> bool" where
  "releasable e \<longleftrightarrow> se_writers e = 0 \<and> materialized e = 0 \<and> se_grant_bytes e = 0 \<and> se_pins e = [] \<and>
     (se_owner_dropped e \<or> se_lifecycle e = Releasing)"

record ledger =
  ls_generation :: nat
  ls_next_key :: nat
  ls_entries :: "(scratch_key \<times> scratch_entry) list"
  ls_stale_measurements :: nat

definition ledger_total :: "ledger \<Rightarrow> int" where
  "ledger_total l = sum_sat_i64 (map charge (map snd (ls_entries l)))"

definition touch :: "ledger \<Rightarrow> ledger" where
  "touch l = l\<lparr> ls_generation := wrapping_add_u64 (ls_generation l) 1 \<rparr>"

definition entry_of :: "ledger \<Rightarrow> scratch_key \<Rightarrow> scratch_entry option" where
  "entry_of l key = map_of (ls_entries l) key"

definition set_entry :: "scratch_key \<Rightarrow> scratch_entry \<Rightarrow> ledger \<Rightarrow> ledger" where
  "set_entry key e l = l\<lparr> ls_entries := AList.update key e (ls_entries l) \<rparr>"

definition remove_entry :: "scratch_key \<Rightarrow> ledger \<Rightarrow> ledger" where
  "remove_entry key l = l\<lparr> ls_entries := AList.delete key (ls_entries l) \<rparr>"

text \<open>\<open>if let Some(entry) = state.entries.get_mut(&key) { ... }\<close>\<close>

definition update_entry :: "scratch_key \<Rightarrow> (scratch_entry \<Rightarrow> scratch_entry) \<Rightarrow> ledger \<Rightarrow> ledger" where
  "update_entry key f l = (case entry_of l key of None \<Rightarrow> l | Some e \<Rightarrow> set_entry key (f e) l)"

definition ledger_new :: ledger where
  "ledger_new = \<lparr> ls_generation = 0, ls_next_key = 1, ls_entries = [], ls_stale_measurements = 0 \<rparr>"

section \<open>Admission and writers\<close>

record scratch_permit =
  sp_key :: scratch_key
  sp_bytes :: int

definition add_or_max :: "int \<Rightarrow> int \<Rightarrow> int" where
  "add_or_max a b = (case checked_add_i64 a b of Some s \<Rightarrow> s | None \<Rightarrow> I64_MAX)"

definition fresh_entry :: "int \<Rightarrow> scratch_entry" where
  "fresh_entry grant =
     \<lparr> se_lifecycle = Provisional, se_session_id = None, se_attempt = 0, se_grant_bytes = grant,
       se_used_bytes = 0, se_pending_bytes = 0, se_written_bytes = 0, se_pins = [], se_writers = 0,
       se_next_writer = 1, se_live_writers = [], se_inventory_generation = 1,
       se_writers_fenced = False, se_owner_dropped = False, se_conservative_reason = None,
       se_starved_writers = 0 \<rparr>"

definition reserve :: "int \<Rightarrow> int \<Rightarrow> ledger \<Rightarrow> ledger \<times> (scratch_refusal + scratch_permit)" where
  "reserve grant configured l =
     (let grant = (if configured \<le> 0 then 0 else max grant 0); charged = ledger_total l in
      if 0 < configured \<and> configured < add_or_max charged grant
      then (l, Inl \<lparr> sr_charged = charged, sr_requested = grant, sr_configured = configured \<rparr>)
      else let key = ls_next_key l in
        (touch (set_entry key (fresh_entry grant) (l\<lparr> ls_next_key := saturating_add_u64 key 1 \<rparr>)),
         Inr \<lparr> sp_key = key, sp_bytes = grant \<rparr>))"

definition bind_session :: "scratch_key \<Rightarrow> string \<Rightarrow> nat \<Rightarrow> ledger \<Rightarrow> ledger" where
  "bind_session key session_id attempt l =
     touch (update_entry key (\<lambda>e. e\<lparr> se_session_id := Some session_id, se_attempt := attempt,
        se_lifecycle := (if se_lifecycle e = Provisional then Producing else se_lifecycle e) \<rparr>) l)"

definition register_writer :: "scratch_key \<Rightarrow> ledger \<Rightarrow> ledger \<times> nat option" where
  "register_writer key l =
     (case entry_of l key of None \<Rightarrow> (l, None)
      | Some e \<Rightarrow>
          if se_writers_fenced e then (l, None)
          else let i = se_next_writer e in
            (touch (set_entry key (e\<lparr> se_next_writer := saturating_add_u64 i 1,
               se_writers := se_writers e + 1, se_live_writers := se_live_writers e @ [i],
               se_inventory_generation := saturating_add_u64 (se_inventory_generation e) 1 \<rparr>) l),
             Some i))"

text \<open>\<open>Vec::swap_remove\<close>.\<close>

definition swap_remove :: "nat \<Rightarrow> 'a list \<Rightarrow> 'a list" where
  "swap_remove at xs = (if at = length xs - 1 then butlast xs else butlast (xs[at := last xs]))"

fun index_of :: "'a \<Rightarrow> 'a list \<Rightarrow> nat option" where
  "index_of x [] = None"
| "index_of x (y # ys) = (if y = x then Some 0 else map_option Suc (index_of x ys))"

definition collect :: "scratch_key \<Rightarrow> ledger \<Rightarrow> ledger" where
  "collect key l =
     (case entry_of l key of None \<Rightarrow> l
      | Some e \<Rightarrow> if releasable e then touch (remove_entry key l) else l)"

text \<open>
  Dropping a writer: the section that takes it out, with whether it was the last one, and then,
  under the lock again, the collection it owes.
\<close>

definition finish_section :: "scratch_key \<Rightarrow> nat \<Rightarrow> ledger \<Rightarrow> ledger \<times> bool" where
  "finish_section key i l =
     (case entry_of l key of None \<Rightarrow> (l, False)
      | Some e \<Rightarrow>
         (case index_of i (se_live_writers e) of None \<Rightarrow> (l, False)
          | Some at \<Rightarrow>
              let e' = e\<lparr> se_live_writers := swap_remove at (se_live_writers e),
                          se_writers := se_writers e - 1,
                          se_inventory_generation := saturating_add_u64 (se_inventory_generation e) 1 \<rparr>
              in (touch (set_entry key e' l), se_writers e' = 0)))"

definition finish_writer :: "scratch_key \<Rightarrow> nat \<Rightarrow> ledger \<Rightarrow> ledger" where
  "finish_writer key i l = (case finish_section key i l of (l', settled) \<Rightarrow> if settled then collect key l' else l')"

definition begin_retirement :: "scratch_key \<Rightarrow> ledger \<Rightarrow> ledger \<times> bool option" where
  "begin_retirement key l =
     (case entry_of l key of None \<Rightarrow> (l, None)
      | Some e \<Rightarrow>
          (touch (set_entry key (e\<lparr> se_writers_fenced := True,
             se_lifecycle := (if se_lifecycle e = Provisional \<or> se_lifecycle e = Producing
                              then Retiring else se_lifecycle e) \<rparr>) l),
           Some (se_writers e = 0)))"

definition writers_settled :: "ledger \<Rightarrow> scratch_key \<Rightarrow> bool" where
  "writers_settled l key = (case entry_of l key of None \<Rightarrow> True | Some e \<Rightarrow> se_writers e = 0)"

definition inventory_generation_of :: "ledger \<Rightarrow> scratch_key \<Rightarrow> nat option" where
  "inventory_generation_of l key = map_option se_inventory_generation (entry_of l key)"

section \<open>Measurements\<close>

definition written_of :: "ledger \<Rightarrow> scratch_key \<Rightarrow> int" where
  "written_of l key = (case entry_of l key of None \<Rightarrow> 0 | Some e \<Rightarrow> se_written_bytes e)"

definition observe_walk :: "scratch_key \<Rightarrow> int \<Rightarrow> int \<Rightarrow> ledger \<Rightarrow> ledger" where
  "observe_walk key bytes written_before l =
     touch (update_entry key (\<lambda>e. e\<lparr> se_used_bytes := max bytes 0,
        se_written_bytes :=
          max (saturating_sub_i64 (se_written_bytes e) (max written_before 0)) 0 \<rparr>) l)"

definition observe_unlinked :: "scratch_key \<Rightarrow> int \<Rightarrow> ledger \<Rightarrow> ledger" where
  "observe_unlinked key used l = touch (update_entry key (\<lambda>e. e\<lparr> se_used_bytes := max used 0 \<rparr>) l)"

definition starve :: "scratch_key \<Rightarrow> ledger \<Rightarrow> ledger \<times> bool" where
  "starve key l =
     (case entry_of l key of None \<Rightarrow> (l, False)
      | Some e \<Rightarrow> let n = saturating_add_u64 (se_starved_writers e) 1 in
          (touch (set_entry key (e\<lparr> se_starved_writers := n \<rparr>) l), n = 1))"

definition unstarve :: "scratch_key \<Rightarrow> ledger \<Rightarrow> ledger \<times> bool" where
  "unstarve key l =
     (case entry_of l key of None \<Rightarrow> (l, False)
      | Some e \<Rightarrow> let n = se_starved_writers e - 1 in
          (touch (set_entry key (e\<lparr> se_starved_writers := n \<rparr>) l),
           0 < se_starved_writers e \<and> n = 0))"

definition starved :: "ledger \<Rightarrow> scratch_key \<Rightarrow> bool" where
  "starved l key = (case entry_of l key of None \<Rightarrow> False | Some e \<Rightarrow> 0 < se_starved_writers e)"

definition commit_quiescent_measurement ::
    "scratch_key \<Rightarrow> nat \<Rightarrow> int \<Rightarrow> ledger \<Rightarrow> ledger \<times> bool" where
  "commit_quiescent_measurement key generation bytes l =
     (case entry_of l key of None \<Rightarrow> (l, False)
      | Some e \<Rightarrow>
          if 0 < se_writers e
          then (set_entry key (e\<lparr> se_conservative_reason := Some ''writers_outstanding'' \<rparr>) l, False)
          else if se_inventory_generation e \<noteq> generation
          then ((set_entry key (e\<lparr> se_conservative_reason := Some ''inventory_moved'' \<rparr>) l)
                  \<lparr> ls_stale_measurements := wrapping_add_u64 (ls_stale_measurements l) 1 \<rparr>, False)
          else let measured = max bytes 0 in
            (touch (set_entry key (e\<lparr> se_used_bytes := measured, se_written_bytes := 0,
               se_grant_bytes := measured, se_conservative_reason := None,
               se_lifecycle := (if se_lifecycle e = Retiring then Retained else se_lifecycle e) \<rparr>) l),
             True))"

definition note_conservative :: "scratch_key \<Rightarrow> string \<Rightarrow> ledger \<Rightarrow> ledger" where
  "note_conservative key reason l = update_entry key (\<lambda>e. e\<lparr> se_conservative_reason := Some reason \<rparr>) l"

definition conservative_reason :: "ledger \<Rightarrow> scratch_key \<Rightarrow> string option" where
  "conservative_reason l key =
     (case entry_of l key of None \<Rightarrow> None | Some e \<Rightarrow> se_conservative_reason e)"

section \<open>Growth and writes\<close>

definition projected_total :: "int \<Rightarrow> int \<Rightarrow> int \<Rightarrow> int" where
  "projected_total charged before after = add_or_max (saturating_sub_i64 charged before) after"

definition grow :: "scratch_key \<Rightarrow> int \<Rightarrow> int \<Rightarrow> ledger \<Rightarrow> ledger \<times> int option" where
  "grow key additional configured l =
     (if additional \<le> 0 then (l, map_option se_grant_bytes (entry_of l key))
      else let charged = ledger_total l in
        case entry_of l key of None \<Rightarrow> (l, None)
        | Some e \<Rightarrow>
            if se_writers_fenced e then (l, None)
            else case checked_add_i64 (se_grant_bytes e) additional of
              None \<Rightarrow> (l, None)
            | Some raised \<Rightarrow>
                let after = saturating_add_i64 (max raised (materialized e)) (pinned_extra e) in
                if 0 < configured \<and> configured < projected_total charged (charge e) after
                then (l, None)
                else (touch (set_entry key (e\<lparr> se_grant_bytes := raised \<rparr>) l), Some raised))"

definition regrant :: "scratch_key \<Rightarrow> int \<Rightarrow> int \<Rightarrow> ledger \<Rightarrow> ledger \<times> bool" where
  "regrant key envelope configured l =
     (let charged = ledger_total l in
      case entry_of l key of None \<Rightarrow> (l, False)
      | Some e \<Rightarrow>
          if se_writers_fenced e then (l, False)
          else let wanted = max (saturating_add_i64 (se_used_bytes e) (max envelope 0)) (materialized e);
                   after = saturating_add_i64 (max wanted (materialized e)) (pinned_extra e) in
            if 0 < configured \<and> configured < projected_total charged (charge e) after
            then (l, False)
            else (touch (set_entry key (e\<lparr> se_grant_bytes := wanted \<rparr>) l), True))"

text \<open>A \<open>ScratchWrite\<close>: its key and the bytes it reserved.\<close>

record scratch_write =
  sw_key :: scratch_key
  sw_bytes :: int

definition hold_pending :: "int \<Rightarrow> scratch_entry \<Rightarrow> scratch_entry" where
  "hold_pending bytes e = e\<lparr> se_pending_bytes := saturating_add_i64 (se_pending_bytes e) bytes \<rparr>"

text \<open>The first critical section of \<open>authorize_write\<close>: refused, granted, or a shortfall.\<close>

datatype first_answer = Refused | Granted scratch_write | Shortfall int

definition authorize_first :: "scratch_key \<Rightarrow> int \<Rightarrow> ledger \<Rightarrow> ledger \<times> first_answer" where
  "authorize_first key bytes l =
     (case entry_of l key of None \<Rightarrow> (l, Refused)
      | Some e \<Rightarrow>
          if se_writers_fenced e then (l, Refused)
          else if bytes \<le> grant_unused e
               then (touch (set_entry key (hold_pending bytes e) l),
                     Granted \<lparr> sw_key = key, sw_bytes = bytes \<rparr>)
          else (l, Shortfall (saturating_sub_i64 bytes (grant_unused e))))"

text \<open>The last one, after the growth.\<close>

definition authorize_last :: "scratch_key \<Rightarrow> int \<Rightarrow> ledger \<Rightarrow> ledger \<times> scratch_write option" where
  "authorize_last key bytes l =
     (case entry_of l key of None \<Rightarrow> (l, None)
      | Some e \<Rightarrow>
          if se_writers_fenced e \<or> grant_unused e < bytes then (l, None)
          else (touch (set_entry key (hold_pending bytes e) l),
                Some \<lparr> sw_key = key, sw_bytes = bytes \<rparr>))"

definition authorize_write ::
    "scratch_key \<Rightarrow> int \<Rightarrow> int \<Rightarrow> int \<Rightarrow> ledger \<Rightarrow> ledger \<times> scratch_write option" where
  "authorize_write key bytes configured headroom l =
     (let bytes = max bytes 0 in
      case authorize_first key bytes l of
        (l1, Refused) \<Rightarrow> (l1, None)
      | (l1, Granted w) \<Rightarrow> (l1, Some w)
      | (l1, Shortfall shortfall) \<Rightarrow>
          (case grow key (saturating_add_i64 shortfall (max headroom 0)) configured l1 of
             (l2, None) \<Rightarrow> (l2, None)
           | (l2, Some granted) \<Rightarrow> authorize_last key bytes l2))"

definition settle_write :: "scratch_key \<Rightarrow> int \<Rightarrow> int \<Rightarrow> ledger \<Rightarrow> ledger" where
  "settle_write key bytes written l =
     touch (update_entry key (\<lambda>e. e\<lparr>
        se_pending_bytes := max (wrap_i64 (se_pending_bytes e - bytes)) 0,
        se_written_bytes := saturating_add_i64 (se_written_bytes e) (max written 0) \<rparr>) l)"

definition landed :: "scratch_write \<Rightarrow> int \<Rightarrow> ledger \<Rightarrow> ledger" where
  "landed w written l = settle_write (sw_key w) (sw_bytes w) written l"

definition drop_write :: "scratch_write \<Rightarrow> ledger \<Rightarrow> ledger" where
  "drop_write w l = settle_write (sw_key w) (sw_bytes w) 0 l"

definition retirement_fenced :: "ledger \<Rightarrow> scratch_key \<Rightarrow> bool" where
  "retirement_fenced l key = (case entry_of l key of None \<Rightarrow> False | Some e \<Rightarrow> se_writers_fenced e)"

definition writers_fenced :: "ledger \<Rightarrow> scratch_key \<Rightarrow> bool" where
  "writers_fenced l key = (case entry_of l key of None \<Rightarrow> True | Some e \<Rightarrow> se_writers_fenced e)"

section \<open>Pins and release\<close>

record scratch_pin =
  pn_key :: scratch_key
  pn_object :: pin_object

definition acquire_pin :: "scratch_key \<Rightarrow> string \<Rightarrow> int \<Rightarrow> ledger \<Rightarrow> ledger \<times> scratch_pin option" where
  "acquire_pin key name bytes l =
     (if bytes < 0 then (l, None)
      else case entry_of l key of None \<Rightarrow> (l, None)
      | Some e \<Rightarrow>
          let object = (name, bytes);
              group = (case map_of (se_pins e) object of
                         Some g \<Rightarrow> g
                       | None \<Rightarrow> \<lparr> pg_bytes = bytes, pg_readers = 0,
                                  pg_linked = (se_lifecycle e \<noteq> Releasing) \<rparr>)
          in (touch (set_entry key (e\<lparr> se_pins := AList.update object
                (group\<lparr> pg_readers := pg_readers group + 1 \<rparr>) (se_pins e) \<rparr>) l),
              Some \<lparr> pn_key = key, pn_object = object \<rparr>))"

definition unpin_section :: "scratch_key \<Rightarrow> pin_object \<Rightarrow> ledger \<Rightarrow> ledger \<times> bool" where
  "unpin_section key object l =
     (case entry_of l key of None \<Rightarrow> (l, False)
      | Some e \<Rightarrow>
          let pins = (case map_of (se_pins e) object of
                        None \<Rightarrow> se_pins e
                      | Some g \<Rightarrow>
                          let g' = g\<lparr> pg_readers := pg_readers g - 1 \<rparr> in
                          if pg_readers g' = 0 then AList.delete object (se_pins e)
                          else AList.update object g' (se_pins e))
          in (touch (set_entry key (e\<lparr> se_pins := pins \<rparr>) l), True))"

definition release_pin :: "scratch_key \<Rightarrow> pin_object \<Rightarrow> ledger \<Rightarrow> ledger" where
  "release_pin key object l = (case unpin_section key object l of (l', found) \<Rightarrow> if found then collect key l' else l')"

definition unlink_section :: "scratch_key \<Rightarrow> ledger \<Rightarrow> ledger" where
  "unlink_section key l =
     touch (update_entry key (\<lambda>e. e\<lparr>
        se_pins := map (\<lambda>(object, g). (object, g\<lparr> pg_linked := False \<rparr>))
                     (filter (\<lambda>(object, g). 0 < pg_readers g) (se_pins e)),
        se_used_bytes := 0, se_written_bytes := 0, se_grant_bytes := 0,
        se_lifecycle := Releasing \<rparr>) l)"

definition account_unlink_all :: "scratch_key \<Rightarrow> ledger \<Rightarrow> ledger" where
  "account_unlink_all key l = collect key (unlink_section key l)"

definition begin_release :: "scratch_key \<Rightarrow> ledger \<Rightarrow> ledger" where
  "begin_release key l =
     touch (update_entry key (\<lambda>e. e\<lparr> se_writers_fenced := True, se_lifecycle := Releasing \<rparr>) l)"

text \<open>Dropping the permit.\<close>

definition abandon_section :: "scratch_key \<Rightarrow> ledger \<Rightarrow> ledger \<times> bool" where
  "abandon_section key l =
     (case entry_of l key of None \<Rightarrow> (l, False)
      | Some e \<Rightarrow>
          (touch
            (if se_lifecycle e = Provisional \<and> se_writers e = 0 \<and> se_pins e = []
             then remove_entry key l
             else set_entry key (e\<lparr> se_owner_dropped := True \<rparr>) l), True))"

definition abandon :: "scratch_key \<Rightarrow> ledger \<Rightarrow> ledger" where
  "abandon key l = (case abandon_section key l of (l', found) \<Rightarrow> if found then collect key l' else l')"

section \<open>Reads\<close>

definition snapshot_add :: "scratch_snapshot \<Rightarrow> scratch_entry \<Rightarrow> scratch_snapshot" where
  "snapshot_add out e =
     (let c = charge e;
          out = out\<lparr> ss_total := saturating_add_i64 (ss_total out) c,
                     ss_grant_unused := saturating_add_i64 (ss_grant_unused out) (grant_unused e),
                     ss_pinned := saturating_add_i64 (ss_pinned out) (pinned_extra e),
                     ss_writers := saturating_add_u64 (ss_writers out) (se_writers e) \<rparr>
      in case se_lifecycle e of
           Provisional \<Rightarrow> out\<lparr> ss_provisional := saturating_add_i64 (ss_provisional out) c \<rparr>
         | Producing \<Rightarrow> out\<lparr> ss_producing := saturating_add_i64 (ss_producing out) c \<rparr>
         | Retiring \<Rightarrow> out\<lparr> ss_retiring := saturating_add_i64 (ss_retiring out) c \<rparr>
         | Retained \<Rightarrow> out\<lparr> ss_retained := saturating_add_i64 (ss_retained out) c \<rparr>
         | Releasing \<Rightarrow> out\<lparr> ss_releasing := saturating_add_i64 (ss_releasing out) c \<rparr>)"

definition ledger_snapshot :: "ledger \<Rightarrow> scratch_snapshot" where
  "ledger_snapshot l =
     foldl snapshot_add
       \<lparr> ss_generation = ls_generation l, ss_total = 0, ss_provisional = 0, ss_producing = 0,
         ss_retiring = 0, ss_retained = 0, ss_releasing = 0, ss_grant_unused = 0, ss_pinned = 0,
         ss_entries = length (ls_entries l), ss_writers = 0 \<rparr>
       (map snd (ls_entries l))"

definition grant_exhausted :: "ledger \<Rightarrow> scratch_key \<Rightarrow> bool" where
  "grant_exhausted l key =
     (case entry_of l key of None \<Rightarrow> False | Some e \<Rightarrow> se_grant_bytes e \<le> materialized e)"

definition grant_of :: "ledger \<Rightarrow> scratch_key \<Rightarrow> int option" where
  "grant_of l key = map_option se_grant_bytes (entry_of l key)"

definition lifecycle_of :: "ledger \<Rightarrow> scratch_key \<Rightarrow> scratch_lifecycle option" where
  "lifecycle_of l key = map_option se_lifecycle (entry_of l key)"

section \<open>Well-formed entries\<close>

definition pins_ok :: "(pin_object \<times> pin_group) list \<Rightarrow> bool" where
  "pins_ok pins \<longleftrightarrow> distinct (map fst pins) \<and> (\<forall>(object, g) \<in> set pins. 0 \<le> pg_bytes g)"

definition entry_ok :: "scratch_entry \<Rightarrow> bool" where
  "entry_ok e \<longleftrightarrow> 0 \<le> se_grant_bytes e \<and> se_grant_bytes e \<le> I64_MAX \<and>
     0 \<le> se_used_bytes e \<and> se_used_bytes e \<le> I64_MAX \<and>
     0 \<le> se_pending_bytes e \<and> se_pending_bytes e \<le> I64_MAX \<and>
     0 \<le> se_written_bytes e \<and> se_written_bytes e \<le> I64_MAX \<and> pins_ok (se_pins e)"

definition ledger_ok :: "ledger \<Rightarrow> bool" where
  "ledger_ok l \<longleftrightarrow> distinct (map fst (ls_entries l)) \<and> (\<forall>(k, e) \<in> set (ls_entries l). entry_ok e) \<and>
     (\<forall>(k, e) \<in> set (ls_entries l). k < ls_next_key l)"

lemma sat_add_nonneg:
  "0 \<le> a \<Longrightarrow> 0 \<le> b \<Longrightarrow> saturating_add_i64 a b = min I64_MAX (a + b)"
  by (simp add: saturating_add_i64_def sat_i64_def)

lemma pinned_extra_bounds: "pins_ok (se_pins e) \<Longrightarrow> 0 \<le> pinned_extra e \<and> pinned_extra e \<le> I64_MAX"
proof -
  assume "pins_ok (se_pins e)"
  then have nn: "\<forall>x \<in> set (map pg_bytes (filter (\<lambda>g. \<not> pg_linked g) (map snd (se_pins e)))). 0 \<le> x"
    by (auto simp: pins_ok_def)
  show ?thesis unfolding pinned_extra_def sum_sat_i64_def
    using foldl_saturating [of 0, OF _ _ nn] sum_list_nonneg [of "map pg_bytes (filter (\<lambda>g. \<not> pg_linked g) (map snd (se_pins e)))"] nn
    by auto
qed

lemma materialized_eq:
  "entry_ok e \<Longrightarrow> materialized e =
     min I64_MAX (se_used_bytes e + se_written_bytes e + se_pending_bytes e)"
  by (auto simp: entry_ok_def materialized_def sat_add_nonneg min_def)

lemma materialized_bounds: "entry_ok e \<Longrightarrow> 0 \<le> materialized e \<and> materialized e \<le> I64_MAX"
  by (simp add: materialized_eq) (simp add: entry_ok_def)

lemma charge_eq:
  "entry_ok e \<Longrightarrow> charge e = min I64_MAX (max (se_grant_bytes e) (materialized e) + pinned_extra e)"
  using materialized_bounds [of e] pinned_extra_bounds [of e]
  by (auto simp: charge_def entry_ok_def sat_add_nonneg)

lemma charge_bounds: "entry_ok e \<Longrightarrow> 0 \<le> charge e \<and> charge e \<le> I64_MAX"
  using materialized_bounds [of e] pinned_extra_bounds [of e] unfolding charge_eq
  by (simp add: charge_eq entry_ok_def max_def)

lemma grant_unused_eq: "entry_ok e \<Longrightarrow> grant_unused e = max (se_grant_bytes e - materialized e) 0"
  using materialized_bounds [of e] by (simp add: grant_unused_def entry_ok_def)

interpretation charges: nonneg_charge entry_ok charge
  by unfold_locales (simp add: charge_bounds)

interpretation unused_grants: nonneg_charge entry_ok grant_unused
  by unfold_locales (simp add: grant_unused_eq)

interpretation pinned: nonneg_charge entry_ok pinned_extra
  by unfold_locales (simp add: entry_ok_def pinned_extra_bounds)

lemma ledger_total_eq: "ledger_ok l \<Longrightarrow> ledger_total l = min I64_MAX (weight charge (ls_entries l))"
  unfolding ledger_total_def by (rule charges.saturating_total) (simp add: ledger_ok_def)

lemma entry_of_ok: "ledger_ok l \<Longrightarrow> entry_of l k = Some e \<Longrightarrow> entry_ok e \<and> k < ls_next_key l"
  by (auto simp: ledger_ok_def entry_of_def dest!: map_of_SomeD)

lemma entry_of_set [simp]:
  "entry_of (set_entry k e l) k' = (if k' = k then Some e else entry_of l k')"
  by (simp add: entry_of_def set_entry_def update_conv')

lemma entry_of_remove [simp]:
  "entry_of (remove_entry k l) k' = (if k' = k then None else entry_of l k')"
  by (simp add: entry_of_def remove_entry_def delete_conv')

lemma entry_of_touch [simp]: "entry_of (touch l) k = entry_of l k"
  by (simp add: entry_of_def touch_def)

lemma touch_simps [simp]:
  "ls_entries (touch l) = ls_entries l" "ls_next_key (touch l) = ls_next_key l"
  "ledger_ok (touch l) = ledger_ok l" "ledger_total (touch l) = ledger_total l"
  by (simp_all add: touch_def ledger_ok_def ledger_total_def)

lemma set_entry_next:
  "ls_entries (set_entry k e (l\<lparr> ls_next_key := n \<rparr>)) = ls_entries (set_entry k e l)"
  by (simp add: set_entry_def)

lemma ledger_ok_set:
  "ledger_ok l \<Longrightarrow> entry_ok e \<Longrightarrow> k < ls_next_key l \<Longrightarrow> ledger_ok (set_entry k e l)"
  using set_update_subset [of k e "ls_entries l"]
  by (auto simp: ledger_ok_def set_entry_def distinct_update_keys)

lemma ledger_ok_remove: "ledger_ok l \<Longrightarrow> ledger_ok (remove_entry k l)"
  using set_delete_subset [of k "ls_entries l"]
  by (auto simp: ledger_ok_def remove_entry_def distinct_delete_keys)

text \<open>The exact total after one entry changes.\<close>

lemma weight_set_entry:
  "entry_of l k = Some e \<Longrightarrow>
   weight charge (ls_entries (set_entry k e' l)) = weight charge (ls_entries l) - charge e + charge e'"
  by (simp add: set_entry_def entry_of_def weight_update_Some)

lemma weight_new_entry:
  "entry_of l k = None \<Longrightarrow>
   weight charge (ls_entries (set_entry k e' l)) = weight charge (ls_entries l) + charge e'"
  by (simp add: set_entry_def entry_of_def weight_update_None)

section \<open>The budget\<close>

lemma fresh_key: "ledger_ok l \<Longrightarrow> entry_of l (ls_next_key l) = None"
  using entry_of_ok [of l "ls_next_key l"] by (cases "entry_of l (ls_next_key l)") auto

lemma entry_ok_fresh: "0 \<le> g \<Longrightarrow> g \<le> I64_MAX \<Longrightarrow> entry_ok (fresh_entry g)"
  by (simp add: entry_ok_def fresh_entry_def pins_ok_def)

lemma charge_fresh: "0 \<le> g \<Longrightarrow> g \<le> I64_MAX \<Longrightarrow> charge (fresh_entry g) = g"
  by (simp add: charge_def fresh_entry_def materialized_def pinned_extra_def sum_sat_i64_def
      saturating_add_i64_def)

lemma total_bounds: "ledger_ok l \<Longrightarrow> 0 \<le> ledger_total l \<and> ledger_total l \<le> I64_MAX"
  using charges.weight_nonneg [of "ls_entries l"] by (simp add: ledger_total_eq ledger_ok_def)

lemma add_or_max_eq: "0 \<le> a \<Longrightarrow> 0 \<le> b \<Longrightarrow> add_or_max a b = min I64_MAX (a + b)"
  by (auto simp: add_or_max_def checked_add_i64_def)

lemma total_new_entry:
  assumes ok: "ledger_ok l" and none: "entry_of l k = None" and e: "entry_ok e"
  shows "sum_sat_i64 (map charge (map snd (ls_entries (set_entry k e l)))) = min I64_MAX (ledger_total l + charge e)"
proof -
  have all: "\<forall>(k, e) \<in> set (ls_entries (set_entry k e l)). entry_ok e"
    using ok e set_update_subset [of k e "ls_entries l"] by (auto simp: ledger_ok_def set_entry_def)
  show ?thesis
    unfolding charges.saturating_total [OF all] weight_new_entry [OF none] ledger_total_eq [OF ok]
    using charge_bounds [OF e] by (simp add: min_def)
qed

text \<open>Replacing an entry while the ledger is not saturated.\<close>

lemma total_set_entry:
  assumes ok: "ledger_ok l" and e: "entry_of l k = Some e" and e': "entry_ok e'"
    and sat: "ledger_total l < I64_MAX"
  shows "ledger_total (set_entry k e' l) = min I64_MAX (ledger_total l - charge e + charge e')"
    and "charge e \<le> ledger_total l"
proof -
  have ok': "ledger_ok (set_entry k e' l)" using ledger_ok_set [OF ok e'] entry_of_ok [OF ok e] by simp
  have w: "weight charge (ls_entries l) = ledger_total l" using ledger_total_eq [OF ok] sat by simp
  show "ledger_total (set_entry k e' l) = min I64_MAX (ledger_total l - charge e + charge e')"
    unfolding ledger_total_eq [OF ok'] weight_set_entry [OF e] w ..
  have "charge e \<le> weight charge (ls_entries l)"
    using charges.weight_ge [of "ls_entries l" k e] ok e by (simp add: ledger_ok_def entry_of_def)
  then show "charge e \<le> ledger_total l" using w by simp
qed

lemma projected_total_eq:
  assumes "ledger_ok l" and "entry_of l k = Some e" and "entry_ok e'" and "ledger_total l < I64_MAX"
  shows "projected_total (ledger_total l) (charge e) (charge e') = ledger_total (set_entry k e' l)"
proof -
  have b: "0 \<le> charge e'" "0 \<le> charge e" "charge e \<le> ledger_total l"
    using charge_bounds [OF assms(3)] entry_of_ok [OF assms(1,2)] charge_bounds [of e]
      total_set_entry(2) [OF assms] by auto
  have "saturating_sub_i64 (ledger_total l) (charge e) = ledger_total l - charge e"
    using b assms(4) by (simp add: saturating_sub_i64_def)
  then show ?thesis
    unfolding projected_total_def total_set_entry(1) [OF assms] using b by (simp add: add_or_max_eq)
qed

lemma entry_ok_grant:
  "entry_ok e \<Longrightarrow> 0 \<le> g \<Longrightarrow> g \<le> I64_MAX \<Longrightarrow> entry_ok (e\<lparr> se_grant_bytes := g \<rparr>)"
  by (simp add: entry_ok_def)

lemma grant_frame [simp]:
  "materialized (e\<lparr> se_grant_bytes := g \<rparr>) = materialized e"
  "pinned_extra (e\<lparr> se_grant_bytes := g \<rparr>) = pinned_extra e"
  by (simp_all add: materialized_def pinned_extra_def)

lemma charge_grant:
  "charge (e\<lparr> se_grant_bytes := g \<rparr>) = saturating_add_i64 (max g (materialized e)) (pinned_extra e)"
  by (simp add: charge_def)

lemma grow_cases:
  assumes ok: "ledger_ok l" and sat: "ledger_total l < I64_MAX" and pos: "0 < additional"
  shows "grow k additional configured l = (l, None) \<or>
    (\<exists>e. entry_of l k = Some e \<and> \<not> se_writers_fenced e \<and> se_grant_bytes e + additional \<le> I64_MAX \<and>
       grow k additional configured l =
         (touch (set_entry k (e\<lparr> se_grant_bytes := se_grant_bytes e + additional \<rparr>) l),
          Some (se_grant_bytes e + additional)) \<and>
       (0 < configured \<longrightarrow>
          ledger_total (set_entry k (e\<lparr> se_grant_bytes := se_grant_bytes e + additional \<rparr>) l) \<le> configured))"
proof (cases "entry_of l k")
  case None
  then show ?thesis using pos by (simp add: grow_def Let_def)
next
  case (Some e)
  have eok: "entry_ok e" using entry_of_ok [OF ok Some] by simp
  show ?thesis
  proof (cases "\<not> se_writers_fenced e \<and> se_grant_bytes e + additional \<le> I64_MAX")
    case False
    then show ?thesis using Some pos eok
      by (auto simp: grow_def Let_def checked_add_i64_def entry_ok_def)
  next
    case True
    let ?g = "se_grant_bytes e + additional"
    have chk: "checked_add_i64 (se_grant_bytes e) additional = Some ?g"
      using True eok pos by (simp add: checked_add_i64_def entry_ok_def)
    have eok': "entry_ok (e\<lparr> se_grant_bytes := ?g \<rparr>)"
      using entry_ok_grant [OF eok] True pos eok by (simp add: entry_ok_def)
    note proj = projected_total_eq [OF ok Some eok' sat, unfolded charge_grant]
    show ?thesis
      using Some True pos unfolding grow_def Let_def by (simp add: chk proj not_less)
  qed
qed

lemma regrant_cases:
  assumes ok: "ledger_ok l" and sat: "ledger_total l < I64_MAX"
  shows "regrant k envelope configured l = (l, False) \<or>
    (\<exists>e g. entry_of l k = Some e \<and> \<not> se_writers_fenced e \<and>
       g = max (saturating_add_i64 (se_used_bytes e) (max envelope 0)) (materialized e) \<and>
       regrant k envelope configured l = (touch (set_entry k (e\<lparr> se_grant_bytes := g \<rparr>) l), True) \<and>
       entry_ok (e\<lparr> se_grant_bytes := g \<rparr>) \<and>
       (0 < configured \<longrightarrow> ledger_total (set_entry k (e\<lparr> se_grant_bytes := g \<rparr>) l) \<le> configured))"
proof (cases "entry_of l k")
  case None
  then show ?thesis by (simp add: regrant_def Let_def)
next
  case (Some e)
  have eok: "entry_ok e" using entry_of_ok [OF ok Some] by simp
  define g where "g = max (saturating_add_i64 (se_used_bytes e) (max envelope 0)) (materialized e)"
  have "0 \<le> g" "g \<le> I64_MAX"
    using materialized_bounds [OF eok] by (auto simp: g_def saturating_add_i64_def sat_i64_bounds)
  then have eok': "entry_ok (e\<lparr> se_grant_bytes := g \<rparr>)" using entry_ok_grant [OF eok] by simp
  note proj = projected_total_eq [OF ok Some eok' sat, unfolded charge_grant]
  show ?thesis
    using Some eok' unfolding regrant_def Let_def by (simp add: proj not_less flip: g_def)
qed

lemma materialized_hold:
  "entry_ok e \<Longrightarrow> 0 \<le> b \<Longrightarrow> b \<le> grant_unused e \<Longrightarrow> se_grant_bytes e \<ge> materialized e \<Longrightarrow>
   materialized (hold_pending b e) = materialized e + b \<and> entry_ok (hold_pending b e) \<and>
   se_pending_bytes (hold_pending b e) = se_pending_bytes e + b"
proof -
  assume e: "entry_ok e" and b: "0 \<le> b" "b \<le> grant_unused e" and g: "materialized e \<le> se_grant_bytes e"
  have room: "materialized e + b \<le> se_grant_bytes e" using b g by (simp add: grant_unused_eq [OF e])
  have mx: "se_grant_bytes e \<le> I64_MAX" using e by (simp add: entry_ok_def)
  have pm: "se_used_bytes e + se_written_bytes e + se_pending_bytes e = materialized e \<or> b = 0"
    using room mx b materialized_eq [OF e] by (auto simp: min_def split: if_splits)
  show ?thesis
  proof (cases "b = 0")
    case True
    have "hold_pending 0 e = e" using e by (simp add: hold_pending_def saturating_add_i64_def entry_ok_def)
    then show ?thesis using True e by simp
  next
    case False
    have sum: "se_used_bytes e + se_written_bytes e + se_pending_bytes e = materialized e" using pm False by simp
    have nn: "0 \<le> se_used_bytes e" "0 \<le> se_written_bytes e" "0 \<le> se_pending_bytes e"
      using e by (auto simp: entry_ok_def)
    have p: "se_pending_bytes (hold_pending b e) = se_pending_bytes e + b"
      using nn b sum room mx by (simp add: hold_pending_def saturating_add_i64_def)
    moreover have ok: "entry_ok (hold_pending b e)"
      using e p b nn sum room mx by (simp add: entry_ok_def hold_pending_def)
    moreover have "materialized (hold_pending b e) = materialized e + b"
      unfolding materialized_eq [OF ok] using p sum room mx by (simp add: hold_pending_def)
    ultimately show ?thesis by simp
  qed
qed

text \<open>Holding bytes inside the grant leaves the charge alone.\<close>

lemma charge_hold:
  assumes e: "entry_ok e" and b: "0 \<le> b" "b \<le> grant_unused e" and g: "materialized e \<le> se_grant_bytes e"
  shows "charge (hold_pending b e) = charge e"
proof -
  have m: "materialized (hold_pending b e) = materialized e + b" using materialized_hold [OF e b g] by simp
  have "materialized e + b \<le> se_grant_bytes e" using b g by (simp add: grant_unused_eq [OF e])
  then have "max (se_grant_bytes e) (materialized e + b) = max (se_grant_bytes e) (materialized e)"
    using g by simp
  moreover have "se_grant_bytes (hold_pending b e) = se_grant_bytes e"
    "pinned_extra (hold_pending b e) = pinned_extra e"
    by (simp_all add: hold_pending_def pinned_extra_def)
  ultimately show ?thesis unfolding charge_def m by simp
qed

text \<open>When the first section answers with a grant or a shortfall.\<close>

lemma unused_within: "entry_ok e \<Longrightarrow> b \<le> grant_unused e \<Longrightarrow> 0 < b \<Longrightarrow> materialized e + b \<le> se_grant_bytes e"
  by (simp add: grant_unused_eq max_def split: if_splits)

lemma set_entry_twice [simp]: "set_entry k e (set_entry k e' l) = set_entry k e l"
  by (simp add: set_entry_def)

lemma set_entry_touch: "set_entry k e (touch l) = touch (set_entry k e l)"
  by (simp add: set_entry_def touch_def)

text \<open>
  What one authorization of a positive write may do, in a single-threaded ledger: refuse
  and change nothing; grant inside the current allowance; raise the grant and then hold;
  or, when the entry had overrun its grant, raise the grant and refuse.
\<close>

lemma authorize_write_cases:
  assumes ok: "ledger_ok l" and sat: "ledger_total l < I64_MAX" and b: "0 < b" "b \<le> I64_MAX"
    and res: "authorize_write k b configured h l = (l', r)"
  shows "(r = None \<and> l' = l) \<or>
    (\<exists>e. entry_of l k = Some e \<and> \<not> se_writers_fenced e \<and> b \<le> grant_unused e \<and>
       r = Some \<lparr> sw_key = k, sw_bytes = b \<rparr> \<and> l' = touch (set_entry k (hold_pending b e) l)) \<or>
    (\<exists>e g. entry_of l k = Some e \<and> \<not> se_writers_fenced e \<and> grant_unused e < b \<and>
       se_grant_bytes e \<le> g \<and> g \<le> I64_MAX \<and>
       (0 < configured \<longrightarrow> ledger_total (set_entry k (e\<lparr> se_grant_bytes := g \<rparr>) l) \<le> configured) \<and>
       (if b \<le> grant_unused (e\<lparr> se_grant_bytes := g \<rparr>)
        then r = Some \<lparr> sw_key = k, sw_bytes = b \<rparr> \<and>
          l' = touch (touch (set_entry k (hold_pending b (e\<lparr> se_grant_bytes := g \<rparr>)) l))
        else r = None \<and> l' = touch (set_entry k (e\<lparr> se_grant_bytes := g \<rparr>) l) \<and>
          se_grant_bytes e < materialized e))"
proof (cases "entry_of l k")
  case None
  then show ?thesis using res b by (simp add: authorize_write_def authorize_first_def Let_def)
next
  case (Some e)
  have eok: "entry_ok e" using entry_of_ok [OF ok Some] by simp
  show ?thesis
  proof (cases "se_writers_fenced e \<or> b \<le> grant_unused e")
    case True
    show ?thesis
    proof (cases "se_writers_fenced e")
      case True
      then show ?thesis using res b Some by (simp add: authorize_write_def authorize_first_def Let_def)
    next
      case False
      then show ?thesis using True res b Some
        by (simp add: authorize_write_def authorize_first_def Let_def)
    qed
  next
    case False
    let ?a = "saturating_add_i64 (saturating_sub_i64 b (grant_unused e)) (max h 0)"
    have gu: "0 \<le> grant_unused e" "grant_unused e \<le> I64_MAX"
      using materialized_bounds [OF eok] eok by (auto simp: grant_unused_eq [OF eok] entry_ok_def)
    have apos: "0 < ?a"
      using False gu by (auto simp: saturating_sub_i64_def saturating_add_i64_def sat_i64_def min_def max_def)
    have split: "authorize_write k b configured h l =
        (case grow k ?a configured l of (l2, None) \<Rightarrow> (l2, None) | (l2, Some g) \<Rightarrow> authorize_last k b l2)"
      using False b Some by (simp add: authorize_write_def authorize_first_def Let_def)
    from grow_cases [OF ok sat apos, of k configured] show ?thesis
    proof
      assume "grow k ?a configured l = (l, None)"
      then show ?thesis using res split by simp
    next
      assume "\<exists>e. entry_of l k = Some e \<and> \<not> se_writers_fenced e \<and> se_grant_bytes e + ?a \<le> I64_MAX \<and>
        grow k ?a configured l = (touch (set_entry k (e\<lparr> se_grant_bytes := se_grant_bytes e + ?a \<rparr>) l),
          Some (se_grant_bytes e + ?a)) \<and>
        (0 < configured \<longrightarrow>
          ledger_total (set_entry k (e\<lparr> se_grant_bytes := se_grant_bytes e + ?a \<rparr>) l) \<le> configured)"
      then have g: "se_grant_bytes e + ?a \<le> I64_MAX"
        "grow k ?a configured l = (touch (set_entry k (e\<lparr> se_grant_bytes := se_grant_bytes e + ?a \<rparr>) l),
          Some (se_grant_bytes e + ?a))"
        "0 < configured \<longrightarrow>
          ledger_total (set_entry k (e\<lparr> se_grant_bytes := se_grant_bytes e + ?a \<rparr>) l) \<le> configured"
        using Some by auto
      let ?g = "se_grant_bytes e + ?a" let ?e = "e\<lparr> se_grant_bytes := ?g \<rparr>"
      have eok': "entry_ok ?e" using entry_ok_grant [OF eok] g(1) apos eok by (simp add: entry_ok_def)
      have last: "authorize_write k b configured h l =
          (if grant_unused ?e < b then (touch (set_entry k ?e l), None)
           else (touch (set_entry k (hold_pending b ?e) (touch (set_entry k ?e l))),
                 Some \<lparr> sw_key = k, sw_bytes = b \<rparr>))"
        unfolding split g(2) using False by (simp add: authorize_last_def)
      have over: "se_grant_bytes e < materialized e" if short: "grant_unused ?e < b"
      proof (rule ccontr)
        assume "\<not> se_grant_bytes e < materialized e"
        then have gu': "grant_unused e = se_grant_bytes e - materialized e" by (simp add: grant_unused_eq [OF eok])
        have small: "b - grant_unused e \<le> ?a"
          using False gu b by (simp add: saturating_sub_i64_def saturating_add_i64_def sat_i64_def)
        then have "b \<le> ?g - materialized e" using gu' by linarith
        then show False using short grant_unused_eq [OF eok'] by simp
      qed
      have "?thesis" if "\<not> grant_unused ?e < b"
        using res that Some False g(1,3) apos unfolding last
        by (intro disjI2 exI [of _ e] exI [of _ ?g]) (auto simp: set_entry_touch)
      moreover have "?thesis" if "grant_unused ?e < b"
        using res that Some False g(1,3) apos over unfolding last
        by (intro disjI2 exI [of _ e] exI [of _ ?g]) auto
      ultimately show ?thesis by blast
    qed
  qed
qed

text \<open>C17: Admission is one linearization point: a refusal changes nothing and quotes the exact
  figures that do not fit, and a grant is a fresh allocation that raises the total by
  exactly its bytes and leaves it within the configured ceiling.\<close>

theorem reserve_within_budget:
  assumes "ledger_ok l" and "grant \<le> I64_MAX" and "configured \<le> I64_MAX"
  shows "case reserve grant configured l of
      (l', Inl r) \<Rightarrow> l' = l \<and> 0 < configured \<and>
        r = \<lparr> sr_charged = ledger_total l, sr_requested = max grant 0, sr_configured = configured \<rparr> \<and>
        configured < ledger_total l + max grant 0
    | (l', Inr p) \<Rightarrow>
        entry_of l (sp_key p) = None \<and> grant_of l' (sp_key p) = Some (sp_bytes p) \<and>
        sp_bytes p = (if configured \<le> 0 then 0 else max grant 0) \<and>
        ledger_total l' = min I64_MAX (ledger_total l + sp_bytes p) \<and>
        \<not> (0 < configured \<and> configured < ledger_total l')"
proof -
  define g where "g = (if configured \<le> 0 then 0 else max grant 0)"
  have g: "0 \<le> g" "g \<le> I64_MAX" using assms(2) by (auto simp: g_def)
  let ?l = "l\<lparr> ls_next_key := saturating_add_u64 (ls_next_key l) 1 \<rparr>"
  have tot: "ledger_total (set_entry (ls_next_key l) (fresh_entry g) ?l) = min I64_MAX (ledger_total l + g)"
    using total_new_entry [OF assms(1) fresh_key [OF assms(1)] entry_ok_fresh [OF g]]
    unfolding ledger_total_def set_entry_next charge_fresh [OF g] .
  have proj: "add_or_max (ledger_total l) g = min I64_MAX (ledger_total l + g)"
    using add_or_max_eq g total_bounds [OF assms(1)] by simp
  show ?thesis
  proof (cases "0 < configured \<and> configured < add_or_max (ledger_total l) g")
    case True
    then have "reserve grant configured l = (l, Inl \<lparr> sr_charged = ledger_total l, sr_requested = g,
        sr_configured = configured \<rparr>)"
      unfolding reserve_def Let_def g_def [symmetric] by simp
    moreover have "g = max grant 0" using True by (simp add: g_def)
    ultimately show ?thesis using True proj by simp
  next
    case False
    then have "reserve grant configured l =
        (touch (set_entry (ls_next_key l) (fresh_entry g) ?l), Inr \<lparr> sp_key = ls_next_key l, sp_bytes = g \<rparr>)"
      unfolding reserve_def Let_def g_def [symmetric] by simp
    then show ?thesis
      using False proj tot fresh_key [OF assms(1)] unfolding g_def [symmetric]
      by (simp add: grant_of_def fresh_entry_def)
  qed
qed

text \<open>Growth and re-authorization never put the ledger over the ceiling: a success leaves the
  total within it, a refusal leaves the ledger as it was, and a fenced allocation is
  refused.\<close>

theorem growth_within_budget:
  assumes "ledger_ok l" and "ledger_total l < I64_MAX" and "0 < additional" and "0 < configured"
  shows "(case grow k additional configured l of
            (l', None) \<Rightarrow> l' = l
          | (l', Some granted) \<Rightarrow> grant_of l' k = Some granted \<and> \<not> writers_fenced l k \<and>
              ledger_total l' \<le> configured) \<and>
         (case regrant k envelope configured l of
            (l', False) \<Rightarrow> l' = l
          | (l', True) \<Rightarrow> \<not> writers_fenced l k \<and> \<not> (\<exists>e. entry_of l' k = Some e \<and> se_grant_bytes e < materialized e) \<and>
              ledger_total l' \<le> configured)"
  using grow_cases [OF assms(1-3), of k configured] regrant_cases [OF assms(1,2), of k envelope configured] assms(4)
  by (auto simp: grant_of_def writers_fenced_def)

text \<open>C16: An authorized write is paid for before it is made: right after the authorization the
  entry's bytes, the new ones included, are within its grant, exactly those bytes are held
  pending, and a total that was within the ceiling still is.\<close>

theorem authorized_write_is_covered:
  assumes "ledger_ok l" and "ledger_total l < I64_MAX" and "0 < bytes" and "bytes \<le> I64_MAX"
    and "authorize_write k bytes configured room l = (l', Some w)"
  shows "w = \<lparr> sw_key = k, sw_bytes = bytes \<rparr> \<and>
    (\<exists>e e'. entry_of l k = Some e \<and> entry_of l' k = Some e' \<and>
       materialized e' \<le> se_grant_bytes e' \<and> materialized e' = materialized e + bytes \<and>
       se_pending_bytes e' = se_pending_bytes e + bytes) \<and>
    \<not> (0 < configured \<and> ledger_total l \<le> configured \<and> configured < ledger_total l')"
proof -
  have held: ?thesis if e: "entry_of l k = Some e" and g: "0 \<le> g" "g \<le> I64_MAX"
      and b: "bytes \<le> grant_unused (e\<lparr> se_grant_bytes := g \<rparr>)" and w: "w = \<lparr> sw_key = k, sw_bytes = bytes \<rparr>"
      and l': "entry_of l' k = Some (hold_pending bytes (e\<lparr> se_grant_bytes := g \<rparr>))"
        "ledger_total l' = ledger_total (set_entry k (hold_pending bytes (e\<lparr> se_grant_bytes := g \<rparr>)) l)"
      and tot: "0 < configured \<and> ledger_total l \<le> configured \<longrightarrow>
        ledger_total (set_entry k (e\<lparr> se_grant_bytes := g \<rparr>) l) \<le> configured" for e g
  proof -
    let ?e = "e\<lparr> se_grant_bytes := g \<rparr>"
    have eok: "entry_ok ?e" using entry_ok_grant [OF _ g] entry_of_ok [OF assms(1) e] by simp
    have room: "materialized ?e + bytes \<le> se_grant_bytes ?e" using unused_within [OF eok b assms(3)] .
    have le: "materialized ?e \<le> se_grant_bytes ?e" using room assms(3) by linarith
    have nn: "0 \<le> bytes" using assms(3) by simp
    note hold = materialized_hold [OF eok nn b le]
    have "charge (hold_pending bytes ?e) = charge ?e" by (rule charge_hold [OF eok nn b le])
    then have "ledger_total l' = ledger_total (set_entry k ?e l)"
      using total_set_entry(1) [OF assms(1) e eok assms(2)] total_set_entry(1) [OF assms(1) e _ assms(2)] hold l'(2)
      by simp
    then show ?thesis using hold w e l'(1) room tot
      by (auto simp: hold_pending_def)
  qed
  from authorize_write_cases [OF assms] show ?thesis
  proof (elim disjE exE conjE)
    fix e assume a: "entry_of l k = Some e" "bytes \<le> grant_unused e"
      "Some w = Some \<lparr> sw_key = k, sw_bytes = bytes \<rparr>" "l' = touch (set_entry k (hold_pending bytes e) l)"
    have eok: "entry_ok e" using entry_of_ok [OF assms(1) a(1)] by simp
    have "ledger_total (set_entry k e l) = ledger_total l"
      using total_set_entry(1) [OF assms(1) a(1) eok assms(2)] assms(2) by simp
    then show ?thesis
      using held [OF a(1), of "se_grant_bytes e"] a eok by (simp add: entry_ok_def)
  next
    fix e g
    assume a: "entry_of l k = Some e" "se_grant_bytes e \<le> g" "g \<le> I64_MAX"
      "0 < configured \<longrightarrow> ledger_total (set_entry k (e\<lparr> se_grant_bytes := g \<rparr>) l) \<le> configured"
      "if bytes \<le> grant_unused (e\<lparr> se_grant_bytes := g \<rparr>)
        then Some w = Some \<lparr> sw_key = k, sw_bytes = bytes \<rparr> \<and>
          l' = touch (touch (set_entry k (hold_pending bytes (e\<lparr> se_grant_bytes := g \<rparr>)) l))
        else Some w = None \<and> l' = touch (set_entry k (e\<lparr> se_grant_bytes := g \<rparr>) l) \<and>
          se_grant_bytes e < materialized e"
    have "0 \<le> se_grant_bytes e" using entry_of_ok [OF assms(1) a(1)] by (simp add: entry_ok_def)
    then have "0 \<le> g" using a(2) by linarith
    then show ?thesis using held [OF a(1) _ a(3)] a(4,5) by (simp split: if_splits)
  qed simp
qed

text \<open>C40: An allocation that has overrun its grant cannot be authorized a further byte without
  headroom, not even with the budget disabled: the shortfall is measured from the unused
  grant, which is clamped at zero, so the growth it asks for does not reach past the
  overrun. The refusal comes from one caller alone, with no fence and no race.\<close>

theorem overrun_write_is_refused:
  assumes "ledger_ok l" and "ledger_total l < I64_MAX" and "0 < bytes"
    and "entry_of l k = Some e" and "se_grant_bytes e < materialized e"
  shows "snd (authorize_write k bytes 0 0 l) = None"
proof -
  have eok: "entry_ok e" using entry_of_ok [OF assms(1,4)] by simp
  have unused: "grant_unused e = 0" using assms(5) by (simp add: grant_unused_eq [OF eok])
  have nn: "0 \<le> se_grant_bytes e" using eok by (simp add: entry_ok_def)
  have a: "saturating_add_i64 (saturating_sub_i64 bytes 0) (max 0 0) = sat_i64 bytes"
    using assms(3) by (simp add: saturating_sub_i64_def saturating_add_i64_def sat_i64_def)
  have apos: "0 < sat_i64 bytes" using assms(3) by (simp add: sat_i64_def)
  have le: "sat_i64 bytes \<le> bytes" using assms(3) by (simp add: sat_i64_def)
  have split: "authorize_write k bytes 0 0 l =
      (if se_writers_fenced e then (l, None) else
       case grow k (sat_i64 bytes) 0 l of (l2, None) \<Rightarrow> (l2, None) | (l2, Some g) \<Rightarrow> authorize_last k bytes l2)"
    using assms(3,4) unused a by (simp add: authorize_write_def authorize_first_def Let_def)
  from grow_cases [OF assms(1,2) apos, of k 0] show ?thesis
  proof
    assume "grow k (sat_i64 bytes) 0 l = (l, None)"
    then show ?thesis by (simp add: split)
  next
    assume "\<exists>e. entry_of l k = Some e \<and> \<not> se_writers_fenced e \<and> se_grant_bytes e + sat_i64 bytes \<le> I64_MAX \<and>
        grow k (sat_i64 bytes) 0 l = (touch (set_entry k (e\<lparr> se_grant_bytes := se_grant_bytes e + sat_i64 bytes \<rparr>) l),
          Some (se_grant_bytes e + sat_i64 bytes)) \<and>
        (0 < (0::int) \<longrightarrow>
          ledger_total (set_entry k (e\<lparr> se_grant_bytes := se_grant_bytes e + sat_i64 bytes \<rparr>) l) \<le> 0)"
    then have g: "se_grant_bytes e + sat_i64 bytes \<le> I64_MAX"
      "grow k (sat_i64 bytes) 0 l = (touch (set_entry k (e\<lparr> se_grant_bytes := se_grant_bytes e + sat_i64 bytes \<rparr>) l),
          Some (se_grant_bytes e + sat_i64 bytes))"
      using assms(4) by auto
    let ?e = "e\<lparr> se_grant_bytes := se_grant_bytes e + sat_i64 bytes \<rparr>"
    have "entry_ok ?e" using entry_ok_grant [OF eok] g(1) apos nn by simp
    then have "grant_unused ?e < bytes" using assms(3,5) le by (simp add: grant_unused_eq)
    then show ?thesis unfolding split g(2) by (simp add: authorize_last_def)
  qed
qed

section \<open>Witnesses\<close>

text \<open>One producing allocation: 100 bytes granted, \<open>used\<close> of them on disk.\<close>

definition demo_ledger :: "int \<Rightarrow> ledger" where
  "demo_ledger used = \<lparr> ls_generation = 1, ls_next_key = 2,
     ls_entries = [(1, (fresh_entry 100)\<lparr> se_lifecycle := Producing, se_used_bytes := used \<rparr>)],
     ls_stale_measurements = 0 \<rparr>"

lemma demo_ledger_ok: "0 \<le> used \<Longrightarrow> used \<le> I64_MAX \<Longrightarrow> ledger_ok (demo_ledger used)"
  by (simp add: demo_ledger_def ledger_ok_def entry_ok_def pins_ok_def fresh_entry_def)

lemmas demo_eval = demo_ledger_def fresh_entry_def ledger_total_def sum_sat_i64_def charge_def
  materialized_def pinned_extra_def saturating_add_i64_def saturating_sub_i64_def sat_i64_def entry_of_def

theorem reserve_within_budget_witness:
  "snd (reserve 900 1000 (demo_ledger 0)) = Inr \<lparr> sp_key = 2, sp_bytes = 900 \<rparr> \<and>
   ledger_total (fst (reserve 900 1000 (demo_ledger 0))) = 1000"
  using reserve_within_budget [OF demo_ledger_ok [of 0], of 900 1000]
  by (simp add: reserve_def Let_def add_or_max_def checked_add_i64_def)
    (simp add: demo_eval split: prod.splits sum.splits)

theorem growth_within_budget_witness:
  "grow 1 901 1000 (demo_ledger 0) = (demo_ledger 0, None) \<and> ledger_total (fst (regrant 1 800 1000 (demo_ledger 0))) = 800"
  using growth_within_budget [OF demo_ledger_ok [of 0], of 901 1000 1 800]
  by (simp add: grow_def regrant_def Let_def projected_total_def add_or_max_def checked_add_i64_def touch_def
      set_entry_def demo_eval)

theorem authorized_write_is_covered_witness:
  "snd (authorize_write 1 150 1000 0 (demo_ledger 20)) = Some \<lparr> sw_key = 1, sw_bytes = 150 \<rparr>"
proof -
  obtain l' w where a: "authorize_write 1 150 1000 0 (demo_ledger 20) = (l', Some w)"
    by (simp add: authorize_write_def authorize_first_def authorize_last_def grant_unused_def wrap_i64_def
        grow_def Let_def projected_total_def add_or_max_def checked_add_i64_def touch_def
        set_entry_def demo_eval)
  have t: "ledger_total (demo_ledger 20) < I64_MAX" by (simp add: demo_eval)
  show ?thesis
    using authorized_write_is_covered [OF demo_ledger_ok [of 20] t _ _ a] a by simp
qed

theorem overrun_write_is_refused_witness: "snd (authorize_write 1 1 0 0 (demo_ledger 150)) = None"
proof -
  have "entry_of (demo_ledger 150) 1 = Some (snd (hd (ls_entries (demo_ledger 150))))" by (simp add: demo_eval)
  then show ?thesis using overrun_write_is_refused [OF demo_ledger_ok [of 150], of 1 1] by (simp add: demo_eval)
qed

end
