(* ===== verification/ScratchGuards.thy ===== *)
theory ScratchGuards
  imports ScratchLedger
begin

text \<open>
  The scratch ledger and the guards it has handed out, as one state machine: every critical
  section of \<open>scratch_ledger.rs\<close> is a step, in any order, with any key; a guard is used or
  dropped only while it is live. The two sections of \<open>authorize_write\<close> and its growth are
  separate steps, and so is the collection that dropping a guard or releasing names owes after its
  own section, so every interleaving of two threads is a path. The invariant ties each
  counter of an entry to the live guards it counts.
\<close>

section \<open>One consistent read\<close>

definition bucket_sum :: "scratch_snapshot \<Rightarrow> int" where
  "bucket_sum s = ss_provisional s + ss_producing s + ss_retiring s + ss_retained s + ss_releasing s"

definition buckets_nonneg :: "scratch_snapshot \<Rightarrow> bool" where
  "buckets_nonneg s \<longleftrightarrow> 0 \<le> ss_provisional s \<and> 0 \<le> ss_producing s \<and> 0 \<le> ss_retiring s \<and>
     0 \<le> ss_retained s \<and> 0 \<le> ss_releasing s"

lemma snapshot_add_step:
  assumes "buckets_nonneg s" and "ss_total s = bucket_sum s" and "0 \<le> charge e"
    and "ss_total s + charge e \<le> I64_MAX"
  shows "buckets_nonneg (snapshot_add s e) \<and> ss_total (snapshot_add s e) = ss_total s + charge e \<and>
    bucket_sum (snapshot_add s e) = bucket_sum s + charge e"
  using assms
  by (cases "se_lifecycle e")
    (simp_all add: snapshot_add_def buckets_nonneg_def bucket_sum_def Let_def sat_add_nonneg)

lemma snapshot_fold:
  assumes "buckets_nonneg s" and "ss_total s = bucket_sum s" and "\<forall>e \<in> set es. 0 \<le> charge e"
    and "ss_total s + sum_list (map charge es) \<le> I64_MAX"
  shows "ss_total (foldl snapshot_add s es) = ss_total s + sum_list (map charge es) \<and>
    bucket_sum (foldl snapshot_add s es) = ss_total s + sum_list (map charge es)"
  using assms
proof (induction es arbitrary: s)
  case (Cons e es)
  have "0 \<le> sum_list (map charge es)" using Cons.prems(3) by (auto intro!: sum_list_nonneg)
  then have "buckets_nonneg (snapshot_add s e) \<and> ss_total (snapshot_add s e) = ss_total s + charge e \<and>
      bucket_sum (snapshot_add s e) = bucket_sum s + charge e"
    using snapshot_add_step [of s e] Cons.prems by simp
  then show ?case using Cons.IH [of "snapshot_add s e"] Cons.prems by (simp add: add.assoc)
qed simp

lemma snapshot_add_frame [simp]:
  "ss_entries (snapshot_add s e) = ss_entries s" "ss_generation (snapshot_add s e) = ss_generation s"
  by (cases "se_lifecycle e"; simp add: snapshot_add_def Let_def)+

lemma snapshot_fold_frame:
  "ss_entries (foldl snapshot_add s es) = ss_entries s \<and>
   ss_generation (foldl snapshot_add s es) = ss_generation s"
  by (induction es arbitrary: s) auto

text \<open>The lifecycle figures of a snapshot partition its total, and that total is the figure
  admission compares with the ceiling and a refusal quotes.\<close>

theorem snapshot_partitions_total:
  assumes "ledger_ok l" and "ledger_total l < I64_MAX"
  shows "ss_total (ledger_snapshot l) = ledger_total l \<and>
    ss_provisional (ledger_snapshot l) + ss_producing (ledger_snapshot l) + ss_retiring (ledger_snapshot l)
      + ss_retained (ledger_snapshot l) + ss_releasing (ledger_snapshot l) = ledger_total l \<and>
    ss_entries (ledger_snapshot l) = length (ls_entries l)"
proof -
  have nn: "\<forall>e \<in> set (map snd (ls_entries l)). 0 \<le> charge e"
    using assms(1) charge_bounds by (auto simp: ledger_ok_def)
  have sum: "sum_list (map charge (map snd (ls_entries l))) = ledger_total l"
  proof -
    have "sum_list (map charge (map snd kvs)) = weight charge kvs" for kvs :: "(nat \<times> scratch_entry) list"
      by (induction kvs) auto
    then show ?thesis using ledger_total_eq [OF assms(1)] assms(2) by simp
  qed
  show ?thesis
    using snapshot_fold [of _ "map snd (ls_entries l)", OF _ _ nn] assms(2) snapshot_fold_frame
    unfolding ledger_snapshot_def sum by (simp add: buckets_nonneg_def bucket_sum_def)
qed

theorem snapshot_partitions_total_witness:
  "ss_producing (ledger_snapshot (demo_ledger 20)) = 100 \<and> ss_total (ledger_snapshot (demo_ledger 20)) = 100"
  using snapshot_partitions_total [OF demo_ledger_ok [of 20]]
  by (simp add: ledger_snapshot_def snapshot_add_def demo_eval Let_def)

section \<open>The ledger with its live guards\<close>

record world =
  wo_ledger :: ledger
  wo_permits :: "scratch_permit multiset"
  wo_writers :: "(scratch_key \<times> nat) multiset"
  wo_writes :: "scratch_write multiset"
  wo_pins :: "scratch_pin multiset"

definition world_new :: world where
  "world_new = \<lparr> wo_ledger = ledger_new, wo_permits = {#}, wo_writers = {#}, wo_writes = {#}, wo_pins = {#} \<rparr>"

definition on_ledger :: "(ledger \<Rightarrow> ledger) \<Rightarrow> world \<Rightarrow> world" where
  "on_ledger f w = w\<lparr> wo_ledger := f (wo_ledger w) \<rparr>"

text \<open>
  Steps. Byte arguments are \<open>i64\<close> values; the two counters that mint identities are not
  exhausted, which is \<open>2 ^ 64\<close> allocations or writers.
\<close>

inductive world_step :: "world \<Rightarrow> world \<Rightarrow> bool" where
  ws_reserve: "reserve grant configured (wo_ledger w) = (l', Inr p) \<Longrightarrow> grant \<le> I64_MAX \<Longrightarrow>
    ls_next_key (wo_ledger w) < U64_MAX \<Longrightarrow>
    world_step w (w\<lparr> wo_ledger := l', wo_permits := add_mset p (wo_permits w) \<rparr>)"
| ws_bind: "world_step w (on_ledger (bind_session k sid attempt) w)"
| ws_register: "register_writer k (wo_ledger w) = (l', Some i) \<Longrightarrow> i < U64_MAX \<Longrightarrow>
    world_step w (w\<lparr> wo_ledger := l', wo_writers := add_mset (k, i) (wo_writers w) \<rparr>)"
| ws_finish: "(k, i) \<in># wo_writers w \<Longrightarrow>
    world_step w (w\<lparr> wo_ledger := fst (finish_section k i (wo_ledger w)), wo_writers := wo_writers w - {# (k, i) #} \<rparr>)"
| ws_retire: "world_step w (on_ledger (\<lambda>l. fst (begin_retirement k l)) w)"
| ws_walk: "bytes \<le> I64_MAX \<Longrightarrow> world_step w (on_ledger (observe_walk k bytes before) w)"
| ws_unlinked: "bytes \<le> I64_MAX \<Longrightarrow> world_step w (on_ledger (observe_unlinked k bytes) w)"
| ws_starve: "world_step w (on_ledger (\<lambda>l. fst (starve k l)) w)"
| ws_unstarve: "world_step w (on_ledger (\<lambda>l. fst (unstarve k l)) w)"
| ws_commit: "bytes \<le> I64_MAX \<Longrightarrow>
    world_step w (on_ledger (\<lambda>l. fst (commit_quiescent_measurement k generation bytes l)) w)"
| ws_note: "world_step w (on_ledger (note_conservative k reason) w)"
| ws_grow: "world_step w (on_ledger (\<lambda>l. fst (grow k additional configured l)) w)"
| ws_regrant: "world_step w (on_ledger (\<lambda>l. fst (regrant k envelope configured l)) w)"
| ws_authorize_first: "0 \<le> bytes \<Longrightarrow> bytes \<le> I64_MAX \<Longrightarrow>
    authorize_first k bytes (wo_ledger w) = (l', Granted sw) \<Longrightarrow>
    world_step w (w\<lparr> wo_ledger := l', wo_writes := add_mset sw (wo_writes w) \<rparr>)"
| ws_authorize_last: "0 \<le> bytes \<Longrightarrow> bytes \<le> I64_MAX \<Longrightarrow>
    authorize_last k bytes (wo_ledger w) = (l', Some sw) \<Longrightarrow>
    world_step w (w\<lparr> wo_ledger := l', wo_writes := add_mset sw (wo_writes w) \<rparr>)"
| ws_landed: "sw \<in># wo_writes w \<Longrightarrow>
    world_step w (w\<lparr> wo_ledger := landed sw written (wo_ledger w), wo_writes := wo_writes w - {# sw #} \<rparr>)"
| ws_drop_write: "sw \<in># wo_writes w \<Longrightarrow>
    world_step w (w\<lparr> wo_ledger := drop_write sw (wo_ledger w), wo_writes := wo_writes w - {# sw #} \<rparr>)"
| ws_pin: "acquire_pin k name bytes (wo_ledger w) = (l', Some pin) \<Longrightarrow>
    world_step w (w\<lparr> wo_ledger := l', wo_pins := add_mset pin (wo_pins w) \<rparr>)"
| ws_unpin: "pin \<in># wo_pins w \<Longrightarrow>
    world_step w (w\<lparr> wo_ledger := fst (unpin_section (pn_key pin) (pn_object pin) (wo_ledger w)),
                     wo_pins := wo_pins w - {# pin #} \<rparr>)"
| ws_unlink_all: "world_step w (on_ledger (unlink_section k) w)"
| ws_begin_release: "world_step w (on_ledger (begin_release k) w)"
| ws_drop_permit: "p \<in># wo_permits w \<Longrightarrow>
    world_step w (w\<lparr> wo_ledger := fst (abandon_section (sp_key p) (wo_ledger w)), wo_permits := wo_permits w - {# p #} \<rparr>)"
| ws_collect: "world_step w (on_ledger (collect k) w)"

inductive_cases world_stepE: "world_step w w'"

inductive reachable_world :: "world \<Rightarrow> bool" where
  rw_new: "reachable_world world_new"
| rw_step: "reachable_world w \<Longrightarrow> world_step w w' \<Longrightarrow> reachable_world w'"

section \<open>Counters and guards\<close>

definition writers_on :: "world \<Rightarrow> scratch_key \<Rightarrow> nat multiset" where
  "writers_on w k = image_mset snd (filter_mset (\<lambda>x. fst x = k) (wo_writers w))"

definition pending_on :: "world \<Rightarrow> scratch_key \<Rightarrow> int" where
  "pending_on w k = (\<Sum>x \<in># filter_mset (\<lambda>x. sw_key x = k) (wo_writes w). sw_bytes x)"

definition readers_on :: "world \<Rightarrow> scratch_key \<Rightarrow> pin_object \<Rightarrow> nat" where
  "readers_on w k object = count (wo_pins w) \<lparr> pn_key = k, pn_object = object \<rparr>"

definition pin_readers :: "(pin_object \<times> pin_group) list \<Rightarrow> pin_object \<Rightarrow> nat" where
  "pin_readers pins object = (case map_of pins object of None \<Rightarrow> 0 | Some g \<Rightarrow> pg_readers g)"

definition guards_match :: "world \<Rightarrow> scratch_key \<Rightarrow> scratch_entry \<Rightarrow> bool" where
  "guards_match w k e \<longleftrightarrow>
     se_writers e = length (se_live_writers e) \<and> mset (se_live_writers e) = writers_on w k \<and>
     se_pending_bytes e = pending_on w k \<and>
     (\<forall>object. pin_readers (se_pins e) object = readers_on w k object) \<and>
     (\<forall>(object, g) \<in> set (se_pins e). 0 < pg_readers g)"

text \<open>No writer and no reader of a forgotten allocation is live.\<close>

definition guards_owned :: "world \<Rightarrow> bool" where
  "guards_owned w \<longleftrightarrow> (\<forall>k. entry_of (wo_ledger w) k = None \<longrightarrow>
     writers_on w k = {#} \<and> (\<forall>object. readers_on w k object = 0))"

definition world_ok :: "world \<Rightarrow> bool" where
  "world_ok w \<longleftrightarrow> ledger_ok (wo_ledger w) \<and> guards_owned w \<and>
     (\<forall>x \<in># wo_writers w. fst x < ls_next_key (wo_ledger w)) \<and>
     (\<forall>x \<in># wo_writes w. sw_key x < ls_next_key (wo_ledger w) \<and> 0 \<le> sw_bytes x) \<and>
     (\<forall>x \<in># wo_pins w. pn_key x < ls_next_key (wo_ledger w)) \<and>
     (\<forall>k e. entry_of (wo_ledger w) k = Some e \<longrightarrow> guards_match w k e)"

text \<open>A step on one entry: everything else keeps its guards.\<close>

lemma world_ok_entry:
  assumes ok: "world_ok w" and e: "entry_of (wo_ledger w) k = Some e" and eok: "entry_ok e'"
    and l: "ls_entries (wo_ledger w') = ls_entries (set_entry k e' (wo_ledger w))"
      "ls_next_key (wo_ledger w') = ls_next_key (wo_ledger w)"
    and gm: "guards_match w' k e'"
    and others: "\<And>k'. k' \<noteq> k \<Longrightarrow> writers_on w' k' = writers_on w k' \<and> pending_on w' k' = pending_on w k' \<and>
        (\<forall>object. readers_on w' k' object = readers_on w k' object)"
    and keys: "\<forall>x \<in># wo_writers w'. x \<in># wo_writers w \<or> fst x = k"
      "\<forall>x \<in># wo_writes w'. x \<in># wo_writes w \<or> sw_key x = k \<and> 0 \<le> sw_bytes x"
      "\<forall>x \<in># wo_pins w'. x \<in># wo_pins w \<or> pn_key x = k"
  shows "world_ok w'"
proof -
  have lok: "ledger_ok (wo_ledger w)" and lt: "k < ls_next_key (wo_ledger w)"
    using ok entry_of_ok e by (auto simp: world_ok_def)
  have "ledger_ok (set_entry k e' (wo_ledger w))" by (rule ledger_ok_set [OF lok eok lt])
  then have lok': "ledger_ok (wo_ledger w')" using l by (simp add: ledger_ok_def set_entry_def)
  have entry: "entry_of (wo_ledger w') k' = (if k' = k then Some e' else entry_of (wo_ledger w) k')" for k'
    using entry_of_set [of k e' "wo_ledger w" k'] l(1) by (simp only: entry_of_def)
  have "guards_match w' k' f" if "entry_of (wo_ledger w') k' = Some f" for k' f
  proof (cases "k' = k")
    case True
    then show ?thesis using gm that entry by simp
  next
    case False
    then have "guards_match w k' f" using ok that entry by (simp add: world_ok_def)
    then show ?thesis using others [OF False] by (simp add: guards_match_def)
  qed
  moreover have "guards_owned w'"
    using ok others entry unfolding guards_owned_def world_ok_def by (metis option.distinct(1))
  ultimately show ?thesis
    using ok lok' keys lt l(2) unfolding world_ok_def by (auto 4 3)
qed

text \<open>The common case: the guards stay, and so do the fields that count them.\<close>

definition same_counts :: "scratch_entry \<Rightarrow> scratch_entry \<Rightarrow> bool" where
  "same_counts e e' \<longleftrightarrow> se_writers e' = se_writers e \<and> se_live_writers e' = se_live_writers e \<and>
     se_pending_bytes e' = se_pending_bytes e \<and> se_pins e' = se_pins e"

lemma world_ok_quiet:
  assumes ok: "world_ok w" and e: "entry_of (wo_ledger w) k = Some e" and eok: "entry_ok e'"
    and same: "same_counts e e'"
    and l: "ls_entries l' = ls_entries (set_entry k e' (wo_ledger w))"
      "ls_next_key l' = ls_next_key (wo_ledger w)"
  shows "world_ok (w\<lparr> wo_ledger := l' \<rparr>)"
proof (rule world_ok_entry [OF ok e eok])
  show "guards_match (w\<lparr> wo_ledger := l' \<rparr>) k e'"
    using ok e same by (simp add: world_ok_def guards_match_def same_counts_def
        writers_on_def pending_on_def readers_on_def)
qed (use l in \<open>simp_all add: writers_on_def pending_on_def readers_on_def\<close>)

lemma next_key_remove [simp]: "ls_next_key (remove_entry k l) = ls_next_key l"
  by (simp add: remove_entry_def)

lemma next_key_set [simp]: "ls_next_key (set_entry k e l) = ls_next_key l"
  by (simp add: set_entry_def)

lemma world_ok_remove:
  assumes ok: "world_ok w" and e: "entry_of (wo_ledger w) k = Some e" and idle: "se_writers e = 0" "se_pins e = []"
  shows "world_ok (w\<lparr> wo_ledger := touch (remove_entry k (wo_ledger w)) \<rparr>)"
proof -
  let ?w = "w\<lparr> wo_ledger := touch (remove_entry k (wo_ledger w)) \<rparr>"
  have m: "guards_match w k e" using ok e by (simp add: world_ok_def)
  then have "writers_on w k = {#}" "readers_on w k object = 0" for object
    using idle by (auto simp: guards_match_def pin_readers_def simp del: split_paired_All)
  then have "guards_owned ?w"
    using ok unfolding world_ok_def guards_owned_def
    by (simp add: writers_on_def readers_on_def del: split_paired_All)
  then show ?thesis
    using ok ledger_ok_remove [of "wo_ledger w" k] unfolding world_ok_def
    by (auto simp: guards_match_def writers_on_def pending_on_def readers_on_def split: if_splits)
qed

lemma world_ok_cong:
  "world_ok w \<Longrightarrow> wo_ledger w' = wo_ledger w \<Longrightarrow> wo_writers w' = wo_writers w \<Longrightarrow>
   wo_writes w' = wo_writes w \<Longrightarrow> wo_pins w' = wo_pins w \<Longrightarrow> world_ok w'"
  by (simp add: world_ok_def guards_match_def guards_owned_def writers_on_def pending_on_def readers_on_def)

lemma world_ok_collect: "world_ok w \<Longrightarrow> world_ok (w\<lparr> wo_ledger := collect k (wo_ledger w) \<rparr>)"
  using world_ok_remove [of w k] by (auto simp: collect_def releasable_def split: option.split)

section \<open>Every step keeps them\<close>

lemma wrap_nonneg_diff: "0 \<le> a \<Longrightarrow> a \<le> I64_MAX \<Longrightarrow> 0 \<le> b \<Longrightarrow> b \<le> I64_MAX \<Longrightarrow> wrap_i64 (a - b) = a - b"
  by simp

lemma entry_ok_bytes:
  "entry_ok e \<Longrightarrow> b \<le> I64_MAX \<Longrightarrow> entry_ok (e\<lparr> se_used_bytes := max b 0 \<rparr>)"
  by (simp add: entry_ok_def)

lemmas world_frame = writers_on_def pending_on_def readers_on_def

text \<open>An update of one entry, if it is there, that leaves the counted fields alone.\<close>

lemma world_ok_update:
  assumes ok: "world_ok w" and f: "\<And>e. entry_ok e \<Longrightarrow> entry_ok (f e) \<and> same_counts e (f e)"
    and l: "ls_entries l' = ls_entries (update_entry k f (wo_ledger w))"
      "ls_next_key l' = ls_next_key (wo_ledger w)"
  shows "world_ok (w\<lparr> wo_ledger := l' \<rparr>)"
proof (cases "entry_of (wo_ledger w) k")
  case None
  then have "ls_entries l' = ls_entries (wo_ledger w)" using l(1) by (simp add: update_entry_def)
  then show ?thesis using ok l(2)
    unfolding world_ok_def guards_match_def guards_owned_def ledger_ok_def entry_of_def by (simp add: world_frame)
next
  case (Some e)
  have "entry_ok e" using ok Some entry_of_ok by (auto simp: world_ok_def)
  then show ?thesis
    using world_ok_quiet [OF ok Some, of "f e" l'] f l Some by (simp add: update_entry_def)
qed

lemma next_key_update [simp]: "ls_next_key (update_entry k f l) = ls_next_key l"
  by (simp add: update_entry_def split: option.split)

lemma quiet_steps [keeps]:
  assumes ok: "world_ok w"
  shows "world_ok (on_ledger (bind_session k sid attempt) w)"
    and "bytes \<le> I64_MAX \<Longrightarrow> world_ok (on_ledger (observe_walk k bytes before) w)"
    and "bytes \<le> I64_MAX \<Longrightarrow> world_ok (on_ledger (observe_unlinked k bytes) w)"
    and "world_ok (on_ledger (note_conservative k reason) w)"
    and "world_ok (on_ledger (begin_release k) w)"
proof -
  show "world_ok (on_ledger (bind_session k sid attempt) w)"
    unfolding on_ledger_def bind_session_def
    by (rule world_ok_update [OF ok, where k = k]) (auto simp: entry_ok_def same_counts_def)
  show "world_ok (on_ledger (note_conservative k reason) w)"
    unfolding on_ledger_def note_conservative_def
    by (rule world_ok_update [OF ok, where k = k]) (auto simp: entry_ok_def same_counts_def)
  show "world_ok (on_ledger (begin_release k) w)"
    unfolding on_ledger_def begin_release_def
    by (rule world_ok_update [OF ok, where k = k]) (auto simp: entry_ok_def same_counts_def)
  assume b: "bytes \<le> I64_MAX"
  have sub: "max (saturating_sub_i64 x (max y 0)) 0 \<le> I64_MAX" for x y
    using sat_i64_bounds(2) [of "x - max y 0"] by (simp add: saturating_sub_i64_def)
  show "world_ok (on_ledger (observe_walk k bytes before) w)"
    unfolding on_ledger_def observe_walk_def
    by (rule world_ok_update [OF ok, where k = k]) (use b sub in \<open>auto simp: entry_ok_def same_counts_def\<close>)
  show "world_ok (on_ledger (observe_unlinked k bytes) w)"
    unfolding on_ledger_def observe_unlinked_def
    by (rule world_ok_update [OF ok, where k = k]) (use b in \<open>auto simp: entry_ok_def same_counts_def\<close>)
qed

text \<open>Steps that return something besides the ledger: one entry, quietly, or nothing.\<close>

lemma world_ok_maybe:
  assumes ok: "world_ok w"
    and cases: "l' = wo_ledger w \<or> (\<exists>e e'. entry_of (wo_ledger w) k = Some e \<and>
       (entry_ok e \<longrightarrow> entry_ok e' \<and> same_counts e e') \<and>
       ls_entries l' = ls_entries (set_entry k e' (wo_ledger w)) \<and> ls_next_key l' = ls_next_key (wo_ledger w))"
  shows "world_ok (w\<lparr> wo_ledger := l' \<rparr>)"
  using cases
proof
  assume "l' = wo_ledger w"
  then show ?thesis using ok by simp
next
  assume "\<exists>e e'. entry_of (wo_ledger w) k = Some e \<and> (entry_ok e \<longrightarrow> entry_ok e' \<and> same_counts e e') \<and>
       ls_entries l' = ls_entries (set_entry k e' (wo_ledger w)) \<and> ls_next_key l' = ls_next_key (wo_ledger w)"
  then obtain e e' where e: "entry_of (wo_ledger w) k = Some e" "entry_ok e \<longrightarrow> entry_ok e' \<and> same_counts e e'"
    "ls_entries l' = ls_entries (set_entry k e' (wo_ledger w))" "ls_next_key l' = ls_next_key (wo_ledger w)"
    by blast
  have "entry_ok e" using ok e(1) entry_of_ok by (auto simp: world_ok_def)
  then show ?thesis using world_ok_quiet [OF ok e(1)] e by blast
qed

lemma world_entry_ok: "world_ok w \<Longrightarrow> entry_of (wo_ledger w) k = Some e \<Longrightarrow> entry_ok e"
  using entry_of_ok by (auto simp: world_ok_def)

lemma world_ok_touch:
  assumes "world_ok w" and "entry_of (wo_ledger w) k = Some e" and "entry_ok e'" and "same_counts e e'"
  shows "world_ok (w\<lparr> wo_ledger := touch (set_entry k e' (wo_ledger w)) \<rparr>)"
    and "world_ok (w\<lparr> wo_ledger := set_entry k e' (wo_ledger w) \<rparr>)"
    and "world_ok (w\<lparr> wo_ledger := (set_entry k e' (wo_ledger w))\<lparr> ls_stale_measurements := n \<rparr> \<rparr>)"
  by (rule world_ok_quiet [OF assms]; simp)+

lemma retire_step [keeps]:
  assumes ok: "world_ok w" shows "world_ok (on_ledger (\<lambda>l. fst (begin_retirement k l)) w)"
proof (cases "entry_of (wo_ledger w) k")
  case (Some e)
  show ?thesis unfolding on_ledger_def
    by (simp add: begin_retirement_def Some split del: if_split) (rule world_ok_touch [OF ok Some];
      use world_entry_ok [OF ok Some] in \<open>simp add: entry_ok_def same_counts_def\<close>)
qed (use ok in \<open>simp add: on_ledger_def begin_retirement_def\<close>)

lemma starve_step [keeps]:
  assumes ok: "world_ok w" shows "world_ok (on_ledger (\<lambda>l. fst (starve k l)) w)"
proof (cases "entry_of (wo_ledger w) k")
  case (Some e)
  show ?thesis unfolding on_ledger_def
    by (simp add: starve_def Let_def Some) (rule world_ok_touch [OF ok Some];
      use world_entry_ok [OF ok Some] in \<open>simp add: entry_ok_def same_counts_def\<close>)
qed (use ok in \<open>simp add: on_ledger_def starve_def\<close>)

lemma unstarve_step [keeps]:
  assumes ok: "world_ok w" shows "world_ok (on_ledger (\<lambda>l. fst (unstarve k l)) w)"
proof (cases "entry_of (wo_ledger w) k")
  case (Some e)
  show ?thesis unfolding on_ledger_def
    by (simp add: unstarve_def Let_def Some) (rule world_ok_touch [OF ok Some];
      use world_entry_ok [OF ok Some] in \<open>simp add: entry_ok_def same_counts_def\<close>)
qed (use ok in \<open>simp add: on_ledger_def unstarve_def\<close>)

lemma grow_step [keeps]:
  assumes ok: "world_ok w" shows "world_ok (on_ledger (\<lambda>l. fst (grow k additional configured l)) w)"
proof -
  have "fst (grow k additional configured (wo_ledger w)) = wo_ledger w \<or>
    (\<exists>e g. entry_of (wo_ledger w) k = Some e \<and> 0 < additional \<and> g = se_grant_bytes e + additional \<and> g \<le> I64_MAX \<and>
       fst (grow k additional configured (wo_ledger w)) = touch (set_entry k (e\<lparr> se_grant_bytes := g \<rparr>) (wo_ledger w)))"
    unfolding grow_def Let_def checked_add_i64_def by (simp split: option.split)
  then show ?thesis
  proof (elim disjE exE conjE)
    fix e g
    assume e: "entry_of (wo_ledger w) k = Some e" and pos: "0 < additional" and g: "g = se_grant_bytes e + additional"
      "g \<le> I64_MAX"
      and res: "fst (grow k additional configured (wo_ledger w)) = touch (set_entry k (e\<lparr> se_grant_bytes := g \<rparr>) (wo_ledger w))"
    have "entry_ok (e\<lparr> se_grant_bytes := g \<rparr>)"
      using world_entry_ok [OF ok e] pos g by (simp add: entry_ok_def)
    then show ?thesis unfolding on_ledger_def res
      by (rule world_ok_quiet [OF ok e]) (simp_all add: same_counts_def)
  qed (use ok in \<open>simp add: on_ledger_def\<close>)
qed

lemma regrant_step [keeps]:
  assumes ok: "world_ok w" shows "world_ok (on_ledger (\<lambda>l. fst (regrant k envelope configured l)) w)"
proof (cases "entry_of (wo_ledger w) k")
  case (Some e)
  define g where "g = max (saturating_add_i64 (se_used_bytes e) (max envelope 0)) (materialized e)"
  have "entry_ok e" by (rule world_entry_ok [OF ok Some])
  then have eok: "entry_ok (e\<lparr> se_grant_bytes := g \<rparr>)"
    using materialized_bounds [of e] sat_i64_bounds(2)
    by (intro entry_ok_grant) (auto simp: saturating_add_i64_def g_def)
  have "fst (regrant k envelope configured (wo_ledger w)) = wo_ledger w \<or>
      fst (regrant k envelope configured (wo_ledger w)) = touch (set_entry k (e\<lparr> se_grant_bytes := g \<rparr>) (wo_ledger w))"
    unfolding regrant_def Let_def Some g_def by simp
  then show ?thesis
  proof
    assume "fst (regrant k envelope configured (wo_ledger w)) = touch (set_entry k (e\<lparr> se_grant_bytes := g \<rparr>) (wo_ledger w))"
    then show ?thesis unfolding on_ledger_def
      by (simp add: world_ok_quiet [OF ok Some eok] same_counts_def)
  qed (use ok in \<open>simp add: on_ledger_def\<close>)
qed (use ok in \<open>simp add: on_ledger_def regrant_def Let_def\<close>)

lemma commit_step [keeps]:
  assumes ok: "world_ok w" and b: "bytes \<le> I64_MAX"
  shows "world_ok (on_ledger (\<lambda>l. fst (commit_quiescent_measurement k generation bytes l)) w)"
proof (cases "entry_of (wo_ledger w) k")
  case (Some e)
  have e: "entry_ok e" by (rule world_entry_ok [OF ok Some])
  define lc where "lc = (if se_lifecycle e = Retiring then Retained else se_lifecycle e)"
  let ?noted = "\<lambda>r. e\<lparr> se_conservative_reason := Some r \<rparr>"
  let ?final = "e\<lparr> se_used_bytes := max bytes 0, se_written_bytes := 0, se_grant_bytes := max bytes 0,
      se_conservative_reason := None, se_lifecycle := lc \<rparr>"
  have noted: "entry_ok (?noted r)" "same_counts e (?noted r)" for r
    using e by (simp_all add: entry_ok_def same_counts_def)
  have fin: "entry_ok ?final" "same_counts e ?final" using e b by (simp_all add: entry_ok_def same_counts_def)
  show ?thesis
    unfolding on_ledger_def commit_quiescent_measurement_def Let_def Some option.case lc_def [symmetric]
    using world_ok_touch [OF ok Some noted] world_ok_touch(1) [OF ok Some fin] by (simp only: fst_conv split: if_split) simp
qed (use ok in \<open>simp add: on_ledger_def commit_quiescent_measurement_def\<close>)

text \<open>Writers.\<close>

lemma index_of_Some: "index_of x xs = Some i \<Longrightarrow> i < length xs \<and> xs ! i = x"
  by (induction xs arbitrary: i) (auto split: if_splits)

lemma index_of_None: "index_of x xs = None \<longleftrightarrow> x \<notin> set xs"
  by (induction xs) auto

lemma mset_swap_remove: "at < length xs \<Longrightarrow> add_mset (xs ! at) (mset (swap_remove at xs)) = mset xs"
proof -
  assume at: "at < length xs"
  then obtain ys y where xs: "xs = ys @ [y]" by (cases xs rule: rev_cases) auto
  show ?thesis
  proof (cases "at = length ys")
    case True
    then show ?thesis by (simp add: swap_remove_def xs)
  next
    case False
    then have lt: "at < length ys" using at xs by simp
    then have "swap_remove at xs = ys[at := y]" by (simp add: swap_remove_def xs list_update_append)
    moreover have "mset (ys[at := y]) = add_mset y (mset ys) - {# ys ! at #}"
      using lt by (simp add: mset_update)
    moreover have "ys ! at \<in># mset ys" using lt by simp
    ultimately show ?thesis using lt xs by (simp add: nth_append add_mset_commute)
  qed
qed

lemma length_swap_remove: "at < length xs \<Longrightarrow> length (swap_remove at xs) = length xs - 1"
  by (simp add: swap_remove_def)

lemma register_step [keeps]:
  assumes ok: "world_ok w" and res: "register_writer k (wo_ledger w) = (l', Some i)"
  shows "world_ok (w\<lparr> wo_ledger := l', wo_writers := add_mset (k, i) (wo_writers w) \<rparr>)"
proof -
  obtain e where e: "entry_of (wo_ledger w) k = Some e" "\<not> se_writers_fenced e" "i = se_next_writer e"
    "l' = touch (set_entry k (e\<lparr> se_next_writer := saturating_add_u64 i 1,
        se_writers := se_writers e + 1, se_live_writers := se_live_writers e @ [i],
        se_inventory_generation := saturating_add_u64 (se_inventory_generation e) 1 \<rparr>) (wo_ledger w))"
    using res by (auto simp: register_writer_def Let_def split: option.splits if_splits)
  have m: "guards_match w k e" and eok: "entry_ok e"
    using ok e(1) entry_of_ok by (auto simp: world_ok_def)
  show ?thesis
  proof (rule world_ok_entry [OF ok e(1)])
    show "entry_ok (e\<lparr> se_next_writer := saturating_add_u64 i 1,
        se_writers := se_writers e + 1, se_live_writers := se_live_writers e @ [i],
        se_inventory_generation := saturating_add_u64 (se_inventory_generation e) 1 \<rparr>)"
      using eok by (simp add: entry_ok_def)
  qed (use m e(4) in \<open>auto simp: guards_match_def world_frame\<close>)
qed

lemma finish_step [keeps]:
  assumes ok: "world_ok w" and mem: "(k, i) \<in># wo_writers w"
  shows "world_ok (w\<lparr> wo_ledger := fst (finish_section k i (wo_ledger w)), wo_writers := wo_writers w - {# (k, i) #} \<rparr>)"
proof (cases "entry_of (wo_ledger w) k")
  case None
  then have "writers_on w k = {#}" using ok by (simp add: world_ok_def guards_owned_def)
  moreover have "i \<in># writers_on w k" using mem by (force simp: writers_on_def)
  ultimately show ?thesis by simp
next
  case (Some e)
  have m: "guards_match w k e" and eok: "entry_ok e"
    using ok Some entry_of_ok by (auto simp: world_ok_def)
  have "i \<in># writers_on w k" using mem by (force simp: writers_on_def)
  then have "i \<in># mset (se_live_writers e)" using m by (simp add: guards_match_def)
  then obtain at where at: "index_of i (se_live_writers e) = Some at"
    using index_of_None [of i "se_live_writers e"] by (cases "index_of i (se_live_writers e)") auto
  note at' = index_of_Some [OF at]
  let ?e = "e\<lparr> se_live_writers := swap_remove at (se_live_writers e), se_writers := se_writers e - 1,
      se_inventory_generation := saturating_add_u64 (se_inventory_generation e) 1 \<rparr>"
  let ?w = "w\<lparr> wo_ledger := touch (set_entry k ?e (wo_ledger w)), wo_writers := wo_writers w - {# (k, i) #} \<rparr>"
  have on: "writers_on ?w k = writers_on w k - {# i #}"
    using mem by (simp add: world_frame image_mset_Diff)
  have "mset (swap_remove at (se_live_writers e)) = mset (se_live_writers e) - {# i #}"
    using mset_swap_remove [of at "se_live_writers e"] at' by (metis add_mset_remove_trivial)
  then have gm: "guards_match ?w k ?e"
    using m on at' by (simp add: guards_match_def length_swap_remove pending_on_def readers_on_def)
  have "world_ok ?w"
    by (rule world_ok_entry [OF ok Some _ _ _ gm])
      (use eok in \<open>auto simp: entry_ok_def world_frame dest: in_diffD\<close>)
  then show ?thesis by (simp add: finish_section_def at Some Let_def)
qed

text \<open>Guards of a forgotten allocation may come and go.\<close>

lemma world_ok_absent:
  assumes ok: "world_ok w" and none: "entry_of (wo_ledger w) k = None"
    and l: "ls_entries (wo_ledger w') = ls_entries (wo_ledger w)"
      "ls_next_key (wo_ledger w') = ls_next_key (wo_ledger w)"
    and others: "\<And>k'. k' \<noteq> k \<Longrightarrow> writers_on w' k' = writers_on w k' \<and> pending_on w' k' = pending_on w k' \<and>
        (\<forall>object. readers_on w' k' object = readers_on w k' object)"
    and keys: "\<forall>x \<in># wo_writers w'. x \<in># wo_writers w" "\<forall>x \<in># wo_writes w'. x \<in># wo_writes w"
      "\<forall>x \<in># wo_pins w'. x \<in># wo_pins w"
  shows "world_ok w'"
proof -
  have entry: "entry_of (wo_ledger w') k' = entry_of (wo_ledger w) k'" for k'
    using l(1) by (simp add: entry_of_def)
  have "guards_match w' k' f" if f: "entry_of (wo_ledger w') k' = Some f" for k' f
  proof -
    have ne: "k' \<noteq> k" and "guards_match w k' f" using f none ok entry by (auto simp: world_ok_def)
    then show ?thesis using others [OF ne] by (simp add: guards_match_def)
  qed
  moreover have "guards_owned w'"
    unfolding guards_owned_def
  proof (intro allI impI)
    fix k' assume k': "entry_of (wo_ledger w') k' = None"
    then have old: "writers_on w k' = {#} \<and> (\<forall>object. readers_on w k' object = 0)"
      using ok entry by (simp add: world_ok_def guards_owned_def)
    show "writers_on w' k' = {#} \<and> (\<forall>object. readers_on w' k' object = 0)"
    proof (cases "k' = k")
      case False
      then show ?thesis using old others by simp
    next
      case True
      have "x \<notin># wo_writers w'" if "fst x = k'" for x
      proof
        assume "x \<in># wo_writers w'"
        then have "x \<in># filter_mset (\<lambda>x. fst x = k') (wo_writers w)" using keys(1) that by simp
        then have "snd x \<in># writers_on w k'" unfolding writers_on_def by simp
        then show False using old by simp
      qed
      then have "writers_on w' k' = {#}" by (auto simp: writers_on_def multiset_eq_iff count_eq_zero_iff)
      moreover have "readers_on w' k' object = 0" for object
        using old keys(3) by (metis not_in_iff readers_on_def)
      ultimately show ?thesis by simp
    qed
  qed
  ultimately show ?thesis using ok keys l unfolding world_ok_def ledger_ok_def by auto
qed

text \<open>Writes.\<close>

lemma hold_ok:
  assumes e: "entry_ok e" and b: "0 \<le> b" "b \<le> grant_unused e"
  shows "entry_ok (hold_pending b e) \<and> se_pending_bytes (hold_pending b e) = se_pending_bytes e + b"
proof (cases "materialized e \<le> se_grant_bytes e")
  case True
  then show ?thesis using materialized_hold [OF e b] by simp
next
  case False
  then have "b = 0" using b by (simp add: grant_unused_eq [OF e])
  moreover have "hold_pending 0 e = e"
    using e by (simp add: hold_pending_def saturating_add_i64_def entry_ok_def)
  ultimately show ?thesis using e by simp
qed

lemma authorize_step:
  assumes ok: "world_ok w" and e: "entry_of (wo_ledger w) k = Some e"
    and b: "0 \<le> b" "b \<le> grant_unused e"
  shows "world_ok (w\<lparr> wo_ledger := touch (set_entry k (hold_pending b e) (wo_ledger w)),
    wo_writes := add_mset \<lparr> sw_key = k, sw_bytes = b \<rparr> (wo_writes w) \<rparr>)"
proof -
  have m: "guards_match w k e" and eok: "entry_ok e"
    using ok e world_entry_ok by (auto simp: world_ok_def)
  note hold = hold_ok [OF eok b]
  have frame: "se_writers (hold_pending b e) = se_writers e" "se_live_writers (hold_pending b e) = se_live_writers e"
    "se_pins (hold_pending b e) = se_pins e" by (simp_all add: hold_pending_def)
  show ?thesis
    by (rule world_ok_entry [OF ok e]) (use m hold frame b in \<open>auto simp: guards_match_def world_frame\<close>)
qed

lemma pending_remove:
  "sw \<in># wo_writes w \<Longrightarrow>
   pending_on (w\<lparr> wo_ledger := l', wo_writes := wo_writes w - {# sw #} \<rparr>) (sw_key sw) = pending_on w (sw_key sw) - sw_bytes sw"
proof -
  assume "sw \<in># wo_writes w"
  then obtain ws where ws: "wo_writes w = add_mset sw ws" by (metis insert_DiffM)
  show ?thesis by (simp add: pending_on_def ws)
qed

lemma pending_nonneg: "world_ok w \<Longrightarrow> 0 \<le> pending_on w k"
  unfolding pending_on_def world_ok_def by (intro sum_mset_nonneg) auto

lemma pending_ge: "world_ok w \<Longrightarrow> sw \<in># wo_writes w \<Longrightarrow> sw_bytes sw \<le> pending_on w (sw_key sw)"
proof -
  assume ok: "world_ok w" and "sw \<in># wo_writes w"
  then obtain ws where ws: "wo_writes w = add_mset sw ws" by (metis insert_DiffM)
  have "0 \<le> (\<Sum>x \<in># filter_mset (\<lambda>x. sw_key x = sw_key sw) ws. sw_bytes x)"
    using ok unfolding world_ok_def ws by (intro sum_mset_nonneg) auto
  then show ?thesis by (simp add: pending_on_def ws)
qed

lemma settle_step:
  assumes ok: "world_ok w" and mem: "sw \<in># wo_writes w"
  shows "world_ok (w\<lparr> wo_ledger := settle_write (sw_key sw) (sw_bytes sw) written (wo_ledger w),
    wo_writes := wo_writes w - {# sw #} \<rparr>)"
proof (cases "entry_of (wo_ledger w) (sw_key sw)")
  case None
  show ?thesis
    by (rule world_ok_absent [OF ok None])
      (auto simp: settle_write_def update_entry_def None world_frame dest: in_diffD)
next
  case (Some e)
  let ?k = "sw_key sw" and ?b = "sw_bytes sw"
  have m: "guards_match w ?k e" and eok: "entry_ok e"
    using ok Some world_entry_ok by (auto simp: world_ok_def)
  have b: "0 \<le> ?b" "?b \<le> se_pending_bytes e"
    using ok mem pending_ge [OF ok mem] m by (auto simp: world_ok_def guards_match_def)
  define e' where "e' = e\<lparr> se_pending_bytes := max (wrap_i64 (se_pending_bytes e - ?b)) 0,
        se_written_bytes := saturating_add_i64 (se_written_bytes e) (max written 0) \<rparr>"
  have wrap: "se_pending_bytes e' = se_pending_bytes e - ?b"
    using b eok by (simp add: entry_ok_def e'_def)
  have frame: "se_writers e' = se_writers e" "se_live_writers e' = se_live_writers e" "se_pins e' = se_pins e"
    "se_grant_bytes e' = se_grant_bytes e" "se_used_bytes e' = se_used_bytes e"
    "se_written_bytes e' = saturating_add_i64 (se_written_bytes e) (max written 0)"
    by (simp_all add: e'_def)
  have eok': "entry_ok e'"
    using eok b by (simp add: wrap frame entry_ok_def sat_add_nonneg)
  have gm: "guards_match (w\<lparr> wo_ledger := l', wo_writes := wo_writes w - {# sw #} \<rparr>) ?k e'" for l'
    using m pending_remove [OF mem] by (simp add: guards_match_def wrap frame writers_on_def readers_on_def)
  have "world_ok (w\<lparr> wo_ledger := touch (set_entry ?k e' (wo_ledger w)), wo_writes := wo_writes w - {# sw #} \<rparr>)"
    by (rule world_ok_entry [OF ok Some eok' _ _ gm]) (auto simp: world_frame dest: in_diffD)
  then show ?thesis by (simp add: settle_write_def update_entry_def Some e'_def)
qed

text \<open>Pins.\<close>

lemma pin_readers_update: "pin_readers (AList.update o1 g pins) o2 = (if o2 = o1 then pg_readers g else pin_readers pins o2)"
  by (simp add: pin_readers_def update_conv')

lemma pin_readers_delete: "pin_readers (AList.delete o1 pins) o2 = (if o2 = o1 then 0 else pin_readers pins o2)"
  by (simp add: pin_readers_def delete_conv')

lemma pins_ok_update: "pins_ok pins \<Longrightarrow> 0 \<le> pg_bytes g \<Longrightarrow> pins_ok (AList.update o1 g pins)"
  using set_update_subset [of o1 g pins] by (auto simp: pins_ok_def distinct_update)

lemma pins_ok_delete: "pins_ok pins \<Longrightarrow> pins_ok (AList.delete o1 pins)"
  using set_delete_subset [of o1 pins] by (auto simp: pins_ok_def distinct_delete)

lemma pin_step:
  assumes ok: "world_ok w" and res: "acquire_pin k name bytes (wo_ledger w) = (l', Some pin)"
  shows "world_ok (w\<lparr> wo_ledger := l', wo_pins := add_mset pin (wo_pins w) \<rparr>)"
proof -
  obtain e where e: "entry_of (wo_ledger w) k = Some e" and nn: "0 \<le> bytes"
    using res by (auto simp: acquire_pin_def split: option.splits if_splits)
  let ?o = "(name, bytes)"
  define g where "g = (case map_of (se_pins e) ?o of Some g \<Rightarrow> g
      | None \<Rightarrow> \<lparr> pg_bytes = bytes, pg_readers = 0, pg_linked = (se_lifecycle e \<noteq> Releasing) \<rparr>)"
  let ?e = "e\<lparr> se_pins := AList.update ?o (g\<lparr> pg_readers := pg_readers g + 1 \<rparr>) (se_pins e) \<rparr>"
  have l': "l' = touch (set_entry k ?e (wo_ledger w))" and pin: "pin = \<lparr> pn_key = k, pn_object = ?o \<rparr>"
    using res e nn by (auto simp: acquire_pin_def Let_def g_def)
  have m: "guards_match w k e" and eok: "entry_ok e"
    using ok e world_entry_ok by (auto simp: world_ok_def)
  have gb: "0 \<le> pg_bytes g"
    using eok nn by (auto simp: g_def entry_ok_def pins_ok_def dest!: map_of_SomeD split: option.splits)
  have gr: "pg_readers g = pin_readers (se_pins e) ?o" by (simp add: g_def pin_readers_def split: option.split)
  have eok': "entry_ok ?e" using eok gb by (simp add: entry_ok_def pins_ok_update)
  have pos: "\<forall>(object, h) \<in> set (se_pins ?e). 0 < pg_readers h"
    using m set_update_subset [of ?o "g\<lparr> pg_readers := pg_readers g + 1 \<rparr>" "se_pins e"]
    by (auto simp: guards_match_def)
  have gm: "guards_match (w\<lparr> wo_ledger := l'', wo_pins := add_mset pin (wo_pins w) \<rparr>) k ?e" for l''
    using m pos unfolding guards_match_def
    by (simp add: pin_readers_update gr pin readers_on_def writers_on_def pending_on_def)
  show ?thesis
    by (rule world_ok_entry [OF ok e eok' _ _ gm]) (auto simp: l' pin world_frame)
qed

lemma unpin_step:
  assumes ok: "world_ok w" and mem: "pin \<in># wo_pins w"
  shows "world_ok (w\<lparr> wo_ledger := fst (unpin_section (pn_key pin) (pn_object pin) (wo_ledger w)),
    wo_pins := wo_pins w - {# pin #} \<rparr>)"
proof (cases "entry_of (wo_ledger w) (pn_key pin)")
  case None
  have ne: "\<lparr> pn_key = k', pn_object = object \<rparr> \<noteq> pin" if "k' \<noteq> pn_key pin" for k' object
    using that by auto
  show ?thesis
    by (rule world_ok_absent [OF ok None]) (use ne in \<open>auto simp: unpin_section_def None world_frame dest: in_diffD\<close>)
next
  case (Some e)
  let ?k = "pn_key pin" and ?o = "pn_object pin"
  have pin: "\<lparr> pn_key = ?k, pn_object = ?o \<rparr> = pin" by simp
  have m: "guards_match w ?k e" and eok: "entry_ok e"
    using ok Some world_entry_ok by (auto simp: world_ok_def)
  have "0 < readers_on w ?k ?o" unfolding readers_on_def pin using mem by simp
  then have "0 < pin_readers (se_pins e) ?o" using m by (simp add: guards_match_def del: split_paired_All)
  then obtain g where g: "map_of (se_pins e) ?o = Some g" "0 < pg_readers g"
    by (auto simp: pin_readers_def split: option.splits)
  define pins where "pins = (if pg_readers g - 1 = 0 then AList.delete ?o (se_pins e)
      else AList.update ?o (g\<lparr> pg_readers := pg_readers g - 1 \<rparr>) (se_pins e))"
  have rd: "pin_readers pins object = (if object = ?o then pg_readers g - 1 else pin_readers (se_pins e) object)"
    for object unfolding pins_def by (auto simp: pin_readers_update pin_readers_delete)
  have "0 \<le> pg_bytes g" using eok g by (auto simp: entry_ok_def pins_ok_def dest!: map_of_SomeD)
  then have eok': "entry_ok (e\<lparr> se_pins := pins \<rparr>)"
    using eok unfolding pins_def by (auto simp: entry_ok_def pins_ok_update pins_ok_delete)
  have pos: "\<forall>(object, h) \<in> set pins. 0 < pg_readers h"
    using m set_delete_subset [of ?o "se_pins e"]
      set_update_subset [of ?o "g\<lparr> pg_readers := pg_readers g - 1 \<rparr>" "se_pins e"]
    unfolding pins_def guards_match_def by (auto split: if_splits)
  have rg: "pg_readers g = readers_on w ?k ?o"
    using m g by (simp add: guards_match_def pin_readers_def del: split_paired_All) (metis option.simps(5))
  have cnt: "readers_on (w\<lparr> wo_ledger := l', wo_pins := wo_pins w - {# pin #} \<rparr>) ?k object =
      (if object = ?o then pg_readers g - 1 else readers_on w ?k object)" for l' object
  proof (cases "object = ?o")
    case False
    then have "\<lparr> pn_key = ?k, pn_object = object \<rparr> \<noteq> pin" by (metis scratch_pin.select_convs(2))
    then show ?thesis using False by (simp add: readers_on_def)
  qed (simp add: readers_on_def rg)
  have gm: "guards_match (w\<lparr> wo_ledger := l', wo_pins := wo_pins w - {# pin #} \<rparr>) ?k (e\<lparr> se_pins := pins \<rparr>)" for l'
    using m pos unfolding guards_match_def by (simp add: rd cnt writers_on_def pending_on_def del: split_paired_All)
  have ne: "\<lparr> pn_key = k', pn_object = object \<rparr> \<noteq> pin" if "k' \<noteq> ?k" for k' object
    using that by auto
  define l1 where "l1 = touch (set_entry ?k (e\<lparr> se_pins := pins \<rparr>) (wo_ledger w))"
  have "world_ok (w\<lparr> wo_ledger := l1, wo_pins := wo_pins w - {# pin #} \<rparr>)"
    by (rule world_ok_entry [OF ok Some eok' _ _ gm])
      (use ne in \<open>auto simp: l1_def world_frame dest: in_diffD\<close>)
  moreover have "fst (unpin_section ?k ?o (wo_ledger w)) = l1"
    by (simp add: unpin_section_def Some g(1) l1_def pins_def Let_def)
  ultimately show ?thesis by simp
qed

lemma pin_readers_unlink:
  "\<forall>(object, g) \<in> set pins. 0 < pg_readers g \<Longrightarrow>
   pin_readers (map (\<lambda>(object, g). (object, g\<lparr> pg_linked := False \<rparr>))
     (filter (\<lambda>(object, g). 0 < pg_readers g) pins)) o1 = pin_readers pins o1"
  by (induction pins) (auto simp: pin_readers_def)

lemma unlink_all_step:
  assumes ok: "world_ok w" shows "world_ok (on_ledger (unlink_section k) w)"
proof -
  let ?f = "\<lambda>e. e\<lparr> se_pins := map (\<lambda>(object, g). (object, g\<lparr> pg_linked := False \<rparr>))
                     (filter (\<lambda>(object, g). 0 < pg_readers g) (se_pins e)),
        se_used_bytes := 0, se_written_bytes := 0, se_grant_bytes := 0, se_lifecycle := Releasing \<rparr>"
  have "world_ok (w\<lparr> wo_ledger := touch (update_entry k ?f (wo_ledger w)) \<rparr>)"
  proof (cases "entry_of (wo_ledger w) k")
    case None
    then show ?thesis
      by (intro world_ok_absent [OF ok None]) (simp_all add: update_entry_def world_frame)
  next
    case (Some e)
    have m: "guards_match w k e" and eok: "entry_ok e"
      using ok Some world_entry_ok by (auto simp: world_ok_def)
    have pos: "\<forall>(object, g) \<in> set (se_pins e). 0 < pg_readers g" using m by (simp add: guards_match_def)
    then have filt: "filter (\<lambda>(object, g). 0 < pg_readers g) (se_pins e) = se_pins e"
      by (simp add: filter_id_conv)
    have "pins_ok (map (\<lambda>(object, g). (object, g\<lparr> pg_linked := False \<rparr>)) (se_pins e))"
      using eok by (auto simp: entry_ok_def pins_ok_def comp_def case_prod_beta)
    then have eok': "entry_ok (?f e)" using eok by (simp add: entry_ok_def filt)
    have gm: "guards_match (w\<lparr> wo_ledger := l' \<rparr>) k (?f e)" for l'
      using m pin_readers_unlink [OF pos] unfolding guards_match_def
      by (auto simp: world_frame simp del: split_paired_All)
    have "world_ok (w\<lparr> wo_ledger := touch (set_entry k (?f e) (wo_ledger w)) \<rparr>)"
      by (rule world_ok_entry [OF ok Some eok' _ _ gm]) (simp_all add: world_frame)
    then show ?thesis by (simp add: update_entry_def Some)
  qed
  then show ?thesis by (simp add: on_ledger_def unlink_section_def)
qed

lemma collect_step: "world_ok w \<Longrightarrow> world_ok (on_ledger (collect k) w)"
  by (simp add: on_ledger_def world_ok_collect)

lemma abandon_step:
  assumes ok: "world_ok w" shows "world_ok (w\<lparr> wo_ledger := fst (abandon_section k (wo_ledger w)), wo_permits := ps \<rparr>)"
proof -
  have "world_ok (w\<lparr> wo_ledger := fst (abandon_section k (wo_ledger w)) \<rparr>)"
  proof (cases "entry_of (wo_ledger w) k")
    case None
    then show ?thesis using ok by (simp add: abandon_section_def)
  next
    case (Some e)
    have e: "entry_ok (e\<lparr> se_owner_dropped := True \<rparr>)" "same_counts e (e\<lparr> se_owner_dropped := True \<rparr>)"
      using world_entry_ok [OF ok Some] by (simp_all add: entry_ok_def same_counts_def)
    define l1 where "l1 = touch (if se_lifecycle e = Provisional \<and> se_writers e = 0 \<and> se_pins e = []
        then remove_entry k (wo_ledger w) else set_entry k (e\<lparr> se_owner_dropped := True \<rparr>) (wo_ledger w))"
    have "world_ok (w\<lparr> wo_ledger := l1 \<rparr>)"
      using world_ok_touch(1) [OF ok Some e] world_ok_remove [OF ok Some] by (simp add: l1_def)
    then show ?thesis by (simp add: abandon_section_def Some flip: l1_def)
  qed
  then show ?thesis by (rule world_ok_cong) simp_all
qed

lemma reserve_step:
  assumes ok: "world_ok w" and res: "reserve grant configured (wo_ledger w) = (l', Inr p)"
    and g: "grant \<le> I64_MAX" and key: "ls_next_key (wo_ledger w) < U64_MAX"
  shows "world_ok (w\<lparr> wo_ledger := l', wo_permits := ps \<rparr>)"
proof -
  let ?l = "wo_ledger w" let ?n = "ls_next_key ?l"
  define g' where "g' = (if configured \<le> 0 then 0 else max grant 0)"
  have l': "l' = touch (set_entry ?n (fresh_entry g') (?l\<lparr> ls_next_key := saturating_add_u64 ?n 1 \<rparr>))"
    using res by (auto simp: reserve_def Let_def g'_def split: if_splits)
  have next': "ls_next_key l' = Suc ?n" using key by (simp add: l' saturating_add_u64_def)
  have lok: "ledger_ok ?l" using ok by (simp add: world_ok_def)
  have eok: "entry_ok (fresh_entry g')" using g by (intro entry_ok_fresh) (auto simp: g'_def)
  have "ledger_ok (?l\<lparr> ls_next_key := Suc ?n \<rparr>)" using lok by (auto simp: ledger_ok_def)
  from ledger_ok_set [OF this eok, of ?n] have lok': "ledger_ok l'"
    using key by (simp add: l' saturating_add_u64_def)
  have entry: "entry_of l' k = (if k = ?n then Some (fresh_entry g') else entry_of ?l k)" for k
    by (simp add: l') (simp add: entry_of_def)
  have none: "writers_on w ?n = {#}" "pending_on w ?n = 0" "readers_on w ?n object = 0" for object
  proof -
    have f: "filter_mset (\<lambda>x. fst x = ?n) (wo_writers w) = {#}" "filter_mset (\<lambda>x. sw_key x = ?n) (wo_writes w) = {#}"
      using ok unfolding world_ok_def by (fastforce simp: multiset_eq_iff count_eq_zero_iff)+
    show "writers_on w ?n = {#}" "pending_on w ?n = 0" unfolding writers_on_def pending_on_def f by simp_all
    have "\<lparr> pn_key = ?n, pn_object = object \<rparr> \<notin># wo_pins w" using ok unfolding world_ok_def by force
    then show "readers_on w ?n object = 0" by (simp add: readers_on_def not_in_iff)
  qed
  have fresh: "guards_match w ?n (fresh_entry g')"
    using none by (simp add: guards_match_def fresh_entry_def pin_readers_def)
  have "world_ok (w\<lparr> wo_ledger := l' \<rparr>)"
    using ok lok' entry fresh next' unfolding world_ok_def guards_owned_def
    by (auto simp: guards_match_def world_frame less_Suc_eq)
  then show ?thesis by (rule world_ok_cong) simp_all
qed

lemma world_step_ok: "world_step w w' \<Longrightarrow> world_ok w \<Longrightarrow> world_ok w'"
proof (induction rule: world_step.induct)
  case (ws_authorize_first bytes k w l' sw)
  then obtain e where "entry_of (wo_ledger w) k = Some e" "bytes \<le> grant_unused e"
    "l' = touch (set_entry k (hold_pending bytes e) (wo_ledger w))" "sw = \<lparr> sw_key = k, sw_bytes = bytes \<rparr>"
    by (auto simp: authorize_first_def split: option.splits if_splits)
  then show ?case using authorize_step ws_authorize_first by blast
next
  case (ws_authorize_last bytes k w l' sw)
  then obtain e where "entry_of (wo_ledger w) k = Some e" "bytes \<le> grant_unused e"
    "l' = touch (set_entry k (hold_pending bytes e) (wo_ledger w))" "sw = \<lparr> sw_key = k, sw_bytes = bytes \<rparr>"
    by (auto simp: authorize_last_def split: option.splits if_splits)
  then show ?case using authorize_step ws_authorize_last by blast
qed (simp_all add: quiet_steps retire_step starve_step unstarve_step grow_step regrant_step commit_step
    register_step finish_step landed_def drop_write_def settle_step pin_step unpin_step unlink_all_step
    abandon_step reserve_step collect_step)

lemma reachable_ok: "reachable_world w \<Longrightarrow> world_ok w"
proof (induction rule: reachable_world.induct)
  case rw_new
  show ?case
    by (simp add: world_ok_def world_new_def ledger_new_def ledger_ok_def entry_of_def guards_owned_def
        writers_on_def readers_on_def)
next
  case (rw_step w w')
  then show ?case using world_step_ok by blast
qed

end
