(* ===== verification/ScratchProgress.thy ===== *)
theory ScratchProgress
  imports ScratchGuards
begin

text \<open>
  What only moves forward in the scratch ledger, whichever sections run and in whichever order:
  the lifecycle of an allocation, its fence, its inventory generation and the key counter; and
  what the ledger promises because of it.
\<close>

section \<open>What only moves forward\<close>

named_theorems forward

fun lifecycle_rank :: "scratch_lifecycle \<Rightarrow> nat" where
  "lifecycle_rank Provisional = 0" | "lifecycle_rank Producing = 1" | "lifecycle_rank Retiring = 2"
| "lifecycle_rank Retained = 3" | "lifecycle_rank Releasing = 4"

lemma lifecycle_rank_le: "lifecycle_rank x \<le> 4"
  by (cases x) simp_all

definition entry_advances :: "scratch_entry \<Rightarrow> scratch_entry \<Rightarrow> bool" where
  "entry_advances e e' \<longleftrightarrow> lifecycle_rank (se_lifecycle e) \<le> lifecycle_rank (se_lifecycle e') \<and>
     (se_writers_fenced e \<longrightarrow> se_writers_fenced e') \<and>
     min (se_inventory_generation e) U64_MAX \<le> se_inventory_generation e'"

definition ledger_advances :: "ledger \<Rightarrow> ledger \<Rightarrow> bool" where
  "ledger_advances l l' \<longleftrightarrow> ls_next_key l \<le> ls_next_key l' \<and>
     (\<forall>k e'. k < ls_next_key l \<longrightarrow> entry_of l' k = Some e' \<longrightarrow>
        (\<exists>e. entry_of l k = Some e \<and> entry_advances e e'))"

lemma entry_advances_refl [simp]: "entry_advances e e"
  by (simp add: entry_advances_def)

lemma entry_advances_trans: "entry_advances a b \<Longrightarrow> entry_advances b c \<Longrightarrow> entry_advances a c"
  by (auto simp: entry_advances_def)

lemma ledger_advances_refl [simp]: "ledger_advances l l"
  by (auto simp: ledger_advances_def)

lemma ledger_advances_trans: "ledger_advances a b \<Longrightarrow> ledger_advances b c \<Longrightarrow> ledger_advances a c"
  unfolding ledger_advances_def by (meson entry_advances_trans less_le_trans order_trans)

lemma ledger_advances_touch [simp]: "ledger_advances l (touch l') = ledger_advances l l'"
  by (simp add: ledger_advances_def)

lemma ledger_advances_set:
  "entry_of l k = Some e \<Longrightarrow> entry_advances e e' \<Longrightarrow> ledger_advances l (set_entry k e' l)"
  by (auto simp: ledger_advances_def)

lemma ledger_advances_update:
  "(\<And>e. entry_advances e (f e)) \<Longrightarrow> ledger_advances l (update_entry k f l)"
  by (cases "entry_of l k") (simp_all add: update_entry_def ledger_advances_set)

lemma ledger_advances_remove [simp]: "ledger_advances l (remove_entry k l)"
  by (auto simp: ledger_advances_def)

lemma ledger_advances_collect: "ledger_advances l l' \<Longrightarrow> ledger_advances l (collect k l')"
  using ledger_advances_trans [OF _ ledger_advances_remove [of l' k]]
  by (auto simp: collect_def split: option.split)

lemma entry_advances_same:
  "se_lifecycle e' = se_lifecycle e \<Longrightarrow> se_writers_fenced e' = se_writers_fenced e \<Longrightarrow>
   se_inventory_generation e' = se_inventory_generation e \<Longrightarrow> entry_advances e e'"
  by (simp add: entry_advances_def)

lemma advances_measure [forward]:
  "ledger_advances l (observe_walk k bytes before l)"
  "ledger_advances l (observe_unlinked k bytes l)"
  "ledger_advances l (note_conservative k reason l)"
  "ledger_advances l (settle_write k b n l)"
  unfolding observe_walk_def observe_unlinked_def note_conservative_def settle_write_def ledger_advances_touch
  by (rule ledger_advances_update, simp add: entry_advances_same)+

lemma advances_lifecycle [forward]:
  "ledger_advances l (bind_session k sid attempt l)"
  "ledger_advances l (begin_release k l)"
  "ledger_advances l (unlink_section k l)"
  unfolding bind_session_def begin_release_def unlink_section_def ledger_advances_touch
  by (rule ledger_advances_update, simp add: entry_advances_def lifecycle_rank_le)+

lemma advances_retire [forward]: "ledger_advances l (fst (begin_retirement k l))"
proof (cases "entry_of l k")
  case (Some e)
  show ?thesis
    by (cases "se_lifecycle e")
      (simp_all add: begin_retirement_def Some ledger_advances_set [OF Some] entry_advances_def)
qed (simp add: begin_retirement_def)

lemma advances_starve [forward]:
  "ledger_advances l (fst (starve k l))" "ledger_advances l (fst (unstarve k l))"
  by (cases "entry_of l k"; simp add: starve_def unstarve_def Let_def ledger_advances_set entry_advances_same)+

lemma advances_commit [forward]: "ledger_advances l (fst (commit_quiescent_measurement k generation bytes l))"
proof (cases "entry_of l k")
  case (Some e)
  have stale: "ledger_advances l (l'\<lparr> ls_stale_measurements := n \<rparr>) = ledger_advances l l'" for l' n
    by (simp add: ledger_advances_def entry_of_def)
  show ?thesis
    by (cases "se_lifecycle e")
      (simp_all add: commit_quiescent_measurement_def Some Let_def stale ledger_advances_set [OF Some] entry_advances_def)
qed (simp add: commit_quiescent_measurement_def)

lemma advances_grow [forward]: "ledger_advances l (fst (grow k additional configured l))"
  by (cases "entry_of l k"; cases "additional \<le> 0")
    (auto simp: grow_def Let_def ledger_advances_set entry_advances_same split: option.split)

lemma advances_regrant [forward]: "ledger_advances l (fst (regrant k envelope configured l))"
  by (cases "entry_of l k") (auto simp: regrant_def Let_def ledger_advances_set entry_advances_same)

lemma advances_authorize:
  "entry_of l k = Some e \<Longrightarrow> ledger_advances l (set_entry k (hold_pending b e) l)"
  by (simp add: hold_pending_def ledger_advances_set entry_advances_same)

lemma advances_authorize_first [forward]:
  "authorize_first k b l = (l', r) \<Longrightarrow> ledger_advances l l'"
  by (auto simp: authorize_first_def advances_authorize split: option.splits if_splits)

lemma advances_authorize_last [forward]:
  "authorize_last k b l = (l', r) \<Longrightarrow> ledger_advances l l'"
  by (auto simp: authorize_last_def advances_authorize split: option.splits if_splits)

lemma advances_register [forward]:
  "register_writer k l = (l', r) \<Longrightarrow> ledger_advances l l'"
  by (auto simp: register_writer_def Let_def entry_advances_def saturating_add_u64_def
      intro!: ledger_advances_set split: option.splits if_splits)

lemma advances_collect [forward]: "ledger_advances l (collect k l)"
  by (rule ledger_advances_collect) simp

lemma advances_finish [forward]: "ledger_advances l (fst (finish_section k i l))"
proof (cases "entry_of l k")
  case (Some e)
  have *: "entry_advances e (e\<lparr> se_live_writers := ws, se_writers := n,
      se_inventory_generation := saturating_add_u64 (se_inventory_generation e) 1 \<rparr>)" for ws n
    by (simp add: entry_advances_def saturating_add_u64_def)
  show ?thesis
    using ledger_advances_set [OF Some *]
    by (auto simp: finish_section_def Some Let_def split: option.split)
qed (simp add: finish_section_def)

lemma advances_pin [forward]: "acquire_pin k name bytes l = (l', r) \<Longrightarrow> ledger_advances l l'"
  by (auto simp: acquire_pin_def Let_def entry_advances_same intro!: ledger_advances_set
      split: option.splits if_splits)

lemma advances_unpin [forward]: "ledger_advances l (fst (unpin_section k object l))"
  by (cases "entry_of l k")
    (auto simp: unpin_section_def Let_def entry_advances_same intro!: ledger_advances_set)

lemma advances_abandon [forward]: "ledger_advances l (fst (abandon_section k l))"
  by (cases "entry_of l k")
    (auto simp: abandon_section_def entry_advances_same intro!: ledger_advances_set)

lemma advances_reserve [forward]:
  assumes "reserve grant configured l = (l', r)" shows "ledger_advances l l' \<or> U64_MAX \<le> ls_next_key l"
proof -
  have keep: "ledger_advances l (set_entry (ls_next_key l) e (l\<lparr> ls_next_key := saturating_add_u64 (ls_next_key l) 1 \<rparr>)) \<or>
      U64_MAX \<le> ls_next_key l" for e
    by (auto simp: ledger_advances_def saturating_add_u64_def set_entry_def entry_of_def update_conv')
  show ?thesis
    using assms keep by (auto simp: reserve_def Let_def split: if_splits)
qed

lemma world_step_advances: "world_step w w' \<Longrightarrow> ledger_advances (wo_ledger w) (wo_ledger w')"
proof (induction rule: world_step.induct)
  case (ws_reserve grant configured w l' p)
  then show ?case using advances_reserve by fastforce
qed (simp_all add: on_ledger_def forward landed_def drop_write_def)

lemma world_steps_advance: "world_step\<^sup>*\<^sup>* w w' \<Longrightarrow> ledger_advances (wo_ledger w) (wo_ledger w')"
  by (induction rule: rtranclp_induct) (auto intro: ledger_advances_trans world_step_advances)

section \<open>What the ledger promises\<close>

lemma reachable_steps: "world_step\<^sup>*\<^sup>* w w' \<Longrightarrow> reachable_world w \<Longrightarrow> reachable_world w'"
  by (induction rule: rtranclp_induct) (auto intro: rw_step)

text \<open>C3: The ledger's counters are exactly its guards: in every reachable state an entry's
  writer count is the number of live writer guards on it, its pending bytes are the bytes
  the live write guards hold, and each pin group counts its live pins.\<close>

theorem counters_match_guards:
  assumes "reachable_world w" and "entry_of (wo_ledger w) k = Some e"
  shows "se_writers e = size (writers_on w k) \<and> se_pending_bytes e = pending_on w k \<and>
    (\<forall>object. pin_readers (se_pins e) object = readers_on w k object)"
proof -
  have "guards_match w k e" using reachable_ok [OF assms(1)] assms(2) by (simp add: world_ok_def)
  then show ?thesis unfolding guards_match_def by (metis size_mset)
qed

text \<open>Accounting outlives its users and never its use: an allocation with a live writer or a
  live reader is still in the ledger, whatever released, abandoned or unlinked it.\<close>

theorem no_orphan_guards:
  assumes "reachable_world w" and "(k, i) \<in># wo_writers w \<or> pin \<in># wo_pins w \<and> pn_key pin = k"
  shows "entry_of (wo_ledger w) k \<noteq> None"
proof
  assume none: "entry_of (wo_ledger w) k = None"
  have own: "writers_on w k = {#}" "readers_on w k object = 0" for object
    using reachable_ok [OF assms(1)] none by (auto simp: world_ok_def guards_owned_def simp del: split_paired_All)
  have "\<not> (k, i) \<in># wo_writers w"
  proof
    assume "(k, i) \<in># wo_writers w"
    then have "i \<in># writers_on w k" unfolding writers_on_def by force
    then show False using own(1) by simp
  qed
  moreover have eta: "\<lparr> pn_key = pn_key pin, pn_object = pn_object pin \<rparr> = pin" by simp
  have "\<not> (pin \<in># wo_pins w \<and> pn_key pin = k)"
    using own(2) [of "pn_object pin"] eta unfolding readers_on_def by (metis not_in_iff)
  ultimately show False using assms(2) by blast
qed







lemma generation_kept:
  assumes "ledger_advances l l'" and "k < ls_next_key l" and "inventory_generation_of l' k = Some h"
  obtains g where "inventory_generation_of l k = Some g" and "min g U64_MAX \<le> h"
  using assms by (fastforce simp: inventory_generation_of_def ledger_advances_def entry_advances_def)

lemma generation_bumped:
  assumes "inventory_generation_of l k = Some g"
    and "register_writer k l = (l', Some i) \<or>
      l' = fst (finish_section k i l) \<and> (\<forall>e. entry_of l k = Some e \<longrightarrow> i \<in> set (se_live_writers e))"
    and "inventory_generation_of l' k = Some h"
  shows "min (Suc g) U64_MAX \<le> h"
proof -
  obtain e where e: "entry_of l k = Some e" "se_inventory_generation e = g"
    using assms(1) by (auto simp: inventory_generation_of_def)
  from assms(2) show ?thesis
  proof
    assume "register_writer k l = (l', Some i)"
    then show ?thesis using assms(3) e
      by (auto simp: register_writer_def Let_def inventory_generation_of_def saturating_add_u64_def split: if_splits)
  next
    assume f: "l' = fst (finish_section k i l) \<and> (\<forall>e. entry_of l k = Some e \<longrightarrow> i \<in> set (se_live_writers e))"
    then have "index_of i (se_live_writers e) \<noteq> None" using e index_of_None by metis
    then obtain at where "index_of i (se_live_writers e) = Some at" by blast
    then show ?thesis using assms(3) e f
      by (auto simp: finish_section_def Let_def inventory_generation_of_def saturating_add_u64_def
          split: if_splits)
  qed
qed

text \<open>C18: A measurement that raced a writer is refused: if any writer registered or finished after
  the generation was read, no interleaving lets the measured figure replace the charge.\<close>

theorem raced_measurement_refused:
  assumes "reachable_world w\<^sub>0" and "inventory_generation_of (wo_ledger w\<^sub>0) k = Some g" and "g < U64_MAX"
    and "world_step\<^sup>*\<^sup>* w\<^sub>0 w\<^sub>1"
    and "register_writer k (wo_ledger w\<^sub>1) = (wo_ledger w\<^sub>2, Some i) \<or>
      (k, i) \<in># wo_writers w\<^sub>1 \<and> wo_ledger w\<^sub>2 = fst (finish_section k i (wo_ledger w\<^sub>1))"
    and "world_step\<^sup>*\<^sup>* w\<^sub>2 w\<^sub>3"
  shows "\<not> snd (commit_quiescent_measurement k g bytes (wo_ledger w\<^sub>3))"
proof (cases "inventory_generation_of (wo_ledger w\<^sub>3) k")
  case None
  then show ?thesis by (simp add: inventory_generation_of_def commit_quiescent_measurement_def)
next
  case (Some h)
  let ?l1 = "wo_ledger w\<^sub>1" let ?l2 = "wo_ledger w\<^sub>2"
  have key: "k < ls_next_key (wo_ledger w\<^sub>0)"
    using reachable_ok [OF assms(1)] assms(2) entry_of_ok by (auto simp: inventory_generation_of_def world_ok_def)
  have adv: "ledger_advances (wo_ledger w\<^sub>0) ?l1" by (rule world_steps_advance [OF assms(4)])
  have live: "\<forall>e. entry_of ?l1 k = Some e \<longrightarrow> i \<in> set (se_live_writers e)" if m: "(k, i) \<in># wo_writers w\<^sub>1"
  proof (intro allI impI)
    fix e assume "entry_of ?l1 k = Some e"
    then have "mset (se_live_writers e) = writers_on w\<^sub>1 k"
      using reachable_ok [OF reachable_steps [OF assms(4,1)]] by (simp add: world_ok_def guards_match_def)
    moreover have "i \<in># writers_on w\<^sub>1 k" using m unfolding writers_on_def by force
    ultimately show "i \<in> set (se_live_writers e)" by (metis set_mset_mset)
  qed
  have next12: "ledger_advances ?l1 ?l2" using assms(5) advances_register advances_finish by metis
  have k1: "k < ls_next_key ?l1" and k2: "k < ls_next_key ?l2"
    using key adv next12 by (auto simp: ledger_advances_def)
  obtain h2 where h2: "inventory_generation_of ?l2 k = Some h2" "min h2 U64_MAX \<le> h"
    using generation_kept [OF world_steps_advance [OF assms(6)] k2 Some] .
  obtain h1 where h1: "inventory_generation_of ?l1 k = Some h1" using generation_kept [OF next12 k1 h2(1)] .
  obtain g' where g': "inventory_generation_of (wo_ledger w\<^sub>0) k = Some g'" "min g' U64_MAX \<le> h1"
    using generation_kept [OF adv key h1] .
  have "min (Suc h1) U64_MAX \<le> h2" using generation_bumped [OF h1 _ h2(1)] assms(5) live by metis
  then have "g < h" using g' h2(2) assms(2,3) by auto
  then show ?thesis using Some
    by (auto simp: commit_quiescent_measurement_def inventory_generation_of_def split: if_splits)
qed

section \<open>Witnesses\<close>

text \<open>One allocation of 100 bytes under a ceiling of 1000, then a writer, then a pin, then the fence.\<close>

definition demo_reserved :: world where
  "demo_reserved = world_new\<lparr> wo_ledger := fst (reserve 100 1000 ledger_new),
     wo_permits := {# \<lparr> sp_key = 1, sp_bytes = 100 \<rparr> #} \<rparr>"

definition demo_writing :: world where
  "demo_writing = demo_reserved\<lparr> wo_ledger := fst (register_writer 1 (wo_ledger demo_reserved)),
     wo_writers := {# (1, 1) #} \<rparr>"

definition demo_fenced :: world where
  "demo_fenced = on_ledger (\<lambda>l. fst (begin_retirement 1 l)) demo_writing"

lemmas demo_simps = demo_reserved_def demo_writing_def demo_fenced_def world_new_def ledger_new_def
  reserve_def fresh_entry_def register_writer_def begin_retirement_def on_ledger_def Let_def
  touch_def set_entry_def entry_of_def ledger_total_def sum_sat_i64_def add_or_max_def
  checked_add_i64_def saturating_add_u64_def wrapping_add_u64_def

lemma demo_reserved_ledger: "wo_ledger demo_reserved =
    \<lparr> ls_generation = 1, ls_next_key = 2, ls_entries = [(1, fresh_entry 100)], ls_stale_measurements = 0 \<rparr>"
  by (simp add: demo_simps)

lemma demo_writing_ledger: "wo_ledger demo_writing =
    \<lparr> ls_generation = 2, ls_next_key = 2,
      ls_entries = [(1, (fresh_entry 100)\<lparr> se_next_writer := 2, se_writers := 1, se_live_writers := [1],
         se_inventory_generation := 2 \<rparr>)], ls_stale_measurements = 0 \<rparr>"
  by (simp add: demo_simps)

lemma demo_reachable: "reachable_world demo_reserved" "world_step demo_reserved demo_writing"
    "reachable_world demo_writing" "world_step demo_writing demo_fenced"
proof -
  have "reserve 100 1000 (wo_ledger world_new) = (fst (reserve 100 1000 ledger_new), Inr \<lparr> sp_key = 1, sp_bytes = 100 \<rparr>)"
    by (simp add: demo_simps)
  from ws_reserve [OF this] have "world_step world_new demo_reserved"
    by (simp add: world_new_def ledger_new_def demo_reserved_def)
  then show r: "reachable_world demo_reserved" by (rule rw_step [OF rw_new])
  have "register_writer 1 (wo_ledger demo_reserved) = (fst (register_writer 1 (wo_ledger demo_reserved)), Some 1)"
    unfolding demo_reserved_ledger by (simp add: demo_simps)
  from ws_register [OF this] show s: "world_step demo_reserved demo_writing"
    by (simp add: demo_writing_def) (simp add: demo_simps)
  show "reachable_world demo_writing" by (rule rw_step [OF r s])
  show "world_step demo_writing demo_fenced" unfolding demo_fenced_def by (rule ws_retire)
qed

theorem counters_match_guards_witness:
  "reachable_world demo_writing \<and> writers_on demo_writing 1 = {# 1 #}"
  using counters_match_guards [OF demo_reachable(3), of 1] demo_reachable(3)
  by (simp add: demo_writing_ledger entry_of_def) (simp add: writers_on_def demo_writing_def)

theorem no_orphan_guards_witness: "entry_of (wo_ledger demo_writing) 1 \<noteq> None"
  by (rule no_orphan_guards [OF demo_reachable(3), of 1 1]) (simp add: demo_writing_def)


theorem raced_measurement_refused_witness:
  "\<not> snd (commit_quiescent_measurement 1 1 64 (wo_ledger demo_fenced))"
  using raced_measurement_refused [OF demo_reachable(1), of 1 1 demo_reserved demo_writing 1 demo_fenced 64]
    r_into_rtranclp [of world_step, OF demo_reachable(4)]
  unfolding demo_reserved_ledger demo_writing_ledger by (simp add: inventory_generation_of_def demo_simps)

end
