(* ===== verification/Admission.thy ===== *)
theory Admission
  imports F64
begin

text \<open>
  Transcode admission, \<open>crates/plurxd/src/admission.rs\<close>: the one permit state behind the
  hardware and software pools, its reservations and families, the operations that grant
  permits, and the decision for a start. Every operation is one critical section; what
  \<open>Instant::now()\<close> answers is the argument \<open>now\<close>. A guard is a record; the guards alive
  are a store keyed by address, because adopting a guard into a family writes to it. A count
  of live guards is a plain natural: they are objects in memory. Sums of threads wrap as the
  unchecked additions of the code do.
\<close>

section \<open>Data\<close>

datatype priority = Live | Speculative | Background

datatype permit_owner = LiveOwner | BackgroundOwner

fun owner_of :: "priority \<Rightarrow> permit_owner" where
  "owner_of Live = LiveOwner"
| "owner_of Speculative = LiveOwner"
| "owner_of Background = BackgroundOwner"

record resource_estimate =
  re_hardware_slot :: bool
  re_cpu_threads :: nat
  re_decoder_threads :: "nat option"

record reservation =
  rv_token :: nat
  rv_hardware :: bool
  rv_cpu_threads :: nat
  rv_expires :: nat

record family_usage =
  fu_cpu_limit :: nat
  fu_hardware_limit :: nat
  fu_cpu_used :: nat
  fu_hardware_used :: nat
  fu_guards :: nat
  fu_exclusive :: bool

record permit_state =
  pm_live_waiting :: nat
  pm_live_capacity_waiting :: nat
  pm_hardware_live :: nat
  pm_hardware_background :: nat
  pm_software_live_permits :: nat
  pm_software_background_permits :: nat
  pm_software_live_used :: nat
  pm_software_background_used :: nat
  pm_reservations :: "reservation list"
  pm_next_reservation :: nat
  pm_families :: "(nat \<times> family_usage) list"
  pm_next_family :: nat

definition permits_new :: permit_state where
  "permits_new = \<lparr> pm_live_waiting = 0, pm_live_capacity_waiting = 0, pm_hardware_live = 0,
     pm_hardware_background = 0, pm_software_live_permits = 0, pm_software_background_permits = 0,
     pm_software_live_used = 0, pm_software_background_used = 0, pm_reservations = [],
     pm_next_reservation = 0, pm_families = [], pm_next_family = 0 \<rparr>"

record hw_slot =
  hs_owner :: permit_owner
  hs_family :: nat

record sw_permit =
  wp_owner :: permit_owner
  wp_weight :: nat
  wp_family :: nat

record transcode_permit =
  tp_hardware :: "hw_slot option"
  tp_software :: "sw_permit option"

section \<open>Reading the permit state\<close>

definition family_blocked :: "permit_state \<Rightarrow> nat option \<Rightarrow> bool" where
  "family_blocked st except =
     list_ex (\<lambda>(id1, f). fu_exclusive f \<and> Some id1 \<noteq> except) (pm_families st)"

definition live_active :: "permit_state \<Rightarrow> bool" where
  "live_active st \<longleftrightarrow> 0 < pm_hardware_live st \<or> 0 < pm_software_live_permits st"

definition background_active :: "permit_state \<Rightarrow> bool" where
  "background_active st \<longleftrightarrow> 0 < pm_hardware_background st \<or> 0 < pm_software_background_permits st"

definition live_reservations :: "permit_state \<Rightarrow> nat option \<Rightarrow> nat \<Rightarrow> reservation list" where
  "live_reservations st except now =
     filter (\<lambda>r. now < rv_expires r \<and> Some (rv_token r) \<noteq> except) (pm_reservations st)"

definition has_reservation :: "permit_state \<Rightarrow> nat \<Rightarrow> bool" where
  "has_reservation st now \<longleftrightarrow> live_reservations st None now \<noteq> []"

definition holds_reservation :: "permit_state \<Rightarrow> nat \<Rightarrow> nat \<Rightarrow> bool" where
  "holds_reservation st token now \<longleftrightarrow> list_ex (\<lambda>r. rv_token r = token) (live_reservations st None now)"

definition prune :: "nat \<Rightarrow> permit_state \<Rightarrow> permit_state" where
  "prune now st = st\<lparr> pm_reservations := filter (\<lambda>r. now < rv_expires r) (pm_reservations st) \<rparr>"

definition hardware_used_except :: "permit_state \<Rightarrow> nat option \<Rightarrow> nat \<Rightarrow> nat" where
  "hardware_used_except st except now =
     pm_hardware_live st + pm_hardware_background st
       + length (filter rv_hardware (live_reservations st except now))"

definition hardware_used :: "permit_state \<Rightarrow> nat \<Rightarrow> nat" where
  "hardware_used st now = hardware_used_except st None now"

definition software_used_except :: "permit_state \<Rightarrow> nat option \<Rightarrow> nat \<Rightarrow> nat" where
  "software_used_except st except now =
     wrapping_add_u64 (wrapping_add_u64 (pm_software_live_used st) (pm_software_background_used st))
       (foldl wrapping_add_u64 0 (map rv_cpu_threads (live_reservations st except now)))"

definition software_used :: "permit_state \<Rightarrow> nat \<Rightarrow> nat" where
  "software_used st now = software_used_except st None now"

definition background_blocked :: "permit_state \<Rightarrow> nat \<Rightarrow> bool" where
  "background_blocked st now \<longleftrightarrow> 0 < pm_live_waiting st \<or> live_active st \<or> has_reservation st now"

section \<open>Guards\<close>

text \<open>\<open>release_family\<close>; \<open>None\<close> is the panic of its \<open>expect\<close>.\<close>

definition release_family :: "nat \<Rightarrow> bool \<Rightarrow> nat \<Rightarrow> permit_state \<Rightarrow> permit_state option" where
  "release_family id1 hardware cpu st =
     (if id1 = 0 then Some st
      else case map_of (pm_families st) id1 of None \<Rightarrow> None
      | Some f \<Rightarrow>
          let f' = f\<lparr> fu_cpu_used := wrapping_sub_u64 (fu_cpu_used f) cpu,
                      fu_hardware_used := wrapping_sub_u64 (fu_hardware_used f) (if hardware then 1 else 0),
                      fu_guards := wrapping_sub_u64 (fu_guards f) 1 \<rparr>
          in Some (st\<lparr> pm_families := (if fu_guards f' = 0 then AList.delete id1 (pm_families st)
                                        else AList.update id1 f' (pm_families st)) \<rparr>))"

definition drop_hw_slot :: "hw_slot \<Rightarrow> permit_state \<Rightarrow> permit_state option" where
  "drop_hw_slot slot st =
     (case release_family (hs_family slot) True 0 st of None \<Rightarrow> None
      | Some st \<Rightarrow> Some (case hs_owner slot of
            LiveOwner \<Rightarrow> st\<lparr> pm_hardware_live := pm_hardware_live st - 1 \<rparr>
          | BackgroundOwner \<Rightarrow> st\<lparr> pm_hardware_background := pm_hardware_background st - 1 \<rparr>))"

definition drop_sw_permit :: "sw_permit \<Rightarrow> permit_state \<Rightarrow> permit_state option" where
  "drop_sw_permit permit st =
     (case release_family (wp_family permit) False (wp_weight permit) st of None \<Rightarrow> None
      | Some st \<Rightarrow> Some (case wp_owner permit of
            LiveOwner \<Rightarrow>
              st\<lparr> pm_software_live_permits := pm_software_live_permits st - 1,
                  pm_software_live_used := pm_software_live_used st - wp_weight permit \<rparr>
          | BackgroundOwner \<Rightarrow>
              st\<lparr> pm_software_background_permits := pm_software_background_permits st - 1,
                  pm_software_background_used := pm_software_background_used st - wp_weight permit \<rparr>))"

section \<open>Single permits\<close>

text \<open>The priority rules every grant applies first.\<close>

definition priority_refuses :: "permit_state \<Rightarrow> priority \<Rightarrow> nat \<Rightarrow> bool" where
  "priority_refuses st priority now = (case priority of
       Live \<Rightarrow> background_active st
     | Background \<Rightarrow> background_blocked st now
     | Speculative \<Rightarrow> 0 < pm_live_waiting st \<or> background_active st)"

definition count_software :: "priority \<Rightarrow> nat \<Rightarrow> permit_state \<Rightarrow> permit_state" where
  "count_software priority threads st = (case owner_of priority of
       LiveOwner \<Rightarrow> st\<lparr> pm_software_live_permits := pm_software_live_permits st + 1,
                         pm_software_live_used := wrapping_add_u64 (pm_software_live_used st) threads \<rparr>
     | BackgroundOwner \<Rightarrow>
         st\<lparr> pm_software_background_permits := pm_software_background_permits st + 1,
             pm_software_background_used := wrapping_add_u64 (pm_software_background_used st) threads \<rparr>)"

definition count_hardware :: "priority \<Rightarrow> permit_state \<Rightarrow> permit_state" where
  "count_hardware priority st = (case owner_of priority of
       LiveOwner \<Rightarrow> st\<lparr> pm_hardware_live := pm_hardware_live st + 1 \<rparr>
     | BackgroundOwner \<Rightarrow> st\<lparr> pm_hardware_background := pm_hardware_background st + 1 \<rparr>)"

definition try_take ::
    "nat \<Rightarrow> nat \<Rightarrow> priority \<Rightarrow> nat \<Rightarrow> permit_state \<Rightarrow> permit_state \<times> sw_permit option" where
  "try_take budget threads priority now st =
     (if family_blocked st None \<or> priority_refuses st priority now then (st, None)
      else let used = software_used st now in
        if 0 < used \<and> budget < wrapping_add_u64 used threads then (st, None)
        else (count_software priority threads st,
              Some \<lparr> wp_owner = owner_of priority, wp_weight = threads, wp_family = 0 \<rparr>))"

definition try_take_delta :: "nat \<Rightarrow> nat \<Rightarrow> nat \<Rightarrow> permit_state \<Rightarrow> permit_state \<times> sw_permit option" where
  "try_take_delta budget threads now st = try_take budget threads Live now st"

definition take_over_background ::
    "nat \<Rightarrow> nat \<Rightarrow> nat \<Rightarrow> permit_state \<Rightarrow> permit_state \<times> sw_permit option" where
  "take_over_background budget threads now st =
     (if family_blocked st None then (st, None)
      else let live_used = software_used st now - pm_software_background_used st in
        if 0 < live_used \<and> budget < wrapping_add_u64 live_used threads then (st, None)
        else (count_software Live threads st,
              Some \<lparr> wp_owner = LiveOwner, wp_weight = threads, wp_family = 0 \<rparr>))"

definition take_forced :: "nat \<Rightarrow> permit_state \<Rightarrow> permit_state \<times> sw_permit" where
  "take_forced threads st =
     (count_software Live threads st, \<lparr> wp_owner = LiveOwner, wp_weight = threads, wp_family = 0 \<rparr>)"

definition try_acquire :: "nat \<Rightarrow> priority \<Rightarrow> nat \<Rightarrow> permit_state \<Rightarrow> permit_state \<times> hw_slot option" where
  "try_acquire limit priority now st =
     (if family_blocked st None \<or> priority_refuses st priority now \<or> limit \<le> hardware_used st now
      then (st, None)
      else (count_hardware priority st, Some \<lparr> hs_owner = owner_of priority, hs_family = 0 \<rparr>))"

definition try_acquire_over_background ::
    "nat \<Rightarrow> nat \<Rightarrow> permit_state \<Rightarrow> permit_state \<times> hw_slot option" where
  "try_acquire_over_background limit now st =
     (if family_blocked st None \<or> limit \<le> hardware_used st now then (st, None)
      else (count_hardware Live st, Some \<lparr> hs_owner = LiveOwner, hs_family = 0 \<rparr>))"

section \<open>Bundles\<close>

definition checked_sum :: "nat list \<Rightarrow> nat option" where
  "checked_sum xs = foldl (\<lambda>acc x. Option.bind acc (\<lambda>s. checked_add_usize s x)) (Some 0) xs"

definition count_bundle :: "priority \<Rightarrow> permit_state \<Rightarrow> resource_estimate \<Rightarrow> permit_state" where
  "count_bundle priority st e =
     (let st = (if re_hardware_slot e then count_hardware priority st else st) in
      if 0 < re_cpu_threads e then count_software priority (re_cpu_threads e) st else st)"

definition permit_for :: "permit_owner \<Rightarrow> nat \<Rightarrow> resource_estimate \<Rightarrow> transcode_permit" where
  "permit_for owner family e =
     \<lparr> tp_hardware = (if re_hardware_slot e then Some \<lparr> hs_owner = owner, hs_family = family \<rparr> else None),
       tp_software = (if 0 < re_cpu_threads e
          then Some \<lparr> wp_owner = owner, wp_weight = re_cpu_threads e, wp_family = family \<rparr> else None) \<rparr>"

definition try_admit_bundles_claiming ::
    "nat \<Rightarrow> nat \<Rightarrow> resource_estimate list \<Rightarrow> priority \<Rightarrow> nat option \<Rightarrow> nat \<Rightarrow> permit_state \<Rightarrow>
     permit_state \<times> transcode_permit list option" where
  "try_admit_bundles_claiming hardware_max budget estimates priority claim now st =
     (if estimates = [] \<or> 3 < length estimates then (st, None)
      else let hardware_needed = length (filter re_hardware_slot estimates) in
      case checked_sum (map re_cpu_threads estimates) of None \<Rightarrow> (st, None)
      | Some software_needed \<Rightarrow>
        if 1 < length estimates \<and> budget < software_needed \<or> family_blocked st None then (st, None)
        else let st = prune now st;
                 claim = (case claim of None \<Rightarrow> None
                          | Some t \<Rightarrow> if holds_reservation st t now then Some t else None) in
        if (case priority of
              Live \<Rightarrow> background_active st
            | Background \<Rightarrow> background_blocked st now
            | Speculative \<Rightarrow> 0 < pm_live_waiting st \<and> claim = None \<or> background_active st)
        then (st, None)
        else if 0 < hardware_needed \<and>
                (case checked_add_usize (hardware_used_except st claim now) hardware_needed of
                   None \<Rightarrow> True | Some s \<Rightarrow> hardware_max < s)
        then (st, None)
        else if 0 < software_needed \<and>
                (0 < software_used_except st claim now \<or> 1 < length estimates) \<and>
                (case checked_add_usize (software_used_except st claim now) software_needed of
                   None \<Rightarrow> True | Some s \<Rightarrow> budget < s)
        then (st, None)
        else let st = (case claim of None \<Rightarrow> st
                       | Some t \<Rightarrow> st\<lparr> pm_reservations := filter (\<lambda>r. rv_token r \<noteq> t) (pm_reservations st) \<rparr>)
             in (foldl (count_bundle priority) st estimates,
                 Some (map (permit_for (owner_of priority) 0) estimates)))"

text \<open>\<open>try_admit_bundle_claiming\<close> and \<open>try_admit_bundle\<close>: one estimate, \<open>pop\<close> of the group.\<close>

definition try_admit_bundle_claiming ::
    "nat \<Rightarrow> nat \<Rightarrow> resource_estimate \<Rightarrow> priority \<Rightarrow> nat option \<Rightarrow> nat \<Rightarrow> permit_state \<Rightarrow>
     permit_state \<times> transcode_permit option" where
  "try_admit_bundle_claiming hardware_max budget e priority claim now st =
     (case try_admit_bundles_claiming hardware_max budget [e] priority claim now st of
        (st', None) \<Rightarrow> (st', None)
      | (st', Some ps) \<Rightarrow> (st', if ps = [] then None else Some (last ps)))"

definition try_admit_bundle ::
    "nat \<Rightarrow> nat \<Rightarrow> resource_estimate \<Rightarrow> priority \<Rightarrow> nat \<Rightarrow> permit_state \<Rightarrow>
     permit_state \<times> transcode_permit option" where
  "try_admit_bundle hardware_max budget e priority now st =
     try_admit_bundle_claiming hardware_max budget e priority None now st"

section \<open>Waiting, reservations and questions\<close>

definition queue_for_slot :: "permit_state \<Rightarrow> permit_state" where
  "queue_for_slot st = st\<lparr> pm_live_waiting := pm_live_waiting st + 1 \<rparr>"

text \<open>A \<open>LiveWait\<close> is whether it has reported a failed attempt.\<close>

definition mark_capacity_blocked :: "bool \<Rightarrow> permit_state \<Rightarrow> permit_state \<times> bool" where
  "mark_capacity_blocked blocked st =
     (if blocked then (st, True)
      else (st\<lparr> pm_live_capacity_waiting := pm_live_capacity_waiting st + 1 \<rparr>, True))"

definition drop_wait :: "bool \<Rightarrow> permit_state \<Rightarrow> permit_state" where
  "drop_wait blocked st =
     (let st = st\<lparr> pm_live_waiting := pm_live_waiting st - 1 \<rparr> in
      if blocked then st\<lparr> pm_live_capacity_waiting := pm_live_capacity_waiting st - 1 \<rparr> else st)"

definition live_is_waiting :: "permit_state \<Rightarrow> bool" where
  "live_is_waiting st \<longleftrightarrow> 0 < pm_live_waiting st"

definition live_capacity_is_waiting :: "permit_state \<Rightarrow> bool" where
  "live_capacity_is_waiting st \<longleftrightarrow> 0 < pm_live_capacity_waiting st"

definition background_must_yield :: "permit_state \<Rightarrow> nat \<Rightarrow> bool" where
  "background_must_yield st now = background_blocked st now"

definition reserve_for_handoff :: "resource_estimate \<Rightarrow> nat \<Rightarrow> nat \<Rightarrow> permit_state \<Rightarrow> permit_state \<times> nat" where
  "reserve_for_handoff e ttl now st =
     (let st = prune now st; token = wrapping_add_u64 (pm_next_reservation st) 1 in
      (st\<lparr> pm_next_reservation := token,
           pm_reservations := pm_reservations st @
             [\<lparr> rv_token = token, rv_hardware = re_hardware_slot e, rv_cpu_threads = re_cpu_threads e,
                rv_expires = now + ttl \<rparr>] \<rparr>, token))"

definition release_reservation :: "nat \<Rightarrow> permit_state \<Rightarrow> permit_state" where
  "release_reservation token st =
     st\<lparr> pm_reservations := filter (\<lambda>r. rv_token r \<noteq> token) (pm_reservations st) \<rparr>"

record pool_snapshot =
  pq_hardware_used :: nat
  pq_software_used :: nat
  pq_live_waiting :: nat
  pq_background_active :: bool
  pq_reservations :: nat

definition pool_snapshot_of :: "permit_state \<Rightarrow> nat \<Rightarrow> pool_snapshot" where
  "pool_snapshot_of st now =
     \<lparr> pq_hardware_used = hardware_used st now, pq_software_used = software_used st now,
       pq_live_waiting = pm_live_waiting st, pq_background_active = background_active st,
       pq_reservations = length (live_reservations st None now) \<rparr>"

definition fits_after_release ::
    "permit_state \<Rightarrow> nat \<Rightarrow> nat \<Rightarrow> resource_estimate \<Rightarrow> resource_estimate \<Rightarrow> nat \<Rightarrow> bool" where
  "fits_after_release st hardware_max budget wanted released now =
     (let hw = hardware_used st now - (if re_hardware_slot released then 1 else 0) in
      if re_hardware_slot wanted \<and> hardware_max \<le> hw then False
      else if 0 < re_cpu_threads wanted then
        (let used = software_used st now - re_cpu_threads released in
         \<not> (0 < used \<and> budget < wrapping_add_u64 used (re_cpu_threads wanted)))
      else True)"

definition speculative_fits_after_release ::
    "nat \<Rightarrow> nat \<Rightarrow> resource_estimate \<Rightarrow> resource_estimate \<Rightarrow> nat \<Rightarrow> permit_state \<Rightarrow> bool" where
  "speculative_fits_after_release hardware_max budget wanted released now st =
     (if 0 < pm_live_waiting st \<or> background_active st then False
      else fits_after_release st hardware_max budget wanted released now)"

definition live_fits_after_release ::
    "nat \<Rightarrow> nat \<Rightarrow> resource_estimate \<Rightarrow> resource_estimate \<Rightarrow> nat \<Rightarrow> permit_state \<Rightarrow> bool" where
  "live_fits_after_release hardware_max budget wanted released now st =
     fits_after_release st hardware_max budget wanted released now"

section \<open>The shape of the work\<close>

record workload =
  wl_source_height :: int
  wl_codec :: string
  wl_hdr :: "string option"
  wl_target_height :: int

text \<open>\<open>Display\<close> of an \<open>i64\<close>.\<close>

fun show_nat :: "nat \<Rightarrow> string" where
  "show_nat n = (if n < 10 then [''0123456789'' ! n] else show_nat (n div 10) @ [''0123456789'' ! (n mod 10)])"

declare show_nat.simps [simp del]

definition show_i64 :: "int \<Rightarrow> string" where
  "show_i64 i = (if i < 0 then ''-'' @ show_nat (nat (- i)) else show_nat (nat i))"

definition work_class :: "workload \<Rightarrow> string \<Rightarrow> string" where
  "work_class w encoder =
     (let src = (if 2160 \<le> wl_source_height w then ''4k''
                 else if 1080 \<le> wl_source_height w then ''1080''
                 else if 720 \<le> wl_source_height w then ''720'' else ''sd'');
          hdr = (case wl_hdr w of None \<Rightarrow> ''sdr'' | Some h \<Rightarrow> h)
      in src @ '':'' @ wl_codec w @ '':'' @ hdr @ ''->'' @ show_i64 (wl_target_height w) @ ''@'' @ encoder)"

definition mixed_class :: "workload \<Rightarrow> string \<Rightarrow> string" where
  "mixed_class w encoder = work_class w encoder @ ''+swdecode''"

abbreviation SOFTWARE :: string where "SOFTWARE \<equiv> ''software''"

definition software_class :: "workload \<Rightarrow> string" where
  "software_class w = work_class w SOFTWARE"

definition hopeless_in_software :: "workload \<Rightarrow> bool" where
  "hopeless_in_software w \<longleftrightarrow>
     2160 \<le> wl_source_height w \<or>
     wl_codec w \<in> {''hevc'', ''h265'', ''hevc10'', ''av1'', ''vvc''} \<and> wl_hdr w \<noteq> None"

definition software_threads :: "workload \<Rightarrow> nat" where
  "software_threads w =
     (let base = (if wl_target_height w \<le> 480 then 2 else if wl_target_height w \<le> 720 then 3
                  else if wl_target_height w \<le> 1080 then 4 else 6)
      in if 2160 \<le> wl_source_height w then base + 2 else base)"

text \<open>\<open>available_parallelism\<close> is the operating system's answer.\<close>

definition software_budget :: "nat option \<Rightarrow> nat" where
  "software_budget available_parallelism =
     max ((case available_parallelism of Some n \<Rightarrow> n | None \<Rightarrow> 4) - 1) 2"

text \<open>\<open>TranscodeResourceEstimate::of\<close>, from what the resolved plan's accessors answer.\<close>

definition estimate_of :: "bool \<Rightarrow> bool \<Rightarrow> bool \<Rightarrow> bool \<Rightarrow> workload \<Rightarrow> resource_estimate" where
  "estimate_of software_decode software_encode keeps_frames_off_the_cpu subtitle_burn w =
     (let cpu_filters = (\<not> keeps_frames_off_the_cpu \<or> subtitle_burn) in
      \<lparr> re_hardware_slot = (\<not> software_encode),
        re_cpu_threads = (if software_decode \<or> software_encode \<or> cpu_filters then software_threads w else 0),
        re_decoder_threads = None \<rparr>)"

section \<open>The decision for a start\<close>

text \<open>The two refusals carry what their texts quote.\<close>

datatype admission =
  OnHardware hw_slot | InSoftware | WaitingForBackground
| RefusedMeasured nat f64 | RefusedHopeless nat

text \<open>The double nearest \<open>1.2\<close>, and \<open>speed >= 1.2\<close>.\<close>

definition software_safe :: "f64 \<Rightarrow> bool" where
  "software_safe speed = (case speed of
       NaN \<Rightarrow> False
     | Inf neg \<Rightarrow> \<not> neg
     | Fin neg m e \<Rightarrow> \<not> neg \<and>
         (case ratio m e of (num, den) \<Rightarrow> 5404319552844595 * den \<le> num * 2 ^ 52))"

definition software_decision :: "(string \<Rightarrow> f64 option) \<Rightarrow> nat \<Rightarrow> workload \<Rightarrow> admission" where
  "software_decision measured limit w =
     (case measured (software_class w) of
        Some speed \<Rightarrow> if software_safe speed then InSoftware else RefusedMeasured limit speed
      | None \<Rightarrow> if hopeless_in_software w then RefusedHopeless limit else InSoftware)"

text \<open>
  \<open>admit_with_priority\<close> locks twice: the acquisition, then the question whether background
  work is active. \<open>st'\<close> is the state the second lock finds.
\<close>

definition admit_with_priority ::
    "(string \<Rightarrow> f64 option) \<Rightarrow> nat \<Rightarrow> workload \<Rightarrow> priority \<Rightarrow> nat \<Rightarrow> permit_state \<Rightarrow>
     (permit_state \<Rightarrow> permit_state) \<Rightarrow> permit_state \<times> admission" where
  "admit_with_priority measured limit w priority now st meanwhile =
     (case try_acquire limit priority now st of
        (st1, Some slot) \<Rightarrow> (st1, OnHardware slot)
      | (st1, None) \<Rightarrow>
          let st' = meanwhile st1 in
          (st', if background_active st' then WaitingForBackground else software_decision measured limit w))"

definition admit_over_background ::
    "(string \<Rightarrow> f64 option) \<Rightarrow> nat \<Rightarrow> workload \<Rightarrow> nat \<Rightarrow> permit_state \<Rightarrow> permit_state \<times> admission" where
  "admit_over_background measured limit w now st =
     (case try_acquire_over_background limit now st of
        (st1, Some slot) \<Rightarrow> (st1, OnHardware slot)
      | (st1, None) \<Rightarrow> (st1, software_decision measured limit w))"

lemma checked_sum_eq: "checked_sum xs = (if sum_list xs \<le> USIZE_MAX then Some (sum_list xs) else None)"
proof -
  have none: "foldl (\<lambda>acc x. Option.bind acc (\<lambda>s. checked_add_usize s x)) None ys = None" for ys
    by (induction ys) simp_all
  have "a \<le> USIZE_MAX \<Longrightarrow> foldl (\<lambda>acc x. Option.bind acc (\<lambda>s. checked_add_usize s x)) (Some a) xs =
      (if a + sum_list xs \<le> USIZE_MAX then Some (a + sum_list xs) else None)" for a
  proof (induction xs arbitrary: a)
    case (Cons x xs)
    show ?case
    proof (cases "a + x \<le> USIZE_MAX")
      case True
      then show ?thesis using Cons.IH [of "a + x"] by (simp add: checked_add_usize_def)
    next
      case False
      then show ?thesis using none by (simp add: checked_add_usize_def)
    qed
  qed simp
  from this [of 0] show ?thesis by (simp add: checked_sum_def)
qed

end
