(* ===== verification/AdmissionFamily.thy ===== *)
theory AdmissionFamily
  imports Admission
begin

text \<open>
  Families of permits (\<open>Admissions::try_admit_family\<close> of \<open>admission.rs\<close>) and the pool as one
  state machine: the permit state with the store of live guards. A family adopts guards that
  are already held by writing their family, so guards have addresses. An address outside the
  store stands for a guard of another pool, which the code tells apart with \<open>Arc::ptr_eq\<close>.
\<close>

section \<open>Admitting a family\<close>

record retained_permit =
  rt_hardware :: "nat option"
  rt_software :: "nat option"

type_synonym hw_store = "(nat \<times> hw_slot) list"
type_synonym sw_store = "(nat \<times> sw_permit) list"

definition family_id :: "nat \<Rightarrow> nat option" where
  "family_id f = (if f \<noteq> 0 then Some f else None)"

text \<open>The variables of the scan over the retained permits.\<close>

record family_scan =
  fs_family :: "nat option"
  fs_adopted_cpu :: nat
  fs_adopted_hardware :: nat
  fs_adopted_guards :: nat
  fs_missing_cpu :: nat
  fs_missing_hardware :: nat
  fs_seen_hardware :: "nat list"
  fs_seen_software :: "nat list"

definition scan_new :: family_scan where
  "scan_new = \<lparr> fs_family = None, fs_adopted_cpu = 0, fs_adopted_hardware = 0, fs_adopted_guards = 0,
     fs_missing_cpu = 0, fs_missing_hardware = 0, fs_seen_hardware = [], fs_seen_software = [] \<rparr>"

definition scan_missing :: "resource_estimate \<Rightarrow> family_scan \<Rightarrow> family_scan option" where
  "scan_missing e s =
     (case checked_add_usize (fs_missing_cpu s) (re_cpu_threads e) of None \<Rightarrow> None
      | Some cpu \<Rightarrow> Some (s\<lparr> fs_missing_cpu := cpu,
          fs_missing_hardware := fs_missing_hardware s + (if re_hardware_slot e then 1 else 0) \<rparr>))"

text \<open>A retained half must be of this pool, held live, and named once.\<close>

definition see_hardware :: "hw_store \<Rightarrow> nat option \<Rightarrow> family_scan \<Rightarrow> family_scan option" where
  "see_hardware hw half s = (case half of None \<Rightarrow> Some s | Some a \<Rightarrow>
     (case map_of hw a of None \<Rightarrow> None | Some slot \<Rightarrow>
        if hs_owner slot \<noteq> LiveOwner \<or> a \<in> set (fs_seen_hardware s) then None
        else Some (s\<lparr> fs_seen_hardware := fs_seen_hardware s @ [a] \<rparr>)))"

definition see_software :: "sw_store \<Rightarrow> nat option \<Rightarrow> family_scan \<Rightarrow> family_scan option" where
  "see_software sw half s = (case half of None \<Rightarrow> Some s | Some a \<Rightarrow>
     (case map_of sw a of None \<Rightarrow> None | Some permit \<Rightarrow>
        if wp_owner permit \<noteq> LiveOwner \<or> a \<in> set (fs_seen_software s) then None
        else Some (s\<lparr> fs_seen_software := fs_seen_software s @ [a] \<rparr>)))"

definition half_weight :: "sw_store \<Rightarrow> nat option \<Rightarrow> nat" where
  "half_weight sw half = (case half of None \<Rightarrow> 0 | Some a \<Rightarrow>
     (case map_of sw a of None \<Rightarrow> 0 | Some permit \<Rightarrow> wp_weight permit))"

definition hardware_family :: "hw_store \<Rightarrow> nat option \<Rightarrow> nat option" where
  "hardware_family hw half = (case half of None \<Rightarrow> None | Some a \<Rightarrow>
     (case map_of hw a of None \<Rightarrow> None | Some slot \<Rightarrow> family_id (hs_family slot)))"

definition software_family :: "sw_store \<Rightarrow> nat option \<Rightarrow> nat option" where
  "software_family sw half = (case half of None \<Rightarrow> None | Some a \<Rightarrow>
     (case map_of sw a of None \<Rightarrow> None | Some permit \<Rightarrow> family_id (wp_family permit)))"

definition scan_family ::
    "resource_estimate \<Rightarrow> retained_permit \<Rightarrow> nat option \<Rightarrow> nat option \<Rightarrow> family_scan \<Rightarrow> family_scan option" where
  "scan_family e x hf sf s =
     (if rt_hardware x \<noteq> None \<and> rt_software x \<noteq> None \<and> hf \<noteq> sf then None
      else case (case hf of Some i \<Rightarrow> Some i | None \<Rightarrow> sf) of
        Some i \<Rightarrow>
          (case fs_family s of
             Some j \<Rightarrow> if j \<noteq> i then None else Some (s\<lparr> fs_family := Some i \<rparr>)
           | None \<Rightarrow> Some (s\<lparr> fs_family := Some i \<rparr>))
      | None \<Rightarrow>
          (case checked_add_usize (fs_adopted_cpu s) (re_cpu_threads e) of None \<Rightarrow> None
           | Some cpu \<Rightarrow> Some (s\<lparr> fs_adopted_cpu := cpu,
               fs_adopted_hardware := fs_adopted_hardware s + (if re_hardware_slot e then 1 else 0),
               fs_adopted_guards := fs_adopted_guards s
                 + (if rt_hardware x \<noteq> None then 1 else 0) + (if rt_software x \<noteq> None then 1 else 0) \<rparr>)))"

definition scan_retained ::
    "hw_store \<Rightarrow> sw_store \<Rightarrow> resource_estimate \<Rightarrow> retained_permit \<Rightarrow> family_scan \<Rightarrow> family_scan option" where
  "scan_retained hw sw e x s =
     (if (rt_hardware x \<noteq> None) \<noteq> re_hardware_slot e \<or> half_weight sw (rt_software x) \<noteq> re_cpu_threads e
      then None
      else case see_hardware hw (rt_hardware x) s of None \<Rightarrow> None | Some s1 \<Rightarrow>
        (case see_software sw (rt_software x) s1 of None \<Rightarrow> None | Some s2 \<Rightarrow>
           scan_family e x (hardware_family hw (rt_hardware x)) (software_family sw (rt_software x)) s2))"

fun scan_roles ::
    "hw_store \<Rightarrow> sw_store \<Rightarrow> (resource_estimate \<times> retained_permit option) list \<Rightarrow> family_scan \<Rightarrow>
     family_scan option" where
  "scan_roles hw sw [] s = Some s"
| "scan_roles hw sw ((e, None) # rest) s =
     (case scan_missing e s of None \<Rightarrow> None | Some s' \<Rightarrow> scan_roles hw sw rest s')"
| "scan_roles hw sw ((e, Some x) # rest) s =
     (case scan_retained hw sw e x s of None \<Rightarrow> None | Some s' \<Rightarrow> scan_roles hw sw rest s')"

text \<open>What the checks after the scan settle: the family's new usage and whether it is exclusive.\<close>

record family_verdict =
  fv_cpu :: nat
  fv_hardware :: nat
  fv_exclusive :: bool

definition judge_family ::
    "nat \<Rightarrow> nat \<Rightarrow> priority \<Rightarrow> nat \<Rightarrow> permit_state \<Rightarrow> family_scan \<Rightarrow> family_usage option \<Rightarrow>
     family_verdict option" where
  "judge_family hardware_max budget priority now st s existing =
     (if priority = Speculative \<and> 0 < pm_live_waiting st \<and>
         \<not> (case existing of None \<Rightarrow> False | Some f \<Rightarrow> fu_exclusive f)
      then None
      else case Option.bind (checked_add_usize (case existing of None \<Rightarrow> 0 | Some f \<Rightarrow> fu_cpu_used f)
                               (fs_adopted_cpu s)) (\<lambda>c. checked_add_usize c (fs_missing_cpu s)) of
        None \<Rightarrow> None
      | Some cpu \<Rightarrow>
        (case Option.bind (checked_add_usize (case existing of None \<Rightarrow> 0 | Some f \<Rightarrow> fu_hardware_used f)
                             (fs_adopted_hardware s)) (\<lambda>h. checked_add_usize h (fs_missing_hardware s)) of
           None \<Rightarrow> None
         | Some hardware \<Rightarrow>
           if (case existing of None \<Rightarrow> False | Some f \<Rightarrow> fu_exclusive f \<and>
                 (fu_cpu_limit f < cpu \<or> fu_hardware_limit f < hardware))
           then None
           else case checked_add_usize (software_used st now) (fs_missing_cpu s) of None \<Rightarrow> None
             | Some total_cpu \<Rightarrow>
             (case checked_add_usize (hardware_used st now) (fs_missing_hardware s) of None \<Rightarrow> None
              | Some total_hardware \<Rightarrow>
                if hardware_max < total_hardware then None
                else let exclusive = (case existing of None \<Rightarrow> budget < cpu | Some f \<Rightarrow> fu_exclusive f) in
                  if exclusive \<and> (total_cpu \<noteq> cpu \<or> total_hardware \<noteq> hardware) \<or>
                     \<not> exclusive \<and> budget < total_cpu
                  then None
                  else Some \<lparr> fv_cpu = cpu, fv_hardware = hardware, fv_exclusive = exclusive \<rparr>)))"

text \<open>Adopting: writing the family into the guards a role retains.\<close>

definition adopt_hardware :: "nat \<Rightarrow> nat option \<Rightarrow> hw_store \<Rightarrow> hw_store" where
  "adopt_hardware i half hw = (case half of None \<Rightarrow> hw | Some a \<Rightarrow>
     (case map_of hw a of None \<Rightarrow> hw | Some slot \<Rightarrow> AList.update a (slot\<lparr> hs_family := i \<rparr>) hw))"

definition adopt_software :: "nat \<Rightarrow> nat option \<Rightarrow> sw_store \<Rightarrow> sw_store" where
  "adopt_software i half sw = (case half of None \<Rightarrow> sw | Some a \<Rightarrow>
     (case map_of sw a of None \<Rightarrow> sw | Some permit \<Rightarrow> AList.update a (permit\<lparr> wp_family := i \<rparr>) sw))"

definition update_family :: "nat \<Rightarrow> (family_usage \<Rightarrow> family_usage) \<Rightarrow> permit_state \<Rightarrow> permit_state" where
  "update_family i f st = (case map_of (pm_families st) i of None \<Rightarrow> st
     | Some u \<Rightarrow> st\<lparr> pm_families := AList.update i (f u) (pm_families st) \<rparr>)"

definition count_member :: "nat \<Rightarrow> permit_state \<Rightarrow> permit_state" where
  "count_member i st = update_family i (\<lambda>u. u\<lparr> fu_guards := fu_guards u + 1 \<rparr>) st"

definition count_missing :: "nat \<Rightarrow> permit_state \<Rightarrow> resource_estimate \<times> retained_permit option \<Rightarrow> permit_state" where
  "count_missing i st role = (case snd role of Some x \<Rightarrow> st | None \<Rightarrow>
     let st = (if re_hardware_slot (fst role) then count_member i (count_hardware Live st) else st) in
     if 0 < re_cpu_threads (fst role)
     then count_member i (count_software Live (re_cpu_threads (fst role)) st) else st)"

definition enrol_family ::
    "nat \<Rightarrow> nat \<Rightarrow> nat \<Rightarrow> family_scan \<Rightarrow> family_verdict \<Rightarrow> permit_state \<Rightarrow> permit_state" where
  "enrol_family i requested_cpu requested_hardware s v st =
     (let st = (case fs_family s of Some j \<Rightarrow> st | None \<Rightarrow>
         st\<lparr> pm_next_family := i, pm_families := AList.update i
           \<lparr> fu_cpu_limit = requested_cpu, fu_hardware_limit = requested_hardware, fu_cpu_used = 0,
             fu_hardware_used = 0, fu_guards = 0, fu_exclusive = False \<rparr> (pm_families st) \<rparr>)
      in update_family i (\<lambda>u. u\<lparr> fu_cpu_used := fv_cpu v, fu_hardware_used := fv_hardware v,
           fu_exclusive := fv_exclusive v,
           fu_cpu_limit := (if fv_exclusive v then fu_cpu_limit u else max (fu_cpu_limit u) (fv_cpu v)),
           fu_hardware_limit := (if fv_exclusive v then fu_hardware_limit u
                                 else max (fu_hardware_limit u) (fv_hardware v)),
           fu_guards := fu_guards u + fs_adopted_guards s \<rparr>) st)"

text \<open>The pool: the permit state and the live guards.\<close>

record pool =
  pl_permits :: permit_state
  pl_hardware :: hw_store
  pl_software :: sw_store
  pl_next :: nat
  pl_waits :: "bool multiset"

definition pool_new :: pool where
  "pool_new = \<lparr> pl_permits = permits_new, pl_hardware = [], pl_software = [], pl_next = 0, pl_waits = {#} \<rparr>"

definition store_hw :: "hw_slot \<Rightarrow> pool \<Rightarrow> pool" where
  "store_hw slot p = p\<lparr> pl_hardware := AList.update (pl_next p) slot (pl_hardware p), pl_next := pl_next p + 1 \<rparr>"

definition store_sw :: "sw_permit \<Rightarrow> pool \<Rightarrow> pool" where
  "store_sw permit p = p\<lparr> pl_software := AList.update (pl_next p) permit (pl_software p), pl_next := pl_next p + 1 \<rparr>"

definition store_permit :: "pool \<Rightarrow> transcode_permit \<Rightarrow> pool" where
  "store_permit p permit =
     (let p = (case tp_hardware permit of None \<Rightarrow> p | Some slot \<Rightarrow> store_hw slot p) in
      case tp_software permit of None \<Rightarrow> p | Some sw \<Rightarrow> store_sw sw p)"

definition try_admit_family ::
    "nat \<Rightarrow> nat \<Rightarrow> resource_estimate list \<Rightarrow> retained_permit option list \<Rightarrow> priority \<Rightarrow> nat \<Rightarrow> pool \<Rightarrow>
     pool \<times> (nat \<times> transcode_permit list) option" where
  "try_admit_family hardware_max budget estimates retained priority now p =
     (if estimates = [] \<or> 3 < length estimates \<or> length estimates \<noteq> length retained \<or>
         list_ex (\<lambda>e. \<not> re_hardware_slot e \<and> re_cpu_threads e = 0) estimates \<or> priority = Background
      then (p, None)
      else case checked_sum (map re_cpu_threads estimates) of None \<Rightarrow> (p, None)
      | Some requested_cpu \<Rightarrow>
        let requested_hardware = length (filter re_hardware_slot estimates) in
        if requested_cpu = 0 \<and> requested_hardware = 0 then (p, None)
        else let st = prune now (pl_permits p); refused = (p\<lparr> pl_permits := st \<rparr>, None);
                 roles = zip estimates retained in
        if background_active st then refused
        else case scan_roles (pl_hardware p) (pl_software p) roles scan_new of None \<Rightarrow> refused
        | Some s \<Rightarrow>
          if family_blocked st (fs_family s) then refused
          else case (case fs_family s of None \<Rightarrow> Some None
                     | Some i \<Rightarrow> map_option Some (map_of (pm_families st) i)) of
            None \<Rightarrow> refused
          | Some existing \<Rightarrow>
            (case judge_family hardware_max budget priority now st s existing of None \<Rightarrow> refused
             | Some v \<Rightarrow>
               (case (case fs_family s of Some i \<Rightarrow> Some i | None \<Rightarrow> checked_add_usize (pm_next_family st) 1) of
                  None \<Rightarrow> refused
                | Some i \<Rightarrow>
                  let st = enrol_family i requested_cpu requested_hardware s v st;
                      st = foldl (count_missing i) st roles;
                      held = List.map_filter id retained;
                      p = p\<lparr> pl_permits := st,
                        pl_hardware := foldl (\<lambda>hw x. adopt_hardware i (rt_hardware x) hw) (pl_hardware p) held,
                        pl_software := foldl (\<lambda>sw x. adopt_software i (rt_software x) sw) (pl_software p) held \<rparr>;
                      permits = map (permit_for LiveOwner i) (map fst (filter (\<lambda>r. snd r = None) roles))
                  in (foldl store_permit p permits, Some (i, permits)))))"

end
