(* ===== verification/AdmissionGrants.thy ===== *)
theory AdmissionGrants
  imports Admission
begin

text \<open>
  What a grant of \<open>admission.rs\<close> promises, of the permit state alone: the caps, all or nothing,
  what a reservation keeps, and the question asked before a predecessor is released.
\<close>

section \<open>Sums\<close>

text \<open>The threads committed, with the reservations that count, before any wrap-around.\<close>

definition committed :: "permit_state \<Rightarrow> nat option \<Rightarrow> nat \<Rightarrow> nat" where
  "committed st except now = pm_software_live_used st + pm_software_background_used st
     + sum_list (map rv_cpu_threads (live_reservations st except now))"

lemma software_used_committed:
  assumes "committed st except now \<le> USIZE_MAX"
  shows "software_used_except st except now = committed st except now"
  using assms foldl_wrapping_add_u64 [of 0 "map rv_cpu_threads (live_reservations st except now)"]
  by (simp add: software_used_except_def committed_def)

lemma sum_list_filter_le: "sum_list (map f (filter P xs)) \<le> (sum_list (map f xs) :: nat)"
  by (induction xs) auto

lemma committed_except_le: "committed st except now \<le> committed st None now"
proof -
  have "live_reservations st except now = filter (\<lambda>r. Some (rv_token r) \<noteq> except) (live_reservations st None now)"
    by (simp add: live_reservations_def conj_commute)
  then show ?thesis by (simp add: committed_def sum_list_filter_le)
qed

lemma live_reservations_prune [simp]: "live_reservations (prune now st) except now = live_reservations st except now"
  by (auto simp: live_reservations_def prune_def intro: filter_cong)

lemma pruned [simp]:
  "committed (prune now st) except now = committed st except now"
  "hardware_used_except (prune now st) except now = hardware_used_except st except now"
  "software_used_except (prune now st) except now = software_used_except st except now"
  "background_active (prune now st) = background_active st" "live_active (prune now st) = live_active st"
  "family_blocked (prune now st) f = family_blocked st f" "pm_live_waiting (prune now st) = pm_live_waiting st"
  "holds_reservation (prune now st) t now = holds_reservation st t now"
  "background_blocked (prune now st) now = background_blocked st now"
  by (simp_all add: committed_def hardware_used_except_def software_used_except_def background_blocked_def has_reservation_def
      holds_reservation_def background_active_def live_active_def family_blocked_def, simp_all add: prune_def)

text \<open>The reservation a claim stands for, when it is still held.\<close>

definition honoured :: "permit_state \<Rightarrow> nat option \<Rightarrow> nat \<Rightarrow> nat option" where
  "honoured st claim now =
     (case claim of None \<Rightarrow> None | Some t \<Rightarrow> if holds_reservation st t now then Some t else None)"

definition without_reservation :: "nat option \<Rightarrow> permit_state \<Rightarrow> permit_state" where
  "without_reservation claim st = (case claim of None \<Rightarrow> st
     | Some t \<Rightarrow> st\<lparr> pm_reservations := filter (\<lambda>r. rv_token r \<noteq> t) (pm_reservations st) \<rparr>)"

lemma without_reservation_simps [simp]:
  "committed (without_reservation claim st) None now = committed st claim now"
  "hardware_used_except (without_reservation claim st) None now = hardware_used_except st claim now"
  "background_active (without_reservation claim st) = background_active st"
  "live_active (without_reservation claim st) = live_active st"
proof -
  have "live_reservations (without_reservation claim st) None now = live_reservations st claim now"
    by (cases claim) (auto simp: without_reservation_def live_reservations_def intro: filter_cong)
  then show "committed (without_reservation claim st) None now = committed st claim now"
    "hardware_used_except (without_reservation claim st) None now = hardware_used_except st claim now"
    by (cases claim; simp add: committed_def hardware_used_except_def without_reservation_def)+
qed (simp_all add: without_reservation_def background_active_def live_active_def split: option.split)

section \<open>Counting a group\<close>

definition threads_of :: "resource_estimate list \<Rightarrow> nat" where
  "threads_of es = sum_list (map re_cpu_threads es)"

definition slots_of :: "resource_estimate list \<Rightarrow> nat" where
  "slots_of es = length (filter re_hardware_slot es)"

lemma count_reservations [simp]:
  "live_reservations (count_software pr w st) except now = live_reservations st except now"
  "live_reservations (count_hardware pr st) except now = live_reservations st except now"
  by (cases "owner_of pr"; simp add: live_reservations_def count_software_def count_hardware_def)+

lemma count_bundle_sums:
  assumes "committed st None now + re_cpu_threads e \<le> USIZE_MAX"
  shows "committed (count_bundle pr st e) None now = committed st None now + re_cpu_threads e"
    "hardware_used_except (count_bundle pr st e) None now = hardware_used_except st None now + of_bool (re_hardware_slot e)"
    "owner_of pr = LiveOwner \<Longrightarrow> background_active (count_bundle pr st e) = background_active st"
    "owner_of pr = BackgroundOwner \<Longrightarrow> live_active (count_bundle pr st e) = live_active st"
  using assms
  by (cases "owner_of pr"; simp add: committed_def hardware_used_except_def count_bundle_def Let_def background_active_def
      live_active_def; simp add: count_software_def count_hardware_def)+

lemma count_bundles_sums:
  assumes "committed st None now + threads_of es \<le> USIZE_MAX"
  shows "committed (foldl (count_bundle pr) st es) None now = committed st None now + threads_of es \<and>
    hardware_used_except (foldl (count_bundle pr) st es) None now = hardware_used_except st None now + slots_of es \<and>
    (owner_of pr = LiveOwner \<longrightarrow> background_active (foldl (count_bundle pr) st es) = background_active st) \<and>
    (owner_of pr = BackgroundOwner \<longrightarrow> live_active (foldl (count_bundle pr) st es) = live_active st)"
  using assms
proof (induction es arbitrary: st)
  case (Cons e es)
  have "committed st None now + re_cpu_threads e \<le> USIZE_MAX" using Cons.prems by (simp add: threads_of_def)
  note one = count_bundle_sums [OF this, of pr]
  show ?case using Cons.IH [of "count_bundle pr st e"] Cons.prems one
    by (simp add: threads_of_def slots_of_def)
qed (simp add: threads_of_def slots_of_def)

section \<open>When a group is admitted\<close>

definition fits_in :: "nat \<Rightarrow> nat \<Rightarrow> nat \<Rightarrow> bool" where
  "fits_in cap used needed \<longleftrightarrow> used + needed \<le> cap \<and> used + needed \<le> USIZE_MAX"

lemma checked_fits: "(case checked_add_usize a b of None \<Rightarrow> True | Some s \<Rightarrow> cap < s) \<longleftrightarrow> \<not> fits_in cap a b"
  by (auto simp: checked_add_usize_def fits_in_def)

definition priority_admits :: "permit_state \<Rightarrow> priority \<Rightarrow> nat option \<Rightarrow> nat \<Rightarrow> bool" where
  "priority_admits st pr claim now = (case pr of
       Live \<Rightarrow> \<not> background_active st
     | Background \<Rightarrow> \<not> background_blocked st now
     | Speculative \<Rightarrow> (pm_live_waiting st = 0 \<or> claim \<noteq> None) \<and> \<not> background_active st)"

definition group_admitted ::
    "nat \<Rightarrow> nat \<Rightarrow> resource_estimate list \<Rightarrow> priority \<Rightarrow> nat option \<Rightarrow> nat \<Rightarrow> permit_state \<Rightarrow> bool" where
  "group_admitted hardware_max budget es pr claim now st \<longleftrightarrow>
     es \<noteq> [] \<and> length es \<le> 3 \<and> threads_of es \<le> USIZE_MAX \<and> (1 < length es \<longrightarrow> threads_of es \<le> budget) \<and>
     \<not> family_blocked st None \<and> priority_admits st pr claim now \<and>
     (0 < slots_of es \<longrightarrow> fits_in hardware_max (hardware_used_except st claim now) (slots_of es)) \<and>
     (0 < threads_of es \<longrightarrow> 0 < software_used_except st claim now \<or> 1 < length es \<longrightarrow>
        fits_in budget (software_used_except st claim now) (threads_of es))"

lemma honoured_prune:
  "(case claim of None \<Rightarrow> None | Some t \<Rightarrow> if holds_reservation st t now then Some t else None) = honoured st claim now"
  "honoured (prune now st) claim now = honoured st claim now"
  by (simp_all add: honoured_def split: option.split)

lemma bundles_eq:
  fixes st claim now
  defines "c \<equiv> honoured st claim now"
  shows "group_admitted hardware_max budget es pr c now st \<Longrightarrow>
     try_admit_bundles_claiming hardware_max budget es pr claim now st =
       (foldl (count_bundle pr) (without_reservation c (prune now st)) es,
        Some (map (permit_for (owner_of pr) 0) es))"
    and "\<not> group_admitted hardware_max budget es pr c now st \<Longrightarrow>
     snd (try_admit_bundles_claiming hardware_max budget es pr claim now st) = None \<and>
     fst (try_admit_bundles_claiming hardware_max budget es pr claim now st) \<in> {st, prune now st}"
proof -
  let ?sum = "sum_list (map re_cpu_threads es)"
  have pri: "(case pr of Live \<Rightarrow> background_active st | Background \<Rightarrow> background_blocked st now
      | Speculative \<Rightarrow> 0 < pm_live_waiting st \<and> c = None \<or> background_active st) \<longleftrightarrow> \<not> priority_admits st pr c now"
    by (auto simp: priority_admits_def split: priority.split)
  have eq: "try_admit_bundles_claiming hardware_max budget es pr claim now st =
    (if es = [] \<or> 3 < length es \<or> USIZE_MAX < threads_of es \<or> 1 < length es \<and> budget < threads_of es \<or> family_blocked st None
     then (st, None)
     else if \<not> priority_admits st pr c now \<or>
        0 < slots_of es \<and> \<not> fits_in hardware_max (hardware_used_except st c now) (slots_of es) \<or>
        0 < threads_of es \<and> (0 < software_used_except st c now \<or> 1 < length es) \<and>
          \<not> fits_in budget (software_used_except st c now) (threads_of es)
     then (prune now st, None)
     else (foldl (count_bundle pr) (without_reservation c (prune now st)) es, Some (map (permit_for (owner_of pr) 0) es)))"
    unfolding try_admit_bundles_claiming_def checked_sum_eq pruned honoured_prune c_def [symmetric] checked_fits Let_def pri
      threads_of_def [symmetric] slots_of_def [symmetric] without_reservation_def [symmetric]
    by auto
  show "group_admitted hardware_max budget es pr c now st \<Longrightarrow>
     try_admit_bundles_claiming hardware_max budget es pr claim now st =
       (foldl (count_bundle pr) (without_reservation c (prune now st)) es,
        Some (map (permit_for (owner_of pr) 0) es))"
    unfolding eq group_admitted_def by auto
  show "\<not> group_admitted hardware_max budget es pr c now st \<Longrightarrow>
     snd (try_admit_bundles_claiming hardware_max budget es pr claim now st) = None \<and>
     fst (try_admit_bundles_claiming hardware_max budget es pr claim now st) \<in> {st, prune now st}"
    unfolding eq group_admitted_def by auto
qed

lemma bundle_eq:
  "snd (try_admit_bundle_claiming hardware_max budget e pr claim now st) \<noteq> None \<longleftrightarrow>
   group_admitted hardware_max budget [e] pr (honoured st claim now) now st"
proof (cases "group_admitted hardware_max budget [e] pr (honoured st claim now) now st")
  case True
  then show ?thesis using bundles_eq(1) [OF True] by (simp add: try_admit_bundle_claiming_def)
next
  case False
  then show ?thesis using bundles_eq(2) [OF False]
    by (auto simp: try_admit_bundle_claiming_def split: prod.split option.split)
qed

section \<open>Caps\<close>

text \<open>C23: a group is admitted whole or not at all. A refusal changes nothing but expired
reservations. A grant gives one permit per role, adds exactly the roles' slots and threads to
what was committed without the claimed reservation, keeps the hardware slots within their cap and the
threads within the budget (the one exception is a single role alone on an idle pool), and never puts
live and background work side by side.\<close>

theorem group_within_caps:
  assumes adm: "try_admit_bundles_claiming hardware_max budget es pr claim now st = (st', r)"
    and fit: "committed st None now \<le> USIZE_MAX"
  shows "case r of None \<Rightarrow> st' = st \<or> st' = prune now st
    | Some permits \<Rightarrow>
        permits = map (permit_for (owner_of pr) 0) es \<and> es \<noteq> [] \<and> length es \<le> 3 \<and>
        committed st' None now = committed st (honoured st claim now) now + threads_of es \<and>
        hardware_used st' now = hardware_used_except st (honoured st claim now) now + slots_of es \<and>
        (0 < slots_of es \<longrightarrow> hardware_used st' now \<le> hardware_max) \<and>
        (0 < threads_of es \<longrightarrow> software_used st' now \<le> budget \<or>
           length es = 1 \<and> committed st (honoured st claim now) now = 0) \<and>
        (owner_of pr = LiveOwner \<longrightarrow> \<not> background_active st') \<and>
        (owner_of pr = BackgroundOwner \<longrightarrow> \<not> live_active st')"
proof (cases "group_admitted hardware_max budget es pr (honoured st claim now) now st")
  case False
  then show ?thesis using bundles_eq(2) [OF False] adm by simp
next
  case True
  let ?c = "honoured st claim now" and ?st = "without_reservation (honoured st claim now) (prune now st)"
  have used: "software_used_except st ?c now = committed st ?c now"
    using committed_except_le [of st ?c now] fit by (intro software_used_committed) simp
  have sum: "committed st ?c now + threads_of es \<le> USIZE_MAX"
  proof (cases "0 < threads_of es \<and> (0 < committed st ?c now \<or> 1 < length es)")
    case True
    then show ?thesis using \<open>group_admitted _ _ _ _ _ _ _\<close> by (auto simp: group_admitted_def fits_in_def used)
  next
    case False
    then show ?thesis using True committed_except_le [of st ?c now] fit by (auto simp: group_admitted_def)
  qed
  have st': "st' = foldl (count_bundle pr) ?st es" and r: "r = Some (map (permit_for (owner_of pr) 0) es)"
    using bundles_eq(1) [OF True] adm by simp_all
  have "committed ?st None now + threads_of es \<le> USIZE_MAX" using sum by simp
  note sums = count_bundles_sums [OF this, of pr, folded st', simplified]
  have sw: "software_used st' now = committed st' None now"
    unfolding software_used_def by (rule software_used_committed) (use sums sum in simp)
  have hw: "0 < slots_of es \<longrightarrow> hardware_used st' now \<le> hardware_max"
    using True sums by (simp add: group_admitted_def fits_in_def hardware_used_def)
  have cap: "0 < threads_of es \<longrightarrow> software_used st' now \<le> budget \<or> length es = 1 \<and> committed st ?c now = 0"
  proof
    assume t: "0 < threads_of es"
    have "length es = 1 \<or> 1 < length es" using True by (cases es) (auto simp: group_admitted_def)
    then show "software_used st' now \<le> budget \<or> length es = 1 \<and> committed st ?c now = 0"
      using True t sums sw used by (auto simp: group_admitted_def fits_in_def)
  qed
  have "owner_of pr = LiveOwner \<longrightarrow> \<not> background_active st'" "owner_of pr = BackgroundOwner \<longrightarrow> \<not> live_active st'"
    using True sums by (cases pr; simp add: group_admitted_def priority_admits_def background_blocked_def)+
  then show ?thesis using True r sums hw cap by (simp add: group_admitted_def hardware_used_def)
qed

definition role_hw3 :: resource_estimate where
  "role_hw3 = \<lparr> re_hardware_slot = True, re_cpu_threads = 3, re_decoder_threads = None \<rparr>"

theorem group_within_caps_witness:
  "software_used (fst (try_admit_bundles_claiming 2 8 [role_hw3, role_hw3] Live None 5 permits_new)) 5 \<le> 8"
  using group_within_caps [OF prod.collapse [symmetric], of permits_new 5 2 8 "[role_hw3, role_hw3]" Live None]
  by (simp add: try_admit_bundles_claiming_def checked_sum_eq role_hw3_def permits_new_def committed_def live_reservations_def
      family_blocked_def background_active_def prune_def hardware_used_except_def software_used_except_def
      checked_add_usize_def Let_def threads_of_def)

section \<open>What a reservation keeps\<close>

text \<open>Everything the permit state has promised, expired or not.\<close>

definition promised :: "permit_state \<Rightarrow> nat" where
  "promised st = pm_software_live_used st + pm_software_background_used st + sum_list (map rv_cpu_threads (pm_reservations st))"

definition reserved :: "resource_estimate \<Rightarrow> nat \<Rightarrow> nat \<Rightarrow> permit_state \<Rightarrow> bool" where
  "reserved e t at st \<longleftrightarrow> (\<exists>r. filter (\<lambda>r. rv_token r = t) (pm_reservations st) = [r] \<and> at < rv_expires r \<and>
     rv_hardware r = re_hardware_slot e \<and> rv_cpu_threads r = re_cpu_threads e)"

lemma live_reservations_split:
  "sum_list (map f (live_reservations st None at)) = sum_list (map f (live_reservations st (Some t) at)) +
   (sum_list (map f (filter (\<lambda>r. at < rv_expires r) (filter (\<lambda>r. rv_token r = t) (pm_reservations st)))) :: nat)"
proof -
  have "sum_list (map f (filter (\<lambda>r. at < rv_expires r) xs)) =
    sum_list (map f (filter (\<lambda>r. at < rv_expires r \<and> rv_token r \<noteq> t) xs)) +
    sum_list (map f (filter (\<lambda>r. at < rv_expires r) (filter (\<lambda>r. rv_token r = t) xs)))" for xs
    by (induction xs) auto
  then show ?thesis by (simp add: live_reservations_def)
qed

lemma reserved_sums:
  assumes "reserved e t at st"
  shows "committed st None at = committed st (Some t) at + re_cpu_threads e"
    "hardware_used_except st None at = hardware_used_except st (Some t) at + of_bool (re_hardware_slot e)"
    "holds_reservation st t at"
proof -
  obtain r where r: "filter (\<lambda>r. rv_token r = t) (pm_reservations st) = [r]" "at < rv_expires r"
    "rv_hardware r = re_hardware_slot e" "rv_cpu_threads r = re_cpu_threads e"
    using assms by (auto simp: reserved_def)
  show "committed st None at = committed st (Some t) at + re_cpu_threads e"
    using live_reservations_split [of rv_cpu_threads st at t] r by (simp add: committed_def)
  have len: "length (filter rv_hardware xs) = sum_list (map (\<lambda>r. of_bool (rv_hardware r)) xs)" for xs
    by (induction xs) auto
  show "hardware_used_except st None at = hardware_used_except st (Some t) at + of_bool (re_hardware_slot e)"
    using live_reservations_split [of "\<lambda>r. of_bool (rv_hardware r)" st at t] r by (simp add: hardware_used_except_def len)
  have "r \<in> set (filter (\<lambda>r. rv_token r = t) (pm_reservations st))" using r(1) by simp
  then show "holds_reservation st t at" using r(2) by (auto simp: holds_reservation_def live_reservations_def list_ex_iff)
qed

lemma committed_promised: "committed st except at \<le> promised st"
  by (simp add: committed_def promised_def live_reservations_def sum_list_filter_le)

lemma length_filter_filter_le: "length (filter P (filter Q xs)) \<le> length (filter P xs)"
  by (induction xs) auto

lemma later_le:
  assumes "now \<le> at"
  shows "committed st except at \<le> committed st except now"
    "hardware_used_except st except at \<le> hardware_used_except st except now"
proof -
  have e: "live_reservations st except at = filter (\<lambda>r. at < rv_expires r) (live_reservations st except now)"
    using assms by (auto simp: live_reservations_def intro: filter_cong)
  show "committed st except at \<le> committed st except now" by (simp add: committed_def e sum_list_filter_le)
  show "hardware_used_except st except at \<le> hardware_used_except st except now"
    unfolding hardware_used_except_def e by (simp add: length_filter_filter_le del: filter_filter)
qed

lemma prune_earlier:
  assumes "at1 \<le> at"
  shows "live_reservations (prune at1 st) except at = live_reservations st except at"
    and "reserved e t at st \<Longrightarrow> reserved e t at (prune at1 st)" and "promised (prune at1 st) \<le> promised st"
proof -
  show "live_reservations (prune at1 st) except at = live_reservations st except at"
    using assms by (auto simp: live_reservations_def prune_def intro: filter_cong)
  show "promised (prune at1 st) \<le> promised st" by (simp add: promised_def prune_def sum_list_filter_le)
  assume "reserved e t at st"
  then obtain r where r: "filter (\<lambda>r. rv_token r = t) (pm_reservations st) = [r]" "at < rv_expires r"
    "rv_hardware r = re_hardware_slot e" "rv_cpu_threads r = re_cpu_threads e"
    by (auto simp: reserved_def)
  have swap: "filter (\<lambda>r. rv_token r = t) (filter (\<lambda>r. at1 < rv_expires r) xs) =
      filter (\<lambda>r. at1 < rv_expires r) (filter (\<lambda>r. rv_token r = t) xs)" for xs
    by (simp add: conj_commute)
  then have "filter (\<lambda>r. rv_token r = t) (pm_reservations (prune at1 st)) = [r]"
    using r(1,2) assms swap [of "pm_reservations st"] by (simp add: prune_def del: filter_filter)
  then show "reserved e t at (prune at1 st)" using r by (auto simp: reserved_def)
qed

section \<open>The question before a release\<close>

text \<open>Dropping a \<open>TranscodePermit\<close> drops its halves in the order of its fields.\<close>

definition drop_permit :: "transcode_permit \<Rightarrow> permit_state \<Rightarrow> permit_state option" where
  "drop_permit permit st =
     Option.bind (case tp_hardware permit of None \<Rightarrow> Some st | Some slot \<Rightarrow> drop_hw_slot slot st)
       (\<lambda>st. case tp_software permit of None \<Rightarrow> Some st | Some sw \<Rightarrow> drop_sw_permit sw st)"

lemma release_family_frame:
  assumes "release_family i hardware cpu st = Some st'"
  obtains fs where "st' = st\<lparr> pm_families := fs \<rparr>"
proof -
  have "st' = st\<lparr> pm_families := pm_families st' \<rparr>"
    using assms by (auto simp: release_family_def Let_def split: if_splits option.splits)
  then show thesis by (rule that)
qed

lemma drop_live_permit:
  assumes "drop_permit (permit_for LiveOwner i released) st = Some st'"
  obtains fs where "st' = st\<lparr> pm_families := fs,
      pm_hardware_live := pm_hardware_live st - of_bool (re_hardware_slot released),
      pm_software_live_permits := pm_software_live_permits st - of_bool (0 < re_cpu_threads released),
      pm_software_live_used := pm_software_live_used st - re_cpu_threads released \<rparr>"
proof -
  define mid where "mid = (case tp_hardware (permit_for LiveOwner i released) of None \<Rightarrow> Some st | Some slot \<Rightarrow> drop_hw_slot slot st)"
  obtain st1 where st1: "mid = Some st1" using assms by (auto simp: drop_permit_def mid_def bind_eq_Some_conv)
  have "\<exists>fs. st1 = st\<lparr> pm_families := fs, pm_hardware_live := pm_hardware_live st - of_bool (re_hardware_slot released) \<rparr>"
  proof (cases "re_hardware_slot released")
    case True
    then obtain st0 where "release_family i True 0 st = Some st0" "st1 = st0\<lparr> pm_hardware_live := pm_hardware_live st0 - 1 \<rparr>"
      using st1 by (auto simp: mid_def permit_for_def drop_hw_slot_def split: option.splits)
    moreover obtain fs0 where "st0 = st\<lparr> pm_families := fs0 \<rparr>"
      using release_family_frame \<open>release_family i True 0 st = Some st0\<close> .
    ultimately show ?thesis using True by (intro exI [of _ fs0]) simp
  next
    case False
    then have "st1 = st" using st1 by (simp add: mid_def permit_for_def)
    then show ?thesis using False by (intro exI [of _ "pm_families st"]) simp
  qed
  then obtain fs where fs: "st1 = st\<lparr> pm_families := fs, pm_hardware_live := pm_hardware_live st - of_bool (re_hardware_slot released) \<rparr>"
    by blast
  have second: "(case tp_software (permit_for LiveOwner i released) of None \<Rightarrow> Some st1 | Some sw \<Rightarrow> drop_sw_permit sw st1) = Some st'"
    using assms st1 by (simp add: drop_permit_def mid_def)
  show thesis
  proof (cases "0 < re_cpu_threads released")
    case True
    then obtain st2 where st2: "release_family i False (re_cpu_threads released) st1 = Some st2"
      "st' = st2\<lparr> pm_software_live_permits := pm_software_live_permits st2 - 1,
                  pm_software_live_used := pm_software_live_used st2 - re_cpu_threads released \<rparr>"
      using second by (auto simp: permit_for_def drop_sw_permit_def split: option.splits)
    obtain fs' where "st2 = st1\<lparr> pm_families := fs' \<rparr>" using release_family_frame [OF st2(1)] .
    then show thesis using that [of fs'] fs st2(2) True by simp
  next
    case False
    then show thesis using that [of fs] fs second by (simp add: permit_for_def)
  qed
qed

text \<open>C35: the question asked before a predecessor is released foretells the speculative admission
after the release, except for exclusive families: after dropping a live permit of the released
size the wanted role is admitted exactly when the question said so and no exclusive family
remains. The question itself never looks at the families.\<close>

theorem speculation_foretells_admission:
  assumes drop: "drop_permit (permit_for LiveOwner i released) st = Some st'"
    and counted: "re_hardware_slot released \<longrightarrow> 0 < pm_hardware_live st" "re_cpu_threads released \<le> pm_software_live_used st"
    and small: "committed st None now + re_cpu_threads wanted \<le> USIZE_MAX" "hardware_max \<le> USIZE_MAX"
  shows "snd (try_admit_bundle hardware_max budget wanted Speculative now st') \<noteq> None \<longleftrightarrow>
    speculative_fits_after_release hardware_max budget wanted released now st \<and> \<not> family_blocked st' None"
proof -
  obtain fs where st': "st' = st\<lparr> pm_families := fs,
      pm_hardware_live := pm_hardware_live st - of_bool (re_hardware_slot released),
      pm_software_live_permits := pm_software_live_permits st - of_bool (0 < re_cpu_threads released),
      pm_software_live_used := pm_software_live_used st - re_cpu_threads released \<rparr>"
    using drop_live_permit [OF drop] .
  have live: "live_reservations st' except now = live_reservations st except now" for except
    by (simp add: st' live_reservations_def)
  have hw: "hardware_used_except st' None now = hardware_used st now - (if re_hardware_slot released then 1 else 0)"
    using counted(1) by (cases "re_hardware_slot released") (simp_all add: hardware_used_def hardware_used_except_def live, simp_all add: st')
  have c: "committed st' None now = committed st None now - re_cpu_threads released"
    using counted(2) by (simp add: committed_def live) (simp add: st')
  have used: "software_used st now = committed st None now" "software_used_except st' None now = committed st' None now"
    unfolding software_used_def by (rule software_used_committed, use small c in simp)+
  have "snd (try_admit_bundle hardware_max budget wanted Speculative now st') \<noteq> None \<longleftrightarrow>
      group_admitted hardware_max budget [wanted] Speculative None now st'"
    unfolding try_admit_bundle_def bundle_eq by (simp add: honoured_def)
  also have "\<dots> \<longleftrightarrow> speculative_fits_after_release hardware_max budget wanted released now st \<and> \<not> family_blocked st' None"
  proof -
    have "pm_live_waiting st' = pm_live_waiting st" "background_active st' = background_active st"
      by (simp_all add: st' background_active_def)
    moreover have "wrapping_add_u64 (committed st' None now) (re_cpu_threads wanted) = committed st' None now + re_cpu_threads wanted"
      "committed st' None now + re_cpu_threads wanted \<le> USIZE_MAX"
      using small c by simp_all
    ultimately show ?thesis
      using small(2)
      by (auto simp: group_admitted_def priority_admits_def speculative_fits_after_release_def fits_after_release_def
          fits_in_def threads_of_def slots_of_def hw used Let_def c [symmetric] not_le not_less)
  qed
  finally show ?thesis .
qed

theorem speculation_foretells_admission_witness:
  "snd (try_admit_bundle 1 8 role_hw3 Speculative 5
     (the (drop_permit (permit_for LiveOwner 0 role_hw3) (count_bundle Live permits_new role_hw3)))) \<noteq> None"
  using speculation_foretells_admission [of 0 role_hw3 "count_bundle Live permits_new role_hw3"
      "the (drop_permit (permit_for LiveOwner 0 role_hw3) (count_bundle Live permits_new role_hw3))" 5 role_hw3 1 8]
  by (simp add: drop_permit_def permit_for_def role_hw3_def count_bundle_def count_software_def count_hardware_def
      permits_new_def drop_hw_slot_def drop_sw_permit_def release_family_def Let_def committed_def live_reservations_def
      speculative_fits_after_release_def fits_after_release_def background_active_def family_blocked_def
      hardware_used_def hardware_used_except_def software_used_def software_used_except_def)

end
