(* ===== verification/AdmissionPool.thy ===== *)
theory AdmissionPool
  imports AdmissionFamily AdmissionGrants
begin

text \<open>
  The permit pool of \<open>admission.rs\<close> with its live guards as one state machine: every critical
  section is a step, in any order and with any arguments, at any instant. The invariant says
  that every counter of the permit state is a count over the live guards, family by family.
\<close>

section \<open>Steps\<close>

text \<open>
  The threads of all live permits add up within a machine word, and so do the guards
  themselves: what a step may still add.
\<close>

definition pool_fits :: "pool \<Rightarrow> nat \<Rightarrow> nat \<Rightarrow> bool" where
  "pool_fits p threads guards \<longleftrightarrow>
     weight (\<lambda>w. int (wp_weight w)) (pl_software p) + int threads \<le> int USIZE_MAX \<and>
     length (pl_hardware p) + length (pl_software p) + guards \<le> USIZE_MAX"

definition with_permits :: "permit_state \<Rightarrow> pool \<Rightarrow> pool" where
  "with_permits st p = p\<lparr> pl_permits := st \<rparr>"

inductive pool_step :: "pool \<Rightarrow> pool \<Rightarrow> bool" where
  pt_take: "try_take budget w priority now (pl_permits p) = (st, Some permit) \<Longrightarrow> pool_fits p w 1 \<Longrightarrow>
    pool_step p (store_sw permit (with_permits st p))"
| pt_take_over: "take_over_background budget w now (pl_permits p) = (st, Some permit) \<Longrightarrow> pool_fits p w 1 \<Longrightarrow>
    pool_step p (store_sw permit (with_permits st p))"
| pt_take_forced: "take_forced w (pl_permits p) = (st, permit) \<Longrightarrow> pool_fits p w 1 \<Longrightarrow>
    pool_step p (store_sw permit (with_permits st p))"
| pt_acquire: "try_acquire limit priority now (pl_permits p) = (st, Some slot) \<Longrightarrow> pool_fits p 0 1 \<Longrightarrow>
    pool_step p (store_hw slot (with_permits st p))"
| pt_acquire_over: "try_acquire_over_background limit now (pl_permits p) = (st, Some slot) \<Longrightarrow>
    pool_fits p 0 1 \<Longrightarrow> pool_step p (store_hw slot (with_permits st p))"
| pt_bundles: "try_admit_bundles_claiming hardware_max budget es priority claim now (pl_permits p) =
      (st, Some permits) \<Longrightarrow> pool_fits p (threads_of es) 6 \<Longrightarrow>
    pool_step p (foldl store_permit (with_permits st p) permits)"
| pt_bundles_refused: "try_admit_bundles_claiming hardware_max budget es priority claim now (pl_permits p) =
      (st, None) \<Longrightarrow> pool_step p (with_permits st p)"
| pt_family: "try_admit_family hardware_max budget es retained priority now p = (p', r) \<Longrightarrow>
    pool_fits p (threads_of es) 6 \<Longrightarrow> pool_step p p'"
| pt_drop_hw: "map_of (pl_hardware p) a = Some slot \<Longrightarrow> drop_hw_slot slot (pl_permits p) = Some st \<Longrightarrow>
    pool_step p (p\<lparr> pl_permits := st, pl_hardware := AList.delete a (pl_hardware p) \<rparr>)"
| pt_drop_sw: "map_of (pl_software p) a = Some permit \<Longrightarrow> drop_sw_permit permit (pl_permits p) = Some st \<Longrightarrow>
    pool_step p (p\<lparr> pl_permits := st, pl_software := AList.delete a (pl_software p) \<rparr>)"
| pt_queue: "pool_step p (p\<lparr> pl_permits := queue_for_slot (pl_permits p), pl_waits := add_mset False (pl_waits p) \<rparr>)"
| pt_mark: "b \<in># pl_waits p \<Longrightarrow> mark_capacity_blocked b (pl_permits p) = (st, b') \<Longrightarrow>
    pool_step p (p\<lparr> pl_permits := st, pl_waits := add_mset b' (pl_waits p - {# b #}) \<rparr>)"
| pt_drop_wait: "b \<in># pl_waits p \<Longrightarrow>
    pool_step p (p\<lparr> pl_permits := drop_wait b (pl_permits p), pl_waits := pl_waits p - {# b #} \<rparr>)"
| pt_reserve: "reserve_for_handoff e ttl now (pl_permits p) = (st, token) \<Longrightarrow> pool_step p (with_permits st p)"
| pt_release: "pool_step p (with_permits (release_reservation token (pl_permits p)) p)"

inductive reachable_pool :: "pool \<Rightarrow> bool" where
  rp_new: "reachable_pool pool_new"
| rp_step: "reachable_pool p \<Longrightarrow> pool_step p p' \<Longrightarrow> reachable_pool p'"

section \<open>Counters and guards\<close>

definition hw_owned :: "permit_owner \<Rightarrow> pool \<Rightarrow> int" where
  "hw_owned owner1 p = weight (\<lambda>s. of_bool (hs_owner s = owner1)) (pl_hardware p)"

definition sw_owned :: "permit_owner \<Rightarrow> pool \<Rightarrow> int" where
  "sw_owned owner1 p = weight (\<lambda>w. of_bool (wp_owner w = owner1)) (pl_software p)"

definition sw_threads :: "permit_owner \<Rightarrow> pool \<Rightarrow> int" where
  "sw_threads owner1 p = weight (\<lambda>w. if wp_owner w = owner1 then int (wp_weight w) else 0) (pl_software p)"

definition family_hw :: "nat \<Rightarrow> hw_store \<Rightarrow> int" where
  "family_hw i hw = weight (\<lambda>s. of_bool (hs_family s = i)) hw"

definition family_sw :: "nat \<Rightarrow> sw_store \<Rightarrow> int" where
  "family_sw i sw = weight (\<lambda>w. of_bool (wp_family w = i)) sw"

definition family_threads :: "nat \<Rightarrow> sw_store \<Rightarrow> int" where
  "family_threads i sw = weight (\<lambda>w. if wp_family w = i then int (wp_weight w) else 0) sw"

definition counters_ok :: "pool \<Rightarrow> bool" where
  "counters_ok p \<longleftrightarrow> (let st = pl_permits p in
     int (pm_hardware_live st) = hw_owned LiveOwner p \<and>
     int (pm_hardware_background st) = hw_owned BackgroundOwner p \<and>
     int (pm_software_live_permits st) = sw_owned LiveOwner p \<and>
     int (pm_software_background_permits st) = sw_owned BackgroundOwner p \<and>
     int (pm_software_live_used st) = sw_threads LiveOwner p \<and>
     int (pm_software_background_used st) = sw_threads BackgroundOwner p \<and>
     pm_live_waiting st = size (pl_waits p) \<and> pm_live_capacity_waiting st = count (pl_waits p) True)"

definition store_ok :: "pool \<Rightarrow> bool" where
  "store_ok p \<longleftrightarrow> distinct (map fst (pl_hardware p)) \<and> distinct (map fst (pl_software p)) \<and>
     (\<forall>a \<in> fst ` set (pl_hardware p) \<union> fst ` set (pl_software p). a < pl_next p) \<and> pool_fits p 0 0"

text \<open>
  A family that still owes guards: \<open>dc\<close> threads and \<open>dh\<close> slots are counted in its usage and
  not yet held. Between operations nothing is owed.
\<close>

definition family_ok :: "int \<Rightarrow> int \<Rightarrow> pool \<Rightarrow> nat \<Rightarrow> family_usage \<Rightarrow> bool" where
  "family_ok dc dh p i f \<longleftrightarrow> 0 < i \<and> i \<le> pm_next_family (pl_permits p) \<and>
     int (fu_cpu_used f) = family_threads i (pl_software p) + dc \<and>
     int (fu_hardware_used f) = family_hw i (pl_hardware p) + dh \<and>
     int (fu_guards f) = family_hw i (pl_hardware p) + family_sw i (pl_software p) \<and>
     fu_cpu_used f \<le> fu_cpu_limit f \<and> fu_hardware_used f \<le> fu_hardware_limit f"

definition family_known :: "permit_state \<Rightarrow> nat \<Rightarrow> bool" where
  "family_known st i \<longleftrightarrow> i = 0 \<or> map_of (pm_families st) i \<noteq> None"

definition members_ok :: "pool \<Rightarrow> bool" where
  "members_ok p \<longleftrightarrow>
     (\<forall>a s. map_of (pl_hardware p) a = Some s \<longrightarrow> family_known (pl_permits p) (hs_family s)) \<and>
     (\<forall>a w. map_of (pl_software p) a = Some w \<longrightarrow> family_known (pl_permits p) (wp_family w))"

definition families_ok :: "nat \<Rightarrow> int \<Rightarrow> int \<Rightarrow> pool \<Rightarrow> bool" where
  "families_ok i dc dh p \<longleftrightarrow> distinct (map fst (pm_families (pl_permits p))) \<and>
     (\<forall>j f. map_of (pm_families (pl_permits p)) j = Some f \<longrightarrow>
        (if j = i then family_ok dc dh p j f else family_ok 0 0 p j f \<and> 0 < fu_guards f))"

definition pool_owes :: "nat \<Rightarrow> int \<Rightarrow> int \<Rightarrow> pool \<Rightarrow> bool" where
  "pool_owes i dc dh p \<longleftrightarrow> counters_ok p \<and> store_ok p \<and> members_ok p \<and> families_ok i dc dh p"

definition pool_ok :: "pool \<Rightarrow> bool" where
  "pool_ok p \<longleftrightarrow> pool_owes 0 0 0 p"

section \<open>Adding and dropping a guard\<close>

lemma fresh_address:
  assumes "store_ok p"
  shows "map_of (pl_hardware p) (pl_next p) = None" "map_of (pl_software p) (pl_next p) = None"
  using assms by (force simp: store_ok_def map_of_eq_None_iff)+

lemma with_permits_simps [simp]:
  "pl_permits (with_permits st p) = st" "pl_hardware (with_permits st p) = pl_hardware p"
  "pl_software (with_permits st p) = pl_software p" "pl_next (with_permits st p) = pl_next p"
  "pl_waits (with_permits st p) = pl_waits p" "with_permits (pl_permits p) p = p"
  "with_permits a (with_permits b p) = with_permits a p"
  by (simp_all add: with_permits_def)

lemma store_simps [simp]:
  "pl_permits (store_hw s p) = pl_permits p" "pl_software (store_hw s p) = pl_software p"
  "pl_hardware (store_hw s p) = AList.update (pl_next p) s (pl_hardware p)"
  "pl_next (store_hw s p) = pl_next p + 1" "pl_waits (store_hw s p) = pl_waits p"
  "pl_permits (store_sw w p) = pl_permits p" "pl_hardware (store_sw w p) = pl_hardware p"
  "pl_software (store_sw w p) = AList.update (pl_next p) w (pl_software p)"
  "pl_next (store_sw w p) = pl_next p + 1" "pl_waits (store_sw w p) = pl_waits p"
  by (simp_all add: store_hw_def store_sw_def)

lemma owner_other: "owner1 \<noteq> LiveOwner \<longleftrightarrow> owner1 = BackgroundOwner"
  by (cases owner1) simp_all

lemma count_frame [simp]:
  "pm_families (count_software pr w st) = pm_families st" "pm_next_family (count_software pr w st) = pm_next_family st"
  "pm_families (count_hardware pr st) = pm_families st" "pm_next_family (count_hardware pr st) = pm_next_family st"
  by (cases "owner_of pr"; simp add: count_software_def count_hardware_def)+

lemma length_update_fresh: "map_of kvs k = None \<Longrightarrow> length (AList.update k v kvs) = Suc (length kvs)"
  by (induction kvs) (auto split: if_splits)

lemma weight_split: "(\<And>v. f v = g v + h v) \<Longrightarrow> weight f kvs = weight g kvs + weight h kvs"
  by (induction kvs) auto

lemma sw_threads_le: "weight (\<lambda>w. int (wp_weight w)) (pl_software p) = sw_threads LiveOwner p + sw_threads BackgroundOwner p"
proof -
  have "int (wp_weight w) = (if wp_owner w = LiveOwner then int (wp_weight w) else 0) +
      (if wp_owner w = BackgroundOwner then int (wp_weight w) else 0)" for w
    by (cases "wp_owner w") simp_all
  then show ?thesis unfolding sw_threads_def by (rule weight_split)
qed

lemma weight_nonneg0: "(\<And>v. 0 \<le> wt v) \<Longrightarrow> 0 \<le> weight wt kvs"
  by (induction kvs) auto

lemma threads_fit:
  assumes "counters_ok p" and "pool_fits p w n"
  shows "pm_software_live_used (pl_permits p) + pm_software_background_used (pl_permits p) + w \<le> USIZE_MAX"
  using assms sw_threads_le [of p] by (simp add: counters_ok_def pool_fits_def Let_def)

lemma add_sw_counters:
  assumes c: "counters_ok p" and s: "store_ok p" and fit: "pool_fits p w 1"
  shows "counters_ok (store_sw \<lparr> wp_owner = owner_of pr, wp_weight = w, wp_family = i \<rparr>
      (with_permits (count_software pr w (pl_permits p)) p))"
  using c threads_fit [OF c fit] fresh_address [OF s]
  by (cases "owner_of pr")
    (simp_all add: counters_ok_def Let_def count_software_def hw_owned_def sw_owned_def sw_threads_def weight_update_None)

lemma add_hw_counters:
  assumes c: "counters_ok p" and s: "store_ok p"
  shows "counters_ok (store_hw \<lparr> hs_owner = owner_of pr, hs_family = i \<rparr>
      (with_permits (count_hardware pr (pl_permits p)) p))"
  using c fresh_address [OF s]
  by (cases "owner_of pr")
    (simp_all add: counters_ok_def Let_def count_hardware_def hw_owned_def sw_owned_def sw_threads_def weight_update_None)

lemma store_ok_add:
  assumes s: "store_ok p"
  shows "pool_fits p (wp_weight w) 1 \<Longrightarrow> store_ok (store_sw w (with_permits st p))"
    and "pool_fits p 0 1 \<Longrightarrow> store_ok (store_hw h (with_permits st p))"
  using s fresh_address [OF s]
  by (auto simp: store_ok_def pool_fits_def distinct_update weight_update_None length_update_fresh dom_update
      less_Suc_eq)

lemma members_ok_store:
  "members_ok p \<Longrightarrow> family_known st (wp_family w) \<Longrightarrow> (\<And>j. family_known (pl_permits p) j \<Longrightarrow> family_known st j) \<Longrightarrow>
   members_ok (store_sw w (with_permits st p))"
  "members_ok p \<Longrightarrow> family_known st (hs_family h) \<Longrightarrow> (\<And>j. family_known (pl_permits p) j \<Longrightarrow> family_known st j) \<Longrightarrow>
   members_ok (store_hw h (with_permits st p))"
  unfolding members_ok_def by (auto simp: update_conv' split: if_splits)

lemma family_sums_fresh:
  assumes "store_ok p"
  shows "family_hw j (AList.update (pl_next p) h (pl_hardware p)) = family_hw j (pl_hardware p) + of_bool (hs_family h = j)"
    "family_sw j (AList.update (pl_next p) w (pl_software p)) = family_sw j (pl_software p) + of_bool (wp_family w = j)"
    "family_threads j (AList.update (pl_next p) w (pl_software p)) =
       family_threads j (pl_software p) + (if wp_family w = j then int (wp_weight w) else 0)"
  using fresh_address [OF assms]
  by (simp_all add: family_hw_def family_sw_def family_threads_def weight_update_None)

lemma family_ok_store:
  assumes "store_ok p" and "family_ok dc dh p j f" and "pm_next_family st = pm_next_family (pl_permits p)"
  shows "wp_family w = 0 \<Longrightarrow> family_ok dc dh (store_sw w (with_permits st p)) j f"
    and "hs_family h = 0 \<Longrightarrow> family_ok dc dh (store_hw h (with_permits st p)) j f"
  using assms by (simp_all add: family_ok_def family_sums_fresh)

lemma family_known_count [simp]:
  "family_known (count_software pr w st) i = family_known st i"
  "family_known (count_hardware pr st) i = family_known st i" "family_known st 0"
  by (simp_all add: family_known_def)

lemma add_sw_free:
  assumes ok: "pool_owes i dc dh p" and fit: "pool_fits p w 1"
  shows "pool_owes i dc dh (store_sw \<lparr> wp_owner = owner_of pr, wp_weight = w, wp_family = 0 \<rparr>
      (with_permits (count_software pr w (pl_permits p)) p))" (is "pool_owes i dc dh (store_sw ?w (with_permits ?st p))")
proof -
  have s: "store_ok p" and c: "counters_ok p" and m: "members_ok p" using ok by (simp_all add: pool_owes_def)
  have "store_ok (store_sw ?w (with_permits ?st p))" using store_ok_add(1) [OF s, of ?w] fit by simp
  moreover have "members_ok (store_sw ?w (with_permits ?st p))" by (rule members_ok_store(1) [OF m]) simp_all
  ultimately show ?thesis
    using ok add_sw_counters [OF c s fit, of pr 0] family_ok_store(1) [OF s, of _ _ _ _ ?st ?w]
    unfolding pool_owes_def families_ok_def by simp
qed

lemma add_hw_free:
  assumes ok: "pool_owes i dc dh p" and fit: "pool_fits p 0 1"
  shows "pool_owes i dc dh (store_hw \<lparr> hs_owner = owner_of pr, hs_family = 0 \<rparr>
      (with_permits (count_hardware pr (pl_permits p)) p))" (is "pool_owes i dc dh (store_hw ?h (with_permits ?st p))")
proof -
  have s: "store_ok p" and c: "counters_ok p" and m: "members_ok p" using ok by (simp_all add: pool_owes_def)
  have "store_ok (store_hw ?h (with_permits ?st p))" using store_ok_add(2) [OF s fit] .
  moreover have "members_ok (store_hw ?h (with_permits ?st p))" by (rule members_ok_store(2) [OF m]) simp_all
  ultimately show ?thesis
    using ok add_hw_counters [OF c s, of pr 0] family_ok_store(2) [OF s, of _ _ _ _ ?st ?h]
    unfolding pool_owes_def families_ok_def by simp
qed

lemma pool_owes_cong:
  assumes "pool_owes i dc dh p" and "pl_hardware p' = pl_hardware p" and "pl_software p' = pl_software p"
    and "pl_next p' = pl_next p"
    and "pm_families (pl_permits p') = pm_families (pl_permits p)" "pm_next_family (pl_permits p') = pm_next_family (pl_permits p)"
    and "counters_ok p'"
  shows "pool_owes i dc dh p'"
proof -
  have "store_ok p' = store_ok p" "members_ok p' = members_ok p" "families_ok i dc dh p' = families_ok i dc dh p"
    using assms(2-6)
    by (simp_all add: store_ok_def members_ok_def families_ok_def family_ok_def pool_fits_def family_known_def)
  then show ?thesis using assms(1,7) by (simp add: pool_owes_def)
qed

lemma family_of_map: "distinct (map fst fs) \<Longrightarrow> map_of (AList.delete i fs) j = (if j = i then None else map_of fs j)"
  by (simp add: delete_conv')

lemma weight_pos: "map_of kvs a = Some v \<Longrightarrow> (\<And>v. 0 \<le> wt v) \<Longrightarrow> wt v \<le> weight wt kvs"
proof (induction kvs)
  case (Cons kv kvs)
  then show ?case using weight_nonneg0 [of wt kvs] by (cases kv) (auto split: if_splits simp: add_increasing add_increasing2)
qed simp

lemma weight_eq_0: "weight wt kvs \<le> 0 \<Longrightarrow> (\<And>v. 0 \<le> wt v) \<Longrightarrow> map_of kvs a = Some v \<Longrightarrow> wt v = 0"
  using weight_pos [of kvs a v wt] by (meson order_antisym order_trans)

lemma counters_ok_cong:
  "counters_ok p \<Longrightarrow> pl_hardware p' = pl_hardware p \<Longrightarrow> pl_software p' = pl_software p \<Longrightarrow> pl_waits p' = pl_waits p \<Longrightarrow>
   pl_permits p' = (pl_permits p)\<lparr> pm_reservations := rs, pm_next_reservation := n, pm_families := fs, pm_next_family := m \<rparr> \<Longrightarrow>
   counters_ok p'"
  by (simp add: counters_ok_def Let_def hw_owned_def sw_owned_def sw_threads_def)

lemma reservations_ok:
  assumes "pool_owes i dc dh p"
  shows "pool_owes i dc dh (with_permits ((pl_permits p)\<lparr> pm_reservations := rs, pm_next_reservation := n \<rparr>) p)"
proof (rule pool_owes_cong [OF assms])
  show "counters_ok (with_permits ((pl_permits p)\<lparr> pm_reservations := rs, pm_next_reservation := n \<rparr>) p)"
    using assms unfolding pool_owes_def
    by (simp add: counters_ok_def Let_def hw_owned_def sw_owned_def sw_threads_def)
qed simp_all

lemma family_ok_frame:
  assumes "family_ok dc dh p j f" and "pm_next_family (pl_permits p') = pm_next_family (pl_permits p)"
    and "0 < j \<Longrightarrow> family_hw j (pl_hardware p') = family_hw j (pl_hardware p)"
    and "0 < j \<Longrightarrow> family_sw j (pl_software p') = family_sw j (pl_software p)"
    and "0 < j \<Longrightarrow> family_threads j (pl_software p') = family_threads j (pl_software p)"
  shows "family_ok dc dh p' j f"
  using assms unfolding family_ok_def by simp

lemma families_entry:
  assumes "families_ok 0 0 0 p" and "map_of (pm_families (pl_permits p)) j = Some f"
  shows "family_ok 0 0 p j f" "0 < j" "0 < fu_guards f"
proof -
  show a: "family_ok 0 0 p j f" using assms unfolding families_ok_def by (cases "j = 0") auto
  then show b: "0 < j" by (simp add: family_ok_def)
  show "0 < fu_guards f" using assms b unfolding families_ok_def by auto
qed

lemma families_okI:
  assumes "distinct (map fst (pm_families (pl_permits p)))"
    and "\<And>j f. map_of (pm_families (pl_permits p)) j = Some f \<Longrightarrow> family_ok 0 0 p j f \<and> 0 < fu_guards f"
  shows "families_ok 0 0 0 p"
  using assms unfolding families_ok_def by auto

lemma family_sums_nonneg:
  "0 \<le> family_hw i hw" "0 \<le> family_sw i sw" "0 \<le> family_threads i sw"
  by (simp_all add: family_hw_def family_sw_def family_threads_def weight_nonneg0)

lemma weight_le: "(\<And>v. f v \<le> g v) \<Longrightarrow> weight f kvs \<le> weight g kvs"
  by (induction kvs) (auto simp: add_mono)

lemma weight_one: "weight (\<lambda>v. 1) kvs = int (length kvs)"
  by (induction kvs) auto

lemma family_sums_le:
  "family_hw i hw \<le> int (length hw)" "family_sw i sw \<le> int (length sw)"
  "family_threads i sw \<le> weight (\<lambda>w. int (wp_weight w)) sw"
  using weight_le [of "\<lambda>s. of_bool (hs_family s = i)" "\<lambda>v. 1" hw] weight_le [of "\<lambda>s. of_bool (wp_family s = i)" "\<lambda>v. 1" sw]
    weight_le [of "\<lambda>w. if wp_family w = i then int (wp_weight w) else 0" "\<lambda>w. int (wp_weight w)" sw]
  by (simp_all add: family_hw_def family_sw_def family_threads_def weight_one)

text \<open>Dropping a guard: the counts of its family follow.\<close>

lemma release_ok:
  assumes ok: "pool_ok p" and known: "family_known (pl_permits p) i"
    and hw: "\<And>b s. map_of hw' b = Some s \<Longrightarrow> map_of (pl_hardware p) b = Some s"
    and sw: "\<And>b w. map_of sw' b = Some w \<Longrightarrow> map_of (pl_software p) b = Some w"
    and sums: "\<And>j. 0 < j \<Longrightarrow> family_hw j hw' = family_hw j (pl_hardware p) - of_bool (hardware \<and> i = j)"
      "\<And>j. 0 < j \<Longrightarrow> family_sw j sw' = family_sw j (pl_software p) - of_bool (\<not> hardware \<and> i = j)"
      "\<And>j. 0 < j \<Longrightarrow> family_threads j sw' = family_threads j (pl_software p) - (if i = j then int cpu else 0)"
  shows "\<exists>fs. release_family i hardware cpu (pl_permits p) = Some ((pl_permits p)\<lparr> pm_families := fs \<rparr>) \<and>
    (\<forall>p'. pm_families (pl_permits p') = fs \<longrightarrow> pm_next_family (pl_permits p') = pm_next_family (pl_permits p) \<longrightarrow>
       pl_hardware p' = hw' \<longrightarrow> pl_software p' = sw' \<longrightarrow> families_ok 0 0 0 p' \<and> members_ok p')"
proof (cases "i = 0")
  case True
  have F: "families_ok 0 0 0 p" and m: "members_ok p" using ok by (simp_all add: pool_ok_def pool_owes_def)
  have "families_ok 0 0 0 p' \<and> members_ok p'"
    if e: "pm_families (pl_permits p') = pm_families (pl_permits p)"
      "pm_next_family (pl_permits p') = pm_next_family (pl_permits p)" "pl_hardware p' = hw'" "pl_software p' = sw'" for p'
  proof
    show "families_ok 0 0 0 p'"
    proof (rule families_okI)
      show "distinct (map fst (pm_families (pl_permits p')))" using F unfolding families_ok_def e by simp
      fix j f assume "map_of (pm_families (pl_permits p')) j = Some f"
      then have f: "map_of (pm_families (pl_permits p)) j = Some f" using e by simp
      show "family_ok 0 0 p' j f \<and> 0 < fu_guards f"
        using family_ok_frame [OF families_entry(1) [OF F f], of p'] families_entry(3) [OF F f] e sums True by simp
    qed
    show "members_ok p'" using m hw sw e unfolding members_ok_def family_known_def by simp blast
  qed
  then show ?thesis using True by (intro exI [of _ "pm_families (pl_permits p)"]) (simp add: release_family_def)
next
  case False
  have F: "families_ok 0 0 0 p" and m: "members_ok p" and s: "store_ok p" using ok by (simp_all add: pool_ok_def pool_owes_def)
  from False known obtain f where f: "map_of (pm_families (pl_permits p)) i = Some f"
    by (auto simp: family_known_def)
  note fok = families_entry [OF F f, unfolded family_ok_def]
  have d: "distinct (map fst (pm_families (pl_permits p)))" using F by (simp add: families_ok_def)
  define f' where "f' = f\<lparr> fu_cpu_used := wrapping_sub_u64 (fu_cpu_used f) cpu,
      fu_hardware_used := wrapping_sub_u64 (fu_hardware_used f) (if hardware then 1 else 0),
      fu_guards := wrapping_sub_u64 (fu_guards f) 1 \<rparr>"
  define fs where "fs = (if fu_guards f' = 0 then AList.delete i (pm_families (pl_permits p))
      else AList.update i f' (pm_families (pl_permits p)))"
  have rel: "release_family i hardware cpu (pl_permits p) = Some ((pl_permits p)\<lparr> pm_families := fs \<rparr>)"
    using False f by (simp add: release_family_def fs_def f'_def Let_def)
  note nn = family_sums_nonneg(1) [of i hw'] family_sums_nonneg(2) [of i sw'] family_sums_nonneg(3) [of i sw']
  note up = family_sums_le(1) [of i "pl_hardware p"] family_sums_le(2) [of i "pl_software p"] family_sums_le(3) [of i "pl_software p"]
  have fit: "weight (\<lambda>w. int (wp_weight w)) (pl_software p) \<le> int USIZE_MAX"
    "length (pl_hardware p) + length (pl_software p) \<le> USIZE_MAX" using s by (simp_all add: store_ok_def pool_fits_def)
  have cpu: "int (fu_cpu_used f') = family_threads i sw'"
    using fok nn sums(3) [of i] up fit by (simp add: f'_def)
  have hwu: "int (fu_hardware_used f') = family_hw i hw'"
    using fok nn sums(1) [of i] up fit by (cases hardware) (simp_all add: f'_def)
  have gds: "int (fu_guards f') = family_hw i hw' + family_sw i sw'"
    using fok nn sums(1,2) [of i] up fit by (cases hardware) (simp_all add: f'_def)
  have new: "map_of fs j = (if j = i then (if fu_guards f' = 0 then None else Some f') else map_of (pm_families (pl_permits p)) j)" for j
    by (simp add: fs_def family_of_map [OF d] update_conv')
  have gone: "fu_guards f' = 0 \<Longrightarrow> family_hw i hw' = 0 \<and> family_sw i sw' = 0" using gds nn by simp
  have "families_ok 0 0 0 p' \<and> members_ok p'"
    if e: "pm_families (pl_permits p') = fs" "pm_next_family (pl_permits p') = pm_next_family (pl_permits p)"
      "pl_hardware p' = hw'" "pl_software p' = sw'" for p'
  proof
    show "families_ok 0 0 0 p'"
    proof (rule families_okI)
      show "distinct (map fst (pm_families (pl_permits p')))" using d unfolding e
        by (simp add: fs_def distinct_delete distinct_update)
      fix j g assume "map_of (pm_families (pl_permits p')) j = Some g"
      then have g: "(if j = i then (if fu_guards f' = 0 then None else Some f') else map_of (pm_families (pl_permits p)) j) = Some g"
        using e new by simp
      show "family_ok 0 0 p' j g \<and> 0 < fu_guards g"
      proof (cases "j = i")
        case True
        then have "g = f'" "0 < fu_guards f'" using g by (auto split: if_splits)
        moreover have "fu_cpu_used f' \<le> fu_cpu_limit f'" "fu_hardware_used f' \<le> fu_hardware_limit f'"
        proof -
          show "fu_cpu_used f' \<le> fu_cpu_limit f'" using cpu fok sums(3) [of i] by (simp add: f'_def)
          show "fu_hardware_used f' \<le> fu_hardware_limit f'" using hwu fok sums(1) [of i] by (simp add: f'_def split: if_splits)
        qed
        ultimately show ?thesis using True fok cpu hwu gds e unfolding family_ok_def by simp
      next
        case False
        then have g': "map_of (pm_families (pl_permits p)) j = Some g" using g by simp
        show ?thesis
          using family_ok_frame [OF families_entry(1) [OF F g'], of p'] families_entry(3) [OF F g'] e sums False by simp
      qed
    qed
    have "family_known (pl_permits p') (hs_family slot)" if "map_of hw' a = Some slot" for a slot
    proof (cases "hs_family slot = i")
      case True
      have "family_hw i hw' \<noteq> 0" using weight_eq_0 [of "\<lambda>s. of_bool (hs_family s = i)" hw' a slot] that True
        by (auto simp: family_hw_def)
      then show ?thesis using gone new True e by (auto simp: family_known_def)
    next
      case False
      then show ?thesis using m hw [OF that] new e by (simp add: members_ok_def family_known_def)
    qed
    moreover have "family_known (pl_permits p') (wp_family w)" if "map_of sw' a = Some w" for a w
    proof (cases "wp_family w = i")
      case True
      have "family_sw i sw' \<noteq> 0" using weight_eq_0 [of "\<lambda>s. of_bool (wp_family s = i)" sw' a w] that True
        by (auto simp: family_sw_def)
      then show ?thesis using gone new True e by (auto simp: family_known_def)
    next
      case False
      then show ?thesis using m sw [OF that] new e by (simp add: members_ok_def family_known_def)
    qed
    ultimately show "members_ok p'" using e by (simp add: members_ok_def)
  qed
  then show ?thesis using rel by blast
qed

lemma store_okI:
  assumes s: "store_ok p" and d: "distinct (map fst (pl_hardware p'))" "distinct (map fst (pl_software p'))"
    and sub: "fst ` set (pl_hardware p') \<subseteq> fst ` set (pl_hardware p)" "fst ` set (pl_software p') \<subseteq> fst ` set (pl_software p)"
    and n: "pl_next p' = pl_next p" and fit: "pool_fits p' 0 0"
  shows "store_ok p'"
proof -
  have "\<forall>a \<in> fst ` set (pl_hardware p') \<union> fst ` set (pl_software p'). a < pl_next p'"
  proof
    fix a assume "a \<in> fst ` set (pl_hardware p') \<union> fst ` set (pl_software p')"
    then have "a \<in> fst ` set (pl_hardware p) \<union> fst ` set (pl_software p)" using sub by blast
    then show "a < pl_next p'" using s n unfolding store_ok_def by simp
  qed
  then show ?thesis using d fit by (simp add: store_ok_def)
qed

lemma length_delete_le: "length (AList.delete a kvs) \<le> length kvs"
  by (simp add: AList.delete_eq)

lemma fst_delete_subset: "fst ` set (AList.delete a kvs) \<subseteq> fst ` set kvs"
  by (auto simp: AList.delete_eq)

lemma drop_hw_ok:
  assumes ok: "pool_ok p" and a: "map_of (pl_hardware p) a = Some slot"
  shows "\<exists>st. drop_hw_slot slot (pl_permits p) = Some st \<and>
    pool_ok (p\<lparr> pl_permits := st, pl_hardware := AList.delete a (pl_hardware p) \<rparr>)"
proof -
  have s: "store_ok p" and c: "counters_ok p" and m: "members_ok p" using ok by (simp_all add: pool_ok_def pool_owes_def)
  have d: "distinct (map fst (pl_hardware p))" using s by (simp add: store_ok_def)
  let ?hw = "AList.delete a (pl_hardware p)"
  note del = weight_delete [OF d a]
  have known: "family_known (pl_permits p) (hs_family slot)" using m a by (simp add: members_ok_def)
  obtain fs where rel: "release_family (hs_family slot) True 0 (pl_permits p) = Some ((pl_permits p)\<lparr> pm_families := fs \<rparr>)"
    and next1: "\<And>p'. pm_families (pl_permits p') = fs \<Longrightarrow> pm_next_family (pl_permits p') = pm_next_family (pl_permits p) \<Longrightarrow>
       pl_hardware p' = ?hw \<Longrightarrow> pl_software p' = pl_software p \<Longrightarrow> families_ok 0 0 0 p' \<and> members_ok p'"
  proof -
    have "\<exists>fs. release_family (hs_family slot) True 0 (pl_permits p) = Some ((pl_permits p)\<lparr> pm_families := fs \<rparr>) \<and>
      (\<forall>p'. pm_families (pl_permits p') = fs \<longrightarrow> pm_next_family (pl_permits p') = pm_next_family (pl_permits p) \<longrightarrow>
       pl_hardware p' = ?hw \<longrightarrow> pl_software p' = pl_software p \<longrightarrow> families_ok 0 0 0 p' \<and> members_ok p')"
      by (rule release_ok [OF ok known])
        (use d in \<open>simp_all add: delete_conv' family_hw_def family_sw_def family_threads_def del split: if_splits\<close>)
    then show thesis using that by blast
  qed
  define st where "st = (case hs_owner slot of
      LiveOwner \<Rightarrow> (pl_permits p)\<lparr> pm_families := fs, pm_hardware_live := pm_hardware_live (pl_permits p) - 1 \<rparr>
    | BackgroundOwner \<Rightarrow> (pl_permits p)\<lparr> pm_families := fs, pm_hardware_background := pm_hardware_background (pl_permits p) - 1 \<rparr>)"
  have drop1: "drop_hw_slot slot (pl_permits p) = Some st"
    by (simp add: drop_hw_slot_def rel st_def split: permit_owner.split)
  let ?p = "p\<lparr> pl_permits := st, pl_hardware := ?hw \<rparr>"
  have st: "pm_families st = fs" "pm_next_family st = pm_next_family (pl_permits p)"
    by (simp_all add: st_def split: permit_owner.split)
  have fit: "pool_fits ?p 0 0" using s length_delete_le [of a "pl_hardware p"] by (simp add: store_ok_def pool_fits_def)
  have "store_ok ?p" by (rule store_okI [OF s]) (use s fst_delete_subset fit in \<open>simp_all add: store_ok_def distinct_delete\<close>)
  moreover have "counters_ok ?p"
  proof -
    have nn: "0 \<le> weight (\<lambda>s. of_bool (hs_owner s = o1)) ?hw" for o1 by (rule weight_nonneg0) simp
    show ?thesis
      using c nn [of LiveOwner] nn [of BackgroundOwner]
      by (cases "hs_owner slot") (simp_all add: counters_ok_def Let_def hw_owned_def sw_owned_def sw_threads_def st_def del)
  qed
  moreover have "families_ok 0 0 0 ?p \<and> members_ok ?p" by (rule next1) (simp_all add: st)
  ultimately show ?thesis using drop1 by (simp add: pool_ok_def pool_owes_def)
qed

lemma drop_sw_ok:
  assumes ok: "pool_ok p" and a: "map_of (pl_software p) a = Some permit"
  shows "\<exists>st. drop_sw_permit permit (pl_permits p) = Some st \<and>
    pool_ok (p\<lparr> pl_permits := st, pl_software := AList.delete a (pl_software p) \<rparr>)"
proof -
  have s: "store_ok p" and c: "counters_ok p" and m: "members_ok p" using ok by (simp_all add: pool_ok_def pool_owes_def)
  have d: "distinct (map fst (pl_software p))" using s by (simp add: store_ok_def)
  let ?sw = "AList.delete a (pl_software p)"
  note del = weight_delete [OF d a]
  have known: "family_known (pl_permits p) (wp_family permit)" using m a by (simp add: members_ok_def)
  obtain fs where rel: "release_family (wp_family permit) False (wp_weight permit) (pl_permits p) =
       Some ((pl_permits p)\<lparr> pm_families := fs \<rparr>)"
    and next1: "\<And>p'. pm_families (pl_permits p') = fs \<Longrightarrow> pm_next_family (pl_permits p') = pm_next_family (pl_permits p) \<Longrightarrow>
       pl_hardware p' = pl_hardware p \<Longrightarrow> pl_software p' = ?sw \<Longrightarrow> families_ok 0 0 0 p' \<and> members_ok p'"
  proof -
    have "\<exists>fs. release_family (wp_family permit) False (wp_weight permit) (pl_permits p) =
         Some ((pl_permits p)\<lparr> pm_families := fs \<rparr>) \<and>
      (\<forall>p'. pm_families (pl_permits p') = fs \<longrightarrow> pm_next_family (pl_permits p') = pm_next_family (pl_permits p) \<longrightarrow>
       pl_hardware p' = pl_hardware p \<longrightarrow> pl_software p' = ?sw \<longrightarrow> families_ok 0 0 0 p' \<and> members_ok p')"
      by (rule release_ok [OF ok known])
        (use d in \<open>simp_all add: delete_conv' family_hw_def family_sw_def family_threads_def del split: if_splits\<close>)
    then show thesis using that by blast
  qed
  let ?st = "(pl_permits p)\<lparr> pm_families := fs \<rparr>"
  define st where "st = (case wp_owner permit of
      LiveOwner \<Rightarrow> ?st\<lparr> pm_software_live_permits := pm_software_live_permits ?st - 1,
                        pm_software_live_used := pm_software_live_used ?st - wp_weight permit \<rparr>
    | BackgroundOwner \<Rightarrow> ?st\<lparr> pm_software_background_permits := pm_software_background_permits ?st - 1,
                  pm_software_background_used := pm_software_background_used ?st - wp_weight permit \<rparr>)"
  have drop1: "drop_sw_permit permit (pl_permits p) = Some st"
    by (simp add: drop_sw_permit_def rel st_def split: permit_owner.split)
  let ?p = "p\<lparr> pl_permits := st, pl_software := ?sw \<rparr>"
  have st: "pm_families st = fs" "pm_next_family st = pm_next_family (pl_permits p)"
    by (simp_all add: st_def split: permit_owner.split)
  have "pool_fits ?p 0 0"
    using s length_delete_le [of a "pl_software p"] del [of "\<lambda>w. int (wp_weight w)"] by (simp add: store_ok_def pool_fits_def)
  then have "store_ok ?p"
    by (intro store_okI [OF s]) (use s fst_delete_subset in \<open>simp_all add: store_ok_def distinct_delete\<close>)
  moreover have "counters_ok ?p"
  proof -
    have nn: "0 \<le> weight (\<lambda>w. of_bool (wp_owner w = o1)) ?sw" "0 \<le> weight (\<lambda>w. if wp_owner w = o1 then int (wp_weight w) else 0) ?sw" for o1
      by (rule weight_nonneg0, simp)+
    show ?thesis
      using c nn [of LiveOwner] nn [of BackgroundOwner]
      by (cases "wp_owner permit") (simp_all add: counters_ok_def Let_def hw_owned_def sw_owned_def sw_threads_def st_def del)
  qed
  moreover have "families_ok 0 0 0 ?p \<and> members_ok ?p" by (rule next1) (simp_all add: st)
  ultimately show ?thesis using drop1 by (simp add: pool_ok_def pool_owes_def)
qed

end
