(* ===== verification/AdmissionInvariant.thy ===== *)
theory AdmissionInvariant
  imports AdmissionPool
begin

text \<open>
  Every step of the permit pool keeps the counts: granting a group one permit at a time, adopting
  guards into a family, and the debt a family settles permit by permit. What holds of every
  reachable pool follows.
\<close>

section \<open>Bundles\<close>

lemma pool_fits_mono: "pool_fits p w n \<Longrightarrow> w' \<le> w \<Longrightarrow> n' \<le> n \<Longrightarrow> pool_fits p w' n'"
  by (simp add: pool_fits_def)

lemma pool_fits_store:
  "store_ok p \<Longrightarrow> pool_fits p (wp_weight w + t) (Suc n) \<Longrightarrow> pool_fits (store_sw w (with_permits st p)) t n"
  "store_ok p \<Longrightarrow> pool_fits p t (Suc n) \<Longrightarrow> pool_fits (store_hw h (with_permits st p)) t n"
  using fresh_address [of p] by (simp_all add: pool_fits_def length_update_fresh weight_update_None)

text \<open>Counting and storing commute, so a group is granted one permit at a time.\<close>

definition grant_bundle :: "priority \<Rightarrow> pool \<Rightarrow> resource_estimate \<Rightarrow> pool" where
  "grant_bundle pr p e =
     store_permit (with_permits (count_bundle pr (pl_permits p) e) p) (permit_for (owner_of pr) 0 e)"

lemma store_with [simp]:
  "store_hw h (with_permits st p) = with_permits st (store_hw h p)"
  "store_sw w (with_permits st p) = with_permits st (store_sw w p)"
  by (simp_all add: store_hw_def store_sw_def with_permits_def)

lemma store_permit_with [simp]:
  "store_permit (with_permits st p) x = with_permits st (store_permit p x)"
  by (simp add: store_permit_def Let_def split: option.split)

lemma store_permit_permits [simp]: "pl_permits (store_permit p x) = pl_permits p"
  by (simp add: store_permit_def Let_def split: option.split)

lemma foldl_store_with [simp]:
  "foldl store_permit (with_permits st p) xs = with_permits st (foldl store_permit p xs)"
  by (induction xs arbitrary: p) simp_all

lemma foldl_grant_bundle:
  "foldl store_permit (with_permits (foldl (count_bundle pr) st es) p) (map (permit_for (owner_of pr) 0) es) =
   foldl (grant_bundle pr) (with_permits st p) es"
  by (induction es arbitrary: st p) (simp_all add: grant_bundle_def)

lemma grant_bundle_unfold:
  "grant_bundle pr p e =
     (let p = (if re_hardware_slot e then store_hw \<lparr> hs_owner = owner_of pr, hs_family = 0 \<rparr>
                 (with_permits (count_hardware pr (pl_permits p)) p) else p)
      in if 0 < re_cpu_threads e then store_sw \<lparr> wp_owner = owner_of pr, wp_weight = re_cpu_threads e, wp_family = 0 \<rparr>
           (with_permits (count_software pr (re_cpu_threads e) (pl_permits p)) p) else p)"
  by (simp add: grant_bundle_def count_bundle_def permit_for_def store_permit_def Let_def)

lemma grant_bundle_ok:
  assumes ok: "pool_owes i dc dh p" and fit: "pool_fits p (re_cpu_threads e + w) (Suc (Suc n))"
  shows "pool_owes i dc dh (grant_bundle pr p e) \<and> pool_fits (grant_bundle pr p e) w n"
proof -
  let ?p = "if re_hardware_slot e then store_hw \<lparr> hs_owner = owner_of pr, hs_family = 0 \<rparr>
                 (with_permits (count_hardware pr (pl_permits p)) p) else p"
  have s: "store_ok p" using ok by (simp add: pool_owes_def)
  have p: "pool_owes i dc dh ?p" using add_hw_free [OF ok, of pr] pool_fits_mono [OF fit] ok by simp
  have f: "pool_fits ?p (re_cpu_threads e + w) (Suc n)"
    using pool_fits_store(2) [OF s fit] pool_fits_mono [OF fit] by simp
  have s': "store_ok ?p" using p by (simp add: pool_owes_def)
  show ?thesis
    using add_sw_free [OF p, of "re_cpu_threads e" pr] pool_fits_mono [OF f] p
      pool_fits_store(1) [OF s', of "\<lparr> wp_owner = owner_of pr, wp_weight = re_cpu_threads e, wp_family = 0 \<rparr>" w n] f
    unfolding grant_bundle_unfold Let_def by simp
qed

lemma grant_bundles_ok:
  assumes "pool_owes i dc dh p" and "pool_fits p (threads_of es) (2 * length es)"
  shows "pool_owes i dc dh (foldl (grant_bundle pr) p es)"
  using assms
proof (induction es arbitrary: p)
  case (Cons e es)
  have "pool_fits p (re_cpu_threads e + threads_of es) (Suc (Suc (2 * length es)))"
    using Cons.prems(2) by (simp add: threads_of_def)
  from grant_bundle_ok [OF Cons.prems(1) this, of pr] show ?case using Cons.IH by simp
qed simp

lemma bundles_grant:
  assumes "try_admit_bundles_claiming hardware_max budget es pr claim now st = (st', r)"
  obtains rs where "r = None" "st' = st\<lparr> pm_reservations := rs \<rparr>"
  | rs where "r = Some (map (permit_for (owner_of pr) 0) es)" "length es \<le> 3"
      "st' = foldl (count_bundle pr) (st\<lparr> pm_reservations := rs \<rparr>) es"
proof -
  let ?rs = "pm_reservations (prune now st)"
  have same: "st = st\<lparr> pm_reservations := pm_reservations st \<rparr>" by simp
  show thesis
  proof (cases r)
    case None
    then have "st' = st \<or> st' = prune now st"
      using assms unfolding try_admit_bundles_claiming_def Let_def by (auto split: if_splits option.splits)
    then show ?thesis using that(1) None same unfolding prune_def by metis
  next
    case (Some ps)
    then have "ps = map (permit_for (owner_of pr) 0) es" "length es \<le> 3"
      "\<exists>rs. st' = foldl (count_bundle pr) (st\<lparr> pm_reservations := rs \<rparr>) es"
      using assms unfolding try_admit_bundles_claiming_def Let_def prune_def
      by (auto split: if_splits option.splits)
    then show ?thesis using that(2) Some by blast
  qed
qed

section \<open>Adopting guards into a family\<close>

definition adopt_all :: "('v \<Rightarrow> 'v) \<Rightarrow> nat list \<Rightarrow> (nat \<times> 'v) list \<Rightarrow> (nat \<times> 'v) list" where
  "adopt_all upd as kvs = foldl (\<lambda>kvs a. case map_of kvs a of None \<Rightarrow> kvs | Some v \<Rightarrow> AList.update a (upd v) kvs) kvs as"

lemma adopt_all_simps [simp]:
  "adopt_all upd [] kvs = kvs"
  "adopt_all upd (a # as) kvs =
     adopt_all upd as (case map_of kvs a of None \<Rightarrow> kvs | Some v \<Rightarrow> AList.update a (upd v) kvs)"
  by (simp_all add: adopt_all_def)

lemma map_fst_update_Some: "map_of kvs a = Some v \<Longrightarrow> map fst (AList.update a u kvs) = map fst kvs"
  by (induction kvs) (auto split: if_splits)

lemma adopt_all_keys [simp]: "map fst (adopt_all upd as kvs) = map fst kvs"
  by (induction as arbitrary: kvs) (auto simp: map_fst_update_Some split: option.split)

lemma adopt_all_map_of:
  "distinct as \<Longrightarrow>
   map_of (adopt_all upd as kvs) b = (if b \<in> set as then map_option upd (map_of kvs b) else map_of kvs b)"
  by (induction as arbitrary: kvs) (auto simp: update_conv' split: option.split)

text \<open>What adopting adds to a sum over the store.\<close>

definition adopt_gain :: "('v \<Rightarrow> int) \<Rightarrow> ('v \<Rightarrow> 'v) \<Rightarrow> nat list \<Rightarrow> (nat \<times> 'v) list \<Rightarrow> int" where
  "adopt_gain f upd as kvs = sum_list (map (\<lambda>a. case map_of kvs a of None \<Rightarrow> 0 | Some v \<Rightarrow> f (upd v) - f v) as)"

lemma adopt_gain_update: "a \<notin> set as \<Longrightarrow> adopt_gain f upd as (AList.update a u kvs) = adopt_gain f upd as kvs"
  unfolding adopt_gain_def by (rule arg_cong [where f = sum_list], rule map_cong) (auto simp: update_conv')

lemma weight_adopt_all:
  "distinct as \<Longrightarrow> weight f (adopt_all upd as kvs) = weight f kvs + adopt_gain f upd as kvs"
proof (induction as arbitrary: kvs)
  case (Cons a as)
  then show ?case
    by (cases "map_of kvs a") (simp_all add: weight_update_Some adopt_gain_update, simp_all add: adopt_gain_def)
qed (simp add: adopt_gain_def)

lemma adopt_gain_0: "(\<And>v. f (upd v) = f v) \<Longrightarrow> adopt_gain f upd as kvs = 0"
  unfolding adopt_gain_def by (induction as) (simp_all split: option.split)

lemma adopt_gain_append: "adopt_gain f upd (as @ bs) kvs = adopt_gain f upd as kvs + adopt_gain f upd bs kvs"
  by (simp add: adopt_gain_def)

lemma halves_adopted:
  "foldl (\<lambda>hw x. adopt_hardware i (rt_hardware x) hw) hw held =
     adopt_all (hs_family_update (\<lambda>_. i)) (List.map_filter rt_hardware held) hw"
  "foldl (\<lambda>sw x. adopt_software i (rt_software x) sw) sw held =
     adopt_all (wp_family_update (\<lambda>_. i)) (List.map_filter rt_software held) sw"
  by (induction held arbitrary: hw sw)
    (auto simp: adopt_hardware_def adopt_software_def map_filter_simps split: option.split)

section \<open>The scan\<close>

definition debt_cpu :: "(resource_estimate \<times> retained_permit option) list \<Rightarrow> nat" where
  "debt_cpu roles = sum_list (map (\<lambda>r. if snd r = None then re_cpu_threads (fst r) else 0) roles)"

definition debt_hw :: "(resource_estimate \<times> retained_permit option) list \<Rightarrow> nat" where
  "debt_hw roles = length (filter (\<lambda>r. snd r = None \<and> re_hardware_slot (fst r)) roles)"

definition is_family :: "nat option \<Rightarrow> nat \<Rightarrow> bool" where
  "is_family fam i \<longleftrightarrow> i = 0 \<or> fam = Some i"

text \<open>
  What the scan knows after some roles: the guards seen are distinct guards of the store,
  free or of the family found, and the sums over the free ones are those it adopts.
\<close>

definition free_hw :: "hw_store \<Rightarrow> nat list \<Rightarrow> nat" where
  "free_hw hw as = length (filter (\<lambda>a. case map_of hw a of None \<Rightarrow> False | Some s \<Rightarrow> hs_family s = 0) as)"

definition free_sw :: "sw_store \<Rightarrow> nat list \<Rightarrow> nat" where
  "free_sw sw as = length (filter (\<lambda>a. case map_of sw a of None \<Rightarrow> False | Some w \<Rightarrow> wp_family w = 0) as)"

definition free_threads :: "sw_store \<Rightarrow> nat list \<Rightarrow> nat" where
  "free_threads sw as =
     sum_list (map (\<lambda>a. case map_of sw a of None \<Rightarrow> 0 | Some w \<Rightarrow> if wp_family w = 0 then wp_weight w else 0) as)"

definition scan_seen :: "(resource_estimate \<times> retained_permit option) list \<Rightarrow> family_scan \<Rightarrow> bool" where
  "scan_seen done1 s \<longleftrightarrow>
     fs_seen_hardware s = List.map_filter rt_hardware (List.map_filter snd done1) \<and>
     fs_seen_software s = List.map_filter rt_software (List.map_filter snd done1)"

definition scan_ok :: "hw_store \<Rightarrow> sw_store \<Rightarrow> (resource_estimate \<times> retained_permit option) list \<Rightarrow> family_scan \<Rightarrow> bool" where
  "scan_ok hw sw done1 s \<longleftrightarrow>
     distinct (fs_seen_hardware s) \<and> distinct (fs_seen_software s) \<and> fs_family s \<noteq> Some 0 \<and>
     (\<forall>a \<in> set (fs_seen_hardware s). \<exists>slot. map_of hw a = Some slot \<and> is_family (fs_family s) (hs_family slot)) \<and>
     (\<forall>a \<in> set (fs_seen_software s). \<exists>w. map_of sw a = Some w \<and> is_family (fs_family s) (wp_family w)) \<and>
     fs_adopted_hardware s = free_hw hw (fs_seen_hardware s) \<and>
     fs_adopted_cpu s = free_threads sw (fs_seen_software s) \<and>
     fs_adopted_guards s = free_hw hw (fs_seen_hardware s) + free_sw sw (fs_seen_software s) \<and>
     fs_missing_cpu s = debt_cpu done1 \<and> fs_missing_hardware s = debt_hw done1 \<and>
     (fs_family s = None \<longrightarrow> fs_adopted_cpu s + fs_missing_cpu s = threads_of (map fst done1) \<and>
        fs_adopted_hardware s + fs_missing_hardware s = length (filter (\<lambda>r. re_hardware_slot (fst r)) done1))"

lemmas scan_sums = free_hw_def free_sw_def free_threads_def debt_cpu_def debt_hw_def threads_of_def

lemma map_filter_append: "List.map_filter f (xs @ ys) = List.map_filter f xs @ List.map_filter f ys"
  by (simp add: List.map_filter_def)

lemma scan_new_ok: "scan_ok hw sw [] scan_new" "scan_seen [] scan_new"
  by (simp_all add: scan_ok_def scan_seen_def scan_new_def scan_sums map_filter_simps)

lemma scan_sums_append [simp]:
  "free_hw hw (as @ bs) = free_hw hw as + free_hw hw bs" "free_sw sw (as @ bs) = free_sw sw as + free_sw sw bs"
  "free_threads sw (as @ bs) = free_threads sw as + free_threads sw bs"
  "debt_cpu (r @ r') = debt_cpu r + debt_cpu r'" "debt_hw (r @ r') = debt_hw r + debt_hw r'"
  "threads_of (es @ es') = threads_of es + threads_of es'"
  by (simp_all add: scan_sums)

lemma scan_sums_one [simp]:
  "debt_cpu [(e, None)] = re_cpu_threads e" "debt_cpu [(e, Some x)] = 0"
  "debt_hw [(e, None)] = of_bool (re_hardware_slot e)" "debt_hw [(e, Some x)] = 0"
  "threads_of [e] = re_cpu_threads e" "free_hw hw [] = 0" "free_sw sw [] = 0" "free_threads sw [] = 0"
  "free_hw hw [a] = of_bool (\<exists>s. map_of hw a = Some s \<and> hs_family s = 0)"
  "free_sw sw [a] = of_bool (\<exists>w. map_of sw a = Some w \<and> wp_family w = 0)"
  by (auto simp: scan_sums split: option.split)

definition halves :: "nat option \<Rightarrow> nat list" where
  "halves half = (case half of None \<Rightarrow> [] | Some a \<Rightarrow> [a])"

lemma halves_simps [simp]: "halves None = []" "halves (Some a) = [a]"
  by (simp_all add: halves_def)

lemma seen_append [simp]:
  "List.map_filter f (List.map_filter snd (done1 @ [(e, None)])) = List.map_filter f (List.map_filter snd done1)"
  "List.map_filter f (List.map_filter snd (done1 @ [(e, Some x)])) = List.map_filter f (List.map_filter snd done1) @ halves (f x)"
  by (simp_all add: map_filter_append map_filter_simps halves_def split: option.split)

lemma scan_missing_ok:
  assumes ok: "scan_ok hw sw done1 s" and m: "scan_missing e s = Some s'"
  shows "scan_ok hw sw (done1 @ [(e, None)]) s'" "scan_seen done1 s \<Longrightarrow> scan_seen (done1 @ [(e, None)]) s'"
proof -
  have s': "s' = s\<lparr> fs_missing_cpu := fs_missing_cpu s + re_cpu_threads e,
      fs_missing_hardware := fs_missing_hardware s + of_bool (re_hardware_slot e) \<rparr>"
    using m by (auto simp: scan_missing_def split: option.splits)
  show "scan_ok hw sw (done1 @ [(e, None)]) s'" using ok unfolding scan_ok_def s' by (cases "fs_family s") simp_all
  show "scan_seen done1 s \<Longrightarrow> scan_seen (done1 @ [(e, None)]) s'" unfolding scan_seen_def s' by simp
qed

lemma see_hardware_spec:
  assumes "see_hardware hw half s = Some s'"
  shows "s' = s\<lparr> fs_seen_hardware := fs_seen_hardware s @ halves half \<rparr>"
    "\<forall>a \<in> set (halves half). a \<notin> set (fs_seen_hardware s) \<and> map_of hw a \<noteq> None"
  using assms by (auto simp: see_hardware_def split: option.splits if_splits)

lemma see_software_spec:
  assumes "see_software sw half s = Some s'"
  shows "s' = s\<lparr> fs_seen_software := fs_seen_software s @ halves half \<rparr>"
    "\<forall>a \<in> set (halves half). a \<notin> set (fs_seen_software s) \<and> map_of sw a \<noteq> None"
  using assms by (auto simp: see_software_def split: option.splits if_splits)

lemma scan_family_spec:
  assumes "scan_family e x hf sf s = Some s'"
  obtains i where "s' = s\<lparr> fs_family := Some i \<rparr>" "fs_family s = None \<or> fs_family s = Some i" "hf = Some i \<or> sf = Some i"
    "rt_hardware x \<noteq> None \<Longrightarrow> rt_software x \<noteq> None \<Longrightarrow> hf = sf"
  | "hf = None" "sf = None" "s' = s\<lparr> fs_adopted_cpu := fs_adopted_cpu s + re_cpu_threads e,
        fs_adopted_hardware := fs_adopted_hardware s + (if re_hardware_slot e then 1 else 0),
        fs_adopted_guards := fs_adopted_guards s + length (halves (rt_hardware x)) + length (halves (rt_software x)) \<rparr>"
  using assms
  by (cases "rt_hardware x"; cases "rt_software x"; cases hf; cases sf)
    (auto simp: scan_family_def split: if_splits option.splits)

lemma half_family:
  "hardware_family hw half = Some i \<Longrightarrow> a \<in> set (halves half) \<Longrightarrow> i \<noteq> 0 \<and> (\<exists>s. map_of hw a = Some s \<and> hs_family s = i)"
  "software_family sw half' = Some i \<Longrightarrow> b \<in> set (halves half') \<Longrightarrow> i \<noteq> 0 \<and> (\<exists>w. map_of sw b = Some w \<and> wp_family w = i)"
  "hardware_family hw half = None \<Longrightarrow> a \<in> set (halves half) \<Longrightarrow> map_of hw a \<noteq> None \<Longrightarrow> (\<exists>s. map_of hw a = Some s \<and> hs_family s = 0)"
  "software_family sw half' = None \<Longrightarrow> b \<in> set (halves half') \<Longrightarrow> map_of sw b \<noteq> None \<Longrightarrow> (\<exists>w. map_of sw b = Some w \<and> wp_family w = 0)"
  by (auto simp: hardware_family_def software_family_def family_id_def halves_def split: option.splits if_splits)

lemma family_none:
  "hardware_family hw None = None" "software_family sw None = None"
  by (simp_all add: hardware_family_def software_family_def)

lemma free_halves:
  "\<forall>a \<in> set as. \<exists>s. map_of hw a = Some s \<and> hs_family s = i \<Longrightarrow> free_hw hw as = (if i = 0 then length as else 0)"
  "\<forall>a \<in> set as. \<exists>w. map_of sw a = Some w \<and> wp_family w = i \<Longrightarrow> free_sw sw as = (if i = 0 then length as else 0)"
  "\<forall>a \<in> set as. \<exists>w. map_of sw a = Some w \<and> wp_family w = i \<Longrightarrow>
     free_threads sw as = (if i = 0 then sum_list (map (\<lambda>a. half_weight sw (Some a)) as) else 0)"
  by (induction as) (auto simp: scan_sums half_weight_def)

lemma half_weight_halves: "sum_list (map (\<lambda>a. half_weight sw (Some a)) (halves half)) = half_weight sw half"
  by (cases half) (simp_all add: half_weight_def)

lemma scan_retained_ok:
  assumes ok: "scan_ok hw sw done1 s" and m: "scan_retained hw sw e x s = Some s'"
  shows "scan_ok hw sw (done1 @ [(e, Some x)]) s'"
proof -
  let ?H = "halves (rt_hardware x)" and ?S = "halves (rt_software x)"
  have shape: "(rt_hardware x \<noteq> None) = re_hardware_slot e" "half_weight sw (rt_software x) = re_cpu_threads e"
    using m by (auto simp: scan_retained_def split: if_splits)
  obtain s1 s2 where see: "see_hardware hw (rt_hardware x) s = Some s1" "see_software sw (rt_software x) s1 = Some s2"
    and fam: "scan_family e x (hardware_family hw (rt_hardware x)) (software_family sw (rt_software x)) s2 = Some s'"
    using m by (auto simp: scan_retained_def split: if_splits option.splits)
  note s1 = see_hardware_spec [OF see(1)]
  note s2 = see_software_spec [OF see(2), unfolded s1(1), simplified]
  have new: "distinct ?H" "distinct ?S" by (simp_all add: halves_def split: option.split)
  have seen: "distinct (fs_seen_hardware s @ ?H)" "distinct (fs_seen_software s @ ?S)"
    using ok new s1(2) s2(2) by (auto simp: scan_ok_def)
  show ?thesis
  proof (rule scan_family_spec [OF fam])
    fix i assume s': "s' = s2\<lparr>fs_family := Some i\<rparr>" and old: "fs_family s2 = None \<or> fs_family s2 = Some i"
      and some: "hardware_family hw (rt_hardware x) = Some i \<or> software_family sw (rt_software x) = Some i"
      and same: "rt_hardware x \<noteq> None \<Longrightarrow> rt_software x \<noteq> None \<Longrightarrow>
        hardware_family hw (rt_hardware x) = software_family sw (rt_software x)"
    have H: "\<forall>a \<in> set ?H. \<exists>slot. map_of hw a = Some slot \<and> hs_family slot = i"
      using some same half_family(1) [of hw "rt_hardware x" i]
      by (cases "rt_hardware x"; cases "rt_software x") (auto simp: family_none)
    have S: "\<forall>a \<in> set ?S. \<exists>w. map_of sw a = Some w \<and> wp_family w = i"
      using some same half_family(2) [of sw "rt_software x" i]
      by (cases "rt_hardware x"; cases "rt_software x") (auto simp: family_none)
    have i: "i \<noteq> 0" using some
      by (auto simp: hardware_family_def software_family_def family_id_def split: option.splits if_splits)
    have adm: "is_family (fs_family s) k \<Longrightarrow> is_family (Some i) k" for k
      using old by (auto simp: is_family_def s2(1))
    have "\<forall>a \<in> set (fs_seen_hardware s @ ?H). \<exists>slot. map_of hw a = Some slot \<and> is_family (Some i) (hs_family slot)"
      using ok H adm unfolding scan_ok_def by (fastforce simp: is_family_def [of "Some i"])
    moreover have "\<forall>a \<in> set (fs_seen_software s @ ?S). \<exists>w. map_of sw a = Some w \<and> is_family (Some i) (wp_family w)"
      using ok S adm unfolding scan_ok_def by (fastforce simp: is_family_def [of "Some i"])
    moreover have "free_hw hw ?H = 0" "free_sw sw ?S = 0" "free_threads sw ?S = 0"
      using free_halves(1) [OF H] free_halves(2,3) [OF S] i by simp_all
    ultimately show ?thesis using ok seen i unfolding scan_ok_def s' s2(1) by simp
  next
    assume none: "hardware_family hw (rt_hardware x) = None" "software_family sw (rt_software x) = None"
      and s': "s' = s2\<lparr>fs_adopted_cpu := fs_adopted_cpu s2 + re_cpu_threads e,
          fs_adopted_hardware := fs_adopted_hardware s2 + (if re_hardware_slot e then 1 else 0),
          fs_adopted_guards := fs_adopted_guards s2 + length ?H + length ?S\<rparr>"
    have H: "\<forall>a \<in> set ?H. \<exists>slot. map_of hw a = Some slot \<and> hs_family slot = 0"
      using half_family(3) [OF none(1)] s1(2) by blast
    have S: "\<forall>a \<in> set ?S. \<exists>w. map_of sw a = Some w \<and> wp_family w = 0"
      using half_family(4) [OF none(2)] s2(2) by blast
    have "\<forall>a \<in> set (fs_seen_hardware s @ ?H). \<exists>slot. map_of hw a = Some slot \<and> is_family (fs_family s) (hs_family slot)"
      using ok H unfolding scan_ok_def by (auto simp: is_family_def)
    moreover have "\<forall>a \<in> set (fs_seen_software s @ ?S). \<exists>w. map_of sw a = Some w \<and> is_family (fs_family s) (wp_family w)"
      using ok S unfolding scan_ok_def by (auto simp: is_family_def)
    moreover have "free_hw hw ?H = length ?H" "free_sw sw ?S = length ?S" "free_threads sw ?S = re_cpu_threads e"
      using free_halves(1) [OF H] free_halves(2,3) [OF S] shape(2) by (simp_all add: half_weight_halves)
    moreover have "length ?H = (if re_hardware_slot e then 1 else 0)"
      using shape(1) by (cases "rt_hardware x") simp_all
    ultimately show ?thesis using ok seen unfolding scan_ok_def s' s2(1) by (cases "fs_family s") simp_all
  qed
qed

lemma scan_retained_seen:
  assumes "scan_seen done1 s" and m: "scan_retained hw sw e x s = Some s'"
  shows "scan_seen (done1 @ [(e, Some x)]) s'"
proof -
  obtain s1 s2 where see: "see_hardware hw (rt_hardware x) s = Some s1" "see_software sw (rt_software x) s1 = Some s2"
    and fam: "scan_family e x (hardware_family hw (rt_hardware x)) (software_family sw (rt_software x)) s2 = Some s'"
    using m by (auto simp: scan_retained_def split: if_splits option.splits)
  note s1 = see_hardware_spec(1) [OF see(1)]
  note s2 = see_software_spec(1) [OF see(2), unfolded s1, simplified]
  show ?thesis by (rule scan_family_spec [OF fam]) (use assms(1) s2 in \<open>simp_all add: scan_seen_def\<close>)
qed

lemma scan_roles_ok:
  assumes "scan_ok hw sw done1 s" and "scan_seen done1 s" and "scan_roles hw sw roles s = Some s'"
  shows "scan_ok hw sw (done1 @ roles) s' \<and> scan_seen (done1 @ roles) s'"
  using assms
proof (induction hw sw roles s arbitrary: done1 rule: scan_roles.induct)
  case (2 hw sw e rest s)
  then show ?case using scan_missing_ok [OF 2(2)] by (fastforce split: option.splits)
next
  case (3 hw sw e x rest s)
  then show ?case using scan_retained_ok [OF 3(2)] scan_retained_seen [OF 3(3)] by (fastforce split: option.splits)
qed simp

section \<open>Permits of a family\<close>

lemma update_family_simps [simp]:
  "pm_next_family (update_family i g st) = pm_next_family st"
  "pm_hardware_live (update_family i g st) = pm_hardware_live st"
  "pm_hardware_background (update_family i g st) = pm_hardware_background st"
  "pm_software_live_permits (update_family i g st) = pm_software_live_permits st"
  "pm_software_background_permits (update_family i g st) = pm_software_background_permits st"
  "pm_software_live_used (update_family i g st) = pm_software_live_used st"
  "pm_software_background_used (update_family i g st) = pm_software_background_used st"
  "pm_live_waiting (update_family i g st) = pm_live_waiting st"
  "pm_live_capacity_waiting (update_family i g st) = pm_live_capacity_waiting st"
  by (simp_all add: update_family_def split: option.split)

lemma update_family_map_of:
  "map_of (pm_families (update_family i g st)) j =
     (if j = i then map_option g (map_of (pm_families st) i) else map_of (pm_families st) j)"
  by (simp add: update_family_def update_conv' split: option.split)

lemma update_family_distinct:
  "distinct (map fst (pm_families st)) \<Longrightarrow> distinct (map fst (pm_families (update_family i g st)))"
  by (simp add: update_family_def distinct_update split: option.split)

lemma update_family_known [simp]: "family_known (update_family i g st) j = family_known st j"
  by (simp add: family_known_def update_family_map_of)

lemma counters_ok_update_family:
  "counters_ok (with_permits (update_family i g (pl_permits p)) p) = counters_ok p"
  by (simp add: counters_ok_def Let_def hw_owned_def sw_owned_def sw_threads_def)

text \<open>The debt of family \<open>i\<close> in an intermediate state, its entry and the others.\<close>

lemma families_owe_entry:
  assumes "families_ok i dc dh p" and "map_of (pm_families (pl_permits p)) j = Some f"
  shows "j = i \<Longrightarrow> family_ok dc dh p j f" "j \<noteq> i \<Longrightarrow> family_ok 0 0 p j f \<and> 0 < fu_guards f"
  using assms unfolding families_ok_def by auto

lemma families_oweI:
  assumes "distinct (map fst (pm_families (pl_permits p)))"
    and "\<And>f. map_of (pm_families (pl_permits p)) i = Some f \<Longrightarrow> family_ok dc dh p i f"
    and "\<And>j f. j \<noteq> i \<Longrightarrow> map_of (pm_families (pl_permits p)) j = Some f \<Longrightarrow> family_ok 0 0 p j f \<and> 0 < fu_guards f"
  shows "families_ok i dc dh p"
  using assms unfolding families_ok_def by auto

definition member_sw :: "nat \<Rightarrow> nat \<Rightarrow> pool \<Rightarrow> pool" where
  "member_sw i w p = store_sw \<lparr> wp_owner = LiveOwner, wp_weight = w, wp_family = i \<rparr>
     (with_permits (count_member i (count_software Live w (pl_permits p))) p)"

definition member_hw :: "nat \<Rightarrow> pool \<Rightarrow> pool" where
  "member_hw i p = store_hw \<lparr> hs_owner = LiveOwner, hs_family = i \<rparr>
     (with_permits (count_member i (count_hardware Live (pl_permits p))) p)"

lemma member_sw_ok:
  assumes ok: "pool_owes i dc dh p" and fit: "pool_fits p w 1" and i: "0 < i" "family_known (pl_permits p) i"
  shows "pool_owes i (dc - int w) dh (member_sw i w p)"
proof -
  let ?w = "\<lparr> wp_owner = LiveOwner, wp_weight = w, wp_family = i \<rparr>"
  let ?st = "count_member i (count_software Live w (pl_permits p))"
  have s: "store_ok p" and c: "counters_ok p" and m: "members_ok p" and F: "families_ok i dc dh p"
    using ok by (simp_all add: pool_owes_def)
  have "counters_ok (member_sw i w p)"
    using add_sw_counters [OF c s fit, of Live i]
    by (simp add: member_sw_def count_member_def counters_ok_def Let_def hw_owned_def sw_owned_def sw_threads_def with_permits_def)
  moreover have "store_ok (member_sw i w p)"
    unfolding member_sw_def using store_ok_add(1) [OF s, of ?w] fit by simp
  moreover have "members_ok (member_sw i w p)"
    unfolding member_sw_def by (rule members_ok_store(1) [OF m]) (use i in \<open>simp_all add: count_member_def\<close>)
  moreover have "families_ok i (dc - int w) dh (member_sw i w p)"
  proof (rule families_oweI)
    show "distinct (map fst (pm_families (pl_permits (member_sw i w p))))"
      using F by (simp add: member_sw_def count_member_def update_family_distinct families_ok_def)
  next
    fix f assume "map_of (pm_families (pl_permits (member_sw i w p))) i = Some f"
    then obtain g where g: "map_of (pm_families (pl_permits p)) i = Some g" "f = g\<lparr> fu_guards := fu_guards g + 1 \<rparr>"
      by (auto simp: member_sw_def count_member_def update_family_map_of)
    show "family_ok (dc - int w) dh (member_sw i w p) i f"
      using families_owe_entry(1) [OF F g(1)] g(2)
      by (simp add: family_ok_def member_sw_def count_member_def family_sums_fresh [OF s])
  next
    fix j f assume j: "j \<noteq> i" and "map_of (pm_families (pl_permits (member_sw i w p))) j = Some f"
    then have g: "map_of (pm_families (pl_permits p)) j = Some f"
      by (simp add: member_sw_def count_member_def update_family_map_of)
    show "family_ok 0 0 (member_sw i w p) j f \<and> 0 < fu_guards f"
      using families_owe_entry(2) [OF F g j] j
      by (simp add: family_ok_def member_sw_def count_member_def family_sums_fresh [OF s])
  qed
  ultimately show ?thesis by (simp add: pool_owes_def)
qed

lemma member_hw_ok:
  assumes ok: "pool_owes i dc dh p" and fit: "pool_fits p 0 1" and i: "0 < i" "family_known (pl_permits p) i"
  shows "pool_owes i dc (dh - 1) (member_hw i p)"
proof -
  let ?h = "\<lparr> hs_owner = LiveOwner, hs_family = i \<rparr>"
  have s: "store_ok p" and c: "counters_ok p" and m: "members_ok p" and F: "families_ok i dc dh p"
    using ok by (simp_all add: pool_owes_def)
  have "counters_ok (member_hw i p)"
    using add_hw_counters [OF c s, of Live i]
    by (simp add: member_hw_def count_member_def counters_ok_def Let_def hw_owned_def sw_owned_def sw_threads_def with_permits_def)
  moreover have "store_ok (member_hw i p)"
    unfolding member_hw_def using store_ok_add(2) [OF s, of ?h] fit by simp
  moreover have "members_ok (member_hw i p)"
    unfolding member_hw_def by (rule members_ok_store(2) [OF m]) (use i in \<open>simp_all add: count_member_def\<close>)
  moreover have "families_ok i dc (dh - 1) (member_hw i p)"
  proof (rule families_oweI)
    show "distinct (map fst (pm_families (pl_permits (member_hw i p))))"
      using F by (simp add: member_hw_def count_member_def update_family_distinct families_ok_def)
  next
    fix f assume "map_of (pm_families (pl_permits (member_hw i p))) i = Some f"
    then obtain g where g: "map_of (pm_families (pl_permits p)) i = Some g" "f = g\<lparr> fu_guards := fu_guards g + 1 \<rparr>"
      by (auto simp: member_hw_def count_member_def update_family_map_of)
    show "family_ok dc (dh - 1) (member_hw i p) i f"
      using families_owe_entry(1) [OF F g(1)] g(2)
      by (simp add: family_ok_def member_hw_def count_member_def family_sums_fresh [OF s])
  next
    fix j f assume j: "j \<noteq> i" and "map_of (pm_families (pl_permits (member_hw i p))) j = Some f"
    then have g: "map_of (pm_families (pl_permits p)) j = Some f"
      by (simp add: member_hw_def count_member_def update_family_map_of)
    show "family_ok 0 0 (member_hw i p) j f \<and> 0 < fu_guards f"
      using families_owe_entry(2) [OF F g j] j
      by (simp add: family_ok_def member_hw_def count_member_def family_sums_fresh [OF s])
  qed
  ultimately show ?thesis by (simp add: pool_owes_def)
qed

definition grant_missing :: "nat \<Rightarrow> pool \<Rightarrow> resource_estimate \<times> retained_permit option \<Rightarrow> pool" where
  "grant_missing i p role = (case snd role of Some x \<Rightarrow> p | None \<Rightarrow>
     let p = (if re_hardware_slot (fst role) then member_hw i p else p) in
     if 0 < re_cpu_threads (fst role) then member_sw i (re_cpu_threads (fst role)) p else p)"

lemma member_facts:
  "store_ok p \<Longrightarrow> pool_fits p t (Suc n) \<Longrightarrow> pool_fits (member_hw i p) t n"
  "store_ok p \<Longrightarrow> pool_fits p (w + t) (Suc n) \<Longrightarrow> pool_fits (member_sw i w p) t n"
  "family_known (pl_permits (member_hw i p)) j = family_known (pl_permits p) j"
  "family_known (pl_permits (member_sw i w p)) j = family_known (pl_permits p) j"
  unfolding member_hw_def member_sw_def
  by (rule pool_fits_store(2), assumption+, rule pool_fits_store(1), simp_all add: count_member_def)

lemma member_grows:
  "store_ok p \<Longrightarrow> family_hw i (pl_hardware p) \<le> family_hw i (pl_hardware (member_hw i p))"
  "family_sw i (pl_software (member_hw i p)) = family_sw i (pl_software p)"
  "store_ok p \<Longrightarrow> family_sw i (pl_software p) \<le> family_sw i (pl_software (member_sw i w p))"
  "family_hw i (pl_hardware (member_sw i w p)) = family_hw i (pl_hardware p)"
  unfolding member_hw_def member_sw_def by (simp_all add: family_sums_fresh)

definition family_size :: "nat \<Rightarrow> pool \<Rightarrow> int" where
  "family_size i p = family_hw i (pl_hardware p) + family_sw i (pl_software p)"

lemma grant_missing_ok:
  assumes ok: "pool_owes i dc dh p" and fit: "pool_fits p (debt_cpu [role] + t) (Suc (Suc n))"
    and i: "0 < i" "family_known (pl_permits p) i"
  shows "pool_owes i (dc - int (debt_cpu [role])) (dh - int (debt_hw [role])) (grant_missing i p role) \<and>
    pool_fits (grant_missing i p role) t n \<and> family_known (pl_permits (grant_missing i p role)) i \<and>
    family_size i p \<le> family_size i (grant_missing i p role)"
proof (cases "snd role")
  case (Some x)
  then show ?thesis
    using ok i(2) pool_fits_mono [OF fit] by (cases role) (simp add: grant_missing_def)
next
  case None
  then obtain e where e: "role = (e, None)" by (cases role) auto
  have s: "store_ok p" using ok by (simp add: pool_owes_def)
  let ?p = "if re_hardware_slot e then member_hw i p else p"
  have p: "pool_owes i dc (dh - of_bool (re_hardware_slot e)) ?p"
    using member_hw_ok [OF ok _ i] pool_fits_mono [OF fit] ok by simp
  have f: "pool_fits ?p (re_cpu_threads e + t) (Suc n)"
    using member_facts(1) [OF s, of "re_cpu_threads e + t" "Suc n" i] fit pool_fits_mono [OF fit] e by simp
  have k: "family_known (pl_permits ?p) i" using i(2) by (simp add: member_facts)
  have s': "store_ok ?p" using p by (simp add: pool_owes_def)
  have g: "family_size i p \<le> family_size i ?p" using member_grows(1) [OF s, of i] member_grows(2) [of i p] by (simp add: family_size_def)
  have eq: "grant_missing i p role = (if 0 < re_cpu_threads e then member_sw i (re_cpu_threads e) ?p else ?p)"
    by (simp add: grant_missing_def e Let_def)
  show ?thesis
  proof (cases "0 < re_cpu_threads e")
    case True
    then show ?thesis
      using member_sw_ok [OF p _ i(1) k, of "re_cpu_threads e"] pool_fits_mono [OF f]
        member_facts(2) [OF s' f] k g member_grows(3) [OF s', of i "re_cpu_threads e"] member_grows(4) [of i "re_cpu_threads e" ?p]
      unfolding eq by (simp add: e member_facts family_size_def)
  next
    case False
    then show ?thesis using p k g pool_fits_mono [OF f] unfolding eq by (simp add: e)
  qed
qed

lemma grant_missing_all:
  assumes "pool_owes i dc dh p" and "pool_fits p (debt_cpu roles) (2 * length roles)"
    and "0 < i" "family_known (pl_permits p) i"
  shows "pool_owes i (dc - int (debt_cpu roles)) (dh - int (debt_hw roles)) (foldl (grant_missing i) p roles) \<and>
    family_size i p \<le> family_size i (foldl (grant_missing i) p roles)"
  using assms
proof (induction roles arbitrary: p dc dh)
  case Nil then show ?case by (simp add: debt_cpu_def debt_hw_def)
next
  case (Cons r rs)
  have c: "debt_cpu (r # rs) = debt_cpu [r] + debt_cpu rs" "debt_hw (r # rs) = debt_hw [r] + debt_hw rs"
    by (simp_all add: debt_cpu_def debt_hw_def)
  have fit: "pool_fits p (debt_cpu [r] + debt_cpu rs) (Suc (Suc (2 * length rs)))" using Cons.prems(2) c(1) by simp
  note one = grant_missing_ok [OF Cons.prems(1) fit Cons.prems(3,4)]
  show ?case
    using Cons.IH [of _ _ "grant_missing i p r"] one Cons.prems(3) unfolding c
    by (smt (verit, best) foldl_Cons of_nat_add)
qed

lemma foldl_grant_missing:
  "foldl store_permit (with_permits (foldl (count_missing i) st roles) p)
     (map (permit_for LiveOwner i) (map fst (filter (\<lambda>r. snd r = None) roles))) =
   foldl (grant_missing i) (with_permits st p) roles"
proof (induction roles arbitrary: st p)
  case (Cons r rs)
  have "grant_missing i (with_permits st p) r =
      (if snd r = None then with_permits (count_missing i st r) (store_permit p (permit_for LiveOwner i (fst r)))
       else with_permits (count_missing i st r) p)"
    by (auto simp: grant_missing_def count_missing_def member_hw_def member_sw_def store_permit_def permit_for_def
        Let_def split: option.split)
  then show ?case using Cons.IH by simp
qed simp

section \<open>Enrolling a family\<close>

lemma adopt_sums:
  assumes i: "0 < i" and d: "distinct as" and as: "\<forall>a \<in> set as. \<exists>s. map_of hw a = Some s \<and> (hs_family s = 0 \<or> hs_family s = i)"
  shows "family_hw i (adopt_all (hs_family_update (\<lambda>_. i)) as hw) = family_hw i hw + int (free_hw hw as)"
    and "j \<noteq> i \<Longrightarrow> 0 < j \<Longrightarrow> family_hw j (adopt_all (hs_family_update (\<lambda>_. i)) as hw) = family_hw j hw"
proof -
  have "adopt_gain (\<lambda>s. of_bool (hs_family s = i)) (hs_family_update (\<lambda>_. i)) as hw = int (free_hw hw as)"
    using as i by (induction as) (auto simp: adopt_gain_def free_hw_def split: option.splits)
  then show "family_hw i (adopt_all (hs_family_update (\<lambda>_. i)) as hw) = family_hw i hw + int (free_hw hw as)"
    by (simp add: family_hw_def weight_adopt_all [OF d])
  assume "j \<noteq> i" "0 < j"
  then have "adopt_gain (\<lambda>s. of_bool (hs_family s = j)) (hs_family_update (\<lambda>_. i)) as hw = 0"
    using as i by (induction as) (auto simp: adopt_gain_def split: option.splits)
  then show "family_hw j (adopt_all (hs_family_update (\<lambda>_. i)) as hw) = family_hw j hw"
    by (simp add: family_hw_def weight_adopt_all [OF d])
qed

lemma adopt_sums_sw:
  assumes i: "0 < i" and d: "distinct as" and as: "\<forall>a \<in> set as. \<exists>w. map_of sw a = Some w \<and> (wp_family w = 0 \<or> wp_family w = i)"
  shows "family_sw i (adopt_all (wp_family_update (\<lambda>_. i)) as sw) = family_sw i sw + int (free_sw sw as)"
    and "family_threads i (adopt_all (wp_family_update (\<lambda>_. i)) as sw) = family_threads i sw + int (free_threads sw as)"
    and "j \<noteq> i \<Longrightarrow> 0 < j \<Longrightarrow> family_sw j (adopt_all (wp_family_update (\<lambda>_. i)) as sw) = family_sw j sw"
    and "j \<noteq> i \<Longrightarrow> 0 < j \<Longrightarrow> family_threads j (adopt_all (wp_family_update (\<lambda>_. i)) as sw) = family_threads j sw"
proof -
  have "adopt_gain (\<lambda>w. of_bool (wp_family w = i)) (wp_family_update (\<lambda>_. i)) as sw = int (free_sw sw as)"
    using as i by (induction as) (auto simp: adopt_gain_def free_sw_def split: option.splits)
  then show "family_sw i (adopt_all (wp_family_update (\<lambda>_. i)) as sw) = family_sw i sw + int (free_sw sw as)"
    by (simp add: family_sw_def weight_adopt_all [OF d])
  have "adopt_gain (\<lambda>w. if wp_family w = i then int (wp_weight w) else 0) (wp_family_update (\<lambda>_. i)) as sw =
      int (free_threads sw as)"
    using as i by (induction as) (auto simp: adopt_gain_def free_threads_def split: option.splits)
  then show "family_threads i (adopt_all (wp_family_update (\<lambda>_. i)) as sw) = family_threads i sw + int (free_threads sw as)"
    by (simp add: family_threads_def weight_adopt_all [OF d])
  assume j: "j \<noteq> i" "0 < j"
  have "adopt_gain (\<lambda>w. of_bool (wp_family w = j)) (wp_family_update (\<lambda>_. i)) as sw = 0"
    using as i j by (induction as) (auto simp: adopt_gain_def split: option.splits)
  then show "family_sw j (adopt_all (wp_family_update (\<lambda>_. i)) as sw) = family_sw j sw"
    by (simp add: family_sw_def weight_adopt_all [OF d])
  have "adopt_gain (\<lambda>w. if wp_family w = j then int (wp_weight w) else 0) (wp_family_update (\<lambda>_. i)) as sw = 0"
    using as i j by (induction as) (auto simp: adopt_gain_def split: option.splits)
  then show "family_threads j (adopt_all (wp_family_update (\<lambda>_. i)) as sw) = family_threads j sw"
    by (simp add: family_threads_def weight_adopt_all [OF d])
qed

lemma judge_spec:
  assumes "judge_family hardware_max budget priority now st s existing = Some v"
  shows "fv_cpu v = (case existing of None \<Rightarrow> 0 | Some f \<Rightarrow> fu_cpu_used f) + fs_adopted_cpu s + fs_missing_cpu s"
    "fv_hardware v = (case existing of None \<Rightarrow> 0 | Some f \<Rightarrow> fu_hardware_used f) + fs_adopted_hardware s + fs_missing_hardware s"
    "existing = Some f \<Longrightarrow> fv_exclusive v = fu_exclusive f"
    "existing = Some f \<Longrightarrow> fv_exclusive v \<Longrightarrow> fv_cpu v \<le> fu_cpu_limit f \<and> fv_hardware v \<le> fu_hardware_limit f"
  using assms
  by (auto simp: judge_family_def Let_def bind_eq_Some_conv split: if_splits option.splits)

definition usage_before :: "nat \<Rightarrow> nat \<Rightarrow> family_usage option \<Rightarrow> family_usage" where
  "usage_before cpu hardware existing = (case existing of Some f \<Rightarrow> f | None \<Rightarrow>
     \<lparr> fu_cpu_limit = cpu, fu_hardware_limit = hardware, fu_cpu_used = 0,
       fu_hardware_used = 0, fu_guards = 0, fu_exclusive = False \<rparr>)"

definition usage_after :: "family_scan \<Rightarrow> family_verdict \<Rightarrow> family_usage \<Rightarrow> family_usage" where
  "usage_after s v u = u\<lparr> fu_cpu_used := fv_cpu v, fu_hardware_used := fv_hardware v,
     fu_exclusive := fv_exclusive v,
     fu_cpu_limit := (if fv_exclusive v then fu_cpu_limit u else max (fu_cpu_limit u) (fv_cpu v)),
     fu_hardware_limit := (if fv_exclusive v then fu_hardware_limit u else max (fu_hardware_limit u) (fv_hardware v)),
     fu_guards := fu_guards u + fs_adopted_guards s \<rparr>"

lemma enrol_spec:
  fixes st cpu hardware s v i
  defines "st' \<equiv> enrol_family i cpu hardware s v st"
  assumes "\<And>j. fs_family s = Some j \<Longrightarrow> j = i \<and> map_of (pm_families st) i \<noteq> None"
  shows "map_of (pm_families st') j = (if j = i then Some (usage_after s v (usage_before cpu hardware
      (if fs_family s = None then None else map_of (pm_families st) i))) else map_of (pm_families st) j)"
    "distinct (map fst (pm_families st)) \<Longrightarrow> distinct (map fst (pm_families st'))"
    "pm_next_family st' = (if fs_family s = None then i else pm_next_family st)"
    "pm_hardware_live st' = pm_hardware_live st" "pm_hardware_background st' = pm_hardware_background st"
    "pm_software_live_permits st' = pm_software_live_permits st"
    "pm_software_background_permits st' = pm_software_background_permits st"
    "pm_software_live_used st' = pm_software_live_used st" "pm_software_background_used st' = pm_software_background_used st"
    "pm_live_waiting st' = pm_live_waiting st" "pm_live_capacity_waiting st' = pm_live_capacity_waiting st"
  using assms(2) unfolding st'_def
  by (cases "fs_family s"; auto simp: enrol_family_def Let_def update_family_map_of update_conv' usage_before_def usage_after_def
      update_family_distinct distinct_update)+

lemma weight_all_0: "distinct (map fst kvs) \<Longrightarrow> (\<And>a v. map_of kvs a = Some v \<Longrightarrow> f v = 0) \<Longrightarrow> weight f kvs = 0"
proof -
  assume d: "distinct (map fst kvs)" and z: "\<And>a v. map_of kvs a = Some v \<Longrightarrow> f v = 0"
  have "\<forall>(k, v) \<in> set kvs. f v = 0" using z d by (auto simp: map_of_eq_Some_iff)
  then show ?thesis by (induction kvs) auto
qed

lemma fresh_family:
  assumes ok: "pool_ok p" and i: "pm_next_family (pl_permits p) < i"
  shows "map_of (pm_families (pl_permits p)) i = None" "family_hw i (pl_hardware p) = 0"
    "family_sw i (pl_software p) = 0" "family_threads i (pl_software p) = 0"
proof -
  have F: "families_ok 0 0 0 p" and m: "members_ok p" and s: "store_ok p"
    using ok by (simp_all add: pool_ok_def pool_owes_def)
  show n: "map_of (pm_families (pl_permits p)) i = None"
  proof (rule ccontr)
    assume "map_of (pm_families (pl_permits p)) i \<noteq> None"
    then obtain f where "map_of (pm_families (pl_permits p)) i = Some f" by blast
    from families_entry(1) [OF F this] i show False by (simp add: family_ok_def)
  qed
  have h: "hs_family x \<noteq> i" if "map_of (pl_hardware p) a = Some x" for a x
  proof -
    have "family_known (pl_permits p) (hs_family x)" using m that by (simp add: members_ok_def)
    then show ?thesis using n i by (auto simp: family_known_def)
  qed
  have w: "wp_family x \<noteq> i" if "map_of (pl_software p) a = Some x" for a x
  proof -
    have "family_known (pl_permits p) (wp_family x)" using m that by (simp add: members_ok_def)
    then show ?thesis using n i by (auto simp: family_known_def)
  qed
  have d: "distinct (map fst (pl_hardware p))" "distinct (map fst (pl_software p))" using s by (simp_all add: store_ok_def)
  show "family_hw i (pl_hardware p) = 0" unfolding family_hw_def using h by (intro weight_all_0 [OF d(1)]) auto
  show "family_sw i (pl_software p) = 0" unfolding family_sw_def using w by (intro weight_all_0 [OF d(2)]) auto
  show "family_threads i (pl_software p) = 0" unfolding family_threads_def using w by (intro weight_all_0 [OF d(2)]) auto
qed

text \<open>The pool between enrolling a family and granting what it misses.\<close>

definition enrolled :: "nat \<Rightarrow> permit_state \<Rightarrow> family_scan \<Rightarrow> pool \<Rightarrow> pool" where
  "enrolled i st s p = p\<lparr> pl_permits := st,
     pl_hardware := adopt_all (hs_family_update (\<lambda>_. i)) (fs_seen_hardware s) (pl_hardware p),
     pl_software := adopt_all (wp_family_update (\<lambda>_. i)) (fs_seen_software s) (pl_software p) \<rparr>"

lemma enrolled_simps [simp]:
  "pl_permits (enrolled i st s p) = st" "pl_next (enrolled i st s p) = pl_next p" "pl_waits (enrolled i st s p) = pl_waits p"
  "pl_hardware (enrolled i st s p) = adopt_all (hs_family_update (\<lambda>_. i)) (fs_seen_hardware s) (pl_hardware p)"
  "pl_software (enrolled i st s p) = adopt_all (wp_family_update (\<lambda>_. i)) (fs_seen_software s) (pl_software p)"
  by (simp_all add: enrolled_def)

lemma with_permits_enrolled:
  "with_permits st' (enrolled i st s p) = p\<lparr> pl_permits := st',
     pl_hardware := adopt_all (hs_family_update (\<lambda>_. i)) (fs_seen_hardware s) (pl_hardware p),
     pl_software := adopt_all (wp_family_update (\<lambda>_. i)) (fs_seen_software s) (pl_software p) \<rparr>"
  by (rule pool.equality) (simp_all add: with_permits_def)

lemma enrolled_fits:
  assumes "scan_ok (pl_hardware p) (pl_software p) roles s"
  shows "pool_fits (enrolled i st s p) w n = pool_fits p w n"
proof -
  have d: "distinct (fs_seen_hardware s)" "distinct (fs_seen_software s)" using assms by (simp_all add: scan_ok_def)
  have "length (pl_hardware (enrolled i st s p)) = length (pl_hardware p)"
    "length (pl_software (enrolled i st s p)) = length (pl_software p)"
    using adopt_all_keys by (metis enrolled_simps(4) length_map, metis enrolled_simps(5) length_map)
  then show ?thesis by (simp add: pool_fits_def weight_adopt_all d adopt_gain_0)
qed

lemma store_ok_enrolled:
  assumes "scan_ok (pl_hardware p) (pl_software p) roles s" and "store_ok p"
  shows "store_ok (enrolled i st s p)"
  using assms(2) enrolled_fits [OF assms(1)] unfolding store_ok_def
  by (simp flip: set_map)

lemma counters_ok_enrolled:
  assumes "scan_ok (pl_hardware p) (pl_software p) roles s" and "counters_ok p"
    and "counters_ok (with_permits st p)"
  shows "counters_ok (enrolled i st s p)"
proof -
  have d: "distinct (fs_seen_hardware s)" "distinct (fs_seen_software s)" using assms(1) by (simp_all add: scan_ok_def)
  show ?thesis using assms(3)
    by (simp add: counters_ok_def Let_def hw_owned_def sw_owned_def sw_threads_def weight_adopt_all d adopt_gain_0)
qed

lemma members_ok_enrolled:
  assumes "scan_ok (pl_hardware p) (pl_software p) roles s" and "members_ok p" and "family_known st i"
    and "\<And>j. family_known (pl_permits p) j \<Longrightarrow> family_known st j"
  shows "members_ok (enrolled i st s p)"
proof -
  have d: "distinct (fs_seen_hardware s)" "distinct (fs_seen_software s)" using assms(1) by (simp_all add: scan_ok_def)
  show ?thesis using assms(2-4)
    unfolding members_ok_def by (auto simp: adopt_all_map_of d split: if_splits)
qed

lemma families_ok_enrolled:
  assumes ok: "pool_ok p" and scan: "scan_ok (pl_hardware p) (pl_software p) roles s"
    and judged: "judge_family hardware_max budget priority now (pl_permits p) s existing = Some v"
    and ex: "existing = (if fs_family s = None then None else map_of (pm_families (pl_permits p)) i)"
    and i: "fs_family s = None \<Longrightarrow> i = pm_next_family (pl_permits p) + 1" "\<And>j. fs_family s = Some j \<Longrightarrow> j = i \<and> existing \<noteq> None"
    and req: "cpu = threads_of (map fst roles)" "hardware = length (filter (\<lambda>r. re_hardware_slot (fst r)) roles)"
  shows "families_ok i (int (fs_missing_cpu s)) (int (fs_missing_hardware s))
      (enrolled i (enrol_family i cpu hardware s v (pl_permits p)) s p) \<and> 0 < i"
proof -
  let ?st = "enrol_family i cpu hardware s v (pl_permits p)" and ?u = "usage_before cpu hardware existing"
  have F: "families_ok 0 0 0 p" using ok by (simp add: pool_ok_def pool_owes_def)
  have "\<And>j. fs_family s = Some j \<Longrightarrow> j = i \<and> map_of (pm_families (pl_permits p)) i \<noteq> None"
    using i(2) ex by simp
  note st = enrol_spec [OF this, of s cpu hardware v, folded ex]
  have pos: "0 < i" using i scan by (cases "fs_family s") (auto simp: scan_ok_def)
  have d: "distinct (fs_seen_hardware s)" "distinct (fs_seen_software s)" using scan by (simp_all add: scan_ok_def)
  have mem: "\<forall>a \<in> set (fs_seen_hardware s). \<exists>x. map_of (pl_hardware p) a = Some x \<and> (hs_family x = 0 \<or> hs_family x = i)"
    "\<forall>a \<in> set (fs_seen_software s). \<exists>x. map_of (pl_software p) a = Some x \<and> (wp_family x = 0 \<or> wp_family x = i)"
  proof -
    have "is_family (fs_family s) k \<Longrightarrow> k = 0 \<or> k = i" for k using i(2) by (auto simp: is_family_def)
    then show "\<forall>a \<in> set (fs_seen_hardware s). \<exists>x. map_of (pl_hardware p) a = Some x \<and> (hs_family x = 0 \<or> hs_family x = i)"
      "\<forall>a \<in> set (fs_seen_software s). \<exists>x. map_of (pl_software p) a = Some x \<and> (wp_family x = 0 \<or> wp_family x = i)"
      using scan unfolding scan_ok_def by blast+
  qed
  note H = adopt_sums [OF pos d(1) mem(1)] and S = adopt_sums_sw [OF pos d(2) mem(2)]
  have base: "int (fu_cpu_used ?u) = family_threads i (pl_software p)" "int (fu_hardware_used ?u) = family_hw i (pl_hardware p)"
    "int (fu_guards ?u) = family_hw i (pl_hardware p) + family_sw i (pl_software p)"
    "i \<le> pm_next_family ?st"
  proof -
    have "int (fu_cpu_used ?u) = family_threads i (pl_software p) \<and> int (fu_hardware_used ?u) = family_hw i (pl_hardware p) \<and>
      int (fu_guards ?u) = family_hw i (pl_hardware p) + family_sw i (pl_software p) \<and> i \<le> pm_next_family ?st"
    proof (cases "fs_family s")
      case None
      then show ?thesis using fresh_family [OF ok, of i] i(1) st(3) ex by (simp add: usage_before_def)
    next
      case (Some j)
      then obtain f where "existing = Some f" "map_of (pm_families (pl_permits p)) i = Some f" using i(2) ex by auto
      then show ?thesis using families_entry(1) [OF F, of i f] Some st(3) by (simp add: usage_before_def family_ok_def)
    qed
    then show "int (fu_cpu_used ?u) = family_threads i (pl_software p)" "int (fu_hardware_used ?u) = family_hw i (pl_hardware p)"
      "int (fu_guards ?u) = family_hw i (pl_hardware p) + family_sw i (pl_software p)" "i \<le> pm_next_family ?st" by blast+
  qed
  have used: "fv_cpu v = fu_cpu_used ?u + fs_adopted_cpu s + fs_missing_cpu s"
    "fv_hardware v = fu_hardware_used ?u + fs_adopted_hardware s + fs_missing_hardware s"
    using judge_spec(1,2) [OF judged] by (simp_all add: usage_before_def split: option.split)
  have lim: "fv_exclusive v \<Longrightarrow> fv_cpu v \<le> fu_cpu_limit ?u \<and> fv_hardware v \<le> fu_hardware_limit ?u"
  proof (cases "fs_family s")
    case None
    then have "fs_adopted_cpu s + fs_missing_cpu s = cpu" "fs_adopted_hardware s + fs_missing_hardware s = hardware"
      using scan req by (simp_all add: scan_ok_def)
    then show ?thesis using used None ex by (simp add: usage_before_def)
  next
    case (Some j)
    then obtain f where "existing = Some f" using i(2) by auto
    then show "fv_exclusive v \<Longrightarrow> ?thesis" using judge_spec(4) [OF judged] by (simp add: usage_before_def)
  qed
  have "families_ok i (int (fs_missing_cpu s)) (int (fs_missing_hardware s)) (enrolled i ?st s p)"
  proof (rule families_oweI)
    show "distinct (map fst (pm_families (pl_permits (enrolled i ?st s p))))"
      using F st(2) by (simp add: families_ok_def)
  next
    fix f assume "map_of (pm_families (pl_permits (enrolled i ?st s p))) i = Some f"
    then have f: "f = usage_after s v ?u" using st(1) by simp
    have "fs_adopted_hardware s = free_hw (pl_hardware p) (fs_seen_hardware s)"
      "fs_adopted_cpu s = free_threads (pl_software p) (fs_seen_software s)"
      "fs_adopted_guards s = free_hw (pl_hardware p) (fs_seen_hardware s) + free_sw (pl_software p) (fs_seen_software s)"
      using scan by (simp_all add: scan_ok_def)
    then show "family_ok (int (fs_missing_cpu s)) (int (fs_missing_hardware s)) (enrolled i ?st s p) i f"
      using base used lim pos H(1) S(1,2) by (simp add: family_ok_def f usage_after_def)
  next
    fix j f assume j: "j \<noteq> i" and "map_of (pm_families (pl_permits (enrolled i ?st s p))) j = Some f"
    then have g: "map_of (pm_families (pl_permits p)) j = Some f" using st(1) by simp
    note entry = families_entry [OF F g]
    have "pm_next_family (pl_permits p) \<le> pm_next_family ?st" using st(3) i(1) by (cases "fs_family s") simp_all
    then show "family_ok 0 0 (enrolled i ?st s p) j f \<and> 0 < fu_guards f"
      using entry H(2) [OF j entry(2)] S(3,4) [OF j entry(2)] by (simp add: family_ok_def)
  qed
  then show ?thesis using pos by blast
qed

lemma family_admitted:
  assumes "try_admit_family hardware_max budget es retained pr now p = (p', r)"
  defines "q \<equiv> with_permits (prune now (pl_permits p)) p"
  obtains "r = None" "p' = p \<or> p' = q"
  | s v i existing where
      "es \<noteq> []" "length es \<le> 3" "length es = length retained"
      "checked_sum (map re_cpu_threads es) \<noteq> None" "threads_of es \<noteq> 0 \<or> filter re_hardware_slot es \<noteq> []"
      "scan_roles (pl_hardware q) (pl_software q) (zip es retained) scan_new = Some s"
      "existing = (if fs_family s = None then None else map_of (pm_families (pl_permits q)) i)"
      "judge_family hardware_max budget pr now (pl_permits q) s existing = Some v"
      "fs_family s = None \<Longrightarrow> i = pm_next_family (pl_permits q) + 1"
      "\<And>j. fs_family s = Some j \<Longrightarrow> j = i \<and> existing \<noteq> None"
      "p' = foldl store_permit (q\<lparr> pl_permits := foldl (count_missing i)
            (enrol_family i (threads_of es) (length (filter re_hardware_slot es)) s v (pl_permits q)) (zip es retained),
          pl_hardware := foldl (\<lambda>hw x. adopt_hardware i (rt_hardware x) hw) (pl_hardware q) (List.map_filter id retained),
          pl_software := foldl (\<lambda>sw x. adopt_software i (rt_software x) sw) (pl_software q) (List.map_filter id retained) \<rparr>)
        (map (permit_for LiveOwner i) (map fst (filter (\<lambda>r. snd r = None) (zip es retained))))"
      "r = Some (i, map (permit_for LiveOwner i) (map fst (filter (\<lambda>r. snd r = None) (zip es retained))))"
proof (cases r)
  case None
  then have "p' = p \<or> p' = q"
    using assms(1) unfolding try_admit_family_def Let_def q_def with_permits_def
    by (auto split: if_splits option.splits)
  with None that(1) show ?thesis by blast
next
  case (Some g)
  note adm = assms(1) [unfolded try_admit_family_def Let_def]
  have hd: "es \<noteq> []" "length es \<le> 3" "length es = length retained"
    using adm Some by (auto split: if_splits)
  obtain cpu where cpu: "checked_sum (map re_cpu_threads es) = Some cpu"
    using adm Some by (auto split: if_splits option.splits)
  have cpu': "cpu = threads_of es" using cpu by (simp add: checked_sum_eq threads_of_def split: if_splits)
  have some: "threads_of es \<noteq> 0 \<or> filter re_hardware_slot es \<noteq> []"
    using adm Some cpu cpu' by (auto split: if_splits)
  obtain s where s: "scan_roles (pl_hardware p) (pl_software p) (zip es retained) scan_new = Some s"
    using adm Some cpu by (auto split: if_splits option.splits)
  define existing0 where "existing0 = (case fs_family s of None \<Rightarrow> Some None
      | Some i \<Rightarrow> map_option Some (map_of (pm_families (prune now (pl_permits p))) i))"
  have "existing0 \<noteq> None"
    using adm Some cpu s by (cases "fs_family s") (auto simp: existing0_def split: if_splits option.splits)
  then obtain existing where ex: "existing0 = Some existing" by blast
  have "judge_family hardware_max budget pr now (prune now (pl_permits p)) s existing \<noteq> None"
    using adm Some cpu s ex by (cases "fs_family s") (auto simp: existing0_def split: if_splits option.splits)
  then obtain v where v: "judge_family hardware_max budget pr now (prune now (pl_permits p)) s existing = Some v" by blast
  define fam where "fam = (case fs_family s of Some i \<Rightarrow> Some i
      | None \<Rightarrow> checked_add_usize (pm_next_family (prune now (pl_permits p))) 1)"
  have "fam \<noteq> None"
    using adm Some cpu s ex v by (cases "fs_family s") (auto simp: existing0_def fam_def split: if_splits option.splits)
  then obtain i where i: "fam = Some i" by blast
  have out: "(p', r) = (foldl store_permit (q\<lparr> pl_permits := foldl (count_missing i)
            (enrol_family i (threads_of es) (length (filter re_hardware_slot es)) s v (pl_permits q)) (zip es retained),
          pl_hardware := foldl (\<lambda>hw x. adopt_hardware i (rt_hardware x) hw) (pl_hardware q) (List.map_filter id retained),
          pl_software := foldl (\<lambda>sw x. adopt_software i (rt_software x) sw) (pl_software q) (List.map_filter id retained) \<rparr>)
        (map (permit_for LiveOwner i) (map fst (filter (\<lambda>r. snd r = None) (zip es retained)))),
      Some (i, map (permit_for LiveOwner i) (map fst (filter (\<lambda>r. snd r = None) (zip es retained)))))"
  proof (cases "fs_family s")
    case None
    then show ?thesis using adm Some cpu s ex v i
      by (auto simp: q_def with_permits_def existing0_def fam_def simp del: checked_add_usize_Some simp flip: cpu' split: if_splits)
  next
    case (Some j)
    then obtain f where f: "map_of (pm_families (prune now (pl_permits p))) j = Some f" "existing = Some f"
      using ex by (auto simp: existing0_def)
    have "j = i" using Some i by (simp add: fam_def)
    then show ?thesis using adm \<open>r = Some g\<close> cpu s v f Some
      by (auto simp: q_def with_permits_def simp flip: cpu' split: if_splits)
  qed
  show ?thesis
  proof (rule that(2) [of s existing i v])
    show "existing = (if fs_family s = None then None else map_of (pm_families (pl_permits q)) i)"
      using ex i by (cases "fs_family s") (auto simp: existing0_def fam_def q_def)
    show "fs_family s = None \<Longrightarrow> i = pm_next_family (pl_permits q) + 1"
      using i by (simp add: fam_def q_def)
    show "\<And>j. fs_family s = Some j \<Longrightarrow> j = i \<and> existing \<noteq> None"
      using ex i by (auto simp: existing0_def fam_def)
  qed (use hd cpu some s v out in \<open>simp_all add: q_def\<close>)
qed

lemma debt_le: "length es = length retained \<Longrightarrow> debt_cpu (zip es retained) \<le> threads_of es"
  by (induction es retained rule: list_induct2) (auto simp: debt_cpu_def threads_of_def add_mono)

lemma family_size_0: "family_size i p \<le> 0 \<Longrightarrow> store_ok p \<Longrightarrow> family_threads i (pl_software p) = 0 \<and> family_hw i (pl_hardware p) = 0"
proof -
  assume z: "family_size i p \<le> 0" and s: "store_ok p"
  note nn = family_sums_nonneg(1) [of i "pl_hardware p"] family_sums_nonneg(2) [of i "pl_software p"]
  have h: "family_hw i (pl_hardware p) = 0" and w: "family_sw i (pl_software p) = 0"
    using z nn by (simp_all add: family_size_def)
  have "wp_family x \<noteq> i" if "map_of (pl_software p) a = Some x" for a x
    using weight_eq_0 [of "\<lambda>w. of_bool (wp_family w = i)" "pl_software p" a x] that w by (auto simp: family_sw_def)
  then have "family_threads i (pl_software p) = 0"
    unfolding family_threads_def using s by (intro weight_all_0) (auto simp: store_ok_def)
  then show ?thesis using h by blast
qed

lemma reservations_pool_ok: "pool_ok p \<Longrightarrow> pool_ok (with_permits (prune now (pl_permits p)) p)"
  using reservations_ok [where rs = "filter (\<lambda>r. now < rv_expires r) (pm_reservations (pl_permits p))"
      and n = "pm_next_reservation (pl_permits p)" and p = p]
  by (simp add: pool_ok_def prune_def)

lemma settle_family:
  assumes owes: "pool_owes i 0 0 p" and i: "0 < i"
    and f: "\<And>f. map_of (pm_families (pl_permits p)) i = Some f \<Longrightarrow> 0 < fu_guards f"
  shows "pool_ok p"
proof -
  have F: "families_ok i 0 0 p" using owes by (simp add: pool_owes_def)
  have "families_ok 0 0 0 p"
  proof (rule families_okI)
    show "distinct (map fst (pm_families (pl_permits p)))" using F by (simp add: families_ok_def)
    fix j g assume g: "map_of (pm_families (pl_permits p)) j = Some g"
    show "family_ok 0 0 p j g \<and> 0 < fu_guards g"
      using families_owe_entry [OF F g] f g by (cases "j = i") auto
  qed
  then show ?thesis using owes by (simp add: pool_ok_def pool_owes_def)
qed

lemma held_roles: "length es = length retained \<Longrightarrow> List.map_filter snd (zip es retained) = List.map_filter id retained"
  by (induction es retained rule: list_induct2) (simp_all add: map_filter_simps split: option.split)

lemma filter_fst_zip:
  "length es = length retained \<Longrightarrow> length (filter (\<lambda>r. P (fst r)) (zip es retained)) = length (filter P es)"
  by (induction es retained rule: list_induct2) simp_all

lemma grant_missing_used:
  "map_option (\<lambda>f. (fu_cpu_used f, fu_hardware_used f)) (map_of (pm_families (pl_permits (foldl (grant_missing i) p roles))) j) =
   map_option (\<lambda>f. (fu_cpu_used f, fu_hardware_used f)) (map_of (pm_families (pl_permits p)) j)"
proof (induction roles arbitrary: p)
  case (Cons r rs)
  have "map_option (\<lambda>f. (fu_cpu_used f, fu_hardware_used f)) (map_of (pm_families (pl_permits (grant_missing i p r))) j) =
    map_option (\<lambda>f. (fu_cpu_used f, fu_hardware_used f)) (map_of (pm_families (pl_permits p)) j)"
    by (simp add: grant_missing_def member_hw_def member_sw_def count_member_def update_family_map_of Let_def
        option.map_comp comp_def split: option.split)
  then show ?case using Cons.IH by simp
qed simp

lemma try_admit_family_ok:
  assumes ok: "pool_ok p" and op: "try_admit_family hardware_max budget es retained pr now p = (p', r)"
    and fit: "pool_fits p (threads_of es) 6"
  shows "pool_ok p'"
proof (rule family_admitted [OF op])
  assume "p' = p \<or> p' = with_permits (prune now (pl_permits p)) p"
  then show ?thesis using ok reservations_pool_ok by blast
next
  fix s v i existing
  let ?q = "with_permits (prune now (pl_permits p)) p" and ?roles = "zip es retained"
  let ?st = "enrol_family i (threads_of es) (length (filter re_hardware_slot es)) s v (pl_permits ?q)"
  assume len: "length es \<le> 3" "length es = length retained"
    and some: "threads_of es \<noteq> 0 \<or> filter re_hardware_slot es \<noteq> []"
    and scan: "scan_roles (pl_hardware ?q) (pl_software ?q) ?roles scan_new = Some s"
    and ex: "existing = (if fs_family s = None then None else map_of (pm_families (pl_permits ?q)) i)"
    and judged: "judge_family hardware_max budget pr now (pl_permits ?q) s existing = Some v"
    and new: "fs_family s = None \<Longrightarrow> i = pm_next_family (pl_permits ?q) + 1"
    and old: "\<And>j. fs_family s = Some j \<Longrightarrow> j = i \<and> existing \<noteq> None"
    and p': "p' = foldl store_permit (?q\<lparr> pl_permits := foldl (count_missing i) ?st ?roles,
          pl_hardware := foldl (\<lambda>hw x. adopt_hardware i (rt_hardware x) hw) (pl_hardware ?q) (List.map_filter id retained),
          pl_software := foldl (\<lambda>sw x. adopt_software i (rt_software x) sw) (pl_software ?q) (List.map_filter id retained) \<rparr>)
        (map (permit_for LiveOwner i) (map fst (filter (\<lambda>r. snd r = None) ?roles)))"
  have q: "pool_ok ?q" by (rule reservations_pool_ok [OF ok])
  then have qs: "store_ok ?q" "counters_ok ?q" "members_ok ?q" by (simp_all add: pool_ok_def pool_owes_def)
  have so: "scan_ok (pl_hardware ?q) (pl_software ?q) ?roles s" and ss: "scan_seen ?roles s"
    using scan_roles_ok [OF scan_new_ok scan] by simp_all
  let ?p1 = "enrolled i ?st s ?q"
  have "\<And>j. fs_family s = Some j \<Longrightarrow> j = i \<and> map_of (pm_families (pl_permits ?q)) i \<noteq> None" using old ex by simp
  note st = enrol_spec [OF this, of s "threads_of es" "length (filter re_hardware_slot es)" v, folded ex,
    unfolded with_permits_simps(1)]
  have p1: "p' = foldl (grant_missing i) ?p1 ?roles"
  proof -
    have "p' = foldl store_permit (with_permits (foldl (count_missing i) ?st ?roles) ?p1)
        (map (permit_for LiveOwner i) (map fst (filter (\<lambda>r. snd r = None) ?roles)))"
      using p' ss unfolding scan_seen_def halves_adopted by (simp add: with_permits_enrolled held_roles [OF len(2)])
    then show ?thesis unfolding foldl_grant_missing using with_permits_simps(6) [of ?p1] by (simp only: enrolled_simps)
  qed
  have "families_ok i (int (fs_missing_cpu s)) (int (fs_missing_hardware s)) ?p1 \<and> 0 < i"
    by (rule families_ok_enrolled [OF q so judged ex new old]) (simp_all add: len(2) filter_fst_zip)
  then have F: "families_ok i (int (debt_cpu ?roles)) (int (debt_hw ?roles)) ?p1" and i: "0 < i"
    using so by (simp_all add: scan_ok_def)
  have "counters_ok (with_permits ?st ?q)"
    using qs(2) by (simp add: counters_ok_def Let_def hw_owned_def sw_owned_def sw_threads_def st)
  then have c: "counters_ok ?p1" by (rule counters_ok_enrolled [OF so qs(2)])
  have known: "family_known ?st i" by (simp add: family_known_def st)
  have "family_known ?st j" if "family_known (pl_permits ?q) j" for j using that by (simp add: family_known_def st)
  then have m: "members_ok ?p1" by (rule members_ok_enrolled [OF so qs(3) known])
  have owes: "pool_owes i (int (debt_cpu ?roles)) (int (debt_hw ?roles)) ?p1"
    using F c m store_ok_enrolled [OF so qs(1)] by (simp add: pool_owes_def)
  have "pool_fits ?q (threads_of es) 6" using fit by (simp add: pool_fits_def)
  then have "pool_fits ?p1 (debt_cpu ?roles) (2 * length ?roles)"
    unfolding enrolled_fits [OF so] by (rule pool_fits_mono) (use debt_le [OF len(2)] len in simp_all)
  from grant_missing_all [OF owes this i] known
  have done1: "pool_owes i 0 0 p'" and grown: "family_size i ?p1 \<le> family_size i p'" unfolding p1 by simp_all
  have e1: "map_of (pm_families (pl_permits ?p1)) i = Some (usage_after s v (usage_before (threads_of es)
      (length (filter re_hardware_slot es)) existing))" by (simp add: st(1))
  note f1 = families_owe_entry(1) [OF F e1 refl]
  show ?thesis
  proof (rule settle_family [OF done1 i])
    fix f assume f: "map_of (pm_families (pl_permits p')) i = Some f"
    have fok: "family_ok 0 0 p' i f" using families_owe_entry(1) [OF _ f refl] done1 by (simp add: pool_owes_def)
    have used: "fu_cpu_used f = fv_cpu v" "fu_hardware_used f = fv_hardware v"
      using grant_missing_used [of i ?p1 ?roles i] e1 f unfolding p1 by (simp_all add: usage_after_def)
    have "0 < family_size i p'"
    proof (cases "fs_family s")
      case None
      have "map fst ?roles = es" "length (filter (\<lambda>r. re_hardware_slot (fst r)) ?roles) = length (filter re_hardware_slot es)"
        using len(2) by (simp_all add: filter_fst_zip)
      then have "fv_cpu v = threads_of es" "fv_hardware v = length (filter re_hardware_slot es)"
        using judge_spec(1,2) [OF judged] None so ex by (simp_all add: scan_ok_def)
      then have "family_threads i (pl_software p') \<noteq> 0 \<or> family_hw i (pl_hardware p') \<noteq> 0"
        using some fok used by (auto simp: family_ok_def)
      then show ?thesis using family_size_0 [of i p'] done1 by (fastforce simp: pool_owes_def)
    next
      case (Some j)
      then obtain f0 where f0: "existing = Some f0" "map_of (pm_families (pl_permits ?q)) i = Some f0" using old ex by auto
      have "0 < fu_guards f0" using families_entry(3) [OF _ f0(2)] q by (simp add: pool_ok_def pool_owes_def)
      then have "0 < family_size i ?p1"
        using f1 f0(1) by (simp add: family_ok_def family_size_def usage_after_def usage_before_def)
      then show ?thesis using grown by simp
    qed
    then show "0 < fu_guards f" using fok by (simp add: family_ok_def family_size_def)
  qed
qed

section \<open>Every step keeps the counts\<close>

lemma take_grants:
  "try_take budget w pr now st = (st', Some permit) \<Longrightarrow>
     st' = count_software pr w st \<and> permit = \<lparr> wp_owner = owner_of pr, wp_weight = w, wp_family = 0 \<rparr>"
  "take_over_background budget w now st = (st', Some permit) \<Longrightarrow>
     st' = count_software Live w st \<and> permit = \<lparr> wp_owner = owner_of Live, wp_weight = w, wp_family = 0 \<rparr>"
  "take_forced w st = (st', permit) \<Longrightarrow>
     st' = count_software Live w st \<and> permit = \<lparr> wp_owner = owner_of Live, wp_weight = w, wp_family = 0 \<rparr>"
  "try_acquire limit pr now st = (st', Some slot) \<Longrightarrow>
     st' = count_hardware pr st \<and> slot = \<lparr> hs_owner = owner_of pr, hs_family = 0 \<rparr>"
  "try_acquire_over_background limit now st = (st', Some slot) \<Longrightarrow>
     st' = count_hardware Live st \<and> slot = \<lparr> hs_owner = owner_of Live, hs_family = 0 \<rparr>"
  by (auto simp: try_take_def take_over_background_def take_forced_def try_acquire_def
      try_acquire_over_background_def Let_def split: if_splits)

lemma waits_ok:
  assumes "pool_ok p" and "pm_live_waiting st = size ws" and "pm_live_capacity_waiting st = count ws True"
    and "st = (pl_permits p)\<lparr> pm_live_waiting := a, pm_live_capacity_waiting := b \<rparr>"
  shows "pool_ok (p\<lparr> pl_permits := st, pl_waits := ws \<rparr>)"
  unfolding pool_ok_def
  by (rule pool_owes_cong [OF assms(1) [unfolded pool_ok_def]])
    (use assms in \<open>simp_all add: pool_ok_def pool_owes_def counters_ok_def Let_def hw_owned_def sw_owned_def sw_threads_def\<close>)

lemma pool_step_ok:
  assumes "pool_step p p'" and ok: "pool_ok p"
  shows "pool_ok p'"
  using assms(1)
proof cases
  case (pt_take budget w pr now st permit)
  then show ?thesis using add_sw_free [OF ok [unfolded pool_ok_def], of w pr] take_grants(1) [OF pt_take(2)]
    by (simp add: pool_ok_def)
next
  case (pt_take_over budget w now st permit)
  then show ?thesis using add_sw_free [OF ok [unfolded pool_ok_def], of w Live] take_grants(2) [OF pt_take_over(2)]
    by (simp add: pool_ok_def)
next
  case (pt_take_forced w st permit)
  then show ?thesis using add_sw_free [OF ok [unfolded pool_ok_def], of w Live] take_grants(3) [OF pt_take_forced(2)]
    by (simp add: pool_ok_def)
next
  case (pt_acquire limit pr now st slot)
  then show ?thesis using add_hw_free [OF ok [unfolded pool_ok_def], of pr] take_grants(4) [OF pt_acquire(2)]
    by (simp add: pool_ok_def)
next
  case (pt_acquire_over limit now st slot)
  then show ?thesis using add_hw_free [OF ok [unfolded pool_ok_def], of Live] take_grants(5) [OF pt_acquire_over(2)]
    by (simp add: pool_ok_def)
next
  case (pt_bundles hm budget es pr claim now st permits)
  show ?thesis
  proof (rule bundles_grant [OF pt_bundles(2)])
    fix rs assume permits: "Some permits = Some (map (permit_for (owner_of pr) 0) es)" and len: "length es \<le> 3"
      and st: "st = foldl (count_bundle pr) ((pl_permits p)\<lparr>pm_reservations := rs\<rparr>) es"
    let ?q = "with_permits ((pl_permits p)\<lparr>pm_reservations := rs\<rparr>) p"
    have q: "pool_owes 0 0 0 ?q"
      using reservations_ok [OF ok [unfolded pool_ok_def], where rs = rs and n = "pm_next_reservation (pl_permits p)"] by simp
    have "pool_fits ?q (threads_of es) (2 * length es)"
      using pool_fits_mono [OF pt_bundles(3), of "threads_of es" "2 * length es"] len by (simp add: pool_fits_def)
    from grant_bundles_ok [OF q this, of pr] show ?thesis
      using pt_bundles(1) permits st
      by (simp add: pool_ok_def foldl_grant_bundle del: foldl_store_with)
  qed simp
next
  case (pt_bundles_refused hm budget es pr claim now st)
  show ?thesis
  proof (rule bundles_grant [OF pt_bundles_refused(2)])
    fix rs assume "st = (pl_permits p)\<lparr>pm_reservations := rs\<rparr>"
    then show ?thesis using pt_bundles_refused(1)
      reservations_ok [OF ok [unfolded pool_ok_def], where rs = rs and n = "pm_next_reservation (pl_permits p)"]
      by (simp add: pool_ok_def)
  qed simp
next
  case (pt_family hm budget es retained pr now r)
  then show ?thesis using try_admit_family_ok [OF ok] by blast
next
  case (pt_drop_hw a slot st)
  then show ?thesis using drop_hw_ok [OF ok pt_drop_hw(2)] by simp
next
  case (pt_drop_sw a permit st)
  then show ?thesis using drop_sw_ok [OF ok pt_drop_sw(2)] by simp
next
  case pt_queue
  have "counters_ok p" using ok by (simp add: pool_ok_def pool_owes_def)
  then show ?thesis unfolding pt_queue
    by (intro waits_ok [OF ok, where a = "pm_live_waiting (pl_permits p) + 1" and b = "pm_live_capacity_waiting (pl_permits p)"])
      (simp_all add: queue_for_slot_def counters_ok_def Let_def)
next
  case (pt_mark b st b')
  have c: "counters_ok p" using ok by (simp add: pool_ok_def pool_owes_def)
  obtain ws where ws: "pl_waits p = add_mset b ws" using pt_mark(2) by (metis insert_DiffM)
  show ?thesis
  proof (cases b)
    case True
    then have "p' = p" using pt_mark(1,3) ws by (auto simp: mark_capacity_blocked_def intro: pool.equality)
    then show ?thesis using ok by simp
  next
    case False
    then have st: "st = (pl_permits p)\<lparr> pm_live_capacity_waiting := pm_live_capacity_waiting (pl_permits p) + 1 \<rparr>" "b' = True"
      using pt_mark(3) by (auto simp: mark_capacity_blocked_def)
    show ?thesis unfolding pt_mark(1)
      by (rule waits_ok [OF ok, where a = "pm_live_waiting (pl_permits p)" and b = "pm_live_capacity_waiting st"])
        (use c ws False st in \<open>simp_all add: counters_ok_def Let_def\<close>)
  qed
next
  case (pt_drop_wait b)
  have c: "counters_ok p" using ok by (simp add: pool_ok_def pool_owes_def)
  obtain ws where ws: "pl_waits p = add_mset b ws" using pt_drop_wait(2) by (metis insert_DiffM)
  show ?thesis unfolding pt_drop_wait(1)
    by (rule waits_ok [OF ok, where a = "pm_live_waiting (pl_permits p) - 1"
          and b = "pm_live_capacity_waiting (pl_permits p) - of_bool b"])
      (use c ws in \<open>cases b; simp add: drop_wait_def counters_ok_def Let_def\<close>)+
next
  case (pt_reserve e ttl now st token)
  then have "st = (pl_permits p)\<lparr> pm_reservations := pm_reservations st, pm_next_reservation := pm_next_reservation st \<rparr>"
    by (auto simp: reserve_for_handoff_def Let_def prune_def)
  then show ?thesis unfolding pt_reserve(1)
    using reservations_ok [OF ok [unfolded pool_ok_def]] unfolding pool_ok_def by metis
next
  case (pt_release token)
  then show ?thesis
    using reservations_ok [OF ok [unfolded pool_ok_def], where n = "pm_next_reservation (pl_permits p)"]
    by (simp add: pool_ok_def release_reservation_def)
qed

lemma pool_new_ok: "pool_ok pool_new"
  by (simp add: pool_ok_def pool_owes_def pool_new_def counters_ok_def store_ok_def members_ok_def families_ok_def
      permits_new_def pool_fits_def hw_owned_def sw_owned_def sw_threads_def)

lemma reachable_pool_ok: "reachable_pool p \<Longrightarrow> pool_ok p"
  by (induction rule: reachable_pool.induct) (auto intro: pool_new_ok pool_step_ok)


section \<open>What holds of every pool\<close>

text \<open>
  A pool used by the witnesses: a start took three threads, then grew into a family with a
  hardware role.
\<close>

definition encode_role :: resource_estimate where
  "encode_role = \<lparr> re_hardware_slot = False, re_cpu_threads = 3, re_decoder_threads = None \<rparr>"

definition hardware_role :: resource_estimate where
  "hardware_role = \<lparr> re_hardware_slot = True, re_cpu_threads = 0, re_decoder_threads = None \<rparr>"

definition started_pool :: pool where
  "started_pool = store_sw \<lparr> wp_owner = LiveOwner, wp_weight = 3, wp_family = 0 \<rparr>
     (with_permits (count_software Live 3 permits_new) pool_new)"

definition grown_pool :: pool where
  "grown_pool = fst (try_admit_family 2 8 [encode_role, hardware_role]
     [Some \<lparr> rt_hardware = None, rt_software = Some 0 \<rparr>, None] Live 11 started_pool)"

lemma started_reachable: "reachable_pool started_pool"
proof (rule rp_step [OF rp_new])
  have "try_take 8 3 Live 10 (pl_permits pool_new) =
      (count_software Live 3 permits_new, Some \<lparr> wp_owner = LiveOwner, wp_weight = 3, wp_family = 0 \<rparr>)"
    by (simp add: try_take_def pool_new_def permits_new_def family_blocked_def priority_refuses_def background_active_def
        software_used_def software_used_except_def live_reservations_def Let_def)
  moreover have "pool_fits pool_new 3 1" by (simp add: pool_fits_def pool_new_def)
  ultimately show "pool_step pool_new started_pool" unfolding started_pool_def by (rule pt_take)
qed

lemma grown_eq:
  "grown_pool = \<lparr> pl_permits = permits_new\<lparr> pm_hardware_live := 1, pm_software_live_permits := 1,
       pm_software_live_used := 3, pm_next_family := 1,
       pm_families := [(1, \<lparr> fu_cpu_limit = 3, fu_hardware_limit = 1, fu_cpu_used = 3, fu_hardware_used = 1,
         fu_guards = 2, fu_exclusive = False \<rparr>)] \<rparr>,
     pl_hardware = [(1, \<lparr> hs_owner = LiveOwner, hs_family = 1 \<rparr>)],
     pl_software = [(0, \<lparr> wp_owner = LiveOwner, wp_weight = 3, wp_family = 1 \<rparr>)], pl_next = 2, pl_waits = {#} \<rparr>"
  unfolding grown_pool_def started_pool_def
  by (simp add: try_admit_family_def pool_new_def permits_new_def encode_role_def hardware_role_def store_sw_def
      with_permits_def count_software_def checked_sum_def Let_def prune_def background_active_def scan_new_def
      scan_retained_def see_hardware_def see_software_def half_weight_def hardware_family_def software_family_def
      family_id_def scan_family_def scan_missing_def family_blocked_def judge_family_def software_used_def
      software_used_except_def hardware_used_def hardware_used_except_def live_reservations_def enrol_family_def
      update_family_def count_missing_def count_member_def count_hardware_def adopt_hardware_def adopt_software_def
      permit_for_def store_permit_def store_hw_def map_filter_simps checked_add_usize_def)

lemma grown_reachable: "reachable_pool grown_pool"
proof (rule rp_step [OF started_reachable])
  have "pool_fits started_pool (threads_of [encode_role, hardware_role]) 6"
    by (simp add: pool_fits_def started_pool_def pool_new_def threads_of_def encode_role_def hardware_role_def)
  then show "pool_step started_pool grown_pool"
    unfolding grown_pool_def by (rule pt_family [OF prod.collapse [symmetric]])
qed

text \<open>C4: in every reachable pool each counter of the permit state is the count, or the sum of
threads, of the live guards of its owner; the waiting counters are those of the live waits; a
guard's family is known; and a family's usage is the sum over its guards, within its limits,
with at least one guard alive.\<close>

theorem pool_counts_its_guards:
  assumes "reachable_pool p"
  shows "counters_ok p \<and> members_ok p \<and>
    (\<forall>i f. map_of (pm_families (pl_permits p)) i = Some f \<longrightarrow> family_ok 0 0 p i f \<and> 0 < fu_guards f)"
  using reachable_pool_ok [OF assms] families_entry [of p] by (auto simp: pool_ok_def pool_owes_def)

theorem pool_counts_its_guards_witness:
  "int (pm_software_live_used (pl_permits grown_pool)) = sw_threads LiveOwner grown_pool \<and>
   map_of (pm_families (pl_permits grown_pool)) 1 \<noteq> None"
  using pool_counts_its_guards [OF grown_reachable] by (simp add: grown_eq counters_ok_def Let_def)

text \<open>C24: the drop of a live guard never panics: the family a guard names is in the table, and
dropping it leaves the counts of the guards that remain.\<close>

theorem dropping_never_panics:
  assumes "reachable_pool p"
  shows "(\<forall>a slot. map_of (pl_hardware p) a = Some slot \<longrightarrow>
        (\<exists>st. drop_hw_slot slot (pl_permits p) = Some st \<and>
          counters_ok (p\<lparr> pl_permits := st, pl_hardware := AList.delete a (pl_hardware p) \<rparr>))) \<and>
    (\<forall>a permit. map_of (pl_software p) a = Some permit \<longrightarrow>
        (\<exists>st. drop_sw_permit permit (pl_permits p) = Some st \<and>
          counters_ok (p\<lparr> pl_permits := st, pl_software := AList.delete a (pl_software p) \<rparr>)))"
  using drop_hw_ok [OF reachable_pool_ok [OF assms]] drop_sw_ok [OF reachable_pool_ok [OF assms]]
  unfolding pool_ok_def pool_owes_def by blast

theorem dropping_never_panics_witness:
  "drop_hw_slot \<lparr> hs_owner = LiveOwner, hs_family = 1 \<rparr> (pl_permits grown_pool) \<noteq> None"
  using conjunct1 [OF dropping_never_panics [OF grown_reachable], THEN spec, THEN spec, THEN mp, of 1
      "\<lparr> hs_owner = LiveOwner, hs_family = 1 \<rparr>"]
  by (simp add: grown_eq) blast


text \<open>
  The question before a release ignores exclusive families: two encodes of ten threads hold the
  pool as one exclusive family over a budget of eight, the question promises four threads after
  the six are returned, and the admission after that release is refused.
\<close>

definition encode6 :: resource_estimate where
  "encode6 = \<lparr> re_hardware_slot = False, re_cpu_threads = 6, re_decoder_threads = None \<rparr>"

definition encode4 :: resource_estimate where
  "encode4 = \<lparr> re_hardware_slot = False, re_cpu_threads = 4, re_decoder_threads = None \<rparr>"

definition exclusive_pool :: pool where
  "exclusive_pool = fst (try_admit_family 1 8 [encode6, encode4] [None, None] Live 5 pool_new)"

lemma exclusive_eq:
  "exclusive_pool = \<lparr> pl_permits = permits_new\<lparr> pm_software_live_permits := 2, pm_software_live_used := 10,
       pm_next_family := 1,
       pm_families := [(1, \<lparr> fu_cpu_limit = 10, fu_hardware_limit = 0, fu_cpu_used = 10, fu_hardware_used = 0,
         fu_guards = 2, fu_exclusive = True \<rparr>)] \<rparr>,
     pl_hardware = [],
     pl_software = [(0, \<lparr> wp_owner = LiveOwner, wp_weight = 6, wp_family = 1 \<rparr>),
                    (1, \<lparr> wp_owner = LiveOwner, wp_weight = 4, wp_family = 1 \<rparr>)], pl_next = 2, pl_waits = {#} \<rparr>"
  unfolding exclusive_pool_def
  by (simp add: try_admit_family_def pool_new_def permits_new_def encode6_def encode4_def store_sw_def
      with_permits_def count_software_def checked_sum_eq Let_def prune_def background_active_def scan_new_def
      scan_missing_def family_blocked_def judge_family_def software_used_def
      software_used_except_def hardware_used_def hardware_used_except_def live_reservations_def enrol_family_def
      update_family_def count_missing_def count_member_def
      permit_for_def store_permit_def map_filter_simps checked_add_usize_def)

lemma exclusive_reachable: "reachable_pool exclusive_pool"
proof (rule rp_step [OF rp_new])
  have "pool_fits pool_new (threads_of [encode6, encode4]) 6"
    by (simp add: pool_fits_def pool_new_def threads_of_def encode6_def encode4_def)
  then show "pool_step pool_new exclusive_pool"
    unfolding exclusive_pool_def by (rule pt_family [OF prod.collapse [symmetric]])
qed

lemma speculation_ignores_exclusive_family:
  "reachable_pool exclusive_pool \<and>
   map_of (pl_software exclusive_pool) 0 = Some \<lparr> wp_owner = LiveOwner, wp_weight = 6, wp_family = 1 \<rparr> \<and>
   speculative_fits_after_release 1 8 encode4 encode6 7 (pl_permits exclusive_pool) \<and>
   snd (try_admit_bundle 1 8 encode4 Speculative 7
     (the (drop_permit (permit_for LiveOwner 1 encode6) (pl_permits exclusive_pool)))) = None"
proof (intro conjI)
  show "reachable_pool exclusive_pool" by (rule exclusive_reachable)
  show "map_of (pl_software exclusive_pool) 0 = Some \<lparr> wp_owner = LiveOwner, wp_weight = 6, wp_family = 1 \<rparr>"
    by (simp add: exclusive_eq)
  show "speculative_fits_after_release 1 8 encode4 encode6 7 (pl_permits exclusive_pool)"
    by (simp add: exclusive_eq permits_new_def encode6_def encode4_def speculative_fits_after_release_def fits_after_release_def
        background_active_def hardware_used_def hardware_used_except_def software_used_def software_used_except_def
        live_reservations_def Let_def)
  show "snd (try_admit_bundle 1 8 encode4 Speculative 7
     (the (drop_permit (permit_for LiveOwner 1 encode6) (pl_permits exclusive_pool)))) = None"
    by (simp add: exclusive_eq permits_new_def encode6_def encode4_def drop_permit_def permit_for_def drop_sw_permit_def
        release_family_def Let_def try_admit_bundle_def try_admit_bundle_claiming_def try_admit_bundles_claiming_def
        family_blocked_def checked_sum_eq)
qed

end
