(* ===== verification/AdmissionHandoff.thy ===== *)
theory AdmissionHandoff
  imports AdmissionInvariant
begin

text \<open>
  The handoff of \<open>admission.rs\<close>: a producer asks whether its successor would fit once its own
  permit is returned, reserves that capacity while it still holds the permit, and drops the
  permit later. Everything else the pool does in between, and until the successor claims, is a
  step here; the reservation stays claimable through all of them.
\<close>

section \<open>What others may do\<close>





section \<open>What the predecessor still holds\<close>

definition half_slots :: "hw_store \<Rightarrow> nat option \<Rightarrow> nat" where
  "half_slots hw half = (case half of None \<Rightarrow> 0 | Some a \<Rightarrow> if map_of hw a = None then 0 else 1)"

definition half_below :: "nat option \<Rightarrow> pool \<Rightarrow> bool" where
  "half_below half p \<longleftrightarrow> (case half of None \<Rightarrow> True | Some a \<Rightarrow> a < pl_next p)"

definition halves_stay :: "nat option \<Rightarrow> nat option \<Rightarrow> pool \<Rightarrow> pool \<Rightarrow> bool" where
  "halves_stay a b p p' \<longleftrightarrow> half_slots (pl_hardware p') a = half_slots (pl_hardware p) a \<and>
     half_weight (pl_software p') b = half_weight (pl_software p) b \<and> half_below a p' \<and> half_below b p'"



lemma half_with_permits [simp]:
  "half_below a (with_permits st p) = half_below a p" "halves_stay a b p (with_permits st q) = halves_stay a b p q"
  by (simp_all add: half_below_def halves_stay_def cong: option.case_cong)



section \<open>A reservation backed by its predecessor\<close>
















section \<open>Single permits, families and drops\<close>









lemma update_family_frame [simp]:
  "promised (update_family i g st) = promised st" "committed (update_family i g st) except now = committed st except now"
  "hardware_used_except (update_family i g st) except now = hardware_used_except st except now"
  "reserved e t now (update_family i g st) = reserved e t now st"
  "background_active (update_family i g st) = background_active st"
  by (simp_all add: update_family_def promised_def committed_def hardware_used_except_def live_reservations_def
      reserved_def background_active_def split: option.split)






section \<open>Every step of the others keeps it\<close>







section \<open>The handoff\<close>














end
