(* ===== verification/WaitPool.thy ===== *)
theory WaitPool
  imports Prelude "HOL-Library.Char_ord" "HOL-Library.List_Lexorder"
begin

text \<open>
  The wait pool behind blocking segment requests, \<open>crates/plurxd/src/waitpool.rs\<close>. Every
  section under the lock is one operation. The sending half of a one-shot channel is the
  identity of its waiter: a wake-up answers the messages it sends, as pairs of a waiter's
  identity and an outcome. The world of the last section keeps those messages and the guards
  that are alive, so that what a request finally receives can be stated.
\<close>

section \<open>Data\<close>

record wait_key =
  wk_rendition :: string
  wk_index :: nat

datatype wait_outcome =
  Ready | Deadline | ProducerFailed string | CapacityUnavailable string | PublicationFailed string | Gone

datatype wait_refused = SessionBusy | PoolFull

fun refused_index :: "wait_refused \<Rightarrow> nat" where
  "refused_index SessionBusy = 0"
| "refused_index PoolFull = 1"

record blocked_get_metrics =
  bg_serving :: nat
  bg_waiting :: nat
  bg_cap :: nat
  bg_admitted :: nat
  bg_refused :: "nat list"
  bg_generations :: "nat list"
  bg_terminations :: "nat list"

datatype producer_kind = CopyProducer | EncodedProducer

datatype producer_termination = IdleEnd | IndefiniteHold | YieldToWaiter | Restart

record waiter =
  wt_id :: nat
  wt_session :: string
  wt_parent :: string
  wt_started :: nat

record session_wait_snapshot =
  sw_count :: nat
  sw_oldest_ms :: "int option"
  sw_oldest_segment :: "nat option"

record wait_state =
  ws_waiters :: "(wait_key \<times> waiter list) list"
  ws_retained :: "(nat \<times> wait_key) list"
  ws_per_session :: "(string \<times> nat) list"
  ws_total :: nat
  ws_next_id :: nat

record slot_guard =
  sg_key :: wait_key
  sg_id :: nat
  sg_session :: string

record wait_pool =
  wp_state :: wait_state
  wp_global_cap :: nat
  wp_per_session_cap :: nat
  wp_metrics :: blocked_get_metrics

record wait_demand =
  wd_session :: string
  wd_index :: nat
  wd_arrival_order :: nat

section \<open>Counters\<close>

definition bump :: "nat \<Rightarrow> nat list \<Rightarrow> nat list" where
  "bump i xs = xs[i := wrapping_add_u64 (xs ! i) 1]"

definition count_producer_generation :: "producer_kind \<Rightarrow> blocked_get_metrics \<Rightarrow> blocked_get_metrics" where
  "count_producer_generation kind m =
     m\<lparr> bg_generations := bump (case kind of CopyProducer \<Rightarrow> 0 | EncodedProducer \<Rightarrow> 1) (bg_generations m) \<rparr>"

definition count_producer_termination ::
    "producer_termination \<Rightarrow> blocked_get_metrics \<Rightarrow> blocked_get_metrics" where
  "count_producer_termination why m = m\<lparr> bg_terminations :=
     bump (case why of IdleEnd \<Rightarrow> 0 | IndefiniteHold \<Rightarrow> 1 | YieldToWaiter \<Rightarrow> 2 | Restart \<Rightarrow> 3) (bg_terminations m) \<rparr>"

definition serving :: "blocked_get_metrics \<Rightarrow> blocked_get_metrics" where
  "serving m = m\<lparr> bg_serving := wrapping_add_u64 (bg_serving m) 1 \<rparr>"

definition drop_serving :: "blocked_get_metrics \<Rightarrow> blocked_get_metrics" where
  "drop_serving m = m\<lparr> bg_serving := wrapping_sub_u64 (bg_serving m) 1 \<rparr>"

definition refused_count :: "wait_refused \<Rightarrow> blocked_get_metrics \<Rightarrow> nat" where
  "refused_count reason m = bg_refused m ! refused_index reason"

definition count_refused :: "wait_refused \<Rightarrow> blocked_get_metrics \<Rightarrow> blocked_get_metrics" where
  "count_refused reason m = m\<lparr> bg_refused := bump (refused_index reason) (bg_refused m) \<rparr>"

section \<open>The pool\<close>

definition general_admission :: "nat \<Rightarrow> nat" where
  "general_admission global_cap = max (global_cap - max (global_cap div 8) 1) 1"

definition wait_pool_new :: "nat \<Rightarrow> nat \<Rightarrow> wait_pool" where
  "wait_pool_new global_cap per_session_cap =
     \<lparr> wp_state = \<lparr> ws_waiters = [], ws_retained = [], ws_per_session = [], ws_total = 0, ws_next_id = 0 \<rparr>,
       wp_global_cap = global_cap, wp_per_session_cap = per_session_cap,
       wp_metrics = \<lparr> bg_serving = 0, bg_waiting = 0, bg_cap = global_cap, bg_admitted = 0,
         bg_refused = [0, 0], bg_generations = [0, 0], bg_terminations = [0, 0, 0, 0] \<rparr> \<rparr>"

definition set_global_cap :: "nat \<Rightarrow> wait_pool \<Rightarrow> wait_pool" where
  "set_global_cap cap p = p\<lparr> wp_global_cap := max cap 1, wp_metrics := (wp_metrics p)\<lparr> bg_cap := max cap 1 \<rparr> \<rparr>"

definition held_by :: "string \<Rightarrow> wait_state \<Rightarrow> nat" where
  "held_by parent st = (case map_of (ws_per_session st) parent of None \<Rightarrow> 0 | Some n \<Rightarrow> n)"

definition waiters_at :: "wait_key \<Rightarrow> wait_state \<Rightarrow> waiter list" where
  "waiters_at key st = (case map_of (ws_waiters st) key of None \<Rightarrow> [] | Some ws \<Rightarrow> ws)"

definition register_reader ::
    "wait_key \<Rightarrow> string \<Rightarrow> string \<Rightarrow> nat \<Rightarrow> wait_pool \<Rightarrow> wait_pool \<times> (wait_refused + slot_guard)" where
  "register_reader key session parent now p =
     (let st = wp_state p; held = held_by parent st in
      if wp_per_session_cap p \<le> held
      then (p\<lparr> wp_metrics := count_refused SessionBusy (wp_metrics p) \<rparr>, Inl SessionBusy)
      else let ceiling = (if held = 0 then wp_global_cap p else general_admission (wp_global_cap p)) in
        if ceiling \<le> ws_total st
        then (p\<lparr> wp_metrics := count_refused PoolFull (wp_metrics p) \<rparr>, Inl PoolFull)
        else let id1 = ws_next_id st;
                 w = \<lparr> wt_id = id1, wt_session = session, wt_parent = parent, wt_started = now \<rparr>;
                 st' = st\<lparr> ws_next_id := wrapping_add_u64 id1 1,
                          ws_waiters := AList.update key (waiters_at key st @ [w]) (ws_waiters st),
                          ws_retained := AList.update id1 key (ws_retained st),
                          ws_per_session := AList.update parent (wrapping_add_u64 held 1) (ws_per_session st),
                          ws_total := wrapping_add_u64 (ws_total st) 1 \<rparr>;
                 m = wp_metrics p
             in (p\<lparr> wp_state := st',
                    wp_metrics := m\<lparr> bg_waiting := wrapping_add_u64 (bg_waiting m) 1,
                                     bg_admitted := wrapping_add_u64 (bg_admitted m) 1 \<rparr> \<rparr>,
                 Inr \<lparr> sg_key = key, sg_id = id1, sg_session = parent \<rparr>))"

definition release_slot :: "string \<Rightarrow> wait_state \<Rightarrow> wait_state" where
  "release_slot session st =
     (let per_session = (case map_of (ws_per_session st) session of
            None \<Rightarrow> ws_per_session st
          | Some n \<Rightarrow> let n' = wrapping_sub_u64 n 1 in
              if n' = 0 then AList.delete session (ws_per_session st)
              else AList.update session n' (ws_per_session st))
      in st\<lparr> ws_per_session := per_session, ws_total := wrapping_sub_u64 (ws_total st) 1 \<rparr>)"

text \<open>\<open>Vec::swap_remove\<close> at a position inside the list.\<close>

definition swap_remove_at :: "nat \<Rightarrow> 'a list \<Rightarrow> 'a list" where
  "swap_remove_at pos xs = (if pos = length xs - 1 then butlast xs else (butlast xs)[pos := last xs])"

fun position_of :: "('a \<Rightarrow> bool) \<Rightarrow> 'a list \<Rightarrow> nat option" where
  "position_of q [] = None"
| "position_of q (x # xs) = (if q x then Some 0 else map_option Suc (position_of q xs))"

definition unpark :: "wait_key \<Rightarrow> nat \<Rightarrow> wait_state \<Rightarrow> wait_state" where
  "unpark key id1 st =
     (case map_of (ws_waiters st) key of None \<Rightarrow> st
      | Some ws \<Rightarrow>
        (case position_of (\<lambda>w. wt_id w = id1) ws of None \<Rightarrow> st
         | Some pos \<Rightarrow>
           let ws = swap_remove_at pos ws in
           st\<lparr> ws_waiters := (if ws = [] then AList.delete key (ws_waiters st)
                               else AList.update key ws (ws_waiters st)) \<rparr>))"

text \<open>\<open>SlotGuard\<close>'s destructor.\<close>

definition drop_slot :: "slot_guard \<Rightarrow> wait_pool \<Rightarrow> wait_pool" where
  "drop_slot g p =
     (let st = wp_state p; m = wp_metrics p;
          (st, m) = (case map_of (ws_retained st) (sg_id g) of
              None \<Rightarrow> (st, m)
            | Some key \<Rightarrow> (release_slot (sg_session g) (st\<lparr> ws_retained := AList.delete (sg_id g) (ws_retained st) \<rparr>),
                          m\<lparr> bg_waiting := wrapping_sub_u64 (bg_waiting m) 1 \<rparr>))
      in p\<lparr> wp_state := unpark (sg_key g) (sg_id g) st, wp_metrics := m \<rparr>)"

section \<open>Waking\<close>

type_synonym message = "nat \<times> wait_outcome"

definition send_all :: "wait_outcome \<Rightarrow> waiter list \<Rightarrow> message list" where
  "send_all outcome ws = map (\<lambda>w. (wt_id w, outcome)) ws"

definition drain_key :: "wait_key \<Rightarrow> wait_state \<Rightarrow> wait_state \<times> waiter list" where
  "drain_key key st = (st\<lparr> ws_waiters := AList.delete key (ws_waiters st) \<rparr>, waiters_at key st)"

definition wake_key :: "string \<Rightarrow> nat \<Rightarrow> wait_outcome \<Rightarrow> wait_pool \<Rightarrow> wait_pool \<times> message list" where
  "wake_key rendition index outcome p =
     (case drain_key \<lparr> wk_rendition = rendition, wk_index = index \<rparr> (wp_state p) of
        (st, ws) \<Rightarrow> (p\<lparr> wp_state := st \<rparr>, send_all outcome ws))"

definition satisfy :: "string \<Rightarrow> nat \<Rightarrow> wait_pool \<Rightarrow> wait_pool \<times> message list" where
  "satisfy rendition index p = wake_key rendition index Ready p"

definition expire_entry :: "string \<Rightarrow> nat \<Rightarrow> wait_outcome \<Rightarrow> wait_pool \<Rightarrow> wait_pool \<times> message list" where
  "expire_entry rendition index outcome p = wake_key rendition index outcome p"

definition rendition_keys :: "string \<Rightarrow> wait_state \<Rightarrow> wait_key list" where
  "rendition_keys rendition st = filter (\<lambda>k. wk_rendition k = rendition) (map fst (ws_waiters st))"

definition wake_rendition :: "string \<Rightarrow> wait_outcome \<Rightarrow> wait_pool \<Rightarrow> wait_pool \<times> message list" where
  "wake_rendition rendition outcome p =
     (case foldl (\<lambda>(st, drained) key. case drain_key key st of (st, ws) \<Rightarrow> (st, drained @ ws))
             (wp_state p, []) (rendition_keys rendition (wp_state p)) of
        (st, drained) \<Rightarrow> (p\<lparr> wp_state := st \<rparr>, send_all outcome drained))"

definition fail_rendition :: "string \<Rightarrow> string \<Rightarrow> wait_pool \<Rightarrow> wait_pool \<times> message list" where
  "fail_rendition rendition cause p = wake_rendition rendition (ProducerFailed cause) p"

definition close_rendition :: "string \<Rightarrow> wait_pool \<Rightarrow> wait_pool \<times> message list" where
  "close_rendition rendition p = wake_rendition rendition Gone p"

definition retire_key :: "string \<Rightarrow> wait_state \<times> waiter list \<Rightarrow> wait_key \<Rightarrow> wait_state \<times> waiter list" where
  "retire_key session acc key =
     (case acc of (st, drained) \<Rightarrow>
        (case map_of (ws_waiters st) key of None \<Rightarrow> (st, drained)
         | Some ws \<Rightarrow>
           let kept = filter (\<lambda>w. wt_session w \<noteq> session) ws in
           (st\<lparr> ws_waiters := (if kept = [] then AList.delete key (ws_waiters st)
                                else AList.update key kept (ws_waiters st)) \<rparr>,
            drained @ filter (\<lambda>w. wt_session w = session) ws)))"

definition retire_session :: "string \<Rightarrow> string \<Rightarrow> wait_pool \<Rightarrow> wait_pool \<times> message list" where
  "retire_session rendition session p =
     (case foldl (retire_key session) (wp_state p, []) (rendition_keys rendition (wp_state p)) of
        (st, drained) \<Rightarrow> (p\<lparr> wp_state := st \<rparr>, send_all Gone drained))"

text \<open>What \<open>RegisteredWait::wait\<close> answers, from the message on its channel when the wait ends.\<close>

datatype channel = Empty | Closed | Delivered wait_outcome

definition wait_result :: "bool \<Rightarrow> channel \<Rightarrow> wait_outcome option" where
  "wait_result timed_out rx = (case rx of
       Delivered outcome \<Rightarrow> Some outcome
     | Closed \<Rightarrow> Some (if timed_out then Deadline else Gone)
     | Empty \<Rightarrow> if timed_out then Some Deadline else None)"

section \<open>Questions\<close>

definition blocked_on :: "string \<Rightarrow> wait_pool \<Rightarrow> nat option" where
  "blocked_on rendition p =
     (case map wk_index (rendition_keys rendition (wp_state p)) of [] \<Rightarrow> None | i # is \<Rightarrow> Some (foldl min i is))"

definition coalesce_waiter :: "nat \<Rightarrow> ((string \<times> nat) \<times> nat) list \<Rightarrow> waiter \<Rightarrow> ((string \<times> nat) \<times> nat) list" where
  "coalesce_waiter index acc w =
     (let order = (case map_of acc (wt_session w, index) of None \<Rightarrow> wt_id w | Some o1 \<Rightarrow> o1)
      in AList.update (wt_session w, index) (min order (wt_id w)) acc)"

definition coalesced :: "string \<Rightarrow> wait_state \<Rightarrow> ((string \<times> nat) \<times> nat) list" where
  "coalesced rendition st =
     foldl (\<lambda>acc (key, ws). foldl (coalesce_waiter (wk_index key)) acc ws) []
       (filter (\<lambda>(key, ws). wk_rendition key = rendition) (ws_waiters st))"

definition demand_cmp :: "wait_demand \<Rightarrow> wait_demand \<Rightarrow> rust_ordering" where
  "demand_cmp a b = rust_cmp (wd_session a, wd_index a) (wd_session b, wd_index b)"

definition demands :: "string \<Rightarrow> wait_pool \<Rightarrow> wait_demand list" where
  "demands rendition p =
     remdups_adj (sort_by demand_cmp
       (map (\<lambda>((session, index), order). \<lparr> wd_session = session, wd_index = index, wd_arrival_order = order \<rparr>)
         (coalesced rendition (wp_state p))))"

definition retained_indexes :: "string \<Rightarrow> wait_pool \<Rightarrow> nat list" where
  "retained_indexes rendition p =
     remdups_adj (sort (map wk_index (filter (\<lambda>key. wk_rendition key = rendition) (map snd (ws_retained (wp_state p))))))"

definition oldest_step :: "nat \<Rightarrow> nat \<Rightarrow> (nat \<times> nat) option \<Rightarrow> waiter \<Rightarrow> (nat \<times> nat) option" where
  "oldest_step now index oldest w =
     (let age = now - wt_started w in
      case oldest of None \<Rightarrow> Some (age, index)
      | Some (current, i) \<Rightarrow> if current < age then Some (age, index) else oldest)"

text \<open>Instants in milliseconds. With two oldest waiters of one age the map's order picks the segment.\<close>

definition session_snapshot :: "string \<Rightarrow> nat \<Rightarrow> wait_pool \<Rightarrow> session_wait_snapshot" where
  "session_snapshot session now p =
     (let mine = concat (map (\<lambda>(key, ws). map (Pair (wk_index key)) (filter (\<lambda>w. wt_parent w = session) ws))
                   (ws_waiters (wp_state p)));
          oldest = foldl (\<lambda>o1 (index, w). oldest_step now index o1 w) None mine
      in \<lparr> sw_count = length mine,
           sw_oldest_ms = map_option (\<lambda>(age, i). if int age \<le> I64_MAX then int age else I64_MAX) oldest,
           sw_oldest_segment = map_option snd oldest \<rparr>)"

section \<open>The world: guards and messages\<close>

record wait_world =
  ww_pool :: wait_pool
  ww_guards :: "slot_guard list"
  ww_pending :: "message list"
  ww_sent :: "message list"

definition world_new :: "nat \<Rightarrow> nat \<Rightarrow> wait_world" where
  "world_new cap per_session = \<lparr> ww_pool = wait_pool_new cap per_session, ww_guards = [], ww_pending = [], ww_sent = [] \<rparr>"

definition woken :: "wait_world \<Rightarrow> wait_pool \<times> message list \<Rightarrow> wait_world" where
  "woken w r = (case r of (p, ms) \<Rightarrow> w\<lparr> ww_pool := p, ww_pending := ww_pending w @ ms \<rparr>)"

text \<open>
  The drained senders are used after the lock is released: a message is pending between the
  critical section and its \<open>send\<close>. Identities are not reused: fewer than \<open>2 ^ 64\<close> requests are admitted.
\<close>

inductive wait_step :: "wait_world \<Rightarrow> wait_world \<Rightarrow> bool" where
  wt_register: "register_reader key session parent now (ww_pool w) = (p, Inr g) \<Longrightarrow>
    ws_next_id (wp_state (ww_pool w)) < U64_MAX \<Longrightarrow>
    wait_step w (w\<lparr> ww_pool := p, ww_guards := ww_guards w @ [g] \<rparr>)"
| wt_refused: "register_reader key session parent now (ww_pool w) = (p, Inl r) \<Longrightarrow> wait_step w (w\<lparr> ww_pool := p \<rparr>)"
| wt_drop: "g \<in> set (ww_guards w) \<Longrightarrow>
    wait_step w (w\<lparr> ww_pool := drop_slot g (ww_pool w), ww_guards := filter (\<lambda>h. sg_id h \<noteq> sg_id g) (ww_guards w) \<rparr>)"
| wt_satisfy: "wait_step w (woken w (satisfy rendition index (ww_pool w)))"
| wt_expire: "wait_step w (woken w (expire_entry rendition index outcome (ww_pool w)))"
| wt_fail: "wait_step w (woken w (fail_rendition rendition cause (ww_pool w)))"
| wt_close: "wait_step w (woken w (close_rendition rendition (ww_pool w)))"
| wt_retire: "wait_step w (woken w (retire_session rendition session (ww_pool w)))"
| wt_send: "ww_pending w = xs @ m # ys \<Longrightarrow> wait_step w (w\<lparr> ww_pending := xs @ ys, ww_sent := ww_sent w @ [m] \<rparr>)"
| wt_cap: "wait_step w (w\<lparr> ww_pool := set_global_cap cap (ww_pool w) \<rparr>)"

inductive reachable_wait :: "nat \<Rightarrow> nat \<Rightarrow> wait_world \<Rightarrow> bool" for cap per_session where
  rw_new: "reachable_wait cap per_session (world_new cap per_session)"
| rw_step: "reachable_wait cap per_session w \<Longrightarrow> wait_step w w' \<Longrightarrow> reachable_wait cap per_session w'"

end
