(* ===== verification/WaitWorld.thy ===== *)
theory WaitWorld
  imports WaitPool
begin

text \<open>
  What holds of the wait pool in every interleaving of requests, wake-ups and disconnects: the
  slots are those of the guards alive, every wait ends through exactly one named path, a
  newcomer is not shut out, and the demands the scheduler reads are the waiting requests,
  coalesced.
\<close>

section \<open>Slots\<close>

definition guards_of :: "string \<Rightarrow> slot_guard list \<Rightarrow> nat" where
  "guards_of s gs = length (filter (\<lambda>g. sg_session g = s) gs)"

text \<open>The counters and the retained keys are those of the guards that are alive.\<close>

definition slots_ok :: "slot_guard list \<Rightarrow> wait_pool \<Rightarrow> bool" where
  "slots_ok gs p \<longleftrightarrow> (let st = wp_state p in
     distinct (map sg_id gs) \<and> (\<forall>g \<in> set gs. sg_id g < ws_next_id st) \<and> ws_next_id st \<le> U64_MAX \<and>
     distinct (map fst (ws_retained st)) \<and>
     (\<forall>i k. map_of (ws_retained st) i = Some k \<longleftrightarrow> (\<exists>g \<in> set gs. sg_id g = i \<and> sg_key g = k)) \<and>
     distinct (map fst (ws_per_session st)) \<and>
     (\<forall>s. map_of (ws_per_session st) s = (if guards_of s gs = 0 then None else Some (guards_of s gs))) \<and>
     ws_total st = length gs \<and> bg_waiting (wp_metrics p) = length gs)"

text \<open>
  A live guard has exactly one of a parked waiter and a message sent; a parked waiter has a
  live guard.
\<close>

definition parked :: "wait_key \<Rightarrow> wait_state \<Rightarrow> nat list" where
  "parked k st = map wt_id (waiters_at k st)"

definition parked_ok :: "slot_guard list \<Rightarrow> wait_state \<Rightarrow> message list \<Rightarrow> bool" where
  "parked_ok gs st sent \<longleftrightarrow> distinct (map sg_id gs) \<and> distinct (map fst (ws_waiters st)) \<and>
     (\<forall>k ws. map_of (ws_waiters st) k = Some ws \<longrightarrow> ws \<noteq> []) \<and>
     (\<forall>k. \<forall>x \<in> set (waiters_at k st). \<exists>g \<in> set gs. sg_id g = wt_id x \<and> sg_key g = k \<and> sg_session g = wt_parent x) \<and>
     (\<forall>g \<in> set gs. count_list (map fst sent) (sg_id g) + count_list (parked (sg_key g) st) (sg_id g) = 1) \<and>
     (\<forall>m \<in> set sent. fst m < ws_next_id st)"

definition wait_ok :: "wait_world \<Rightarrow> bool" where
  "wait_ok w \<longleftrightarrow> slots_ok (ww_guards w) (ww_pool w) \<and> parked_ok (ww_guards w) (wp_state (ww_pool w)) (ww_sent w @ ww_pending w)"

section \<open>Waking\<close>

lemma guard_by_id:
  "distinct (map sg_id gs) \<Longrightarrow> g \<in> set gs \<Longrightarrow> h \<in> set gs \<Longrightarrow> sg_id g = sg_id h \<Longrightarrow> g = h"
  by (metis distinct_map inj_onD)

lemma waiters_at_update [simp]:
  "waiters_at k (st\<lparr> ws_waiters := AList.update k' ws (ws_waiters st) \<rparr>) = (if k = k' then ws else waiters_at k st)"
  by (simp add: waiters_at_def update_conv')

lemma waiters_at_delete [simp]:
  "waiters_at k (st\<lparr> ws_waiters := AList.delete k' (ws_waiters st) \<rparr>) = (if k = k' then [] else waiters_at k st)"
  by (simp add: waiters_at_def delete_conv')

lemma count_list_append [simp]: "count_list (xs @ ys) x = count_list xs x + count_list ys x"
  by (induction xs) auto

lemma count_list_0: "x \<notin> set xs \<Longrightarrow> count_list xs x = 0"
  by (induction xs) auto

lemma send_all_fst [simp]: "map fst (send_all outcome ws) = map wt_id ws"
  by (simp add: send_all_def)

lemma foreign_waiter:
  assumes "parked_ok gs st sent" and "g \<in> set gs" and "sg_key g \<noteq> k"
  shows "sg_id g \<notin> set (parked k st)"
proof
  assume "sg_id g \<in> set (parked k st)"
  then obtain x where x: "x \<in> set (waiters_at k st)" "wt_id x = sg_id g" by (auto simp: parked_def)
  obtain h where h: "h \<in> set gs" "sg_id h = wt_id x" "sg_key h = k"
    using assms(1) x(1) unfolding parked_ok_def by blast
  have "h = g" using guard_by_id [of gs h g] assms(1,2) h x(2) by (simp add: parked_ok_def)
  then show False using assms(3) h(3) by simp
qed

lemma waiters_known:
  "parked_ok gs st sent \<Longrightarrow> \<forall>g \<in> set gs. sg_id g < ws_next_id st \<Longrightarrow> x \<in> set (waiters_at k st) \<Longrightarrow> wt_id x < ws_next_id st"
  unfolding parked_ok_def by metis

text \<open>Replacing the waiters of one key by some of them, and sending to the rest.\<close>

lemma parked_ok_split:
  assumes ok: "parked_ok gs st sent" and ids: "\<forall>g \<in> set gs. sg_id g < ws_next_id st"
    and st': "st' = st\<lparr> ws_waiters := wm \<rparr>" "distinct (map fst wm)" "\<forall>k ws. map_of wm k = Some ws \<longrightarrow> ws \<noteq> []"
    and at: "\<And>k'. waiters_at k' st' = (if k' = k then kept else waiters_at k' st)"
    and part: "mset (map wt_id kept) + mset (map wt_id gone) = mset (parked k st)" "set kept \<subseteq> set (waiters_at k st)"
    and gone: "set gone \<subseteq> set (waiters_at k st)"
  shows "parked_ok gs st' (sent @ send_all outcome gone)"
proof -
  have next1: "ws_next_id st' = ws_next_id st" using st'(1) by simp
  have "\<forall>k'. \<forall>x \<in> set (waiters_at k' st'). \<exists>g \<in> set gs. sg_id g = wt_id x \<and> sg_key g = k' \<and> sg_session g = wt_parent x"
  proof (intro allI ballI)
    fix k' x assume x: "x \<in> set (waiters_at k' st')"
    have "x \<in> set (waiters_at k' st)" using x at [of k'] part(2) by (cases "k' = k") auto
    then show "\<exists>g \<in> set gs. sg_id g = wt_id x \<and> sg_key g = k' \<and> sg_session g = wt_parent x"
      using ok unfolding parked_ok_def by blast
  qed
  moreover have "count_list (map fst (sent @ send_all outcome gone)) (sg_id g) + count_list (parked (sg_key g) st') (sg_id g) = 1"
    if g: "g \<in> set gs" for g
  proof (cases "sg_key g = k")
    case True
    have "count_list (map wt_id gone) (sg_id g) + count_list (parked k st') (sg_id g) = count_list (parked k st) (sg_id g)"
      using part(1) at [of k] by (metis add.commute count_mset count_union parked_def)
    then show ?thesis using ok g True by (auto simp: parked_ok_def)
  next
    case False
    have "sg_id g \<notin> set (map wt_id gone)"
      using foreign_waiter [OF ok g False] gone by (auto simp: parked_def)
    then have "count_list (map wt_id gone) (sg_id g) = 0" by (rule count_list_0)
    then show ?thesis using ok g False at [of "sg_key g"] by (auto simp: parked_ok_def parked_def)
  qed
  moreover have "\<forall>m \<in> set (sent @ send_all outcome gone). fst m < ws_next_id st'"
    using ok gone waiters_known [OF ok ids, of _ k] next1 by (auto simp: parked_ok_def send_all_def)
  ultimately show ?thesis using ok st' by (simp add: parked_ok_def)
qed

lemma drain_ok:
  assumes "parked_ok gs st sent" and "\<forall>g \<in> set gs. sg_id g < ws_next_id st" and "drain_key k st = (st', ws)"
  shows "parked_ok gs st' (sent @ send_all outcome ws)"
proof -
  have e: "st' = st\<lparr> ws_waiters := AList.delete k (ws_waiters st) \<rparr>" "ws = waiters_at k st"
    using assms(3) by (simp_all add: drain_key_def)
  show ?thesis
    by (rule parked_ok_split [OF assms(1,2) e(1), where k = k and kept = "[]"])
      (use assms(1) e in \<open>auto simp: parked_ok_def distinct_delete delete_conv' parked_def\<close>)
qed

lemma retire_key_ok:
  assumes "parked_ok gs st (sent @ send_all Gone drained)" and "\<forall>g \<in> set gs. sg_id g < ws_next_id st"
    and "retire_key session (st, drained) k = (st', drained')"
  shows "parked_ok gs st' (sent @ send_all Gone drained')"
proof (cases "map_of (ws_waiters st) k")
  case None
  then show ?thesis using assms by (simp add: retire_key_def)
next
  case (Some ws)
  let ?kept = "filter (\<lambda>w. wt_session w \<noteq> session) ws" and ?gone = "filter (\<lambda>w. wt_session w = session) ws"
  let ?wm = "if ?kept = [] then AList.delete k (ws_waiters st) else AList.update k ?kept (ws_waiters st)"
  have e: "st' = st\<lparr> ws_waiters := ?wm \<rparr>" "drained' = drained @ ?gone"
    using assms(3) Some by (auto simp: retire_key_def Let_def)
  have ws: "waiters_at k st = ws" using Some by (simp add: waiters_at_def)
  have d: "distinct (map fst (ws_waiters st))" "\<forall>k ws. map_of (ws_waiters st) k = Some ws \<longrightarrow> ws \<noteq> []"
    using assms(1) by (simp_all add: parked_ok_def)
  have "parked_ok gs st' ((sent @ send_all Gone drained) @ send_all Gone ?gone)"
  proof (rule parked_ok_split [OF assms(1,2) e(1), where k = k and kept = ?kept])
    show "distinct (map fst ?wm)" using d(1) by (simp add: distinct_delete distinct_update)
    show "\<forall>k ws. map_of ?wm k = Some ws \<longrightarrow> ws \<noteq> []" using d(2) by (auto simp: delete_conv' update_conv')
    show "waiters_at k' st' = (if k' = k then ?kept else waiters_at k' st)" for k'
      unfolding e(1) by simp
    have "mset (filter (\<lambda>w. wt_session w \<noteq> session) ws) + mset (filter (\<lambda>w. wt_session w = session) ws) = mset ws"
      by (induction ws) auto
    then show "mset (map wt_id ?kept) + mset (map wt_id ?gone) = mset (parked k st)"
      unfolding parked_def ws mset_map by (metis image_mset_union)
  qed (use ws in auto)
  then show ?thesis using e(2) by (simp add: send_all_def)
qed

lemma frame_next: "fst (drain_key k st) = st' \<Longrightarrow> ws_next_id st' = ws_next_id st"
  by (auto simp: drain_key_def)

lemma drain_all_ok:
  assumes "parked_ok gs st (sent @ send_all outcome drained)" and "\<forall>g \<in> set gs. sg_id g < ws_next_id st"
    and "foldl (\<lambda>(st, drained) key. case drain_key key st of (st, ws) \<Rightarrow> (st, drained @ ws)) (st, drained) ks = (st', out)"
  shows "parked_ok gs st' (sent @ send_all outcome out)"
  using assms
proof (induction ks arbitrary: st drained)
  case (Cons k ks)
  obtain st1 ws where k: "drain_key k st = (st1, ws)" by (cases "drain_key k st")
  have "parked_ok gs st1 (sent @ send_all outcome (drained @ ws))"
    using drain_ok [OF Cons.prems(1,2) k, of outcome] by (simp add: send_all_def)
  moreover have "\<forall>g \<in> set gs. sg_id g < ws_next_id st1" using Cons.prems(2) k by (auto simp: drain_key_def)
  ultimately show ?case using Cons.IH Cons.prems(3) k by simp
qed simp

lemma retire_all_ok:
  assumes "parked_ok gs st (sent @ send_all Gone drained)" and "\<forall>g \<in> set gs. sg_id g < ws_next_id st"
    and "foldl (retire_key session) (st, drained) ks = (st', out)"
  shows "parked_ok gs st' (sent @ send_all Gone out)"
  using assms
proof (induction ks arbitrary: st drained)
  case (Cons k ks)
  obtain st1 d1 where k: "retire_key session (st, drained) k = (st1, d1)" by (cases "retire_key session (st, drained) k")
  have "parked_ok gs st1 (sent @ send_all Gone d1)" by (rule retire_key_ok [OF Cons.prems(1,2) k])
  moreover have "\<forall>g \<in> set gs. sg_id g < ws_next_id st1"
    using Cons.prems(2) k by (auto simp: retire_key_def Let_def split: option.splits)
  ultimately show ?case using Cons.IH Cons.prems(3) k by simp
qed simp

text \<open>A wake-up leaves the slots alone.\<close>

lemma fold_waiters_only:
  "foldl (\<lambda>(st, drained) key. case drain_key key st of (st, ws) \<Rightarrow> (st, drained @ ws)) (st, d) ks = (st', out) \<Longrightarrow>
   \<exists>wm. st' = st\<lparr> ws_waiters := wm \<rparr>"
  "foldl (retire_key session) (st, d) ks = (st', out) \<Longrightarrow> \<exists>wm. st' = st\<lparr> ws_waiters := wm \<rparr>"
proof (induction ks arbitrary: st d)
  case Nil
  { case 1 then show ?case by (intro exI [of _ "ws_waiters st"]) simp }
  { case 2 then show ?case by (intro exI [of _ "ws_waiters st"]) simp }
next
  case (Cons k ks)
  { case 1
    then obtain st1 d1 where "foldl (\<lambda>(st, drained) key. case drain_key key st of (st, ws) \<Rightarrow> (st, drained @ ws)) (st1, d1) ks = (st', out)"
      "st1 = st\<lparr> ws_waiters := AList.delete k (ws_waiters st) \<rparr>" by (auto simp: drain_key_def)
    from Cons.IH(1) [OF this(1)] this(2) show ?case by auto }
  { case 2
    obtain st1 d1 where k: "retire_key session (st, d) k = (st1, d1)" by (cases "retire_key session (st, d) k")
    have "\<exists>wm. st1 = st\<lparr> ws_waiters := wm \<rparr>"
    proof (cases "map_of (ws_waiters st) k")
      case None
      then show ?thesis using k by (intro exI [of _ "ws_waiters st"]) (simp add: retire_key_def)
    next
      case (Some ws)
      then show ?thesis using k by (auto simp: retire_key_def Let_def)
    qed
    then show ?case using Cons.IH(2) [of st1 d1] 2 k by auto }
qed

lemma slots_ok_waiters: "slots_ok gs (p\<lparr> wp_state := (wp_state p)\<lparr> ws_waiters := wm \<rparr> \<rparr>) = slots_ok gs p"
  by (simp add: slots_ok_def Let_def)

lemma wake_key_ok:
  assumes "wait_ok w" shows "wait_ok (woken w (wake_key rendition index outcome (ww_pool w)))"
proof -
  let ?k = "\<lparr> wk_rendition = rendition, wk_index = index \<rparr>" and ?p = "ww_pool w"
  obtain st ws where d: "drain_key ?k (wp_state ?p) = (st, ws)" by (cases "drain_key ?k (wp_state ?p)")
  have ids: "\<forall>g \<in> set (ww_guards w). sg_id g < ws_next_id (wp_state ?p)" using assms by (simp add: wait_ok_def slots_ok_def Let_def)
  have "parked_ok (ww_guards w) st ((ww_sent w @ ww_pending w) @ send_all outcome ws)"
    using drain_ok [OF _ ids d, where sent = "ww_sent w @ ww_pending w"] assms by (simp add: wait_ok_def)
  moreover have "slots_ok (ww_guards w) (?p\<lparr> wp_state := st \<rparr>)"
    using assms d slots_ok_waiters by (auto simp: wait_ok_def drain_key_def)
  ultimately show ?thesis by (simp add: wait_ok_def woken_def wake_key_def d)
qed

lemma wake_rendition_ok:
  assumes "wait_ok w" shows "wait_ok (woken w (wake_rendition rendition outcome (ww_pool w)))"
proof -
  let ?p = "ww_pool w" and ?ks = "rendition_keys rendition (wp_state (ww_pool w))"
  let ?f = "\<lambda>(st, drained) key. case drain_key key st of (st, ws) \<Rightarrow> (st, drained @ ws)"
  obtain st out where d: "foldl ?f (wp_state ?p, []) ?ks = (st, out)" by (cases "foldl ?f (wp_state ?p, []) ?ks")
  have ids: "\<forall>g \<in> set (ww_guards w). sg_id g < ws_next_id (wp_state ?p)" using assms by (simp add: wait_ok_def slots_ok_def Let_def)
  have "parked_ok (ww_guards w) st ((ww_sent w @ ww_pending w) @ send_all outcome out)"
    using drain_all_ok [OF _ ids d, where sent = "ww_sent w @ ww_pending w"] assms by (simp add: wait_ok_def send_all_def)
  moreover have "slots_ok (ww_guards w) (?p\<lparr> wp_state := st \<rparr>)"
    using assms fold_waiters_only(1) [OF d] slots_ok_waiters by (auto simp: wait_ok_def)
  ultimately show ?thesis using d by (simp add: wait_ok_def woken_def wake_rendition_def)
qed

lemma retire_session_ok:
  assumes "wait_ok w" shows "wait_ok (woken w (retire_session rendition session (ww_pool w)))"
proof -
  let ?p = "ww_pool w" and ?ks = "rendition_keys rendition (wp_state (ww_pool w))"
  obtain st out where d: "foldl (retire_key session) (wp_state ?p, []) ?ks = (st, out)"
    by (cases "foldl (retire_key session) (wp_state ?p, []) ?ks")
  have ids: "\<forall>g \<in> set (ww_guards w). sg_id g < ws_next_id (wp_state ?p)" using assms by (simp add: wait_ok_def slots_ok_def Let_def)
  have "parked_ok (ww_guards w) st ((ww_sent w @ ww_pending w) @ send_all Gone out)"
    using retire_all_ok [OF _ ids d, where sent = "ww_sent w @ ww_pending w"] assms by (simp add: wait_ok_def send_all_def)
  moreover have "slots_ok (ww_guards w) (?p\<lparr> wp_state := st \<rparr>)"
    using assms fold_waiters_only(2) [OF d] slots_ok_waiters by (auto simp: wait_ok_def)
  ultimately show ?thesis using d by (simp add: wait_ok_def woken_def retire_session_def)
qed

section \<open>Registering\<close>

lemma held_by_guards: "slots_ok gs p \<Longrightarrow> held_by s (wp_state p) = guards_of s gs"
  by (simp add: slots_ok_def Let_def held_by_def)

lemma length_guards: "slots_ok gs p \<Longrightarrow> length gs \<le> ws_next_id (wp_state p)"
proof -
  assume ok: "slots_ok gs p"
  have "set (map sg_id gs) \<subseteq> {..<ws_next_id (wp_state p)}" using ok by (auto simp: slots_ok_def Let_def)
  then have "card (set (map sg_id gs)) \<le> ws_next_id (wp_state p)"
    using card_mono [of "{..<ws_next_id (wp_state p)}" "set (map sg_id gs)"] by simp
  moreover have "distinct (map sg_id gs)" using ok by (simp add: slots_ok_def Let_def)
  ultimately show ?thesis using distinct_card [of "map sg_id gs"] by simp
qed

lemma guards_of_le: "guards_of s gs \<le> length gs"
  by (simp add: guards_of_def)

lemma register_shape:
  assumes "register_reader key session parent now p = (p', Inr g)" and ok: "slots_ok gs p"
    and room: "ws_next_id (wp_state p) < U64_MAX"
  defines "w \<equiv> \<lparr> wt_id = ws_next_id (wp_state p), wt_session = session, wt_parent = parent, wt_started = now \<rparr>"
  shows "g = \<lparr> sg_key = key, sg_id = ws_next_id (wp_state p), sg_session = parent \<rparr>"
    and "wp_state p' = (wp_state p)\<lparr> ws_next_id := ws_next_id (wp_state p) + 1,
      ws_waiters := AList.update key (waiters_at key (wp_state p) @ [w]) (ws_waiters (wp_state p)),
      ws_retained := AList.update (ws_next_id (wp_state p)) key (ws_retained (wp_state p)),
      ws_per_session := AList.update parent (guards_of parent gs + 1) (ws_per_session (wp_state p)),
      ws_total := length gs + 1 \<rparr>"
    and "bg_waiting (wp_metrics p') = length gs + 1"
    and "guards_of parent gs < wp_per_session_cap p"
    and "length gs < (if guards_of parent gs = 0 then wp_global_cap p else general_admission (wp_global_cap p))"
    and "wp_global_cap p' = wp_global_cap p" "wp_per_session_cap p' = wp_per_session_cap p"
proof -
  have h: "held_by parent (wp_state p) = guards_of parent gs" by (rule held_by_guards [OF ok])
  have small: "guards_of parent gs + 1 \<le> U64_MAX" "length gs + 1 \<le> U64_MAX"
    using length_guards [OF ok] guards_of_le [of parent gs] room by simp_all
  have t: "ws_total (wp_state p) = length gs" "bg_waiting (wp_metrics p) = length gs" using ok by (simp_all add: slots_ok_def Let_def)
  note r = assms(1) [unfolded register_reader_def Let_def h t]
  show "guards_of parent gs < wp_per_session_cap p" using r by (auto split: if_splits)
  show "length gs < (if guards_of parent gs = 0 then wp_global_cap p else general_admission (wp_global_cap p))"
    using r by (auto split: if_splits)
  show "g = \<lparr> sg_key = key, sg_id = ws_next_id (wp_state p), sg_session = parent \<rparr>" using r by (auto split: if_splits)
  show "bg_waiting (wp_metrics p') = length gs + 1" using r small by (auto split: if_splits)
  show "wp_global_cap p' = wp_global_cap p" "wp_per_session_cap p' = wp_per_session_cap p" using r by (auto split: if_splits)
  show "wp_state p' = (wp_state p)\<lparr> ws_next_id := ws_next_id (wp_state p) + 1,
      ws_waiters := AList.update key (waiters_at key (wp_state p) @ [w]) (ws_waiters (wp_state p)),
      ws_retained := AList.update (ws_next_id (wp_state p)) key (ws_retained (wp_state p)),
      ws_per_session := AList.update parent (guards_of parent gs + 1) (ws_per_session (wp_state p)),
      ws_total := length gs + 1 \<rparr>"
    using r small room by (auto simp: w_def split: if_splits)
qed

lemma register_ok:
  assumes reg: "register_reader key session parent now (ww_pool w) = (p', Inr g)" and ok: "wait_ok w"
    and room: "ws_next_id (wp_state (ww_pool w)) < U64_MAX"
  shows "wait_ok (w\<lparr> ww_pool := p', ww_guards := ww_guards w @ [g] \<rparr>)"
proof -
  have s: "slots_ok (ww_guards w) (ww_pool w)" and b: "parked_ok (ww_guards w) (wp_state (ww_pool w)) (ww_sent w @ ww_pending w)"
    using ok by (simp_all add: wait_ok_def)
  let ?st = "wp_state (ww_pool w)" and ?gs = "ww_guards w"
  note sh = register_shape [OF reg s room]
  have fresh: "ws_next_id ?st \<notin> sg_id ` set ?gs" and fresh': "\<forall>h \<in> set ?gs. sg_id h \<noteq> ws_next_id ?st"
    using s by (auto simp: slots_ok_def Let_def)
  have cnt: "guards_of q (?gs @ [g]) = guards_of q ?gs + (if q = parent then 1 else 0)" for q
    by (simp add: guards_of_def sh(1))
  have "slots_ok (?gs @ [g]) p'"
    unfolding slots_ok_def Let_def
  proof (intro conjI)
    show "distinct (map sg_id (?gs @ [g]))" using s fresh by (simp add: slots_ok_def Let_def sh(1))
    show "\<forall>g \<in> set (?gs @ [g]). sg_id g < ws_next_id (wp_state p')" "ws_next_id (wp_state p') \<le> U64_MAX"
      using s room by (auto simp: slots_ok_def Let_def sh(1,2))
    show "distinct (map fst (ws_retained (wp_state p')))" "distinct (map fst (ws_per_session (wp_state p')))"
      using s by (simp_all add: slots_ok_def Let_def sh(2) distinct_update)
    show "\<forall>i k. map_of (ws_retained (wp_state p')) i = Some k \<longleftrightarrow> (\<exists>g \<in> set (?gs @ [g]). sg_id g = i \<and> sg_key g = k)"
    proof (intro allI)
      fix i k
      have "map_of (ws_retained ?st) i = Some k \<longleftrightarrow> (\<exists>g \<in> set ?gs. sg_id g = i \<and> sg_key g = k)"
        using s by (simp add: slots_ok_def Let_def)
      then show "map_of (ws_retained (wp_state p')) i = Some k \<longleftrightarrow> (\<exists>g \<in> set (?gs @ [g]). sg_id g = i \<and> sg_key g = k)"
      proof (cases "i = ws_next_id ?st")
        case True
        then show ?thesis using fresh' by (auto simp: sh(1,2) update_conv')
      qed (auto simp: sh(1,2) update_conv')
    qed
    show "\<forall>q. map_of (ws_per_session (wp_state p')) q =
        (if guards_of q (?gs @ [g]) = 0 then None else Some (guards_of q (?gs @ [g])))"
      using s by (simp add: slots_ok_def Let_def sh(2) cnt update_conv')
    show "ws_total (wp_state p') = length (?gs @ [g])" "bg_waiting (wp_metrics p') = length (?gs @ [g])"
      by (simp_all add: sh(2,3))
  qed
  moreover have "parked_ok (?gs @ [g]) (wp_state p') (ww_sent w @ ww_pending w)"
  proof -
    let ?w = "\<lparr> wt_id = ws_next_id ?st, wt_session = session, wt_parent = parent, wt_started = now \<rparr>"
    have at: "waiters_at k (wp_state p') = (if k = key then waiters_at key ?st @ [?w] else waiters_at k ?st)" for k
      by (simp add: sh(2) waiters_at_def update_conv')
    have ids: "\<forall>g \<in> set ?gs. sg_id g < ws_next_id ?st" using s by (simp add: slots_ok_def Let_def)
    have unsent: "count_list (map fst (ww_sent w @ ww_pending w)) (ws_next_id ?st) = 0"
    proof (rule count_list_0, rule notI)
      assume "ws_next_id ?st \<in> set (map fst (ww_sent w @ ww_pending w))"
      then obtain m where m: "m \<in> set (ww_sent w @ ww_pending w)" "fst m = ws_next_id ?st" by (metis imageE set_map)
      have "fst m < ws_next_id ?st" using b m(1) unfolding parked_ok_def by blast
      then show False using m(2) by simp
    qed
    have unparked: "count_list (map wt_id (waiters_at k ?st)) (ws_next_id ?st) = 0" for k
    proof (rule count_list_0, rule notI)
      assume "ws_next_id ?st \<in> set (map wt_id (waiters_at k ?st))"
      then obtain x where "x \<in> set (waiters_at k ?st)" "wt_id x = ws_next_id ?st" by auto
      then show False using waiters_known [OF b ids, of x k] by simp
    qed
    have "\<forall>k. \<forall>x \<in> set (waiters_at k (wp_state p')). \<exists>h \<in> set (?gs @ [g]). sg_id h = wt_id x \<and> sg_key h = k \<and> sg_session h = wt_parent x"
    proof (intro allI ballI)
      fix k x assume x: "x \<in> set (waiters_at k (wp_state p'))"
      show "\<exists>h \<in> set (?gs @ [g]). sg_id h = wt_id x \<and> sg_key h = k \<and> sg_session h = wt_parent x"
      proof (cases "x \<in> set (waiters_at k ?st)")
        case True
        then obtain h where "h \<in> set ?gs" "sg_id h = wt_id x \<and> sg_key h = k \<and> sg_session h = wt_parent x"
          using b unfolding parked_ok_def by blast
        then show ?thesis by auto
      next
        case False
        then have "k = key" "x = ?w" using x by (auto simp: at split: if_splits)
        then show ?thesis by (auto simp: sh(1))
      qed
    qed
    moreover have "count_list (map fst (ww_sent w @ ww_pending w)) (sg_id h) + count_list (parked (sg_key h) (wp_state p')) (sg_id h) = 1"
      if h: "h \<in> set (?gs @ [g])" for h
    proof (cases "h = g")
      case True
      then show ?thesis using unsent unparked by (simp add: sh(1) parked_def at)
    next
      case False
      then have "h \<in> set ?gs" "sg_id h \<noteq> ws_next_id ?st" using h fresh' by auto
      then show ?thesis using b by (auto simp: parked_ok_def parked_def at)
    qed
    moreover have "distinct (map sg_id (?gs @ [g]))" using s fresh by (simp add: slots_ok_def Let_def sh(1))
    moreover have "\<forall>k ws. map_of (ws_waiters (wp_state p')) k = Some ws \<longrightarrow> ws \<noteq> []"
      using b by (auto simp: parked_ok_def sh(2) update_conv')
    ultimately show ?thesis using b by (auto simp: parked_ok_def sh(2) distinct_update less_Suc_eq)
  qed
  ultimately show ?thesis by (simp add: wait_ok_def)
qed

section \<open>Dropping a guard\<close>

lemma mset_swap_remove_at: "pos < length xs \<Longrightarrow> mset (swap_remove_at pos xs) = mset xs - {# xs ! pos #}"
proof -
  assume p: "pos < length xs"
  then have ne: "xs \<noteq> []" by auto
  have xs: "mset xs = add_mset (last xs) (mset (butlast xs))"
    by (metis ne append_butlast_last_id mset.simps(1,2) mset_append add_mset_add_single union_mset_add_mset_right add.right_neutral)
  show ?thesis
  proof (cases "pos = length xs - 1")
    case True
    then have "xs ! pos = last xs" using ne by (simp add: last_conv_nth)
    then show ?thesis using True xs by (simp add: swap_remove_at_def)
  next
    case False
    then have pl: "pos < length (butlast xs)" and nth: "butlast xs ! pos = xs ! pos" using p by (simp_all add: nth_butlast)
    have "mset ((butlast xs)[pos := last xs]) = add_mset (last xs) (mset (butlast xs) - {# xs ! pos #})"
      using mset_update [OF pl] nth by simp
    moreover have "xs ! pos \<in># mset (butlast xs)" using pl nth by (metis nth_mem_mset)
    ultimately show ?thesis using False xs by (simp add: swap_remove_at_def)
  qed
qed

lemma position_of_spec:
  "position_of q xs = Some i \<Longrightarrow> i < length xs \<and> q (xs ! i)"
  "position_of q xs = None \<longleftrightarrow> (\<forall>x \<in> set xs. \<not> q x)"
  by (induction xs arbitrary: i) (auto split: if_splits)

lemma unpark_spec:
  assumes d: "distinct (map fst (ws_waiters st))" and ne: "\<forall>k ws. map_of (ws_waiters st) k = Some ws \<longrightarrow> ws \<noteq> []"
  shows "\<exists>wm. unpark key i st = st\<lparr> ws_waiters := wm \<rparr> \<and> distinct (map fst wm) \<and> (\<forall>k ws. map_of wm k = Some ws \<longrightarrow> ws \<noteq> [])"
    and "waiters_at k (unpark key i st) = (if k = key then waiters_at key (unpark key i st) else waiters_at k st)"
    and "i \<notin> set (parked key st) \<Longrightarrow> unpark key i st = st"
    and "i \<in> set (parked key st) \<Longrightarrow> \<exists>x \<in> set (waiters_at key st). wt_id x = i \<and>
      mset (waiters_at key (unpark key i st)) = mset (waiters_at key st) - {# x #}"
proof -
  consider (same) "i \<notin> set (parked key st)" "unpark key i st = st"
    | (drop) ws pos where "map_of (ws_waiters st) key = Some ws" "pos < length ws" "wt_id (ws ! pos) = i"
      "unpark key i st = st\<lparr> ws_waiters := (if swap_remove_at pos ws = [] then AList.delete key (ws_waiters st)
                               else AList.update key (swap_remove_at pos ws) (ws_waiters st)) \<rparr>"
  proof (cases "map_of (ws_waiters st) key")
    case None
    then show thesis by (intro same) (simp_all add: unpark_def parked_def waiters_at_def)
  next
    case (Some ws)
    show thesis
    proof (cases "position_of (\<lambda>w. wt_id w = i) ws")
      case None
      then have "i \<notin> wt_id ` set ws" by (auto simp: position_of_spec(2))
      then show thesis using None Some by (intro same) (simp_all add: unpark_def parked_def waiters_at_def)
    next
      case p: (Some pos)
      then show thesis using Some position_of_spec(1) [OF p] by (intro drop) (simp_all add: unpark_def Let_def)
    qed
  qed
  note cases1 = this
  show "\<exists>wm. unpark key i st = st\<lparr> ws_waiters := wm \<rparr> \<and> distinct (map fst wm) \<and> (\<forall>k ws. map_of wm k = Some ws \<longrightarrow> ws \<noteq> [])"
  proof (cases rule: cases1)
    case same
    then show ?thesis using d ne by (intro exI [of _ "ws_waiters st"]) simp
  next
    case (drop ws pos)
    let ?wm = "if swap_remove_at pos ws = [] then AList.delete key (ws_waiters st) else AList.update key (swap_remove_at pos ws) (ws_waiters st)"
    have "distinct (map fst ?wm)" using d by (simp add: distinct_delete distinct_update)
    moreover have "\<forall>k ws. map_of ?wm k = Some ws \<longrightarrow> ws \<noteq> []" using ne by (auto simp: delete_conv' update_conv')
    ultimately show ?thesis using drop(4) by blast
  qed
  show "waiters_at k (unpark key i st) = (if k = key then waiters_at key (unpark key i st) else waiters_at k st)"
    by (cases rule: cases1) auto
  show "i \<notin> set (parked key st) \<Longrightarrow> unpark key i st = st"
  proof (cases rule: cases1)
    case (drop ws pos)
    then have "i \<in> set (parked key st)" by (auto simp: parked_def waiters_at_def)
    then show "i \<notin> set (parked key st) \<Longrightarrow> ?thesis" by blast
  qed simp
  show "i \<in> set (parked key st) \<Longrightarrow> \<exists>x \<in> set (waiters_at key st). wt_id x = i \<and>
      mset (waiters_at key (unpark key i st)) = mset (waiters_at key st) - {# x #}"
  proof (cases rule: cases1)
    case (drop ws pos)
    have "waiters_at key st = ws" using drop(1) by (simp add: waiters_at_def)
    moreover have "waiters_at key (unpark key i st) = swap_remove_at pos ws"
      unfolding drop(4) by (cases "swap_remove_at pos ws = []") simp_all
    ultimately show ?thesis using drop(2,3) mset_swap_remove_at [OF drop(2)] by (intro bexI [of _ "ws ! pos"]) simp_all
  qed simp
qed

lemma guards_of_remove:
  assumes "distinct (map sg_id gs)" and "g \<in> set gs"
  defines "gs' \<equiv> filter (\<lambda>h. sg_id h \<noteq> sg_id g) gs"
  shows "length gs' = length gs - 1" and "guards_of s gs' = guards_of s gs - (if s = sg_session g then 1 else 0)"
    and "0 < guards_of (sg_session g) gs"
proof -
  obtain xs ys where gs: "gs = xs @ g # ys" using assms(2) by (meson split_list)
  have no: "\<forall>h \<in> set xs \<union> set ys. sg_id h \<noteq> sg_id g"
    using assms(1) by (auto simp: gs) (metis image_eqI)+
  have gs': "gs' = xs @ ys" using no by (auto simp: gs'_def gs filter_id_conv)
  show "length gs' = length gs - 1" by (simp add: gs' gs)
  show "guards_of s gs' = guards_of s gs - (if s = sg_session g then 1 else 0)" by (simp add: guards_of_def gs' gs)
  show "0 < guards_of (sg_session g) gs" by (simp add: guards_of_def gs)
qed

lemma drop_slot_ok:
  assumes ok: "wait_ok w" and g: "g \<in> set (ww_guards w)"
  shows "wait_ok (w\<lparr> ww_pool := drop_slot g (ww_pool w), ww_guards := filter (\<lambda>h. sg_id h \<noteq> sg_id g) (ww_guards w) \<rparr>)"
proof -
  let ?p = "ww_pool w" and ?gs = "ww_guards w" and ?st = "wp_state (ww_pool w)"
  let ?gs' = "filter (\<lambda>h. sg_id h \<noteq> sg_id g) ?gs"
  have s: "slots_ok ?gs ?p" and b: "parked_ok ?gs ?st (ww_sent w @ ww_pending w)" using ok by (simp_all add: wait_ok_def)
  have d: "distinct (map sg_id ?gs)" using s by (simp add: slots_ok_def Let_def)
  note rem = guards_of_remove [OF d g]
  have ret: "map_of (ws_retained ?st) (sg_id g) = Some (sg_key g)" using s g by (auto simp: slots_ok_def Let_def)
  define st1 where "st1 = ?st\<lparr> ws_retained := AList.delete (sg_id g) (ws_retained ?st),
     ws_per_session := (if guards_of (sg_session g) ?gs = 1 then AList.delete (sg_session g) (ws_per_session ?st)
        else AList.update (sg_session g) (guards_of (sg_session g) ?gs - 1) (ws_per_session ?st)),
     ws_total := length ?gs - 1 \<rparr>"
  have st1f: "ws_next_id st1 = ws_next_id ?st" "ws_retained st1 = AList.delete (sg_id g) (ws_retained ?st)"
    "ws_per_session st1 = (if guards_of (sg_session g) ?gs = 1 then AList.delete (sg_session g) (ws_per_session ?st)
        else AList.update (sg_session g) (guards_of (sg_session g) ?gs - 1) (ws_per_session ?st))"
    "ws_total st1 = length ?gs - 1" by (simp_all add: st1_def)
  have le: "1 \<le> guards_of (sg_session g) ?gs" "guards_of (sg_session g) ?gs \<le> length ?gs" "length ?gs \<le> U64_MAX"
    using rem(3) guards_of_le length_guards [OF s] s by (simp_all add: slots_ok_def Let_def)
  have rel: "release_slot (sg_session g) (?st\<lparr> ws_retained := AList.delete (sg_id g) (ws_retained ?st) \<rparr>) = st1"
    using s le by (auto simp: release_slot_def slots_ok_def Let_def st1_def)
  have p': "drop_slot g ?p = ?p\<lparr> wp_state := unpark (sg_key g) (sg_id g) st1,
      wp_metrics := (wp_metrics ?p)\<lparr> bg_waiting := length ?gs - 1 \<rparr> \<rparr>"
    using s le by (simp add: drop_slot_def Let_def ret rel slots_ok_def)
  have dn: "distinct (map fst (ws_waiters st1))" "\<forall>k ws. map_of (ws_waiters st1) k = Some ws \<longrightarrow> ws \<noteq> []"
    using b by (simp_all add: parked_ok_def st1_def)
  note un = unpark_spec [OF dn, where key = "sg_key g" and i = "sg_id g"]
  obtain wm where wm: "unpark (sg_key g) (sg_id g) st1 = st1\<lparr> ws_waiters := wm \<rparr>" "distinct (map fst wm)"
    "\<forall>k ws. map_of wm k = Some ws \<longrightarrow> ws \<noteq> []" using un(1) by blast
  have "slots_ok ?gs' (drop_slot g ?p)"
    unfolding slots_ok_def Let_def
  proof (intro conjI)
    show "distinct (map sg_id ?gs')" using d by (simp add: distinct_map_filter)
    show "\<forall>h \<in> set ?gs'. sg_id h < ws_next_id (wp_state (drop_slot g ?p))" "ws_next_id (wp_state (drop_slot g ?p)) \<le> U64_MAX"
      "distinct (map fst (ws_retained (wp_state (drop_slot g ?p))))" "distinct (map fst (ws_per_session (wp_state (drop_slot g ?p))))"
      using s by (auto simp: p' wm st1f slots_ok_def Let_def distinct_delete distinct_update)
    show "\<forall>i k. map_of (ws_retained (wp_state (drop_slot g ?p))) i = Some k \<longleftrightarrow> (\<exists>h \<in> set ?gs'. sg_id h = i \<and> sg_key h = k)"
    proof (intro allI)
      fix i k
      have "map_of (ws_retained ?st) i = Some k \<longleftrightarrow> (\<exists>g \<in> set ?gs. sg_id g = i \<and> sg_key g = k)"
        using s by (simp add: slots_ok_def Let_def)
      then show "map_of (ws_retained (wp_state (drop_slot g ?p))) i = Some k \<longleftrightarrow> (\<exists>h \<in> set ?gs'. sg_id h = i \<and> sg_key h = k)"
        by (cases "i = sg_id g") (auto simp: p' wm st1f delete_conv')
    qed
    show "\<forall>q. map_of (ws_per_session (wp_state (drop_slot g ?p))) q =
        (if guards_of q ?gs' = 0 then None else Some (guards_of q ?gs'))"
    proof
      fix q
      have "map_of (ws_per_session ?st) q = (if guards_of q ?gs = 0 then None else Some (guards_of q ?gs))"
        using s by (simp add: slots_ok_def Let_def)
      then show "map_of (ws_per_session (wp_state (drop_slot g ?p))) q =
        (if guards_of q ?gs' = 0 then None else Some (guards_of q ?gs'))"
        using le by (cases "q = sg_session g") (auto simp: p' wm st1f delete_conv' update_conv' rem(2))
    qed
    show "ws_total (wp_state (drop_slot g ?p)) = length ?gs'" "bg_waiting (wp_metrics (drop_slot g ?p)) = length ?gs'"
      by (simp_all add: p' wm st1f rem(1))
  qed
  moreover have "parked_ok ?gs' (wp_state (drop_slot g ?p)) (ww_sent w @ ww_pending w)"
  proof -
    let ?st' = "unpark (sg_key g) (sg_id g) st1"
    have at1: "waiters_at k st1 = waiters_at k ?st" for k by (simp add: st1_def waiters_at_def)
    have b1: "parked_ok ?gs st1 (ww_sent w @ ww_pending w)" using b by (simp add: parked_ok_def st1_def parked_def waiters_at_def)
    have sub: "set (waiters_at k ?st') \<subseteq> set (waiters_at k st1)" for k
      using un(2) [where k = k] un(3,4) by (cases "sg_id g \<in> set (parked (sg_key g) st1)")
        (auto split: if_splits dest: in_diffD simp flip: set_mset_mset)
    have one: "count_list (parked (sg_key g) st1) (sg_id g) \<le> 1" using b1 g by (fastforce simp: parked_ok_def)
    have gone: "sg_id g \<notin> set (parked (sg_key g) ?st')"
    proof (cases "sg_id g \<in> set (parked (sg_key g) st1)")
      case True
      then obtain x where x: "x \<in> set (waiters_at (sg_key g) st1)" "wt_id x = sg_id g"
        "mset (waiters_at (sg_key g) ?st') = mset (waiters_at (sg_key g) st1) - {# x #}" using un(4) by blast
      have "mset (parked (sg_key g) ?st') = mset (parked (sg_key g) st1) - {# sg_id g #}"
        unfolding parked_def mset_map x(3) using x(1,2) by (simp add: image_mset_Diff)
      then have "count (mset (parked (sg_key g) ?st')) (sg_id g) = 0" using one by (simp add: count_mset)
      then show ?thesis by (metis count_eq_zero_iff set_mset_mset)
    next
      case False
      then show ?thesis using un(3) by simp
    qed
    have same: "count_list (parked k ?st') i = count_list (parked k st1) i" if "i \<noteq> sg_id g" for k i
    proof (cases "k = sg_key g \<and> sg_id g \<in> set (parked (sg_key g) st1)")
      case True
      then obtain x where x: "x \<in> set (waiters_at k st1)" "wt_id x = sg_id g"
        "mset (waiters_at k ?st') = mset (waiters_at k st1) - {# x #}" using un(4) by blast
      have "mset (parked k ?st') = mset (parked k st1) - {# sg_id g #}"
        unfolding parked_def mset_map x(3) using x(1,2) by (simp add: image_mset_Diff)
      then show ?thesis using that by (metis count_diff count_mset count_single diff_zero)
    next
      case False
      then show ?thesis using un(2) [where k = k] un(3) by (auto simp: parked_def)
    qed
    have "\<forall>k. \<forall>x \<in> set (waiters_at k ?st'). \<exists>h \<in> set ?gs'. sg_id h = wt_id x \<and> sg_key h = k \<and> sg_session h = wt_parent x"
    proof (intro allI ballI)
      fix k x assume x: "x \<in> set (waiters_at k ?st')"
      then obtain h where h: "h \<in> set ?gs" "sg_id h = wt_id x" "sg_key h = k" "sg_session h = wt_parent x"
        using b1 sub unfolding parked_ok_def by blast
      have "sg_id h \<noteq> sg_id g"
      proof
        assume "sg_id h = sg_id g"
        then have "h = g" using guard_by_id [OF d h(1) g] by simp
        then have "sg_id g \<in> set (parked (sg_key g) ?st')" using x h(2,3) by (auto simp: parked_def)
        then show False using gone by simp
      qed
      then show "\<exists>h \<in> set ?gs'. sg_id h = wt_id x \<and> sg_key h = k \<and> sg_session h = wt_parent x" using h by auto
    qed
    moreover have "\<forall>h \<in> set ?gs'. count_list (map fst (ww_sent w @ ww_pending w)) (sg_id h) + count_list (parked (sg_key h) ?st') (sg_id h) = 1"
      using b1 same by (auto simp: parked_ok_def)
    moreover have "\<forall>m \<in> set (ww_sent w @ ww_pending w). fst m < ws_next_id ?st'" using b1 by (auto simp: parked_ok_def wm)
    ultimately show ?thesis using d wm by (simp add: parked_ok_def p' distinct_map_filter)
  qed
  ultimately show ?thesis by (simp add: wait_ok_def)
qed

section \<open>Every reachable world\<close>

lemma world_new_ok: "wait_ok (world_new cap per_session)"
  by (simp add: wait_ok_def world_new_def wait_pool_new_def slots_ok_def parked_ok_def parked_def waiters_at_def guards_of_def Let_def)

lemma parked_ok_mset: "parked_ok gs st ms \<Longrightarrow> mset ms' = mset ms \<Longrightarrow> parked_ok gs st ms'"
proof -
  assume ok: "parked_ok gs st ms" and e: "mset ms' = mset ms"
  have "count_list (map fst ms') i = count_list (map fst ms) i" for i
    unfolding count_mset [symmetric] mset_map e ..
  moreover have "set ms' = set ms" using e by (rule mset_eq_setD)
  ultimately show "parked_ok gs st ms'" using ok by (simp add: parked_ok_def)
qed

lemma wait_step_ok: "wait_step w w' \<Longrightarrow> wait_ok w \<Longrightarrow> wait_ok w'"
proof (induction rule: wait_step.induct)
  case (wt_register key session parent now w p g)
  then show ?case by (intro register_ok) simp_all
next
  case (wt_refused key session parent now w p r)
  have "wp_state p = wp_state (ww_pool w)" "bg_waiting (wp_metrics p) = bg_waiting (wp_metrics (ww_pool w))"
    using wt_refused(1) by (auto simp: register_reader_def Let_def count_refused_def split: if_splits)
  then show ?case using wt_refused(2) by (simp add: wait_ok_def slots_ok_def Let_def)
next
  case (wt_drop g w)
  then show ?case by (intro drop_slot_ok) simp_all
next
  case (wt_send w xs m ys)
  have e: "mset ((ww_sent w @ [m]) @ xs @ ys) = mset (ww_sent w @ ww_pending w)" using wt_send(1) by simp
  have "parked_ok (ww_guards w) (wp_state (ww_pool w)) (ww_sent w @ ww_pending w)" using wt_send(2) by (simp add: wait_ok_def)
  from parked_ok_mset [OF this e] show ?case using wt_send(2) by (simp add: wait_ok_def)
next
  case (wt_cap w cap)
  then show ?case by (simp add: wait_ok_def slots_ok_def Let_def set_global_cap_def)
qed (simp_all add: satisfy_def expire_entry_def fail_rendition_def close_rendition_def wake_key_ok wake_rendition_ok retire_session_ok)

lemma reachable_wait_ok: "reachable_wait cap per_session w \<Longrightarrow> wait_ok w"
  by (induction rule: reachable_wait.induct) (auto intro: world_new_ok wait_step_ok)

lemma filter_subset_length: "length (filter P (filter Q xs)) \<le> length (filter P xs)"
  by (induction xs) auto

lemma session_cap_step:
  "wait_step w w' \<Longrightarrow> wait_ok w \<Longrightarrow> \<forall>s. guards_of s (ww_guards w) \<le> wp_per_session_cap (ww_pool w) \<Longrightarrow>
   wp_per_session_cap (ww_pool w') = wp_per_session_cap (ww_pool w) \<and>
   (\<forall>s. guards_of s (ww_guards w') \<le> wp_per_session_cap (ww_pool w))"
proof (induction rule: wait_step.induct)
  case (wt_register key session parent now w p g)
  have "slots_ok (ww_guards w) (ww_pool w)" using wt_register(3) by (simp add: wait_ok_def)
  note sh = register_shape [OF wt_register(1) this wt_register(2)]
  have "guards_of s (ww_guards w @ [g]) = guards_of s (ww_guards w) + (if s = parent then 1 else 0)" for s
    by (simp add: guards_of_def sh(1))
  then show ?case using wt_register(4) sh(4,7) by auto
next
  case (wt_refused key session parent now w p r)
  then show ?case by (auto simp: register_reader_def Let_def split: if_splits)
next
  case (wt_drop g w)
  then show ?case
    using le_trans [OF filter_subset_length] by (fastforce simp: drop_slot_def Let_def guards_of_def split: prod.split)
next
  case (wt_cap w cap)
  then show ?case by (simp add: set_global_cap_def)
qed (auto simp: woken_def satisfy_def expire_entry_def fail_rendition_def close_rendition_def wake_key_def wake_rendition_def
    retire_session_def split: prod.splits)

lemma session_cap_reachable:
  "reachable_wait cap per_session w \<Longrightarrow>
   wp_per_session_cap (ww_pool w) = per_session \<and> (\<forall>s. guards_of s (ww_guards w) \<le> per_session)"
proof (induction rule: reachable_wait.induct)
  case rw_new
  then show ?case by (simp add: world_new_def wait_pool_new_def guards_of_def)
next
  case (rw_step w w')
  then show ?case using session_cap_step [OF rw_step(2) reachable_wait_ok [OF rw_step(1)]] by simp
qed

text \<open>A world used by the witnesses: one request of viewer \<open>a\<close> waits for segment 3.\<close>

definition key3 :: wait_key where "key3 = \<lparr> wk_rendition = ''r'', wk_index = 3 \<rparr>"

definition guard0 :: slot_guard where "guard0 = \<lparr> sg_key = key3, sg_id = 0, sg_session = ''a'' \<rparr>"

definition one_waits :: wait_world where
  "one_waits = \<lparr> ww_pool = fst (register_reader key3 ''a'' ''a'' 5 (wait_pool_new 8 4)), ww_guards = [guard0], ww_pending = [], ww_sent = [] \<rparr>"

lemma one_waits_pool:
  "wp_state (ww_pool one_waits) = \<lparr> ws_waiters = [(key3, [\<lparr> wt_id = 0, wt_session = ''a'', wt_parent = ''a'', wt_started = 5 \<rparr>])],
     ws_retained = [(0, key3)], ws_per_session = [(''a'', 1)], ws_total = 1, ws_next_id = 1 \<rparr>"
  "wp_global_cap (ww_pool one_waits) = 8" "wp_per_session_cap (ww_pool one_waits) = 4" "ww_guards one_waits = [guard0]"
  "ww_pending one_waits = []" "ww_sent one_waits = []"
  by (simp_all add: one_waits_def register_reader_def wait_pool_new_def held_by_def waiters_at_def Let_def)

lemma one_waits_reachable: "reachable_wait 8 4 one_waits"
proof (rule rw_step [OF rw_new])
  have "register_reader key3 ''a'' ''a'' 5 (ww_pool (world_new 8 4)) =
      (fst (register_reader key3 ''a'' ''a'' 5 (wait_pool_new 8 4)), Inr guard0)"
    by (simp add: register_reader_def world_new_def wait_pool_new_def held_by_def guard0_def Let_def)
  from wt_register [OF this] show "wait_step (world_new 8 4) one_waits"
    by (simp add: world_new_def wait_pool_new_def one_waits_def)
qed

text \<open>C21: in every reachable world the pool counts exactly its guards: the total, the gauge and each
session's share are those of the guards alive, a key is retained exactly while a guard for it
lives, and no session ever holds more than its cap.\<close>

theorem slots_count_guards:
  assumes "reachable_wait cap per_session w"
  shows "ws_total (wp_state (ww_pool w)) = length (ww_guards w) \<and>
    bg_waiting (wp_metrics (ww_pool w)) = length (ww_guards w) \<and>
    (\<forall>s. held_by s (wp_state (ww_pool w)) = guards_of s (ww_guards w) \<and> guards_of s (ww_guards w) \<le> per_session) \<and>
    (\<forall>i k. map_of (ws_retained (wp_state (ww_pool w))) i = Some k \<longleftrightarrow>
       (\<exists>g \<in> set (ww_guards w). sg_id g = i \<and> sg_key g = k))"
proof -
  have s: "slots_ok (ww_guards w) (ww_pool w)" using reachable_wait_ok [OF assms] by (simp add: wait_ok_def)
  show ?thesis
    using held_by_guards [OF s] session_cap_reachable [OF assms] s by (simp add: slots_ok_def Let_def)
qed

theorem slots_count_guards_witness: "held_by ''a'' (wp_state (ww_pool one_waits)) = guards_of ''a'' [guard0]"
  using slots_count_guards [OF one_waits_reachable] by (simp add: one_waits_pool)

text \<open>
  The messages sent on a guard's channel, those still in flight, and what its request reads:
  a sender that is parked or in flight is alive.
\<close>

definition for_guard :: "slot_guard \<Rightarrow> message list \<Rightarrow> wait_outcome list" where
  "for_guard g ms = map snd (filter (\<lambda>m. fst m = sg_id g) ms)"

definition is_parked :: "wait_world \<Rightarrow> slot_guard \<Rightarrow> bool" where
  "is_parked w g \<longleftrightarrow> sg_id g \<in> set (parked (sg_key g) (wp_state (ww_pool w)))"

definition channel_of :: "wait_world \<Rightarrow> slot_guard \<Rightarrow> channel" where
  "channel_of w g = (case for_guard g (ww_sent w) of
       o1 # _ \<Rightarrow> Delivered o1
     | [] \<Rightarrow> if is_parked w g \<or> for_guard g (ww_pending w) \<noteq> [] then Empty else Closed)"

lemma count_list_messages: "count_list (map fst ms) (sg_id g) = length (for_guard g ms)"
  by (induction ms) (auto simp: for_guard_def)

lemma for_guard_append [simp]: "for_guard g (a @ b) = for_guard g a @ for_guard g b"
  by (simp add: for_guard_def)

lemma count_list_in: "x \<in> set xs \<Longrightarrow> 0 < count_list xs x"
  by (induction xs) auto

lemma parked_or_sent:
  assumes "wait_ok w" and "g \<in> set (ww_guards w)"
  shows "is_parked w g \<longleftrightarrow> for_guard g (ww_sent w @ ww_pending w) = []"
    and "\<not> is_parked w g \<longleftrightarrow> (\<exists>o1. for_guard g (ww_sent w @ ww_pending w) = [o1])"
proof -
  let ?ms = "for_guard g (ww_sent w @ ww_pending w)"
  have "count_list (map fst (ww_sent w @ ww_pending w)) (sg_id g) + count_list (parked (sg_key g) (wp_state (ww_pool w))) (sg_id g) = 1"
    using assms by (simp add: wait_ok_def parked_ok_def)
  then have c: "length ?ms + count_list (parked (sg_key g) (wp_state (ww_pool w))) (sg_id g) = 1"
    unfolding count_list_messages .
  have "is_parked w g \<longleftrightarrow> 0 < count_list (parked (sg_key g) (wp_state (ww_pool w))) (sg_id g)"
    unfolding is_parked_def using count_list_in count_list_0 by (metis less_numeral_extra(3))
  then show "is_parked w g \<longleftrightarrow> ?ms = []" "\<not> is_parked w g \<longleftrightarrow> (\<exists>o1. ?ms = [o1])"
    using c by (cases ?ms; cases "tl ?ms"; auto)+
qed

text \<open>C20: every wait ends through exactly one named path and no wake-up is lost. In any interleaving
a live request is in exactly one of three states. It is parked with nothing sent, or one message is in
flight to it: then it waits on, or times out with \<open>Deadline\<close>. Or exactly one message was sent: then it
receives that outcome, even when its timer fires first. Its channel is never found closed.\<close>

theorem every_wait_ends_once:
  assumes "reachable_wait cap per_session w" and "g \<in> set (ww_guards w)"
  shows "(is_parked w g \<and> for_guard g (ww_sent w) = [] \<and> for_guard g (ww_pending w) = [] \<and>
      wait_result timed_out (channel_of w g) = (if timed_out then Some Deadline else None)) \<or>
    (\<not> is_parked w g \<and> for_guard g (ww_sent w) = [] \<and> (\<exists>outcome. for_guard g (ww_pending w) = [outcome]) \<and>
      wait_result timed_out (channel_of w g) = (if timed_out then Some Deadline else None)) \<or>
    (\<not> is_parked w g \<and> for_guard g (ww_pending w) = [] \<and>
      (\<exists>outcome. for_guard g (ww_sent w) = [outcome] \<and> wait_result timed_out (channel_of w g) = Some outcome))"
proof (cases "is_parked w g")
  case True
  then show ?thesis
    using parked_or_sent(1) [OF reachable_wait_ok [OF assms(1)] assms(2)] by (simp add: channel_of_def wait_result_def)
next
  case False
  then obtain o1 where "for_guard g (ww_sent w) @ for_guard g (ww_pending w) = [o1]"
    using parked_or_sent(2) [OF reachable_wait_ok [OF assms(1)] assms(2)] by auto
  then show ?thesis using False
    by (cases "for_guard g (ww_sent w)") (auto simp: channel_of_def wait_result_def)
qed

theorem every_wait_ends_once_witness:
  "wait_result True (channel_of one_waits guard0) = Some Deadline"
  using every_wait_ends_once [OF one_waits_reachable, of guard0 True]
  by (simp add: one_waits_pool is_parked_def parked_def waiters_at_def guard0_def for_guard_def)

text \<open>A materialized segment wakes everyone parked on it and nobody else. After \<open>satisfy\<close> no
request is parked on that segment, \<open>Ready\<close> is on its way to each one that was, and every other
request is parked or answered as before.\<close>

theorem satisfy_wakes_exactly:
  assumes "reachable_wait cap per_session w" and "g \<in> set (ww_guards w)"
    and w'_def: "w' = woken w (satisfy rendition index (ww_pool w))"
  shows "ww_sent w' = ww_sent w \<and>
    (if sg_key g = \<lparr> wk_rendition = rendition, wk_index = index \<rparr>
     then \<not> is_parked w' g \<and> for_guard g (ww_pending w') = (if is_parked w g then [Ready] else for_guard g (ww_pending w))
     else is_parked w' g = is_parked w g \<and> for_guard g (ww_pending w') = for_guard g (ww_pending w))"
proof -
  let ?k = "\<lparr> wk_rendition = rendition, wk_index = index \<rparr>" and ?st = "wp_state (ww_pool w)"
  let ?ws = "waiters_at ?k ?st"
  have ok: "wait_ok w" by (rule reachable_wait_ok [OF assms(1)])
  have w': "ww_sent w' = ww_sent w" "ww_pending w' = ww_pending w @ send_all Ready ?ws"
    "wp_state (ww_pool w') = ?st\<lparr> ws_waiters := AList.delete ?k (ws_waiters ?st) \<rparr>"
    by (simp_all add: w'_def woken_def satisfy_def wake_key_def drain_key_def)
  have at: "parked k (wp_state (ww_pool w')) = (if k = ?k then [] else parked k ?st)" for k
    by (simp add: parked_def w'(3))
  have msg: "for_guard g (ww_pending w') = for_guard g (ww_pending w) @ map (\<lambda>_. Ready) (filter (\<lambda>x. wt_id x = sg_id g) ?ws)"
    by (simp add: w'(2)) (simp add: for_guard_def send_all_def filter_map comp_def)
  show ?thesis
  proof (cases "sg_key g = ?k")
    case True
    have "\<not> is_parked w' g" using True by (simp add: is_parked_def at)
    moreover have "for_guard g (ww_pending w') = (if is_parked w g then [Ready] else for_guard g (ww_pending w))"
    proof (cases "is_parked w g")
      case p: True
      have e: "for_guard g (ww_sent w @ ww_pending w) = []" using parked_or_sent(1) [OF ok assms(2)] p by blast
      have "count_list (map fst (ww_sent w @ ww_pending w)) (sg_id g) + count_list (parked ?k ?st) (sg_id g) = 1"
        using ok assms(2) True unfolding wait_ok_def parked_ok_def by metis
      then have "count_list (map wt_id ?ws) (sg_id g) = 1"
        unfolding count_list_messages e parked_def by simp
      then have "length (filter (\<lambda>x. wt_id x = sg_id g) ?ws) = 1"
        using count_list_messages [of "send_all Ready ?ws" g] by (simp add: for_guard_def send_all_def filter_map comp_def)
      then show ?thesis using p e by (auto simp: msg length_Suc_conv)
    next
      case False
      then have "\<forall>x \<in> set ?ws. wt_id x \<noteq> sg_id g"
        using True unfolding is_parked_def parked_def by (metis image_eqI list.set_map)
      then have "filter (\<lambda>x. wt_id x = sg_id g) ?ws = []" by (simp add: filter_empty_conv)
      then show ?thesis using False by (simp add: msg)
    qed
    ultimately show ?thesis using True w'(1) by simp
  next
    case False
    have "\<forall>x \<in> set ?ws. wt_id x \<noteq> sg_id g"
      using foreign_waiter [of "ww_guards w" ?st "ww_sent w @ ww_pending w" g ?k] ok assms(2) False
      unfolding wait_ok_def parked_def by (metis image_eqI list.set_map)
    then have "filter (\<lambda>x. wt_id x = sg_id g) ?ws = []" by (simp add: filter_empty_conv)
    then show ?thesis using False w'(1) by (simp add: msg is_parked_def at)
  qed
qed

theorem satisfy_wakes_exactly_witness:
  "for_guard guard0 (ww_pending (woken one_waits (satisfy ''r'' 3 (ww_pool one_waits)))) = [Ready]"
  using satisfy_wakes_exactly [OF one_waits_reachable, of guard0 _ "''r''" 3, OF _ refl]
  by (simp add: one_waits_pool is_parked_def parked_def waiters_at_def guard0_def key3_def)

text \<open>C38: a viewer with no foothold is never shut out by one that has several. Once a session that
already held a slot takes another one, any other session holding nothing is admitted next.\<close>

theorem newcomer_is_admitted:
  assumes "reachable_wait cap per_session w" and "ws_next_id (wp_state (ww_pool w)) < U64_MAX"
    and "register_reader key session parent now (ww_pool w) = (p', Inr g)"
    and "0 < held_by parent (wp_state (ww_pool w))" and "held_by parent' (wp_state (ww_pool w)) = 0"
    and "2 \<le> wp_global_cap (ww_pool w)" and "0 < per_session"
  shows "\<exists>p'' g'. register_reader key' session' parent' now' p' = (p'', Inr g')"
proof -
  have s: "slots_ok (ww_guards w) (ww_pool w)" using reachable_wait_ok [OF assms(1)] by (simp add: wait_ok_def)
  note sh = register_shape [OF assms(3) s assms(2)]
  have "parent' \<noteq> parent" using assms(4,5) by auto
  then have zero: "held_by parent' (wp_state p') = 0" using assms(5) by (simp add: held_by_def sh(2) update_conv')
  have inc: "guards_of parent (ww_guards w) \<noteq> 0" using assms(4) held_by_guards [OF s, of parent] by simp
  have "general_admission c < c" if "2 \<le> c" for c using that by (auto simp: general_admission_def)
  then have "general_admission (wp_global_cap (ww_pool w)) < wp_global_cap (ww_pool w)" using assms(6) by blast
  then have "ws_total (wp_state p') < wp_global_cap p'" using sh(5) inc by (simp add: sh(2,6))
  moreover have "wp_per_session_cap p' = per_session" using sh(7) session_cap_reachable [OF assms(1)] by simp
  ultimately show ?thesis using zero assms(7) by (simp add: register_reader_def Let_def)
qed

theorem newcomer_is_admitted_witness:
  "\<exists>p'' g'. register_reader key3 ''b'' ''b'' 9
     (fst (register_reader key3 ''a'' ''a'' 7 (ww_pool one_waits))) = (p'', Inr g')"
  using newcomer_is_admitted [OF one_waits_reachable, of key3 "''a''" "''a''" 7
      "fst (register_reader key3 ''a'' ''a'' 7 (ww_pool one_waits))" "projr (snd (register_reader key3 ''a'' ''a'' 7 (ww_pool one_waits)))"
      "''b''" key3 "''b''" 9]
  by (simp add: one_waits_pool held_by_def register_reader_def general_admission_def Let_def)

section \<open>Demands\<close>

lemma coalesced_items:
  "coalesced rendition st = foldl (\<lambda>acc (q, i). AList.update q (min (case map_of acc q of None \<Rightarrow> i | Some o1 \<Rightarrow> o1) i) acc) []
     (concat (map (\<lambda>(key, ws). map (\<lambda>w. ((wt_session w, wk_index key), wt_id w)) ws)
       (filter (\<lambda>(key, ws). wk_rendition key = rendition) (ws_waiters st))))"
proof -
  let ?f = "\<lambda>acc (q, i). AList.update q (min (case map_of acc q of None \<Rightarrow> i | Some o1 \<Rightarrow> o1) i) acc"
  have one: "foldl (coalesce_waiter index) acc ws = foldl ?f acc (map (\<lambda>w. ((wt_session w, index), wt_id w)) ws)" for index acc ws
    by (induction ws arbitrary: acc) (simp_all add: coalesce_waiter_def Let_def)
  have "foldl (\<lambda>acc (key, ws). foldl (coalesce_waiter (wk_index key)) acc ws) acc kws =
      foldl ?f acc (concat (map (\<lambda>(key, ws). map (\<lambda>w. ((wt_session w, wk_index key), wt_id w)) ws) kws))" for acc kws
    by (induction kws arbitrary: acc) (auto simp: one)
  then show ?thesis by (simp add: coalesced_def)
qed

lemma fold_min:
  fixes items :: "('q \<times> nat) list"
  defines "f \<equiv> \<lambda>acc (q, i). AList.update q (min (case map_of acc q of None \<Rightarrow> i | Some o1 \<Rightarrow> o1) i) acc"
  shows "distinct (map fst (foldl f [] items)) \<and>
    (\<forall>q. map_of (foldl f [] items) q =
      (if \<exists>i. (q, i) \<in> set items then Some (Min {i. (q, i) \<in> set items}) else None))"
proof (induction items rule: rev_induct)
  case (snoc x items)
  obtain q0 i0 where x: "x = (q0, i0)" by (cases x)
  let ?acc = "foldl f [] items"
  have fin: "finite {i. (q, i) \<in> set items}" for q
    by (rule finite_subset [of _ "snd ` set items"]) force+
  have set1: "{i. (q, i) \<in> set (items @ [x])} = (if q = q0 then insert i0 {i. (q, i) \<in> set items} else {i. (q, i) \<in> set items})" for q
    by (auto simp: x)
  have step: "foldl f [] (items @ [x]) = AList.update q0 (min (case map_of ?acc q0 of None \<Rightarrow> i0 | Some o1 \<Rightarrow> o1) i0) ?acc"
    by (simp add: f_def x)
  have "map_of (foldl f [] (items @ [x])) q =
      (if \<exists>i. (q, i) \<in> set (items @ [x]) then Some (Min {i. (q, i) \<in> set (items @ [x])}) else None)" for q
  proof (cases "q = q0")
    case False
    then show ?thesis using snoc.IH unfolding step set1 by (auto simp: update_conv' x)
  next
    case True
    show ?thesis
    proof (cases "\<exists>i. (q0, i) \<in> set items")
      case ex: True
      then have "Min (insert i0 {i. (q0, i) \<in> set items}) = min i0 (Min {i. (q0, i) \<in> set items})"
        using fin by (intro Min_insert) auto
      then show ?thesis using snoc.IH ex True unfolding step set1 by (auto simp: update_conv' x min.commute)
    next
      case no: False
      then have "{i. (q0, i) \<in> set items} = {}" by auto
      then show ?thesis using snoc.IH no True unfolding step set1 by (auto simp: update_conv' x)
    qed
  qed
  moreover have "distinct (map fst (foldl f [] (items @ [x])))" using snoc.IH unfolding step by (simp add: distinct_update)
  ultimately show ?case by blast
qed simp

lemma item_iff:
  fixes kws :: "(wait_key \<times> waiter list) list"
  shows "((s, j), i) \<in> set (concat (map (\<lambda>(key, ws). map (\<lambda>w. ((wt_session w, wk_index key), wt_id w)) ws) kws)) \<longleftrightarrow>
   (\<exists>kw \<in> set kws. wk_index (fst kw) = j \<and> (\<exists>x \<in> set (snd kw). wt_session x = s \<and> wt_id x = i))"
proof -
  have all: "q \<in> set (concat (map f kws)) \<longleftrightarrow> (\<exists>kw \<in> set kws. q \<in> set (f kw))"
    for q :: "(string \<times> nat) \<times> nat" and f by simp
  have one: "((s, j), i) \<in> set (case kw of (key, ws) \<Rightarrow> map (\<lambda>w. ((wt_session w, wk_index key), wt_id w)) ws) \<longleftrightarrow>
      wk_index (fst kw) = j \<and> (\<exists>x \<in> set (snd kw). wt_session x = s \<and> wt_id x = i)" for kw :: "wait_key \<times> waiter list"
    by (cases kw) auto
  show ?thesis unfolding all one ..
qed

lemma coalesced_map_of:
  assumes "distinct (map fst (ws_waiters st))"
  shows "distinct (map fst (coalesced rendition st))"
    and "map_of (coalesced rendition st) (session, index) =
      (let ids = {wt_id x | x. x \<in> set (waiters_at \<lparr> wk_rendition = rendition, wk_index = index \<rparr> st) \<and> wt_session x = session}
       in if ids = {} then None else Some (Min ids))"
proof -
  let ?items = "concat (map (\<lambda>(key, ws). map (\<lambda>w. ((wt_session w, wk_index key), wt_id w)) ws)
       (filter (\<lambda>(key, ws). wk_rendition key = rendition) (ws_waiters st)))"
  let ?k = "\<lparr> wk_rendition = rendition, wk_index = index \<rparr>"
  note fold = fold_min [of ?items, folded coalesced_items]
  show "distinct (map fst (coalesced rendition st))" using fold by blast
  have key: "wk_rendition key = rendition \<and> wk_index key = index \<longleftrightarrow> key = ?k" for key :: wait_key
    by (cases key) auto
  have at: "x \<in> set (waiters_at ?k st) \<longleftrightarrow> (\<exists>ws. (?k, ws) \<in> set (ws_waiters st) \<and> x \<in> set ws)" for x
    using assms by (auto simp: waiters_at_def split: option.split)
  have mem: "((session, index), i) \<in> set ?items \<longleftrightarrow>
      (\<exists>x. x \<in> set (waiters_at ?k st) \<and> wt_session x = session \<and> wt_id x = i)" for i
  proof
    assume "((session, index), i) \<in> set ?items"
    then obtain kw x where "kw \<in> set (ws_waiters st)" "wk_rendition (fst kw) = rendition" "wk_index (fst kw) = index"
      "x \<in> set (snd kw)" "wt_session x = session" "wt_id x = i" unfolding item_iff by (auto simp: case_prod_beta)
    then show "\<exists>x. x \<in> set (waiters_at ?k st) \<and> wt_session x = session \<and> wt_id x = i"
      unfolding at using key [of "fst kw"] by (metis prod.collapse)
  next
    assume "\<exists>x. x \<in> set (waiters_at ?k st) \<and> wt_session x = session \<and> wt_id x = i"
    then obtain ws x where "(?k, ws) \<in> set (ws_waiters st)" "x \<in> set ws" "wt_session x = session" "wt_id x = i"
      unfolding at by blast
    then show "((session, index), i) \<in> set ?items" unfolding item_iff by (intro bexI [of _ "(?k, ws)"]) auto
  qed
  have ids: "{wt_id x | x. x \<in> set (waiters_at ?k st) \<and> wt_session x = session} = {i. ((session, index), i) \<in> set ?items}"
    unfolding mem by blast
  obtain items where items: "items = ?items" by blast
  have "map_of (coalesced rendition st) (session, index) =
      (if \<exists>i. ((session, index), i) \<in> set items then Some (Min {i. ((session, index), i) \<in> set items}) else None)"
    using fold unfolding items by blast
  then show "map_of (coalesced rendition st) (session, index) =
      (let ids = {wt_id x | x. x \<in> set (waiters_at ?k st) \<and> wt_session x = session}
       in if ids = {} then None else Some (Min ids))"
    unfolding ids items [symmetric] by (auto simp: Let_def)
qed

lemma demand_cmp_ok: "cmp_ok_on A demand_cmp"
  by (auto simp: cmp_ok_on_def demand_cmp_def)

lemma demand_cmp_le: "demand_cmp a b \<noteq> OrdGreater \<longleftrightarrow> (wd_session a, wd_index a) \<le> (wd_session b, wd_index b)"
  by (simp only: demand_cmp_def rust_cmp_simps not_less)

lemma remdups_adj_strict:
  "sorted_wrt (\<lambda>a b. demand_cmp a b \<noteq> OrdGreater) ds \<Longrightarrow> distinct (map (\<lambda>d. (wd_session d, wd_index d)) ds) \<Longrightarrow>
   remdups_adj ds = ds \<and> sorted_wrt (\<lambda>a b. (wd_session a, wd_index a) < (wd_session b, wd_index b)) ds"
proof (induction ds)
  case (Cons d ds)
  have "remdups_adj (d # ds) = d # ds" using Cons by (cases ds) auto
  moreover have "(wd_session d, wd_index d) < (wd_session b, wd_index b)" if "b \<in> set ds" for b
  proof -
    have "(wd_session d, wd_index d) \<le> (wd_session b, wd_index b)" using Cons.prems(1) that
      unfolding demand_cmp_le by (simp del: less_eq_prod_simp)
    moreover have "(wd_session d, wd_index d) \<noteq> (wd_session b, wd_index b)" using Cons.prems(2) that
      by (auto simp: image_iff)
    ultimately show ?thesis by (rule order_le_neq_trans)
  qed
  ultimately show ?case using Cons by simp
qed simp

text \<open>C39: the demands of a rendition are one per session and segment, in ascending order of both,
each with the arrival of its first request still waiting: whatever the order of the hash maps, and
however many requests wait for one segment.\<close>

theorem demands_are_coalesced:
  assumes "reachable_wait cap per_session w"
  shows "sorted_wrt (\<lambda>a b. (wd_session a, wd_index a) < (wd_session b, wd_index b)) (demands rendition (ww_pool w)) \<and>
    (\<forall>d. d \<in> set (demands rendition (ww_pool w)) \<longleftrightarrow>
      (let ids = {wt_id x | x. x \<in> set (waiters_at \<lparr> wk_rendition = rendition, wk_index = wd_index d \<rparr> (wp_state (ww_pool w))) \<and>
                   wt_session x = wd_session d}
       in ids \<noteq> {} \<and> wd_arrival_order d = Min ids))"
proof -
  let ?st = "wp_state (ww_pool w)"
  let ?mk = "\<lambda>((session, index), order). \<lparr> wd_session = session, wd_index = index, wd_arrival_order = order \<rparr>"
  let ?ds = "map ?mk (coalesced rendition ?st)"
  have dk: "distinct (map fst (ws_waiters ?st))" using reachable_wait_ok [OF assms] by (simp add: wait_ok_def parked_ok_def)
  note co = coalesced_map_of [OF dk, of rendition]
  have keys: "map (\<lambda>d. (wd_session d, wd_index d)) ?ds = map fst (coalesced rendition ?st)"
    by (simp add: comp_def case_prod_beta)
  have m: "mset (map (\<lambda>d. (wd_session d, wd_index d)) (sort_by demand_cmp ?ds)) = mset (map (\<lambda>d. (wd_session d, wd_index d)) ?ds)"
    unfolding mset_map by simp
  have "distinct (map (\<lambda>d. (wd_session d, wd_index d)) (sort_by demand_cmp ?ds))"
    using co(1) mset_eq_imp_distinct_iff [OF m] unfolding keys by blast
  from remdups_adj_strict [OF sort_by_sorted [OF demand_cmp_ok] this]
  have d: "demands rendition (ww_pool w) = sort_by demand_cmp ?ds"
    "sorted_wrt (\<lambda>a b. (wd_session a, wd_index a) < (wd_session b, wd_index b)) (demands rendition (ww_pool w))"
    by (simp_all add: demands_def)
  have "x \<in> set (demands rendition (ww_pool w)) \<longleftrightarrow>
      (let ids = {wt_id y | y. y \<in> set (waiters_at \<lparr> wk_rendition = rendition, wk_index = wd_index x \<rparr> ?st) \<and> wt_session y = wd_session x}
       in ids \<noteq> {} \<and> wd_arrival_order x = Min ids)" for x
  proof -
    have "x \<in> set (demands rendition (ww_pool w)) \<longleftrightarrow>
        ((wd_session x, wd_index x), wd_arrival_order x) \<in> set (coalesced rendition ?st)"
      unfolding d(1) by (cases x) (force simp: image_iff)
    also have "\<dots> \<longleftrightarrow> map_of (coalesced rendition ?st) (wd_session x, wd_index x) = Some (wd_arrival_order x)"
      using co(1) by simp
    finally show ?thesis unfolding co(2) by (auto simp: Let_def)
  qed
  then show ?thesis using d(2) by blast
qed

theorem demands_are_coalesced_witness:
  "\<lparr> wd_session = ''a'', wd_index = 3, wd_arrival_order = 0 \<rparr> \<in> set (demands ''r'' (ww_pool one_waits))"
  using demands_are_coalesced [OF one_waits_reachable, of "''r''"]
  by (simp add: one_waits_pool waiters_at_def key3_def)

end
