(* ===== verification/PgsRle.thy ===== *)
theory PgsRle
  imports Prelude
begin

text \<open>
  The run-length decoder of the PGS subtitle adapter, \<open>crates/plurx-pgs/src/lib.rs\<close>
  (\<open>decode_rle_strict\<close>, \<open>push_run\<close>, \<open>checked_pixels\<close>), against a grammar of PGS bitmaps: the
  decoder accepts exactly the byte strings of the grammar and answers their image. The errors
  of the adapter are the constructors of \<open>adapter_error\<close>; they name the message, without its text.
\<close>

unbundle bit_operations_syntax

section \<open>Errors\<close>

datatype stream_fault =
    PtsBackwards nat nat | BadMagic nat | UnknownSegment "8 word" | PcsTooShort | PcsTruncatedState
  | PcsBadState "8 word" | PcsInsideSet | EndOutsideSet | SetWithoutPcs | NoDisplaySets | EndedInsideSet
  | SizeChanged nat nat | HeaderTruncated | PayloadTruncated

datatype reread_fault =
    BadMagicAgain | UnknownSegmentAgain "8 word" | PayloadChanged | SetCountChanged nat nat | ContentChanged

datatype set_fault =
    PcsMalformed | PcsObjectTruncated | PcsCropTruncated | PcsTrailing | EmptySet | SetNotPcsToEnd
  | PcsLengthMismatch | WdsMalformed | WdsTrailing | RectOutside string | PdsMalformed | OdsMalformed
  | NestedPcsOrEnd | IncompleteObject | MissingObject nat | MissingPalette nat

datatype object_fault =
    CompleteLength nat nat nat | TwoFirstFragments nat | FirstFragmentTooLong nat | NoFirstFragment nat
  | VersionChanged nat | LastLength nat nat nat | NoWidth | NoHeight
  | DataLengthTooSmall nat

datatype rle_fault =
    RleAfterFinalRow | RleEscapeTruncated | RleLongClearTruncated | RleColorRunTruncated
  | RleLongColorTruncated | RleColorTruncated | RleZeroRun | RleCrossesRow nat nat nat
  | RleEnded nat nat nat nat

datatype malformed =
  StreamFault stream_fault | RereadFault reread_fault | SetFault set_fault | ObjectFault object_fault
| RleFault rle_fault

datatype stream_bound =
    TimestampOverflow | SupTooLarge nat | ByteCounter | SegmentCounter | SetSegmentCounter | SetByteCounter
  | TooManySegments | TooManyPayloadBytes | SupGrew | TooManyDisplaySets | DisplaySetCounter

datatype set_bound =
    CanvasBounds nat nat | TooManyObjects nat | RgbaCounter | RgbaTooLarge | TooManyPalettes
  | RleLengthCounter | RleLengthBound nat | ObjectRgbaCounter | ObjectDimensions nat nat nat nat
  | ObjectRleBytes nat nat | ObjectExpands nat nat | CacheCounter | TooManyCachedObjects | CacheTooLarge
  | PixelCountOverflow | ColumnOverflow

datatype limit_exceeded = StreamLimit stream_bound | SetLimit set_bound

datatype adapter_error = Io string | Malformed malformed | Limit limit_exceeded | Cancelled

abbreviation rle_error :: "rle_fault \<Rightarrow> adapter_error" where
  "rle_error f \<equiv> Malformed (RleFault f)"

definition checked_pixels :: "16 word \<Rightarrow> 16 word \<Rightarrow> adapter_error + nat" where
  "checked_pixels width height =
     (case checked_mul_usize (unat width) (unat height) of
        None \<Rightarrow> Inl (Limit (SetLimit PixelCountOverflow))
      | Some n \<Rightarrow> Inr n)"

section \<open>The decoder\<close>

text \<open>
  The locals of \<open>decode_rle_strict\<close>; its unchecked \<open>width - column\<close> wraps as in the release
  build. \<open>rle.get(i)\<close> is \<open>byte_at\<close>; \<open>Vec::resize\<close> past the length appends copies.
\<close>

record rle_cursor =
  rc_pixels :: "8 word list"
  rc_offset :: nat
  rc_row :: nat
  rc_column :: nat

definition byte_at :: "8 word list \<Rightarrow> nat \<Rightarrow> 8 word option" where
  "byte_at rle i = (if i < length rle then Some (rle ! i) else None)"

definition push_run :: "nat \<Rightarrow> nat \<Rightarrow> 8 word \<Rightarrow> rle_cursor \<Rightarrow> adapter_error + rle_cursor" where
  "push_run width run color cur =
     (case checked_add_usize (rc_column cur) run of
        None \<Rightarrow> Inl (Limit (SetLimit ColumnOverflow))
      | Some next_column \<Rightarrow>
          if width < next_column then Inl (rle_error (RleCrossesRow (rc_column cur) run width))
          else Inr (cur\<lparr> rc_pixels := rc_pixels cur @ replicate run color, rc_column := next_column \<rparr>))"

text \<open>
  The four run forms of an escape: \<open>offset\<close> stands behind the flag byte; the answer is the run,
  its colour and the offset behind them.
\<close>

definition run_of_flag :: "8 word list \<Rightarrow> 8 word \<Rightarrow> nat \<Rightarrow> adapter_error + nat \<times> 8 word \<times> nat" where
  "run_of_flag rle flag offset =
     (let form = flag AND 0xC0; short = unat (flag AND 0x3F) in
      if form = 0x00 then Inr (short, 0, offset)
      else if form = 0x40 then
        (case byte_at rle offset of
           None \<Rightarrow> Inl (rle_error RleLongClearTruncated)
         | Some low \<Rightarrow> Inr (push_bit 8 short OR unat low, 0, offset + 1))
      else if form = 0x80 then
        (case byte_at rle offset of
           None \<Rightarrow> Inl (rle_error RleColorRunTruncated)
         | Some color \<Rightarrow> Inr (short, color, offset + 1))
      else
        (case byte_at rle offset of
           None \<Rightarrow> Inl (rle_error RleLongColorTruncated)
         | Some low \<Rightarrow>
             (case byte_at rle (offset + 1) of
                None \<Rightarrow> Inl (rle_error RleColorTruncated)
              | Some color \<Rightarrow> Inr (push_bit 8 short OR unat low, color, offset + 2))))"

text \<open>One round of the loop, entered with \<open>offset < rle.len()\<close>.\<close>

definition rle_step :: "8 word list \<Rightarrow> nat \<Rightarrow> nat \<Rightarrow> rle_cursor \<Rightarrow> adapter_error + rle_cursor" where
  "rle_step rle width height cur =
     (if height \<le> rc_row cur then Inl (rle_error RleAfterFinalRow)
      else let first = rle ! rc_offset cur; cur = cur\<lparr> rc_offset := rc_offset cur + 1 \<rparr> in
      if first \<noteq> 0 then push_run width 1 first cur
      else
        (case byte_at rle (rc_offset cur) of
           None \<Rightarrow> Inl (rle_error RleEscapeTruncated)
         | Some flag \<Rightarrow>
             let offset = rc_offset cur + 1 in
             if flag = 0 then
               Inr (cur\<lparr> rc_offset := offset, rc_row := rc_row cur + 1, rc_column := 0,
                         rc_pixels := rc_pixels cur @ replicate (wrapping_sub_u64 width (rc_column cur)) 0 \<rparr>)
             else
               (case run_of_flag rle flag offset of
                  Inl e \<Rightarrow> Inl e
                | Inr (run, color, offset) \<Rightarrow>
                    if run = 0 then Inl (rle_error RleZeroRun)
                    else push_run width run color (cur\<lparr> rc_offset := offset \<rparr>))))"

lemma push_run_offset: "push_run width run color cur = Inr cur' \<Longrightarrow> rc_offset cur' = rc_offset cur"
  by (auto simp: push_run_def split: option.splits if_splits)

lemma run_of_flag_offset: "run_of_flag rle flag i = Inr (run, color, j) \<Longrightarrow> i \<le> j"
  by (auto simp: run_of_flag_def Let_def split: option.splits if_splits)

lemma rle_step_advances: "rle_step rle width height cur = Inr cur' \<Longrightarrow> rc_offset cur < rc_offset cur'"
  by (auto simp: rle_step_def Let_def split: option.splits if_splits sum.splits
      dest!: push_run_offset run_of_flag_offset)

function rle_loop :: "8 word list \<Rightarrow> nat \<Rightarrow> nat \<Rightarrow> rle_cursor \<Rightarrow> adapter_error + rle_cursor" where
  "rle_loop rle width height cur =
     (if rc_offset cur < length rle then
        (case rle_step rle width height cur of
           Inl e \<Rightarrow> Inl e
         | Inr cur' \<Rightarrow> rle_loop rle width height cur')
      else Inr cur)"
  by pat_completeness auto
termination
  by (relation "measure (\<lambda>(rle, width, height, cur). length rle - rc_offset cur)")
    (auto dest!: rle_step_advances)

declare rle_loop.simps [simp del]

definition rle_start :: rle_cursor where
  "rle_start = \<lparr> rc_pixels = [], rc_offset = 0, rc_row = 0, rc_column = 0 \<rparr>"

definition rle_finish :: "nat \<Rightarrow> nat \<Rightarrow> nat \<Rightarrow> rle_cursor \<Rightarrow> adapter_error + 8 word list" where
  "rle_finish width height pixel_total cur =
     (let cur = (if rc_row cur + 1 = height \<and> rc_column cur = width
                 then cur\<lparr> rc_row := rc_row cur + 1, rc_column := 0 \<rparr> else cur) in
      if rc_row cur \<noteq> height \<or> rc_column cur \<noteq> 0 \<or> length (rc_pixels cur) \<noteq> pixel_total
      then Inl (rle_error (RleEnded (rc_row cur) (rc_column cur) height width))
      else Inr (rc_pixels cur))"

definition decode_rle_strict :: "8 word list \<Rightarrow> 16 word \<Rightarrow> 16 word \<Rightarrow> adapter_error + 8 word list" where
  "decode_rle_strict rle width height =
     (case checked_mul_usize (unat width) (unat height) of
        None \<Rightarrow> Inl (Limit (SetLimit PixelCountOverflow))
      | Some pixel_total \<Rightarrow>
          (case rle_loop rle (unat width) (unat height) rle_start of
             Inl e \<Rightarrow> Inl e
           | Inr cur \<Rightarrow> rle_finish (unat width) (unat height) pixel_total cur))"

section \<open>The grammar of PGS bitmaps\<close>

text \<open>
  A run is a literal colour or one of the four escapes; a row is a sequence of runs, ended by
  the escape \<open>00 00\<close> that fills what is missing with colour 0; the end marker of the final row
  may be left out when the row is full.
\<close>

inductive run_code :: "8 word list \<Rightarrow> nat \<Rightarrow> 8 word \<Rightarrow> bool" where
  rc_literal: "c \<noteq> 0 \<Longrightarrow> run_code [c] 1 c"
| rc_short_clear: "flag AND 0xC0 = 0x00 \<Longrightarrow> n = unat (flag AND 0x3F) \<Longrightarrow> 0 < n \<Longrightarrow> run_code [0, flag] n 0"
| rc_long_clear: "flag AND 0xC0 = 0x40 \<Longrightarrow> n = unat (flag AND 0x3F) * 256 + unat low \<Longrightarrow> 0 < n \<Longrightarrow>
    run_code [0, flag, low] n 0"
| rc_short_color: "flag AND 0xC0 = 0x80 \<Longrightarrow> n = unat (flag AND 0x3F) \<Longrightarrow> 0 < n \<Longrightarrow> run_code [0, flag, c] n c"
| rc_long_color: "flag AND 0xC0 = 0xC0 \<Longrightarrow> n = unat (flag AND 0x3F) * 256 + unat low \<Longrightarrow> 0 < n \<Longrightarrow>
    run_code [0, flag, low, c] n c"

inductive runs_code :: "8 word list \<Rightarrow> 8 word list \<Rightarrow> bool" where
  runs_none: "runs_code [] []"
| runs_more: "run_code code n c \<Longrightarrow> runs_code bs ps \<Longrightarrow> runs_code (code @ bs) (replicate n c @ ps)"

inductive image_code :: "nat \<Rightarrow> nat \<Rightarrow> 8 word list \<Rightarrow> 8 word list \<Rightarrow> bool" for width :: nat where
  image_none: "image_code width 0 [] []"
| image_row: "runs_code bs ps \<Longrightarrow> length ps \<le> width \<Longrightarrow> image_code width height rest img \<Longrightarrow>
    image_code width (Suc height) (bs @ [0, 0] @ rest) (ps @ replicate (width - length ps) 0 @ img)"
| image_open_row: "runs_code bs ps \<Longrightarrow> length ps = width \<Longrightarrow> image_code width 1 bs ps"

text \<open>The same language read from the middle of a row: \<open>rows\<close> remain, \<open>column\<close> pixels are placed.\<close>

inductive rest_code :: "nat \<Rightarrow> nat \<Rightarrow> nat \<Rightarrow> 8 word list \<Rightarrow> 8 word list \<Rightarrow> bool" for width :: nat where
  rest_done: "rest_code width 0 0 [] []"
| rest_full: "rest_code width 1 width [] []"
| rest_run: "run_code code n c \<Longrightarrow> column + n \<le> width \<Longrightarrow> rest_code width (Suc rows) (column + n) bs ps \<Longrightarrow>
    rest_code width (Suc rows) column (code @ bs) (replicate n c @ ps)"
| rest_eol: "column \<le> width \<Longrightarrow> rest_code width rows 0 bs ps \<Longrightarrow>
    rest_code width (Suc rows) column (0 # 0 # bs) (replicate (width - column) 0 @ ps)"

section \<open>The decoder accepts exactly the grammar\<close>

lemma shifted_or: "lo < 256 \<Longrightarrow> push_bit 8 (hi :: nat) OR lo = hi * 256 + lo"
proof -
  assume "lo < 256"
  then have lo: "take_bit 8 lo = lo" by (simp add: take_bit_nat_eq_self)
  have "push_bit 8 hi + take_bit 8 lo = push_bit 8 hi OR take_bit 8 lo"
    by (rule disjunctive_add) (auto simp: bit_simps)
  then show ?thesis by (simp add: push_bit_eq_mult lo)
qed

declare unat_byte [simp]

lemma flag_form:
  fixes flag :: "8 word"
  shows "flag AND 0xC0 = 0x00 \<or> flag AND 0xC0 = 0x40 \<or> flag AND 0xC0 = 0x80 \<or> flag AND 0xC0 = 0xC0"
proof -
  have "\<forall>a b. let w = (if a then 0x80 else 0) OR (if b then 0x40 else (0 :: 8 word))
              in w = 0x00 \<or> w = 0x40 \<or> w = 0x80 \<or> w = 0xC0"
    by (auto simp: Let_def)
  moreover have "flag AND 0xC0 = (if bit flag 7 then 0x80 else 0) OR (if bit flag 6 then 0x40 else 0)"
    by (rule bit_word_eqI) (auto simp: bit_simps less_Suc_eq numeral_eq_Suc)
  ultimately show ?thesis by (metis (no_types))
qed

lemma run_code_pos: "run_code code n c \<Longrightarrow> 0 < n"
  by (induction rule: run_code.induct) simp_all

lemma byte_at_Some: "byte_at rle i = Some b \<longleftrightarrow> i < length rle \<and> rle ! i = b"
  by (auto simp: byte_at_def)

lemma byte_at_drop: "drop i rle = b # rest \<Longrightarrow> byte_at rle i = Some b"
proof -
  assume d: "drop i rle = b # rest"
  then have i: "i < length rle" by (metis drop_all leI list.distinct(1))
  then show ?thesis using d by (simp add: byte_at_def Cons_nth_drop_Suc [symmetric])
qed

lemma drop_byte: "byte_at rle i = Some b \<Longrightarrow> drop i rle = b # drop (Suc i) rle"
  by (auto simp: byte_at_Some Cons_nth_drop_Suc)

lemma drop_next: "drop i rle = b # rest \<Longrightarrow> drop (Suc i) rle = rest"
  by (metis drop_Suc tl_drop list.sel(3))

lemma run_of_flag_sound:
  assumes "run_of_flag rle flag i = Inr (n, c, j)" and "0 < n"
  obtains args where "run_code (0 # flag # args) n c" "drop i rle = args @ drop j rle" "j = i + length args"
proof (cases "flag AND 0xC0 = 0x00 \<or> flag AND 0xC0 = 0x80")
  case True
  then show thesis
  proof
    assume "flag AND 0xC0 = 0x00"
    then show thesis using assms by (intro that [of "[]"]) (auto simp: run_of_flag_def Let_def intro: rc_short_clear)
  next
    assume f: "flag AND 0xC0 = 0x80"
    then obtain col where "byte_at rle i = Some col" "c = col" "n = unat (flag AND 0x3F)" "j = Suc i"
      using assms by (auto simp: run_of_flag_def Let_def split: option.splits)
    then show thesis using f assms(2) by (intro that [of "[col]"]) (auto intro: rc_short_color dest: drop_byte)
  qed
next
  case False
  then show thesis
  proof (cases "flag AND 0xC0 = 0x40")
    case True
    then obtain lo where "byte_at rle i = Some lo" "c = 0" "n = unat (flag AND 0x3F) * 256 + unat lo" "j = Suc i"
      using assms by (auto simp: run_of_flag_def Let_def shifted_or split: option.splits)
    then show thesis using True assms(2) by (intro that [of "[lo]"]) (auto intro: rc_long_clear dest: drop_byte)
  next
    case no40: False
    with False have f: "flag AND 0xC0 = 0xC0" using flag_form [of flag] by blast
    then obtain lo col where "byte_at rle i = Some lo" "byte_at rle (Suc i) = Some col" "c = col"
        "n = unat (flag AND 0x3F) * 256 + unat lo" "j = i + 2"
      using assms by (auto simp: run_of_flag_def Let_def shifted_or split: option.splits)
    then show thesis using f assms(2)
      by (intro that [of "[lo, col]"]) (auto intro: rc_long_color dest!: drop_byte)
  qed
qed

lemma run_of_flag_complete:
  assumes "run_code (0 # flag # args) n c" and "drop i rle = args @ rest"
  shows "flag \<noteq> 0 \<and> run_of_flag rle flag i = Inr (n, c, i + length args)"
proof -
  have zero: "flag = 0 \<Longrightarrow> flag AND 0xC0 = 0 \<and> unat (flag AND 0x3F) = 0" by simp
  from assms(1) show ?thesis
  proof (cases rule: run_code.cases)
    case rc_short_clear
    then show ?thesis using zero by (auto simp: run_of_flag_def Let_def)
  next
    case (rc_long_clear low)
    then show ?thesis using byte_at_drop [of i rle low rest] assms(2)
      by (auto simp: run_of_flag_def Let_def shifted_or)
  next
    case rc_short_color
    then show ?thesis using byte_at_drop [of i rle c rest] assms(2) by (auto simp: run_of_flag_def Let_def)
  next
    case (rc_long_color low)
    then have d: "drop i rle = low # c # rest" using assms(2) by simp
    then show ?thesis using byte_at_drop [OF d] byte_at_drop [OF drop_next [OF d]] rc_long_color
      by (auto simp: run_of_flag_def Let_def shifted_or)
  qed
qed

text \<open>
  What the loop keeps. In particular \<open>width - column\<close> of the code never wraps.
\<close>

definition cursor_ok :: "nat \<Rightarrow> nat \<Rightarrow> rle_cursor \<Rightarrow> bool" where
  "cursor_ok width height cur \<longleftrightarrow> width \<le> U16_MAX \<and>
     rc_column cur \<le> width \<and> rc_row cur \<le> height \<and> (rc_row cur = height \<longrightarrow> rc_column cur = 0) \<and>
     length (rc_pixels cur) = rc_row cur * width + rc_column cur"

definition after_run :: "nat \<Rightarrow> nat \<Rightarrow> 8 word \<Rightarrow> rle_cursor \<Rightarrow> rle_cursor" where
  "after_run k n c cur = cur\<lparr> rc_pixels := rc_pixels cur @ replicate n c, rc_offset := rc_offset cur + k,
                              rc_column := rc_column cur + n \<rparr>"

definition after_eol :: "nat \<Rightarrow> rle_cursor \<Rightarrow> rle_cursor" where
  "after_eol width cur = cur\<lparr> rc_offset := rc_offset cur + 2, rc_row := rc_row cur + 1, rc_column := 0,
     rc_pixels := rc_pixels cur @ replicate (wrapping_sub_u64 width (rc_column cur)) 0 \<rparr>"

lemma after_fields [simp]:
  "rc_pixels (after_run k n c cur) = rc_pixels cur @ replicate n c"
  "rc_offset (after_run k n c cur) = rc_offset cur + k"
  "rc_row (after_run k n c cur) = rc_row cur" "rc_column (after_run k n c cur) = rc_column cur + n"
  "rc_pixels (after_eol width cur) = rc_pixels cur @ replicate (wrapping_sub_u64 width (rc_column cur)) 0"
  "rc_offset (after_eol width cur) = rc_offset cur + 2"
  "rc_row (after_eol width cur) = rc_row cur + 1" "rc_column (after_eol width cur) = 0"
  by (simp_all add: after_run_def after_eol_def)

lemma cursor_ok_rest: "cursor_ok width height cur \<Longrightarrow> wrapping_sub_u64 width (rc_column cur) = width - rc_column cur"
  by (simp add: cursor_ok_def)

lemma cursor_ok_run:
  "cursor_ok width height cur \<Longrightarrow> rc_row cur < height \<Longrightarrow> rc_column cur + n \<le> width \<Longrightarrow>
   cursor_ok width height (after_run k n c cur)"
  by (simp add: cursor_ok_def)

lemma cursor_ok_eol:
  "cursor_ok width height cur \<Longrightarrow> rc_row cur < height \<Longrightarrow> cursor_ok width height (after_eol width cur)"
  by (auto simp: cursor_ok_def cursor_ok_rest)

lemma push_run_Inr:
  "push_run width n c cur = Inr cur' \<longleftrightarrow>
     rc_column cur + n \<le> USIZE_MAX \<and> rc_column cur + n \<le> width \<and> cur' = after_run 0 n c cur"
  by (auto simp: push_run_def after_run_def split: option.splits)

lemma rle_step_sound:
  assumes step: "rle_step rle width height cur = Inr cur'" and inside: "rc_offset cur < length rle"
  shows "rc_row cur < height \<and>
    ((\<exists>code n c. run_code code n c \<and> drop (rc_offset cur) rle = code @ drop (rc_offset cur') rle \<and>
        rc_column cur + n \<le> width \<and> cur' = after_run (length code) n c cur) \<or>
     drop (rc_offset cur) rle = 0 # 0 # drop (rc_offset cur') rle \<and> cur' = after_eol width cur)"
proof -
  let ?o = "rc_offset cur" and ?cur1 = "cur\<lparr> rc_offset := rc_offset cur + 1 \<rparr>"
  have row: "rc_row cur < height" using step by (simp add: rle_step_def split: if_splits)
  have d: "drop ?o rle = rle ! ?o # drop (Suc ?o) rle" using inside by (simp add: Cons_nth_drop_Suc)
  show ?thesis
  proof (cases "rle ! ?o = 0")
    case False
    then have "push_run width 1 (rle ! ?o) ?cur1 = Inr cur'" using step row by (simp add: rle_step_def Let_def)
    then have "cur' = after_run 1 1 (rle ! ?o) cur" "rc_column cur + 1 \<le> width"
      by (auto simp: push_run_Inr after_run_def)
    then show ?thesis using row d rc_literal [OF False] by (intro conjI disjI1 exI [of _ "[rle ! ?o]"] exI [of _ 1] exI [of _ "rle ! ?o"]) auto
  next
    case True
    then obtain flag where flag: "byte_at rle (Suc ?o) = Some flag"
      using step row by (auto simp: rle_step_def Let_def split: option.splits)
    have d2: "drop ?o rle = 0 # flag # drop (?o + 2) rle" using d True drop_byte [OF flag] by simp
    show ?thesis
    proof (cases "flag = 0")
      case f: True
      then have "cur' = after_eol width cur" using step row True flag by (simp add: rle_step_def Let_def after_eol_def)
      then show ?thesis using row d2 f by simp
    next
      case f: False
      then obtain n c j where run: "run_of_flag rle flag (?o + 2) = Inr (n, c, j)" and n: "0 < n"
          and push: "push_run width n c (?cur1\<lparr> rc_offset := j \<rparr>) = Inr cur'"
        using step row True flag by (auto simp: rle_step_def Let_def split: sum.splits if_splits)
      obtain args where args: "run_code (0 # flag # args) n c" "drop (?o + 2) rle = args @ drop j rle"
          "j = ?o + 2 + length args"
        using run_of_flag_sound [OF run n] .
      have "cur' = after_run (length (0 # flag # args)) n c cur" "rc_column cur + n \<le> width"
        using push args(3) by (auto simp: push_run_Inr after_run_def)
      then show ?thesis using row d2 args by (intro conjI disjI1 exI [of _ "0 # flag # args"] exI [of _ n] exI [of _ c]) auto
    qed
  qed
qed

lemma run_code_shape:
  "run_code code n c \<Longrightarrow> (c \<noteq> 0 \<and> code = [c] \<and> n = 1) \<or> (\<exists>flag args. code = 0 # flag # args)"
  by (induction rule: run_code.induct) auto

lemma drop_cons_length: "drop i xs = y # ys \<Longrightarrow> i < length xs \<and> xs ! i = y"
  by (metis drop_all leI list.distinct(1) Cons_nth_drop_Suc list.inject)

lemma rle_step_run:
  assumes "run_code code n c" "drop (rc_offset cur) rle = code @ rest" "rc_row cur < height"
    "rc_column cur + n \<le> width" "width \<le> U16_MAX"
  shows "rle_step rle width height cur = Inr (after_run (length code) n c cur)"
  using run_code_shape [OF assms(1)]
proof
  assume lit: "c \<noteq> 0 \<and> code = [c] \<and> n = 1"
  then have "rle ! rc_offset cur = c" using drop_cons_length assms(2) by fastforce
  then show ?thesis using lit assms(3-5) by (simp add: rle_step_def Let_def push_run_Inr after_run_def)
next
  assume "\<exists>flag args. code = 0 # flag # args"
  then obtain flag args where code: "code = 0 # flag # args" by blast
  have d: "drop (rc_offset cur) rle = 0 # flag # args @ rest" using assms(2) code by simp
  have d2: "drop (Suc (Suc (rc_offset cur))) rle = args @ rest" using drop_next [OF drop_next [OF d]] .
  let ?cur2 = "cur\<lparr> rc_offset := Suc (Suc (rc_offset cur)) + length args \<rparr>"
  have form: "flag \<noteq> 0" "run_of_flag rle flag (Suc (Suc (rc_offset cur))) = Inr (n, c, Suc (Suc (rc_offset cur)) + length args)"
    using run_of_flag_complete [OF assms(1) [unfolded code] d2] by simp_all
  have bytes: "rle ! rc_offset cur = 0" "byte_at rle (Suc (rc_offset cur)) = Some flag"
    using drop_cons_length [OF d] byte_at_drop [OF drop_next [OF d]] by simp_all
  have "push_run width n c ?cur2 = Inr (after_run 0 n c ?cur2)"
    using assms(4,5) by (simp add: push_run_Inr)
  moreover have "after_run 0 n c ?cur2 = after_run (length code) n c cur" by (simp add: after_run_def code)
  ultimately show ?thesis using form bytes assms(3) run_code_pos [OF assms(1)] by (simp add: rle_step_def Let_def)
qed

lemma rle_step_eol:
  assumes "drop (rc_offset cur) rle = 0 # 0 # rest" "rc_row cur < height"
  shows "rle_step rle width height cur = Inr (after_eol width cur)"
  using drop_cons_length [OF assms(1)] byte_at_drop [OF drop_next [OF assms(1)]] assms(2)
  by (simp add: rle_step_def Let_def after_eol_def)

lemma rle_loop_sound:
  "rle_loop rle width height cur = Inr cur' \<Longrightarrow> rle_finish width height pixel_total cur' = Inr img \<Longrightarrow>
   cursor_ok width height cur \<Longrightarrow>
   \<exists>ps. img = rc_pixels cur @ ps \<and> rest_code width (height - rc_row cur) (rc_column cur) (drop (rc_offset cur) rle) ps"
proof (induction rle width height cur rule: rle_loop.induct)
  case (1 rle width height cur)
  show ?case
  proof (cases "rc_offset cur < length rle")
    case False
    then have "cur' = cur" "drop (rc_offset cur) rle = []" using "1.prems"(1) by (simp_all add: rle_loop.simps)
    then show ?thesis using "1.prems"(2) rest_done rest_full [of width]
      by (auto simp: rle_finish_def Let_def split: if_splits)
  next
    case True
    then obtain nxt where nxt: "rle_step rle width height cur = Inr nxt" "rle_loop rle width height nxt = Inr cur'"
      using "1.prems"(1) by (subst (asm) rle_loop.simps) (auto split: sum.splits)
    note IH = "1.IH" [OF True nxt(1) nxt(2) "1.prems"(2)]
    have row: "rc_row cur < height" using rle_step_sound [OF nxt(1) True] by simp
    then obtain r where r: "height - rc_row cur = Suc r" "height - Suc (rc_row cur) = r"
      by (metis Suc_diff_Suc)
    from rle_step_sound [OF nxt(1) True] show ?thesis
    proof (elim conjE disjE exE)
      fix code n c
      assume run: "run_code code n c" "drop (rc_offset cur) rle = code @ drop (rc_offset nxt) rle"
        "rc_column cur + n \<le> width" "nxt = after_run (length code) n c cur"
      then obtain ps where ps: "img = rc_pixels nxt @ ps"
          "rest_code width (Suc r) (rc_column cur + n) (drop (rc_offset nxt) rle) ps"
        using IH cursor_ok_run [OF "1.prems"(3) row] r by auto
      show ?thesis using rest_run [OF run(1,3) ps(2)] ps(1) run r by auto
    next
      assume eol: "drop (rc_offset cur) rle = 0 # 0 # drop (rc_offset nxt) rle" "nxt = after_eol width cur"
      then obtain ps where ps: "img = rc_pixels nxt @ ps" "rest_code width r 0 (drop (rc_offset nxt) rle) ps"
        using IH cursor_ok_eol [OF "1.prems"(3) row] r by auto
      have "rc_column cur \<le> width" using "1.prems"(3) by (simp add: cursor_ok_def)
      then show ?thesis using rest_eol [OF _ ps(2)] ps(1) eol r by (auto simp: cursor_ok_rest [OF "1.prems"(3)])
    qed
  qed
qed

lemma rle_loop_complete:
  "rest_code width rows column bs ps \<Longrightarrow> width \<le> U16_MAX \<Longrightarrow> cursor_ok width height cur \<Longrightarrow>
   rows = height - rc_row cur \<Longrightarrow> column = rc_column cur \<Longrightarrow> drop (rc_offset cur) rle = bs \<Longrightarrow>
   \<exists>cur'. rle_loop rle width height cur = Inr cur' \<and>
          rle_finish width height (width * height) cur' = Inr (rc_pixels cur @ ps)"
proof (induction arbitrary: cur rule: rest_code.induct)
  case rest_done
  then show ?case by (auto simp: rle_loop.simps rle_finish_def Let_def cursor_ok_def)
next
  case rest_full
  then have "height = Suc (rc_row cur)" by simp
  then show ?case using rest_full by (auto simp: rle_loop.simps rle_finish_def Let_def cursor_ok_def)
next
  case (rest_run code n c column rows bs ps)
  let ?next = "after_run (length code) n c cur"
  have row: "rc_row cur < height" using rest_run.prems(3) by simp
  have in_rle: "rc_offset cur < length rle"
    using rest_run.hyps(1) rest_run.prems(5) run_code_shape drop_cons_length by fastforce
  have step: "rle_step rle width height cur = Inr ?next"
    using rle_step_run [OF rest_run.hyps(1) rest_run.prems(5) row] rest_run by simp
  have "drop (rc_offset ?next) rle = bs"
    using rest_run.prems(5) by (metis after_fields(2) add.commute append_eq_conv_conj drop_drop)
  moreover have "cursor_ok width height ?next"
    using cursor_ok_run [OF rest_run.prems(2) row] rest_run.hyps(2) rest_run.prems(4) by simp
  ultimately obtain cur' where "rle_loop rle width height ?next = Inr cur'"
      "rle_finish width height (width * height) cur' = Inr (rc_pixels ?next @ ps)"
    using rest_run.IH [of ?next] rest_run.prems(1,3,4) by auto
  moreover have "rle_loop rle width height cur = rle_loop rle width height ?next"
    using step in_rle by (subst rle_loop.simps) simp
  ultimately show ?case by simp
next
  case (rest_eol column rows bs ps)
  let ?next = "after_eol width cur"
  have row: "rc_row cur < height" using rest_eol.prems(3) by simp
  have in_rle: "rc_offset cur < length rle" using drop_cons_length [OF rest_eol.prems(5)] ..
  have step: "rle_step rle width height cur = Inr ?next" using rle_step_eol [OF rest_eol.prems(5) row] .
  have "drop (rc_offset ?next) rle = bs"
    using drop_next [OF drop_next [OF rest_eol.prems(5)]] unfolding after_fields by simp
  moreover have "rows = height - rc_row ?next" "0 = rc_column ?next" using rest_eol.prems(3) by simp_all
  ultimately obtain cur' where "rle_loop rle width height ?next = Inr cur'"
      "rle_finish width height (width * height) cur' = Inr (rc_pixels ?next @ ps)"
    using rest_eol.IH [OF rest_eol.prems(1) cursor_ok_eol [OF rest_eol.prems(2) row]] by blast
  moreover have "rle_loop rle width height cur = rle_loop rle width height ?next"
    using step in_rle by (subst rle_loop.simps) simp
  ultimately show ?case using rest_eol.prems(4) by (simp add: cursor_ok_rest [OF rest_eol.prems(2)])
qed

text \<open>Rows and their runs: the two readings of the grammar agree.\<close>

lemma runs_code_snoc: "runs_code bs ps \<Longrightarrow> run_code code n c \<Longrightarrow> runs_code (bs @ code) (ps @ replicate n c)"
proof (induction rule: runs_code.induct)
  case runs_none
  then show ?case using runs_more [OF _ runs_code.runs_none] by fastforce
next
  case (runs_more code' n' c' bs ps)
  then show ?case using runs_code.runs_more [OF runs_more.hyps(1)] by simp
qed

lemma runs_code_empty: "runs_code bs [] \<Longrightarrow> bs = []"
  by (cases rule: runs_code.cases) (auto dest: run_code_pos)

lemma rest_is_image:
  "rest_code width rows column bs ps \<Longrightarrow> runs_code pre q \<Longrightarrow> length q = column \<Longrightarrow>
   image_code width rows (pre @ bs) (q @ ps)"
proof (induction arbitrary: pre q rule: rest_code.induct)
  case rest_done
  then show ?case using image_none runs_code_empty [of pre] by simp
next
  case rest_full
  then show ?case using image_open_row by simp
next
  case (rest_run code n c column rows bs ps)
  then show ?case using rest_run.IH [OF runs_code_snoc [OF rest_run.prems(1) rest_run.hyps(1)]] by simp
next
  case (rest_eol column rows bs ps)
  then show ?case using image_row [OF rest_eol.prems(1) _ rest_eol.IH [OF runs_none]] by simp
qed

lemma runs_then_rest:
  "runs_code bs ps \<Longrightarrow> column + length ps \<le> width \<Longrightarrow>
   rest_code width (Suc rows) (column + length ps) rest img \<Longrightarrow>
   rest_code width (Suc rows) column (bs @ rest) (ps @ img)"
proof (induction arbitrary: column rule: runs_code.induct)
  case (runs_more code n c bs ps)
  have "rest_code width (Suc rows) (column + n) (bs @ rest) (ps @ img)"
    using runs_more.IH [of "column + n"] runs_more.prems by (simp add: add.assoc)
  then show ?case using rest_run [OF runs_more.hyps(1)] runs_more.prems(1) by simp
qed simp

lemma image_is_rest: "image_code width height bs ps \<Longrightarrow> rest_code width height 0 bs ps"
proof (induction rule: image_code.induct)
  case (image_row bs ps height rest img)
  then show ?case using runs_then_rest [OF image_row.hyps(1), of 0 width height] rest_eol [OF image_row.hyps(2)]
    by simp
next
  case (image_open_row bs ps)
  then show ?case using runs_then_rest [OF image_open_row.hyps(1), of 0 width 0 "[]" "[]"] rest_full [of width]
    by simp
qed (rule rest_done)

lemma image_code_length: "image_code width height bs img \<Longrightarrow> length img = width * height"
  by (induction rule: image_code.induct) simp_all

lemma unat16: "unat (w :: 16 word) \<le> U16_MAX"
  using unsigned_less [where ?'a = nat, of w] by simp

lemma product_fits: "checked_mul_usize (unat (w :: 16 word)) (unat (h :: 16 word)) = Some (unat w * unat h)"
proof -
  have "unat w * unat h \<le> U16_MAX * U16_MAX" using unat16 by (rule mult_le_mono) (rule unat16)
  then show ?thesis by (simp add: checked_mul_usize_def)
qed

lemma decode_as_image: "decode_rle_strict rle width height = Inr img \<longleftrightarrow> image_code (unat width) (unat height) rle img"
proof
  let ?w = "unat width" and ?h = "unat height"
  have start: "cursor_ok ?w ?h rle_start" using unat16 [of width] by (simp add: cursor_ok_def rle_start_def)
  {
    assume "decode_rle_strict rle width height = Inr img"
    then obtain cur where "rle_loop rle ?w ?h rle_start = Inr cur" "rle_finish ?w ?h (?w * ?h) cur = Inr img"
      by (auto simp: decode_rle_strict_def product_fits split: sum.splits)
    then have "rest_code ?w ?h 0 rle img" using rle_loop_sound [OF _ _ start] by (auto simp: rle_start_def)
    then show "image_code ?w ?h rle img" using rest_is_image [OF _ runs_none] by fastforce
  }
  assume code: "image_code ?w ?h rle img"
  have "\<exists>cur. rle_loop rle ?w ?h rle_start = Inr cur \<and>
          rle_finish ?w ?h (?w * ?h) cur = Inr (rc_pixels rle_start @ img)"
    by (rule rle_loop_complete [OF image_is_rest [OF code] unat16 start]) (simp_all add: rle_start_def)
  then show "decode_rle_strict rle width height = Inr img"
    by (auto simp: decode_rle_strict_def product_fits) (simp add: rle_start_def)
qed

text \<open>C14: The strict run-length decoder accepts exactly the byte strings of the PGS bitmap grammar and
  answers the image they spell; every other input is an error.\<close>

theorem decode_rle_grammar:
  "decode_rle_strict rle width height = Inr img \<longleftrightarrow> image_code (unat width) (unat height) rle img"
  by (rule decode_as_image)

section \<open>Rounds\<close>

text \<open>The loop with a bound on its rounds; \<open>None\<close> when they run out.\<close>

fun rle_rounds :: "nat \<Rightarrow> 8 word list \<Rightarrow> nat \<Rightarrow> nat \<Rightarrow> rle_cursor \<Rightarrow> (adapter_error + rle_cursor) option" where
  "rle_rounds 0 rle width height cur = (if rc_offset cur < length rle then None else Some (Inr cur))"
| "rle_rounds (Suc n) rle width height cur =
     (if rc_offset cur < length rle then
        (case rle_step rle width height cur of
           Inl e \<Rightarrow> Some (Inl e)
         | Inr cur' \<Rightarrow> rle_rounds n rle width height cur')
      else Some (Inr cur))"

lemma rle_rounds_enough:
  "length rle \<le> rc_offset cur + n \<Longrightarrow> rle_rounds n rle width height cur = Some (rle_loop rle width height cur)"
proof (induction n arbitrary: cur)
  case (Suc n)
  show ?case
  proof (cases "rle_step rle width height cur")
    case (Inr cur')
    then show ?thesis using Suc.IH [of cur'] Suc.prems rle_step_advances [OF Inr] by (simp add: rle_loop.simps [of rle width height cur])
  qed (simp add: rle_loop.simps [of rle width height cur])
qed (simp add: rle_loop.simps)

text \<open>C32: The decoding loop always comes to its end: every round consumes input, so it needs no more rounds than
  the bitmap has bytes, whatever the bytes are.\<close>

theorem rle_ends_within_its_bytes:
  "\<exists>n r. n \<le> length rle \<and> rle_rounds n rle width height rle_start = Some r \<and> r = rle_loop rle width height rle_start"
  using rle_rounds_enough [of rle rle_start "length rle"] by (auto simp: rle_start_def)

section \<open>Every image has a code\<close>

text \<open>
  A reference encoder: each row is cut into maximal runs of at most 16383 pixels, each written
  in its shortest form, and closed by an end marker.
\<close>

definition encode_run :: "nat \<Rightarrow> 8 word \<Rightarrow> 8 word list" where
  "encode_run n c =
     (if c \<noteq> 0 \<and> n = 1 then [c]
      else if c = 0 \<and> n < 64 then [0, word_of_nat n]
      else if c = 0 then [0, 0x40 OR word_of_nat (n div 256), word_of_nat n]
      else if n < 64 then [0, 0x80 OR word_of_nat n, c]
      else [0, 0xC0 OR word_of_nat (n div 256), word_of_nat n, c])"

function encode_row :: "8 word list \<Rightarrow> 8 word list" where
  "encode_row [] = []"
| "encode_row (c # cs) =
     (let n = min 16383 (Suc (length (takeWhile (\<lambda>d. d = c) cs))) in
      encode_run n c @ encode_row (drop n (c # cs)))"
  by pat_completeness auto
termination by (relation "measure length") auto

definition encode_image :: "8 word list list \<Rightarrow> 8 word list" where
  "encode_image rows = concat (map (\<lambda>row. encode_row row @ [0, 0]) rows)"

lemma nat_bit_bound: "(k :: nat) < 2 ^ m \<Longrightarrow> bit k i \<Longrightarrow> i < m"
proof (rule ccontr)
  assume k: "k < 2 ^ m" and b: "bit k i" and "\<not> i < m"
  then have "(2 :: nat) ^ m \<le> 2 ^ i" by simp
  with k have "k < 2 ^ i" by linarith
  then have "k div 2 ^ i = 0" by simp
  then show False using b by (simp add: bit_iff_odd)
qed

lemma low_mask_bit: "bit (0x3F :: 8 word) i \<longleftrightarrow> i < 6"
  by (auto simp: numeral_eq_Suc less_Suc_eq dest: bit_imp_le_length)

lemma flag_parts:
  fixes top :: "8 word"
  assumes "k < 64" and "top AND 0x3F = 0"
  shows "(top OR word_of_nat k) AND 0xC0 = top AND 0xC0" and "unat ((top OR word_of_nat k) AND 0x3F) = k"
proof -
  have low: "bit (word_of_nat k :: 8 word) i \<Longrightarrow> i < 6" for i
    using nat_bit_bound [of k 6 i] assms(1) by (simp add: bit_of_nat_iff)
  have high: "bit top i \<Longrightarrow> \<not> i < 6" for i
  proof
    assume "bit top i" "i < 6"
    then have "bit (top AND 0x3F) i" using low_mask_bit [of i] by (auto simp only: bit_and_iff)
    then show False using assms(2) by simp
  qed
  show "(top OR word_of_nat k) AND 0xC0 = top AND 0xC0"
  proof (rule bit_word_eqI)
    fix i assume "i < LENGTH(8)"
    have "bit (0xC0 :: 8 word) i \<Longrightarrow> \<not> i < 6" by (auto simp: numeral_eq_Suc less_Suc_eq)
    then show "bit ((top OR word_of_nat k) AND 0xC0) i = bit (top AND 0xC0) i"
      using low [of i] by (auto simp: bit_and_iff bit_or_iff)
  qed
  have "(top OR word_of_nat k) AND 0x3F = word_of_nat k"
  proof (rule bit_word_eqI)
    fix i
    show "bit ((top OR word_of_nat k) AND 0x3F) i = bit (word_of_nat k :: 8 word) i"
      using low_mask_bit [of i] low [of i] high [of i] by (auto simp only: bit_and_iff bit_or_iff)
  qed
  then show "unat ((top OR word_of_nat k) AND 0x3F) = k" using assms(1) by (simp add: unat_of_nat)
qed

lemma encode_run_code: "0 < n \<Longrightarrow> n \<le> 16383 \<Longrightarrow> run_code (encode_run n c) n c"
proof -
  assume n: "0 < n" "n \<le> 16383"
  then have hi: "n div 256 < 64" by simp
  have lo: "unat (word_of_nat n :: 8 word) = n mod 256" by (simp add: unat_of_nat)
  have split: "n = n div 256 * 256 + n mod 256" by simp
  consider "c \<noteq> 0 \<and> n = 1" | "c = 0" "n < 64" | "c = 0" "\<not> n < 64"
    | "c \<noteq> 0" "n \<noteq> 1" "n < 64" | "c \<noteq> 0" "\<not> n < 64" by blast
  then show ?thesis
  proof cases
    case 2
    then show ?thesis using rc_short_clear [of "word_of_nat n" n] flag_parts [of n 0] n by (simp add: encode_run_def)
  next
    case 3
    then show ?thesis using rc_long_clear [where flag = "0x40 OR word_of_nat (n div 256)" and n = n and low = "word_of_nat n"]
        flag_parts [OF hi, where top = "0x40"] n split lo by (simp add: encode_run_def)
  next
    case 4
    then show ?thesis using rc_short_color [of "0x80 OR word_of_nat n" n c] flag_parts [of n "0x80"] n
      by (simp add: encode_run_def)
  next
    case 5
    then show ?thesis using rc_long_color [where flag = "0xC0 OR word_of_nat (n div 256)" and n = n and low = "word_of_nat n" and c = c]
        flag_parts [OF hi, where top = "0xC0"] n split lo by (simp add: encode_run_def)
  qed (auto simp: encode_run_def intro: rc_literal [simplified])
qed

lemma encode_row_code: "runs_code (encode_row row) row"
proof (induction row rule: encode_row.induct)
  case (2 c cs)
  define n where "n = min 16383 (Suc (length (takeWhile (\<lambda>d. d = c) cs)))"
  have "take n (c # cs) = replicate n c"
  proof (rule nth_equalityI)
    show "length (take n (c # cs)) = length (replicate n c)"
      using length_takeWhile_le [of "\<lambda>d. d = c" cs] by (simp add: n_def)
    fix i assume "i < length (take n (c # cs))"
    then have i: "i < n" by simp
    show "take n (c # cs) ! i = replicate n c ! i"
    proof (cases i)
      case (Suc j)
      then have j: "j < length (takeWhile (\<lambda>d. d = c) cs)" using i by (simp add: n_def)
      then have "cs ! j = c" using nth_mem [OF j] takeWhile_nth [OF j] by (auto dest: set_takeWhileD)
      then show ?thesis using Suc i by simp
    qed (use i in simp)
  qed
  then have row: "c # cs = replicate n c @ drop n (c # cs)" by (metis append_take_drop_id)
  have "run_code (encode_run n c) n c" by (rule encode_run_code) (simp_all add: n_def)
  then have "runs_code (encode_run n c @ encode_row (drop n (c # cs))) (replicate n c @ drop n (c # cs))"
    using 2 [OF n_def] by (rule runs_more)
  then show ?case using row by (simp add: n_def Let_def del: drop_Suc_Cons)
qed (simp add: runs_none)

lemma encode_image_code:
  "\<forall>row \<in> set rows. length row = width \<Longrightarrow> image_code width (length rows) (encode_image rows) (concat rows)"
proof (induction rows)
  case (Cons row rows)
  then show ?case using image_row [OF encode_row_code [of row], of width "length rows"] by (simp add: encode_image_def)
qed (simp add: encode_image_def image_none)

text \<open>C31: Nothing a bitmap can hold is out of the decoder's reach: every image of the declared size has a
  code, and decoding it answers the image.\<close>

theorem decode_encode_image:
  assumes "length rows = unat height" and "\<forall>row \<in> set rows. length row = unat width"
  shows "decode_rle_strict (encode_image rows) width height = Inr (concat rows)"
  using encode_image_code [OF assms(2)] by (simp add: decode_as_image assms(1))

theorem decode_encode_image_witness:
  "decode_rle_strict (encode_image [[1, 1, 0], [2, 3, 3]]) 3 2 = Inr [1, 1, 0, 2, 3, 3]"
  using decode_encode_image [of "[[1, 1, 0], [2, 3, 3]]" 2 3] by simp

end
