(* ===== verification/PgsObjects.thy ===== *)
theory PgsObjects
  imports PgsRle
begin

text \<open>
  Palettes, bitmaps and pixels of the PGS adapter, \<open>crates/plurx-pgs/src/lib.rs\<close>: the cache an
  epoch keeps, the assembly of an object from its fragments, and the crop that becomes RGBA.
  The records \<open>crop_info\<close>, \<open>composition_object\<close>, \<open>palette_entry\<close>, \<open>pds_data\<close>, \<open>ods_data\<close> have
  the fields of the \<open>libpgs\<close> types the code builds or reads.
\<close>

section \<open>Data\<close>

type_synonym u16 = "16 word"

datatype sequence_flag = SeqComplete | SeqFirst | SeqContinuation | SeqLast

record crop_info =
  ci_x :: u16
  ci_y :: u16
  ci_width :: u16
  ci_height :: u16

record composition_object =
  co_object_id :: u16
  co_window_id :: byte
  co_x :: u16
  co_y :: u16
  co_crop :: "crop_info option"

record palette_entry =
  pe_id :: byte
  pe_luminance :: byte
  pe_cr :: byte
  pe_cb :: byte
  pe_alpha :: byte

record pds_data =
  pd_id :: byte
  pd_entries :: "palette_entry list"

record ods_data =
  od_id :: u16
  od_version :: byte
  od_sequence :: sequence_flag
  od_data_length :: nat
  od_width :: "u16 option"
  od_height :: "u16 option"
  od_rle_data :: "byte list"

record parser_limits =
  max_sup_bytes :: nat
  max_display_sets :: nat
  max_segments_per_display_set :: nat
  max_payload_bytes_per_display_set :: nat
  max_canvas_width :: u16
  max_canvas_height :: u16
  max_canvas_pixels :: nat
  max_objects_per_composition :: nat
  max_object_rgba_bytes :: nat
  max_object_rle_bytes :: nat
  max_cached_objects :: nat
  max_cached_pixel_bytes :: nat
  max_palettes :: nat
  max_normalized_rgba_bytes :: nat

definition default_limits :: parser_limits where
  "default_limits = \<lparr>
     max_sup_bytes = 512 * 1024 * 1024, max_display_sets = 250000, max_segments_per_display_set = 512,
     max_payload_bytes_per_display_set = 64 * 1024 * 1024, max_canvas_width = 4096, max_canvas_height = 2160,
     max_canvas_pixels = 8847360, max_objects_per_composition = 64, max_object_rgba_bytes = 36 * 1024 * 1024,
     max_object_rle_bytes = 32 * 1024 * 1024, max_cached_objects = 1024,
     max_cached_pixel_bytes = 128 * 1024 * 1024, max_palettes = 64,
     max_normalized_rgba_bytes = 256 * 1024 * 1024 \<rparr>"

record palette_color =
  pc_y :: byte
  pc_cr :: byte
  pc_cb :: byte
  pc_alpha :: byte

definition default_color :: palette_color where
  "default_color = \<lparr> pc_y = 0, pc_cr = 0, pc_cb = 0, pc_alpha = 0 \<rparr>"

type_synonym palette = "palette_color list"

record stored_object =
  so_width :: u16
  so_height :: u16
  so_pixels :: "byte list"

record pending_object =
  po_version :: byte
  po_width :: u16
  po_height :: u16
  po_expected :: nat
  po_rle :: "byte list"

record normalizer_state =
  ns_palettes :: "(byte \<times> palette) list"
  ns_objects :: "(u16 \<times> stored_object) list"
  ns_cached_pixel_bytes :: nat

definition fresh_normalizer :: normalizer_state where
  "fresh_normalizer = \<lparr> ns_palettes = [], ns_objects = [], ns_cached_pixel_bytes = 0 \<rparr>"

text \<open>The two figures of the report an object raises.\<close>

record object_peaks =
  ob_max_rgba :: nat
  ob_max_rle :: nat

abbreviation object_error :: "object_fault \<Rightarrow> adapter_error" where
  "object_error f \<equiv> Malformed (ObjectFault f)"

abbreviation set_limit :: "set_bound \<Rightarrow> adapter_error" where
  "set_limit l \<equiv> Limit (SetLimit l)"

definition checked_sub_usize :: "nat \<Rightarrow> nat \<Rightarrow> nat option" where
  "checked_sub_usize a b = (if b \<le> a then Some (a - b) else None)"

section \<open>Palettes\<close>

definition set_color :: "palette_entry \<Rightarrow> palette \<Rightarrow> palette" where
  "set_color e p = p[unat (pe_id e) := \<lparr> pc_y = pe_luminance e, pc_cr = pe_cr e, pc_cb = pe_cb e, pc_alpha = pe_alpha e \<rparr>]"

definition apply_palette :: "parser_limits \<Rightarrow> pds_data \<Rightarrow> normalizer_state \<Rightarrow> adapter_error + normalizer_state" where
  "apply_palette limits pds st =
     (if map_of (ns_palettes st) (pd_id pds) = None \<and> max_palettes limits \<le> length (ns_palettes st)
      then Inl (set_limit TooManyPalettes)
      else
        let current = (case map_of (ns_palettes st) (pd_id pds) of
                         None \<Rightarrow> replicate 256 default_color
                       | Some p \<Rightarrow> p) in
        Inr (st\<lparr> ns_palettes := AList.update (pd_id pds) (fold set_color (pd_entries pds) current) (ns_palettes st) \<rparr>))"

section \<open>Objects\<close>

definition first_fragment_shape :: "parser_limits \<Rightarrow> ods_data \<Rightarrow> adapter_error + u16 \<times> u16 \<times> nat" where
  "first_fragment_shape limits ods =
     (case od_width ods of
        None \<Rightarrow> Inl (object_error NoWidth)
      | Some width \<Rightarrow>
     (case od_height ods of
        None \<Rightarrow> Inl (object_error NoHeight)
      | Some height \<Rightarrow>
          if od_data_length ods < 4 then Inl (object_error (DataLengthTooSmall (unat (od_id ods))))
          else and_then (checked_pixels width height) (\<lambda>pixels.
          (case checked_mul_usize pixels 4 of
             None \<Rightarrow> Inl (set_limit ObjectRgbaCounter)
           | Some rgba_bytes \<Rightarrow>
               if width = 0 \<or> height = 0 \<or> max_object_rgba_bytes limits < rgba_bytes
               then Inl (set_limit (ObjectDimensions (unat (od_id ods)) (unat width) (unat height) rgba_bytes))
               else
                 let rle_bytes = od_data_length ods - 4 in
                 if max_object_rle_bytes limits < rle_bytes
                 then Inl (set_limit (ObjectRleBytes (unat (od_id ods)) rle_bytes))
                 else Inr (width, height, rle_bytes)))))"

definition store_object ::
    "parser_limits \<Rightarrow> u16 \<Rightarrow> u16 \<Rightarrow> u16 \<Rightarrow> byte list \<Rightarrow> normalizer_state \<times> object_peaks \<Rightarrow>
     adapter_error + normalizer_state \<times> object_peaks" where
  "store_object limits oid width height rle sp =
     (case sp of (st, peaks) \<Rightarrow>
      and_then (decode_rle_strict rle width height) (\<lambda>pixels.
      (case checked_mul_usize (length pixels) 4 of
         None \<Rightarrow> Inl (set_limit ObjectRgbaCounter)
       | Some rgba_bytes \<Rightarrow>
           if max_object_rgba_bytes limits < rgba_bytes
           then Inl (set_limit (ObjectExpands (unat oid) rgba_bytes))
           else
             let previous_bytes = (case map_of (ns_objects st) oid of None \<Rightarrow> 0 | Some ob \<Rightarrow> length (so_pixels ob)) in
             (case Option.bind (checked_sub_usize (ns_cached_pixel_bytes st) previous_bytes)
                     (\<lambda>bytes. checked_add_usize bytes (length pixels)) of
                None \<Rightarrow> Inl (set_limit CacheCounter)
              | Some next_cached_bytes \<Rightarrow>
                  let next_object_count = length (ns_objects st) + (if map_of (ns_objects st) oid = None then 1 else 0) in
                  if max_cached_objects limits < next_object_count then Inl (set_limit TooManyCachedObjects)
                  else if max_cached_pixel_bytes limits < next_cached_bytes then Inl (set_limit CacheTooLarge)
                  else
                    Inr (st\<lparr> ns_cached_pixel_bytes := next_cached_bytes,
                             ns_objects := AList.update oid
                               \<lparr> so_width = width, so_height = height, so_pixels = pixels \<rparr> (ns_objects st) \<rparr>,
                         \<lparr> ob_max_rgba = max (ob_max_rgba peaks) rgba_bytes,
                           ob_max_rle = max (ob_max_rle peaks) (length rle) \<rparr>)))))"

text \<open>
  One object definition segment. The pending map is local to a display set; an error ends the
  whole normalization, so what it leaves behind is not part of the answer.
\<close>

type_synonym object_world = "(normalizer_state \<times> object_peaks) \<times> (u16 \<times> pending_object) list"

definition complete_object :: "parser_limits \<Rightarrow> ods_data \<Rightarrow> object_world \<Rightarrow> adapter_error + object_world" where
  "complete_object limits ods w =
     and_then (first_fragment_shape limits ods) (\<lambda>(width, height, expected).
       if length (od_rle_data ods) \<noteq> expected
       then Inl (object_error (CompleteLength (unat (od_id ods)) expected (length (od_rle_data ods))))
       else and_then (store_object limits (od_id ods) width height (od_rle_data ods) (fst w)) (\<lambda>sp. Inr (sp, snd w)))"

definition first_fragment :: "parser_limits \<Rightarrow> ods_data \<Rightarrow> object_world \<Rightarrow> adapter_error + object_world" where
  "first_fragment limits ods w =
     and_then (first_fragment_shape limits ods) (\<lambda>(width, height, expected).
       if map_of (snd w) (od_id ods) \<noteq> None then Inl (object_error (TwoFirstFragments (unat (od_id ods))))
       else if expected < length (od_rle_data ods) then Inl (object_error (FirstFragmentTooLong (unat (od_id ods))))
       else Inr (fst w, AList.update (od_id ods)
                          \<lparr> po_version = od_version ods, po_width = width, po_height = height,
                            po_expected = expected, po_rle = od_rle_data ods \<rparr> (snd w)))"

definition later_fragment :: "parser_limits \<Rightarrow> ods_data \<Rightarrow> object_world \<Rightarrow> adapter_error + object_world" where
  "later_fragment limits ods w =
     (case map_of (snd w) (od_id ods) of
        None \<Rightarrow> Inl (object_error (NoFirstFragment (unat (od_id ods))))
      | Some ob \<Rightarrow>
          if po_version ob \<noteq> od_version ods then Inl (object_error (VersionChanged (unat (od_id ods))))
          else
            (case checked_add_usize (length (po_rle ob)) (length (od_rle_data ods)) of
               None \<Rightarrow> Inl (set_limit RleLengthCounter)
             | Some new_len \<Rightarrow>
                 if po_expected ob < new_len \<or> max_object_rle_bytes limits < new_len
                 then Inl (set_limit (RleLengthBound (unat (od_id ods))))
                 else
                   let ob = ob\<lparr> po_rle := po_rle ob @ od_rle_data ods \<rparr> in
                   if od_sequence ods = SeqLast then
                     if length (po_rle ob) \<noteq> po_expected ob
                     then Inl (object_error (LastLength (unat (od_id ods)) (length (po_rle ob)) (po_expected ob)))
                     else and_then (store_object limits (od_id ods) (po_width ob) (po_height ob) (po_rle ob) (fst w))
                            (\<lambda>sp. Inr (sp, AList.delete (od_id ods) (snd w)))
                   else Inr (fst w, AList.update (od_id ods) ob (snd w))))"

definition apply_object_fragment :: "parser_limits \<Rightarrow> ods_data \<Rightarrow> object_world \<Rightarrow> adapter_error + object_world" where
  "apply_object_fragment limits ods w =
     (case od_sequence ods of
        SeqComplete \<Rightarrow> complete_object limits ods w
      | SeqFirst \<Rightarrow> first_fragment limits ods w
      | _ \<Rightarrow> later_fragment limits ods w)"

section \<open>Rectangles and pixels\<close>

definition validate_rect :: "u16 \<Rightarrow> u16 \<Rightarrow> u16 \<Rightarrow> u16 \<Rightarrow> u16 \<Rightarrow> u16 \<Rightarrow> string \<Rightarrow> adapter_error + unit" where
  "validate_rect x y width height bounds_width bounds_height label =
     (if width = 0 \<or> height = 0 \<or> unat bounds_width < unat x + unat width \<or> unat bounds_height < unat y + unat height
      then Inl (Malformed (SetFault (RectOutside label)))
      else Inr ())"

datatype color_matrix = Bt601 | Bt709

definition color_matrix_for :: "u16 \<Rightarrow> color_matrix" where
  "color_matrix_for canvas_height = (if 720 \<le> canvas_height then Bt709 else Bt601)"

definition clamp_byte :: "int \<Rightarrow> byte" where
  "clamp_byte x = word_of_int (max 0 (min 255 x))"

definition matrix_weights :: "color_matrix \<Rightarrow> int \<times> int \<times> int \<times> int" where
  "matrix_weights matrix = (case matrix of Bt601 \<Rightarrow> (409, 100, 208, 516) | Bt709 \<Rightarrow> (459, 55, 136, 541))"

definition ycrcb_to_rgba :: "palette_color \<Rightarrow> color_matrix \<Rightarrow> byte list" where
  "ycrcb_to_rgba color matrix =
     (let c = uint (pc_y color) - 16; d = uint (pc_cb color) - 128; e = uint (pc_cr color) - 128 in
      case matrix_weights matrix of (red_e, green_d, green_e, blue_d) \<Rightarrow>
        [clamp_byte ((298 * c + red_e * e + 128) div 256),
         clamp_byte ((298 * c - green_d * d - green_e * e + 128) div 256),
         clamp_byte ((298 * c + blue_d * d + 128) div 256),
         pc_alpha color])"

text \<open>
  The crop of an object. \<open>crop_y + height\<close> is a sum of \<open>u16\<close>s and wraps; a row slice past the
  end of the pixels, or a palette index past the palette, is a panic (\<open>None\<close>).
\<close>

definition rgba_row :: "stored_object \<Rightarrow> palette \<Rightarrow> color_matrix \<Rightarrow> u16 \<Rightarrow> u16 \<Rightarrow> nat \<Rightarrow> byte list option" where
  "rgba_row ob palette matrix crop_x width y =
     (let start = y * unat (so_width ob) + unat crop_x;
          indices = take (unat width) (drop start (so_pixels ob)) in
      if start + unat width \<le> length (so_pixels ob) \<and> (\<forall>i \<in> set indices. unat i < length palette)
      then Some (concat (map (\<lambda>i. ycrcb_to_rgba (palette ! unat i) matrix) indices))
      else None)"

fun rgba_rows :: "(nat \<Rightarrow> byte list option) \<Rightarrow> nat list \<Rightarrow> byte list option" where
  "rgba_rows row [] = Some []"
| "rgba_rows row (y # ys) =
     (case row y of
        None \<Rightarrow> None
      | Some bytes \<Rightarrow> map_option (\<lambda>rest. bytes @ rest) (rgba_rows row ys))"

definition rgba_crop ::
    "stored_object \<Rightarrow> palette \<Rightarrow> color_matrix \<Rightarrow> u16 \<Rightarrow> u16 \<Rightarrow> u16 \<Rightarrow> u16 \<Rightarrow> byte list option" where
  "rgba_crop ob palette matrix crop_x crop_y width height =
     rgba_rows (rgba_row ob palette matrix crop_x width) [unat crop_y ..< unat (crop_y + height)]"

section \<open>What the cache keeps\<close>

abbreviation pixel_bytes :: "stored_object \<Rightarrow> int" where
  "pixel_bytes ob \<equiv> int (length (so_pixels ob))"

definition object_ok :: "parser_limits \<Rightarrow> stored_object \<Rightarrow> bool" where
  "object_ok limits ob \<longleftrightarrow>
     so_width ob \<noteq> 0 \<and> so_height ob \<noteq> 0 \<and> length (so_pixels ob) = unat (so_width ob) * unat (so_height ob) \<and>
     4 * length (so_pixels ob) \<le> max_object_rgba_bytes limits"

definition palette_ok :: "palette \<Rightarrow> bool" where
  "palette_ok p \<longleftrightarrow> length p = 256"

definition cache_ok :: "parser_limits \<Rightarrow> normalizer_state \<Rightarrow> bool" where
  "cache_ok limits st \<longleftrightarrow>
     distinct (map fst (ns_objects st)) \<and> distinct (map fst (ns_palettes st)) \<and>
     (\<forall>(k, ob) \<in> set (ns_objects st). object_ok limits ob) \<and>
     (\<forall>(k, p) \<in> set (ns_palettes st). palette_ok p) \<and>
     int (ns_cached_pixel_bytes st) = weight pixel_bytes (ns_objects st) \<and>
     ns_cached_pixel_bytes st \<le> max_cached_pixel_bytes limits \<and>
     length (ns_objects st) \<le> max_cached_objects limits \<and> length (ns_palettes st) \<le> max_palettes limits"

definition pending_ok :: "(u16 \<times> pending_object) list \<Rightarrow> bool" where
  "pending_ok pending \<longleftrightarrow>
     distinct (map fst pending) \<and>
     (\<forall>(k, ob) \<in> set pending. po_width ob \<noteq> 0 \<and> po_height ob \<noteq> 0 \<and> length (po_rle ob) \<le> po_expected ob)"

interpretation pixels: nonneg_charge "\<lambda>_. True" pixel_bytes
  by unfold_locales simp

lemma fresh_ok: "cache_ok limits fresh_normalizer"
  by (simp add: cache_ok_def fresh_normalizer_def)

lemma all_update:
  "\<forall>(k, v) \<in> set al. P v \<Longrightarrow> P v' \<Longrightarrow> \<forall>(k, v) \<in> set (AList.update k' v' al). P v"
  using set_update_subset [of k' v' al] by auto

lemma length_update_key:
  "length (AList.update k v al) = length al + (if map_of al k = None then 1 else 0)"
  by (induction al) auto

lemma length_fold_set_color [simp]: "length (fold set_color es p) = length p"
  by (induction es arbitrary: p) (simp_all add: set_color_def)

lemma apply_palette_ok [keeps]:
  "apply_palette limits pds st = Inr st' \<Longrightarrow> cache_ok limits st \<Longrightarrow> cache_ok limits st'"
proof -
  assume app: "apply_palette limits pds st = Inr st'" and ok: "cache_ok limits st"
  obtain p where p: "st' = st\<lparr> ns_palettes := AList.update (pd_id pds) p (ns_palettes st) \<rparr>" "palette_ok p"
  proof (cases "map_of (ns_palettes st) (pd_id pds)")
    case None
    then show thesis using app that by (auto simp: apply_palette_def palette_ok_def Let_def split: if_splits)
  next
    case (Some q)
    then have "palette_ok q" using ok by (auto simp: cache_ok_def dest: map_of_SomeD)
    then show thesis using app that Some by (auto simp: apply_palette_def palette_ok_def Let_def split: if_splits)
  qed
  have "length (AList.update (pd_id pds) p (ns_palettes st)) \<le> max_palettes limits"
    using app ok by (auto simp: apply_palette_def length_update_key cache_ok_def split: if_splits)
  then show ?thesis
    using ok p by (auto simp: cache_ok_def intro!: distinct_update_keys dest: set_update_subset [THEN subsetD])
qed

lemma store_object_fields:
  assumes "store_object limits oid width height rle (st, peaks) = Inr (st', peaks')"
  obtains pixels where "decode_rle_strict rle width height = Inr pixels"
    "st' = st\<lparr> ns_cached_pixel_bytes :=
               ns_cached_pixel_bytes st -
                 (case map_of (ns_objects st) oid of None \<Rightarrow> 0 | Some ob \<Rightarrow> length (so_pixels ob)) + length pixels,
             ns_objects := AList.update oid \<lparr> so_width = width, so_height = height, so_pixels = pixels \<rparr> (ns_objects st) \<rparr>"
    "4 * length pixels \<le> max_object_rgba_bytes limits"
    "ns_cached_pixel_bytes st' \<le> max_cached_pixel_bytes limits" "length (ns_objects st') \<le> max_cached_objects limits"
  using assms
  by (auto simp: store_object_def and_then_Inr Let_def length_update_key checked_mul_usize_def
      split: option.splits if_splits simp: checked_sub_usize_def)

lemma decoded_length: "decode_rle_strict rle width height = Inr px \<Longrightarrow> length px = unat width * unat height"
  by (simp add: decode_as_image image_code_length)

lemma store_object_ok [keeps]:
  assumes st: "store_object limits oid width height rle (st, peaks) = Inr (st', peaks')" and ok: "cache_ok limits st"
    and size: "width \<noteq> 0" "height \<noteq> 0"
  shows "cache_ok limits st'"
proof -
  obtain px where px: "decode_rle_strict rle width height = Inr px"
    "st' = st\<lparr> ns_cached_pixel_bytes :=
               ns_cached_pixel_bytes st -
                 (case map_of (ns_objects st) oid of None \<Rightarrow> 0 | Some ob \<Rightarrow> length (so_pixels ob)) + length px,
             ns_objects := AList.update oid \<lparr> so_width = width, so_height = height, so_pixels = px \<rparr> (ns_objects st) \<rparr>"
    "4 * length px \<le> max_object_rgba_bytes limits"
    "ns_cached_pixel_bytes st' \<le> max_cached_pixel_bytes limits" "length (ns_objects st') \<le> max_cached_objects limits"
    using store_object_fields [OF st] .
  let ?ob = "\<lparr> so_width = width, so_height = height, so_pixels = px \<rparr>"
  have ob: "object_ok limits ?ob" using size px(3) decoded_length [OF px(1)] by (simp add: object_ok_def)
  have w: "int (ns_cached_pixel_bytes st) = weight pixel_bytes (ns_objects st)" using ok by (simp add: cache_ok_def)
  have "int (ns_cached_pixel_bytes st') = weight pixel_bytes (ns_objects st')"
  proof (cases "map_of (ns_objects st) oid")
    case None
    then show ?thesis using px(2) w by (simp add: weight_update_None)
  next
    case (Some old)
    have "pixel_bytes old \<le> int (ns_cached_pixel_bytes st)"
      unfolding w by (rule pixels.weight_ge [OF _ Some]) auto
    then show ?thesis using px(2) w Some by (simp add: weight_update_Some [OF Some])
  qed
  moreover have "\<forall>(k, ob) \<in> set (ns_objects st'). object_ok limits ob"
  proof -
    have "\<forall>(k, ob) \<in> set (ns_objects st). object_ok limits ob" using ok by (simp add: cache_ok_def)
    from all_update [where P = "object_ok limits", OF this ob] show ?thesis by (simp add: px(2))
  qed
  ultimately show ?thesis using ok px(2,4,5) by (simp add: cache_ok_def distinct_update_keys)
qed

lemma shape_nonzero:
  "first_fragment_shape limits ods = Inr (width, height, expected) \<Longrightarrow>
   width \<noteq> 0 \<and> height \<noteq> 0 \<and> expected = od_data_length ods - 4 \<and> 4 \<le> od_data_length ods \<and>
   expected \<le> max_object_rle_bytes limits"
  by (auto simp: first_fragment_shape_def and_then_Inr Let_def split: option.splits if_splits)

definition object_world_ok :: "parser_limits \<Rightarrow> object_world \<Rightarrow> bool" where
  "object_world_ok limits w \<longleftrightarrow> cache_ok limits (fst (fst w)) \<and> pending_ok (snd w)"

lemma complete_object_ok:
  "complete_object limits ods w = Inr w' \<Longrightarrow> object_world_ok limits w \<Longrightarrow> object_world_ok limits w'"
  by (cases "fst w")
    (auto simp: complete_object_def and_then_Inr object_world_ok_def split: if_splits dest!: shape_nonzero intro: store_object_ok)

lemma first_fragment_ok:
  "first_fragment limits ods w = Inr w' \<Longrightarrow> object_world_ok limits w \<Longrightarrow> object_world_ok limits w'"
  by (auto simp: first_fragment_def and_then_Inr object_world_ok_def pending_ok_def distinct_update_keys split: if_splits
      dest!: shape_nonzero set_update_subset [THEN subsetD])

lemma later_fragment_ok:
  assumes step: "later_fragment limits ods w = Inr w'" and ok: "object_world_ok limits w"
  shows "object_world_ok limits w'"
proof -
  obtain ob where ob: "map_of (snd w) (od_id ods) = Some ob" using step by (auto simp: later_fragment_def split: option.splits)
  then have in_w: "po_width ob \<noteq> 0" "po_height ob \<noteq> 0"
    using ok by (auto simp: object_world_ok_def pending_ok_def dest!: map_of_SomeD)
  let ?ob = "ob\<lparr> po_rle := po_rle ob @ od_rle_data ods \<rparr>"
  have len: "length (po_rle ?ob) \<le> po_expected ?ob"
    using step ob by (auto simp: later_fragment_def split: option.splits if_splits)
  show ?thesis
  proof (cases "od_sequence ods = SeqLast")
    case True
    then obtain sp where "store_object limits (od_id ods) (po_width ob) (po_height ob) (po_rle ?ob) (fst w) = Inr sp"
        "w' = (sp, AList.delete (od_id ods) (snd w))"
      using step ob by (auto simp: later_fragment_def and_then_Inr Let_def split: option.splits if_splits)
    then show ?thesis using ok in_w store_object_ok [of limits _ _ _ _ "fst (fst w)" "snd (fst w)" "fst sp" "snd sp"]
      by (auto simp: object_world_ok_def pending_ok_def distinct_delete_keys dest!: set_delete_subset [THEN subsetD])
  next
    case False
    then have "w' = (fst w, AList.update (od_id ods) ?ob (snd w))"
      using step ob by (auto simp: later_fragment_def Let_def split: option.splits if_splits)
    then show ?thesis using ok in_w len
      by (auto simp: object_world_ok_def pending_ok_def distinct_update_keys dest!: set_update_subset [THEN subsetD])
  qed
qed

lemma apply_object_fragment_ok [keeps]:
  "apply_object_fragment limits ods w = Inr w' \<Longrightarrow> object_world_ok limits w \<Longrightarrow> object_world_ok limits w'"
  by (cases "od_sequence ods")
    (auto simp: apply_object_fragment_def intro: complete_object_ok first_fragment_ok later_fragment_ok)

section \<open>An object in fragments is the object\<close>

text \<open>The segments of an object cut into \<open>first # mid @ [last]\<close>, as \<open>libpgs\<close> reads them back.\<close>

definition later_part :: "ods_data \<Rightarrow> sequence_flag \<Rightarrow> byte list \<Rightarrow> ods_data" where
  "later_part ods seq chunk = ods\<lparr> od_sequence := seq, od_rle_data := chunk, od_data_length := 0,
                                  od_width := None, od_height := None \<rparr>"

definition split_object :: "ods_data \<Rightarrow> byte list \<Rightarrow> byte list list \<Rightarrow> byte list \<Rightarrow> ods_data list" where
  "split_object ods first mid final =
     ods\<lparr> od_sequence := SeqFirst, od_rle_data := first \<rparr> #
     map (later_part ods SeqContinuation) mid @ [later_part ods SeqLast final]"

fun apply_fragments :: "parser_limits \<Rightarrow> ods_data list \<Rightarrow> object_world \<Rightarrow> adapter_error + object_world" where
  "apply_fragments limits [] w = Inr w"
| "apply_fragments limits (ods # odss) w =
     and_then (apply_object_fragment limits ods w) (apply_fragments limits odss)"

lemma and_then_assoc: "and_then (and_then r f) g = and_then r (\<lambda>x. and_then (f x) g)"
  by (cases r) simp_all

lemma apply_fragments_append:
  "apply_fragments limits (xs @ ys) w = and_then (apply_fragments limits xs w) (apply_fragments limits ys)"
proof (induction xs arbitrary: w)
  case (Cons ods xs)
  then show ?case by (cases "apply_object_fragment limits ods w") simp_all
qed simp

lemma update_update: "AList.update k v (AList.update k u al) = AList.update k v al"
  by (induction al) auto

lemma delete_update: "map_of al k = None \<Longrightarrow> AList.delete k (AList.update k v al) = al"
  by (induction al) (auto simp: AList.delete_eq)

lemma update_other [simp]: "map_of (AList.update k v al) k = Some v"
  by (simp add: update_conv')

lemma continuations:
  assumes "po_expected ob \<le> max_object_rle_bytes limits" "po_expected ob \<le> U32_MAX" "po_version ob = od_version ods"
  shows "length (po_rle ob) + length (concat mid) \<le> po_expected ob \<Longrightarrow>
    apply_fragments limits (map (later_part ods SeqContinuation) mid) (sp, AList.update (od_id ods) ob pending) =
    Inr (sp, AList.update (od_id ods) (ob\<lparr> po_rle := po_rle ob @ concat mid \<rparr>) pending)"
  using assms
proof (induction mid arbitrary: ob)
  case (Cons chunk mid)
  let ?ob = "ob\<lparr> po_rle := po_rle ob @ chunk \<rparr>"
  have "apply_object_fragment limits (later_part ods SeqContinuation chunk) (sp, AList.update (od_id ods) ob pending) =
      Inr (sp, AList.update (od_id ods) ?ob pending)"
    using Cons.prems by (auto simp: apply_object_fragment_def later_fragment_def later_part_def Let_def update_update
        split: option.split)
  moreover have "ob\<lparr> po_rle := (po_rle ob @ chunk) @ concat mid \<rparr> = ?ob\<lparr> po_rle := po_rle ?ob @ concat mid \<rparr>" by simp
  ultimately show ?case using Cons.IH [of ?ob] Cons.prems by simp
qed simp

text \<open>C29: An object sent in any number of fragments is stored, or refused, exactly as the same object sent
  complete: the decoder sees the same bytes and nothing stays pending.\<close>

theorem fragments_make_the_object:
  assumes "od_sequence ods = SeqComplete" and "od_rle_data ods = first @ concat mid @ final"
    and "od_data_length ods = length (od_rle_data ods) + 4" and "od_data_length ods \<le> U32_MAX"
    and "map_of (snd w) (od_id ods) = None"
  shows "apply_fragments limits (split_object ods first mid final) w = apply_object_fragment limits ods w"
proof -
  obtain sp pending where w: "w = (sp, pending)" by (cases w)
  have shape: "first_fragment_shape limits (ods\<lparr> od_sequence := s, od_rle_data := r \<rparr>) = first_fragment_shape limits ods" for s r
    by (simp add: first_fragment_shape_def cong: option.case_cong if_cong)
  show ?thesis
  proof (cases "first_fragment_shape limits ods")
    case (Inl e)
    then show ?thesis using assms(1)
      by (simp add: split_object_def apply_object_fragment_def first_fragment_def complete_object_def shape)
  next
    case (Inr whe)
    obtain width height expected where whe: "whe = (width, height, expected)" by (cases whe)
    have expected: "expected = length (first @ concat mid @ final)" "expected \<le> max_object_rle_bytes limits"
      using shape_nonzero [OF Inr [unfolded whe]] assms(2,3) by simp_all
    let ?ob = "\<lparr> po_version = od_version ods, po_width = width, po_height = height, po_expected = expected, po_rle = first \<rparr>"
    have start: "apply_object_fragment limits (ods\<lparr> od_sequence := SeqFirst, od_rle_data := first \<rparr>) w =
        Inr (sp, AList.update (od_id ods) ?ob pending)"
      using Inr whe w assms(5) expected by (simp add: apply_object_fragment_def first_fragment_def shape)
    have small: "expected \<le> U32_MAX" using expected(1) assms(2-4) by simp
    have rest: "apply_fragments limits (map (later_part ods SeqContinuation) mid) (sp, AList.update (od_id ods) ?ob pending) =
        Inr (sp, AList.update (od_id ods) (?ob\<lparr> po_rle := first @ concat mid \<rparr>) pending)"
      using continuations [of ?ob limits ods mid sp pending] expected small by simp
    show ?thesis
      using assms(1,2,5) Inr whe w start rest expected small
      by (auto simp: split_object_def apply_fragments_append apply_object_fragment_def later_fragment_def later_part_def
          complete_object_def and_then_assoc Let_def delete_update split: option.split)
  qed
qed

definition demo_object :: ods_data where
  "demo_object = \<lparr> od_id = 7, od_version = 0, od_sequence = SeqComplete, od_data_length = 12,
                   od_width = Some 2, od_height = Some 2, od_rle_data = [1, 1, 0, 0, 1, 1, 0, 0] \<rparr>"

definition demo_world :: object_world where
  "demo_world = ((fresh_normalizer, \<lparr> ob_max_rgba = 0, ob_max_rle = 0 \<rparr>), [])"

theorem fragments_make_the_object_witness:
  "apply_fragments default_limits (split_object demo_object [1, 1, 0] [[0, 1], []] [1, 0, 0]) demo_world =
   apply_object_fragment default_limits demo_object demo_world"
  by (rule fragments_make_the_object) (simp_all add: demo_object_def demo_world_def)

section \<open>Pixels\<close>

lemma validate_rect_Inr:
  "validate_rect x y width height bw bh label = Inr () \<longleftrightarrow>
     width \<noteq> 0 \<and> height \<noteq> 0 \<and> unat x + unat width \<le> unat bw \<and> unat y + unat height \<le> unat bh"
  by (auto simp: validate_rect_def)

lemma row_inside:
  assumes "y < h" and "x + w \<le> (W :: nat)" and "h \<le> H"
  shows "y * W + x + w \<le> W * H"
proof -
  have "y * W + x + w \<le> Suc y * W" using assms(2) by simp
  also have "\<dots> \<le> H * W" using assms by (intro mult_le_mono1) simp
  finally show ?thesis by (simp add: mult.commute)
qed

lemma rgba_rows_all:
  "\<forall>y \<in> set ys. row y = Some (f y) \<Longrightarrow> rgba_rows row ys = Some (concat (map f ys))"
  by (induction ys) simp_all

lemma length_rgba [simp]: "length (ycrcb_to_rgba color matrix) = 4"
  by (simp add: ycrcb_to_rgba_def Let_def matrix_weights_def split: color_matrix.split)

lemma take_drop_map: "a + n \<le> length xs \<Longrightarrow> take n (drop a xs) = map (\<lambda>i. xs ! i) [a ..< a + n]"
  by (rule nth_equalityI) (auto simp: add.commute)

text \<open>The pixels of the crop in reading order, straight from the stored rows.\<close>

definition crop_pixels :: "stored_object \<Rightarrow> u16 \<Rightarrow> u16 \<Rightarrow> u16 \<Rightarrow> u16 \<Rightarrow> byte list" where
  "crop_pixels ob crop_x crop_y width height =
     concat (map (\<lambda>y. map (\<lambda>x. so_pixels ob ! (y * unat (so_width ob) + x)) [unat crop_x ..< unat crop_x + unat width])
             [unat crop_y ..< unat crop_y + unat height])"

lemma concat_of_rows: "concat (map g (concat (map p ys))) = concat (map (\<lambda>y. concat (map g (p y))) ys)"
  by (induction ys) simp_all

lemma rgba_crop_whole:
  assumes ob: "length (so_pixels ob) = unat (so_width ob) * unat (so_height ob)" and p: "palette_ok palette"
    and rect: "validate_rect crop_x crop_y width height (so_width ob) (so_height ob) label = Inr ()"
  shows "rgba_crop ob palette matrix crop_x crop_y width height =
         Some (concat (map (\<lambda>i. ycrcb_to_rgba (palette ! unat i) matrix) (crop_pixels ob crop_x crop_y width height)))"
proof -
  have r: "unat crop_x + unat width \<le> unat (so_width ob)" "unat crop_y + unat height \<le> unat (so_height ob)"
    using rect by (simp_all add: validate_rect_Inr)
  have sum: "unat (crop_y + height) = unat crop_y + unat height"
    using r(2) unat16 [of "so_height ob"] by (simp add: unat_word_ariths)
  have row: "rgba_row ob palette matrix crop_x width y =
      Some (concat (map (\<lambda>i. ycrcb_to_rgba (palette ! unat i) matrix)
             (map (\<lambda>x. so_pixels ob ! (y * unat (so_width ob) + x)) [unat crop_x ..< unat crop_x + unat width])))"
    if y: "y < unat crop_y + unat height" for y
  proof -
    let ?start = "y * unat (so_width ob) + unat crop_x"
    have fits: "?start + unat width \<le> length (so_pixels ob)"
      using row_inside [OF y r(1) r(2)] ob by simp
    have shift: "map (\<lambda>i. so_pixels ob ! i) [?start ..< ?start + unat width] =
        map (\<lambda>x. so_pixels ob ! (y * unat (so_width ob) + x)) [unat crop_x ..< unat crop_x + unat width]"
      by (rule nth_equalityI) (simp_all add: add.assoc)
    have "\<forall>i \<in> set (take (unat width) (drop ?start (so_pixels ob))). unat i < length palette"
      using p by (simp add: palette_ok_def)
    then show ?thesis using fits by (simp add: rgba_row_def Let_def take_drop_map [OF fits] shift [symmetric])
  qed
  show ?thesis
    unfolding rgba_crop_def sum crop_pixels_def concat_of_rows
    by (rule rgba_rows_all) (use row in auto)
qed

lemma length_crop_pixels: "length (crop_pixels ob x y width height) = unat height * unat width"
  by (simp add: crop_pixels_def length_concat comp_def sum_list_triv)

text \<open>After its rectangle is validated, a crop of a stored object never reads past its pixels or its
  palette and never wraps: the answer is the colours of exactly the cropped pixels, row by row, four
  bytes each.\<close>

theorem crop_is_exact:
  assumes "object_ok limits ob" and "palette_ok palette"
    and "validate_rect crop_x crop_y width height (so_width ob) (so_height ob) label = Inr ()"
  shows "\<exists>rgba. rgba_crop ob palette matrix crop_x crop_y width height = Some rgba \<and>
    length rgba = 4 * (unat width * unat height) \<and>
    rgba = concat (map (\<lambda>i. ycrcb_to_rgba (palette ! unat i) matrix) (crop_pixels ob crop_x crop_y width height))"
  using rgba_crop_whole [OF _ assms(2,3)] assms(1)
  by (simp add: object_ok_def length_concat comp_def sum_list_triv length_crop_pixels)

theorem crop_is_exact_witness:
  "\<exists>rgba. rgba_crop \<lparr> so_width = 2, so_height = 2, so_pixels = [0, 1, 1, 0] \<rparr> (replicate 256 default_color) Bt709 1 0 1 2 =
      Some rgba \<and> length rgba = 4 * (1 * 2)"
  using crop_is_exact [of default_limits "\<lparr> so_width = 2, so_height = 2, so_pixels = [0, 1, 1, 0] \<rparr>"
      "replicate 256 default_color" 1 0 1 2 "''object crop''" Bt709]
  by (auto simp: object_ok_def palette_ok_def validate_rect_Inr default_limits_def)

end
