(* ===== verification/PgsTrack.thy ===== *)
theory PgsTrack
  imports PgsObjects F64
begin

text \<open>
  Display sets and the two passes over a SUP stream, \<open>crates/plurx-pgs/src/lib.rs\<close>. The parts
  of \<open>libpgs\<close>, \<open>sha2\<close> and \<open>hex\<close> the adapter calls are the fields of \<open>pgs_env\<close>. A file is the
  bytes it yields, and the I/O error its reads end with, if any; the two passes get a reader
  each, because the file may be rewritten in between. The cancellation flag is a function of
  how often it has been loaded. Every failed index, slice or
  \<open>expect\<close> the code could reach is \<open>Panicked\<close>; unchecked arithmetic wraps, as in the release build.
\<close>

section \<open>Data\<close>

datatype segment_type =
  PaletteDefinition | ObjectDefinition | PresentationComposition | WindowDefinition | EndOfDisplaySet

record pgs_segment =
  seg_pts :: nat
  seg_dts :: nat
  seg_type :: segment_type
  seg_payload :: "byte list"

record wds_window =
  wi_x :: u16
  wi_y :: u16
  wi_width :: u16
  wi_height :: u16

record pgs_env =
  ev_sha256 :: "byte list \<Rightarrow> byte list"
  ev_hex :: "byte list \<Rightarrow> string"
  ev_segment_type :: "byte \<Rightarrow> segment_type option"
  ev_wds :: "pgs_segment \<Rightarrow> wds_window list option"
  ev_pds :: "pgs_segment \<Rightarrow> pds_data option"
  ev_ods :: "pgs_segment \<Rightarrow> ods_data option"

record composition_fingerprint =
  cf_pts :: nat
  cf_start_ms :: "nat \<times> int"
  cf_object_count :: nat
  cf_sha256 :: string

record normalized_object =
  no_x :: u16
  no_y :: u16
  no_width :: u16
  no_height :: u16
  no_rgba :: "byte list"
  no_rgba_sha256 :: string

record normalized_composition =
  nc_pts :: nat
  nc_start_ms :: "nat \<times> int"
  nc_canvas_width :: u16
  nc_canvas_height :: u16
  nc_objects :: "normalized_object list"

record inspection_report =
  ir_source_bytes :: nat
  ir_parser_bytes_read :: nat
  ir_segments :: nat
  ir_display_sets :: nat
  ir_content_display_sets :: nat
  ir_clear_display_sets :: nat
  ir_duplicate_timestamps :: nat
  ir_pts_wraps :: nat
  ir_epoch_continue_display_sets :: nat
  ir_palette_definitions :: nat
  ir_object_definitions :: nat
  ir_max_canvas_width :: u16
  ir_max_canvas_height :: u16
  ir_max_canvas_pixels :: nat
  ir_max_composition_objects :: nat
  ir_object_peaks :: object_peaks
  ir_peak_cached_pixel_bytes :: nat
  ir_compositions :: "composition_fingerprint list"

record raw_display_set =
  ds_pts :: nat
  ds_segments :: "pgs_segment list"

record owned_pcs =
  op_video_width :: u16
  op_video_height :: u16
  op_palette_id :: byte
  op_resets_cache :: bool
  op_objects :: "composition_object list"

text \<open>
  Inspection only, retained compositions, or a sink; the sink's answer may depend on what it
  was given before.
\<close>

datatype output_mode =
  Inspect | Retain | Sink "normalized_composition list \<Rightarrow> normalized_composition \<Rightarrow> adapter_error option"

datatype pgs_stop = Refused adapter_error | Panicked

definition lift :: "adapter_error + 'a \<Rightarrow> pgs_stop + 'a" where
  "lift r = (case r of Inl e \<Rightarrow> Inl (Refused e) | Inr x \<Rightarrow> Inr x)"

definition refuse :: "adapter_error \<Rightarrow> pgs_stop + 'a" where
  "refuse e = Inl (Refused e)"

abbreviation set_error :: "set_fault \<Rightarrow> adapter_error" where
  "set_error f \<equiv> Malformed (SetFault f)"

abbreviation stream_error :: "stream_fault \<Rightarrow> adapter_error" where
  "stream_error f \<equiv> Malformed (StreamFault f)"

abbreviation reread_error :: "reread_fault \<Rightarrow> adapter_error" where
  "reread_error f \<equiv> Malformed (RereadFault f)"

abbreviation stream_limit :: "stream_bound \<Rightarrow> adapter_error" where
  "stream_limit l \<equiv> Limit (StreamLimit l)"

text \<open>What the passes share: the cache, the report, what was kept or emitted, and the flag's loads.\<close>

record pgs_session =
  se_state :: normalizer_state
  se_report :: inspection_report
  se_output :: "normalized_composition list"
  se_emitted :: "normalized_composition list"
  se_rgba_bytes :: nat
  se_loads :: nat

section \<open>Bytes and numbers\<close>

definition checked_add_u64 :: "nat \<Rightarrow> nat \<Rightarrow> nat option" where
  "checked_add_u64 a b = (if a + b \<le> U64_MAX then Some (a + b) else None)"

definition from_be16 :: "byte \<Rightarrow> byte \<Rightarrow> u16" where
  "from_be16 hi lo = push_bit 8 (ucast hi) OR ucast lo"

definition to_be16 :: "u16 \<Rightarrow> byte list" where
  "to_be16 w = [ucast (drop_bit 8 w), ucast w]"

text \<open>\<open>pts as f64 / 90.0\<close>.\<close>

definition start_ms :: "nat \<Rightarrow> nat \<times> int" where
  "start_ms pts = (case round53 pts 1 of (m, e) \<Rightarrow> case ratio m e of (num, den) \<Rightarrow> round53 num (den * 90))"

section \<open>Cancellation\<close>

definition load_flag :: "(nat \<Rightarrow> bool) option \<Rightarrow> nat \<Rightarrow> adapter_error + nat" where
  "load_flag cancelled loads =
     (case cancelled of
        None \<Rightarrow> Inr loads
      | Some flag \<Rightarrow> if flag loads then Inl Cancelled else Inr (Suc loads))"

definition check_cancelled :: "(nat \<Rightarrow> bool) option \<Rightarrow> pgs_session \<Rightarrow> pgs_stop + pgs_session" where
  "check_cancelled cancelled ses =
     and_then (lift (load_flag cancelled (se_loads ses))) (\<lambda>n. Inr (ses\<lparr> se_loads := n \<rparr>))"

section \<open>Presentation timestamps\<close>

record pts_timeline =
  pt_previous_raw :: "nat option"
  pt_offset :: nat

definition fresh_timeline :: pts_timeline where
  "fresh_timeline = \<lparr> pt_previous_raw = None, pt_offset = 0 \<rparr>"

abbreviation PTS_MODULUS :: nat where "PTS_MODULUS \<equiv> 4294967296"
abbreviation PTS_WRAP_THRESHOLD :: nat where "PTS_WRAP_THRESHOLD \<equiv> 2147483648"

text \<open>The answer is the unwrapped time, whether it repeats the previous one, and whether the counter wrapped.\<close>

definition observe :: "nat \<Rightarrow> pts_timeline \<Rightarrow> adapter_error + (nat \<times> bool \<times> bool) \<times> pts_timeline" where
  "observe raw tln =
     (let duplicate = (pt_previous_raw tln = Some raw) in
      and_then
        (case pt_previous_raw tln of
           None \<Rightarrow> Inr (pt_offset tln, False)
         | Some previous \<Rightarrow>
             if raw < previous then
               let backwards = previous - raw in
               if PTS_WRAP_THRESHOLD < backwards then
                 (case checked_add_u64 (pt_offset tln) PTS_MODULUS of
                    None \<Rightarrow> Inl (stream_limit TimestampOverflow)
                  | Some off \<Rightarrow> Inr (off, True))
               else Inl (stream_error (PtsBackwards previous raw))
             else Inr (pt_offset tln, False))
        (\<lambda>(off, wrapped).
           (case checked_add_u64 off raw of
              None \<Rightarrow> Inl (stream_limit TimestampOverflow)
            | Some unwrapped \<Rightarrow> Inr ((unwrapped, duplicate, wrapped), \<lparr> pt_previous_raw = Some raw, pt_offset = off \<rparr>))))"

section \<open>The presentation composition segment\<close>

text \<open>\<open>payload.get(offset..offset + 8)\<close>.\<close>

definition eight_at :: "byte list \<Rightarrow> nat \<Rightarrow> byte list option" where
  "eight_at payload offset =
     (if offset + 8 \<le> length payload then Some (take 8 (drop offset payload)) else None)"

fun parse_objects :: "byte list \<Rightarrow> nat \<Rightarrow> nat \<Rightarrow> adapter_error + composition_object list \<times> nat" where
  "parse_objects payload 0 offset = Inr ([], offset)"
| "parse_objects payload (Suc todo) offset =
     (case eight_at payload offset of
        None \<Rightarrow> Inl (set_error PcsObjectTruncated)
      | Some fixed \<Rightarrow>
          let cropped = (fixed ! 3 AND 0x80 \<noteq> 0); offset = offset + 8 in
          and_then
            (if cropped then
               (case eight_at payload offset of
                  None \<Rightarrow> Inl (set_error PcsCropTruncated)
                | Some authored \<Rightarrow>
                    Inr (Some \<lparr> ci_x = from_be16 (authored ! 0) (authored ! 1),
                                ci_y = from_be16 (authored ! 2) (authored ! 3),
                                ci_width = from_be16 (authored ! 4) (authored ! 5),
                                ci_height = from_be16 (authored ! 6) (authored ! 7) \<rparr>, offset + 8))
             else Inr (None, offset))
            (\<lambda>(crop, offset).
               and_then (parse_objects payload todo offset) (\<lambda>(objects, offset).
                 Inr (\<lparr> co_object_id = from_be16 (fixed ! 0) (fixed ! 1), co_window_id = fixed ! 2,
                        co_x = from_be16 (fixed ! 4) (fixed ! 5), co_y = from_be16 (fixed ! 6) (fixed ! 7),
                        co_crop = crop \<rparr> # objects, offset))))"

definition parse_pcs_owned :: "byte list \<Rightarrow> adapter_error + owned_pcs" where
  "parse_pcs_owned payload =
     (if length payload < 11 then Inl (set_error PcsMalformed)
      else
        and_then
          (if payload ! 7 = 0x00 then Inr False
           else if payload ! 7 \<in> {0x40, 0x80, 0xC0} then Inr True
           else Inl (stream_error (PcsBadState (payload ! 7))))
          (\<lambda>resets_cache.
        and_then (parse_objects payload (unat (payload ! 10)) 11) (\<lambda>(objects, offset).
          if offset \<noteq> length payload then Inl (set_error PcsTrailing)
          else Inr \<lparr> op_video_width = from_be16 (payload ! 0) (payload ! 1),
                     op_video_height = from_be16 (payload ! 2) (payload ! 3),
                     op_palette_id = payload ! 9, op_resets_cache = resets_cache, op_objects = objects \<rparr>)))"

section \<open>One display set\<close>

definition object_bytes :: "composition_object \<Rightarrow> nat" where
  "object_bytes ob = (if co_crop ob = None then 8 else 16)"

fun validate_windows :: "owned_pcs \<Rightarrow> wds_window list \<Rightarrow> adapter_error + unit" where
  "validate_windows pcs [] = Inr ()"
| "validate_windows pcs (w # ws) =
     and_then (validate_rect (wi_x w) (wi_y w) (wi_width w) (wi_height w) (op_video_width pcs) (op_video_height pcs) ''window'')
       (\<lambda>_. validate_windows pcs ws)"

definition window_segment :: "pgs_env \<Rightarrow> owned_pcs \<Rightarrow> pgs_segment \<Rightarrow> adapter_error + unit" where
  "window_segment env pcs segment =
     (case ev_wds env segment of
        None \<Rightarrow> Inl (set_error WdsMalformed)
      | Some windows \<Rightarrow>
          if length (seg_payload segment) \<noteq> 1 + length windows * 9 then Inl (set_error WdsTrailing)
          else validate_windows pcs windows)"

type_synonym set_world = "pgs_session \<times> (u16 \<times> pending_object) list"

definition palette_segment :: "pgs_env \<Rightarrow> parser_limits \<Rightarrow> pgs_segment \<Rightarrow> set_world \<Rightarrow> adapter_error + set_world" where
  "palette_segment env limits segment w =
     (case ev_pds env segment of
        None \<Rightarrow> Inl (set_error PdsMalformed)
      | Some pds \<Rightarrow>
          and_then (apply_palette limits pds (se_state (fst w))) (\<lambda>st.
            let report = se_report (fst w) in
            Inr ((fst w)\<lparr> se_state := st,
                   se_report := report\<lparr> ir_palette_definitions := wrapping_add_u64 (ir_palette_definitions report) 1 \<rparr> \<rparr>,
                 snd w)))"

definition object_segment :: "pgs_env \<Rightarrow> parser_limits \<Rightarrow> pgs_segment \<Rightarrow> set_world \<Rightarrow> adapter_error + set_world" where
  "object_segment env limits segment w =
     (case ev_ods env segment of
        None \<Rightarrow> Inl (set_error OdsMalformed)
      | Some ods \<Rightarrow>
          let report = se_report (fst w) in
          and_then (apply_object_fragment limits ods ((se_state (fst w), ir_object_peaks report), snd w))
            (\<lambda>((st, peaks), pending).
               Inr ((fst w)\<lparr> se_state := st,
                      se_report := report\<lparr> ir_object_peaks := peaks,
                                           ir_object_definitions := wrapping_add_u64 (ir_object_definitions report) 1 \<rparr> \<rparr>,
                    pending)))"

definition apply_segment ::
    "pgs_env \<Rightarrow> parser_limits \<Rightarrow> owned_pcs \<Rightarrow> pgs_segment \<Rightarrow> set_world \<Rightarrow> adapter_error + set_world" where
  "apply_segment env limits pcs segment w =
     (case seg_type segment of
        WindowDefinition \<Rightarrow> and_then (window_segment env pcs segment) (\<lambda>_. Inr w)
      | PaletteDefinition \<Rightarrow> palette_segment env limits segment w
      | ObjectDefinition \<Rightarrow> object_segment env limits segment w
      | _ \<Rightarrow> Inl (set_error NestedPcsOrEnd))"

fun apply_segments ::
    "pgs_env \<Rightarrow> parser_limits \<Rightarrow> (nat \<Rightarrow> bool) option \<Rightarrow> owned_pcs \<Rightarrow> pgs_segment list \<Rightarrow> set_world \<Rightarrow> pgs_stop + set_world" where
  "apply_segments env limits cancelled pcs [] w = Inr w"
| "apply_segments env limits cancelled pcs (segment # segments) w =
     and_then (check_cancelled cancelled (fst w)) (\<lambda>ses.
       and_then (lift (apply_segment env limits pcs segment (ses, snd w)))
         (apply_segments env limits cancelled pcs segments))"

text \<open>What a placement shows: the object, its palette and the rectangle of the object that is shown.\<close>

definition placed_crop :: "stored_object \<Rightarrow> composition_object \<Rightarrow> adapter_error + u16 \<times> u16 \<times> u16 \<times> u16" where
  "placed_crop ob placement =
     (case co_crop placement of
        None \<Rightarrow> Inr (0, 0, so_width ob, so_height ob)
      | Some crop \<Rightarrow>
          and_then (validate_rect (ci_x crop) (ci_y crop) (ci_width crop) (ci_height crop) (so_width ob) (so_height ob) ''object crop'')
            (\<lambda>_. Inr (ci_x crop, ci_y crop, ci_width crop, ci_height crop)))"

definition resolve_placement ::
    "normalizer_state \<Rightarrow> owned_pcs \<Rightarrow> composition_object \<Rightarrow>
     adapter_error + stored_object \<times> palette \<times> u16 \<times> u16 \<times> u16 \<times> u16" where
  "resolve_placement st pcs placement =
     (case map_of (ns_objects st) (co_object_id placement) of
        None \<Rightarrow> Inl (set_error (MissingObject (unat (co_object_id placement))))
      | Some ob \<Rightarrow>
     (case map_of (ns_palettes st) (op_palette_id pcs) of
        None \<Rightarrow> Inl (set_error (MissingPalette (unat (op_palette_id pcs))))
      | Some palette \<Rightarrow>
          and_then (placed_crop ob placement) (\<lambda>(crop_x, crop_y, width, height).
            and_then (validate_rect (co_x placement) (co_y placement) width height
                        (op_video_width pcs) (op_video_height pcs) ''composition object'')
              (\<lambda>_. Inr (ob, palette, crop_x, crop_y, width, height)))))"

definition hash_rgba :: "pgs_env \<Rightarrow> u16 \<Rightarrow> u16 \<Rightarrow> byte list \<Rightarrow> byte list" where
  "hash_rgba env width height rgba =
     ev_sha256 env (ascii ''plurx-pgs-rgba-v1'' @ to_be16 width @ to_be16 height @ rgba)"

definition retains :: "output_mode \<Rightarrow> bool" where
  "retains mode \<longleftrightarrow> mode \<noteq> Inspect"

text \<open>The RGBA budget counts what a retained or emitted composition holds.\<close>

definition count_rgba :: "parser_limits \<Rightarrow> byte list \<Rightarrow> pgs_session \<Rightarrow> adapter_error + pgs_session" where
  "count_rgba limits rgba ses =
     (case checked_add_usize (se_rgba_bytes ses) (length rgba) of
        None \<Rightarrow> Inl (set_limit RgbaCounter)
      | Some n \<Rightarrow>
          if max_normalized_rgba_bytes limits < n then Inl (set_limit RgbaTooLarge)
          else Inr (ses\<lparr> se_rgba_bytes := n \<rparr>))"

text \<open>One placement: the bytes it adds to the composition's digest, and its object.\<close>

definition place_object ::
    "pgs_env \<Rightarrow> parser_limits \<Rightarrow> bool \<Rightarrow> owned_pcs \<Rightarrow> composition_object \<Rightarrow> pgs_session \<Rightarrow>
     pgs_stop + pgs_session \<times> byte list \<times> normalized_object list" where
  "place_object env limits keep pcs placement ses =
     and_then (lift (resolve_placement (se_state ses) pcs placement)) (\<lambda>(ob, palette, crop_x, crop_y, width, height).
       (case rgba_crop ob palette (color_matrix_for (op_video_height pcs)) crop_x crop_y width height of
          None \<Rightarrow> Inl Panicked
        | Some rgba \<Rightarrow>
            and_then (if keep then lift (count_rgba limits rgba ses) else Inr ses) (\<lambda>ses.
              let image_hash = hash_rgba env width height rgba in
              Inr (ses,
                   to_be16 (co_object_id placement) @ to_be16 (co_x placement) @ to_be16 (co_y placement) @
                     to_be16 width @ to_be16 height @ image_hash,
                   if keep then
                     [\<lparr> no_x = co_x placement, no_y = co_y placement, no_width = width, no_height = height,
                        no_rgba = rgba, no_rgba_sha256 = ev_hex env image_hash \<rparr>]
                   else []))))"

fun place_objects ::
    "pgs_env \<Rightarrow> parser_limits \<Rightarrow> bool \<Rightarrow> (nat \<Rightarrow> bool) option \<Rightarrow> owned_pcs \<Rightarrow> composition_object list \<Rightarrow> pgs_session \<Rightarrow>
     pgs_stop + pgs_session \<times> byte list \<times> normalized_object list" where
  "place_objects env limits keep cancelled pcs [] ses = Inr (ses, [], [])"
| "place_objects env limits keep cancelled pcs (placement # placements) ses =
     and_then (check_cancelled cancelled ses) (\<lambda>ses.
     and_then (place_object env limits keep pcs placement ses) (\<lambda>(ses, digest, objects).
     and_then (place_objects env limits keep cancelled pcs placements ses) (\<lambda>(ses, digests, more_objects).
       Inr (ses, digest @ digests, objects @ more_objects))))"

definition check_canvas :: "parser_limits \<Rightarrow> owned_pcs \<Rightarrow> adapter_error + nat" where
  "check_canvas limits pcs =
     and_then (checked_pixels (op_video_width pcs) (op_video_height pcs)) (\<lambda>canvas_pixels.
       if op_video_width pcs = 0 \<or> op_video_height pcs = 0 \<or> max_canvas_width limits < op_video_width pcs \<or>
          max_canvas_height limits < op_video_height pcs \<or> max_canvas_pixels limits < canvas_pixels
       then Inl (set_limit (CanvasBounds (unat (op_video_width pcs)) (unat (op_video_height pcs))))
       else if max_objects_per_composition limits < length (op_objects pcs)
       then Inl (set_limit (TooManyObjects (length (op_objects pcs))))
       else Inr canvas_pixels)"

definition count_composition :: "pgs_env \<Rightarrow> owned_pcs \<Rightarrow> nat \<Rightarrow> nat \<Rightarrow> byte list \<Rightarrow> pgs_session \<Rightarrow> pgs_session" where
  "count_composition env pcs canvas_pixels pts digest ses =
     (let r = se_report ses; object_count = length (op_objects pcs) in
      ses\<lparr> se_report := r\<lparr>
        ir_clear_display_sets := (if object_count = 0 then wrapping_add_u64 (ir_clear_display_sets r) 1 else ir_clear_display_sets r),
        ir_content_display_sets := (if object_count = 0 then ir_content_display_sets r else wrapping_add_u64 (ir_content_display_sets r) 1),
        ir_display_sets := wrapping_add_u64 (ir_display_sets r) 1,
        ir_max_canvas_width := max (ir_max_canvas_width r) (op_video_width pcs),
        ir_max_canvas_height := max (ir_max_canvas_height r) (op_video_height pcs),
        ir_max_canvas_pixels := max (ir_max_canvas_pixels r) canvas_pixels,
        ir_max_composition_objects := max (ir_max_composition_objects r) object_count,
        ir_peak_cached_pixel_bytes := max (ir_peak_cached_pixel_bytes r) (ns_cached_pixel_bytes (se_state ses)),
        ir_compositions := ir_compositions r @
          [\<lparr> cf_pts = pts, cf_start_ms = start_ms pts, cf_object_count = object_count,
             cf_sha256 = ev_hex env (ev_sha256 env
               (ascii ''plurx-pgs-composition-v1'' @ to_be16 (op_video_width pcs) @ to_be16 (op_video_height pcs) @ digest)) \<rparr>] \<rparr> \<rparr>)"

definition deliver :: "output_mode \<Rightarrow> owned_pcs \<Rightarrow> nat \<Rightarrow> normalized_object list \<Rightarrow> pgs_session \<Rightarrow> pgs_stop + pgs_session" where
  "deliver mode pcs pts objects ses =
     (let composition = \<lparr> nc_pts = pts, nc_start_ms = start_ms pts, nc_canvas_width = op_video_width pcs,
                          nc_canvas_height = op_video_height pcs, nc_objects = objects \<rparr> in
      case mode of
        Inspect \<Rightarrow> Inr ses
      | Retain \<Rightarrow> Inr (ses\<lparr> se_output := se_output ses @ [composition] \<rparr>)
      | Sink emit \<Rightarrow>
          (case emit (se_emitted ses) composition of
             Some e \<Rightarrow> refuse e
           | None \<Rightarrow> Inr (ses\<lparr> se_emitted := se_emitted ses @ [composition] \<rparr>)))"

definition open_set :: "owned_pcs \<Rightarrow> pgs_session \<Rightarrow> pgs_session" where
  "open_set pcs ses = (if op_resets_cache pcs then ses\<lparr> se_state := fresh_normalizer \<rparr> else ses)"

definition normalize_display_set ::
    "pgs_env \<Rightarrow> parser_limits \<Rightarrow> output_mode \<Rightarrow> (nat \<Rightarrow> bool) option \<Rightarrow> raw_display_set \<Rightarrow> pgs_session \<Rightarrow>
     pgs_stop + pgs_session" where
  "normalize_display_set env limits mode cancelled display_set ses =
     and_then (check_cancelled cancelled ses) (\<lambda>ses.
     (case ds_segments display_set of
        [] \<Rightarrow> refuse (set_error EmptySet)
      | first # others \<Rightarrow>
          let final = last (first # others); middle = take (length (first # others) - 2) others in
          if seg_type first \<noteq> PresentationComposition \<or> seg_type final \<noteq> EndOfDisplaySet
          then refuse (set_error SetNotPcsToEnd)
          else
            and_then (lift (parse_pcs_owned (seg_payload first))) (\<lambda>pcs.
            if length (seg_payload first) \<noteq> 11 + sum_list (map object_bytes (op_objects pcs))
            then refuse (set_error PcsLengthMismatch)
            else
            and_then (lift (check_canvas limits pcs)) (\<lambda>canvas_pixels.
            and_then (apply_segments env limits cancelled pcs middle (open_set pcs ses, [])) (\<lambda>(ses, pending).
            if pending \<noteq> [] then refuse (set_error IncompleteObject)
            else
            and_then (place_objects env limits (retains mode) cancelled pcs (op_objects pcs) ses) (\<lambda>(ses, digest, objects).
              deliver mode pcs (ds_pts display_set) objects
                (count_composition env pcs canvas_pixels (ds_pts display_set) digest ses)))))))"

end
