(* ===== verification/PgsStream.thy ===== *)
theory PgsStream
  imports PgsTrack
begin

text \<open>
  The two passes of the PGS adapter over a SUP file, \<open>crates/plurx-pgs/src/lib.rs\<close>: the
  structural preflight, the owned parse into display sets, and \<open>process_sup_impl\<close>, which runs
  both and compares what they saw.
\<close>

section \<open>Reading\<close>

text \<open>
  A reader is what is left to read and the I/O error it ends with, if it does not end at the
  end of the file.
\<close>

record sup_reader =
  rd_bytes :: "byte list"
  rd_fault :: "string option"

definition read_exact :: "nat \<Rightarrow> sup_reader \<Rightarrow> (byte list \<times> sup_reader) option" where
  "read_exact n rd =
     (if n \<le> length (rd_bytes rd) then Some (take n (rd_bytes rd), rd\<lparr> rd_bytes := drop n (rd_bytes rd) \<rparr>) else None)"

definition read_header_or_eof :: "sup_reader \<Rightarrow> adapter_error + (byte list \<times> sup_reader) option" where
  "read_header_or_eof rd =
     (if rd_bytes rd = [] then (case rd_fault rd of Some e \<Rightarrow> Inl (Io e) | None \<Rightarrow> Inr None)
      else
        (case read_exact 13 rd of
           None \<Rightarrow> Inl (stream_error HeaderTruncated)
         | Some r \<Rightarrow> Inr (Some r)))"

text \<open>
  \<open>discard_exact_hashed\<close> reads what is left in pieces; every piece is hashed and counted.
\<close>

definition discard_exact_hashed ::
    "nat \<Rightarrow> sup_reader \<Rightarrow> byte list \<Rightarrow> nat \<Rightarrow> adapter_error + sup_reader \<times> byte list \<times> nat" where
  "discard_exact_hashed n rd hashed bytes_read =
     (case read_exact n rd of
        None \<Rightarrow>
          (case checked_add_u64 bytes_read (length (rd_bytes rd)) of
             None \<Rightarrow> Inl (stream_limit ByteCounter)
           | Some _ \<Rightarrow>
               (case rd_fault rd of Some e \<Rightarrow> Inl (Io e) | None \<Rightarrow> Inl (stream_error PayloadTruncated)))
      | Some (bytes, rd) \<Rightarrow>
          (case checked_add_u64 bytes_read n of
             None \<Rightarrow> Inl (stream_limit ByteCounter)
           | Some total_read \<Rightarrow> Inr (rd, hashed @ bytes, total_read)))"

definition header_magic :: "byte list \<Rightarrow> bool" where
  "header_magic header \<longleftrightarrow> take 2 header = [0x50, 0x47]"

definition header_pts :: "byte list \<Rightarrow> nat" where
  "header_pts header = from_be (take 4 (drop 2 header))"

definition header_dts :: "byte list \<Rightarrow> nat" where
  "header_dts header = from_be (take 4 (drop 6 header))"

definition header_payload :: "byte list \<Rightarrow> nat" where
  "header_payload header = from_be (take 2 (drop 11 header))"

section \<open>Preflight\<close>

record preflight_state =
  pf_reader :: sup_reader
  pf_hashed :: "byte list"
  pf_bytes_read :: nat
  pf_segments :: nat
  pf_display_sets :: nat
  pf_in_set :: bool
  pf_set_segments :: nat
  pf_set_payload :: nat
  pf_timeline :: pts_timeline
  pf_duplicates :: nat
  pf_wraps :: nat
  pf_epoch_continue :: nat
  pf_loads :: nat

definition preflight_start :: "sup_reader \<Rightarrow> preflight_state" where
  "preflight_start rd = \<lparr> pf_reader = rd, pf_hashed = [], pf_bytes_read = 0, pf_segments = 0, pf_display_sets = 0,
     pf_in_set = False, pf_set_segments = 0, pf_set_payload = 0, pf_timeline = fresh_timeline, pf_duplicates = 0,
     pf_wraps = 0, pf_epoch_continue = 0, pf_loads = 0 \<rparr>"

text \<open>The state byte of a composition segment is read ahead of the rest of its payload.\<close>

definition preflight_pcs_prefix :: "nat \<Rightarrow> preflight_state \<Rightarrow> adapter_error + preflight_state" where
  "preflight_pcs_prefix payload_bytes st =
     (if payload_bytes < 8 then Inl (stream_error PcsTooShort)
      else
        (case read_exact 8 (pf_reader st) of
           None \<Rightarrow> Inl (stream_error PcsTruncatedState)
         | Some (prefix, rd) \<Rightarrow>
             (case checked_add_u64 (pf_bytes_read st) 8 of
                None \<Rightarrow> Inl (stream_limit ByteCounter)
              | Some n \<Rightarrow>
                  if prefix ! 7 \<notin> {0x00, 0x40, 0x80, 0xC0} then Inl (stream_error (PcsBadState (prefix ! 7)))
                  else Inr (st\<lparr> pf_reader := rd, pf_hashed := pf_hashed st @ prefix, pf_bytes_read := n,
                    pf_epoch_continue := (if prefix ! 7 = 0xC0 then wrapping_add_u64 (pf_epoch_continue st) 1
                                          else pf_epoch_continue st) \<rparr>))))"

definition preflight_open :: "byte list \<Rightarrow> preflight_state \<Rightarrow> adapter_error + preflight_state" where
  "preflight_open header st =
     (if header ! 10 = 0x16 then
        if pf_in_set st then Inl (stream_error PcsInsideSet)
        else
          and_then (observe (header_pts header) (pf_timeline st)) (\<lambda>((unwrapped, duplicate, wrapped), tln).
            Inr (st\<lparr> pf_in_set := True, pf_set_segments := 0, pf_set_payload := 0, pf_timeline := tln,
                   pf_duplicates := (if duplicate then wrapping_add_u64 (pf_duplicates st) 1 else pf_duplicates st),
                   pf_wraps := (if wrapped then wrapping_add_u64 (pf_wraps st) 1 else pf_wraps st) \<rparr>))
      else if \<not> pf_in_set st then
        Inl (stream_error (if header ! 10 = 0x80 then EndOutsideSet else SetWithoutPcs))
      else Inr st)"

definition preflight_count :: "parser_limits \<Rightarrow> nat \<Rightarrow> preflight_state \<Rightarrow> adapter_error + preflight_state" where
  "preflight_count limits payload_bytes st =
     (case checked_add_u64 (pf_segments st) 1 of
        None \<Rightarrow> Inl (stream_limit SegmentCounter)
      | Some segments \<Rightarrow>
     (case checked_add_usize (pf_set_segments st) 1 of
        None \<Rightarrow> Inl (stream_limit SetSegmentCounter)
      | Some set_segments \<Rightarrow>
     (case checked_add_usize (pf_set_payload st) payload_bytes of
        None \<Rightarrow> Inl (stream_limit SetByteCounter)
      | Some set_payload \<Rightarrow>
          if max_segments_per_display_set limits < set_segments then Inl (stream_limit TooManySegments)
          else if max_payload_bytes_per_display_set limits < set_payload then Inl (stream_limit TooManyPayloadBytes)
          else Inr (st\<lparr> pf_segments := segments, pf_set_segments := set_segments, pf_set_payload := set_payload \<rparr>))))"

definition preflight_close :: "parser_limits \<Rightarrow> byte list \<Rightarrow> preflight_state \<Rightarrow> adapter_error + preflight_state" where
  "preflight_close limits header st =
     (if max_sup_bytes limits < pf_bytes_read st then Inl (stream_limit SupGrew)
      else if header ! 10 = 0x80 then
        let display_sets = wrapping_add_u64 (pf_display_sets st) 1 in
        if max_display_sets limits < display_sets then Inl (stream_limit TooManyDisplaySets)
        else Inr (st\<lparr> pf_display_sets := display_sets, pf_in_set := False \<rparr>)
      else Inr st)"

text \<open>One segment, its header read.\<close>

definition preflight_segment ::
    "parser_limits \<Rightarrow> (nat \<Rightarrow> bool) option \<Rightarrow> byte list \<Rightarrow> preflight_state \<Rightarrow> adapter_error + preflight_state" where
  "preflight_segment limits cancelled header st =
     and_then (load_flag cancelled (pf_loads st)) (\<lambda>loads.
     let payload_bytes = header_payload header; kind = header ! 10 in
     (case checked_add_u64 (pf_bytes_read st) 13 of
        None \<Rightarrow> Inl (stream_limit ByteCounter)
      | Some n \<Rightarrow>
          let st = st\<lparr> pf_loads := loads, pf_hashed := pf_hashed st @ header, pf_bytes_read := n \<rparr> in
          if \<not> header_magic header then Inl (stream_error (BadMagic (pf_segments st + 1)))
          else if kind \<notin> {0x14, 0x15, 0x16, 0x17, 0x80} then Inl (stream_error (UnknownSegment kind))
          else
            and_then (if kind = 0x16 then preflight_pcs_prefix payload_bytes st else Inr st) (\<lambda>st.
            and_then (preflight_open header st) (\<lambda>st.
            and_then (preflight_count limits payload_bytes st) (\<lambda>st.
            and_then (discard_exact_hashed (payload_bytes - (if kind = 0x16 then 8 else 0))
                        (pf_reader st) (pf_hashed st) (pf_bytes_read st)) (\<lambda>(rd, hashed, bytes_read).
              preflight_close limits header
                (st\<lparr> pf_reader := rd, pf_hashed := hashed, pf_bytes_read := bytes_read \<rparr>)))))))"

lemma read_exact_shrinks: "read_exact n rd = Some (bytes, rd') \<Longrightarrow> length (rd_bytes rd') \<le> length (rd_bytes rd)"
  by (auto simp: read_exact_def split: if_splits)

lemma read_header_shrinks:
  "read_header_or_eof rd = Inr (Some (header, rd')) \<Longrightarrow> length (rd_bytes rd') < length (rd_bytes rd)"
  by (auto simp: read_header_or_eof_def read_exact_def split: if_splits option.splits)

lemma preflight_pcs_prefix_shrinks:
  "preflight_pcs_prefix n st = Inr st' \<Longrightarrow> length (rd_bytes (pf_reader st')) \<le> length (rd_bytes (pf_reader st))"
  by (auto simp: preflight_pcs_prefix_def split: option.splits if_splits dest!: read_exact_shrinks)

lemma preflight_open_reader [frame]:
  "preflight_open header st = Inr st' \<Longrightarrow> pf_reader st' = pf_reader st"
  unfolding preflight_open_def by (cases "header ! 10 = 0x16"; cases "pf_in_set st") (auto simp: and_then_Inr)

lemma preflight_count_reader [frame]:
  "preflight_count limits n st = Inr st' \<Longrightarrow> pf_reader st' = pf_reader st"
  by (auto simp: preflight_count_def split: option.splits if_splits)

lemma preflight_close_reader [frame]:
  "preflight_close limits header st = Inr st' \<Longrightarrow> pf_reader st' = pf_reader st"
  by (auto simp: preflight_close_def Let_def split: if_splits)

lemma discard_shrinks:
  "discard_exact_hashed n rd hashed k = Inr (rd', hashed', k') \<Longrightarrow> length (rd_bytes rd') \<le> length (rd_bytes rd)"
  by (auto simp: discard_exact_hashed_def split: option.splits dest!: read_exact_shrinks)

lemma preflight_segment_parts:
  assumes "preflight_segment limits cancelled header st = Inr st'"
  obtains loads n st1 st2 st3 rd hashed bytes_read where
    "load_flag cancelled (pf_loads st) = Inr loads" "checked_add_u64 (pf_bytes_read st) 13 = Some n"
    "header_magic header" "header ! 10 \<in> {0x14, 0x15, 0x16, 0x17, 0x80}"
    "(if header ! 10 = 0x16
      then preflight_pcs_prefix (header_payload header)
             (st\<lparr> pf_loads := loads, pf_hashed := pf_hashed st @ header, pf_bytes_read := n \<rparr>)
      else Inr (st\<lparr> pf_loads := loads, pf_hashed := pf_hashed st @ header, pf_bytes_read := n \<rparr>)) = Inr st1"
    "preflight_open header st1 = Inr st2" "preflight_count limits (header_payload header) st2 = Inr st3"
    "discard_exact_hashed (header_payload header - (if header ! 10 = 0x16 then 8 else 0))
       (pf_reader st3) (pf_hashed st3) (pf_bytes_read st3) = Inr (rd, hashed, bytes_read)"
    "preflight_close limits header (st3\<lparr> pf_reader := rd, pf_hashed := hashed, pf_bytes_read := bytes_read \<rparr>) = Inr st'"
proof -
  from assms obtain loads n where 1: "load_flag cancelled (pf_loads st) = Inr loads"
      "checked_add_u64 (pf_bytes_read st) 13 = Some n"
    unfolding preflight_segment_def and_then_Inr Let_def by (auto split: option.splits)
  let ?st = "st\<lparr> pf_loads := loads, pf_hashed := pf_hashed st @ header, pf_bytes_read := n \<rparr>"
  from assms 1 have magic: "header_magic header" and kind: "header ! 10 \<in> {0x14, 0x15, 0x16, 0x17, 0x80}"
    unfolding preflight_segment_def Let_def by (auto split: if_splits)
  with assms 1 show thesis
    unfolding preflight_segment_def Let_def
    by (elim and_then_Inr [THEN iffD1, elim_format] exE conjE)
       (simp add: and_then_Inr, blast intro: that)
qed

lemma preflight_segment_shrinks:
  assumes "preflight_segment limits cancelled header st = Inr st'"
  shows "length (rd_bytes (pf_reader st')) \<le> length (rd_bytes (pf_reader st))"
  using assms
proof (rule preflight_segment_parts)
  fix loads n st1 st2 st3 rd hashed bytes_read
  let ?st = "st\<lparr> pf_loads := loads, pf_hashed := pf_hashed st @ header, pf_bytes_read := n \<rparr>"
  assume 1: "(if header ! 10 = 0x16 then preflight_pcs_prefix (header_payload header) ?st else Inr ?st) = Inr st1"
    and 2: "preflight_open header st1 = Inr st2" "preflight_count limits (header_payload header) st2 = Inr st3"
      "discard_exact_hashed (header_payload header - (if header ! 10 = 0x16 then 8 else 0))
         (pf_reader st3) (pf_hashed st3) (pf_bytes_read st3) = Inr (rd, hashed, bytes_read)"
      "preflight_close limits header (st3\<lparr> pf_reader := rd, pf_hashed := hashed, pf_bytes_read := bytes_read \<rparr>) = Inr st'"
  have "length (rd_bytes (pf_reader st1)) \<le> length (rd_bytes (pf_reader st))"
    using 1 preflight_pcs_prefix_shrinks [of "header_payload header" ?st st1] by (auto split: if_splits)
  then show ?thesis
    using discard_shrinks [OF 2(3)] preflight_close_reader [OF 2(4)] preflight_open_reader [OF 2(1)]
      preflight_count_reader [OF 2(2)] by simp
qed

function preflight_loop ::
    "parser_limits \<Rightarrow> (nat \<Rightarrow> bool) option \<Rightarrow> preflight_state \<Rightarrow> adapter_error + preflight_state" where
  "preflight_loop limits cancelled st =
     (case read_header_or_eof (pf_reader st) of
        Inl e \<Rightarrow> Inl e
      | Inr None \<Rightarrow> Inr st
      | Inr (Some (header, rd)) \<Rightarrow>
          (case preflight_segment limits cancelled header (st\<lparr> pf_reader := rd \<rparr>) of
             Inl e \<Rightarrow> Inl e
           | Inr st' \<Rightarrow> preflight_loop limits cancelled st'))"
  by pat_completeness auto
termination
  by (relation "measure (\<lambda>(limits, cancelled, st). length (rd_bytes (pf_reader st)))")
    (auto dest!: read_header_shrinks preflight_segment_shrinks)

declare preflight_loop.simps [simp del]

record preflight_report =
  pr_source_bytes :: nat
  pr_source_sha256 :: "byte list"
  pr_segments :: nat
  pr_display_sets :: nat
  pr_duplicates :: nat
  pr_wraps :: nat
  pr_epoch_continue :: nat

definition preflight_sup ::
    "pgs_env \<Rightarrow> parser_limits \<Rightarrow> (nat \<Rightarrow> bool) option \<Rightarrow> nat \<Rightarrow> sup_reader \<Rightarrow> adapter_error + preflight_report \<times> nat" where
  "preflight_sup env limits cancelled source_bytes rd =
     and_then (preflight_loop limits cancelled (preflight_start rd)) (\<lambda>st.
       if pf_in_set st then Inl (stream_error EndedInsideSet)
       else if pf_display_sets st = 0 then Inl (stream_error NoDisplaySets)
       else if pf_bytes_read st \<noteq> source_bytes then Inl (stream_error (SizeChanged source_bytes (pf_bytes_read st)))
       else Inr (\<lparr> pr_source_bytes = source_bytes, pr_source_sha256 = ev_sha256 env (pf_hashed st),
                   pr_segments = pf_segments st, pr_display_sets = pf_display_sets st, pr_duplicates = pf_duplicates st,
                   pr_wraps = pf_wraps st, pr_epoch_continue = pf_epoch_continue st \<rparr>, pf_loads st))"

section \<open>The owned parse\<close>

record parse_state =
  ps_reader :: sup_reader
  ps_hashed :: "byte list"
  ps_bytes_read :: nat
  ps_timeline :: pts_timeline
  ps_segments :: "pgs_segment list"
  ps_pts :: "nat option"
  ps_payload_bytes :: nat
  ps_display_sets :: nat
  ps_session :: pgs_session

definition parse_open :: "byte list \<Rightarrow> segment_type \<Rightarrow> parse_state \<Rightarrow> adapter_error + parse_state" where
  "parse_open header kind st =
     (if kind = PresentationComposition then
        if ps_segments st \<noteq> [] then Inl (stream_error PcsInsideSet)
        else
          and_then (observe (header_pts header) (ps_timeline st)) (\<lambda>((unwrapped, duplicate, wrapped), tln).
            Inr (st\<lparr> ps_timeline := tln, ps_pts := Some unwrapped, ps_payload_bytes := 0 \<rparr>))
      else if ps_pts st = None then
        Inl (stream_error (if kind = EndOfDisplaySet then EndOutsideSet else SetWithoutPcs))
      else Inr st)"

definition parse_count :: "parser_limits \<Rightarrow> pgs_segment \<Rightarrow> parse_state \<Rightarrow> adapter_error + parse_state" where
  "parse_count limits segment st =
     (let segments = ps_segments st @ [segment] in
      case checked_add_usize (ps_payload_bytes st) (length (seg_payload segment)) of
        None \<Rightarrow> Inl (stream_limit SetByteCounter)
      | Some n \<Rightarrow>
          if max_segments_per_display_set limits < length segments then Inl (stream_limit TooManySegments)
          else if max_payload_bytes_per_display_set limits < n then Inl (stream_limit TooManyPayloadBytes)
          else Inr (st\<lparr> ps_segments := segments, ps_payload_bytes := n \<rparr>))"

definition streaming :: "output_mode \<Rightarrow> bool" where
  "streaming mode = (case mode of Sink emit \<Rightarrow> True | _ \<Rightarrow> False)"

definition close_set ::
    "pgs_env \<Rightarrow> parser_limits \<Rightarrow> output_mode \<Rightarrow> (nat \<Rightarrow> bool) option \<Rightarrow> parse_state \<Rightarrow> pgs_stop + parse_state" where
  "close_set env limits mode cancelled st =
     (case checked_add_u64 (ps_display_sets st) 1 of
        None \<Rightarrow> refuse (stream_limit DisplaySetCounter)
      | Some display_sets \<Rightarrow>
          if max_display_sets limits < display_sets then refuse (stream_limit TooManyDisplaySets)
          else
            (case ps_pts st of
               None \<Rightarrow> Inl Panicked
             | Some pts \<Rightarrow>
                 and_then (normalize_display_set env limits mode cancelled
                             \<lparr> ds_pts = pts, ds_segments = ps_segments st \<rparr> (ps_session st)) (\<lambda>ses.
                   Inr (st\<lparr> ps_display_sets := display_sets, ps_pts := None, ps_segments := [],
                          ps_session := (if streaming mode then ses\<lparr> se_rgba_bytes := 0 \<rparr> else ses) \<rparr>))))"

text \<open>One segment, its header read.\<close>

definition read_segment ::
    "pgs_env \<Rightarrow> parser_limits \<Rightarrow> byte list \<Rightarrow> parse_state \<Rightarrow> adapter_error + segment_type \<times> byte list \<times> parse_state" where
  "read_segment env limits header st =
     (case checked_add_u64 (ps_bytes_read st) 13 of
        None \<Rightarrow> Inl (stream_limit ByteCounter)
      | Some n \<Rightarrow>
          if \<not> header_magic header then Inl (reread_error BadMagicAgain)
          else
     (case ev_segment_type env (header ! 10) of
        None \<Rightarrow> Inl (reread_error (UnknownSegmentAgain (header ! 10)))
      | Some kind \<Rightarrow>
     (case read_exact (header_payload header) (ps_reader st) of
        None \<Rightarrow> Inl (reread_error PayloadChanged)
      | Some (payload, rd) \<Rightarrow>
     (case checked_add_u64 n (header_payload header) of
        None \<Rightarrow> Inl (stream_limit ByteCounter)
      | Some total_read \<Rightarrow>
          if max_sup_bytes limits < total_read then Inl (stream_limit SupGrew)
          else Inr (kind, payload, st\<lparr> ps_reader := rd, ps_hashed := ps_hashed st @ header @ payload,
                                      ps_bytes_read := total_read \<rparr>)))))"

definition parse_segment ::
    "pgs_env \<Rightarrow> parser_limits \<Rightarrow> output_mode \<Rightarrow> (nat \<Rightarrow> bool) option \<Rightarrow> byte list \<Rightarrow> parse_state \<Rightarrow> pgs_stop + parse_state" where
  "parse_segment env limits mode cancelled header st =
     and_then (check_cancelled cancelled (ps_session st)) (\<lambda>ses.
     and_then (lift (read_segment env limits header (st\<lparr> ps_session := ses \<rparr>))) (\<lambda>(kind, payload, st).
     and_then (lift (parse_open header kind st)) (\<lambda>st.
     and_then (lift (parse_count limits
                \<lparr> seg_pts = header_pts header, seg_dts = header_dts header, seg_type = kind, seg_payload = payload \<rparr> st)) (\<lambda>st.
       if kind = EndOfDisplaySet then close_set env limits mode cancelled st else Inr st))))"

lemma lift_Inr [simp]: "lift r = Inr x \<longleftrightarrow> r = Inr x"
  by (cases r) (simp_all add: lift_def)

lemma refuse_not_Inr [simp]: "refuse e \<noteq> Inr x"
  by (simp add: refuse_def)

lemma read_segment_shrinks:
  "read_segment env limits header st = Inr (kind, payload, st') \<Longrightarrow>
   length (rd_bytes (ps_reader st')) \<le> length (rd_bytes (ps_reader st))"
  by (auto simp: read_segment_def split: option.splits if_splits dest!: read_exact_shrinks)

lemma parse_same_reader [frame]:
  "parse_open header kind st = Inr st' \<Longrightarrow> ps_reader st' = ps_reader st"
  "parse_count limits segment st = Inr st' \<Longrightarrow> ps_reader st' = ps_reader st"
  "close_set env limits mode cancelled st = Inr st' \<Longrightarrow> ps_reader st' = ps_reader st"
  by (auto simp: parse_open_def parse_count_def close_set_def and_then_Inr Let_def split: option.splits if_splits)

lemma parse_segment_parts:
  assumes "parse_segment env limits mode cancelled header st = Inr st'"
  obtains ses kind payload st1 st2 st3 where
    "check_cancelled cancelled (ps_session st) = Inr ses"
    "read_segment env limits header (st\<lparr> ps_session := ses \<rparr>) = Inr (kind, payload, st1)"
    "parse_open header kind st1 = Inr st2"
    "parse_count limits \<lparr> seg_pts = header_pts header, seg_dts = header_dts header, seg_type = kind, seg_payload = payload \<rparr> st2
     = Inr st3"
    "(if kind = EndOfDisplaySet then close_set env limits mode cancelled st3 else Inr st3) = Inr st'"
proof -
  from assms obtain ses where 1: "check_cancelled cancelled (ps_session st) = Inr ses"
    by (auto simp: parse_segment_def and_then_def split: sum.splits)
  with assms obtain kind payload st1 where 2: "read_segment env limits header (st\<lparr> ps_session := ses \<rparr>) = Inr (kind, payload, st1)"
    by (cases "read_segment env limits header (st\<lparr> ps_session := ses \<rparr>)") (auto simp: parse_segment_def lift_def)
  with assms 1 obtain st2 where 3: "parse_open header kind st1 = Inr st2"
    by (cases "parse_open header kind st1") (auto simp: parse_segment_def lift_def)
  let ?seg = "\<lparr> seg_pts = header_pts header, seg_dts = header_dts header, seg_type = kind, seg_payload = payload \<rparr>"
  from assms 1 2 3 obtain st3 where 4: "parse_count limits ?seg st2 = Inr st3"
    by (cases "parse_count limits ?seg st2") (auto simp: parse_segment_def lift_def)
  show thesis by (rule that [OF 1 2 3 4]) (use assms 1 2 3 4 in \<open>simp add: parse_segment_def lift_def\<close>)
qed

lemma parse_segment_shrinks:
  assumes "parse_segment env limits mode cancelled header st = Inr st'"
  shows "length (rd_bytes (ps_reader st')) \<le> length (rd_bytes (ps_reader st))"
  using assms
proof (rule parse_segment_parts)
  fix ses kind payload st1 st2 st3
  let ?seg = "\<lparr> seg_pts = header_pts header, seg_dts = header_dts header, seg_type = kind, seg_payload = payload \<rparr>"
  assume 1: "read_segment env limits header (st\<lparr> ps_session := ses \<rparr>) = Inr (kind, payload, st1)"
    "parse_open header kind st1 = Inr st2" "parse_count limits ?seg st2 = Inr st3"
    "(if kind = EndOfDisplaySet then close_set env limits mode cancelled st3 else Inr st3) = Inr st'"
  have "ps_reader st' = ps_reader st3" using 1(4) parse_same_reader(3) by (auto split: if_splits)
  then show ?thesis
    using read_segment_shrinks [OF 1(1)] parse_same_reader(1) [OF 1(2)] parse_same_reader(2) [OF 1(3)] by simp
qed

function parse_loop ::
    "pgs_env \<Rightarrow> parser_limits \<Rightarrow> output_mode \<Rightarrow> (nat \<Rightarrow> bool) option \<Rightarrow> parse_state \<Rightarrow> pgs_stop + parse_state" where
  "parse_loop env limits mode cancelled st =
     (case read_header_or_eof (ps_reader st) of
        Inl e \<Rightarrow> refuse e
      | Inr None \<Rightarrow> Inr st
      | Inr (Some (header, rd)) \<Rightarrow>
          (case parse_segment env limits mode cancelled header (st\<lparr> ps_reader := rd \<rparr>) of
             Inl e \<Rightarrow> Inl e
           | Inr st' \<Rightarrow> parse_loop env limits mode cancelled st'))"
  by pat_completeness auto
termination
  by (relation "measure (\<lambda>(env, limits, mode, cancelled, st). length (rd_bytes (ps_reader st)))")
    (auto dest!: read_header_shrinks parse_segment_shrinks)

declare parse_loop.simps [simp del]

definition parse_start :: "sup_reader \<Rightarrow> pgs_session \<Rightarrow> parse_state" where
  "parse_start rd ses = \<lparr> ps_reader = rd, ps_hashed = [], ps_bytes_read = 0, ps_timeline = fresh_timeline, ps_segments = [],
     ps_pts = None, ps_payload_bytes = 0, ps_display_sets = 0, ps_session = ses \<rparr>"

definition parse_display_sets ::
    "pgs_env \<Rightarrow> parser_limits \<Rightarrow> output_mode \<Rightarrow> (nat \<Rightarrow> bool) option \<Rightarrow> sup_reader \<Rightarrow> pgs_session \<Rightarrow>
     pgs_stop + byte list \<times> pgs_session" where
  "parse_display_sets env limits mode cancelled rd ses =
     and_then (parse_loop env limits mode cancelled (parse_start rd ses)) (\<lambda>st.
       if ps_pts st \<noteq> None \<or> ps_segments st \<noteq> [] then refuse (stream_error EndedInsideSet)
       else Inr (ev_sha256 env (ps_hashed st),
                 (ps_session st)\<lparr> se_report := (se_report (ps_session st))\<lparr> ir_parser_bytes_read := ps_bytes_read st \<rparr> \<rparr>))"

section \<open>Both passes\<close>

definition first_report :: "preflight_report \<Rightarrow> inspection_report" where
  "first_report pre = \<lparr> ir_source_bytes = pr_source_bytes pre, ir_parser_bytes_read = 0, ir_segments = pr_segments pre,
     ir_display_sets = 0, ir_content_display_sets = 0, ir_clear_display_sets = 0,
     ir_duplicate_timestamps = pr_duplicates pre, ir_pts_wraps = pr_wraps pre,
     ir_epoch_continue_display_sets = pr_epoch_continue pre, ir_palette_definitions = 0, ir_object_definitions = 0,
     ir_max_canvas_width = 0, ir_max_canvas_height = 0, ir_max_canvas_pixels = 0, ir_max_composition_objects = 0,
     ir_object_peaks = \<lparr> ob_max_rgba = 0, ob_max_rle = 0 \<rparr>, ir_peak_cached_pixel_bytes = 0, ir_compositions = [] \<rparr>"

definition first_session :: "preflight_report \<Rightarrow> nat \<Rightarrow> pgs_session" where
  "first_session pre loads = \<lparr> se_state = fresh_normalizer, se_report = first_report pre, se_output = [], se_emitted = [],
     se_rgba_bytes = 0, se_loads = loads \<rparr>"

text \<open>\<open>source_bytes\<close> is the length the file's metadata gives before either pass.\<close>

definition process_sup_impl ::
    "pgs_env \<Rightarrow> parser_limits \<Rightarrow> output_mode \<Rightarrow> (nat \<Rightarrow> bool) option \<Rightarrow> nat \<Rightarrow> sup_reader \<Rightarrow> sup_reader \<Rightarrow>
     pgs_stop + pgs_session" where
  "process_sup_impl env limits mode cancelled source_bytes rd rd_again =
     (if max_sup_bytes limits < source_bytes then refuse (stream_limit (SupTooLarge source_bytes))
      else
        and_then (lift (preflight_sup env limits cancelled source_bytes rd)) (\<lambda>(pre, loads).
        and_then (parse_display_sets env limits mode cancelled rd_again (first_session pre loads)) (\<lambda>(sha, ses).
          if ir_display_sets (se_report ses) \<noteq> pr_display_sets pre
          then refuse (reread_error (SetCountChanged (pr_display_sets pre) (ir_display_sets (se_report ses))))
          else if sha \<noteq> pr_source_sha256 pre then refuse (reread_error ContentChanged)
          else Inr ses)))"

text \<open>The entry points: \<open>inspect_sup\<close>, \<open>normalize_sup\<close>, its cancellable form and the streaming form.\<close>

definition inspect_sup :: "pgs_env \<Rightarrow> parser_limits \<Rightarrow> nat \<Rightarrow> sup_reader \<Rightarrow> sup_reader \<Rightarrow> pgs_stop + inspection_report" where
  "inspect_sup env limits source_bytes rd rd_again =
     and_then (process_sup_impl env limits Inspect None source_bytes rd rd_again) (\<lambda>ses. Inr (se_report ses))"

definition normalize_sup ::
    "pgs_env \<Rightarrow> parser_limits \<Rightarrow> (nat \<Rightarrow> bool) option \<Rightarrow> nat \<Rightarrow> sup_reader \<Rightarrow> sup_reader \<Rightarrow>
     pgs_stop + inspection_report \<times> normalized_composition list" where
  "normalize_sup env limits cancelled source_bytes rd rd_again =
     and_then (process_sup_impl env limits Retain cancelled source_bytes rd rd_again)
       (\<lambda>ses. Inr (se_report ses, se_output ses))"

definition normalize_sup_into ::
    "pgs_env \<Rightarrow> parser_limits \<Rightarrow> (nat \<Rightarrow> bool) \<Rightarrow> (normalized_composition list \<Rightarrow> normalized_composition \<Rightarrow> adapter_error option) \<Rightarrow>
     nat \<Rightarrow> sup_reader \<Rightarrow> sup_reader \<Rightarrow> pgs_stop + inspection_report" where
  "normalize_sup_into env limits cancelled emit source_bytes rd rd_again =
     and_then (process_sup_impl env limits (Sink emit) (Some cancelled) source_bytes rd rd_again) (\<lambda>ses. Inr (se_report ses))"

end
