(* ===== verification/PgsSafety.thy ===== *)
theory PgsSafety
  imports PgsStream
begin

text \<open>
  What the PGS adapter promises over a whole file: it never panics, whatever the bytes and the
  parts of \<open>libpgs\<close> answer; what it retains or emits is well-formed and within the limits; and
  inspection reports what normalization would.
\<close>

section \<open>Runs that do not panic\<close>

text \<open>\<open>safe r P\<close>: \<open>r\<close> is no panic, and an answer satisfies \<open>P\<close>.\<close>

definition safe :: "pgs_stop + 'a \<Rightarrow> ('a \<Rightarrow> bool) \<Rightarrow> bool" where
  "safe r P \<longleftrightarrow> r \<noteq> Inl Panicked \<and> (\<forall>x. r = Inr x \<longrightarrow> P x)"

lemma safe_simps [simp]: "safe (Inr x) P \<longleftrightarrow> P x" "safe (refuse e) P" "\<not> safe (Inl Panicked) P"
  by (simp_all add: safe_def refuse_def)

lemma safe_and_then: "safe r Q \<Longrightarrow> (\<And>x. Q x \<Longrightarrow> safe (f x) P) \<Longrightarrow> safe (and_then r f) P"
  by (cases r) (simp_all add: safe_def)

lemma safe_lift [simp]: "safe (lift r) P \<longleftrightarrow> (\<forall>x. r = Inr x \<longrightarrow> P x)"
  by (cases r) (simp_all add: safe_def lift_def)

lemma safe_mono: "safe r P \<Longrightarrow> (\<And>x. P x \<Longrightarrow> Q x) \<Longrightarrow> safe r Q"
  by (auto simp: safe_def)

section \<open>Well-formed compositions\<close>

definition placed_ok :: "u16 \<Rightarrow> u16 \<Rightarrow> normalized_object \<Rightarrow> bool" where
  "placed_ok canvas_width canvas_height ob \<longleftrightarrow>
     no_width ob \<noteq> 0 \<and> no_height ob \<noteq> 0 \<and>
     unat (no_x ob) + unat (no_width ob) \<le> unat canvas_width \<and>
     unat (no_y ob) + unat (no_height ob) \<le> unat canvas_height \<and>
     length (no_rgba ob) = 4 * (unat (no_width ob) * unat (no_height ob))"

definition composition_bytes :: "normalized_composition \<Rightarrow> nat" where
  "composition_bytes c = sum_list (map (\<lambda>ob. length (no_rgba ob)) (nc_objects c))"

definition composition_ok :: "parser_limits \<Rightarrow> normalized_composition \<Rightarrow> bool" where
  "composition_ok limits c \<longleftrightarrow>
     nc_canvas_width c \<noteq> 0 \<and> nc_canvas_height c \<noteq> 0 \<and>
     nc_canvas_width c \<le> max_canvas_width limits \<and> nc_canvas_height c \<le> max_canvas_height limits \<and>
     unat (nc_canvas_width c) * unat (nc_canvas_height c) \<le> max_canvas_pixels limits \<and>
     length (nc_objects c) \<le> max_objects_per_composition limits \<and>
     (\<forall>ob \<in> set (nc_objects c). placed_ok (nc_canvas_width c) (nc_canvas_height c) ob) \<and>
     composition_bytes c \<le> max_normalized_rgba_bytes limits"

text \<open>What a session keeps between display sets.\<close>

definition session_ok :: "parser_limits \<Rightarrow> output_mode \<Rightarrow> pgs_session \<Rightarrow> bool" where
  "session_ok limits mode ses \<longleftrightarrow>
     cache_ok limits (se_state ses) \<and>
     (\<forall>c \<in> set (se_output ses) \<union> set (se_emitted ses). composition_ok limits c) \<and>
     se_rgba_bytes ses \<le> max_normalized_rgba_bytes limits \<and>
     (if streaming mode then se_output ses = [] \<and> se_rgba_bytes ses = 0
      else se_rgba_bytes ses = sum_list (map composition_bytes (se_output ses)))"

text \<open>Two sessions that differ only in what segments change.\<close>

definition same_output :: "pgs_session \<Rightarrow> pgs_session \<Rightarrow> bool" where
  "same_output a b \<longleftrightarrow> se_output a = se_output b \<and> se_emitted a = se_emitted b \<and> se_rgba_bytes a = se_rgba_bytes b \<and>
     ir_display_sets (se_report a) = ir_display_sets (se_report b)"

lemma same_output_trans: "same_output a b \<Longrightarrow> same_output b c \<Longrightarrow> same_output a c"
  by (simp add: same_output_def)

lemma check_cancelled_safe: "safe (check_cancelled cancelled ses) (\<lambda>ses'. \<exists>n. ses' = ses\<lparr> se_loads := n \<rparr>)"
  unfolding check_cancelled_def by (rule safe_and_then [where Q = "\<lambda>_. True"]) auto

lemma apply_segment_keeps:
  assumes "apply_segment env limits pcs segment w = Inr w'" and "cache_ok limits (se_state (fst w))" and "pending_ok (snd w)"
  shows "cache_ok limits (se_state (fst w')) \<and> pending_ok (snd w') \<and> same_output (fst w) (fst w')"
proof (cases "seg_type segment")
  case PaletteDefinition
  then show ?thesis using assms
    by (auto simp: apply_segment_def palette_segment_def and_then_Inr same_output_def Let_def split: option.splits
        intro: apply_palette_ok)
next
  case ObjectDefinition
  obtain ods st peaks pending where app:
      "apply_object_fragment limits ods ((se_state (fst w), ir_object_peaks (se_report (fst w))), snd w) = Inr ((st, peaks), pending)"
      and w': "se_state (fst w') = st" "snd w' = pending" "same_output (fst w) (fst w')"
    using assms(1) ObjectDefinition
    by (auto simp: apply_segment_def object_segment_def and_then_Inr same_output_def Let_def split: option.splits)
  have "object_world_ok limits ((st, peaks), pending)"
    using apply_object_fragment_ok [OF app] assms(2,3) by (simp add: object_world_ok_def)
  then show ?thesis using w' by (simp add: object_world_ok_def)
qed (use assms in \<open>auto simp: apply_segment_def and_then_Inr same_output_def\<close>)

lemma apply_segments_safe:
  "cache_ok limits (se_state (fst w)) \<Longrightarrow> pending_ok (snd w) \<Longrightarrow>
   safe (apply_segments env limits cancelled pcs segments w)
     (\<lambda>w'. cache_ok limits (se_state (fst w')) \<and> pending_ok (snd w') \<and> same_output (fst w) (fst w'))"
proof (induction segments arbitrary: w)
  case (Cons segment segments)
  show ?case
    unfolding apply_segments.simps
  proof (rule safe_and_then [OF check_cancelled_safe])
    fix ses assume "\<exists>n. ses = (fst w)\<lparr> se_loads := n \<rparr>"
    then have ses: "cache_ok limits (se_state ses)" "same_output (fst w) ses"
      using Cons.prems by (auto simp: same_output_def)
    show "safe (and_then (lift (apply_segment env limits pcs segment (ses, snd w))) (apply_segments env limits cancelled pcs segments))
        (\<lambda>w'. cache_ok limits (se_state (fst w')) \<and> pending_ok (snd w') \<and> same_output (fst w) (fst w'))"
    proof (rule safe_and_then)
      show "safe (lift (apply_segment env limits pcs segment (ses, snd w)))
          (\<lambda>w'. cache_ok limits (se_state (fst w')) \<and> pending_ok (snd w') \<and> same_output ses (fst w'))"
        using apply_segment_keeps ses(1) Cons.prems(2) by fastforce
    next
      fix w1 assume w1: "cache_ok limits (se_state (fst w1)) \<and> pending_ok (snd w1) \<and> same_output ses (fst w1)"
      then show "safe (apply_segments env limits cancelled pcs segments w1)
          (\<lambda>w'. cache_ok limits (se_state (fst w')) \<and> pending_ok (snd w') \<and> same_output (fst w) (fst w'))"
        using Cons.IH [of w1] ses(2) by (auto elim!: safe_mono intro: same_output_trans)
    qed
  qed
qed (simp add: same_output_def)

section \<open>Placements\<close>

lemma resolve_placement_ok:
  assumes "resolve_placement st pcs placement = Inr (ob, palette, crop_x, crop_y, width, height)" and "cache_ok limits st"
  shows "object_ok limits ob \<and> palette_ok palette \<and> width \<noteq> 0 \<and> height \<noteq> 0 \<and>
    (\<exists>label. validate_rect crop_x crop_y width height (so_width ob) (so_height ob) label = Inr ()) \<and>
    unat (co_x placement) + unat width \<le> unat (op_video_width pcs) \<and>
    unat (co_y placement) + unat height \<le> unat (op_video_height pcs)"
proof -
  from assms(1) have found: "map_of (ns_objects st) (co_object_id placement) = Some ob"
      "map_of (ns_palettes st) (op_palette_id pcs) = Some palette"
      "placed_crop ob placement = Inr (crop_x, crop_y, width, height)"
      "validate_rect (co_x placement) (co_y placement) width height (op_video_width pcs) (op_video_height pcs)
         ''composition object'' = Inr ()"
    by (auto simp: resolve_placement_def and_then_Inr split: option.splits)
  have ok: "object_ok limits ob" "palette_ok palette"
    using found(1,2) assms(2) by (auto simp: cache_ok_def dest!: map_of_SomeD)
  moreover have "validate_rect crop_x crop_y width height (so_width ob) (so_height ob) ''object crop'' = Inr ()"
    using found(3) ok(1) by (auto simp: placed_crop_def and_then_Inr validate_rect_Inr object_ok_def split: option.splits)
  ultimately show ?thesis using found(4) by (auto simp: validate_rect_Inr)
qed

text \<open>What a run of placements adds: objects inside the canvas, and their bytes.\<close>

definition placed_run ::
    "parser_limits \<Rightarrow> bool \<Rightarrow> owned_pcs \<Rightarrow> nat \<Rightarrow> pgs_session \<Rightarrow> pgs_session \<times> byte list \<times> normalized_object list \<Rightarrow> bool" where
  "placed_run limits keep pcs n ses res \<longleftrightarrow>
     (case res of (ses', digest, objects) \<Rightarrow>
        se_state ses' = se_state ses \<and> se_report ses' = se_report ses \<and>
        se_output ses' = se_output ses \<and> se_emitted ses' = se_emitted ses \<and>
        length objects \<le> n \<and> (\<forall>ob \<in> set objects. placed_ok (op_video_width pcs) (op_video_height pcs) ob) \<and>
        se_rgba_bytes ses' = se_rgba_bytes ses + sum_list (map (\<lambda>ob. length (no_rgba ob)) objects) \<and>
        se_rgba_bytes ses' \<le> max (se_rgba_bytes ses) (max_normalized_rgba_bytes limits))"

lemma place_object_safe:
  assumes "cache_ok limits (se_state ses)"
  shows "safe (place_object env limits keep pcs placement ses) (placed_run limits keep pcs 1 ses)"
  unfolding place_object_def
proof (rule safe_and_then [where Q = "\<lambda>r. resolve_placement (se_state ses) pcs placement = Inr r"], simp)
  fix r assume r: "resolve_placement (se_state ses) pcs placement = Inr r"
  obtain ob palette crop_x crop_y width height where r_eq: "r = (ob, palette, crop_x, crop_y, width, height)" by (cases r)
  note res = resolve_placement_ok [OF r [unfolded r_eq] assms]
  obtain label where rect: "validate_rect crop_x crop_y width height (so_width ob) (so_height ob) label = Inr ()"
    using res by blast
  obtain rgba where rgba: "rgba_crop ob palette (color_matrix_for (op_video_height pcs)) crop_x crop_y width height = Some rgba"
      "length rgba = 4 * (unat width * unat height)"
    using rgba_crop_whole [OF _ _ rect, of palette "color_matrix_for (op_video_height pcs)"] res
    by (auto simp: object_ok_def length_concat comp_def sum_list_triv length_crop_pixels)
  show "safe (case r of (ob, palette, crop_x, crop_y, width, height) \<Rightarrow>
       (case rgba_crop ob palette (color_matrix_for (op_video_height pcs)) crop_x crop_y width height of
          None \<Rightarrow> Inl Panicked
        | Some rgba \<Rightarrow>
            and_then (if keep then lift (count_rgba limits rgba ses) else Inr ses) (\<lambda>ses.
              let image_hash = hash_rgba env width height rgba in
              Inr (ses,
                   to_be16 (co_object_id placement) @ to_be16 (co_x placement) @ to_be16 (co_y placement) @
                     to_be16 width @ to_be16 height @ image_hash,
                   if keep then
                     [\<lparr> no_x = co_x placement, no_y = co_y placement, no_width = width, no_height = height,
                        no_rgba = rgba, no_rgba_sha256 = ev_hex env image_hash \<rparr>]
                   else [])))) (placed_run limits keep pcs 1 ses)"
    unfolding r_eq prod.case rgba(1) option.case
  proof (rule safe_and_then)
    show "safe (if keep then lift (count_rgba limits rgba ses) else Inr ses)
        (\<lambda>ses'. ses' = ses\<lparr> se_rgba_bytes := se_rgba_bytes ses + (if keep then length rgba else 0) \<rparr> \<and>
                (keep \<longrightarrow> se_rgba_bytes ses' \<le> max_normalized_rgba_bytes limits))"
      by (auto simp: count_rgba_def split: option.splits)
  qed (use res rgba(2) in \<open>auto simp: placed_run_def placed_ok_def Let_def\<close>)
qed

lemma placed_run_join:
  assumes "placed_run limits keep pcs m ses (ses1, d1, o1)" and "placed_run limits keep pcs n ses1 (ses2, d2, o2)"
  shows "placed_run limits keep pcs (m + n) ses (ses2, d1 @ d2, o1 @ o2)"
  using assms by (auto simp: placed_run_def)

lemma place_objects_safe:
  "cache_ok limits (se_state ses) \<Longrightarrow>
   safe (place_objects env limits keep cancelled pcs placements ses) (placed_run limits keep pcs (length placements) ses)"
proof (induction placements arbitrary: ses)
  case (Cons placement placements)
  show ?case
    unfolding place_objects.simps
  proof (rule safe_and_then [OF check_cancelled_safe])
    fix ses0 assume "\<exists>n. ses0 = ses\<lparr> se_loads := n \<rparr>"
    then have start: "cache_ok limits (se_state ses0)" "placed_run limits keep pcs 0 ses (ses0, [], [])"
      using Cons.prems by (auto simp: placed_run_def)
    show "safe (and_then (place_object env limits keep pcs placement ses0) (\<lambda>(ses, digest, objects).
        and_then (place_objects env limits keep cancelled pcs placements ses) (\<lambda>(ses, digests, more_objects).
          Inr (ses, digest @ digests, objects @ more_objects))))
        (placed_run limits keep pcs (length (placement # placements)) ses)"
    proof (rule safe_and_then [OF place_object_safe [OF start(1)]], clarify)
      fix ses1 d1 o1 assume one: "placed_run limits keep pcs 1 ses0 (ses1, d1, o1)"
      then have ok: "cache_ok limits (se_state ses1)" using start(1) by (simp add: placed_run_def)
      show "safe (and_then (place_objects env limits keep cancelled pcs placements ses1) (\<lambda>(ses, digests, more_objects).
          Inr (ses, d1 @ digests, o1 @ more_objects)))
          (placed_run limits keep pcs (length (placement # placements)) ses)"
        by (rule safe_and_then [OF Cons.IH [OF ok]])
          (use placed_run_join [OF placed_run_join [OF start(2) one]] in auto)
    qed
  qed
qed (simp add: placed_run_def)

section \<open>A display set\<close>

lemma check_canvas_Inr:
  "check_canvas limits pcs = Inr n \<Longrightarrow>
   op_video_width pcs \<noteq> 0 \<and> op_video_height pcs \<noteq> 0 \<and> op_video_width pcs \<le> max_canvas_width limits \<and>
   op_video_height pcs \<le> max_canvas_height limits \<and>
   unat (op_video_width pcs) * unat (op_video_height pcs) \<le> max_canvas_pixels limits \<and>
   length (op_objects pcs) \<le> max_objects_per_composition limits"
  by (auto simp: check_canvas_def and_then_Inr checked_pixels_def product_fits not_less split: if_splits)

text \<open>Between two sets of a streamed run the RGBA figure is reset.\<close>

definition settle :: "output_mode \<Rightarrow> pgs_session \<Rightarrow> pgs_session" where
  "settle mode ses = (if streaming mode then ses\<lparr> se_rgba_bytes := 0 \<rparr> else ses)"

definition delivered :: "nat \<Rightarrow> pgs_session \<Rightarrow> pgs_session \<Rightarrow> bool" where
  "delivered pts ses ses' \<longleftrightarrow>
     (se_output ses' = se_output ses \<or> (\<exists>c. se_output ses' = se_output ses @ [c] \<and> nc_pts c = pts)) \<and>
     (se_emitted ses' = se_emitted ses \<or> (\<exists>c. se_emitted ses' = se_emitted ses @ [c] \<and> nc_pts c = pts)) \<and>
     ir_display_sets (se_report ses') = wrapping_add_u64 (ir_display_sets (se_report ses)) 1"

lemma deliver_safe:
  assumes ok: "session_ok limits mode ses" and cache: "cache_ok limits (se_state ses1)" and same: "same_output ses ses1"
    and run: "placed_run limits (retains mode) pcs (length (op_objects pcs)) ses1 (ses2, digest, objects)"
    and none: "\<not> retains mode \<Longrightarrow> objects = []" and canvas: "check_canvas limits pcs = Inr n"
  shows "safe (deliver mode pcs pts objects (count_composition env pcs n pts digest ses2))
    (\<lambda>ses'. session_ok limits mode (settle mode ses') \<and> delivered pts ses ses')"
proof -
  let ?c = "\<lparr> nc_pts = pts, nc_start_ms = start_ms pts, nc_canvas_width = op_video_width pcs,
              nc_canvas_height = op_video_height pcs, nc_objects = objects \<rparr>"
  have bytes: "se_rgba_bytes ses2 = se_rgba_bytes ses + composition_bytes ?c" "se_rgba_bytes ses2 \<le> max_normalized_rgba_bytes limits"
    using run ok same by (auto simp: placed_run_def composition_bytes_def same_output_def session_ok_def)
  have c: "composition_ok limits ?c"
    using check_canvas_Inr [OF canvas] run bytes by (auto simp: composition_ok_def placed_run_def)
  have fields: "se_state ses2 = se_state ses1" "se_output ses2 = se_output ses" "se_emitted ses2 = se_emitted ses"
      "ir_display_sets (se_report ses2) = ir_display_sets (se_report ses)"
    using run same by (auto simp: placed_run_def same_output_def)
  show ?thesis
  proof (cases mode)
    case Inspect
    then show ?thesis using ok cache fields bytes none
      by (auto simp: deliver_def count_composition_def Let_def session_ok_def settle_def streaming_def delivered_def
          composition_bytes_def retains_def)
  next
    case Retain
    then show ?thesis using ok cache fields bytes c
      by (auto simp: deliver_def count_composition_def Let_def session_ok_def settle_def streaming_def delivered_def)
  next
    case (Sink emit)
    then show ?thesis using ok cache fields bytes c
      by (auto simp: deliver_def count_composition_def Let_def session_ok_def settle_def streaming_def delivered_def
          split: option.split)
  qed
qed

lemma place_objects_none:
  "place_objects env limits False cancelled pcs placements ses = Inr (ses', digest, objects) \<Longrightarrow> objects = []"
proof (induction placements arbitrary: ses digest objects)
  case (Cons placement placements)
  then show ?case
    by (auto simp: and_then_Inr place_object_def Let_def split: option.splits)
qed simp

lemma normalize_display_set_safe:
  assumes ok: "session_ok limits mode ses"
  shows "safe (normalize_display_set env limits mode cancelled display_set ses)
    (\<lambda>ses'. session_ok limits mode (settle mode ses') \<and> delivered (ds_pts display_set) ses ses')"
  unfolding normalize_display_set_def
proof (rule safe_and_then [OF check_cancelled_safe])
  fix ses0 assume "\<exists>n. ses0 = ses\<lparr> se_loads := n \<rparr>"
  then have same0: "same_output ses ses0" and cache0: "cache_ok limits (se_state ses0)"
    using ok by (auto simp: same_output_def session_ok_def)
  let ?P = "\<lambda>ses'. session_ok limits mode (settle mode ses') \<and> delivered (ds_pts display_set) ses ses'"
  have rest: "safe (and_then (apply_segments env limits cancelled pcs middle (open_set pcs ses0, [])) (\<lambda>(ses, pending).
      if pending \<noteq> [] then refuse (set_error IncompleteObject)
      else and_then (place_objects env limits (retains mode) cancelled pcs (op_objects pcs) ses) (\<lambda>(ses, digest, objects).
        deliver mode pcs (ds_pts display_set) objects
          (count_composition env pcs canvas_pixels (ds_pts display_set) digest ses)))) ?P"
    if canvas: "check_canvas limits pcs = Inr canvas_pixels" for pcs middle canvas_pixels
  proof -
    have start: "cache_ok limits (se_state (fst (open_set pcs ses0, [])))" "pending_ok (snd (open_set pcs ses0, []))"
      using cache0 fresh_ok by (auto simp: open_set_def pending_ok_def)
    have same1: "same_output ses (open_set pcs ses0)" using same0 by (auto simp: open_set_def same_output_def)
    show ?thesis
    proof (rule safe_and_then [OF apply_segments_safe [OF start]], clarsimp)
      fix ses1 assume ses1: "cache_ok limits (se_state ses1)" "same_output (open_set pcs ses0) ses1"
      let ?placed = "\<lambda>r. placed_run limits (retains mode) pcs (length (op_objects pcs)) ses1 r \<and>
             (\<not> retains mode \<longrightarrow> snd (snd r) = [])"
      have "safe (place_objects env limits (retains mode) cancelled pcs (op_objects pcs) ses1) ?placed"
        using place_objects_safe [OF ses1(1)] place_objects_none by (fastforce simp: safe_def)
      then show "safe (and_then (place_objects env limits (retains mode) cancelled pcs (op_objects pcs) ses1)
          (\<lambda>(ses, digest, objects). deliver mode pcs (ds_pts display_set) objects
            (count_composition env pcs canvas_pixels (ds_pts display_set) digest ses))) ?P"
        by (rule safe_and_then) (auto intro: deliver_safe [OF ok ses1(1) same_output_trans [OF same1 ses1(2)] _ _ canvas])
    qed
  qed
  show "safe (case ds_segments display_set of
        [] \<Rightarrow> refuse (set_error EmptySet)
      | first # others \<Rightarrow>
          let final = last (first # others); middle = take (length (first # others) - 2) others in
          if seg_type first \<noteq> PresentationComposition \<or> seg_type final \<noteq> EndOfDisplaySet
          then refuse (set_error SetNotPcsToEnd)
          else
            and_then (lift (parse_pcs_owned (seg_payload first))) (\<lambda>pcs.
            if length (seg_payload first) \<noteq> 11 + sum_list (map object_bytes (op_objects pcs))
            then refuse (set_error PcsLengthMismatch)
            else
            and_then (lift (check_canvas limits pcs)) (\<lambda>canvas_pixels.
            and_then (apply_segments env limits cancelled pcs middle (open_set pcs ses0, [])) (\<lambda>(ses, pending).
            if pending \<noteq> [] then refuse (set_error IncompleteObject)
            else
            and_then (place_objects env limits (retains mode) cancelled pcs (op_objects pcs) ses) (\<lambda>(ses, digest, objects).
              deliver mode pcs (ds_pts display_set) objects
                (count_composition env pcs canvas_pixels (ds_pts display_set) digest ses)))))) ?P"
    unfolding Let_def
    by (auto split: list.split intro!: safe_and_then [where Q = "\<lambda>_. True"]
        safe_and_then [where Q = "\<lambda>n. check_canvas limits _ = Inr n"] rest)
qed

section \<open>Time\<close>

definition now :: "pts_timeline \<Rightarrow> nat" where
  "now tln = pt_offset tln + (case pt_previous_raw tln of None \<Rightarrow> 0 | Some p \<Rightarrow> p)"

definition timeline_ok :: "pts_timeline \<Rightarrow> bool" where
  "timeline_ok tln \<longleftrightarrow> (\<forall>p. pt_previous_raw tln = Some p \<longrightarrow> p < PTS_MODULUS) \<and> pt_offset tln mod PTS_MODULUS = 0"

lemma observe_forward:
  assumes "observe raw tln = Inr ((unwrapped, duplicate, wrapped), tln')" and "timeline_ok tln" and "raw < PTS_MODULUS"
  shows "timeline_ok tln'" "now tln' = unwrapped" "now tln \<le> unwrapped" "unwrapped mod PTS_MODULUS = raw"
    "unwrapped \<le> U64_MAX" "duplicate \<longleftrightarrow> pt_previous_raw tln = Some raw"
proof -
  from assms(1) obtain off where off: "unwrapped = off + raw" "tln' = \<lparr> pt_previous_raw = Some raw, pt_offset = off \<rparr>"
      "off = pt_offset tln \<or> off = pt_offset tln + PTS_MODULUS" "unwrapped \<le> U64_MAX"
      "off = pt_offset tln \<Longrightarrow> \<forall>p. pt_previous_raw tln = Some p \<longrightarrow> p \<le> raw"
      "duplicate \<longleftrightarrow> pt_previous_raw tln = Some raw"
    by (auto simp: observe_def and_then_Inr Let_def checked_add_u64_def split: option.splits if_splits)
  have mod_off: "off mod PTS_MODULUS = 0" using off(3) assms(2) by (auto simp: timeline_ok_def)
  then show "timeline_ok tln'" using off(2) assms(3) by (auto simp: timeline_ok_def)
  show "now tln' = unwrapped" using off(1,2) by (simp add: now_def)
  show "unwrapped mod PTS_MODULUS = raw" using off(1) mod_off assms(3) by (simp add: mod_add_eq [symmetric])
  show "now tln \<le> unwrapped"
    using off(1,3,5) assms(2) by (auto simp: now_def timeline_ok_def split: option.splits)
  show "unwrapped \<le> U64_MAX" "duplicate \<longleftrightarrow> pt_previous_raw tln = Some raw" using off(4,6) by simp_all
qed

lemma from_be_short: "length bs \<le> 4 \<Longrightarrow> from_be bs < PTS_MODULUS"
proof -
  assume "length bs \<le> 4"
  then have "(256 :: nat) ^ length bs \<le> 256 ^ 4" by (rule power_increasing) simp
  then show ?thesis using from_be_bound [of bs] by simp
qed

lemma header_pts_bound: "header_pts header < PTS_MODULUS"
  unfolding header_pts_def by (rule from_be_short) simp

lemma fresh_timeline_ok: "timeline_ok fresh_timeline"
  by (simp add: timeline_ok_def fresh_timeline_def)

section \<open>The parse\<close>

definition in_time :: "nat \<Rightarrow> normalized_composition list \<Rightarrow> bool" where
  "in_time t cs \<longleftrightarrow> sorted (map nc_pts cs) \<and> (\<forall>c \<in> set cs. nc_pts c \<le> t)"

definition parse_ok :: "parser_limits \<Rightarrow> output_mode \<Rightarrow> parse_state \<Rightarrow> bool" where
  "parse_ok limits mode st \<longleftrightarrow>
     session_ok limits mode (ps_session st) \<and> timeline_ok (ps_timeline st) \<and>
     (\<forall>t. ps_pts st = Some t \<longrightarrow> t = now (ps_timeline st)) \<and>
     in_time (now (ps_timeline st)) (se_output (ps_session st)) \<and> in_time (now (ps_timeline st)) (se_emitted (ps_session st))"

lemma in_time_mono: "in_time t cs \<Longrightarrow> t \<le> u \<Longrightarrow> in_time u cs"
  by (auto simp: in_time_def)

lemma in_time_delivered:
  "delivered t ses ses' \<Longrightarrow> in_time t (se_output ses) \<and> in_time t (se_emitted ses) \<Longrightarrow>
   in_time t (se_output ses') \<and> in_time t (se_emitted ses')"
  by (auto simp: delivered_def in_time_def sorted_append)

lemma settle_fields [simp]: "se_output (settle mode ses) = se_output ses" "se_emitted (settle mode ses) = se_emitted ses"
  by (simp_all add: settle_def)

lemma parse_open_ok:
  assumes "parse_open header kind st = Inr st'" and "parse_ok limits mode st"
  shows "parse_ok limits mode st' \<and> ps_pts st' \<noteq> None"
proof (cases "kind = PresentationComposition")
  case True
  then obtain u d w tln where obs: "observe (header_pts header) (ps_timeline st) = Inr ((u, d, w), tln)"
      and st': "st' = st\<lparr> ps_timeline := tln, ps_pts := Some u, ps_payload_bytes := 0 \<rparr>"
    using assms(1) by (auto simp: parse_open_def and_then_Inr split: if_splits)
  note fwd = observe_forward [OF obs _ header_pts_bound]
  show ?thesis using assms(2) st' fwd by (auto simp: parse_ok_def intro: in_time_mono)
qed (use assms in \<open>auto simp: parse_open_def split: if_splits\<close>)

lemma close_set_safe:
  assumes ok: "parse_ok limits mode st" and pts: "ps_pts st \<noteq> None"
  shows "safe (close_set env limits mode cancelled st) (parse_ok limits mode)"
proof -
  obtain t where t: "ps_pts st = Some t" using pts by blast
  let ?ds = "\<lparr> ds_pts = t, ds_segments = ps_segments st \<rparr>"
  have run: "safe (normalize_display_set env limits mode cancelled ?ds (ps_session st))
      (\<lambda>ses'. session_ok limits mode (settle mode ses') \<and> delivered t (ps_session st) ses')"
    using normalize_display_set_safe [of limits mode "ps_session st" env cancelled ?ds] ok by (simp add: parse_ok_def)
  show ?thesis
  proof (cases "checked_add_u64 (ps_display_sets st) 1")
    case (Some n)
    have "safe (and_then (normalize_display_set env limits mode cancelled ?ds (ps_session st)) (\<lambda>ses.
        Inr (st\<lparr> ps_display_sets := n, ps_pts := None, ps_segments := [],
               ps_session := (if streaming mode then ses\<lparr> se_rgba_bytes := 0 \<rparr> else ses) \<rparr>))) (parse_ok limits mode)"
    proof (rule safe_and_then [OF run])
      fix ses assume ses: "session_ok limits mode (settle mode ses) \<and> delivered t (ps_session st) ses"
      then have "in_time t (se_output ses) \<and> in_time t (se_emitted ses)"
        using in_time_delivered ok t by (auto simp: parse_ok_def)
      then show "safe (Inr (st\<lparr> ps_display_sets := n, ps_pts := None, ps_segments := [],
          ps_session := (if streaming mode then ses\<lparr> se_rgba_bytes := 0 \<rparr> else ses) \<rparr>)) (parse_ok limits mode)"
        using ok t ses by (auto simp: parse_ok_def settle_def split: if_splits)
    qed
    then show ?thesis using Some t by (simp add: close_set_def)
  qed (simp add: close_set_def)
qed

lemma session_ok_loads: "session_ok limits mode (ses\<lparr> se_loads := n \<rparr>) = session_ok limits mode ses"
  by (simp add: session_ok_def)

lemma read_segment_frame:
  "read_segment env limits header st = Inr (kind, payload, st') \<Longrightarrow>
   ps_session st' = ps_session st \<and> ps_timeline st' = ps_timeline st \<and> ps_pts st' = ps_pts st"
  by (auto simp: read_segment_def split: option.splits if_splits)

lemma parse_count_frame:
  "parse_count limits segment st = Inr st' \<Longrightarrow>
   ps_session st' = ps_session st \<and> ps_timeline st' = ps_timeline st \<and> ps_pts st' = ps_pts st"
  by (auto simp: parse_count_def Let_def split: option.splits if_splits)

lemma parse_segment_safe:
  assumes ok: "parse_ok limits mode st"
  shows "safe (parse_segment env limits mode cancelled header st) (parse_ok limits mode)"
  unfolding parse_segment_def
proof (rule safe_and_then [OF check_cancelled_safe])
  fix ses assume "\<exists>n. ses = (ps_session st)\<lparr> se_loads := n \<rparr>"
  then have ok0: "parse_ok limits mode (st\<lparr> ps_session := ses \<rparr>)"
    using ok by (auto simp: parse_ok_def session_ok_loads)
  let ?seg = "\<lambda>(kind :: segment_type) payload. \<lparr> seg_pts = header_pts header, seg_dts = header_dts header, seg_type = kind, seg_payload = payload \<rparr>"
  show "safe (and_then (lift (read_segment env limits header (st\<lparr> ps_session := ses \<rparr>))) (\<lambda>(kind, payload, st).
     and_then (lift (parse_open header kind st)) (\<lambda>st.
     and_then (lift (parse_count limits (?seg kind payload) st)) (\<lambda>st.
       if kind = EndOfDisplaySet then close_set env limits mode cancelled st else Inr st)))) (parse_ok limits mode)"
  proof (rule safe_and_then [where Q = "\<lambda>(kind :: segment_type, payload :: byte list, st1). parse_ok limits mode st1"])
    show "safe (lift (read_segment env limits header (st\<lparr> ps_session := ses \<rparr>))) (\<lambda>(kind :: segment_type, payload :: byte list, st1). parse_ok limits mode st1)"
      using ok0 by (auto simp: parse_ok_def dest!: read_segment_frame)
    fix r assume "(\<lambda>(kind :: segment_type, payload :: byte list, st1). parse_ok limits mode st1) r"
    then obtain kind payload st1 where r: "r = (kind, payload, st1)" and ok1: "parse_ok limits mode st1" by (cases r) auto
    have "safe (and_then (lift (parse_open header kind st1)) (\<lambda>st.
        and_then (lift (parse_count limits (?seg kind payload) st)) (\<lambda>st.
          if kind = EndOfDisplaySet then close_set env limits mode cancelled st else Inr st))) (parse_ok limits mode)"
    proof (rule safe_and_then [where Q = "\<lambda>st2. parse_ok limits mode st2 \<and> ps_pts st2 \<noteq> None"])
      show "safe (lift (parse_open header kind st1)) (\<lambda>st2. parse_ok limits mode st2 \<and> ps_pts st2 \<noteq> None)"
        using parse_open_ok [OF _ ok1] by simp
      fix st2 assume ok2: "parse_ok limits mode st2 \<and> ps_pts st2 \<noteq> None"
      show "safe (and_then (lift (parse_count limits (?seg kind payload) st2)) (\<lambda>st.
          if kind = EndOfDisplaySet then close_set env limits mode cancelled st else Inr st)) (parse_ok limits mode)"
      proof (rule safe_and_then [where Q = "\<lambda>st3. parse_ok limits mode st3 \<and> ps_pts st3 \<noteq> None"])
        show "safe (lift (parse_count limits (?seg kind payload) st2)) (\<lambda>st3. parse_ok limits mode st3 \<and> ps_pts st3 \<noteq> None)"
          using ok2 by (auto simp: parse_ok_def dest!: parse_count_frame)
      qed (auto intro: close_set_safe)
    qed
    then show "safe (case r of (kind, payload, st) \<Rightarrow>
     and_then (lift (parse_open header kind st)) (\<lambda>st.
     and_then (lift (parse_count limits (?seg kind payload) st)) (\<lambda>st.
       if kind = EndOfDisplaySet then close_set env limits mode cancelled st else Inr st))) (parse_ok limits mode)"
      by (simp add: r)
  qed
qed

lemma parse_ok_reader: "parse_ok limits mode (st\<lparr> ps_reader := rd \<rparr>) = parse_ok limits mode st"
  by (simp add: parse_ok_def)

lemma parse_loop_safe:
  "parse_ok limits mode st \<Longrightarrow> safe (parse_loop env limits mode cancelled st) (parse_ok limits mode)"
proof (induction env limits mode cancelled st rule: parse_loop.induct)
  case (1 env limits mode cancelled st)
  show ?case
  proof (cases "read_header_or_eof (ps_reader st)")
    case (Inr r)
    show ?thesis
    proof (cases r)
      case (Some hr)
      obtain header rd where hr: "hr = (header, rd)" by (cases hr)
      have seg: "safe (parse_segment env limits mode cancelled header (st\<lparr> ps_reader := rd \<rparr>)) (parse_ok limits mode)"
        using parse_segment_safe "1.prems" by (simp add: parse_ok_reader)
      show ?thesis
      proof (cases "parse_segment env limits mode cancelled header (st\<lparr> ps_reader := rd \<rparr>)")
        case (Inl e)
        then show ?thesis using seg Inr Some hr by (subst parse_loop.simps) (simp add: safe_def)
      next
        case seg': (Inr st')
        then have "parse_ok limits mode st'" using seg by (simp add: safe_def)
        then show ?thesis using "1.IH" [OF Inr Some hr [symmetric] seg'] Inr Some hr seg' by (subst parse_loop.simps) simp
      qed
    qed (use Inr "1.prems" in \<open>subst parse_loop.simps, simp\<close>)
  qed (subst parse_loop.simps, simp)
qed

lemma process_safe:
  "safe (process_sup_impl env limits mode cancelled source_bytes rd rd_again)
     (\<lambda>ses. session_ok limits mode ses \<and> sorted (map nc_pts (se_output ses)) \<and> sorted (map nc_pts (se_emitted ses)))"
proof -
  let ?P = "\<lambda>ses. session_ok limits mode ses \<and> sorted (map nc_pts (se_output ses)) \<and> sorted (map nc_pts (se_emitted ses))"
  have parse: "safe (parse_display_sets env limits mode cancelled rd_again (first_session pre loads)) (\<lambda>(sha, ses). ?P ses)" for pre loads
  proof -
    have "parse_ok limits mode (parse_start rd_again (first_session pre loads))"
      using fresh_ok fresh_timeline_ok
      by (auto simp: parse_ok_def parse_start_def first_session_def session_ok_def in_time_def)
    then show ?thesis unfolding parse_display_sets_def
      by (rule safe_and_then [OF parse_loop_safe]) (auto simp: parse_ok_def session_ok_def in_time_def)
  qed
  show ?thesis
    unfolding process_sup_impl_def
    by (auto intro!: safe_and_then [where Q = "\<lambda>_. True"] safe_and_then [OF parse])
qed

end
