(* ===== verification/PgsAgree.thy ===== *)
theory PgsAgree
  imports PgsSafety
begin

text \<open>
  The two passes over an unchanged file see the same display sets: once the preflight has
  accepted the bytes, the owned parse has no framing error left to raise, and normalizing the
  file is normalizing its display sets one after the other.
\<close>

section \<open>The display sets of a file\<close>

fun run_sets ::
    "pgs_env \<Rightarrow> parser_limits \<Rightarrow> output_mode \<Rightarrow> (nat \<Rightarrow> bool) option \<Rightarrow> raw_display_set list \<Rightarrow> pgs_session \<Rightarrow> pgs_stop + pgs_session" where
  "run_sets env limits mode cancelled [] ses = Inr ses"
| "run_sets env limits mode cancelled (ds # dss) ses =
     and_then (normalize_display_set env limits mode cancelled ds ses)
       (\<lambda>ses. run_sets env limits mode cancelled dss (settle mode ses))"

definition opened :: "pgs_segment list \<Rightarrow> bool" where
  "opened segments \<longleftrightarrow>
     segments \<noteq> [] \<and> seg_type (hd segments) = PresentationComposition \<and>
     (\<forall>s \<in> set (tl segments). seg_type s \<noteq> PresentationComposition \<and> seg_type s \<noteq> EndOfDisplaySet)"

text \<open>A display set runs from its composition to its END, with nothing of either kind between.\<close>

definition framed :: "parser_limits \<Rightarrow> raw_display_set \<Rightarrow> bool" where
  "framed limits ds \<longleftrightarrow>
     (\<exists>segments final. ds_segments ds = segments @ [final] \<and> opened segments \<and> seg_type final = EndOfDisplaySet) \<and>
     length (ds_segments ds) \<le> max_segments_per_display_set limits"

text \<open>The segment types of the format, as \<open>SegmentType::from_byte\<close> documents them.\<close>

definition documented_type :: "byte \<Rightarrow> segment_type option" where
  "documented_type b =
     (if b = 0x14 then Some PaletteDefinition
      else if b = 0x15 then Some ObjectDefinition
      else if b = 0x16 then Some PresentationComposition
      else if b = 0x17 then Some WindowDefinition
      else if b = 0x80 then Some EndOfDisplaySet
      else None)"

text \<open>
  A segment in the file: the magic, both stamps, the type, the length and the payload, all
  big-endian.
\<close>

fun type_byte :: "segment_type \<Rightarrow> byte" where
  "type_byte PaletteDefinition = 0x14"
| "type_byte ObjectDefinition = 0x15"
| "type_byte PresentationComposition = 0x16"
| "type_byte WindowDefinition = 0x17"
| "type_byte EndOfDisplaySet = 0x80"

definition segment_bytes :: "pgs_segment \<Rightarrow> byte list" where
  "segment_bytes seg = [0x50, 0x47] @ be_bytes 4 (seg_pts seg) @ be_bytes 4 (seg_dts seg) @ [type_byte (seg_type seg)] @
     be_bytes 2 (length (seg_payload seg)) @ seg_payload seg"

definition segments_bytes :: "pgs_segment list \<Rightarrow> byte list" where
  "segments_bytes segs = concat (map segment_bytes segs)"

lemma segments_bytes_simps [simp]:
  "segments_bytes [] = []" "segments_bytes (xs @ ys) = segments_bytes xs @ segments_bytes ys" "segments_bytes (x # xs) = segment_bytes x @ segments_bytes xs"
  by (simp_all add: segments_bytes_def)

text \<open>The times of display sets: their opening stamps, one after the other through the timeline.\<close>

fun observe_all :: "nat list \<Rightarrow> pts_timeline \<Rightarrow> adapter_error + nat list" where
  "observe_all [] tln = Inr []"
| "observe_all (raw # raws) tln =
     and_then (observe raw tln) (\<lambda>((unwrapped, _, _), tln).
       and_then (observe_all raws tln) (\<lambda>rest. Inr (unwrapped # rest)))"

definition opening_stamp :: "raw_display_set \<Rightarrow> nat" where
  "opening_stamp ds = seg_pts (hd (ds_segments ds))"

definition timed_from :: "pts_timeline \<Rightarrow> raw_display_set list \<Rightarrow> bool" where
  "timed_from tln sets \<longleftrightarrow> observe_all (map opening_stamp sets) tln = Inr (map ds_pts sets)"

text \<open>The file is exactly these display sets, and their times are those of the timeline.\<close>

definition file_holds :: "sup_reader \<Rightarrow> raw_display_set list \<Rightarrow> bool" where
  "file_holds rd sets \<longleftrightarrow>
     rd_bytes rd = segments_bytes (concat (map ds_segments sets)) \<and> timed_from fresh_timeline sets"

definition reads_types :: "pgs_env \<Rightarrow> bool" where
  "reads_types env \<longleftrightarrow> ev_segment_type env = documented_type"

section \<open>The stages of the preflight\<close>

lemma checked_add_u64_None [simp]: "checked_add_u64 a b = None \<longleftrightarrow> U64_MAX < a + b"
  by (auto simp: checked_add_u64_def)

lemma checked_add_u64_Some [simp]: "checked_add_u64 a b = Some c \<longleftrightarrow> c = a + b \<and> a + b \<le> U64_MAX"
  by (auto simp: checked_add_u64_def)

lemma preflight_pcs_prefix_spec:
  assumes "preflight_pcs_prefix n st = Inr st1"
  obtains prefix rd k where "8 \<le> n" "read_exact 8 (pf_reader st) = Some (prefix, rd)" "pf_bytes_read st + 8 \<le> U64_MAX"
    "st1 = st\<lparr> pf_reader := rd, pf_hashed := pf_hashed st @ prefix, pf_bytes_read := pf_bytes_read st + 8, pf_epoch_continue := k \<rparr>"
proof -
  from assms have n: "8 \<le> n" by (simp add: preflight_pcs_prefix_def split: if_splits)
  with assms obtain prefix rd where r: "read_exact 8 (pf_reader st) = Some (prefix, rd)"
    by (cases "read_exact 8 (pf_reader st)") (simp_all add: preflight_pcs_prefix_def, force)
  with assms n have u: "pf_bytes_read st + 8 \<le> U64_MAX"
    by (cases "checked_add_u64 (pf_bytes_read st) 8") (simp_all add: preflight_pcs_prefix_def)
  then have "checked_add_u64 (pf_bytes_read st) 8 = Some (pf_bytes_read st + 8)" by simp
  with assms n r show thesis
    by (intro that [OF n r u, of "if prefix ! 7 = 0xC0 then wrapping_add_u64 (pf_epoch_continue st) 1 else pf_epoch_continue st"])
      (simp add: preflight_pcs_prefix_def del: checked_add_u64_Some split: if_split_asm)
qed

lemma preflight_open_pcs:
  assumes "preflight_open header st = Inr st2" and pcs: "header ! 10 = 0x16"
  obtains u d w tln k1 k2 where "\<not> pf_in_set st"
    "observe (header_pts header) (pf_timeline st) = Inr ((u, d, w), tln)"
    "st2 = st\<lparr> pf_in_set := True, pf_set_segments := 0, pf_set_payload := 0, pf_timeline := tln,
               pf_duplicates := k1, pf_wraps := k2 \<rparr>"
proof -
  have out: "\<not> pf_in_set st" using assms by (auto simp: preflight_open_def)
  then obtain u d w tln where obs: "observe (header_pts header) (pf_timeline st) = Inr ((u, d, w), tln)"
    using assms by (auto simp: preflight_open_def and_then_Inr)
  show thesis
    by (rule that [OF out obs, of "if w then wrapping_add_u64 (pf_wraps st) 1 else pf_wraps st"
          "if d then wrapping_add_u64 (pf_duplicates st) 1 else pf_duplicates st"])
      (use assms out obs in \<open>simp add: preflight_open_def\<close>)
qed

lemma preflight_open_inner:
  "preflight_open header st = Inr st2 \<Longrightarrow> header ! 10 \<noteq> 0x16 \<Longrightarrow> pf_in_set st \<and> st2 = st"
  by (simp add: preflight_open_def split: if_splits)

lemma preflight_count_spec:
  assumes "preflight_count limits n st = Inr st3"
  obtains k where "Suc (pf_set_segments st) \<le> max_segments_per_display_set limits"
    "pf_set_payload st + n \<le> max_payload_bytes_per_display_set limits" "pf_set_payload st + n \<le> USIZE_MAX"
    "st3 = st\<lparr> pf_segments := k, pf_set_segments := Suc (pf_set_segments st), pf_set_payload := pf_set_payload st + n \<rparr>"
  using assms by (auto simp: preflight_count_def split: option.splits if_splits)

lemma discard_spec:
  assumes "discard_exact_hashed n rd hashed k = Inr (rd', hashed', k')"
  obtains bytes where "read_exact n rd = Some (bytes, rd')" "hashed' = hashed @ bytes" "k' = k + n" "k + n \<le> U64_MAX"
  using assms by (auto simp: discard_exact_hashed_def split: option.splits)

lemma preflight_close_spec:
  assumes "preflight_close limits header st = Inr st'"
  obtains (end_set) "header ! 10 = 0x80" "pf_bytes_read st \<le> max_sup_bytes limits"
    "wrapping_add_u64 (pf_display_sets st) 1 \<le> max_display_sets limits"
    "st' = st\<lparr> pf_display_sets := wrapping_add_u64 (pf_display_sets st) 1, pf_in_set := False \<rparr>"
  | (open_set) "header ! 10 \<noteq> 0x80" "pf_bytes_read st \<le> max_sup_bytes limits" "st' = st"
  using assms by (auto simp: preflight_close_def Let_def split: if_splits)

lemma read_exact_split:
  assumes "read_exact a rd = Some (xs, rd1)" and "read_exact (n - a) rd1 = Some (ys, rd2)" and "a \<le> n"
  shows "read_exact n rd = Some (xs @ ys, rd2)"
proof -
  from assms obtain "a \<le> length (rd_bytes rd)" "xs = take a (rd_bytes rd)" "rd1 = rd\<lparr> rd_bytes := drop a (rd_bytes rd) \<rparr>"
    by (auto simp: read_exact_def split: if_splits)
  moreover from this assms(2) have "n - a \<le> length (rd_bytes rd) - a" "ys = take (n - a) (drop a (rd_bytes rd))"
      "rd2 = rd\<lparr> rd_bytes := drop n (rd_bytes rd) \<rparr>"
    using assms(3) by (auto simp: read_exact_def split: if_splits)
  moreover have "take n zs = take a zs @ take (n - a) (drop a zs)" for zs :: "byte list"
    using take_add [of a "n - a" zs] assms(3) by simp
  ultimately show ?thesis using assms(3) by (simp add: read_exact_def)
qed

text \<open>What one accepted segment does to the state of the preflight.\<close>

definition after_segment ::
    "parser_limits \<Rightarrow> byte list \<Rightarrow> byte list \<Rightarrow> preflight_state \<Rightarrow> preflight_state \<Rightarrow> bool" where
  "after_segment limits header payload p p' \<longleftrightarrow>
     (\<exists>rd. read_exact (header_payload header) (pf_reader p) = Some (payload, rd) \<and> pf_reader p' = rd) \<and>
     header_magic header \<and> header ! 10 \<in> {0x14, 0x15, 0x16, 0x17, 0x80} \<and>
     pf_hashed p' = pf_hashed p @ header @ payload \<and>
     pf_bytes_read p' = pf_bytes_read p + 13 + header_payload header \<and>
     pf_bytes_read p' \<le> U64_MAX \<and> pf_bytes_read p' \<le> max_sup_bytes limits \<and>
     (if header ! 10 = 0x16
      then \<not> pf_in_set p \<and> (\<exists>u d w. observe (header_pts header) (pf_timeline p) = Inr ((u, d, w), pf_timeline p')) \<and>
           pf_set_segments p' = 1 \<and> pf_set_payload p' = header_payload header
      else pf_in_set p \<and> pf_timeline p' = pf_timeline p \<and> pf_set_segments p' = Suc (pf_set_segments p) \<and>
           pf_set_payload p' = pf_set_payload p + header_payload header) \<and>
     pf_set_segments p' \<le> max_segments_per_display_set limits \<and>
     pf_set_payload p' \<le> max_payload_bytes_per_display_set limits \<and> pf_set_payload p' \<le> USIZE_MAX \<and>
     pf_in_set p' = (header ! 10 \<noteq> 0x80) \<and>
     (if header ! 10 = 0x80
      then pf_display_sets p' = wrapping_add_u64 (pf_display_sets p) 1 \<and> pf_display_sets p' \<le> max_display_sets limits
      else pf_display_sets p' = pf_display_sets p)"

lemma preflight_segment_after:
  assumes "preflight_segment limits cancelled header p = Inr p'"
  obtains payload where "after_segment limits header payload p p'"
  using assms
proof (rule preflight_segment_parts)
  fix loads n st1 st2 st3 rd hashed bytes_read
  let ?p = "p\<lparr> pf_loads := loads, pf_hashed := pf_hashed p @ header, pf_bytes_read := n \<rparr>"
  assume n: "checked_add_u64 (pf_bytes_read p) 13 = Some n"
    and magic: "header_magic header" "header ! 10 \<in> {0x14, 0x15, 0x16, 0x17, 0x80}"
    and st1: "(if header ! 10 = 0x16 then preflight_pcs_prefix (header_payload header) ?p else Inr ?p) = Inr st1"
    and st2: "preflight_open header st1 = Inr st2" and st3: "preflight_count limits (header_payload header) st2 = Inr st3"
    and rest: "discard_exact_hashed (header_payload header - (if header ! 10 = 0x16 then 8 else 0))
       (pf_reader st3) (pf_hashed st3) (pf_bytes_read st3) = Inr (rd, hashed, bytes_read)"
    and close: "preflight_close limits header (st3\<lparr> pf_reader := rd, pf_hashed := hashed, pf_bytes_read := bytes_read \<rparr>) = Inr p'"
  obtain k where k: "Suc (pf_set_segments st2) \<le> max_segments_per_display_set limits"
    "pf_set_payload st2 + header_payload header \<le> max_payload_bytes_per_display_set limits"
    "pf_set_payload st2 + header_payload header \<le> USIZE_MAX"
    "st3 = st2\<lparr> pf_segments := k, pf_set_segments := Suc (pf_set_segments st2),
                pf_set_payload := pf_set_payload st2 + header_payload header \<rparr>"
    using preflight_count_spec [OF st3] .
  obtain bytes where bytes: "read_exact (header_payload header - (if header ! 10 = 0x16 then 8 else 0)) (pf_reader st3) = Some (bytes, rd)"
      "hashed = pf_hashed st3 @ bytes"
      "bytes_read = pf_bytes_read st3 + (header_payload header - (if header ! 10 = 0x16 then 8 else 0))" "bytes_read \<le> U64_MAX"
    using discard_spec [OF rest] by metis
  have closed: "pf_in_set p' = (if header ! 10 = 0x80 then False else pf_in_set st3)"
      "pf_reader p' = rd" "pf_hashed p' = hashed" "pf_bytes_read p' = bytes_read" "bytes_read \<le> max_sup_bytes limits"
      "pf_timeline p' = pf_timeline st3" "pf_set_segments p' = pf_set_segments st3" "pf_set_payload p' = pf_set_payload st3"
      "if header ! 10 = 0x80
       then pf_display_sets p' = wrapping_add_u64 (pf_display_sets st3) 1 \<and> pf_display_sets p' \<le> max_display_sets limits
       else pf_display_sets p' = pf_display_sets st3"
    using preflight_close_spec [OF close] by (cases rule: preflight_close_spec [OF close]; simp)+
  show thesis
  proof (cases "header ! 10 = 0x16")
    case True
    then have st1': "preflight_pcs_prefix (header_payload header) ?p = Inr st1" using st1 by simp
    obtain prefix rd1 k' where pre: "8 \<le> header_payload header" "read_exact 8 (pf_reader ?p) = Some (prefix, rd1)"
        "st1 = ?p\<lparr> pf_reader := rd1, pf_hashed := pf_hashed ?p @ prefix, pf_bytes_read := pf_bytes_read ?p + 8, pf_epoch_continue := k' \<rparr>"
      using preflight_pcs_prefix_spec [OF st1'] by metis
    obtain u d w tln k1 k2 where op: "\<not> pf_in_set st1" "observe (header_pts header) (pf_timeline st1) = Inr ((u, d, w), tln)"
        "st2 = st1\<lparr> pf_in_set := True, pf_set_segments := 0, pf_set_payload := 0, pf_timeline := tln, pf_duplicates := k1, pf_wraps := k2 \<rparr>"
      using preflight_open_pcs [OF st2 True] .
    have "read_exact (header_payload header) (pf_reader p) = Some (prefix @ bytes, rd)"
      using read_exact_split [of 8 "pf_reader p" prefix rd1 "header_payload header" bytes rd] pre bytes(1) k(4) op(3) True by simp
    then show thesis using that [of "prefix @ bytes"] True n magic pre op k bytes(2-4) closed
      by (simp add: after_segment_def)
  next
    case False
    then have "st1 = ?p" using st1 by simp
    moreover have "st2 = st1" "pf_in_set st1" using preflight_open_inner [OF st2 False] by simp_all
    ultimately show thesis using that [of bytes] False n magic k bytes closed
      by (auto simp: after_segment_def)
  qed
qed

section \<open>The parse follows\<close>

text \<open>The states of the two loops between segments; the session is the parse's own.\<close>

definition in_step :: "preflight_state \<Rightarrow> parse_state \<Rightarrow> bool" where
  "in_step p q \<longleftrightarrow>
     ps_reader q = pf_reader p \<and> ps_hashed q = pf_hashed p \<and> ps_bytes_read q = pf_bytes_read p \<and>
     ps_timeline q = pf_timeline p \<and> ps_display_sets q = pf_display_sets p \<and>
     (ps_pts q \<noteq> None) = pf_in_set p \<and> (ps_segments q \<noteq> []) = pf_in_set p \<and>
     (pf_in_set p \<longrightarrow> opened (ps_segments q) \<and> length (ps_segments q) = pf_set_segments p \<and>
        ps_payload_bytes q = pf_set_payload p) \<and>
     pf_display_sets p * 13 \<le> pf_bytes_read p \<and> pf_bytes_read p \<le> U64_MAX"

definition segment_of :: "byte list \<Rightarrow> byte list \<Rightarrow> pgs_segment" where
  "segment_of header payload = \<lparr> seg_pts = header_pts header, seg_dts = header_dts header,
     seg_type = the (documented_type (header ! 10)), seg_payload = payload \<rparr>"

lemma read_exact_length: "read_exact n rd = Some (bytes, rd') \<Longrightarrow> length bytes = n"
  by (auto simp: read_exact_def split: if_splits)

lemma check_cancelled_None [simp]: "check_cancelled None ses = Inr ses"
  by (simp add: check_cancelled_def load_flag_def lift_def)

lemma documented_kind:
  "b \<in> {0x14, 0x15, 0x16, 0x17, 0x80} \<Longrightarrow>
   documented_type b = Some (the (documented_type b)) \<and>
   (the (documented_type b) = PresentationComposition \<longleftrightarrow> b = 0x16) \<and>
   (the (documented_type b) = EndOfDisplaySet \<longleftrightarrow> b = 0x80)"
  by (auto simp: documented_type_def)

lemma read_follows:
  assumes after: "after_segment limits header payload p p'" and step: "in_step p q" and env: "reads_types env"
  shows "read_segment env limits header q =
    Inr (the (documented_type (header ! 10)), payload,
         q\<lparr> ps_reader := pf_reader p', ps_hashed := pf_hashed p', ps_bytes_read := pf_bytes_read p' \<rparr>)"
proof -
  have kind: "ev_segment_type env (header ! 10) = Some (the (documented_type (header ! 10)))"
    using documented_kind [of "header ! 10"] after env by (simp add: reads_types_def after_segment_def)
  have n: "checked_add_u64 (ps_bytes_read q) 13 = Some (pf_bytes_read p + 13)"
    "checked_add_u64 (pf_bytes_read p + 13) (header_payload header) = Some (pf_bytes_read p')"
    using after step by (simp_all add: after_segment_def in_step_def)
  have rd: "read_exact (header_payload header) (ps_reader q) = Some (payload, pf_reader p')"
    using after step by (auto simp: after_segment_def in_step_def)
  show ?thesis using after step n rd kind
    by (simp add: read_segment_def after_segment_def in_step_def del: checked_add_u64_Some checked_add_u64_None)
qed

text \<open>The open set behind a segment, before an END closes it.\<close>

definition opened_by :: "byte list \<Rightarrow> byte list \<Rightarrow> preflight_state \<Rightarrow> parse_state \<Rightarrow> parse_state \<Rightarrow> bool" where
  "opened_by header payload p' q q' \<longleftrightarrow>
     ps_reader q' = pf_reader p' \<and> ps_hashed q' = pf_hashed p' \<and> ps_bytes_read q' = pf_bytes_read p' \<and>
     ps_timeline q' = pf_timeline p' \<and> ps_display_sets q' = ps_display_sets q \<and> ps_pts q' \<noteq> None \<and>
     (if header ! 10 = 0x16 then \<exists>d w. observe (header_pts header) (ps_timeline q) = Inr ((the (ps_pts q'), d, w), ps_timeline q')
      else ps_pts q' = ps_pts q \<and> ps_timeline q' = ps_timeline q) \<and>
     ps_segments q' = ps_segments q @ [segment_of header payload] \<and>
     length (ps_segments q') = pf_set_segments p' \<and> ps_payload_bytes q' = pf_set_payload p'"

lemma parse_follows_open:
  assumes after: "after_segment limits header payload p p'" and step: "in_step p q" and env: "reads_types env"
  obtains q' where "opened_by header payload p' q q'"
    "\<And>mode ses. parse_segment env limits mode None header (q\<lparr> ps_session := ses \<rparr>) =
       (if header ! 10 = 0x80 then close_set env limits mode None (q'\<lparr> ps_session := ses \<rparr>)
        else Inr (q'\<lparr> ps_session := ses \<rparr>))"
proof -
  let ?kind = "the (documented_type (header ! 10))"
  have kind: "(?kind = PresentationComposition) = (header ! 10 = 0x16)" "(?kind = EndOfDisplaySet) = (header ! 10 = 0x80)"
    using documented_kind [of "header ! 10"] after by (simp_all add: after_segment_def)
  have len: "length payload = header_payload header"
    using after by (auto simp: after_segment_def dest: read_exact_length)
  have in_ses: "in_step p (q\<lparr> ps_session := ses \<rparr>)" for ses using step by (simp add: in_step_def)
  let ?q1 = "q\<lparr> ps_reader := pf_reader p', ps_hashed := pf_hashed p', ps_bytes_read := pf_bytes_read p' \<rparr>"
  obtain pts where pts: "\<And>ses. parse_open header ?kind (?q1\<lparr> ps_session := ses \<rparr>) =
      Inr (?q1\<lparr> ps_session := ses, ps_timeline := pf_timeline p', ps_pts := Some pts,
               ps_payload_bytes := (if header ! 10 = 0x16 then 0 else ps_payload_bytes q) \<rparr>)"
    and timed: "if header ! 10 = 0x16 then \<exists>d w. observe (header_pts header) (ps_timeline q) = Inr ((pts, d, w), pf_timeline p')
      else ps_pts q = Some pts \<and> pf_timeline p' = ps_timeline q"
  proof (cases "header ! 10 = 0x16")
    case True
    then obtain u d w where obs: "observe (header_pts header) (ps_timeline q) = Inr ((u, d, w), pf_timeline p')"
      using after step by (auto simp: after_segment_def in_step_def)
    then show thesis using that [of u] True kind after step
      by (simp add: parse_open_def after_segment_def in_step_def)
  next
    case False
    then obtain u where "ps_pts q = Some u" using after step by (auto simp: after_segment_def in_step_def)
    then show thesis using that [of u] False kind after step
      by (simp add: parse_open_def after_segment_def in_step_def)
  qed
  let ?q2 = "?q1\<lparr> ps_timeline := pf_timeline p', ps_pts := Some pts,
               ps_payload_bytes := (if header ! 10 = 0x16 then 0 else ps_payload_bytes q) \<rparr>"
  let ?q3 = "?q2\<lparr> ps_segments := ps_segments q @ [segment_of header payload], ps_payload_bytes := pf_set_payload p' \<rparr>"
  have counted: "parse_count limits (segment_of header payload) (?q2\<lparr> ps_session := ses \<rparr>) = Inr (?q3\<lparr> ps_session := ses \<rparr>)" for ses
  proof -
    have segs: "Suc (length (ps_segments q)) = pf_set_segments p'"
    proof (cases "header ! 10 = 0x16")
      case True
      then have "ps_segments q = []" using after step by (simp add: after_segment_def in_step_def)
      then show ?thesis using after True by (simp add: after_segment_def)
    qed (use after step in \<open>simp add: after_segment_def in_step_def\<close>)
    have sum: "(if header ! 10 = 0x16 then 0 else ps_payload_bytes q) + length payload = pf_set_payload p'"
      using after step len by (cases "header ! 10 = 0x16") (simp_all add: after_segment_def in_step_def)
    have bounds: "pf_set_segments p' \<le> max_segments_per_display_set limits"
        "pf_set_payload p' \<le> max_payload_bytes_per_display_set limits" "pf_set_payload p' \<le> USIZE_MAX"
      using after by (simp_all add: after_segment_def)
    then have "checked_add_usize (if header ! 10 = 0x16 then 0 else ps_payload_bytes q) (length payload) = Some (pf_set_payload p')"
      using sum by simp
    then show ?thesis using bounds segs by (simp add: parse_count_def Let_def segment_of_def del: checked_add_usize_Some)
  qed
  show thesis
  proof (rule that [of ?q3])
    show "opened_by header payload p' q ?q3"
      using after step timed by (auto simp: opened_by_def after_segment_def in_step_def)
    fix mode ses
    have r: "read_segment env limits header (q\<lparr> ps_session := ses \<rparr>) = Inr (?kind, payload, ?q1\<lparr> ps_session := ses \<rparr>)"
      using read_follows [OF after in_ses env, of ses] by simp
    have c: "parse_count limits \<lparr> seg_pts = header_pts header, seg_dts = header_dts header, seg_type = ?kind, seg_payload = payload \<rparr>
        (?q2\<lparr> ps_session := ses \<rparr>) = Inr (?q3\<lparr> ps_session := ses \<rparr>)"
      using counted [of ses] by (simp add: segment_of_def)
    have o: "parse_open header ?kind (?q1\<lparr> ps_session := ses \<rparr>) = Inr (?q2\<lparr> ps_session := ses \<rparr>)"
      using pts [of ses] by simp
    show "parse_segment env limits mode None header (q\<lparr> ps_session := ses \<rparr>) =
       (if header ! 10 = 0x80 then close_set env limits mode None (?q3\<lparr> ps_session := ses \<rparr>)
        else Inr (?q3\<lparr> ps_session := ses \<rparr>))"
      unfolding parse_segment_def kind(2) [symmetric]
      using r o c by (simp add: lift_def)
  qed
qed

lemma opened_snoc:
  assumes after: "after_segment limits header payload p p'" and step: "in_step p q" and inner: "header ! 10 \<noteq> 0x80"
  shows "opened (ps_segments q @ [segment_of header payload])"
proof -
  have kind: "(seg_type (segment_of header payload) = PresentationComposition) = (header ! 10 = 0x16)"
      "(seg_type (segment_of header payload) = EndOfDisplaySet) = (header ! 10 = 0x80)"
    using documented_kind [of "header ! 10"] after by (simp_all add: after_segment_def segment_of_def)
  show ?thesis
  proof (cases "header ! 10 = 0x16")
    case True
    then have "ps_segments q = []" using after step by (simp add: after_segment_def in_step_def)
    then show ?thesis using kind True by (simp add: opened_def)
  next
    case False
    then have "opened (ps_segments q)" using after step by (simp add: after_segment_def in_step_def)
    then show ?thesis using kind False inner by (auto simp: opened_def)
  qed
qed

lemma be_bytes_from_be: "be_bytes (length bs) (from_be bs) = bs"
proof (induction bs)
  case (Cons b bs)
  then show ?case using from_be_bound [of bs] by (simp add: from_be_simps)
qed simp

lemma read_exact_bytes: "read_exact n rd = Some (bytes, rd') \<Longrightarrow> rd_bytes rd = bytes @ rd_bytes rd'"
  by (auto simp: read_exact_def split: if_splits)

lemma take_drop_ends: "take n xs @ take m (drop n xs) @ ys = take (n + m) xs @ ys"
  by (simp add: take_add)

lemma segment_bytes_of:
  assumes after: "after_segment limits header payload p p'" and len: "length header = 13"
  shows "segment_bytes (segment_of header payload) = header @ payload"
proof -
  have "from_be (take 2 (drop 11 header)) = length payload"
    using after by (auto simp: after_segment_def header_payload_def dest: read_exact_length)
  then have n: "be_bytes 2 (length payload) = take 2 (drop 11 header)" using len be_bytes_from_be [of "take 2 (drop 11 header)"] by simp
  have t: "type_byte (the (documented_type (header ! 10))) = header ! 10"
    using after by (auto simp: after_segment_def documented_type_def)
  have "header = take 2 header @ take 4 (drop 2 header) @ take 4 (drop 6 header) @ take 1 (drop 10 header) @ take 2 (drop 11 header)"
    using len by (simp add: take_drop_ends take_drop_ends [where ys = "[]", simplified])
  moreover have "take 1 (drop 10 header) = [header ! 10]" using len by (simp add: take_Suc hd_drop_conv_nth)
  ultimately show ?thesis
    using after len be_bytes_from_be [of "take 4 (drop 2 header)"] be_bytes_from_be [of "take 4 (drop 6 header)"]
    by (simp add: segment_bytes_def segment_of_def header_pts_def header_dts_def n t after_segment_def header_magic_def)
qed

text \<open>
  What the two loops leave of the file, in terms of the sets closed on the way; \<open>q\<close> may have a set
  open, which is then the beginning of the first of them.
\<close>

definition exchange :: "preflight_state \<Rightarrow> parse_state \<Rightarrow> raw_display_set list \<Rightarrow> parse_state \<Rightarrow> bool" where
  "exchange p q sets q' \<longleftrightarrow>
     segments_bytes (ps_segments q) @ rd_bytes (pf_reader p) = segments_bytes (concat (map ds_segments sets)) @ segments_bytes (ps_segments q') \<and>
     (sets \<noteq> [] \<longrightarrow>
        (case ps_pts q of
           None \<Rightarrow> timed_from (ps_timeline q) sets
         | Some t \<Rightarrow> hd (ds_segments (hd sets)) = hd (ps_segments q) \<and> ds_pts (hd sets) = t \<and> timed_from (ps_timeline q) (tl sets)))"

lemma exchange_opened:
  assumes rest: "exchange p1 q1 sets q'" and opened: "opened_by header payload p1 q q1"
    and bytes_left: "rd_bytes (pf_reader p) = segment_bytes (segment_of header payload) @ rd_bytes (pf_reader p1)"
    and closed: "header ! 10 = 0x16 \<Longrightarrow> ps_pts q = None \<and> ps_segments q = []"
    and inside: "header ! 10 \<noteq> 0x16 \<Longrightarrow> ps_pts q \<noteq> None \<and> ps_segments q \<noteq> []"
  shows "exchange p q sets q'"
proof -
  have segs: "ps_segments q1 = ps_segments q @ [segment_of header payload]" and ne: "ps_pts q1 \<noteq> None"
    using opened by (simp_all add: opened_by_def)
  have bytes: "segments_bytes (ps_segments q) @ rd_bytes (pf_reader p) = segments_bytes (concat (map ds_segments sets)) @ segments_bytes (ps_segments q')"
    using rest segs bytes_left by (simp add: exchange_def)
  have later: "hd (ds_segments (hd sets)) = hd (ps_segments q1)" "ds_pts (hd sets) = the (ps_pts q1)" "timed_from (ps_timeline q1) (tl sets)"
    if "sets \<noteq> []"
    using rest that ne by (auto simp: exchange_def)
  have "case ps_pts q of None \<Rightarrow> timed_from (ps_timeline q) sets
      | Some t \<Rightarrow> hd (ds_segments (hd sets)) = hd (ps_segments q) \<and> ds_pts (hd sets) = t \<and> timed_from (ps_timeline q) (tl sets)"
    if sets: "sets \<noteq> []"
  proof (cases "header ! 10 = 0x16")
    case True
    then obtain d w where "observe (header_pts header) (ps_timeline q) = Inr ((the (ps_pts q1), d, w), ps_timeline q1)"
      using opened by (auto simp: opened_by_def)
    moreover have "opening_stamp (hd sets) = header_pts header" using later(1) [OF sets] segs closed True by (simp add: opening_stamp_def segment_of_def)
    ultimately have "timed_from (ps_timeline q) (hd sets # tl sets)" using later(2,3) [OF sets] by (simp add: timed_from_def)
    then show ?thesis using closed True sets by simp
  next
    case False
    then have "ps_pts q1 = ps_pts q" "ps_timeline q1 = ps_timeline q" using opened unfolding opened_by_def by metis+
    then show ?thesis using later [OF sets] inside [OF False] segs by (auto simp: hd_append)
  qed
  then show ?thesis using bytes by (simp add: exchange_def)
qed

lemma parse_follows_inner:
  assumes after: "after_segment limits header payload p p'" and step: "in_step p q" and env: "reads_types env"
    and inner: "header ! 10 \<noteq> 0x80"
  obtains q' where "in_step p' q'" "opened_by header payload p' q q'"
    "\<And>mode ses. parse_segment env limits mode None header (q\<lparr> ps_session := ses \<rparr>) = Inr (q'\<lparr> ps_session := ses \<rparr>)"
proof -
  obtain q' where q': "opened_by header payload p' q q'"
    and run: "\<And>mode ses. parse_segment env limits mode None header (q\<lparr> ps_session := ses \<rparr>) =
       (if header ! 10 = 0x80 then close_set env limits mode None (q'\<lparr> ps_session := ses \<rparr>)
        else Inr (q'\<lparr> ps_session := ses \<rparr>))"
    using parse_follows_open [OF after step env] by blast
  have "pf_in_set p'" "pf_display_sets p' = pf_display_sets p" "pf_bytes_read p \<le> pf_bytes_read p'"
      "pf_bytes_read p' \<le> U64_MAX"
    using after inner by (auto simp: after_segment_def)
  then have "in_step p' q'"
    using q' step opened_snoc [OF after step inner] by (auto simp: in_step_def opened_by_def)
  then show thesis using that q' run inner by simp
qed

lemma parse_follows_end:
  assumes after: "after_segment limits header payload p p'" and step: "in_step p q" and env: "reads_types env"
    and final: "header ! 10 = 0x80"
  obtains q' ds where "in_step p' q'" "ps_segments q' = []" "ps_pts q' = None" "ps_timeline q' = ps_timeline q"
    "ps_pts q = Some (ds_pts ds)" "ds_segments ds = ps_segments q @ [segment_of header payload]" "framed limits ds" "pf_display_sets p' = Suc (pf_display_sets p)"
    "\<And>mode ses. parse_segment env limits mode None header (q\<lparr> ps_session := ses \<rparr>) =
       and_then (normalize_display_set env limits mode None ds ses) (\<lambda>ses. Inr (q'\<lparr> ps_session := settle mode ses \<rparr>))"
proof -
  obtain q' where q': "opened_by header payload p' q q'"
    and run: "\<And>mode ses. parse_segment env limits mode None header (q\<lparr> ps_session := ses \<rparr>) =
       (if header ! 10 = 0x80 then close_set env limits mode None (q'\<lparr> ps_session := ses \<rparr>)
        else Inr (q'\<lparr> ps_session := ses \<rparr>))"
    using parse_follows_open [OF after step env] by blast
  obtain pts where pts: "ps_pts q' = Some pts" using q' by (auto simp: opened_by_def)
  let ?ds = "\<lparr> ds_pts = pts, ds_segments = ps_segments q' \<rparr>"
  have sets: "pf_display_sets p * 13 \<le> pf_bytes_read p" "ps_display_sets q' = pf_display_sets p"
    using step q' by (simp_all add: in_step_def opened_by_def)
  have more: "pf_bytes_read p + 13 \<le> pf_bytes_read p'" "pf_bytes_read p' \<le> U64_MAX"
    using after by (simp_all add: after_segment_def)
  have suc: "pf_display_sets p' = Suc (pf_display_sets p)" "Suc (pf_display_sets p) \<le> max_display_sets limits"
    using after final sets more by (simp_all add: after_segment_def)
  let ?q' = "q'\<lparr> ps_display_sets := Suc (pf_display_sets p), ps_pts := None, ps_segments := [] \<rparr>"
  have fits: "checked_add_u64 (ps_display_sets q') 1 = Some (Suc (pf_display_sets p))" using sets more by simp
  have "close_set env limits mode None (q'\<lparr> ps_session := ses \<rparr>) =
      and_then (normalize_display_set env limits mode None ?ds ses) (\<lambda>ses. Inr (?q'\<lparr> ps_session := settle mode ses \<rparr>))" for mode ses
    using pts suc fits by (simp add: close_set_def settle_def del: checked_add_u64_Some checked_add_u64_None)
  moreover have "in_step p' ?q'"
    using q' after final sets more suc by (simp add: in_step_def opened_by_def after_segment_def)
  moreover have "framed limits ?ds"
  proof -
    have "header ! 10 \<noteq> 0x16" using final by simp
    then have "opened (ps_segments q)" using after step by (simp add: after_segment_def in_step_def)
    moreover have "seg_type (segment_of header payload) = EndOfDisplaySet" using final by (simp add: segment_of_def documented_type_def)
    moreover have "length (ps_segments q') = pf_set_segments p'" using q' unfolding opened_by_def by blast
    moreover have "pf_set_segments p' \<le> max_segments_per_display_set limits" using after unfolding after_segment_def by blast
    ultimately show ?thesis using q' by (auto simp: framed_def opened_by_def)
  qed
  moreover have "header ! 10 \<noteq> 0x16" using final by simp
  then have "ps_timeline q' = ps_timeline q" "ps_pts q' = ps_pts q" "ps_segments q' = ps_segments q @ [segment_of header payload]"
    using q' unfolding opened_by_def by metis+
  ultimately show thesis using that [of ?q' ?ds] run final suc(1) pts by simp
qed

lemma reader_session_swap: "q\<lparr> ps_session := ses, ps_reader := rd \<rparr> = q\<lparr> ps_reader := rd, ps_session := ses \<rparr>"
  by simp

lemma parse_loop_follows:
  "preflight_loop limits None p = Inr p' \<Longrightarrow> in_step p q \<Longrightarrow> reads_types env \<Longrightarrow>
   \<exists>sets q'. in_step p' q' \<and> exchange p q sets q' \<and> (\<forall>ds \<in> set sets. framed limits ds) \<and> pf_display_sets p' = pf_display_sets p + length sets \<and>
     (\<forall>mode ses. parse_loop env limits mode None (q\<lparr> ps_session := ses \<rparr>) =
        and_then (run_sets env limits mode None sets ses) (\<lambda>ses. Inr (q'\<lparr> ps_session := ses \<rparr>)))"
proof (induction limits "None :: (nat \<Rightarrow> bool) option" p arbitrary: q rule: preflight_loop.induct)
  case (1 limits p)
  have rd: "ps_reader q = pf_reader p" using "1.prems"(2) by (simp add: in_step_def)
  show ?case
  proof (cases "read_header_or_eof (pf_reader p)")
    case (Inl e)
    then show ?thesis using "1.prems"(1) by (subst (asm) preflight_loop.simps) simp
  next
    case Inr_r: (Inr r)
    show ?thesis
    proof (cases r)
      case None
      then have "p' = p" using "1.prems"(1) Inr_r by (subst (asm) preflight_loop.simps) simp
      moreover have "parse_loop env limits mode None (q\<lparr> ps_session := ses \<rparr>) = Inr (q\<lparr> ps_session := ses \<rparr>)" for mode ses
        using rd Inr_r None by (subst parse_loop.simps) simp
      moreover have "rd_bytes (pf_reader p) = []" using Inr_r None by (auto simp: read_header_or_eof_def split: if_splits option.splits)
      ultimately show ?thesis using "1.prems"(2) by (intro exI [of _ "[]"] exI [of _ q]) (simp add: exchange_def)
    next
      case (Some hr)
      obtain header rd' where hr: "hr = (header, rd')" by (cases hr)
      let ?p = "p\<lparr> pf_reader := rd' \<rparr>" and ?q = "q\<lparr> ps_reader := rd' \<rparr>"
      obtain p1 where p1: "preflight_segment limits None header ?p = Inr p1" "preflight_loop limits None p1 = Inr p'"
        using "1.prems"(1) Inr_r Some hr by (subst (asm) preflight_loop.simps) (auto split: sum.splits)
      obtain payload where after: "after_segment limits header payload ?p p1" using preflight_segment_after [OF p1(1)] .
      have step: "in_step ?p ?q" using "1.prems"(2) by (simp add: in_step_def)
      have head: "length header = 13" "rd_bytes (pf_reader p) = header @ rd_bytes rd'"
        using Inr_r Some hr by (auto simp: read_header_or_eof_def read_exact_def split: if_splits option.splits)
      have bytes_left: "rd_bytes (pf_reader p) = segment_bytes (segment_of header payload) @ rd_bytes (pf_reader p1)"
        using head(2) after unfolding segment_bytes_of [OF after head(1)] by (auto simp: after_segment_def dest!: read_exact_bytes)
      have unfold: "parse_loop env limits mode None (q\<lparr> ps_session := ses \<rparr>) =
          and_then (parse_segment env limits mode None header (?q\<lparr> ps_session := ses \<rparr>)) (parse_loop env limits mode None)" for mode ses
        using rd Inr_r Some hr by (subst parse_loop.simps) (simp add: and_then_def reader_session_swap)
      note IH = "1.hyps" [OF Inr_r Some hr [symmetric] p1(1) p1(2) _ "1.prems"(3)]
      show ?thesis
      proof (cases "header ! 10 = 0x80")
        case True
        obtain q1 ds where follow: "in_step p1 q1"
          and ds': "ps_segments q1 = []" "ps_pts q1 = None" "ps_timeline q1 = ps_timeline ?q"
            "ps_pts ?q = Some (ds_pts ds)" "ds_segments ds = ps_segments ?q @ [segment_of header payload]"
          and closed: "framed limits ds" "pf_display_sets p1 = Suc (pf_display_sets ?p)"
          and run: "\<And>mode ses. parse_segment env limits mode None header (?q\<lparr> ps_session := ses \<rparr>) =
            and_then (normalize_display_set env limits mode None ds ses) (\<lambda>ses. Inr (q1\<lparr> ps_session := settle mode ses \<rparr>))"
          by (rule parse_follows_end [OF after step "1.prems"(3) True]) (rule that)
        note q1 = follow closed
        have ds: "ps_segments q1 = []" "ps_pts q1 = None" "ps_timeline q1 = ps_timeline q"
            "ps_pts q = Some (ds_pts ds)" "ds_segments ds = ps_segments q @ [segment_of header payload]" using ds' by simp_all
        obtain sets q' where rest: "in_step p' q'" "exchange p1 q1 sets q'" "\<forall>ds \<in> set sets. framed limits ds" "pf_display_sets p' = pf_display_sets p1 + length sets"
          and loop: "\<And>mode ses. parse_loop env limits mode None (q1\<lparr> ps_session := ses \<rparr>) =
            and_then (run_sets env limits mode None sets ses) (\<lambda>ses. Inr (q'\<lparr> ps_session := ses \<rparr>))"
          using IH [OF q1(1)] by blast
        have "parse_loop env limits mode None (q\<lparr> ps_session := ses \<rparr>) =
            and_then (run_sets env limits mode None (ds # sets) ses) (\<lambda>ses. Inr (q'\<lparr> ps_session := ses \<rparr>))" for mode ses
          unfolding unfold run by (simp add: and_then_assoc loop)
        moreover have "exchange p q (ds # sets) q'"
        proof -
          have "ps_segments q \<noteq> []" using "1.prems"(2) ds(4) by (auto simp: in_step_def)
          then show ?thesis
            using rest(2) ds bytes_left by (cases "sets = []") (auto simp: exchange_def timed_from_def)
        qed
        ultimately show ?thesis using rest q1 by (intro exI [of _ "ds # sets"] exI [of _ q']) simp
      next
        case False
        obtain q1 where q1: "in_step p1 q1" and opened: "opened_by header payload p1 ?q q1"
          and run: "\<And>mode ses. parse_segment env limits mode None header (?q\<lparr> ps_session := ses \<rparr>) = Inr (q1\<lparr> ps_session := ses \<rparr>)"
          using parse_follows_inner [OF after step "1.prems"(3) False] by blast
        have "pf_display_sets p1 = pf_display_sets p" using after False by (simp add: after_segment_def)
        moreover have "exchange p q sets q'" if "exchange p1 q1 sets q'" for sets q'
        proof -
          have "exchange p ?q sets q'"
            by (rule exchange_opened [OF that opened bytes_left]) (use step after in \<open>auto simp: in_step_def after_segment_def\<close>)
          then show ?thesis by (simp add: exchange_def cong: option.case_cong)
        qed
        ultimately show ?thesis using IH [OF q1] by (simp add: unfold run) blast
      qed
    qed
  qed
qed

section \<open>The file is its display sets\<close>

definition bytes_counted :: "nat \<Rightarrow> pgs_session \<Rightarrow> pgs_session" where
  "bytes_counted n ses = ses\<lparr> se_report := (se_report ses)\<lparr> ir_parser_bytes_read := n \<rparr> \<rparr>"

lemma run_sets_counts:
  "session_ok limits mode ses \<Longrightarrow> run_sets env limits mode cancelled sets ses = Inr ses' \<Longrightarrow>
   ir_display_sets (se_report ses) + length sets \<le> U64_MAX \<Longrightarrow>
   ir_display_sets (se_report ses') = ir_display_sets (se_report ses) + length sets"
proof (induction sets arbitrary: ses)
  case (Cons ds sets)
  from Cons.prems(2) obtain ses1 where ses1: "normalize_display_set env limits mode cancelled ds ses = Inr ses1"
      "run_sets env limits mode cancelled sets (settle mode ses1) = Inr ses'"
    by (auto simp: and_then_Inr)
  then have one: "session_ok limits mode (settle mode ses1)"
      "ir_display_sets (se_report ses1) = wrapping_add_u64 (ir_display_sets (se_report ses)) 1"
    using normalize_display_set_safe [OF Cons.prems(1), of env cancelled ds] by (simp_all add: safe_def delivered_def)
  have "ir_display_sets (se_report (settle mode ses1)) = Suc (ir_display_sets (se_report ses))"
    using one(2) Cons.prems(3) by (simp add: settle_def)
  then show ?case using Cons.IH [OF one(1) ses1(2)] Cons.prems(3) by simp
qed simp

lemma preflight_sup_parts:
  assumes "preflight_sup env limits None n rd = Inr (pre, loads)"
  obtains p where "preflight_loop limits None (preflight_start rd) = Inr p" "\<not> pf_in_set p" "pf_bytes_read p = n"
    "pr_display_sets pre = pf_display_sets p" "pr_source_sha256 pre = ev_sha256 env (pf_hashed p)"
  using assms by (auto simp: preflight_sup_def and_then_Inr split: if_splits)

lemma first_session_ok: "session_ok limits mode (first_session pre loads)"
  using fresh_ok by (simp add: session_ok_def first_session_def)

lemma process_is_run_sets:
  assumes pre: "preflight_sup env limits None n rd = Inr (pre, loads)" and env: "reads_types env" and size: "n \<le> max_sup_bytes limits"
  shows "\<exists>sets. length sets = pr_display_sets pre \<and> (\<forall>ds \<in> set sets. framed limits ds) \<and> file_holds rd sets \<and>
    (\<forall>mode. process_sup_impl env limits mode None n rd rd =
       and_then (run_sets env limits mode None sets (first_session pre loads)) (\<lambda>ses. Inr (bytes_counted n ses)))"
proof -
  obtain p where p: "preflight_loop limits None (preflight_start rd) = Inr p" "\<not> pf_in_set p" "pf_bytes_read p = n"
    "pr_display_sets pre = pf_display_sets p" "pr_source_sha256 pre = ev_sha256 env (pf_hashed p)"
    using preflight_sup_parts [OF pre] .
  have start: "in_step (preflight_start rd) (parse_start rd (first_session pre loads))"
    by (simp add: in_step_def preflight_start_def parse_start_def)
  have start_ses: "parse_start rd ses = (parse_start rd (first_session pre loads))\<lparr> ps_session := ses \<rparr>" for ses
    by (simp add: parse_start_def)
  obtain sets q where q: "in_step p q" "exchange (preflight_start rd) (parse_start rd (first_session pre loads)) sets q" "\<forall>ds \<in> set sets. framed limits ds" "pf_display_sets p = length sets"
    and loop: "\<And>mode ses. parse_loop env limits mode None (parse_start rd ses) =
        and_then (run_sets env limits mode None sets ses) (\<lambda>ses. Inr (q\<lparr> ps_session := ses \<rparr>))"
    using parse_loop_follows [OF p(1) start env] unfolding start_ses [symmetric] by (auto simp: preflight_start_def)
  have parse: "parse_display_sets env limits mode None rd (first_session pre loads) =
      and_then (run_sets env limits mode None sets (first_session pre loads)) (\<lambda>ses. Inr (pr_source_sha256 pre, bytes_counted n ses))" for mode
    using q(1) p by (simp add: parse_display_sets_def loop and_then_assoc in_step_def bytes_counted_def)
  have "ps_segments q = []" using q(1) p(2) by (simp add: in_step_def)
  then have holds: "file_holds rd sets"
    using q(2) by (cases "sets = []") (simp_all add: exchange_def file_holds_def parse_start_def preflight_start_def timed_from_def)
  have few: "length sets \<le> U64_MAX" using q(1,4) by (simp add: in_step_def)
  have "process_sup_impl env limits mode None n rd rd =
      and_then (run_sets env limits mode None sets (first_session pre loads)) (\<lambda>ses. Inr (bytes_counted n ses))" for mode
  proof (cases "run_sets env limits mode None sets (first_session pre loads)")
    case (Inl e)
    then show ?thesis using pre size by (simp add: process_sup_impl_def parse lift_def)
  next
    case (Inr ses)
    have "ir_display_sets (se_report ses) = length sets"
      using run_sets_counts [OF first_session_ok Inr] few by (simp add: first_session_def first_report_def)
    then show ?thesis using Inr pre size p q(4)
      by (simp add: process_sup_impl_def parse lift_def bytes_counted_def)
  qed
  then show ?thesis using p(4) q holds by auto
qed

end
