(* ===== verification/PgsPromises.thy ===== *)
theory PgsPromises
  imports PgsAgree
begin

text \<open>
  The properties of the PGS adapter over whole files, with a file of one display set they are
  tried on, and the agreement of inspection with normalization.
\<close>

section \<open>A file of one display set\<close>

definition demo_env :: pgs_env where
  "demo_env = \<lparr> ev_sha256 = take 4, ev_hex = (\<lambda>_. ''00''), ev_segment_type = documented_type,
                ev_wds = (\<lambda>_. None), ev_pds = (\<lambda>_. Some \<lparr> pd_id = 0, pd_entries = [] \<rparr>),
                ev_ods = (\<lambda>_. Some demo_object) \<rparr>"

definition demo_sup :: "byte list" where
  "demo_sup = [0x50, 0x47, 0, 0, 0, 0, 0, 0, 0, 0, 0x16, 0, 19,
                 0, 4, 0, 4, 0x10, 0, 0, 0x80, 0, 0, 1, 0, 7, 0, 0, 0, 1, 0, 2,
               0x50, 0x47, 0, 0, 0, 0, 0, 0, 0, 0, 0x14, 0, 0,
               0x50, 0x47, 0, 0, 0, 0, 0, 0, 0, 0, 0x15, 0, 0,
               0x50, 0x47, 0, 0, 0, 0, 0, 0, 0, 0, 0x80, 0, 0]"

definition demo_file :: sup_reader where
  "demo_file = \<lparr> rd_bytes = demo_sup, rd_fault = None \<rparr>"

lemmas stream_eval = read_header_or_eof_def read_exact_def load_flag_def header_payload_def header_magic_def
  header_pts_def header_dts_def from_be_def discard_exact_hashed_def checked_add_u64_def checked_add_usize_def
  fresh_timeline_def observe_def Let_def

lemmas preflight_eval = preflight_sup_def preflight_loop.simps preflight_segment_def preflight_pcs_prefix_def preflight_open_def
  preflight_count_def preflight_close_def preflight_start_def stream_eval

lemmas parse_eval = parse_display_sets_def parse_loop.simps parse_segment_def read_segment_def parse_open_def parse_count_def
  close_set_def parse_start_def documented_type_def lift_def refuse_def stream_eval

lemmas set_eval = normalize_display_set_def parse_pcs_owned_def check_canvas_def checked_pixels_def checked_mul_usize_def
  object_bytes_def apply_segment_def palette_segment_def object_segment_def apply_palette_def apply_object_fragment_def
  complete_object_def first_fragment_shape_def store_object_def open_set_def eight_at_def from_be16_def

lemma demo_preflight:
  "\<exists>pre. preflight_sup demo_env default_limits None 71 demo_file = Inr (pre, 0) \<and> pr_display_sets pre = 1 \<and>
     pr_source_sha256 pre = take 4 demo_sup"
  by (simp add: preflight_eval demo_env_def demo_sup_def demo_file_def default_limits_def)

lemma demo_decode: "decode_rle_strict [1, 1, 0, 0, 1, 1, 0, 0] 2 2 = Inr [1, 1, 1, 1]"
  by (simp add: decode_rle_strict_def checked_mul_usize_def rle_start_def rle_loop.simps rle_step_def push_run_def byte_at_def
      Let_def checked_add_usize_def rle_finish_def)


definition demo_sets :: raw_display_set where
  "demo_sets = \<lparr> ds_pts = 0, ds_segments =
     [\<lparr> seg_pts = 0, seg_dts = 0, seg_type = PresentationComposition,
        seg_payload = [0, 4, 0, 4, 0x10, 0, 0, 0x80, 0, 0, 1, 0, 7, 0, 0, 0, 1, 0, 2] \<rparr>,
      \<lparr> seg_pts = 0, seg_dts = 0, seg_type = PaletteDefinition, seg_payload = [] \<rparr>,
      \<lparr> seg_pts = 0, seg_dts = 0, seg_type = ObjectDefinition, seg_payload = [] \<rparr>,
      \<lparr> seg_pts = 0, seg_dts = 0, seg_type = EndOfDisplaySet, seg_payload = [] \<rparr>] \<rparr>"


definition demo_composition :: normalized_composition where
  "demo_composition = \<lparr> nc_pts = 0, nc_start_ms = (0, 0), nc_canvas_width = 4, nc_canvas_height = 4,
     nc_objects = [\<lparr> no_x = 1, no_y = 2, no_width = 2, no_height = 2,
                      no_rgba = concat [ycrcb_to_rgba default_color Bt601, ycrcb_to_rgba default_color Bt601,
                        ycrcb_to_rgba default_color Bt601, ycrcb_to_rgba default_color Bt601], no_rgba_sha256 = ''00'' \<rparr>] \<rparr>"

lemma demo_crop:
  "rgba_crop \<lparr> so_width = 2, so_height = 2, so_pixels = [1, 1, 1, 1] \<rparr> (replicate 256 default_color) Bt601 0 0 2 2 =
   Some (concat [ycrcb_to_rgba default_color Bt601, ycrcb_to_rgba default_color Bt601,
      ycrcb_to_rgba default_color Bt601, ycrcb_to_rgba default_color Bt601])"
proof -
  have "[0 ..< 2] = [0, 1 :: nat]" by (simp add: upt_rec)
  then show ?thesis by (simp add: rgba_crop_def rgba_row_def Let_def)
qed

lemma demo_normalize:
  "\<exists>ses. normalize_display_set demo_env default_limits Retain None demo_sets (first_session pre 0) = Inr ses \<and>
     se_output ses = [demo_composition] \<and> ir_display_sets (se_report ses) = 1"
  by (simp add: set_eval lift_def Let_def demo_sets_def default_limits_def demo_env_def first_session_def fresh_normalizer_def set_color_def demo_object_def demo_decode
   checked_sub_usize_def checked_add_usize_def place_object_def resolve_placement_def placed_crop_def validate_rect_def count_rgba_def retains_def
   demo_crop color_matrix_for_def deliver_def count_composition_def demo_composition_def first_report_def start_ms_def round53_def ratio_def)

lemma demo_parse: "parse_display_sets demo_env default_limits Retain None demo_file ses =
  and_then (normalize_display_set demo_env default_limits Retain None demo_sets ses)
    (\<lambda>ses. Inr (take 4 demo_sup, bytes_counted 71 ses))"
  by (cases "normalize_display_set demo_env default_limits Retain None demo_sets ses")
   (simp_all add: parse_eval  demo_sup_def demo_file_def default_limits_def demo_env_def bytes_counted_def demo_sets_def streaming_def)


lemma demo_process:
  "\<exists>ses. process_sup_impl demo_env default_limits Retain None 71 demo_file demo_file = Inr ses \<and> se_output ses = [demo_composition]"
proof -
  obtain pre where pre: "preflight_sup demo_env default_limits None 71 demo_file = Inr (pre, 0)" "pr_display_sets pre = 1"
      "pr_source_sha256 pre = take 4 demo_sup"
    using demo_preflight by blast
  obtain ses where "normalize_display_set demo_env default_limits Retain None demo_sets (first_session pre 0) = Inr ses"
     "se_output ses = [demo_composition]" "ir_display_sets (se_report ses) = 1"
    using demo_normalize by blast
  then show ?thesis using pre
    by (simp add: process_sup_impl_def demo_parse lift_def bytes_counted_def) (simp add: default_limits_def)
qed

section \<open>Files\<close>

text \<open>C13: When the preflight accepts a file that does not change, the second pass has no framing error left to
  raise: with nobody cancelling, processing the file in any mode is normalizing, in order, the display
  sets it consists of. Their segments, written one after the other with magic, stamps, type, length and
  payload, are the bytes of the file; the time of each is its opening stamp put through the timeline;
  each runs from its composition to its END within the segment limit.\<close>

theorem accepted_file_is_its_display_sets:
  assumes "preflight_sup env limits None n rd = Inr (pre, loads)" and "reads_types env" and "n \<le> max_sup_bytes limits"
  shows "\<exists>sets. length sets = pr_display_sets pre \<and> (\<forall>ds \<in> set sets. framed limits ds) \<and> file_holds rd sets \<and>
    (\<forall>mode. process_sup_impl env limits mode None n rd rd =
       and_then (run_sets env limits mode None sets (first_session pre loads)) (\<lambda>ses. Inr (bytes_counted n ses)))"
  by (rule process_is_run_sets [OF assms])

theorem accepted_file_is_its_display_sets_witness:
  "\<exists>pre ds. framed default_limits ds \<and> rd_bytes demo_file = segments_bytes (ds_segments ds) \<and>
    process_sup_impl demo_env default_limits Retain None 71 demo_file demo_file =
      and_then (run_sets demo_env default_limits Retain None [ds] (first_session pre 0)) (\<lambda>ses. Inr (bytes_counted 71 ses))"
proof -
  obtain pre where pre: "preflight_sup demo_env default_limits None 71 demo_file = Inr (pre, 0)" "pr_display_sets pre = 1"
    using demo_preflight by blast
  have "reads_types demo_env" by (simp add: reads_types_def demo_env_def)
  moreover have "71 \<le> max_sup_bytes default_limits" by (simp add: default_limits_def)
  ultimately obtain sets where sets: "length sets = 1" "\<forall>ds \<in> set sets. framed default_limits ds" "file_holds demo_file sets"
    "\<forall>mode. process_sup_impl demo_env default_limits mode None 71 demo_file demo_file =
      and_then (run_sets demo_env default_limits mode None sets (first_session pre 0)) (\<lambda>ses. Inr (bytes_counted 71 ses))"
    using accepted_file_is_its_display_sets [OF pre(1)] pre(2) by auto
  then obtain ds where "sets = [ds]" by (auto simp: length_Suc_conv)
  then show ?thesis using sets by (auto simp: file_holds_def)
qed

text \<open>C12: No file, no answer of the segment decoders and no moment of cancellation makes the adapter panic:
  the display set behind an END is always open, and no pixel or palette read leaves its array.\<close>

theorem pgs_never_panics:
  "process_sup_impl env limits mode cancelled source_bytes rd rd_again \<noteq> Inl Panicked"
  using process_safe [of env limits mode cancelled source_bytes rd rd_again] by (simp add: safe_def)

text \<open>C15: What normalization answers is well-formed: every canvas is within the limits, every object lies inside
  its canvas with exactly four bytes per pixel, compositions come in the order of their times, and all of
  them together stay within the RGBA budget.\<close>

theorem normalized_track_is_well_formed:
  assumes "normalize_sup env limits cancelled source_bytes rd rd_again = Inr (report, compositions)"
  shows "(\<forall>c \<in> set compositions. composition_ok limits c) \<and> sorted (map nc_pts compositions) \<and>
    sum_list (map composition_bytes compositions) \<le> max_normalized_rgba_bytes limits"
proof -
  obtain ses where ses: "process_sup_impl env limits Retain cancelled source_bytes rd rd_again = Inr ses" "compositions = se_output ses"
    using assms by (auto simp: normalize_sup_def and_then_Inr)
  then show ?thesis
    using process_safe [of env limits Retain cancelled source_bytes rd rd_again]
    by (simp add: safe_def session_ok_def streaming_def)
qed

theorem normalized_track_is_well_formed_witness:
  "\<exists>report. normalize_sup demo_env default_limits None 71 demo_file demo_file = Inr (report, [demo_composition]) \<and>
     composition_ok default_limits demo_composition"
proof -
  obtain ses where "process_sup_impl demo_env default_limits Retain None 71 demo_file demo_file = Inr ses" "se_output ses = [demo_composition]"
    using demo_process by blast
  then have run: "normalize_sup demo_env default_limits None 71 demo_file demo_file = Inr (se_report ses, [demo_composition])"
    by (simp add: normalize_sup_def)
  show ?thesis using normalized_track_is_well_formed [OF run] run by auto
qed

section \<open>Timestamps\<close>

definition timeline_at :: "nat \<Rightarrow> pts_timeline" where
  "timeline_at t = \<lparr> pt_previous_raw = Some (t mod PTS_MODULUS), pt_offset = t - t mod PTS_MODULUS \<rparr>"

lemma observe_next:
  assumes "t \<le> u" and "u < t + PTS_WRAP_THRESHOLD" and "u \<le> U64_MAX"
  shows "\<exists>d w. observe (u mod PTS_MODULUS) (timeline_at t) = Inr ((u, d, w), timeline_at u)"
proof -
  have split: "t = t div PTS_MODULUS * PTS_MODULUS + t mod PTS_MODULUS" "u = u div PTS_MODULUS * PTS_MODULUS + u mod PTS_MODULUS"
    by simp_all
  have "u div PTS_MODULUS \<le> (t + PTS_MODULUS) div PTS_MODULUS" using assms(2) by (intro div_le_mono) simp
  then have quotients: "t div PTS_MODULUS \<le> u div PTS_MODULUS" "u div PTS_MODULUS \<le> t div PTS_MODULUS + 1"
    using div_le_mono [OF assms(1)] by simp_all
  show ?thesis
proof (cases "u mod PTS_MODULUS < t mod PTS_MODULUS")
  case True
  have div: "u div PTS_MODULUS = t div PTS_MODULUS + 1"
    using quotients split assms(1) True by (cases "u div PTS_MODULUS = t div PTS_MODULUS") linarith+
  have off: "t - t mod PTS_MODULUS + PTS_MODULUS = u - u mod PTS_MODULUS"
    using split div by (simp add: minus_mod_eq_div_mult)
  have far: "PTS_WRAP_THRESHOLD < t mod PTS_MODULUS - u mod PTS_MODULUS" using split div assms(2) True by linarith
  have small: "u - u mod PTS_MODULUS \<le> U64_MAX" using assms(3) by linarith
  show ?thesis
    using True far off assms(3) small by (auto simp: observe_def timeline_at_def Let_def checked_add_u64_def)
next
  case False
  have "u div PTS_MODULUS = t div PTS_MODULUS"
  proof (rule ccontr)
    assume "u div PTS_MODULUS \<noteq> t div PTS_MODULUS"
    then have "u div PTS_MODULUS = t div PTS_MODULUS + 1" using quotients by simp
    then show False using split assms(2) False by linarith
  qed
  then have "t - t mod PTS_MODULUS = u - u mod PTS_MODULUS" by (simp add: minus_mod_eq_div_mult)
  then show ?thesis
    using False assms(3) by (auto simp: observe_def timeline_at_def Let_def checked_add_u64_def)
qed
qed

lemma observe_chain:
  "successively (\<lambda>a b. a \<le> b \<and> b < a + PTS_WRAP_THRESHOLD) (t # ts) \<Longrightarrow> \<forall>u \<in> set ts. u \<le> U64_MAX \<Longrightarrow>
   observe_all (map (\<lambda>u. u mod PTS_MODULUS) ts) (timeline_at t) = Inr ts"
proof (induction ts arbitrary: t)
  case (Cons u ts)
  then obtain d w where "observe (u mod PTS_MODULUS) (timeline_at t) = Inr ((u, d, w), timeline_at u)"
    using observe_next [of t u] by (auto simp: successively_Cons)
  then show ?case using Cons.IH [of u] Cons.prems by simp
qed simp

text \<open>C30: The timeline gives back the true times: from 32-bit stamps of times that never go back and never jump
  by half the counter's period, it recovers the times themselves, across any number of wraps.\<close>

theorem timeline_recovers_times:
  assumes "successively (\<lambda>a b. a \<le> b \<and> b < a + PTS_WRAP_THRESHOLD) ts" and "ts \<noteq> []" and "hd ts < PTS_MODULUS"
    and "\<forall>t \<in> set ts. t \<le> U64_MAX"
  shows "observe_all (map (\<lambda>t. t mod PTS_MODULUS) ts) fresh_timeline = Inr ts"
proof -
  obtain t rest where ts: "ts = t # rest" using assms(2) by (cases ts) auto
  have "observe (t mod PTS_MODULUS) fresh_timeline = Inr ((t, False, False), timeline_at t)"
    using assms(3) ts by (simp add: observe_def fresh_timeline_def timeline_at_def checked_add_u64_def)
  then show ?thesis using observe_chain [of t rest] assms ts by simp
qed

theorem timeline_recovers_times_witness:
  "observe_all [4294967295, 5, 5] fresh_timeline = Inr [4294967295, 4294967301, 4294967301]"
  using timeline_recovers_times [of "[4294967295, 4294967301, 4294967301]"] by simp

section \<open>Inspection and normalization\<close>

text \<open>\<open>follows r s R\<close>: when \<open>r\<close> answers, so does \<open>s\<close>, and the answers are related.\<close>

definition follows :: "'e + 'a \<Rightarrow> 'e + 'b \<Rightarrow> ('a \<Rightarrow> 'b \<Rightarrow> bool) \<Rightarrow> bool" where
  "follows r s R \<longleftrightarrow> (\<forall>x. r = Inr x \<longrightarrow> (\<exists>y. s = Inr y \<and> R x y))"

lemma follows_and_then:
  "follows r s Q \<Longrightarrow> (\<And>x y. Q x y \<Longrightarrow> follows (f x) (g y) R) \<Longrightarrow> follows (and_then r f) (and_then s g) R"
  unfolding follows_def and_then_Inr by fastforce

lemma follows_Inr [simp]: "follows (Inr x) (Inr y) R \<longleftrightarrow> R x y"
  by (simp add: follows_def)

lemma follows_refuse [simp]: "follows (refuse e) s R" "follows (Inl e') s R"
  by (simp_all add: follows_def refuse_def)

text \<open>The sessions of the two modes: the same cache, report and loads.\<close>

definition same_view :: "pgs_session \<Rightarrow> pgs_session \<Rightarrow> bool" where
  "same_view a b \<longleftrightarrow> se_state a = se_state b \<and> se_report a = se_report b \<and> se_loads a = se_loads b"

lemma check_cancelled_follows:
  "same_view a b \<Longrightarrow> follows (check_cancelled c a) (check_cancelled c b) same_view"
  by (auto simp: follows_def check_cancelled_def and_then_Inr same_view_def)

lemma apply_segment_follows:
  assumes "same_view a b"
  shows "follows (lift (apply_segment env limits pcs segment (a, pending))) (lift (apply_segment env limits pcs segment (b, pending)))
    (\<lambda>x y. same_view (fst x) (fst y) \<and> snd x = snd y)"
proof (cases "seg_type segment")
  case PaletteDefinition
  then show ?thesis using assms
    by (auto simp: follows_def apply_segment_def palette_segment_def and_then_Inr same_view_def Let_def split: option.splits)
next
  case ObjectDefinition
  then show ?thesis using assms
    by (auto simp: follows_def apply_segment_def object_segment_def and_then_Inr same_view_def Let_def split: option.splits)
qed (use assms in \<open>auto simp: follows_def apply_segment_def and_then_Inr\<close>)

lemma apply_segments_follows:
  "same_view a b \<Longrightarrow>
   follows (apply_segments env limits c pcs segments (a, pending)) (apply_segments env limits c pcs segments (b, pending))
     (\<lambda>x y. same_view (fst x) (fst y) \<and> snd x = snd y)"
proof (induction segments arbitrary: a b pending)
  case (Cons segment segments)
  show ?case
    unfolding apply_segments.simps fst_conv snd_conv
  proof (rule follows_and_then [OF check_cancelled_follows [OF Cons.prems]], rule follows_and_then [OF apply_segment_follows])
    fix x y :: set_world
    assume "same_view (fst x) (fst y) \<and> snd x = snd y"
    then show "follows (apply_segments env limits c pcs segments x) (apply_segments env limits c pcs segments y)
        (\<lambda>x y. same_view (fst x) (fst y) \<and> snd x = snd y)"
      using Cons.IH [of "fst x" "fst y" "snd x"] by (cases x; cases y) simp
  qed
qed simp

lemma count_rgba_follows: "same_view a b \<Longrightarrow> follows (lift (count_rgba limits rgba a)) (Inr b) same_view"
  by (auto simp: follows_def count_rgba_def same_view_def split: option.splits if_splits)

lemma follows_refl: "(\<And>x. R x x) \<Longrightarrow> follows r r R"
  by (simp add: follows_def)

lemma place_object_follows:
  assumes "same_view a b"
  shows "follows (place_object env limits True pcs placement a) (place_object env limits False pcs placement b)
    (\<lambda>x y. same_view (fst x) (fst y) \<and> fst (snd x) = fst (snd y))"
proof -
  have st: "se_state a = se_state b" using assms by (simp add: same_view_def)
  let ?R = "\<lambda>(x :: pgs_session \<times> byte list \<times> normalized_object list) (y :: pgs_session \<times> byte list \<times> normalized_object list).
    same_view (fst x) (fst y) \<and> fst (snd x) = fst (snd y)"
  show ?thesis
    unfolding place_object_def st
  proof (rule follows_and_then [OF follows_refl [where R = "(=)"]], simp, clarify)
    fix ob palette crop_x crop_y width height
    show "follows
        (case rgba_crop ob palette (color_matrix_for (op_video_height pcs)) crop_x crop_y width height of
           None \<Rightarrow> Inl Panicked
         | Some rgba \<Rightarrow>
             and_then (if True then lift (count_rgba limits rgba a) else Inr a) (\<lambda>ses.
               let image_hash = hash_rgba env width height rgba in
               Inr (ses, to_be16 (co_object_id placement) @ to_be16 (co_x placement) @ to_be16 (co_y placement) @
                      to_be16 width @ to_be16 height @ image_hash,
                    if True then
                      [\<lparr> no_x = co_x placement, no_y = co_y placement, no_width = width, no_height = height,
                         no_rgba = rgba, no_rgba_sha256 = ev_hex env image_hash \<rparr>]
                    else [])))
        (case rgba_crop ob palette (color_matrix_for (op_video_height pcs)) crop_x crop_y width height of
           None \<Rightarrow> Inl Panicked
         | Some rgba \<Rightarrow>
             and_then (if False then lift (count_rgba limits rgba b) else Inr b) (\<lambda>ses.
               let image_hash = hash_rgba env width height rgba in
               Inr (ses, to_be16 (co_object_id placement) @ to_be16 (co_x placement) @ to_be16 (co_y placement) @
                      to_be16 width @ to_be16 height @ image_hash,
                    if False then
                      [\<lparr> no_x = co_x placement, no_y = co_y placement, no_width = width, no_height = height,
                         no_rgba = rgba, no_rgba_sha256 = ev_hex env image_hash \<rparr>]
                    else []))) ?R"
    proof (cases "rgba_crop ob palette (color_matrix_for (op_video_height pcs)) crop_x crop_y width height")
      case (Some rgba)
      show ?thesis unfolding Some option.case if_True if_False
        by (rule follows_and_then [OF count_rgba_follows [OF assms]]) (simp add: Let_def)
    qed simp
  qed
qed

lemma place_objects_follows:
  "same_view a b \<Longrightarrow>
   follows (place_objects env limits True c pcs placements a) (place_objects env limits False c pcs placements b)
     (\<lambda>x y. same_view (fst x) (fst y) \<and> fst (snd x) = fst (snd y))"
proof (induction placements arbitrary: a b)
  case (Cons placement placements)
  show ?case
    unfolding place_objects.simps
  proof (rule follows_and_then [OF check_cancelled_follows [OF Cons.prems]], rule follows_and_then [OF place_object_follows])
    fix x y :: "pgs_session \<times> byte list \<times> normalized_object list"
    assume "same_view (fst x) (fst y) \<and> fst (snd x) = fst (snd y)"
    then show "follows
        (case x of (ses, digest, objects) \<Rightarrow>
           and_then (place_objects env limits True c pcs placements ses) (\<lambda>(ses, digests, more_objects).
             Inr (ses, digest @ digests, objects @ more_objects)))
        (case y of (ses, digest, objects) \<Rightarrow>
           and_then (place_objects env limits False c pcs placements ses) (\<lambda>(ses, digests, more_objects).
             Inr (ses, digest @ digests, objects @ more_objects)))
        (\<lambda>x y. same_view (fst x) (fst y) \<and> fst (snd x) = fst (snd y))"
      by (cases x; cases y) (auto intro!: follows_and_then [OF Cons.IH])
  qed
qed simp

lemma deliver_follows:
  assumes "same_view a b"
  shows "follows (deliver Retain pcs pts objects (count_composition env pcs n pts digest a))
    (deliver Inspect pcs pts objects' (count_composition env pcs n pts digest b)) same_view"
  using assms by (simp add: deliver_def count_composition_def same_view_def Let_def)

lemma normalize_follows:
  assumes "same_view a b"
  shows "follows (normalize_display_set env limits Retain c ds a) (normalize_display_set env limits Inspect c ds b) same_view"
  unfolding normalize_display_set_def Let_def
proof (rule follows_and_then [OF check_cancelled_follows [OF assms]])
  fix x y assume "same_view x y"
  then have opened: "same_view (open_set pcs x) (open_set pcs y)" for pcs by (simp add: open_set_def same_view_def)
  have rest: "follows
      (and_then (apply_segments env limits c pcs middle (open_set pcs x, [])) (\<lambda>(ses, pending).
         if pending \<noteq> [] then refuse (set_error IncompleteObject)
         else and_then (place_objects env limits (retains Retain) c pcs (op_objects pcs) ses) (\<lambda>(ses, digest, objects).
           deliver Retain pcs (ds_pts ds) objects (count_composition env pcs n (ds_pts ds) digest ses))))
      (and_then (apply_segments env limits c pcs middle (open_set pcs y, [])) (\<lambda>(ses, pending).
         if pending \<noteq> [] then refuse (set_error IncompleteObject)
         else and_then (place_objects env limits (retains Inspect) c pcs (op_objects pcs) ses) (\<lambda>(ses, digest, objects).
           deliver Inspect pcs (ds_pts ds) objects (count_composition env pcs n (ds_pts ds) digest ses)))) same_view" for pcs middle n
  proof (rule follows_and_then [OF apply_segments_follows [OF opened]], clarsimp simp: retains_def)
    fix u v assume "same_view u v"
    then show "follows
        (and_then (place_objects env limits True c pcs (op_objects pcs) u) (\<lambda>(ses, digest, objects).
           deliver Retain pcs (ds_pts ds) objects (count_composition env pcs n (ds_pts ds) digest ses)))
        (and_then (place_objects env limits False c pcs (op_objects pcs) v) (\<lambda>(ses, digest, objects).
           deliver Inspect pcs (ds_pts ds) objects (count_composition env pcs n (ds_pts ds) digest ses))) same_view"
      by (rule follows_and_then [OF place_objects_follows]) (auto intro: deliver_follows)
  qed
  show "follows
      (case ds_segments ds of
         [] \<Rightarrow> refuse (set_error EmptySet)
       | first # others \<Rightarrow>
           if seg_type first \<noteq> PresentationComposition \<or> seg_type (last (first # others)) \<noteq> EndOfDisplaySet
           then refuse (set_error SetNotPcsToEnd)
           else and_then (lift (parse_pcs_owned (seg_payload first))) (\<lambda>pcs.
             if length (seg_payload first) \<noteq> 11 + sum_list (map object_bytes (op_objects pcs))
             then refuse (set_error PcsLengthMismatch)
             else and_then (lift (check_canvas limits pcs)) (\<lambda>canvas_pixels.
             and_then (apply_segments env limits c pcs (take (length (first # others) - 2) others) (open_set pcs x, [])) (\<lambda>(ses, pending).
             if pending \<noteq> [] then refuse (set_error IncompleteObject)
             else and_then (place_objects env limits (retains Retain) c pcs (op_objects pcs) ses) (\<lambda>(ses, digest, objects).
               deliver Retain pcs (ds_pts ds) objects (count_composition env pcs canvas_pixels (ds_pts ds) digest ses))))))
      (case ds_segments ds of
         [] \<Rightarrow> refuse (set_error EmptySet)
       | first # others \<Rightarrow>
           if seg_type first \<noteq> PresentationComposition \<or> seg_type (last (first # others)) \<noteq> EndOfDisplaySet
           then refuse (set_error SetNotPcsToEnd)
           else and_then (lift (parse_pcs_owned (seg_payload first))) (\<lambda>pcs.
             if length (seg_payload first) \<noteq> 11 + sum_list (map object_bytes (op_objects pcs))
             then refuse (set_error PcsLengthMismatch)
             else and_then (lift (check_canvas limits pcs)) (\<lambda>canvas_pixels.
             and_then (apply_segments env limits c pcs (take (length (first # others) - 2) others) (open_set pcs y, [])) (\<lambda>(ses, pending).
             if pending \<noteq> [] then refuse (set_error IncompleteObject)
             else and_then (place_objects env limits (retains Inspect) c pcs (op_objects pcs) ses) (\<lambda>(ses, digest, objects).
               deliver Inspect pcs (ds_pts ds) objects (count_composition env pcs canvas_pixels (ds_pts ds) digest ses)))))) same_view"
    by (auto split: list.split intro!: follows_and_then [where Q = "(=)"] rest) (auto simp: follows_def)
qed

text \<open>The parse: the same stream, sessions in view of each other.\<close>

definition same_parse :: "parse_state \<Rightarrow> parse_state \<Rightarrow> bool" where
  "same_parse p q \<longleftrightarrow> q = p\<lparr> ps_session := ps_session q \<rparr> \<and> same_view (ps_session p) (ps_session q)"

lemma same_parseE:
  assumes "same_parse p q"
  obtains b where "q = p\<lparr> ps_session := b \<rparr>" "same_view (ps_session p) b"
  using assms by (auto simp: same_parse_def)

lemma same_parseI: "same_view (ps_session p) b \<Longrightarrow> same_parse p (p\<lparr> ps_session := b \<rparr>)"
  by (simp add: same_parse_def)

lemma read_segment_follows:
  assumes "same_parse p q"
  shows "follows (lift (read_segment env limits header p)) (lift (read_segment env limits header q))
    (\<lambda>x y. fst x = fst y \<and> fst (snd x) = fst (snd y) \<and> same_parse (snd (snd x)) (snd (snd y)))"
  using assms
  by (rule same_parseE) (auto simp: follows_def read_segment_def same_parse_def split: option.splits if_splits)

lemma parse_open_follows:
  assumes "same_parse p q"
  shows "follows (lift (parse_open header kind p)) (lift (parse_open header kind q)) same_parse"
  using assms
  by (rule same_parseE) (auto simp: follows_def parse_open_def and_then_Inr same_parse_def split: if_splits)

lemma parse_count_follows:
  assumes "same_parse p q"
  shows "follows (lift (parse_count limits segment p)) (lift (parse_count limits segment q)) same_parse"
  using assms
  by (rule same_parseE) (auto simp: follows_def parse_count_def Let_def same_parse_def split: option.splits if_splits)

lemma close_set_follows:
  assumes "same_parse p q"
  shows "follows (close_set env limits Retain c p) (close_set env limits Inspect c q) same_parse"
proof -
  obtain b where q: "q = p\<lparr> ps_session := b \<rparr>" and view: "same_view (ps_session p) b" using assms by (rule same_parseE)
  show ?thesis
  proof (cases "checked_add_u64 (ps_display_sets p) 1")
    case (Some n)
    show ?thesis
    proof (cases "max_display_sets limits < n \<or> ps_pts p = None")
      case False
      then obtain pts where pts: "ps_pts p = Some pts" by auto
      have "follows
          (and_then (normalize_display_set env limits Retain c \<lparr> ds_pts = pts, ds_segments = ps_segments p \<rparr> (ps_session p))
            (\<lambda>ses. Inr (p\<lparr> ps_display_sets := n, ps_pts := None, ps_segments := [], ps_session := ses \<rparr>)))
          (and_then (normalize_display_set env limits Inspect c \<lparr> ds_pts = pts, ds_segments = ps_segments p \<rparr> b)
            (\<lambda>ses. Inr (q\<lparr> ps_display_sets := n, ps_pts := None, ps_segments := [], ps_session := ses \<rparr>))) same_parse"
        by (rule follows_and_then [OF normalize_follows [OF view]]) (simp add: q same_parse_def)
      then show ?thesis using Some False pts
        by (simp add: close_set_def q streaming_def del: checked_add_u64_Some checked_add_u64_None)
    qed (use Some in \<open>auto simp: close_set_def q simp del: checked_add_u64_Some checked_add_u64_None\<close>)
  qed (simp add: close_set_def q del: checked_add_u64_None)
qed

lemma parse_segment_follows:
  assumes "same_parse p q"
  shows "follows (parse_segment env limits Retain c header p) (parse_segment env limits Inspect c header q) same_parse"
proof -
  obtain b where q: "q = p\<lparr> ps_session := b \<rparr>" and view: "same_view (ps_session p) b" using assms by (rule same_parseE)
  let ?seg = "\<lambda>(kind :: segment_type) payload.
    \<lparr> seg_pts = header_pts header, seg_dts = header_dts header, seg_type = kind, seg_payload = payload \<rparr>"
  show ?thesis
    unfolding parse_segment_def
  proof (rule follows_and_then [OF check_cancelled_follows])
    show "same_view (ps_session p) (ps_session q)" using view q by simp
    fix u v assume "same_view u v"
    then have "same_parse (p\<lparr> ps_session := u \<rparr>) (q\<lparr> ps_session := v \<rparr>)" by (simp add: q same_parse_def)
    then show "follows
        (and_then (lift (read_segment env limits header (p\<lparr> ps_session := u \<rparr>))) (\<lambda>(kind, payload, st).
          and_then (lift (parse_open header kind st)) (\<lambda>st.
          and_then (lift (parse_count limits (?seg kind payload) st)) (\<lambda>st.
            if kind = EndOfDisplaySet then close_set env limits Retain c st else Inr st))))
        (and_then (lift (read_segment env limits header (q\<lparr> ps_session := v \<rparr>))) (\<lambda>(kind, payload, st).
          and_then (lift (parse_open header kind st)) (\<lambda>st.
          and_then (lift (parse_count limits (?seg kind payload) st)) (\<lambda>st.
            if kind = EndOfDisplaySet then close_set env limits Inspect c st else Inr st)))) same_parse"
    proof (rule follows_and_then [OF read_segment_follows], clarsimp)
      fix kind payload s t assume "same_parse s t"
      then show "follows
          (and_then (lift (parse_open header kind s)) (\<lambda>st.
            and_then (lift (parse_count limits (?seg kind payload) st)) (\<lambda>st.
              if kind = EndOfDisplaySet then close_set env limits Retain c st else Inr st)))
          (and_then (lift (parse_open header kind t)) (\<lambda>st.
            and_then (lift (parse_count limits (?seg kind payload) st)) (\<lambda>st.
              if kind = EndOfDisplaySet then close_set env limits Inspect c st else Inr st))) same_parse"
        by (intro follows_and_then [OF parse_open_follows] follows_and_then [OF parse_count_follows])
          (auto intro: close_set_follows)
    qed
  qed
qed

lemma parse_loop_view:
  "same_parse p q \<Longrightarrow> follows (parse_loop env limits Retain c p) (parse_loop env limits Inspect c q) same_parse"
proof (induction env limits Retain c p arbitrary: q rule: parse_loop.induct)
  case (1 env limits c p)
  obtain b where q: "q = p\<lparr> ps_session := b \<rparr>" and view: "same_view (ps_session p) b" using "1.prems" by (rule same_parseE)
  show ?case
  proof (cases "read_header_or_eof (ps_reader p)")
    case Inr_r: (Inr r)
    show ?thesis
    proof (cases r)
      case None
      then show ?thesis using Inr_r "1.prems" by (subst (1 2) parse_loop.simps) (simp add: q)
    next
      case (Some hr)
      obtain header rd where hr: "hr = (header, rd)" by (cases hr)
      have both: "same_parse (p\<lparr> ps_reader := rd \<rparr>) (q\<lparr> ps_reader := rd \<rparr>)" using view by (simp add: q same_parse_def)
      have "follows (and_then (parse_segment env limits Retain c header (p\<lparr> ps_reader := rd \<rparr>)) (parse_loop env limits Retain c))
          (and_then (parse_segment env limits Inspect c header (q\<lparr> ps_reader := rd \<rparr>)) (parse_loop env limits Inspect c)) same_parse"
      proof (cases "parse_segment env limits Retain c header (p\<lparr> ps_reader := rd \<rparr>)")
        case (Inr p1)
        then obtain q1 where q1: "parse_segment env limits Inspect c header (q\<lparr> ps_reader := rd \<rparr>) = Inr q1" "same_parse p1 q1"
          using parse_segment_follows [OF both, of env limits c header] by (auto simp: follows_def)
        show ?thesis using "1.hyps" [OF Inr_r Some hr [symmetric] Inr q1(2)] Inr q1(1) by simp
      qed simp
      then show ?thesis using Inr_r Some hr by (subst (1 2) parse_loop.simps) (simp add: q and_then_def)
    qed
  qed (subst parse_loop.simps, simp)
qed

lemma process_follows:
  "follows (process_sup_impl env limits Retain c n rd rd_again) (process_sup_impl env limits Inspect c n rd rd_again) same_view"
proof -
  have start: "same_parse (parse_start rd_again ses) (parse_start rd_again ses)" for ses
    by (simp add: same_parse_def same_view_def)
  have parse: "follows (parse_display_sets env limits Retain c rd_again ses) (parse_display_sets env limits Inspect c rd_again ses)
      (\<lambda>x y. fst x = fst y \<and> same_view (snd x) (snd y))" for ses
    unfolding parse_display_sets_def
    by (rule follows_and_then [OF parse_loop_view [OF start]]) (auto simp: same_view_def elim!: same_parseE)
  show ?thesis
  proof (cases "max_sup_bytes limits < n")
    case False
    then have small: "(max_sup_bytes limits < n) = False" by simp
    show ?thesis unfolding process_sup_impl_def small if_False
      by (intro follows_and_then [OF follows_refl [where R = "(=)"]], simp, clarsimp)
        (rule follows_and_then [OF parse], auto simp: same_view_def)
  qed (simp add: process_sup_impl_def)
qed

text \<open>Inspection is normalization without the pixels: whenever a file normalizes, inspecting it answers the
  very same report, digests included.\<close>

theorem inspection_reports_normalization:
  assumes "normalize_sup env limits None source_bytes rd rd_again = Inr (report, compositions)"
  shows "inspect_sup env limits source_bytes rd rd_again = Inr report"
  using assms process_follows [of env limits None source_bytes rd rd_again]
  by (auto simp: normalize_sup_def inspect_sup_def and_then_Inr follows_def same_view_def)

theorem inspection_reports_normalization_witness:
  "\<exists>report. inspect_sup demo_env default_limits 71 demo_file demo_file = Inr report"
proof -
  obtain ses where "process_sup_impl demo_env default_limits Retain None 71 demo_file demo_file = Inr ses"
    using demo_process by blast
  then have "normalize_sup demo_env default_limits None 71 demo_file demo_file = Inr (se_report ses, se_output ses)"
    by (simp add: normalize_sup_def)
  from inspection_reports_normalization [OF this] show ?thesis by blast
qed

end
