(* ===== verification/Fmp4Boxes.thy ===== *)
theory Fmp4Boxes
  imports CutPolicy
begin

text \<open>
  The box layer of the fragmented-MP4 reader (\<open>crates/plurx-core/src/fmp4.rs\<close>): the errors of
  the module, the big-endian accessors, \<open>peek_box_before\<close>, \<open>children\<close> and \<open>find_children\<close>. An
  index or a slice out of range is a panic of the code: it is the outcome \<open>Panicked\<close>, and the
  lemmas called \<open>..._safe\<close> show that no input reaches it. Positions and lengths are bounded by a
  buffer that had to be allocated, so their sums do not wrap.
\<close>

section \<open>Errors\<close>

datatype box_fault =
    BoxDeclaresSize "byte list" nat | BoxStartsPastParent | BoxPastParent "byte list" | BoxSizeOverflows
  | ChildRangeOutside

datatype moov_fault =
    TrexTooShort | NoTracks | TkhdTooShort | NoTrackId | MdhdTooShort | StsdTooShort | EntryTooShort
  | HvccTooShort | AvccTooShort | LocateStsdTooShort | LocateEntryTooShort | LocateHvccTooShort

datatype moof_fault =
    NoTraf | TfhdTooShort | TfhdNoDuration | TfhdNoSize | TfhdNoFlags | TfdtTooShort | TfdtV1TooShort
  | TfdtV0TooShort | TrafNoTrackId | TrunTooShort | TrunVersion | TrunNoOffset | TrunNoFirstFlags
  | TrunDeclares nat | TrunDoesNotCarry nat

datatype reader_fault = InitReplaced | ExpectedMdat "byte list"

datatype merge_fault =
    NothingToMerge | SamplePastFragment | NoTrackSurvived | MdatSizeOverflows | NormalizationChangedSize
  | NalLengthSize | NalLengthTruncated | NalLengthOverflows | NalZeroLength | NalPastSample

datatype segment_fault =
    NoChunkSurvived | SharedAacBounds | EncodedTimeOverflow | EncodedSizeOverflow | EncodedOffsetOverflow
  | EncodedLeavesPayload

datatype fmp4_fault =
  BoxFault box_fault | MoovFault moov_fault | MoofFault moof_fault | ReaderFault reader_fault | MergeFault merge_fault
| SegmentFault segment_fault

datatype segment_limit =
    NeedsBoundary | NeedsVideo | FragmentOverTarget nat nat | StepsOver nat nat nat | FinalOutsideTarget nat
  | SampleOverCeiling nat nat nat | NoVideoToAnchor | TooFarToPlace nat nat | LandsBeforeZero nat int
  | SharedAacPlan | SharedAacAllowance

datatype fmp4_limit =
    BoxToEndOfFile "byte list" | BoxTooLarge "byte list" nat | BaseDataOffset | NegativeDataOffset
  | MdatTooLarge nat | TrunOffsetTooLarge | SampleTooLarge | NoPictureData | SegmentLimit segment_limit

datatype fmp4_error = Malformed fmp4_fault | Unsupported fmp4_limit | MultipleHevcSampleEntries nat

datatype fmp4_stop = Refused fmp4_error | Panicked

type_synonym 'a parsed = "fmp4_stop + 'a"

abbreviation malformed :: "fmp4_fault \<Rightarrow> 'a parsed" where
  "malformed f \<equiv> Inl (Refused (Malformed f))"

abbreviation unsupported :: "fmp4_limit \<Rightarrow> 'a parsed" where
  "unsupported l \<equiv> Inl (Refused (Unsupported l))"

section \<open>Accessors\<close>

definition be_u32 :: "byte list \<Rightarrow> nat \<Rightarrow> nat parsed" where
  "be_u32 b p = (if p + 4 \<le> length b then Inr (from_be (take 4 (drop p b))) else Inl Panicked)"

definition be_u64 :: "byte list \<Rightarrow> nat \<Rightarrow> nat parsed" where
  "be_u64 b p = (if p + 8 \<le> length b then Inr (from_be (take 8 (drop p b))) else Inl Panicked)"

definition byte_index :: "byte list \<Rightarrow> nat \<Rightarrow> byte parsed" where
  "byte_index b p = (if p < length b then Inr (b ! p) else Inl Panicked)"

definition slice_range :: "byte list \<Rightarrow> nat \<Rightarrow> nat \<Rightarrow> byte list parsed" where
  "slice_range b s e = (if s \<le> e \<and> e \<le> length b then Inr (take (e - s) (drop s b)) else Inl Panicked)"

section \<open>Box headers\<close>

definition MAX_BOX_BYTES :: nat where "MAX_BOX_BYTES = 2147483647"

record box_header =
  bh_size :: nat
  bh_header_len :: nat
  bh_ty :: "byte list"

text \<open>The checks behind the length field, in the order of the code.\<close>

definition check_box :: "byte list \<Rightarrow> nat \<Rightarrow> nat option \<Rightarrow> nat \<Rightarrow> nat \<Rightarrow> box_header option parsed" where
  "check_box ty pos parent_end declared header_len =
     (if declared < header_len then malformed (BoxFault (BoxDeclaresSize ty declared))
      else
        let accepted =
          (if MAX_BOX_BYTES < declared then unsupported (BoxTooLarge ty declared)
           else Inr (Some \<lparr> bh_size = declared, bh_header_len = header_len, bh_ty = ty \<rparr>)) in
        case parent_end of
          None \<Rightarrow> accepted
        | Some pe \<Rightarrow>
            if pe < pos then malformed (BoxFault BoxStartsPastParent)
            else if pe - pos < declared then malformed (BoxFault (BoxPastParent ty))
            else accepted)"

definition peek_box_before :: "byte list \<Rightarrow> nat \<Rightarrow> nat option \<Rightarrow> box_header option parsed" where
  "peek_box_before buf pos parent_end =
     (if length buf < pos + 8 then Inr None
      else
        and_then (be_u32 buf pos) (\<lambda>size32.
        and_then (slice_range buf (pos + 4) (pos + 8)) (\<lambda>ty.
          if size32 = 1 then
            if length buf < pos + 16 then Inr None
            else and_then (be_u64 buf (pos + 8)) (\<lambda>large. check_box ty pos parent_end large 16)
          else if size32 = 0 then unsupported (BoxToEndOfFile ty)
          else check_box ty pos parent_end size32 8)))"

definition peek_box :: "byte list \<Rightarrow> nat \<Rightarrow> box_header option parsed" where
  "peek_box buf pos = peek_box_before buf pos None"

lemma check_box_Inr:
  "check_box ty pos pe n hl = Inr r \<Longrightarrow>
   r = Some \<lparr> bh_size = n, bh_header_len = hl, bh_ty = ty \<rparr> \<and> hl \<le> n \<and> n \<le> MAX_BOX_BYTES \<and>
   (case pe of None \<Rightarrow> True | Some e \<Rightarrow> pos + n \<le> e)"
  by (auto simp: check_box_def Let_def split: if_splits option.splits)

lemma peek_box_before_Some:
  assumes "peek_box_before buf pos pe = Inr (Some h)"
  shows "bh_header_len h \<in> {8, 16}" "bh_header_len h \<le> bh_size h" "bh_size h \<le> MAX_BOX_BYTES"
    and "length (bh_ty h) = 4" "pos + bh_header_len h \<le> length buf"
    and "pe = Some e \<Longrightarrow> pos + bh_size h \<le> e"
  using assms
  by (auto simp: peek_box_before_def and_then_Inr slice_range_def split: if_splits dest!: check_box_Inr)

lemma peek_box_before_progress: "peek_box_before buf pos pe = Inr (Some h) \<Longrightarrow> 8 \<le> bh_size h"
  using peek_box_before_Some(1,2) [of buf pos pe h] by auto

section \<open>The boxes inside a box\<close>

type_synonym child = "box_header \<times> nat \<times> nat"

function children_from :: "byte list \<Rightarrow> nat \<Rightarrow> child list parsed" where
  "children_from payload p =
     (if p + 8 \<le> length payload then
        and_then (peek_box_before payload p (Some (length payload))) (\<lambda>h. case h of
          None \<Rightarrow> Inr []
        | Some hdr \<Rightarrow>
            (case checked_add_usize p (bh_size hdr) of
               None \<Rightarrow> malformed (BoxFault BoxSizeOverflows)
             | Some e \<Rightarrow>
                 if length payload < e then malformed (BoxFault (BoxPastParent (bh_ty hdr)))
                 else and_then (children_from payload e) (\<lambda>rest. Inr ((hdr, p + bh_header_len hdr, e) # rest))))
      else Inr [])"
  by pat_completeness auto
termination
  by (relation "measure (\<lambda>(payload, p). length payload - p)")
    (auto simp: checked_add_usize_def split: if_splits dest: peek_box_before_progress)

declare children_from.simps [simp del]

definition children :: "byte list \<Rightarrow> child list parsed" where
  "children payload = children_from payload 0"

text \<open>
  The locating walk keeps the boxes of one kind, with where they start and how long their header
  is. It is the same walk over a range of a larger buffer.
\<close>

type_synonym located = "(nat \<times> nat) \<times> box_header"

function find_from :: "byte list \<Rightarrow> nat \<Rightarrow> nat \<Rightarrow> byte list \<Rightarrow> located list parsed" where
  "find_from bytes pos range_end kind =
     (if pos + 8 \<le> range_end then
        and_then (peek_box_before bytes pos (Some range_end)) (\<lambda>h. case h of
          None \<Rightarrow> Inr []
        | Some hdr \<Rightarrow>
            (case checked_add_usize pos (bh_size hdr) of
               None \<Rightarrow> malformed (BoxFault BoxSizeOverflows)
             | Some e \<Rightarrow>
                 if range_end < e then malformed (BoxFault (BoxPastParent (bh_ty hdr)))
                 else and_then (find_from bytes e range_end kind) (\<lambda>rest.
                        Inr (if bh_ty hdr = kind then ((pos, bh_header_len hdr), hdr) # rest else rest))))
      else Inr [])"
  by pat_completeness auto
termination
  by (relation "measure (\<lambda>(bytes, pos, range_end, kind). range_end - pos)")
    (auto simp: checked_add_usize_def split: if_splits dest: peek_box_before_progress)

declare find_from.simps [simp del]

definition find_children :: "byte list \<Rightarrow> nat \<Rightarrow> nat \<Rightarrow> byte list \<Rightarrow> located list parsed" where
  "find_children bytes range_start range_end kind =
     (if length bytes < range_end \<or> range_end < range_start then malformed (BoxFault ChildRangeOutside)
      else find_from bytes range_start range_end kind)"

definition find_child :: "byte list \<Rightarrow> nat \<Rightarrow> nat \<Rightarrow> byte list \<Rightarrow> located option parsed" where
  "find_child bytes range_start range_end kind =
     and_then (find_children bytes range_start range_end kind)
       (\<lambda>found. Inr (case found of [] \<Rightarrow> None | x # _ \<Rightarrow> Some x))"

section \<open>No box makes the reader panic\<close>

definition no_panic :: "'a parsed \<Rightarrow> bool" where
  "no_panic r \<longleftrightarrow> r \<noteq> Inl Panicked"

lemma no_panic_simps [simp]:
  "no_panic (Inl e) \<longleftrightarrow> e \<noteq> Panicked" "no_panic (Inr x)"
  "no_panic (and_then r f) \<longleftrightarrow> no_panic r \<and> (\<forall>x. r = Inr x \<longrightarrow> no_panic (f x))"
  by (cases r; simp add: no_panic_def)+

lemma be_u32_in [simp]: "p + 4 \<le> length b \<Longrightarrow> be_u32 b p = Inr (from_be (take 4 (drop p b)))"
  by (simp add: be_u32_def)

lemma be_u64_in [simp]: "p + 8 \<le> length b \<Longrightarrow> be_u64 b p = Inr (from_be (take 8 (drop p b)))"
  by (simp add: be_u64_def)

lemma byte_index_in [simp]: "p < length b \<Longrightarrow> byte_index b p = Inr (b ! p)"
  by (simp add: byte_index_def)

lemma slice_range_in [simp]: "s \<le> e \<Longrightarrow> e \<le> length b \<Longrightarrow> slice_range b s e = Inr (take (e - s) (drop s b))"
  by (simp add: slice_range_def)

lemma no_panic_access [simp]:
  "no_panic (be_u32 b p) \<longleftrightarrow> p + 4 \<le> length b" "no_panic (be_u64 b p) \<longleftrightarrow> p + 8 \<le> length b"
  "no_panic (byte_index b p) \<longleftrightarrow> p < length b" "no_panic (slice_range b s e) \<longleftrightarrow> s \<le> e \<and> e \<le> length b"
  by (simp_all add: be_u32_def be_u64_def byte_index_def slice_range_def)

lemma be_u32_bound: "be_u32 b p = Inr v \<Longrightarrow> v < 2 ^ 32"
  using from_be_bound [of "take 4 (drop p b)"] by (auto simp: be_u32_def split: if_splits)

lemma be_u64_bound: "be_u64 b p = Inr v \<Longrightarrow> v < 2 ^ 64"
  using from_be_bound [of "take 8 (drop p b)"] by (auto simp: be_u64_def split: if_splits)

lemma check_box_safe [simp]: "no_panic (check_box ty pos pe n hl)"
  by (auto simp: check_box_def Let_def split: option.splits)

lemma peek_box_before_safe [intro, simp]: "no_panic (peek_box_before buf pos pe)"
  by (simp add: peek_box_before_def)

lemma children_from_safe: "no_panic (children_from payload p)"
proof (induction payload p rule: children_from.induct)
  case (1 payload p)
  show ?case
    by (subst children_from.simps) (simp add: 1 split: option.splits)
qed

lemma find_from_safe: "no_panic (find_from bytes pos range_end kind)"
proof (induction bytes pos range_end kind rule: find_from.induct)
  case (1 bytes pos range_end kind)
  show ?case
    by (subst find_from.simps) (simp add: 1 split: option.splits)
qed

lemma children_safe [intro, simp]: "no_panic (children payload)"
  by (simp add: children_def children_from_safe)

lemma find_children_safe [intro, simp]: "no_panic (find_children bytes s e kind)"
  by (simp add: find_children_def find_from_safe)

lemma find_child_safe [intro, simp]: "no_panic (find_child bytes s e kind)"
  by (auto simp: find_child_def)

text \<open>The ranges handed out lie inside the parent.\<close>

definition child_inside :: "byte list \<Rightarrow> child \<Rightarrow> bool" where
  "child_inside payload c = (case c of (h, s, e) \<Rightarrow>
     bh_header_len h \<in> {8, 16} \<and> s \<le> e \<and> e \<le> length payload \<and> e = s - bh_header_len h + bh_size h \<and> bh_header_len h \<le> s)"

lemma children_from_inside: "children_from payload p = Inr cs \<Longrightarrow> c \<in> set cs \<Longrightarrow> child_inside payload c"
proof (induction payload p arbitrary: cs rule: children_from.induct)
  case (1 payload p)
  show ?case
  proof (cases "p + 8 \<le> length payload")
    case True
    with "1.prems" obtain h where peek: "peek_box_before payload p (Some (length payload)) = Inr h"
      by (auto simp: children_from.simps [of payload p] and_then_Inr)
    show ?thesis
    proof (cases h)
      case None
      then show ?thesis using "1.prems" True peek by (simp add: children_from.simps [of payload p])
    next
      case (Some hdr)
      note hdr = peek_box_before_Some [OF peek [unfolded Some]]
      from "1.prems"(1) True peek Some obtain rest where e: "p + bh_size hdr \<le> USIZE_MAX" "p + bh_size hdr \<le> length payload"
        and rest: "children_from payload (p + bh_size hdr) = Inr rest"
        and cs: "cs = (hdr, p + bh_header_len hdr, p + bh_size hdr) # rest"
        by (auto simp: children_from.simps [of payload p] and_then_Inr checked_add_usize_def split: if_splits)
      show ?thesis
      proof (cases "c = (hdr, p + bh_header_len hdr, p + bh_size hdr)")
        case True
        then show ?thesis using hdr e by (auto simp: child_inside_def)
      next
        case False
        then show ?thesis
          using "1.IH" [OF True peek Some, of "p + bh_size hdr" rest] "1.prems"(2) e rest cs by simp
      qed
    qed
  qed (use "1.prems" in \<open>simp add: children_from.simps [of payload p]\<close>)
qed

lemma children_inside: "children payload = Inr cs \<Longrightarrow> c \<in> set cs \<Longrightarrow> child_inside payload c"
  by (simp add: children_def children_from_inside)

section \<open>More bytes never change what was read\<close>

lemma peek_box_append:
  assumes "peek_box buf pos \<noteq> Inr None"
  shows "peek_box (buf @ x) pos = peek_box buf pos"
proof -
  have len: "pos + 8 \<le> length buf"
    using assms by (cases "length buf < pos + 8") (simp_all add: peek_box_def peek_box_before_def)
  show ?thesis
    using assms len
    by (cases "pos + 16 \<le> length buf") (auto simp: peek_box_def peek_box_before_def)
qed

section \<open>Written boxes\<close>

definition write_box :: "byte list \<Rightarrow> byte list \<Rightarrow> byte list" where
  "write_box ty payload = be_bytes 4 (8 + length payload) @ ty @ payload"

definition header_of :: "byte list \<Rightarrow> byte list \<Rightarrow> box_header" where
  "header_of ty payload = \<lparr> bh_size = 8 + length payload, bh_header_len = 8, bh_ty = ty \<rparr>"

lemma length_write_box [simp]: "length ty = 4 \<Longrightarrow> length (write_box ty payload) = 8 + length payload"
  by (simp add: write_box_def)

lemma peek_written:
  assumes "length ty = 4" "8 + length payload \<le> MAX_BOX_BYTES"
    and "case pe of None \<Rightarrow> True | Some e \<Rightarrow> length pre + 8 + length payload \<le> e"
  shows "peek_box_before (pre @ write_box ty payload @ post) (length pre) pe = Inr (Some (header_of ty payload))"
proof -
  let ?b = "pre @ write_box ty payload @ post"
  have n: "from_be (take 4 (drop (length pre) ?b)) = 8 + length payload"
    using assms(2) by (simp add: write_box_def MAX_BOX_BYTES_def from_be_bytes)
  have ty: "take 4 (drop (length pre + 4) ?b) = ty"
    using assms(1) by (simp add: write_box_def)
  show ?thesis
    using assms n ty
    by (auto simp: peek_box_before_def check_box_def header_of_def Let_def split: option.splits)
qed

text \<open>The children of a sequence of written boxes, with the ranges of their payloads.\<close>

fun written_children :: "nat \<Rightarrow> (byte list \<times> byte list) list \<Rightarrow> child list" where
  "written_children p [] = []"
| "written_children p ((ty, payload) # bs) =
     (header_of ty payload, p + 8, p + 8 + length payload) # written_children (p + 8 + length payload) bs"

lemma children_from_written:
  assumes "\<forall>(ty, payload) \<in> set bs. length ty = 4"
    and "length (pre @ concat (map (\<lambda>(ty, payload). write_box ty payload) bs)) \<le> MAX_BOX_BYTES"
  shows "children_from (pre @ concat (map (\<lambda>(ty, payload). write_box ty payload) bs)) (length pre)
    = Inr (written_children (length pre) bs)"
  using assms
proof (induction bs arbitrary: pre)
  case Nil
  then show ?case by (simp add: children_from.simps)
next
  case (Cons b bs)
  obtain ty payload where b: "b = (ty, payload)" by (cases b)
  let ?rest = "concat (map (\<lambda>(ty, payload). write_box ty payload) bs)"
  let ?all = "pre @ write_box ty payload @ ?rest"
  have ty: "length ty = 4" using Cons.prems(1) b by simp
  have len: "length pre + 8 + length payload \<le> length ?all" using ty by simp
  have small: "length ?all \<le> MAX_BOX_BYTES" using Cons.prems(2) b by simp
  have peek: "peek_box_before ?all (length pre) (Some (length ?all)) = Inr (Some (header_of ty payload))"
    by (rule peek_written) (use ty small len in simp_all)
  have rest: "children_from ?all (length pre + (8 + length payload)) = Inr (written_children (length pre + 8 + length payload) bs)"
    using Cons.IH [of "pre @ write_box ty payload"] Cons.prems b ty by (simp add: add.assoc)
  have "length pre + (8 + length payload) \<le> USIZE_MAX" using len small by (simp add: MAX_BOX_BYTES_def)
  then have "children_from ?all (length pre) = Inr (written_children (length pre) ((ty, payload) # bs))"
    using peek rest len
    by (subst children_from.simps) (simp add: checked_add_usize_def header_of_def add.assoc)
  then show ?case by (simp add: b)
qed

lemma children_written:
  assumes "\<forall>(ty, payload) \<in> set bs. length ty = 4"
    and "length (concat (map (\<lambda>(ty, payload). write_box ty payload) bs)) \<le> MAX_BOX_BYTES"
  shows "children (concat (map (\<lambda>(ty, payload). write_box ty payload) bs)) = Inr (written_children 0 bs)"
  using children_from_written [of bs "[]"] assms by (simp add: children_def)

end
