(* ===== verification/Fmp4Parse.thy ===== *)
theory Fmp4Parse
  imports Fmp4Boxes
begin

text \<open>
  The box parsers of \<open>crates/plurx-core/src/fmp4.rs\<close>: \<open>parse_moov\<close> with the tracks it describes,
  and \<open>parse_moof\<close> with the track fragments, whose samples are resolved through the ladder of
  defaults (\<open>trex\<close>, \<open>tfhd\<close>, \<open>trun\<close>). A box kind is the four bytes of its name.
\<close>

unbundle bit_operations_syntax

abbreviation kind_is :: "box_header \<Rightarrow> string \<Rightarrow> bool" where
  "kind_is hdr name \<equiv> bh_ty hdr = ascii name"

section \<open>The movie box\<close>

definition parse_visual_child :: "byte list \<Rightarrow> video_codec \<Rightarrow> child \<Rightarrow> track \<Rightarrow> track parsed" where
  "parse_visual_child extra codec c t = (case c of (h2, s2, e2) \<Rightarrow>
     and_then (slice_range extra s2 e2) (\<lambda>rec.
       if kind_is h2 ''dvcC'' \<or> kind_is h2 ''dvvC'' then Inr (t\<lparr> tr_dolby_vision_config := True \<rparr>)
       else if kind_is h2 ''hvcC'' \<and> codec = Hevc then
         if length rec < 22 then malformed (MoovFault HvccTooShort)
         else and_then (byte_index rec 21) (\<lambda>b. Inr (t\<lparr> tr_nal_length_size := unat (b AND 3) + 1 \<rparr>))
       else if kind_is h2 ''avcC'' \<and> codec = H264 then
         if length rec < 5 then malformed (MoovFault AvccTooShort)
         else and_then (byte_index rec 4) (\<lambda>b. Inr (t\<lparr> tr_nal_length_size := unat (b AND 3) + 1 \<rparr>))
       else Inr t))"

definition entry_codec :: "box_header \<Rightarrow> video_codec option" where
  "entry_codec h =
     (if bh_ty h \<in> {ascii ''hvc1'', ascii ''hev1'', ascii ''dvh1'', ascii ''dvhe''} then Some Hevc
      else if bh_ty h \<in> {ascii ''avc1'', ascii ''avc3'', ascii ''dva1'', ascii ''dvav''} then Some H264
      else None)"

definition parse_sample_entry :: "byte list \<Rightarrow> child \<Rightarrow> track \<Rightarrow> track parsed" where
  "parse_sample_entry entries c t = (case c of (entry, estart, eend) \<Rightarrow>
     (case entry_codec entry of
        None \<Rightarrow> Inr t
      | Some codec \<Rightarrow>
          let t = t\<lparr> tr_codec := Some codec \<rparr> in
          and_then (slice_range entries estart eend) (\<lambda>body.
            if length body < 78 then malformed (MoovFault EntryTooShort)
            else
              and_then (slice_range body 78 (length body)) (\<lambda>extra.
              and_then (children extra) (\<lambda>cs. for_each cs (parse_visual_child extra codec) t)))))"

definition parse_stbl :: "byte list \<Rightarrow> track \<Rightarrow> track parsed" where
  "parse_stbl payload t =
     and_then (children payload) (\<lambda>cs. for_each cs (\<lambda>(hdr, s, e) t.
       if \<not> kind_is hdr ''stsd'' then Inr t
       else
         and_then (slice_range payload s e) (\<lambda>b.
           if length b < 8 then malformed (MoovFault StsdTooShort)
           else
             and_then (slice_range b 8 (length b)) (\<lambda>entries.
             and_then (children entries) (\<lambda>es. for_each es (parse_sample_entry entries) t)))) t)"

text \<open>The identifier behind the two times of a full box, whose version gives their width.\<close>

definition version_offset :: "byte list \<Rightarrow> nat" where
  "version_offset b = (if b \<noteq> [] \<and> hd b = 1 then 20 else 12)"

definition handler_kind :: "byte list \<Rightarrow> track_kind" where
  "handler_kind name = (if name = ascii ''vide'' then Video else if name = ascii ''soun'' then Audio else OtherKind)"

definition parse_mdia :: "byte list \<Rightarrow> track \<Rightarrow> track parsed" where
  "parse_mdia payload t =
     and_then (children payload) (\<lambda>cs. for_each cs (\<lambda>(hdr, s, e) t.
       and_then (slice_range payload s e) (\<lambda>b.
         if kind_is hdr ''mdhd'' then
           let off = version_offset b in
           if length b < off + 4 then malformed (MoovFault MdhdTooShort)
           else and_then (be_u32 b off) (\<lambda>v. Inr (t\<lparr> tr_timescale := v \<rparr>))
         else if kind_is hdr ''hdlr'' \<and> 12 \<le> length b then
           and_then (slice_range b 8 12) (\<lambda>name. Inr (t\<lparr> tr_kind := handler_kind name \<rparr>))
         else if kind_is hdr ''minf'' then
           and_then (children b) (\<lambda>cs2. for_each cs2 (\<lambda>(h2, s2, e2) t.
             if kind_is h2 ''stbl'' then and_then (slice_range b s2 e2) (\<lambda>stbl. parse_stbl stbl t) else Inr t) t)
         else Inr t)) t)"

definition fresh_track :: track where
  "fresh_track = \<lparr> tr_id = 0, tr_kind = OtherKind, tr_timescale = 0, tr_has_edit_list = False, tr_codec = None,
     tr_dolby_vision_config = False, tr_nal_length_size = 0, tr_default_sample_duration = 0,
     tr_default_sample_size = 0, tr_default_sample_flags = 0 \<rparr>"

definition parse_trak :: "byte list \<Rightarrow> track parsed" where
  "parse_trak payload =
     and_then (and_then (children payload) (\<lambda>cs. for_each cs (\<lambda>(hdr, s, e) t.
       and_then (slice_range payload s e) (\<lambda>b.
         if kind_is hdr ''tkhd'' then
           let off = version_offset b in
           if length b < off + 4 then malformed (MoovFault TkhdTooShort)
           else and_then (be_u32 b off) (\<lambda>v. Inr (t\<lparr> tr_id := v \<rparr>))
         else if kind_is hdr ''mdia'' then parse_mdia b t
         else if kind_is hdr ''edts'' \<or> kind_is hdr ''elst'' then Inr (t\<lparr> tr_has_edit_list := True \<rparr>)
         else Inr t)) fresh_track))
       (\<lambda>t. if tr_id t = 0 then malformed (MoovFault NoTrackId) else Inr t)"

type_synonym trex = "nat \<times> nat \<times> nat \<times> nat"

definition parse_mvex :: "byte list \<Rightarrow> trex list \<Rightarrow> trex list parsed" where
  "parse_mvex mvex trexs =
     and_then (children mvex) (\<lambda>cs. for_each cs (\<lambda>(h2, s2, e2) trexs.
       if \<not> kind_is h2 ''trex'' then Inr trexs
       else
         and_then (slice_range mvex s2 e2) (\<lambda>b.
           if length b < 24 then malformed (MoovFault TrexTooShort)
           else
             and_then (be_u32 b 4) (\<lambda>i. and_then (be_u32 b 12) (\<lambda>dur.
             and_then (be_u32 b 16) (\<lambda>sz. and_then (be_u32 b 20) (\<lambda>fl.
               Inr (trexs @ [(i, dur, sz, fl)]))))))) trexs)"

definition apply_trex :: "trex list \<Rightarrow> track \<Rightarrow> track" where
  "apply_trex trexs t =
     (case find (\<lambda>(i, _). i = tr_id t) trexs of
        None \<Rightarrow> t
      | Some (i, dur, sz, fl) \<Rightarrow>
          t\<lparr> tr_default_sample_duration := dur, tr_default_sample_size := sz, tr_default_sample_flags := fl \<rparr>)"

definition parse_moov :: "byte list \<Rightarrow> track list parsed" where
  "parse_moov payload =
     and_then (and_then (children payload) (\<lambda>cs. for_each cs (\<lambda>(hdr, s, e) (tracks, trexs).
       if kind_is hdr ''trak'' then
         and_then (slice_range payload s e) (\<lambda>b. and_then (parse_trak b) (\<lambda>t. Inr (tracks @ [t], trexs)))
       else if kind_is hdr ''mvex'' then
         and_then (slice_range payload s e) (\<lambda>mvex. and_then (parse_mvex mvex trexs) (\<lambda>trexs. Inr (tracks, trexs)))
       else Inr (tracks, trexs)) ([], [])))
       (\<lambda>(tracks, trexs). if tracks = [] then malformed (MoovFault NoTracks) else Inr (map (apply_trex trexs) tracks))"

section \<open>Track runs\<close>

definition MAX_SAMPLES_PER_RUN :: nat where "MAX_SAMPLES_PER_RUN = 1048576"

definition as_i32 :: "nat \<Rightarrow> int" where
  "as_i32 v = (if v < 2147483648 then int v else int v - 4294967296)"

text \<open>A field of a sample, when the flags of the run say it is there; the position moves past it.\<close>

definition run_field :: "bool \<Rightarrow> byte list \<Rightarrow> nat \<Rightarrow> (nat option \<times> nat) parsed" where
  "run_field present b p = (if present then and_then (be_u32 b p) (\<lambda>v. Inr (Some v, p + 4)) else Inr (None, p))"

type_synonym sample_defaults = "nat \<times> nat \<times> 32 word"

definition parse_sample ::
    "byte list \<Rightarrow> nat \<Rightarrow> nat \<Rightarrow> 32 word \<Rightarrow> sample_defaults \<Rightarrow> 32 word option \<Rightarrow> nat \<Rightarrow> nat \<Rightarrow> (sample \<times> nat) parsed" where
  "parse_sample b base version flags defaults first_flags i p = (case defaults of (duration, sz, sflags) \<Rightarrow>
     and_then (run_field (flags AND 0x100 \<noteq> 0) b p) (\<lambda>(dur, p1).
     and_then (run_field (flags AND 0x200 \<noteq> 0) b p1) (\<lambda>(sample_size, p2).
     and_then (run_field (flags AND 0x400 \<noteq> 0) b p2) (\<lambda>(sample_flags, p3).
     and_then (run_field (flags AND 0x800 \<noteq> 0) b p3) (\<lambda>(cto, p4).
       Inr (\<lparr> sm_duration = (case dur of None \<Rightarrow> duration | Some v \<Rightarrow> v),
              sm_size = (case sample_size of None \<Rightarrow> sz | Some v \<Rightarrow> v),
              sm_size_at = (if sample_size = None then None else Some (base + p1)),
              sm_flags = (case (if i = 0 then first_flags else None) of
                            Some v \<Rightarrow> v
                          | None \<Rightarrow> (case sample_flags of None \<Rightarrow> sflags | Some v \<Rightarrow> of_nat v)),
              sm_cto = (case cto of None \<Rightarrow> 0 | Some raw \<Rightarrow> if version = 0 then int raw else as_i32 raw) \<rparr>, p4))))))"

fun parse_samples ::
    "byte list \<Rightarrow> nat \<Rightarrow> nat \<Rightarrow> 32 word \<Rightarrow> sample_defaults \<Rightarrow> 32 word option \<Rightarrow> nat \<Rightarrow> nat \<Rightarrow> nat \<Rightarrow> sample list parsed" where
  "parse_samples b base version flags defaults first_flags i p 0 = Inr []"
| "parse_samples b base version flags defaults first_flags i p (Suc n) =
     and_then (parse_sample b base version flags defaults first_flags i p) (\<lambda>(s, p).
     and_then (parse_samples b base version flags defaults first_flags (Suc i) p n) (\<lambda>ss. Inr (s # ss)))"

definition parse_data_offset :: "byte list \<Rightarrow> nat \<Rightarrow> 32 word \<Rightarrow> nat \<Rightarrow> (nat \<times> nat option \<times> nat) parsed" where
  "parse_data_offset b base flags continue_from =
     (if flags AND 1 \<noteq> 0 then
        if length b < 8 + 4 then malformed (MoofFault TrunNoOffset)
        else and_then (be_u32 b 8) (\<lambda>v.
          if as_i32 v < 0 then unsupported NegativeDataOffset else Inr (v, Some (base + 8), 12))
      else Inr (continue_from, None, 8))"

definition parse_first_flags :: "byte list \<Rightarrow> 32 word \<Rightarrow> nat \<Rightarrow> (32 word option \<times> nat) parsed" where
  "parse_first_flags b flags p =
     (if flags AND 4 \<noteq> 0 then
        if length b < p + 4 then malformed (MoofFault TrunNoFirstFlags)
        else and_then (be_u32 b p) (\<lambda>v. Inr (Some (of_nat v), p + 4))
      else Inr (None, p))"

definition bytes_per_sample :: "32 word \<Rightarrow> nat" where
  "bytes_per_sample flags =
     4 * of_bool (flags AND 0x100 \<noteq> 0) + 4 * of_bool (flags AND 0x200 \<noteq> 0) +
     4 * of_bool (flags AND 0x400 \<noteq> 0) + 4 * of_bool (flags AND 0x800 \<noteq> 0)"

definition parse_trun :: "byte list \<Rightarrow> nat \<Rightarrow> sample_defaults \<Rightarrow> nat \<Rightarrow> run parsed" where
  "parse_trun b base defaults continue_from =
     (if length b < 8 then malformed (MoofFault TrunTooShort)
      else
        and_then (byte_index b 0) (\<lambda>version.
        if 1 < version then malformed (MoofFault TrunVersion)
        else
          and_then (be_u32 b 0) (\<lambda>word0.
          and_then (be_u32 b 4) (\<lambda>sample_count.
            let flags = (of_nat word0 :: 32 word) AND 0x00ffffff in
            and_then (parse_data_offset b base flags continue_from) (\<lambda>(data_offset, data_offset_at, p).
            and_then (parse_first_flags b flags p) (\<lambda>(first_flags, p).
              if MAX_SAMPLES_PER_RUN < sample_count then malformed (MoofFault (TrunDeclares sample_count))
              else if length b < saturating_add_u64 p (saturating_mul_u64 sample_count (bytes_per_sample flags))
              then malformed (MoofFault (TrunDoesNotCarry sample_count))
              else
                and_then (parse_samples b base (unat version) flags defaults first_flags 0 p sample_count) (\<lambda>samples.
                  Inr \<lparr> rn_version = unat version, rn_composition_offsets_present = (flags AND 0x800 \<noteq> 0),
                        rn_data_offset = data_offset, rn_data_offset_at = data_offset_at, rn_samples = samples \<rparr>)))))))"

section \<open>Track fragments\<close>

record traf_state =
  ts_track_id :: nat
  ts_base_decode_time :: nat
  ts_defaults :: sample_defaults
  ts_runs :: "run list"
  ts_running_offset :: nat

definition optional_default :: "bool \<Rightarrow> byte list \<Rightarrow> nat \<Rightarrow> nat \<Rightarrow> moof_fault \<Rightarrow> (nat \<times> nat) parsed" where
  "optional_default present b p current fault =
     (if present then
        if length b < p + 4 then malformed (MoofFault fault)
        else and_then (be_u32 b p) (\<lambda>v. Inr (v, p + 4))
      else Inr (current, p))"

definition parse_tfhd :: "byte list \<Rightarrow> track list \<Rightarrow> traf_state \<Rightarrow> traf_state parsed" where
  "parse_tfhd b tracks st =
     (if length b < 8 then malformed (MoofFault TfhdTooShort)
      else
        and_then (be_u32 b 0) (\<lambda>word0.
        and_then (be_u32 b 4) (\<lambda>track_id.
          let flags = (of_nat word0 :: 32 word) AND 0x00ffffff;
              (duration, sz, sflags) =
                (case find (\<lambda>t. tr_id t = track_id) tracks of
                   None \<Rightarrow> ts_defaults st
                 | Some t \<Rightarrow> (tr_default_sample_duration t, tr_default_sample_size t, of_nat (tr_default_sample_flags t)));
              p = (if flags AND 2 \<noteq> 0 then 12 else 8) in
          if flags AND 1 \<noteq> 0 then unsupported BaseDataOffset
          else
            and_then (optional_default (flags AND 8 \<noteq> 0) b p duration TfhdNoDuration) (\<lambda>(duration, p).
            and_then (optional_default (flags AND 0x10 \<noteq> 0) b p sz TfhdNoSize) (\<lambda>(sz, p).
            and_then (optional_default (flags AND 0x20 \<noteq> 0) b p (unat sflags) TfhdNoFlags) (\<lambda>(fl, p).
              Inr (st\<lparr> ts_track_id := track_id, ts_defaults := (duration, sz, of_nat fl) \<rparr>)))))))"

definition parse_tfdt :: "byte list \<Rightarrow> traf_state \<Rightarrow> traf_state parsed" where
  "parse_tfdt b st =
     (if b = [] then malformed (MoofFault TfdtTooShort)
      else
        and_then (byte_index b 0) (\<lambda>version.
        if version = 1 then
          if length b < 12 then malformed (MoofFault TfdtV1TooShort)
          else and_then (be_u64 b 4) (\<lambda>v. Inr (st\<lparr> ts_base_decode_time := v \<rparr>))
        else if length b < 8 then malformed (MoofFault TfdtV0TooShort)
        else and_then (be_u32 b 4) (\<lambda>v. Inr (st\<lparr> ts_base_decode_time := v \<rparr>))))"

definition parse_traf_child :: "byte list \<Rightarrow> nat \<Rightarrow> track list \<Rightarrow> child \<Rightarrow> traf_state \<Rightarrow> traf_state parsed" where
  "parse_traf_child payload base tracks c st = (case c of (hdr, s, e) \<Rightarrow>
     and_then (slice_range payload s e) (\<lambda>b.
       if kind_is hdr ''tfhd'' then parse_tfhd b tracks st
       else if kind_is hdr ''tfdt'' then parse_tfdt b st
       else if kind_is hdr ''trun'' then
         and_then (parse_trun b (base + s) (ts_defaults st) (ts_running_offset st)) (\<lambda>rn.
           Inr (st\<lparr> ts_running_offset := wrapping_add_u64 (rn_data_offset rn) (run_byte_len rn),
                   ts_runs := ts_runs st @ [rn] \<rparr>))
       else Inr st))"

definition fresh_traf :: traf_state where
  "fresh_traf = \<lparr> ts_track_id = 0, ts_base_decode_time = 0, ts_defaults = (0, 0, 0), ts_runs = [], ts_running_offset = 0 \<rparr>"

definition parse_traf :: "byte list \<Rightarrow> nat \<Rightarrow> track list \<Rightarrow> track_fragment parsed" where
  "parse_traf payload base tracks =
     and_then (and_then (children payload) (\<lambda>cs. for_each cs (parse_traf_child payload base tracks) fresh_traf))
       (\<lambda>st. if ts_track_id st = 0 then malformed (MoofFault TrafNoTrackId)
             else Inr \<lparr> tf_track_id = ts_track_id st, tf_base_decode_time = ts_base_decode_time st, tf_runs = ts_runs st \<rparr>)"

definition parse_moof_child ::
    "byte list \<Rightarrow> nat \<Rightarrow> track list \<Rightarrow> child \<Rightarrow> track_fragment list \<Rightarrow> track_fragment list parsed" where
  "parse_moof_child body header_len tracks c out = (case c of (hdr, s, e) \<Rightarrow>
     if \<not> kind_is hdr ''traf'' then Inr out
     else and_then (slice_range body s e) (\<lambda>b.
            and_then (parse_traf b (header_len + s) tracks) (\<lambda>tf. Inr (out @ [tf]))))"

definition parse_moof :: "byte list \<Rightarrow> nat \<Rightarrow> track list \<Rightarrow> track_fragment list parsed" where
  "parse_moof moof header_len tracks =
     and_then (slice_range moof header_len (length moof)) (\<lambda>body.
     and_then (and_then (children body) (\<lambda>cs. for_each cs (parse_moof_child body header_len tracks) []))
       (\<lambda>out. if out = [] then malformed (MoofFault NoTraf) else Inr out))"

section \<open>No box makes the parsers panic\<close>

lemma for_each_no_panic:
  "(\<And>x s. x \<in> set xs \<Longrightarrow> no_panic (body x s)) \<Longrightarrow> no_panic (for_each xs body s)"
  by (induction xs arbitrary: s) simp_all

lemma each_child_no_panic:
  assumes "children payload = Inr cs"
    and "\<And>hdr s e st. s \<le> e \<Longrightarrow> e \<le> length payload \<Longrightarrow> no_panic (body (hdr, s, e) st)"
  shows "no_panic (for_each cs body st)"
proof (rule for_each_no_panic)
  fix c st assume "c \<in> set cs"
  with children_inside [OF assms(1)] have "child_inside payload c" by simp
  then show "no_panic (body c st)" by (cases c) (auto simp: child_inside_def intro: assms(2))
qed

lemma version_offset_le: "version_offset b \<in> {12, 20}"
  by (simp add: version_offset_def)

lemma parse_visual_child_safe: "s \<le> e \<Longrightarrow> e \<le> length extra \<Longrightarrow> no_panic (parse_visual_child extra codec (hdr, s, e) t)"
  by (simp add: parse_visual_child_def)

lemma parse_sample_entry_safe: "s \<le> e \<Longrightarrow> e \<le> length b \<Longrightarrow> no_panic (parse_sample_entry b (hdr, s, e) t)"
  by (auto simp: parse_sample_entry_def Let_def split: option.split
      intro!: each_child_no_panic parse_visual_child_safe)

lemma parse_stbl_safe [simp]: "no_panic (parse_stbl payload t)"
  by (auto simp: parse_stbl_def intro!: each_child_no_panic parse_sample_entry_safe)

lemma parse_mdia_safe [simp]: "no_panic (parse_mdia payload t)"
  using version_offset_le by (auto simp: parse_mdia_def Let_def intro!: each_child_no_panic)

lemma parse_trak_safe [simp]: "no_panic (parse_trak payload)"
  using version_offset_le by (auto simp: parse_trak_def Let_def intro!: each_child_no_panic)

lemma parse_mvex_safe [simp]: "no_panic (parse_mvex mvex trexs)"
  by (auto simp: parse_mvex_def intro!: each_child_no_panic)

lemma parse_moov_safe [simp]: "no_panic (parse_moov payload)"
  by (auto simp: parse_moov_def intro!: each_child_no_panic)

text \<open>A sample takes the bytes its flags announce.\<close>

lemma parse_sample_moves:
  assumes "parse_sample b base version flags defaults first i p = Inr (s, p')"
  shows "p' = p + bytes_per_sample flags"
  using assms
  by (auto simp: parse_sample_def run_field_def bytes_per_sample_def and_then_Inr split: prod.splits if_splits)

lemma parse_sample_safe:
  "p + bytes_per_sample flags \<le> length b \<Longrightarrow> no_panic (parse_sample b base version flags defaults first i p)"
  by (cases defaults) (auto simp: parse_sample_def run_field_def bytes_per_sample_def)

lemma parse_samples_safe:
  "p + n * bytes_per_sample flags \<le> length b \<Longrightarrow> no_panic (parse_samples b base version flags defaults first i p n)"
proof (induction n arbitrary: i p)
  case (Suc n)
  then have "no_panic (parse_sample b base version flags defaults first i p)" by (intro parse_sample_safe) simp
  moreover have "no_panic (parse_samples b base version flags defaults first (Suc i) (p + bytes_per_sample flags) n)"
    using Suc.prems by (intro Suc.IH) simp
  ultimately show ?case by (auto dest: parse_sample_moves)
qed simp

lemma bytes_per_sample_le: "bytes_per_sample flags \<le> 16"
  by (simp add: bytes_per_sample_def)

lemma run_fits:
  assumes "\<not> MAX_SAMPLES_PER_RUN < n" and "\<not> length b < saturating_add_u64 p (saturating_mul_u64 n (bytes_per_sample flags))"
    and "p \<le> 16"
  shows "p + n * bytes_per_sample flags \<le> length b"
proof -
  have "n * bytes_per_sample flags \<le> 1048576 * 16"
    using assms(1) bytes_per_sample_le by (intro mult_mono) (simp_all add: MAX_SAMPLES_PER_RUN_def)
  then show ?thesis using assms(2,3) by (simp add: saturating_add_u64_def saturating_mul_u64_def min_def split: if_splits)
qed

lemma parse_trun_safe [simp]: "no_panic (parse_trun b base defaults continue_from)"
  by (auto simp: parse_trun_def Let_def parse_data_offset_def parse_first_flags_def
      intro!: parse_samples_safe [OF run_fits] split: if_splits prod.splits)

lemma parse_tfhd_safe [simp]: "no_panic (parse_tfhd b tracks st)"
  by (auto simp: parse_tfhd_def optional_default_def Let_def split: prod.splits option.splits)

lemma parse_tfdt_safe [simp]: "no_panic (parse_tfdt b st)"
  by (auto simp: parse_tfdt_def)

lemma parse_traf_child_safe: "s \<le> e \<Longrightarrow> e \<le> length b \<Longrightarrow> no_panic (parse_traf_child b base tracks (hdr, s, e) st)"
  by (simp add: parse_traf_child_def)

lemma parse_traf_safe [simp]: "no_panic (parse_traf payload base tracks)"
  by (auto simp: parse_traf_def intro!: each_child_no_panic parse_traf_child_safe)

lemma parse_moof_safe: "header_len \<le> length moof \<Longrightarrow> no_panic (parse_moof moof header_len tracks)"
  by (auto simp: parse_moof_def parse_moof_child_def intro!: each_child_no_panic)

end
