(* ===== verification/Fmp4Reader.thy ===== *)
theory Fmp4Reader
  imports Fmp4Parse
begin

text \<open>
  \<open>FragmentReader\<close> of \<open>crates/plurx-core/src/fmp4.rs\<close>: the incremental reader that splits a byte
  feed into the initialization segment, the fragments and the trailer. \<open>next_unit\<close> answers with
  the reader it leaves, since it steps over boxes even when it then asks for more bytes or fails.
  The theory shows that no feed makes it panic, and that the units do not depend on how the feed
  was cut into pieces.
\<close>

section \<open>The reader\<close>

record fragment_reader =
  fd_buf :: "byte list"
  fd_pos :: nat
  fd_init_start :: "nat option"
  fd_init_done :: bool
  fd_tracks :: "track list"
  fd_saw_trailer :: bool
  fd_reject_reinitialization :: bool

datatype unit_read = InitUnit init_segment | FragmentUnit fragment | TrailerUnit

definition reader_new :: fragment_reader where
  "reader_new = \<lparr> fd_buf = [], fd_pos = 0, fd_init_start = None, fd_init_done = False, fd_tracks = [],
     fd_saw_trailer = False, fd_reject_reinitialization = False \<rparr>"

definition reject_reinitialization :: "fragment_reader \<Rightarrow> fragment_reader" where
  "reject_reinitialization r = r\<lparr> fd_reject_reinitialization := True \<rparr>"

definition push_bytes :: "byte list \<Rightarrow> fragment_reader \<Rightarrow> fragment_reader" where
  "push_bytes d r = r\<lparr> fd_buf := fd_buf r @ d \<rparr>"

definition buffered :: "fragment_reader \<Rightarrow> nat" where
  "buffered r = length (fd_buf r) - fd_pos r"

definition have_box :: "fragment_reader \<Rightarrow> box_header \<Rightarrow> bool" where
  "have_box r hdr \<longleftrightarrow> fd_pos r + bh_size hdr \<le> length (fd_buf r)"

definition compact_buf :: "fragment_reader \<Rightarrow> fragment_reader" where
  "compact_buf r = (if 0 < fd_pos r then r\<lparr> fd_buf := drop (fd_pos r) (fd_buf r), fd_pos := 0 \<rparr> else r)"

definition skip_box :: "box_header \<Rightarrow> fragment_reader \<Rightarrow> fragment_reader" where
  "skip_box hdr r = r\<lparr> fd_pos := fd_pos r + bh_size hdr \<rparr>"

text \<open>What one round of the loop does with a complete box: return with an answer, or go round.\<close>

datatype round = Return "unit_read option parsed" fragment_reader | Continue fragment_reader

definition init_round :: "box_header \<Rightarrow> fragment_reader \<Rightarrow> round" where
  "init_round hdr r =
     (if kind_is hdr ''ftyp'' then
        Continue (skip_box hdr (if fd_init_start r = None then r\<lparr> fd_init_start := Some (fd_pos r) \<rparr> else r))
      else if kind_is hdr ''moov'' then
        let start = (case fd_init_start r of None \<Rightarrow> fd_pos r | Some s \<Rightarrow> s);
            end_pos = fd_pos r + bh_size hdr in
        (case and_then (slice_range (fd_buf r) (fd_pos r + bh_header_len hdr) end_pos) parse_moov of
           Inl e \<Rightarrow> Return (Inl e) r
         | Inr tracks \<Rightarrow>
             (case slice_range (fd_buf r) start end_pos of
                Inl e \<Rightarrow> Return (Inl e) r
              | Inr bytes \<Rightarrow>
                  Return (Inr (Some (InitUnit \<lparr> in_bytes = bytes, in_tracks = tracks \<rparr>)))
                    (compact_buf (r\<lparr> fd_pos := end_pos, fd_init_done := True, fd_init_start := None, fd_tracks := tracks \<rparr>))))
      else Continue (skip_box hdr r))"

definition fragment_round :: "box_header \<Rightarrow> fragment_reader \<Rightarrow> round" where
  "fragment_round hdr r =
     (let mdat_pos = fd_pos r + bh_size hdr in
      case peek_box (fd_buf r) mdat_pos of
        Inl e \<Rightarrow> Return (Inl e) r
      | Inr None \<Rightarrow> Return (Inr None) r
      | Inr (Some mdat) \<Rightarrow>
          if \<not> kind_is mdat ''mdat'' then Return (malformed (ReaderFault (ExpectedMdat (bh_ty mdat)))) r
          else if length (fd_buf r) < mdat_pos + bh_size mdat then Return (Inr None) r
          else
            let end_pos = mdat_pos + bh_size mdat in
            (case and_then (slice_range (fd_buf r) (fd_pos r) mdat_pos)
                    (\<lambda>moof. and_then (parse_moof moof (bh_header_len hdr) (fd_tracks r)) (\<lambda>tracks.
                       and_then (slice_range (fd_buf r) (fd_pos r) end_pos) (\<lambda>bytes. Inr (tracks, bytes)))) of
               Inl e \<Rightarrow> Return (Inl e) r
             | Inr (tracks, bytes) \<Rightarrow>
                 Return (Inr (Some (FragmentUnit
                           \<lparr> fr_bytes = bytes, fr_mdat_payload = (bh_size hdr + bh_header_len mdat, length bytes),
                             fr_tracks = tracks \<rparr>)))
                   (compact_buf (r\<lparr> fd_pos := end_pos \<rparr>))))"

definition media_round :: "box_header \<Rightarrow> fragment_reader \<Rightarrow> round" where
  "media_round hdr r =
     (if (kind_is hdr ''ftyp'' \<or> kind_is hdr ''moov'') \<and> fd_reject_reinitialization r
      then Return (malformed (ReaderFault InitReplaced)) r
      else if kind_is hdr ''moof'' then fragment_round hdr r
      else if kind_is hdr ''mfra'' then
        Return (Inr (Some TrailerUnit)) (compact_buf ((skip_box hdr r)\<lparr> fd_saw_trailer := True \<rparr>))
      else Continue (skip_box hdr r))"

definition next_round :: "fragment_reader \<Rightarrow> round" where
  "next_round r =
     (case peek_box (fd_buf r) (fd_pos r) of
        Inl e \<Rightarrow> Return (Inl e) r
      | Inr None \<Rightarrow> Return (Inr None) r
      | Inr (Some hdr) \<Rightarrow>
          if \<not> have_box r hdr then Return (Inr None) r
          else if \<not> fd_init_done r then init_round hdr r
          else media_round hdr r)"

lemma continue_moves:
  assumes "next_round r = Continue r'"
  shows "fd_buf r' = fd_buf r" "fd_pos r + 8 \<le> fd_pos r'" "fd_pos r' \<le> length (fd_buf r)"
proof -
  from assms obtain hdr where peek: "peek_box (fd_buf r) (fd_pos r) = Inr (Some hdr)" and have1: "have_box r hdr"
    by (auto simp: next_round_def split: sum.splits option.splits if_splits)
  then have "fd_buf r' = fd_buf r \<and> fd_pos r' = fd_pos r + bh_size hdr"
    using assms
    by (auto simp: next_round_def init_round_def media_round_def fragment_round_def skip_box_def Let_def
        split: sum.splits option.splits if_splits)
  moreover have "8 \<le> bh_size hdr" using peek peek_box_before_progress by (auto simp: peek_box_def)
  ultimately show "fd_buf r' = fd_buf r" "fd_pos r + 8 \<le> fd_pos r'" "fd_pos r' \<le> length (fd_buf r)"
    using have1 by (auto simp: have_box_def)
qed

function next_unit :: "fragment_reader \<Rightarrow> unit_read option parsed \<times> fragment_reader" where
  "next_unit r = (case next_round r of Return answer r' \<Rightarrow> (answer, r') | Continue r' \<Rightarrow> next_unit r')"
  by pat_completeness auto
termination
proof (relation "measure buffered")
  fix r r' assume "next_round r = Continue r'"
  from continue_moves [OF this] show "(r', r) \<in> measure buffered" by (simp add: buffered_def)
qed simp

declare next_unit.simps [simp del]

section \<open>Feeding a reader\<close>

text \<open>
  What a session does with its pipe: push what it read, take units until there is none or the
  reader fails. \<open>drain\<close> is the inner loop, \<open>feed\<close> the outer one over the pieces it read; a
  failure ends both.
\<close>

definition reader_ok :: "fragment_reader \<Rightarrow> bool" where
  "reader_ok r \<longleftrightarrow> fd_pos r \<le> length (fd_buf r) \<and>
     (case fd_init_start r of None \<Rightarrow> True | Some s \<Rightarrow> s \<le> fd_pos r \<and> \<not> fd_init_done r)"

lemma next_round_Return_Some:
  assumes "next_round r = Return (Inr (Some u)) r'"
  shows "buffered r' < buffered r"
proof -
  from assms obtain hdr where peek: "peek_box (fd_buf r) (fd_pos r) = Inr (Some hdr)" and have1: "have_box r hdr"
    by (auto simp: next_round_def split: sum.splits option.splits if_splits)
  have size8: "8 \<le> bh_size hdr" using peek peek_box_before_progress by (auto simp: peek_box_def)
  show ?thesis
    using assms peek have1 size8
    by (auto simp: next_round_def init_round_def media_round_def fragment_round_def skip_box_def compact_buf_def have_box_def
        buffered_def Let_def split: sum.splits option.splits if_splits)
qed

lemma next_unit_Some: "next_unit r = (Inr (Some u), r') \<Longrightarrow> buffered r' < buffered r"
proof (induction r rule: next_unit.induct)
  case (1 r)
  show ?case
  proof (cases "next_round r")
    case (Return answer r1)
    then show ?thesis using "1.prems" next_round_Return_Some by (simp add: next_unit.simps [of r])
  next
    case (Continue r1)
    then have "buffered r' < buffered r1" using "1.IH" "1.prems" by (simp add: next_unit.simps [of r])
    then show ?thesis using continue_moves [OF Continue] by (simp add: buffered_def)
  qed
qed

function drain :: "fragment_reader \<Rightarrow> unit_read list \<times> fmp4_stop option \<times> fragment_reader" where
  "drain r =
     (case next_unit r of
        (Inl e, r') \<Rightarrow> ([], Some e, r')
      | (Inr None, r') \<Rightarrow> ([], None, r')
      | (Inr (Some u), r') \<Rightarrow> (case drain r' of (us, e, r'') \<Rightarrow> (u # us, e, r'')))"
  by pat_completeness auto
termination
proof (relation "measure buffered", goal_cases)
  case (2 r x y z u)
  then show ?case using next_unit_Some [of r u y] by simp
qed simp

declare drain.simps [simp del]

fun feed :: "byte list list \<Rightarrow> fragment_reader \<Rightarrow> unit_read list \<times> fmp4_stop option \<times> fragment_reader" where
  "feed [] r = ([], None, r)"
| "feed (d # ds) r =
     (case drain (push_bytes d r) of
        (us, Some e, r') \<Rightarrow> (us, Some e, r')
      | (us, None, r') \<Rightarrow> (case feed ds r' of (vs, e, r'') \<Rightarrow> (us @ vs, e, r'')))"

section \<open>The pieces of the feed do not matter\<close>

text \<open>A round that does not ask for more bytes does the same on a longer buffer.\<close>

fun push_round :: "byte list \<Rightarrow> round \<Rightarrow> round" where
  "push_round x (Return answer r) = Return answer (push_bytes x r)"
| "push_round x (Continue r) = Continue (push_bytes x r)"

fun waits :: "round \<Rightarrow> bool" where
  "waits (Return answer r) \<longleftrightarrow> answer = Inr None"
| "waits (Continue r) \<longleftrightarrow> False"

lemma push_bytes_simps [simp]:
  "fd_buf (push_bytes x r) = fd_buf r @ x" "fd_pos (push_bytes x r) = fd_pos r"
  "fd_init_start (push_bytes x r) = fd_init_start r" "fd_init_done (push_bytes x r) = fd_init_done r"
  "fd_tracks (push_bytes x r) = fd_tracks r" "fd_reject_reinitialization (push_bytes x r) = fd_reject_reinitialization r"
  "push_bytes y (push_bytes x r) = push_bytes (x @ y) r"
  by (simp_all add: push_bytes_def)

lemma slice_range_append: "e \<le> length b \<Longrightarrow> slice_range (b @ x) s e = slice_range b s e"
  by (auto simp: slice_range_def)

lemma have_box_push: "have_box r hdr \<Longrightarrow> have_box (push_bytes x r) hdr"
  by (simp add: have_box_def)

lemma compact_buf_push: "fd_pos r \<le> length (fd_buf r) \<Longrightarrow> compact_buf (push_bytes x r) = push_bytes x (compact_buf r)"
  by (simp add: compact_buf_def push_bytes_def)

lemma push_bytes_moves:
  "(push_bytes x r)\<lparr> fd_pos := n \<rparr> = push_bytes x (r\<lparr> fd_pos := n \<rparr>)"
  "(push_bytes x r)\<lparr> fd_init_start := s \<rparr> = push_bytes x (r\<lparr> fd_init_start := s \<rparr>)"
  "(push_bytes x r)\<lparr> fd_init_done := d \<rparr> = push_bytes x (r\<lparr> fd_init_done := d \<rparr>)"
  "(push_bytes x r)\<lparr> fd_tracks := t \<rparr> = push_bytes x (r\<lparr> fd_tracks := t \<rparr>)"
  "(push_bytes x r)\<lparr> fd_saw_trailer := b \<rparr> = push_bytes x (r\<lparr> fd_saw_trailer := b \<rparr>)"
  by (simp_all add: push_bytes_def)

lemma skip_box_push: "skip_box hdr (push_bytes x r) = push_bytes x (skip_box hdr r)"
  by (simp add: skip_box_def push_bytes_moves)

lemma init_round_push:
  "have_box r hdr \<Longrightarrow> init_round hdr (push_bytes x r) = push_round x (init_round hdr r)"
  by (auto simp: init_round_def have_box_def Let_def slice_range_append push_bytes_moves skip_box_push compact_buf_push
      split: option.splits sum.splits)

lemma fragment_round_push:
  assumes "have_box r hdr" and "\<not> waits (fragment_round hdr r)"
  shows "fragment_round hdr (push_bytes x r) = push_round x (fragment_round hdr r)"
proof -
  from assms(2) have "peek_box (fd_buf r) (fd_pos r + bh_size hdr) \<noteq> Inr None"
    by (auto simp: fragment_round_def)
  from peek_box_append [OF this, of x] show ?thesis
    using assms
    by (auto simp: fragment_round_def have_box_def Let_def slice_range_append push_bytes_moves compact_buf_push
        split: option.splits sum.splits if_splits)
qed

lemma media_round_push:
  assumes "have_box r hdr" and "\<not> waits (media_round hdr r)"
  shows "media_round hdr (push_bytes x r) = push_round x (media_round hdr r)"
proof -
  consider (guard) "(kind_is hdr ''ftyp'' \<or> kind_is hdr ''moov'') \<and> fd_reject_reinitialization r"
    | (moof) "\<not> ((kind_is hdr ''ftyp'' \<or> kind_is hdr ''moov'') \<and> fd_reject_reinitialization r)" "kind_is hdr ''moof''"
    | (other) "\<not> ((kind_is hdr ''ftyp'' \<or> kind_is hdr ''moov'') \<and> fd_reject_reinitialization r)" "\<not> kind_is hdr ''moof''"
    by blast
  then show ?thesis
  proof cases
    case moof
    then have "media_round hdr r' = fragment_round hdr r'" if "fd_reject_reinitialization r' = fd_reject_reinitialization r" for r'
      using that by (metis media_round_def)
    then show ?thesis using assms fragment_round_push [of r hdr x] by simp
  next
    case other
    then show ?thesis
      using assms(1) by (auto simp: media_round_def have_box_def skip_box_push push_bytes_moves compact_buf_push skip_box_def)
  qed (simp add: media_round_def)
qed

lemma next_round_push:
  assumes "\<not> waits (next_round r)"
  shows "next_round (push_bytes x r) = push_round x (next_round r)"
proof -
  from assms have "peek_box (fd_buf r) (fd_pos r) \<noteq> Inr None" by (auto simp: next_round_def)
  note peek = peek_box_append [OF this, of x]
  show ?thesis
  proof (cases "peek_box (fd_buf r) (fd_pos r)")
    case (Inr h)
    with assms obtain hdr where h: "h = Some hdr" and have1: "have_box r hdr"
      by (cases h) (auto simp: next_round_def split: if_splits)
    show ?thesis
      using assms peek Inr h have1 have_box_push [OF have1, of x]
      by (cases "fd_init_done r") (simp_all add: next_round_def init_round_push media_round_push)
  qed (use peek in \<open>simp add: next_round_def\<close>)
qed

lemma next_round_None: "next_round r = Return (Inr None) r' \<Longrightarrow> r' = r"
  by (auto simp: next_round_def init_round_def media_round_def fragment_round_def Let_def
      split: sum.splits option.splits if_splits)

lemma next_unit_push:
  "next_unit r = (answer, r') \<Longrightarrow>
   (if answer = Inr None then next_unit (push_bytes x r) = next_unit (push_bytes x r')
    else next_unit (push_bytes x r) = (answer, push_bytes x r'))"
proof (induction r rule: next_unit.induct)
  case (1 r)
  show ?case
  proof (cases "next_round r")
    case (Return answer1 r1)
    then have "answer1 = answer" "r1 = r'" using "1.prems" by (simp_all add: next_unit.simps [of r])
    with Return show ?thesis
      using next_round_None [of r r'] next_round_push [of r x]
      by (auto simp: next_unit.simps [of "push_bytes x r"])
  next
    case (Continue r1)
    then have "next_unit (push_bytes x r) = next_unit (push_bytes x r1)"
      using next_round_push [of r x] by (simp add: next_unit.simps [of "push_bytes x r"])
    then show ?thesis using "1.IH" [OF Continue] "1.prems" Continue by (simp add: next_unit.simps [of r])
  qed
qed

lemma drain_push:
  "drain r = (us, e, r') \<Longrightarrow>
   (case e of None \<Rightarrow> (case drain (push_bytes x r') of (vs, e, r'') \<Rightarrow> drain (push_bytes x r) = (us @ vs, e, r''))
    | Some f \<Rightarrow> drain (push_bytes x r) = (us, e, push_bytes x r'))"
proof (induction r arbitrary: us rule: drain.induct)
  case (1 r)
  obtain answer r1 where unit: "next_unit r = (answer, r1)" by (cases "next_unit r")
  note pushed = next_unit_push [OF unit, of x]
  show ?case
  proof (cases answer)
    case (Inl f)
    then show ?thesis using "1.prems" unit pushed by (auto simp: drain.simps [of r] drain.simps [of "push_bytes x r"])
  next
    case (Inr u)
    show ?thesis
    proof (cases u)
      case None
      then have "us = []" "e = None" "r' = r1" using "1.prems" unit Inr by (simp_all add: drain.simps [of r])
      moreover have "drain (push_bytes x r) = drain (push_bytes x r1)"
        using pushed Inr None by (simp add: drain.simps [of "push_bytes x r"] drain.simps [of "push_bytes x r1"])
      ultimately show ?thesis by (simp split: prod.split)
    next
      case (Some v)
      obtain vs where vs: "drain r1 = (vs, e, r')" and us: "us = v # vs"
        using "1.prems" unit Inr Some by (auto simp: drain.simps [of r] split: prod.splits)
      have "drain (push_bytes x r) = (case drain (push_bytes x r1) of (ws, e, r'') \<Rightarrow> (v # ws, e, r''))"
        using pushed Inr Some by (simp add: drain.simps [of "push_bytes x r"])
      then show ?thesis
        using "1.IH" [OF unit [symmetric] Inr Some vs] us by (auto split: option.splits prod.splits)
    qed
  qed
qed

lemma feed_is_drain:
  "case feed (d # ds) r of (us, e, r') \<Rightarrow>
     (case drain (push_bytes (d @ concat ds) r) of (vs, f, r'') \<Rightarrow> us = vs \<and> e = f \<and> (e = None \<longrightarrow> r' = r''))"
proof (induction ds arbitrary: d r)
  case Nil
  show ?case by (auto split: prod.splits option.splits)
next
  case (Cons d2 ds)
  obtain us e r' where first: "drain (push_bytes d r) = (us, e, r')" by (cases "drain (push_bytes d r)")
  show ?case
    using drain_push [OF first, of "d2 @ concat ds"] Cons.IH [of d2 r'] first
    by (auto split: option.splits prod.splits)
qed

text \<open>What a caller sees of a reading: the reader is of no use to it after a failure.\<close>

fun observed :: "unit_read list \<times> fmp4_stop option \<times> fragment_reader \<Rightarrow> unit_read list \<times> fmp4_stop option \<times> fragment_reader option" where
  "observed (us, e, r) = (us, e, if e = None then Some r else None)"

text \<open>C6: The units a session gets do not depend on how its pipe cut the stream into pieces: reading
  the pieces one after the other yields the same units and the same failure as reading all bytes
  at once, and while there is no failure the reader is left in the same state.\<close>

theorem units_ignore_chunking: "observed (feed (d # ds) r) = observed (drain (push_bytes (d @ concat ds) r))"
  using feed_is_drain [of d ds r] by (cases "feed (d # ds) r"; cases "drain (push_bytes (d @ concat ds) r)") auto

section \<open>No feed makes the reader panic\<close>

lemma peek_box_parts:
  assumes "peek_box buf pos = Inr (Some h)"
  shows "bh_header_len h \<le> bh_size h" "8 \<le> bh_size h"
  using peek_box_before_Some [OF assms [unfolded peek_box_def]] by auto

lemma peek_box_safe: "peek_box buf pos \<noteq> Inl Panicked"
  using peek_box_before_safe [of buf pos None] by (auto simp: peek_box_def no_panic_def)

lemma init_round_ok:
  assumes "reader_ok r" "\<not> fd_init_done r" "have_box r hdr" "bh_header_len hdr \<le> bh_size hdr"
  shows "case init_round hdr r of Return answer r' \<Rightarrow> no_panic answer \<and> reader_ok r' | Continue r' \<Rightarrow> reader_ok r'"
proof -
  have "parse_moov b \<noteq> Inl Panicked" for b using parse_moov_safe [of b] by (simp add: no_panic_def)
  then show ?thesis
    using assms
    by (auto simp: init_round_def have_box_def reader_ok_def skip_box_def compact_buf_def Let_def
        split: option.splits sum.splits if_splits)
qed

lemma fragment_round_ok:
  assumes "reader_ok r" "fd_init_start r = None" "have_box r hdr" "bh_header_len hdr \<le> bh_size hdr"
  shows "case fragment_round hdr r of Return answer r' \<Rightarrow> no_panic answer \<and> reader_ok r' | Continue r' \<Rightarrow> reader_ok r'"
proof -
  let ?mdat_pos = "fd_pos r + bh_size hdr"
  show ?thesis
  proof (cases "peek_box (fd_buf r) ?mdat_pos")
    case (Inl e)
    then show ?thesis using peek_box_safe [of "fd_buf r" ?mdat_pos] assms(1) by (auto simp: fragment_round_def)
  next
    case (Inr h)
    show ?thesis
    proof (cases "h = None \<or> \<not> kind_is (the h) ''mdat'' \<or> length (fd_buf r) < ?mdat_pos + bh_size (the h)")
      case True
      then show ?thesis using Inr assms(1) by (auto simp: fragment_round_def Let_def split: option.splits)
    next
      case False
      then obtain mdat where mdat: "h = Some mdat" "kind_is mdat ''mdat''" "?mdat_pos + bh_size mdat \<le> length (fd_buf r)"
        by (cases h) auto
      let ?moof = "take (bh_size hdr) (drop (fd_pos r) (fd_buf r))"
      have safe: "no_panic (parse_moof ?moof (bh_header_len hdr) (fd_tracks r))"
        using assms(4) mdat(3) by (intro parse_moof_safe) simp
      have slices: "slice_range (fd_buf r) (fd_pos r) ?mdat_pos = Inr ?moof"
        "\<exists>bytes. slice_range (fd_buf r) (fd_pos r) (?mdat_pos + bh_size mdat) = Inr bytes"
        using mdat(3) by simp_all
      then show ?thesis
        using Inr mdat safe assms(2)
        by (cases "parse_moof ?moof (bh_header_len hdr) (fd_tracks r)")
          (auto simp: fragment_round_def Let_def reader_ok_def compact_buf_def)
    qed
  qed
qed

lemma media_round_ok:
  assumes "reader_ok r" "fd_init_done r" "have_box r hdr" "bh_header_len hdr \<le> bh_size hdr"
  shows "case media_round hdr r of Return answer r' \<Rightarrow> no_panic answer \<and> reader_ok r' | Continue r' \<Rightarrow> reader_ok r'"
proof -
  have none: "fd_init_start r = None" using assms(1,2) by (auto simp: reader_ok_def split: option.splits)
  show ?thesis
    using assms none fragment_round_ok [OF assms(1) none assms(3,4)]
    by (simp add: media_round_def have_box_def reader_ok_def skip_box_def compact_buf_def)
qed

lemma next_round_ok:
  assumes "reader_ok r"
  shows "case next_round r of Return answer r' \<Rightarrow> no_panic answer \<and> reader_ok r' | Continue r' \<Rightarrow> reader_ok r'"
proof (cases "peek_box (fd_buf r) (fd_pos r)")
  case (Inl e)
  then show ?thesis using peek_box_safe [of "fd_buf r" "fd_pos r"] assms by (auto simp: next_round_def)
next
  case (Inr h)
  show ?thesis
  proof (cases h)
    case (Some hdr)
    then show ?thesis
      using assms Inr peek_box_parts(1) [of "fd_buf r" "fd_pos r" hdr] init_round_ok [of r hdr] media_round_ok [of r hdr]
      by (cases "fd_init_done r") (simp_all add: next_round_def)
  qed (use assms Inr in \<open>simp add: next_round_def\<close>)
qed

lemma next_unit_ok: "reader_ok r \<Longrightarrow> next_unit r = (answer, r') \<Longrightarrow> no_panic answer \<and> reader_ok r'"
proof (induction r rule: next_unit.induct)
  case (1 r)
  then show ?case
    using next_round_ok [of r] by (auto simp: next_unit.simps [of r] split: round.splits)
qed

lemma drain_keeps_ok: "reader_ok r \<Longrightarrow> drain r = (us, e, r') \<Longrightarrow> e \<noteq> Some Panicked \<and> reader_ok r'"
proof (induction r arbitrary: us rule: drain.induct)
  case (1 r)
  obtain answer r1 where unit: "next_unit r = (answer, r1)" by (cases "next_unit r")
  from next_unit_ok [OF "1.prems"(1) unit] have ok: "no_panic answer" "reader_ok r1" by auto
  then show ?case
    using "1.prems"(2) "1.IH" [OF unit [symmetric]] unit
    by (auto simp: drain.simps [of r] split: sum.splits option.splits prod.splits)
qed

lemma push_bytes_ok: "reader_ok r \<Longrightarrow> reader_ok (push_bytes x r)"
  by (auto simp: reader_ok_def split: option.splits)

lemma feed_ok: "reader_ok r \<Longrightarrow> feed ds r = (us, e, r') \<Longrightarrow> e \<noteq> Some Panicked \<and> reader_ok r'"
proof (induction ds arbitrary: r us)
  case (Cons d ds)
  obtain vs f r1 where d: "drain (push_bytes d r) = (vs, f, r1)" by (cases "drain (push_bytes d r)")
  note ok = drain_keeps_ok [OF push_bytes_ok [OF Cons.prems(1), of d] d]
  then show ?case using Cons d by (auto split: option.splits prod.splits)
qed simp

text \<open>C7: No byte feed, however cut, makes the reader panic: every index and slice of the box walk, of the
  movie box and of the movie fragments stays inside the bytes at hand.\<close>

theorem reader_never_panics:
  "fst (snd (feed ds reader_new)) \<noteq> Some Panicked \<and> fst (snd (feed ds (reject_reinitialization reader_new))) \<noteq> Some Panicked"
proof -
  have ok: "reader_ok reader_new" "reader_ok (reject_reinitialization reader_new)"
    by (simp_all add: reader_ok_def reader_new_def reject_reinitialization_def)
  show ?thesis
    using feed_ok [OF ok(1), of ds] feed_ok [OF ok(2), of ds]
    by (cases "feed ds reader_new"; cases "feed ds (reject_reinitialization reader_new)") auto
qed

end
