(* ===== verification/Fmp4Merge.thy ===== *)
theory Fmp4Merge
  imports Fmp4Reader
begin

unbundle bit_operations_syntax

text \<open>
  The writer of \<open>crates/plurx-core/src/fmp4.rs\<close>: \<open>merge_retaining\<close> concatenates the samples of a run
  of fragments, track by track, into one \<open>styp sidx* moof mdat\<close> segment, removing the parameter
  sets from HEVC samples whose sample entry promises them out of band. \<open>to_be_bytes\<close> of a value
  cast to its width is \<open>be_bytes\<close>, which drops what does not fit.
\<close>

section \<open>Where the HEVC configuration is\<close>

record dolby_vision_at =
  dv_name :: "byte list"
  dv_header_len :: nat
  dv_payload :: "nat \<times> nat"

record hvcc_location =
  hl_payload :: "nat \<times> nat"
  hl_sample_entry_end :: nat
  hl_parameter_sets_in_band :: bool
  hl_has_mdcv :: bool
  hl_has_clli :: bool
  hl_dolby_vision :: "dolby_vision_at option"
  hl_ancestors :: "(nat \<times> nat) list"

text \<open>The first box of a kind inside a located box.\<close>

definition find_inside :: "byte list \<Rightarrow> located \<Rightarrow> string \<Rightarrow> located option parsed" where
  "find_inside bytes b name = (case b of ((start, header_len), hdr) \<Rightarrow>
     find_child bytes (start + header_len) (start + bh_size hdr) (ascii name))"

definition locate_dolby_vision :: "byte list \<Rightarrow> nat \<Rightarrow> nat \<Rightarrow> dolby_vision_at option parsed" where
  "locate_dolby_vision bytes s e =
     (let found = (\<lambda>name (b :: located). case b of ((start, header_len), hdr) \<Rightarrow>
            \<lparr> dv_name = ascii name, dv_header_len = header_len, dv_payload = (start + header_len, start + bh_size hdr) \<rparr>) in
      and_then (find_child bytes s e (ascii ''dvvC'')) (\<lambda>r. case r of
        Some b \<Rightarrow> Inr (Some (found ''dvvC'' b))
      | None \<Rightarrow> and_then (find_child bytes s e (ascii ''dvcC'')) (\<lambda>r. Inr (map_option (found ''dvcC'') r))))"

definition locate_hvcc_in_entry :: "byte list \<Rightarrow> (nat \<times> nat) list \<Rightarrow> located \<Rightarrow> hvcc_location option parsed" where
  "locate_hvcc_in_entry bytes parents b = (case b of ((start, header_len), entry) \<Rightarrow>
     (let s = start + header_len + 78; e = start + bh_size entry in
      if e < s then malformed (MoovFault LocateEntryTooShort)
      else
        and_then (find_child bytes s e (ascii ''hvcC'')) (\<lambda>r. case r of
          None \<Rightarrow> Inr None
        | Some ((hvcc_start, hvcc_header_len), hvcc) \<Rightarrow>
            (let payload = (hvcc_start + hvcc_header_len, hvcc_start + bh_size hvcc) in
             if snd payload - fst payload < 23 then malformed (MoovFault LocateHvccTooShort)
             else
               and_then (find_child bytes s e (ascii ''mdcv'')) (\<lambda>mdcv.
               and_then (find_child bytes s e (ascii ''clli'')) (\<lambda>clli.
               and_then (locate_dolby_vision bytes s e) (\<lambda>dv.
                 Inr (Some \<lparr> hl_payload = payload, hl_sample_entry_end = e,
                   hl_parameter_sets_in_band = (bh_ty entry = ascii ''hev1'' \<or> bh_ty entry = ascii ''dvhe''),
                   hl_has_mdcv = (mdcv \<noteq> None), hl_has_clli = (clli \<noteq> None), hl_dolby_vision = dv,
                   hl_ancestors = (hvcc_start, hvcc_header_len) # (start, header_len) # parents \<rparr>))))))))"

text \<open>One \<open>trak\<close>: down to its \<open>stsd\<close>, then the HEVC entries by kind; a missing box skips the track.\<close>

definition locate_in_trak :: "byte list \<Rightarrow> nat \<times> nat \<Rightarrow> located \<Rightarrow> hvcc_location option list \<Rightarrow> hvcc_location option list parsed" where
  "locate_in_trak bytes moov_at trak locations =
     and_then (find_inside bytes trak ''mdia'') (\<lambda>r. case r of None \<Rightarrow> Inr locations | Some mdia \<Rightarrow>
     and_then (find_inside bytes mdia ''minf'') (\<lambda>r. case r of None \<Rightarrow> Inr locations | Some minf \<Rightarrow>
     and_then (find_inside bytes minf ''stbl'') (\<lambda>r. case r of None \<Rightarrow> Inr locations | Some stbl \<Rightarrow>
     and_then (find_inside bytes stbl ''stsd'') (\<lambda>r. case r of None \<Rightarrow> Inr locations | Some stsd \<Rightarrow>
       (let entries_start = fst (fst stsd) + snd (fst stsd) + 8;
            entries_end = fst (fst stsd) + bh_size (snd stsd);
            parents = [fst stsd, fst stbl, fst minf, fst mdia, fst trak, moov_at] in
        if entries_end < entries_start then malformed (MoovFault LocateStsdTooShort)
        else
          and_then (find_children bytes entries_start entries_end (ascii ''hvc1'')) (\<lambda>hvc1.
          and_then (find_children bytes entries_start entries_end (ascii ''hev1'')) (\<lambda>hev1.
          and_then (find_children bytes entries_start entries_end (ascii ''dvh1'')) (\<lambda>dvh1.
          and_then (find_children bytes entries_start entries_end (ascii ''dvhe'')) (\<lambda>dvhe.
            for_each (hvc1 @ hev1 @ dvh1 @ dvhe) (\<lambda>entry locations.
              and_then (locate_hvcc_in_entry bytes parents entry) (\<lambda>l. Inr (locations @ [l]))) locations)))))))))"

definition locate_hevc_sample_entries :: "byte list \<Rightarrow> hvcc_location option list parsed" where
  "locate_hevc_sample_entries bytes =
     and_then (find_child bytes 0 (length bytes) (ascii ''moov'')) (\<lambda>r. case r of
       None \<Rightarrow> Inr []
     | Some ((start, header_len), moov) \<Rightarrow>
         and_then (find_children bytes (start + header_len) (start + bh_size moov) (ascii ''trak''))
           (\<lambda>traks. for_each traks (locate_in_trak bytes (start, header_len)) []))"

definition locate_hvcc :: "byte list \<Rightarrow> hvcc_location option parsed" where
  "locate_hvcc bytes =
     and_then (locate_hevc_sample_entries bytes) (\<lambda>locations.
       if 1 < length locations then Inl (Refused (MultipleHevcSampleEntries (length locations)))
       else Inr (case locations of [] \<Rightarrow> None | _ \<Rightarrow> last locations))"

section \<open>Samples without their parameter sets\<close>

definition checked_nal_len :: "byte list \<Rightarrow> nat option" where
  "checked_nal_len bs =
     foldl (\<lambda>acc b. Option.bind acc (\<lambda>v. Option.bind (checked_mul_usize v 256) (\<lambda>v. checked_add_usize v (unat b)))) (Some 0) bs"

definition hevc_nal_type :: "byte list \<Rightarrow> byte option" where
  "hevc_nal_type nal = (if 2 \<le> length nal then Some (drop_bit 1 (nal ! 0) AND 0x3f) else None)"

text \<open>
  The units the visitor hands to its closure: the framed bytes and the type. The closures only
  collect, so the walk answers the list.
\<close>

function hevc_units_from :: "byte list \<Rightarrow> nat \<Rightarrow> nat \<Rightarrow> (byte list \<times> byte option) list parsed" where
  "hevc_units_from sample lsz pos =
     (if pos < length sample then
        (case Option.bind (checked_add_usize pos lsz) (\<lambda>e. if e \<le> length sample then Some e else None) of
           None \<Rightarrow> malformed (MergeFault NalLengthTruncated)
         | Some prefix_end \<Rightarrow>
             and_then (slice_range sample pos prefix_end) (\<lambda>prefix_bytes.
             (case checked_nal_len prefix_bytes of
                None \<Rightarrow> malformed (MergeFault NalLengthOverflows)
              | Some nal_len \<Rightarrow>
                  if nal_len = 0 then malformed (MergeFault NalZeroLength)
                  else
                    (case Option.bind (checked_add_usize prefix_end nal_len) (\<lambda>e. if e \<le> length sample then Some e else None) of
                       None \<Rightarrow> malformed (MergeFault NalPastSample)
                     | Some e \<Rightarrow>
                         and_then (slice_range sample prefix_end e) (\<lambda>nal.
                         and_then (slice_range sample pos e) (\<lambda>framed.
                         and_then (hevc_units_from sample lsz e) (\<lambda>rest. Inr ((framed, hevc_nal_type nal) # rest))))))))
      else Inr [])"
  by pat_completeness auto
termination
  by (relation "measure (\<lambda>(sample, lsz, pos). length sample - pos)")
    (auto simp: checked_add_usize_def bind_eq_Some_conv split: if_splits)

declare hevc_units_from.simps [simp del]

definition hevc_units :: "byte list \<Rightarrow> nat \<Rightarrow> (byte list \<times> byte option) list parsed" where
  "hevc_units sample lsz =
     (if \<not> (1 \<le> lsz \<and> lsz \<le> 4) then malformed (MergeFault NalLengthSize) else hevc_units_from sample lsz 0)"

definition is_parameter_set :: "byte option \<Rightarrow> bool" where
  "is_parameter_set kind = (case kind of None \<Rightarrow> False | Some k \<Rightarrow> 32 \<le> k \<and> k \<le> 34)"

definition hevc_sample_without_parameter_sets_len :: "byte list \<Rightarrow> nat \<Rightarrow> nat parsed" where
  "hevc_sample_without_parameter_sets_len sample lsz =
     and_then (hevc_units sample lsz) (\<lambda>us.
       let kept = foldl (\<lambda>kept (framed, kind). if is_parameter_set kind then kept else saturating_add_u64 kept (length framed)) 0 us in
       if kept = 0 then unsupported NoPictureData else Inr kept)"

definition hevc_sample_without_parameter_sets :: "byte list \<Rightarrow> nat \<Rightarrow> byte list parsed" where
  "hevc_sample_without_parameter_sets sample lsz =
     and_then (hevc_units sample lsz) (\<lambda>us. Inr (concat (map fst (filter (\<lambda>u. \<not> is_parameter_set (snd u)) us))))"

section \<open>Plans\<close>

record merge_slice =
  ml_fragment :: nat
  ml_start :: nat
  ml_source_len :: nat
  ml_output_len :: nat
  ml_strip :: "nat option"

record merge_plan =
  mp_track_id :: nat
  mp_base_decode_time :: nat
  mp_samples :: "sample list"
  mp_slices :: "merge_slice list"

definition plan_byte_len :: "merge_plan \<Rightarrow> nat" where
  "plan_byte_len p = (\<Sum>s \<leftarrow> mp_slices p. ml_output_len s)"

record track_join =
  tj_samples :: "sample list"
  tj_slices :: "merge_slice list"
  tj_base :: "nat option"
  tj_expected_next :: "nat option"
  tj_adjustments :: nat

text \<open>The track whose samples shed their parameter sets, with the width of its length prefixes.\<close>

definition strip_track :: "init_segment \<Rightarrow> bool \<Rightarrow> (nat \<times> nat) option parsed" where
  "strip_track ini retain =
     (case init_video ini of
        None \<Rightarrow> Inr None
      | Some video \<Rightarrow>
          if \<not> retain \<and> tr_codec video = Some Hevc \<and> tr_nal_length_size video \<noteq> 0 then
            and_then (locate_hvcc (in_bytes ini)) (\<lambda>l. Inr (case l of
              None \<Rightarrow> None
            | Some location \<Rightarrow>
                if hl_parameter_sets_in_band location then None else Some (tr_id video, tr_nal_length_size video)))
          else Inr None)"

definition track_union :: "fragment list \<Rightarrow> nat list" where
  "track_union fragments =
     fold (\<lambda>t ids. if tf_track_id t \<in> set ids then ids else ids @ [tf_track_id t]) (concat (map fr_tracks fragments)) []"

text \<open>A decode time that the durations do not reach goes into the last sample, if it fits there.\<close>

definition absorb_join :: "nat \<Rightarrow> track_join \<Rightarrow> track_join" where
  "absorb_join decode_time tj =
     (case tj_expected_next tj of
        None \<Rightarrow> tj
      | Some expected \<Rightarrow>
          if decode_time = expected \<or> tj_samples tj = [] then tj
          else
            let delta = wrap_i64 (wrap_i64 (int decode_time) - wrap_i64 (int expected));
                prev = last (tj_samples tj);
                adjusted = wrap_i64 (int (sm_duration prev) + delta) in
            if 0 \<le> adjusted \<and> adjusted \<le> int U32_MAX then
              tj\<lparr> tj_samples := butlast (tj_samples tj) @ [prev\<lparr> sm_duration := nat adjusted \<rparr>],
                  tj_adjustments := wrapping_add_u32 (tj_adjustments tj) 1 \<rparr>
            else tj)"

definition join_sample ::
    "byte list \<Rightarrow> nat \<Rightarrow> nat option \<Rightarrow> sample \<Rightarrow> nat \<times> track_join \<Rightarrow> (nat \<times> track_join) parsed" where
  "join_sample bytes fi strip s st = (case st of (start, tj) \<Rightarrow>
     (case Option.bind (checked_add_usize start (sm_size s)) (\<lambda>e. if e \<le> length bytes then Some e else None) of
        None \<Rightarrow> malformed (MergeFault SamplePastFragment)
      | Some e \<Rightarrow>
          and_then (case strip of
                      Some lsz \<Rightarrow> and_then (slice_range bytes start e) (\<lambda>b. hevc_sample_without_parameter_sets_len b lsz)
                    | None \<Rightarrow> Inr (sm_size s)) (\<lambda>output_len.
            if U32_MAX < output_len then unsupported SampleTooLarge
            else
              Inr (e, tj\<lparr> tj_samples := tj_samples tj @ [s\<lparr> sm_size := output_len \<rparr>],
                          tj_slices := tj_slices tj @
                            [\<lparr> ml_fragment = fi, ml_start = start, ml_source_len = sm_size s,
                               ml_output_len = output_len, ml_strip = strip \<rparr>] \<rparr>))))"

definition join_run :: "byte list \<Rightarrow> nat \<Rightarrow> nat option \<Rightarrow> run \<Rightarrow> track_join \<Rightarrow> track_join parsed" where
  "join_run bytes fi strip rn tj =
     and_then (for_each (rn_samples rn) (join_sample bytes fi strip) (rn_data_offset rn, tj)) (\<lambda>(_, tj). Inr tj)"

definition runs_duration :: "run list \<Rightarrow> nat" where
  "runs_duration rns = fold (\<lambda>rn dur. wrapping_add_u64 dur (\<Sum>s \<leftarrow> rn_samples rn. sm_duration s)) rns 0"

definition join_fragment :: "nat \<Rightarrow> (nat \<times> nat) option \<Rightarrow> nat \<times> fragment \<Rightarrow> track_join \<Rightarrow> track_join parsed" where
  "join_fragment i strip f tj = (case f of (fi, frag) \<Rightarrow>
     (case fragment_track frag i of
        None \<Rightarrow> Inr tj
      | Some tf \<Rightarrow>
          let tj = (case tj_base tj of
                      None \<Rightarrow> tj\<lparr> tj_base := Some (tf_base_decode_time tf) \<rparr>
                    | Some _ \<Rightarrow> absorb_join (tf_base_decode_time tf) tj);
              strip_here = (case strip of Some (track, lsz) \<Rightarrow> if track = i then Some lsz else None | None \<Rightarrow> None) in
          and_then (for_each (tf_runs tf) (join_run (fr_bytes frag) fi strip_here) tj) (\<lambda>tj.
            Inr (tj\<lparr> tj_expected_next := Some (wrapping_add_u64 (tf_base_decode_time tf) (runs_duration (tf_runs tf))) \<rparr>))))"

definition plan_track ::
    "fragment list \<Rightarrow> (nat \<times> nat) option \<Rightarrow> nat \<Rightarrow> merge_plan list \<times> nat \<Rightarrow> (merge_plan list \<times> nat) parsed" where
  "plan_track fragments strip i st = (case st of (plans, adjustments) \<Rightarrow>
     and_then (for_each (enumerate 0 fragments) (join_fragment i strip)
                 \<lparr> tj_samples = [], tj_slices = [], tj_base = None, tj_expected_next = None, tj_adjustments = adjustments \<rparr>) (\<lambda>tj.
       Inr ((case tj_base tj of
               Some base \<Rightarrow>
                 if tj_samples tj = [] then plans
                 else plans @ [\<lparr> mp_track_id = i, mp_base_decode_time = base, mp_samples = tj_samples tj, mp_slices = tj_slices tj \<rparr>]
             | None \<Rightarrow> plans), tj_adjustments tj)))"

section \<open>Writing the segment\<close>

definition SIDX_BYTES :: nat where "SIDX_BYTES = 52"

definition STYP :: "byte list" where
  "STYP = [0, 0, 0, 24] @ ascii ''styp'' @ ascii ''msdh'' @ [0, 0, 0, 0] @ ascii ''msdh'' @ ascii ''msix''"

definition write_sidx :: "nat \<Rightarrow> nat \<Rightarrow> nat \<Rightarrow> nat \<Rightarrow> nat \<Rightarrow> nat \<Rightarrow> byte list" where
  "write_sidx track_id timescale earliest_presentation_time first_offset referenced_size subsegment_duration =
     be_bytes 4 SIDX_BYTES @ ascii ''sidx'' @ be_bytes 4 0x01000000 @ be_bytes 4 track_id @ be_bytes 4 timescale @
     be_bytes 8 earliest_presentation_time @ be_bytes 8 first_offset @ be_bytes 2 0 @ be_bytes 2 1 @
     be_bytes 4 (referenced_size mod 0x80000000) @ be_bytes 4 subsegment_duration @ be_bytes 4 0x80000000"

definition trun_flags :: "sample list \<Rightarrow> 32 word" where
  "trun_flags samples = (let base = 0x00000701 in if \<exists>s \<in> set samples. sm_cto s \<noteq> 0 then base OR 0x00000800 else base)"

definition trun_version :: "sample list \<Rightarrow> nat" where
  "trun_version samples = of_bool (\<exists>s \<in> set samples. sm_cto s < 0)"

definition i32_bytes :: "int \<Rightarrow> byte list" where
  "i32_bytes x = be_bytes 4 (nat (x mod 4294967296))"

definition clamp_i32 :: "int \<Rightarrow> int" where
  "clamp_i32 x = max (- 2147483648) (min 2147483647 x)"

definition sample_row :: "bool \<Rightarrow> sample \<Rightarrow> byte list" where
  "sample_row has_cto s =
     be_bytes 4 (sm_duration s) @ be_bytes 4 (sm_size s) @ be_bytes 4 (unat (sm_flags s)) @
     (if has_cto then i32_bytes (clamp_i32 (sm_cto s)) else [])"

text \<open>A \<open>traf\<close> up to the data offset of its one \<open>trun\<close>, and the rows behind it.\<close>

definition traf_head :: "merge_plan \<Rightarrow> byte list" where
  "traf_head p =
     (let flags = trun_flags (mp_samples p);
          per = (if flags AND 0x00000800 \<noteq> 0 then 16 else 12) in
      be_bytes 4 16 @ ascii ''tfhd'' @ be_bytes 4 0x00020000 @ be_bytes 4 (mp_track_id p) @
      be_bytes 4 20 @ ascii ''tfdt'' @ be_bytes 4 0x01000000 @ be_bytes 8 (mp_base_decode_time p) @
      be_bytes 4 (8 + 4 + 4 + 4 + length (mp_samples p) * per) @ ascii ''trun'' @
      be_bytes 4 (unat (push_bit 24 (of_nat (trun_version (mp_samples p))) OR flags)) @
      be_bytes 4 (length (mp_samples p)))"

definition traf_rows :: "merge_plan \<Rightarrow> byte list" where
  "traf_rows p = concat (map (sample_row (trun_flags (mp_samples p) AND 0x00000800 \<noteq> 0)) (mp_samples p))"

text \<open>One plan appended to the \<open>moof\<close> under construction, with the place of its data offset.\<close>

definition append_traf :: "merge_plan \<Rightarrow> byte list \<times> nat list \<Rightarrow> byte list \<times> nat list" where
  "append_traf p st = (case st of (moof, slots) \<Rightarrow>
     (let traf_len = 8 + length (traf_head p) + 4 + length (traf_rows p);
          front = moof @ be_bytes 4 traf_len @ ascii ''traf'' @ traf_head p in
      (front @ be_bytes 4 0 @ traf_rows p, slots @ [length front])))"

definition build_moof :: "merge_plan list \<Rightarrow> nat \<Rightarrow> byte list \<times> nat list" where
  "build_moof plans sequence =
     (case fold append_traf plans
             ([0, 0, 0, 0] @ ascii ''moof'' @ be_bytes 4 16 @ ascii ''mfhd'' @ be_bytes 4 0 @ be_bytes 4 sequence, []) of
        (moof, slots) \<Rightarrow> (be_bytes 4 (length moof) @ drop 4 moof, slots))"

text \<open>The data offsets are written once the size of the \<open>moof\<close> is known.\<close>

definition patch_u32 :: "byte list \<Rightarrow> nat \<Rightarrow> nat \<Rightarrow> byte list parsed" where
  "patch_u32 bytes pos v =
     (if pos + 4 \<le> length bytes then Inr (take pos bytes @ be_bytes 4 v @ drop (pos + 4) bytes) else Inl Panicked)"

fun patch_offsets :: "nat \<Rightarrow> merge_plan list \<Rightarrow> nat list \<Rightarrow> nat \<Rightarrow> byte list \<Rightarrow> byte list parsed" where
  "patch_offsets moof_size [] slots base moof = Inr moof"
| "patch_offsets moof_size (p # plans) slots base moof =
     (let offset = moof_size + 8 + base in
      if 2147483647 < offset then unsupported TrunOffsetTooLarge
      else
        (case slots of
           [] \<Rightarrow> Inl Panicked
         | slot # slots \<Rightarrow>
             and_then (patch_u32 moof slot offset) (patch_offsets moof_size plans slots (base + plan_byte_len p))))"

definition plan_duration :: "merge_plan \<Rightarrow> nat" where
  "plan_duration p = (\<Sum>s \<leftarrow> mp_samples p. sm_duration s)"

fun write_sidxs :: "init_segment \<Rightarrow> nat \<Rightarrow> merge_plan list \<Rightarrow> byte list" where
  "write_sidxs ini referenced_size [] = []"
| "write_sidxs ini referenced_size (p # plans) =
     (let timescale = max 1 (case init_track ini (mp_track_id p) of None \<Rightarrow> 1 | Some t \<Rightarrow> tr_timescale t) in
      write_sidx (mp_track_id p) timescale (mp_base_decode_time p) (length plans * SIDX_BYTES) referenced_size
        (min (plan_duration p) U32_MAX)) @ write_sidxs ini referenced_size plans"

definition slice_payload :: "fragment list \<Rightarrow> merge_slice \<Rightarrow> byte list \<Rightarrow> byte list parsed" where
  "slice_payload fragments sl out =
     (if length fragments \<le> ml_fragment sl then Inl Panicked
      else
        let bytes = fr_bytes (fragments ! ml_fragment sl);
            e = saturating_add_u64 (ml_start sl) (ml_source_len sl) in
        if length bytes < e then malformed (MergeFault SamplePastFragment)
        else
          and_then (slice_range bytes (ml_start sl) e) (\<lambda>source.
          (case ml_strip sl of
             None \<Rightarrow> Inr (out @ source)
           | Some lsz \<Rightarrow>
               and_then (hevc_sample_without_parameter_sets source lsz) (\<lambda>kept.
                 if length kept \<noteq> ml_output_len sl then malformed (MergeFault NormalizationChangedSize)
                 else Inr (out @ kept)))))"

record merged_segment =
  sg_bytes :: "byte list"
  sg_tfdt_adjustments :: nat
  sg_video_ticks :: nat

definition write_segment :: "fragment list \<Rightarrow> init_segment \<Rightarrow> nat \<Rightarrow> merge_plan list \<Rightarrow> byte list parsed" where
  "write_segment fragments ini sequence plans =
     (case build_moof plans sequence of (moof, slots) \<Rightarrow>
      (case checked_add_usize (sum_list (map plan_byte_len plans)) 8 of
         None \<Rightarrow> malformed (MergeFault MdatSizeOverflows)
       | Some mdat_size \<Rightarrow>
           if U32_MAX < mdat_size then unsupported (MdatTooLarge mdat_size)
           else
             and_then (patch_offsets (length moof) plans slots 0 moof) (\<lambda>patched.
               for_each (concat (map mp_slices plans)) (slice_payload fragments)
                 (STYP @ write_sidxs ini (length moof + mdat_size) plans @ patched @ be_bytes 4 mdat_size @ ascii ''mdat''))))"

definition merge_retaining :: "fragment list \<Rightarrow> init_segment \<Rightarrow> nat \<Rightarrow> bool \<Rightarrow> merged_segment parsed" where
  "merge_retaining fragments ini sequence retain =
     (if fragments = [] then malformed (MergeFault NothingToMerge)
      else
        and_then (strip_track ini retain) (\<lambda>strip.
        and_then (for_each (track_union fragments) (plan_track fragments strip) ([], 0)) (\<lambda>(plans, adjustments).
          if plans = [] then malformed (MergeFault NoTrackSurvived)
          else
            and_then (write_segment fragments ini sequence plans) (\<lambda>out.
              Inr \<lparr> sg_bytes = out, sg_tfdt_adjustments = adjustments,
                    sg_video_ticks =
                      (case Option.bind (init_video ini) (\<lambda>v. find (\<lambda>p. mp_track_id p = tr_id v) plans) of
                         None \<Rightarrow> 0 | Some p \<Rightarrow> plan_duration p) \<rparr>))))"

definition merge :: "fragment list \<Rightarrow> init_segment \<Rightarrow> nat \<Rightarrow> merged_segment parsed" where
  "merge fragments ini sequence = merge_retaining fragments ini sequence False"

end
