(* ===== verification/Fmp4Segmenter.thy ===== *)
theory Fmp4Segmenter
  imports Fmp4Merge F64
begin

text \<open>
  \<open>Segmenter\<close> of \<open>crates/plurx-core/src/fmp4.rs\<close>: fragments in, published segments out. A live session
  cuts by its policy; a planned generation looks its boundaries up, and puts its fragments back on
  the timeline of the film first. Every operation that takes \<open>&mut self\<close> answers its result with
  the segmenter it leaves behind, also when it fails.
\<close>

unbundle bit_operations_syntax

section \<open>State\<close>

record segment_counts =
  sc_fragments :: nat
  sc_segments :: nat
  sc_clean_cuts :: nat
  sc_ceiling_cuts :: nat
  sc_unparseable :: nat
  sc_tfdt_adjustments :: nat

record published =
  pb_index :: nat
  pb_segment :: merged_segment
  pb_reason :: cut_reason
  pb_seconds :: "nat \<times> int"

record media_time =
  mt_start_ticks :: nat
  mt_delta :: "int option"

record boundaries =
  bd_first_index :: nat
  bd_starts :: "nat list"

record segmenter =
  sr_init :: init_segment
  sr_policy :: cut_policy
  sr_video_timescale :: nat
  sr_pending :: "fragment list"
  sr_pending_bytes :: nat
  sr_pending_ticks :: nat
  sr_next_index :: nat
  sr_media_time :: "media_time option"
  sr_boundaries :: "boundaries option"
  sr_encoded_audio_boundaries :: bool
  sr_counts :: segment_counts
  sr_retain :: bool

text \<open>An answer with the state it leaves, and what follows a good one.\<close>

type_synonym 'a answer = "'a parsed \<times> segmenter"

definition then_do :: "'a parsed \<times> 's \<Rightarrow> ('a \<Rightarrow> 's \<Rightarrow> 'b parsed \<times> 's) \<Rightarrow> 'b parsed \<times> 's" where
  "then_do a k = (case a of (Inl e, s) \<Rightarrow> (Inl e, s) | (Inr x, s) \<Rightarrow> k x s)"

lemma then_do_simps [simp]: "then_do (Inl e, s) k = (Inl e, s)" "then_do (Inr x, s) k = k x s"
  by (simp_all add: then_do_def)

lemma then_do_Inr: "then_do a k = (Inr y, s') \<longleftrightarrow> (\<exists>x s. a = (Inr x, s) \<and> k x s = (Inr y, s'))"
  by (cases a) (auto simp: then_do_def split: sum.splits)

abbreviation over_limit :: "segment_limit \<Rightarrow> 'a parsed" where
  "over_limit l \<equiv> unsupported (SegmentLimit l)"

section \<open>Construction\<close>

definition no_counts :: segment_counts where
  "no_counts = \<lparr> sc_fragments = 0, sc_segments = 0, sc_clean_cuts = 0, sc_ceiling_cuts = 0, sc_unparseable = 0,
                 sc_tfdt_adjustments = 0 \<rparr>"

definition segmenter_new :: "init_segment \<Rightarrow> cut_policy \<Rightarrow> segmenter" where
  "segmenter_new ini policy =
     \<lparr> sr_init = ini, sr_policy = policy,
       sr_video_timescale = max (case init_video ini of None \<Rightarrow> 0 | Some v \<Rightarrow> tr_timescale v) 1,
       sr_pending = [], sr_pending_bytes = 0, sr_pending_ticks = 0, sr_next_index = 0, sr_media_time = None,
       sr_boundaries = None, sr_encoded_audio_boundaries = False, sr_counts = no_counts, sr_retain = False \<rparr>"

definition retaining_hevc_parameter_sets :: "bool \<Rightarrow> segmenter \<Rightarrow> segmenter" where
  "retaining_hevc_parameter_sets retain s = s\<lparr> sr_retain := retain \<rparr>"

definition resuming_at :: "init_segment \<Rightarrow> cut_policy \<Rightarrow> nat \<Rightarrow> nat \<Rightarrow> segmenter parsed" where
  "resuming_at ini policy start_index start_ticks =
     (if init_video ini = None then over_limit NeedsVideo
      else Inr ((segmenter_new ini policy)\<lparr> sr_next_index := start_index,
             sr_media_time := Some \<lparr> mt_start_ticks = start_ticks, mt_delta = None \<rparr> \<rparr>))"

definition following :: "init_segment \<Rightarrow> cut_policy \<Rightarrow> nat \<Rightarrow> nat list \<Rightarrow> segmenter parsed" where
  "following ini policy start_index starts =
     (case starts of
        [] \<Rightarrow> over_limit NeedsBoundary
      | first # _ \<Rightarrow>
          and_then (resuming_at ini policy start_index first) (\<lambda>s.
            Inr (s\<lparr> sr_boundaries := Some \<lparr> bd_first_index = start_index, bd_starts = starts \<rparr> \<rparr>)))"

definition following_encoded :: "init_segment \<Rightarrow> cut_policy \<Rightarrow> nat \<Rightarrow> nat list \<Rightarrow> segmenter parsed" where
  "following_encoded ini policy start_index starts =
     and_then (following ini policy start_index starts) (\<lambda>s. Inr (s\<lparr> sr_encoded_audio_boundaries := True \<rparr>))"

section \<open>Clocks\<close>

abbreviation U128_MAX :: nat where "U128_MAX \<equiv> 340282366920938463463374607431768211455"

definition scale_ticks :: "nat \<Rightarrow> nat \<Rightarrow> nat \<Rightarrow> nat" where
  "scale_ticks ticks from_timescale to_timescale =
     (let from_ts = max from_timescale 1;
          scaled = min U128_MAX (min U128_MAX (ticks * max to_timescale 1) + (from_ts - 1)) div from_ts in
      min scaled U64_MAX)"

definition scale_signed :: "int \<Rightarrow> nat \<Rightarrow> nat \<Rightarrow> int" where
  "scale_signed ticks from_timescale to_timescale =
     (let magnitude = min (int (scale_ticks (nat \<bar>ticks\<bar>) from_timescale to_timescale)) I64_MAX in
      if ticks < 0 then - magnitude else magnitude)"

definition saturating_add_signed :: "nat \<Rightarrow> int \<Rightarrow> nat" where
  "saturating_add_signed a d = nat (max 0 (min (int U64_MAX) (int a + d)))"

definition timescale_of :: "segmenter \<Rightarrow> nat \<Rightarrow> nat" where
  "timescale_of s i =
     (case find (\<lambda>t. tr_id t = i) (in_tracks (sr_init s)) of Some t \<Rightarrow> max (tr_timescale t) 1 | None \<Rightarrow> sr_video_timescale s)"

definition track_shift :: "segmenter \<Rightarrow> int \<Rightarrow> nat \<Rightarrow> int" where
  "track_shift s delta i = scale_signed delta (sr_video_timescale s) (timescale_of s i)"

definition shift_fragment :: "segmenter \<Rightarrow> int \<Rightarrow> fragment \<Rightarrow> fragment" where
  "shift_fragment s delta f =
     f\<lparr> fr_tracks := map (\<lambda>t. t\<lparr> tf_base_decode_time :=
            saturating_add_signed (tf_base_decode_time t) (track_shift s delta (tf_track_id t)) \<rparr>) (fr_tracks f) \<rparr>"

definition refuse_if_any_track_lands_before_zero :: "segmenter \<Rightarrow> fragment \<Rightarrow> int \<Rightarrow> unit parsed" where
  "refuse_if_any_track_lands_before_zero s f delta =
     for_each (fr_tracks f) (\<lambda>t _.
       let at = int (tf_base_decode_time t) + track_shift s delta (tf_track_id t) in
       if at < 0 then over_limit (LandsBeforeZero (tf_track_id t) at) else Inr ()) ()"

text \<open>The shift is learned from the first fragment with video, and moves what arrived before it too.\<close>

definition learn_delta :: "fragment \<Rightarrow> media_time \<Rightarrow> nat \<Rightarrow> segmenter \<Rightarrow> int answer" where
  "learn_delta f media base s =
     (let delta = int (mt_start_ticks media) - int base in
      if \<not> i64_ok delta then (over_limit (TooFarToPlace base (mt_start_ticks media)), s)
      else case refuse_if_any_track_lands_before_zero s f delta of
             Inl e \<Rightarrow> (Inl e, s)
           | Inr _ \<Rightarrow>
               (Inr delta, s\<lparr> sr_media_time := Some (media\<lparr> mt_delta := Some delta \<rparr>),
                              sr_pending := map (shift_fragment s delta) (sr_pending s) \<rparr>))"

definition on_film_time :: "fragment \<Rightarrow> segmenter \<Rightarrow> fragment answer" where
  "on_film_time f s =
     (case sr_media_time s of
        None \<Rightarrow> (Inr f, s)
      | Some media \<Rightarrow>
          (case mt_delta media of
             Some delta \<Rightarrow> (Inr (shift_fragment s delta f), s)
           | None \<Rightarrow>
               (case init_video (sr_init s) of
                  None \<Rightarrow> (over_limit NoVideoToAnchor, s)
                | Some video \<Rightarrow>
                    (case fragment_track f (tr_id video) of
                       None \<Rightarrow> (Inr f, s)
                     | Some tf \<Rightarrow>
                         then_do (learn_delta f media (tf_base_decode_time tf) s) (\<lambda>delta s.
                           (Inr (shift_fragment s delta f), s))))))"

definition film_time_of :: "segmenter \<Rightarrow> fragment \<Rightarrow> nat option" where
  "film_time_of s f =
     Option.bind (init_video (sr_init s)) (\<lambda>video. map_option tf_base_decode_time (fragment_track f (tr_id video)))"

definition video_duration :: "fragment \<Rightarrow> init_segment \<Rightarrow> nat" where
  "video_duration f ini =
     (case Option.bind (init_video ini) (\<lambda>v. fragment_track f (tr_id v)) of None \<Rightarrow> 0 | Some tf \<Rightarrow> tf_duration tf)"


section \<open>Where a segment ends\<close>

definition nth_opt :: "'a list \<Rightarrow> nat \<Rightarrow> 'a option" where
  "nth_opt xs i = (if i < length xs then Some (xs ! i) else None)"

definition entry_after :: "segmenter \<Rightarrow> boundaries \<Rightarrow> nat" where
  "entry_after s plan = wrapping_add_u64 (wrapping_sub_u64 (sr_next_index s) (bd_first_index plan)) 1"

definition policy_cut :: "segmenter \<Rightarrow> fragment \<Rightarrow> cut_class \<Rightarrow> cut_reason option" where
  "policy_cut s f class =
     cut_before (sr_policy s) (sr_pending_ticks s) (sr_pending_bytes s) class (sr_next_index s = 0)"

definition planned_cut :: "segmenter \<Rightarrow> boundaries \<Rightarrow> fragment \<Rightarrow> cut_class \<Rightarrow> cut_reason option parsed" where
  "planned_cut s plan f class =
     (if sr_pending s = [] then Inr None
      else case nth_opt (bd_starts plan) (entry_after s plan) of
        None \<Rightarrow> Inr None
      | Some boundary \<Rightarrow>
          (case film_time_of s f of
             None \<Rightarrow> Inr None
           | Some dts \<Rightarrow>
               if dts < boundary then Inr None
               else
                 let reason = (if class_is_clean class then Clean else TimeCeiling) in
                 case nth_opt (bd_starts plan) (wrapping_add_u64 (entry_after s plan) 1) of
                   None \<Rightarrow> Inr (Some reason)
                 | Some after \<Rightarrow>
                     if after \<le> dts then over_limit (StepsOver dts boundary after) else Inr (Some reason)))"

definition segment_cut :: "segmenter \<Rightarrow> fragment \<Rightarrow> cut_class \<Rightarrow> cut_reason option parsed" where
  "segment_cut s f class =
     (case sr_boundaries s of
        Some plan \<Rightarrow> planned_cut s plan f class
      | None \<Rightarrow>
          (case strict_max_ticks (sr_policy s) of
             None \<Rightarrow> Inr (policy_cut s f class)
           | Some strict \<Rightarrow>
               let incoming = video_duration f (sr_init s) in
               if strict < incoming then over_limit (FragmentOverTarget incoming strict)
               else if sr_pending s \<noteq> [] \<and> strict < saturating_add_u64 (sr_pending_ticks s) incoming
               then Inr (Some TimeCeiling)
               else Inr (policy_cut s f class)))"

section \<open>Encoded audio before a boundary\<close>

text \<open>The samples that start before the cutoff: their number and bytes, and the time behind them.\<close>

fun samples_before :: "nat \<Rightarrow> nat \<Rightarrow> sample list \<Rightarrow> nat \<Rightarrow> nat \<Rightarrow> nat \<Rightarrow> (nat \<times> nat \<times> nat) parsed" where
  "samples_before cutoff video_timescale [] time len n = Inr (time, len, n)"
| "samples_before cutoff video_timescale (s # ss) time len n =
     (if cutoff \<le> time * video_timescale then Inr (time, len, n)
      else case checked_add_usize time (sm_duration s) of
        None \<Rightarrow> malformed (SegmentFault EncodedTimeOverflow)
      | Some time' \<Rightarrow>
          (case checked_add_usize len (sm_size s) of
             None \<Rightarrow> malformed (SegmentFault EncodedSizeOverflow)
           | Some len' \<Rightarrow> samples_before cutoff video_timescale ss time' len' (n + 1)))"

definition forget_place :: "sample \<Rightarrow> sample" where
  "forget_place s = s\<lparr> sm_size_at := None \<rparr>"

text \<open>The runs taken, the runs left, the time between them and the bytes of the samples taken.\<close>

type_synonym taken = "run list \<times> run list \<times> nat \<times> byte list"

fun take_runs :: "nat \<Rightarrow> nat \<Rightarrow> byte list \<Rightarrow> run list \<Rightarrow> nat \<Rightarrow> byte list \<Rightarrow> taken parsed" where
  "take_runs cutoff video_timescale bytes [] time out = Inr ([], [], time, out)"
| "take_runs cutoff video_timescale bytes (rn # rns) time out =
     and_then (samples_before cutoff video_timescale (rn_samples rn) time 0 0) (\<lambda>(time, len, n).
       if n = 0 then Inr ([], rn # rns, time, out)
       else case checked_add_usize (rn_data_offset rn) len of
         None \<Rightarrow> malformed (SegmentFault EncodedOffsetOverflow)
       | Some e \<Rightarrow>
           if length bytes < e then malformed (SegmentFault EncodedLeavesPayload)
           else
             let payload = take (e - rn_data_offset rn) (drop (rn_data_offset rn) bytes);
                 taken = rn\<lparr> rn_data_offset_at := None, rn_data_offset := length out,
                            rn_samples := map forget_place (take n (rn_samples rn)) \<rparr>;
                 kept = rn\<lparr> rn_data_offset := e, rn_data_offset_at := None, rn_samples := drop n (rn_samples rn) \<rparr> in
             if rn_samples kept \<noteq> [] then Inr ([taken], kept # rns, time, out @ payload)
             else and_then (take_runs cutoff video_timescale bytes rns time (out @ payload))
                    (\<lambda>(ts, ks, time, out). Inr (taken # ts, kept # ks, time, out)))"

text \<open>One track: the loop state is the bytes and tracks taken, and the tracks left.\<close>

type_synonym prefix_state = "byte list \<times> track_fragment list \<times> track_fragment list"

definition take_track :: "init_segment \<Rightarrow> nat \<Rightarrow> nat \<Rightarrow> byte list \<Rightarrow> track_fragment \<Rightarrow> prefix_state \<Rightarrow> prefix_state parsed" where
  "take_track ini boundary video_timescale bytes tf st = (case st of (out, taken, left) \<Rightarrow>
     (case find (\<lambda>info. tr_id info = tf_track_id tf \<and> tr_kind info = Audio) (in_tracks ini) of
        None \<Rightarrow> Inr (out, taken, left @ [tf])
      | Some info \<Rightarrow>
          and_then (take_runs (boundary * tr_timescale info) video_timescale bytes (tf_runs tf) (tf_base_decode_time tf) out)
            (\<lambda>(ts, ks, time, out).
              if ts = [] then Inr (out, taken, left @ [tf])
              else Inr (out, taken @ [tf\<lparr> tf_runs := ts \<rparr>],
                        left @ [tf\<lparr> tf_base_decode_time := time, tf_runs := filter (\<lambda>rn. rn_samples rn \<noteq> []) ks \<rparr>]))))"

definition take_encoded_audio_before ::
    "fragment \<Rightarrow> init_segment \<Rightarrow> nat \<Rightarrow> nat \<Rightarrow> (fragment option \<times> fragment) parsed" where
  "take_encoded_audio_before f ini boundary video_timescale =
     and_then (for_each (fr_tracks f) (take_track ini boundary video_timescale (fr_bytes f)) ([], [], []))
       (\<lambda>(out, taken, left).
          Inr (if taken = [] then None
               else Some \<lparr> fr_bytes = out, fr_mdat_payload = (0, length out), fr_tracks = taken \<rparr>,
               f\<lparr> fr_tracks := filter (\<lambda>t. 0 < tf_sample_count t) left \<rparr>))"

section \<open>Publication\<close>

definition sum_u64 :: "nat list \<Rightarrow> nat" where
  "sum_u64 xs = foldl wrapping_add_u64 0 xs"

definition track_ticks :: "fragment list \<Rightarrow> nat \<Rightarrow> nat" where
  "track_ticks fs i = sum_u64 (map tf_duration (List.map_filter (\<lambda>f. fragment_track f i) fs))"

definition seconds_of :: "nat \<Rightarrow> nat \<Rightarrow> nat \<times> int" where
  "seconds_of ticks timescale = f64_div (f64_of_nat ticks) (f64_of_nat timescale)"

definition longer_track :: "fragment list \<Rightarrow> track \<Rightarrow> nat \<times> int \<Rightarrow> nat \<times> int" where
  "longer_track fs t longest =
     (let secs = seconds_of (track_ticks fs (tr_id t)) (max (tr_timescale t) 1) in
      if f64_less longest secs then secs else longest)"

definition seconds_for :: "segmenter \<Rightarrow> fragment list \<Rightarrow> cut_reason \<Rightarrow> nat \<times> int" where
  "seconds_for s fs reason =
     (let video_ticks = (case init_video (sr_init s) of None \<Rightarrow> 0 | Some v \<Rightarrow> track_ticks fs (tr_id v));
          video_seconds = seconds_of video_ticks (sr_video_timescale s) in
      if 0 < video_ticks \<and> reason \<noteq> EndOfStream then video_seconds
      else fold (longer_track fs) (in_tracks (sr_init s)) video_seconds)"

definition sequence_of :: "nat \<Rightarrow> nat" where
  "sequence_of index = wrapping_add_u32 (index mod 4294967296) 1"

fun count_cut :: "cut_reason \<Rightarrow> segment_counts \<Rightarrow> segment_counts" where
  "count_cut Clean c = c\<lparr> sc_clean_cuts := wrapping_add_u64 (sc_clean_cuts c) 1 \<rparr>"
| "count_cut ByteCeiling c = c\<lparr> sc_ceiling_cuts := wrapping_add_u64 (sc_ceiling_cuts c) 1 \<rparr>"
| "count_cut TimeCeiling c = c\<lparr> sc_ceiling_cuts := wrapping_add_u64 (sc_ceiling_cuts c) 1 \<rparr>"
| "count_cut EndOfStream c = c"

definition flush :: "cut_reason \<Rightarrow> segmenter \<Rightarrow> published answer" where
  "flush reason s =
     (let index = sr_next_index s in
      case merge_retaining (sr_pending s) (sr_init s) (sequence_of index) (sr_retain s) of
        Inl e \<Rightarrow> (Inl e, s)
      | Inr segment \<Rightarrow>
          (Inr \<lparr> pb_index = index, pb_segment = segment, pb_reason = reason,
                 pb_seconds = seconds_for s (sr_pending s) reason \<rparr>,
           s\<lparr> sr_pending := [], sr_pending_bytes := 0, sr_pending_ticks := 0,
              sr_next_index := wrapping_add_u64 index 1,
              sr_counts := count_cut reason ((sr_counts s)\<lparr>
                 sc_segments := wrapping_add_u64 (sc_segments (sr_counts s)) 1,
                 sc_tfdt_adjustments := wrapping_add_u32 (sc_tfdt_adjustments (sr_counts s)) (sg_tfdt_adjustments segment) \<rparr>) \<rparr>))"

definition count_fragment :: "cut_class \<Rightarrow> segmenter \<Rightarrow> segmenter" where
  "count_fragment class s =
     (let c = sr_counts s; c = c\<lparr> sc_fragments := wrapping_add_u64 (sc_fragments c) 1 \<rparr> in
      s\<lparr> sr_counts := (if class = Unparseable then c\<lparr> sc_unparseable := wrapping_add_u64 (sc_unparseable c) 1 \<rparr> else c) \<rparr>)"

text \<open>A fragment joins the pending run.\<close>

definition accept :: "fragment \<Rightarrow> 'a \<Rightarrow> segmenter \<Rightarrow> 'a answer" where
  "accept f x s =
     (Inr x, s\<lparr> sr_pending_ticks := wrapping_add_u64 (sr_pending_ticks s) (video_duration f (sr_init s)),
                sr_pending_bytes := wrapping_add_u64 (sr_pending_bytes s) (fragment_len f),
                sr_pending := sr_pending s @ [f] \<rparr>)"

text \<open>Encoded audio that starts before the boundary stays in the segment that ends there.\<close>

definition split_encoded_audio :: "fragment \<Rightarrow> segmenter \<Rightarrow> fragment answer" where
  "split_encoded_audio f s =
     (if \<not> sr_encoded_audio_boundaries s then (Inr f, s)
      else case sr_boundaries s of
        None \<Rightarrow> (Inl Panicked, s)
      | Some plan \<Rightarrow>
          (case nth_opt (bd_starts plan) (entry_after s plan) of
             None \<Rightarrow> (Inl Panicked, s)
           | Some boundary \<Rightarrow>
               (case take_encoded_audio_before f (sr_init s) boundary (sr_video_timescale s) of
                  Inl e \<Rightarrow> (Inl e, s)
                | Inr (None, f) \<Rightarrow> (Inr f, s)
                | Inr (Some prefix, f) \<Rightarrow>
                    (Inr f, s\<lparr> sr_pending_bytes := wrapping_add_u64 (sr_pending_bytes s) (fragment_len prefix),
                               sr_pending := sr_pending s @ [prefix] \<rparr>))))"

definition push_fragment :: "fragment \<Rightarrow> segmenter \<Rightarrow> published option answer" where
  "push_fragment f s =
     then_do (on_film_time f s) (\<lambda>f s.
     let class = classify f (sr_init s); s = count_fragment class s in
     then_do (segment_cut s f class, s) (\<lambda>cut s.
       case cut of
         None \<Rightarrow> accept f None s
       | Some reason \<Rightarrow>
           then_do (split_encoded_audio f s) (\<lambda>f s.
           then_do (flush reason s) (\<lambda>p s. accept f (Some p) s))))"


section \<open>The end of the stream\<close>

text \<open>
  What a chunk of a track may last: the first one, any later one, and whether the first may take
  the sample that crosses its limit. The state of the split is the number of the open chunk, its
  ticks, and the decode time and place of the next sample.
\<close>

record split_limits =
  sl_first :: nat
  sl_ceiling :: nat
  sl_boundary_sample :: bool

record split_state =
  ss_chunk :: nat
  ss_ticks :: nat
  ss_time :: nat
  ss_offset :: nat

definition chunk_is_full :: "split_limits \<Rightarrow> sample \<Rightarrow> split_state \<Rightarrow> bool" where
  "chunk_is_full lims s st \<longleftrightarrow>
     (let limit = (if ss_chunk st = 0 then sl_first lims else sl_ceiling lims);
          crosses_limit = (0 < ss_ticks st \<and> limit < saturating_add_u64 (ss_ticks st) (sm_duration s));
          after_boundary = (ss_chunk st = 0 \<and> sl_boundary_sample lims \<and> limit \<le> ss_ticks st) in
      after_boundary \<or> crosses_limit \<and> \<not> (ss_chunk st = 0 \<and> sl_boundary_sample lims))"

lemma chunk_is_full_fresh: "\<not> chunk_is_full lims s (st\<lparr> ss_chunk := ss_chunk st + 1, ss_ticks := 0 \<rparr>)"
  by (simp add: chunk_is_full_def)

definition over_ceiling :: "track \<Rightarrow> split_limits \<Rightarrow> sample \<Rightarrow> 'a parsed" where
  "over_ceiling t lims s = over_limit (SampleOverCeiling (tr_id t) (sm_duration s) (sl_ceiling lims))"

definition past_sample :: "sample \<Rightarrow> split_state \<Rightarrow> split_state" where
  "past_sample s st = st\<lparr> ss_ticks := wrapping_add_u64 (ss_ticks st) (sm_duration s),
                          ss_time := wrapping_add_u64 (ss_time st) (sm_duration s),
                          ss_offset := wrapping_add_u64 (ss_offset st) (sm_size s) \<rparr>"

text \<open>The samples the open chunk takes, and those it leaves.\<close>

fun take_group :: "track \<Rightarrow> split_limits \<Rightarrow> sample list \<Rightarrow> split_state \<Rightarrow> (sample list \<times> sample list \<times> split_state) parsed" where
  "take_group t lims [] st = Inr ([], [], st)"
| "take_group t lims (s # ss) st =
     (if sl_ceiling lims < sm_duration s then over_ceiling t lims s
      else if chunk_is_full lims s st then Inr ([], s # ss, st)
      else and_then (take_group t lims ss (past_sample s st)) (\<lambda>(g, rest, st). Inr (s # g, rest, st)))"

lemma take_group_append: "take_group t lims ss st = Inr (g, rest, st') \<Longrightarrow> ss = g @ rest"
proof (induction ss arbitrary: g rest st)
  case (Cons s ss)
  then show ?case by (auto simp: and_then_Inr over_ceiling_def split: if_splits)
qed simp

lemma take_group_shrinks:
  assumes "take_group t lims (s # ss) st = Inr (g, rest, st')" and "\<not> chunk_is_full lims s st"
  shows "length rest < length (s # ss)"
  using assms by (auto simp: and_then_Inr over_ceiling_def dest!: take_group_append split: if_splits)

text \<open>A group joins its chunk.\<close>

definition put_chunk :: "nat \<Rightarrow> fragment \<Rightarrow> fragment list list \<Rightarrow> fragment list list" where
  "put_chunk i f chunks =
     (let padded = (if length chunks \<le> i then chunks @ replicate (i + 1 - length chunks) [] else chunks) in
      padded[i := padded ! i @ [f]])"

definition group_fragment :: "fragment \<Rightarrow> track \<Rightarrow> run \<Rightarrow> sample list \<Rightarrow> split_state \<Rightarrow> fragment" where
  "group_fragment f t rn g st =
     f\<lparr> fr_tracks := [\<lparr> tf_track_id = tr_id t, tf_base_decode_time = ss_time st, tf_runs =
          [rn\<lparr> rn_data_offset_at := None, rn_data_offset := ss_offset st, rn_samples := g \<rparr>] \<rparr>] \<rparr>"

function split_samples ::
    "track \<Rightarrow> split_limits \<Rightarrow> fragment \<Rightarrow> run \<Rightarrow> sample list \<Rightarrow> split_state \<times> fragment list list \<Rightarrow>
     (split_state \<times> fragment list list) parsed" where
  "split_samples t lims f rn [] stc = Inr stc"
| "split_samples t lims f rn (s # ss) stc = (case stc of (st, chunks) \<Rightarrow>
     (if sl_ceiling lims < sm_duration s then over_ceiling t lims s
      else if chunk_is_full lims s st
      then split_samples t lims f rn (s # ss) (st\<lparr> ss_chunk := ss_chunk st + 1, ss_ticks := 0 \<rparr>, chunks)
      else and_then (take_group t lims (s # ss) st) (\<lambda>(g, rest, st').
             split_samples t lims f rn rest (st', put_chunk (ss_chunk st) (group_fragment f t rn g st) chunks))))"
  by pat_completeness auto
termination
proof (relation "measures [\<lambda>(t, lims, f, rn, ss, stc). length ss,
                          \<lambda>(t, lims, f, rn, ss, stc). of_bool (ss \<noteq> [] \<and> chunk_is_full lims (hd ss) (fst stc))]", goal_cases)
  case (2 t lims f rn s ss stc st chunks)
  then show ?case using chunk_is_full_fresh [of lims s st] by (simp flip: 2(1))
next
  case (3 t lims f rn s ss stc st chunks x g y rest st')
  from take_group_shrinks [of t lims s ss st g rest st'] 3 show ?case by (simp del: take_group.simps)
qed simp

declare split_samples.simps [simp del]

definition split_run ::
    "track \<Rightarrow> split_limits \<Rightarrow> fragment \<Rightarrow> run \<Rightarrow> split_state \<times> fragment list list \<Rightarrow> (split_state \<times> fragment list list) parsed" where
  "split_run t lims f rn stc = (case stc of (st, chunks) \<Rightarrow>
     split_samples t lims f rn (rn_samples rn) (st\<lparr> ss_offset := rn_data_offset rn \<rparr>, chunks))"

definition split_fragment ::
    "track \<Rightarrow> split_limits \<Rightarrow> fragment \<Rightarrow> split_state \<times> fragment list list \<Rightarrow> (split_state \<times> fragment list list) parsed" where
  "split_fragment t lims f stc = (case stc of (st, chunks) \<Rightarrow>
     (case fragment_track f (tr_id t) of
        None \<Rightarrow> Inr (st, chunks)
      | Some tf \<Rightarrow> for_each (tf_runs tf) (split_run t lims f) (st\<lparr> ss_time := tf_base_decode_time tf \<rparr>, chunks)))"

definition limits_of :: "segmenter \<Rightarrow> nat \<Rightarrow> track \<Rightarrow> split_limits" where
  "limits_of s video_ticks t =
     (let ceiling = max (scale_ticks (max_ticks (sr_policy s)) (sr_video_timescale s) (max (tr_timescale t) 1)) 1;
          video_limit = scale_ticks video_ticks (sr_video_timescale s) (max (tr_timescale t) 1) in
      \<lparr> sl_first = (if sr_boundaries s \<noteq> None then max video_limit 1 else max ceiling video_limit),
        sl_ceiling = ceiling, sl_boundary_sample = (0 < video_ticks) \<rparr>)"

definition split_track :: "segmenter \<Rightarrow> nat \<Rightarrow> track \<Rightarrow> fragment list list \<Rightarrow> fragment list list parsed" where
  "split_track s video_ticks t chunks =
     and_then (for_each (sr_pending s) (split_fragment t (limits_of s video_ticks t))
                 (\<lparr> ss_chunk = 0, ss_ticks = 0, ss_time = 0, ss_offset = 0 \<rparr>, chunks))
       (\<lambda>(_, chunks). Inr chunks)"

definition end_of_stream_chunks :: "segmenter \<Rightarrow> fragment list list parsed" where
  "end_of_stream_chunks s =
     (let video_ticks = sum_u64 (map (\<lambda>f. video_duration f (sr_init s)) (sr_pending s)) in
      and_then (for_each (in_tracks (sr_init s)) (split_track s video_ticks) []) (\<lambda>chunks.
        let chunks = filter (\<lambda>c. c \<noteq> []) chunks in
        if chunks = [] then malformed (SegmentFault NoChunkSurvived) else Inr chunks))"

text \<open>One final segment, refused where its duration leaves the fixed target.\<close>

definition finish_chunk :: "segmenter \<Rightarrow> nat \<times> fragment list \<Rightarrow> published list \<Rightarrow> published list parsed" where
  "finish_chunk s c ps = (case c of (offset, fs) \<Rightarrow>
     (let index = wrapping_add_u64 (sr_next_index s) offset;
          secs = seconds_for s fs EndOfStream;
          outside = (case strict_max_ticks (sr_policy s) of
            None \<Rightarrow> False
          | Some strict \<Rightarrow> fst secs = 0 \<or> f64_less (seconds_of strict (sr_video_timescale s)) secs) in
      if outside then over_limit (FinalOutsideTarget index)
      else
        and_then (merge_retaining fs (sr_init s) (sequence_of index) (sr_retain s)) (\<lambda>segment.
          Inr (ps @ [\<lparr> pb_index = index, pb_segment = segment, pb_reason = EndOfStream, pb_seconds = secs \<rparr>]))))"

definition finish_stream :: "segmenter \<Rightarrow> published list answer" where
  "finish_stream s =
     (if sr_pending s = [] then (Inr [], s)
      else case and_then (end_of_stream_chunks s) (\<lambda>chunks. for_each (enumerate 0 chunks) (finish_chunk s) []) of
        Inl e \<Rightarrow> (Inl e, s)
      | Inr ps \<Rightarrow>
          (Inr ps,
           s\<lparr> sr_pending := [], sr_pending_bytes := 0, sr_pending_ticks := 0,
              sr_next_index := wrapping_add_u64 (sr_next_index s) (length ps),
              sr_counts := (sr_counts s)\<lparr>
                 sc_segments := wrapping_add_u64 (sc_segments (sr_counts s)) (length ps),
                 sc_tfdt_adjustments := wrapping_add_u32 (sc_tfdt_adjustments (sr_counts s))
                   (foldl wrapping_add_u32 0 (map (sg_tfdt_adjustments \<circ> pb_segment) ps)) \<rparr> \<rparr>))"

end
