(* ===== verification/Fmp4Joins.thy ===== *)
theory Fmp4Joins
  imports Fmp4Merge
begin

text \<open>
  What a merge plan carries: the samples of a track over a run of fragments, in order, with the
  bytes each of them had. The lemmas follow \<open>merge_retaining\<close> from one sample to the list of
  plans.
\<close>

section \<open>The samples and the bytes of a track\<close>

fun run_payloads :: "byte list \<Rightarrow> nat \<Rightarrow> sample list \<Rightarrow> byte list list" where
  "run_payloads bytes start [] = []"
| "run_payloads bytes start (s # ss) = take (sm_size s) (drop start bytes) # run_payloads bytes (start + sm_size s) ss"

definition runs_payloads :: "byte list \<Rightarrow> run list \<Rightarrow> byte list list" where
  "runs_payloads bytes rns = concat (map (\<lambda>rn. run_payloads bytes (rn_data_offset rn) (rn_samples rn)) rns)"

definition fragment_payloads :: "nat \<Rightarrow> fragment \<Rightarrow> byte list list" where
  "fragment_payloads i f = (case fragment_track f i of None \<Rightarrow> [] | Some tf \<Rightarrow> runs_payloads (fr_bytes f) (tf_runs tf))"

definition fragment_samples :: "nat \<Rightarrow> fragment \<Rightarrow> sample list" where
  "fragment_samples i f = (case fragment_track f i of None \<Rightarrow> [] | Some tf \<Rightarrow> tf_samples tf)"

definition track_payloads :: "fragment list \<Rightarrow> nat \<Rightarrow> byte list list" where
  "track_payloads fs i = concat (map (fragment_payloads i) fs)"

definition track_samples :: "fragment list \<Rightarrow> nat \<Rightarrow> sample list" where
  "track_samples fs i = concat (map (fragment_samples i) fs)"

text \<open>The decode time the track starts at, and the one it would go on with behind these fragments.\<close>

definition start_time :: "fragment list \<Rightarrow> nat \<Rightarrow> nat option" where
  "start_time fs i =
     (case List.map_filter (\<lambda>f. fragment_track f i) fs of [] \<Rightarrow> None | tf # _ \<Rightarrow> Some (tf_base_decode_time tf))"

definition end_time :: "track_fragment \<Rightarrow> nat" where
  "end_time tf = wrapping_add_u64 (tf_base_decode_time tf) (runs_duration (tf_runs tf))"

definition next_time :: "nat \<Rightarrow> fragment \<Rightarrow> nat option \<Rightarrow> nat option" where
  "next_time i f t = (case fragment_track f i of None \<Rightarrow> t | Some tf \<Rightarrow> Some (end_time tf))"

definition expected_time :: "fragment list \<Rightarrow> nat \<Rightarrow> nat option" where
  "expected_time fs i = fold (next_time i) fs None"

text \<open>Every fragment of the track begins where the one before it ended.\<close>

fun gapless_from :: "nat \<Rightarrow> nat option \<Rightarrow> fragment list \<Rightarrow> bool" where
  "gapless_from i t [] = True"
| "gapless_from i t (f # fs) =
     ((case (fragment_track f i, t) of (Some tf, Some e) \<Rightarrow> tf_base_decode_time tf = e | _ \<Rightarrow> True) \<and>
      gapless_from i (next_time i f t) fs)"

definition gapless :: "fragment list \<Rightarrow> nat \<Rightarrow> bool" where
  "gapless fs i = gapless_from i None fs"

lemma gapless_from_snoc:
  "gapless_from i t (fs @ [f]) \<longleftrightarrow> gapless_from i t fs \<and>
     (case (fragment_track f i, fold (next_time i) fs t) of (Some tf, Some e) \<Rightarrow> tf_base_decode_time tf = e | _ \<Rightarrow> True)"
  by (induction fs arbitrary: t) auto

lemma track_snoc:
  "track_payloads (fs @ [f]) i = track_payloads fs i @ fragment_payloads i f"
  "track_samples (fs @ [f]) i = track_samples fs i @ fragment_samples i f"
  "expected_time (fs @ [f]) i = next_time i f (expected_time fs i)"
  "gapless (fs @ [f]) i \<longleftrightarrow> gapless fs i \<and>
     (case (fragment_track f i, expected_time fs i) of (Some tf, Some e) \<Rightarrow> tf_base_decode_time tf = e | _ \<Rightarrow> True)"
  by (simp_all add: track_payloads_def track_samples_def expected_time_def gapless_def gapless_from_snoc)

lemma start_time_snoc:
  "start_time (fs @ [f]) i =
     (case start_time fs i of Some t \<Rightarrow> Some t | None \<Rightarrow> map_option tf_base_decode_time (fragment_track f i))"
  by (auto simp: start_time_def List.map_filter_def split: list.splits option.splits)

section \<open>Slices\<close>

definition slice_source :: "fragment list \<Rightarrow> merge_slice \<Rightarrow> byte list" where
  "slice_source fs sl = take (ml_source_len sl) (drop (ml_start sl) (fr_bytes (fs ! ml_fragment sl)))"

definition slice_ok :: "fragment list \<Rightarrow> nat option \<Rightarrow> merge_slice \<Rightarrow> bool" where
  "slice_ok fs strip sl \<longleftrightarrow>
     ml_fragment sl < length fs \<and> ml_start sl + ml_source_len sl \<le> length (fr_bytes (fs ! ml_fragment sl)) \<and>
     ml_start sl + ml_source_len sl \<le> USIZE_MAX \<and> ml_strip sl = strip \<and> ml_output_len sl \<le> U32_MAX \<and>
     (strip = None \<longrightarrow> ml_output_len sl = ml_source_len sl)"

text \<open>A join extended by samples: each with the size of its slice, each slice with the bytes of its sample.\<close>

definition extended :: "fragment list \<Rightarrow> nat option \<Rightarrow> sample list \<Rightarrow> byte list list \<Rightarrow> track_join \<Rightarrow> track_join \<Rightarrow> bool" where
  "extended fs strip ss payloads tj tj' \<longleftrightarrow>
     (\<exists>sls. length sls = length ss \<and> map (slice_source fs) sls = payloads \<and> (\<forall>sl \<in> set sls. slice_ok fs strip sl) \<and>
       tj' = tj\<lparr> tj_samples := tj_samples tj @ map2 (\<lambda>s sl. s\<lparr> sm_size := ml_output_len sl \<rparr>) ss sls,
                 tj_slices := tj_slices tj @ sls \<rparr>)"

lemma extended_Nil: "extended fs strip [] [] tj tj"
  by (simp add: extended_def)

lemma extended_append:
  assumes "extended fs strip ss1 ps1 tj tj1" and "extended fs strip ss2 ps2 tj1 tj2"
  shows "extended fs strip (ss1 @ ss2) (ps1 @ ps2) tj tj2"
proof -
  from assms obtain sls1 sls2 where
    1: "length sls1 = length ss1" "map (slice_source fs) sls1 = ps1" "\<forall>sl \<in> set sls1. slice_ok fs strip sl"
       "tj1 = tj\<lparr> tj_samples := tj_samples tj @ map2 (\<lambda>s sl. s\<lparr> sm_size := ml_output_len sl \<rparr>) ss1 sls1, tj_slices := tj_slices tj @ sls1 \<rparr>" and
    2: "length sls2 = length ss2" "map (slice_source fs) sls2 = ps2" "\<forall>sl \<in> set sls2. slice_ok fs strip sl"
       "tj2 = tj1\<lparr> tj_samples := tj_samples tj1 @ map2 (\<lambda>s sl. s\<lparr> sm_size := ml_output_len sl \<rparr>) ss2 sls2, tj_slices := tj_slices tj1 @ sls2 \<rparr>"
    unfolding extended_def by blast
  then have "length (sls1 @ sls2) = length (ss1 @ ss2) \<and> map (slice_source fs) (sls1 @ sls2) = ps1 @ ps2 \<and>
    (\<forall>sl \<in> set (sls1 @ sls2). slice_ok fs strip sl) \<and>
    tj2 = tj\<lparr> tj_samples := tj_samples tj @ map2 (\<lambda>s sl. s\<lparr> sm_size := ml_output_len sl \<rparr>) (ss1 @ ss2) (sls1 @ sls2),
              tj_slices := tj_slices tj @ (sls1 @ sls2) \<rparr>"
    by (simp add: ball_Un)
  then show ?thesis unfolding extended_def by blast
qed

lemma join_sample_extends:
  assumes "fi < length fs" and "join_sample (fr_bytes (fs ! fi)) fi strip s (start, tj) = Inr (e, tj')"
  shows "e = start + sm_size s" "extended fs strip [s] [take (sm_size s) (drop start (fr_bytes (fs ! fi)))] tj tj'"
proof -
  have e: "start + sm_size s \<le> USIZE_MAX" "start + sm_size s \<le> length (fr_bytes (fs ! fi))" "e = start + sm_size s"
    using assms(2) by (auto simp: join_sample_def checked_add_usize_def and_then_Inr split: option.splits if_splits)
  obtain n where n0: "(case strip of
        Some lsz \<Rightarrow> and_then (slice_range (fr_bytes (fs ! fi)) start (start + sm_size s)) (\<lambda>b. hevc_sample_without_parameter_sets_len b lsz)
      | None \<Rightarrow> Inr (sm_size s)) = Inr n"
    using assms(2) e by (auto simp: join_sample_def checked_add_usize_def and_then_Inr)
  have n: "n \<le> U32_MAX" "strip = None \<Longrightarrow> n = sm_size s"
    using assms(2) e n0 by (auto simp: join_sample_def checked_add_usize_def split: if_splits)
  have tj': "tj' = tj\<lparr> tj_samples := tj_samples tj @ [s\<lparr> sm_size := n \<rparr>],
                tj_slices := tj_slices tj @ [\<lparr> ml_fragment = fi, ml_start = start, ml_source_len = sm_size s,
                               ml_output_len = n, ml_strip = strip \<rparr>] \<rparr>"
    using assms(2) e n0 n(1) by (simp add: join_sample_def checked_add_usize_def)
  show "e = start + sm_size s" by (rule e(3))
  show "extended fs strip [s] [take (sm_size s) (drop start (fr_bytes (fs ! fi)))] tj tj'"
    unfolding extended_def
    by (rule exI [of _ "[\<lparr> ml_fragment = fi, ml_start = start, ml_source_len = sm_size s, ml_output_len = n, ml_strip = strip \<rparr>]"])
      (use assms(1) e n tj' in \<open>simp add: slice_source_def slice_ok_def\<close>)
qed

lemma join_samples_extend:
  "fi < length fs \<Longrightarrow> for_each ss (join_sample (fr_bytes (fs ! fi)) fi strip) (start, tj) = Inr (e, tj') \<Longrightarrow>
   extended fs strip ss (run_payloads (fr_bytes (fs ! fi)) start ss) tj tj'"
proof (induction ss arbitrary: start tj)
  case Nil
  then show ?case by (simp add: extended_Nil)
next
  case (Cons s ss)
  then obtain e1 tj1 where first: "join_sample (fr_bytes (fs ! fi)) fi strip s (start, tj) = Inr (e1, tj1)"
    and rest: "for_each ss (join_sample (fr_bytes (fs ! fi)) fi strip) (e1, tj1) = Inr (e, tj')"
    by (auto simp: and_then_Inr)
  note one = join_sample_extends [OF Cons.prems(1) first]
  have "extended fs strip ss (run_payloads (fr_bytes (fs ! fi)) (start + sm_size s) ss) tj1 tj'"
    using Cons.IH [OF Cons.prems(1) rest] one(1) by simp
  from extended_append [OF one(2) this] show ?case by simp
qed

lemma join_runs_extend:
  "fi < length fs \<Longrightarrow> for_each rns (join_run (fr_bytes (fs ! fi)) fi strip) tj = Inr tj' \<Longrightarrow>
   extended fs strip (concat (map rn_samples rns)) (runs_payloads (fr_bytes (fs ! fi)) rns) tj tj'"
proof (induction rns arbitrary: tj)
  case Nil
  then show ?case by (simp add: extended_Nil runs_payloads_def)
next
  case (Cons rn rns)
  then obtain tj1 where one: "join_run (fr_bytes (fs ! fi)) fi strip rn tj = Inr tj1"
    and rest: "for_each rns (join_run (fr_bytes (fs ! fi)) fi strip) tj1 = Inr tj'"
    by (auto simp: and_then_Inr)
  from one obtain e where first: "for_each (rn_samples rn) (join_sample (fr_bytes (fs ! fi)) fi strip) (rn_data_offset rn, tj) = Inr (e, tj1)"
    by (auto simp: and_then_Inr join_run_def)
  show ?case
    using extended_append [OF join_samples_extend [OF Cons.prems(1) first] Cons.IH [OF Cons.prems(1) rest]]
    by (simp add: runs_payloads_def)
qed

section \<open>One track\<close>

abbreviation timeless :: "sample \<Rightarrow> 32 word \<times> int" where
  "timeless s \<equiv> (sm_flags s, sm_cto s)"

definition joined :: "fragment list \<Rightarrow> nat option \<Rightarrow> nat \<Rightarrow> fragment list \<Rightarrow> track_join \<Rightarrow> bool" where
  "joined fs strip i done tj \<longleftrightarrow>
     map timeless (tj_samples tj) = map timeless (track_samples done i) \<and>
     map sm_size (tj_samples tj) = map ml_output_len (tj_slices tj) \<and>
     map (slice_source fs) (tj_slices tj) = track_payloads done i \<and>
     (\<forall>sl \<in> set (tj_slices tj). slice_ok fs strip sl) \<and>
     tj_base tj = start_time done i \<and> tj_expected_next tj = expected_time done i \<and>
     (\<forall>s \<in> set (tj_samples tj). sm_duration s \<le> U32_MAX) \<and>
     (gapless done i \<longrightarrow> map sm_duration (tj_samples tj) = map sm_duration (track_samples done i))"

lemma absorb_join_keeps:
  "map timeless (tj_samples (absorb_join t tj)) = map timeless (tj_samples tj)"
  "map sm_size (tj_samples (absorb_join t tj)) = map sm_size (tj_samples tj)"
  "tj_slices (absorb_join t tj) = tj_slices tj" "tj_base (absorb_join t tj) = tj_base tj"
  "tj_expected_next (absorb_join t tj) = tj_expected_next tj"
  "\<forall>s \<in> set (tj_samples tj). sm_duration s \<le> U32_MAX \<Longrightarrow> \<forall>s \<in> set (tj_samples (absorb_join t tj)). sm_duration s \<le> U32_MAX"
  "(case tj_expected_next tj of None \<Rightarrow> True | Some e \<Rightarrow> t = e) \<Longrightarrow> tj_samples (absorb_join t tj) = tj_samples tj"
proof -
  have last1: "map f (butlast ss @ [x]) = map f ss" if "ss \<noteq> []" "f x = f (last ss)" for f :: "sample \<Rightarrow> 'b" and ss x
    using that by (metis append_butlast_last_id list.simps(8,9) map_append)
  show "map timeless (tj_samples (absorb_join t tj)) = map timeless (tj_samples tj)"
    "map sm_size (tj_samples (absorb_join t tj)) = map sm_size (tj_samples tj)"
    by (auto simp: absorb_join_def Let_def last1 simp del: map_append split: option.split)
  show "tj_slices (absorb_join t tj) = tj_slices tj" "tj_base (absorb_join t tj) = tj_base tj"
    "tj_expected_next (absorb_join t tj) = tj_expected_next tj"
    by (auto simp: absorb_join_def Let_def split: option.split)
  show "\<forall>s \<in> set (tj_samples tj). sm_duration s \<le> U32_MAX \<Longrightarrow> \<forall>s \<in> set (tj_samples (absorb_join t tj)). sm_duration s \<le> U32_MAX"
    by (auto simp: absorb_join_def Let_def split: option.split dest: in_set_butlastD)
  show "(case tj_expected_next tj of None \<Rightarrow> True | Some e \<Rightarrow> t = e) \<Longrightarrow> tj_samples (absorb_join t tj) = tj_samples tj"
    by (auto simp: absorb_join_def split: option.splits)
qed

text \<open>The fields of a source are those of its integer types; the offsets fit the signed field of the writer.\<close>

definition source_sample_fits :: "sample \<Rightarrow> bool" where
  "source_sample_fits s \<longleftrightarrow> sm_duration s \<le> U32_MAX \<and> - 2147483648 \<le> sm_cto s \<and> sm_cto s \<le> 2147483647"

definition fragment_fits :: "fragment \<Rightarrow> bool" where
  "fragment_fits f \<longleftrightarrow> (\<forall>tf \<in> set (fr_tracks f). 0 < tf_track_id tf \<and> tf_track_id tf \<le> U32_MAX \<and>
     tf_base_decode_time tf \<le> U64_MAX \<and> (\<forall>s \<in> set (tf_samples tf). source_sample_fits s))"

lemma fragment_track_Some: "fragment_track f i = Some tf \<Longrightarrow> tf \<in> set (fr_tracks f) \<and> tf_track_id tf = i"
  by (auto simp: fragment_track_def find_Some_iff)

lemma extended_parts:
  assumes "extended fs strip ss payloads tj tj'"
  obtains sls where "length sls = length ss" "map (slice_source fs) sls = payloads" "\<forall>sl \<in> set sls. slice_ok fs strip sl"
    "tj_samples tj' = tj_samples tj @ map2 (\<lambda>s sl. s\<lparr> sm_size := ml_output_len sl \<rparr>) ss sls"
    "tj_slices tj' = tj_slices tj @ sls" "tj_base tj' = tj_base tj" "tj_expected_next tj' = tj_expected_next tj"
  using assms unfolding extended_def by (elim exE conjE) (rule that, simp_all)

lemma map2_sized:
  assumes "length sls = length ss"
  shows "map timeless (map2 (\<lambda>s sl. s\<lparr> sm_size := ml_output_len sl \<rparr>) ss sls) = map timeless ss"
    and "map sm_duration (map2 (\<lambda>s sl. s\<lparr> sm_size := ml_output_len sl \<rparr>) ss sls) = map sm_duration ss"
    and "map sm_size (map2 (\<lambda>s sl. s\<lparr> sm_size := ml_output_len sl \<rparr>) ss sls) = map ml_output_len sls"
  using assms by (induction ss sls rule: list_induct2') simp_all

definition strip_for :: "(nat \<times> nat) option \<Rightarrow> nat \<Rightarrow> nat option" where
  "strip_for strip i = (case strip of Some (track, lsz) \<Rightarrow> if track = i then Some lsz else None | None \<Rightarrow> None)"

lemma join_fragment_step:
  assumes "fs = done @ f # todo" and "joined fs (strip_for strip i) i done tj" and "fragment_fits f"
    and "join_fragment i strip (length done, f) tj = Inr tj'"
  shows "joined fs (strip_for strip i) i (done @ [f]) tj'"
proof (cases "fragment_track f i")
  case None
  then show ?thesis
    using assms(2,4)
    by (simp add: join_fragment_def joined_def track_snoc start_time_snoc next_time_def fragment_payloads_def fragment_samples_def
        split: option.split)
next
  case (Some tf)
  have nth: "fs ! length done = f" "length done < length fs" using assms(1) by simp_all
  define tj0 where "tj0 = (case tj_base tj of
      None \<Rightarrow> tj\<lparr> tj_base := Some (tf_base_decode_time tf) \<rparr> | Some _ \<Rightarrow> absorb_join (tf_base_decode_time tf) tj)"
  obtain tj1 where runs: "for_each (tf_runs tf) (join_run (fr_bytes f) (length done) (strip_for strip i)) tj0 = Inr tj1"
    and tj': "tj' = tj1\<lparr> tj_expected_next := Some (end_time tf) \<rparr>"
    using assms(4) Some by (auto simp: join_fragment_def strip_for_def tj0_def Let_def and_then_Inr end_time_def)
  have ext: "extended fs (strip_for strip i) (tf_samples tf) (runs_payloads (fr_bytes f) (tf_runs tf)) tj0 tj1"
    using join_runs_extend [of "length done" fs "tf_runs tf" "strip_for strip i" tj0 tj1] nth runs by (simp add: tf_samples_def)
  obtain sls where sls: "length sls = length (tf_samples tf)" "map (slice_source fs) sls = runs_payloads (fr_bytes f) (tf_runs tf)"
      "\<forall>sl \<in> set sls. slice_ok fs (strip_for strip i) sl"
      "tj_samples tj1 = tj_samples tj0 @ map2 (\<lambda>s sl. s\<lparr> sm_size := ml_output_len sl \<rparr>) (tf_samples tf) sls"
      "tj_slices tj1 = tj_slices tj0 @ sls" "tj_base tj1 = tj_base tj0" "tj_expected_next tj1 = tj_expected_next tj0"
    using extended_parts [OF ext] by metis
  have joined: "map timeless (tj_samples tj) = map timeless (track_samples done i)"
    "map sm_size (tj_samples tj) = map ml_output_len (tj_slices tj)"
    "map (slice_source fs) (tj_slices tj) = track_payloads done i" "\<forall>sl \<in> set (tj_slices tj). slice_ok fs (strip_for strip i) sl"
    "tj_base tj = start_time done i" "tj_expected_next tj = expected_time done i" "\<forall>s \<in> set (tj_samples tj). sm_duration s \<le> U32_MAX"
    "gapless done i \<Longrightarrow> map sm_duration (tj_samples tj) = map sm_duration (track_samples done i)"
    using assms(2) by (simp_all add: joined_def)
  note absorb = absorb_join_keeps [where t = "tf_base_decode_time tf" and tj = tj]
  have tj0: "map timeless (tj_samples tj0) = map timeless (tj_samples tj)" "map sm_size (tj_samples tj0) = map sm_size (tj_samples tj)"
    "tj_slices tj0 = tj_slices tj" "tj_base tj0 = start_time (done @ [f]) i"
    "\<forall>s \<in> set (tj_samples tj0). sm_duration s \<le> U32_MAX"
    using absorb(1-4) absorb(6) [OF joined(7)] joined(5,7) Some
    by (auto simp: tj0_def start_time_snoc simp del: list_eq_iff_nth_eq split: option.splits)
  have kept: "tj_samples tj0 = tj_samples tj" if "gapless (done @ [f]) i"
    using absorb(7) that joined(6) Some by (auto simp: tj0_def track_snoc split: option.splits)
  have fits: "\<forall>s \<in> set (tf_samples tf). sm_duration s \<le> U32_MAX"
    using assms(3) fragment_track_Some [OF Some] by (auto simp: fragment_fits_def source_sample_fits_def)
  obtain sized where sized: "sized = map2 (\<lambda>s sl. s\<lparr> sm_size := ml_output_len sl \<rparr>) (tf_samples tf) sls" by simp
  note s = map2_sized [OF sls(1), folded sized] and new = sls(4) [folded sized]
  have "\<forall>d \<in> set (map sm_duration sized). d \<le> U32_MAX" unfolding s(2) using fits by simp
  then have "\<forall>s \<in> set sized. sm_duration s \<le> U32_MAX" by simp
  then show ?thesis
    using joined tj0 kept sls(2,3,5,6) s new Some
    by (simp add: joined_def tj' track_snoc next_time_def fragment_payloads_def fragment_samples_def ball_Un)
qed

lemma join_fragments:
  assumes "\<forall>f \<in> set fs. fragment_fits f"
  shows "fs = done @ todo \<Longrightarrow> joined fs (strip_for strip i) i done tj \<Longrightarrow>
    for_each (enumerate (length done) todo) (join_fragment i strip) tj = Inr tj' \<Longrightarrow> joined fs (strip_for strip i) i fs tj'"
proof (induction todo arbitrary: "done" tj)
  case (Cons f todo)
  then obtain tj1 where one: "join_fragment i strip (length done, f) tj = Inr tj1"
    and rest: "for_each (enumerate (length (done @ [f])) todo) (join_fragment i strip) tj1 = Inr tj'"
    by (auto simp: and_then_Inr)
  have "joined fs (strip_for strip i) i (done @ [f]) tj1"
    by (rule join_fragment_step [OF Cons.prems(1,2) _ one]) (use assms Cons.prems(1) in simp)
  with Cons.IH [of "done @ [f]" tj1] rest Cons.prems(1) show ?case by simp
qed simp

section \<open>The plans\<close>

definition plan_carries :: "fragment list \<Rightarrow> (nat \<times> nat) option \<Rightarrow> merge_plan \<Rightarrow> bool" where
  "plan_carries fs strip p \<longleftrightarrow> (let i = mp_track_id p in
     map timeless (mp_samples p) = map timeless (track_samples fs i) \<and>
     map sm_size (mp_samples p) = map ml_output_len (mp_slices p) \<and>
     map (slice_source fs) (mp_slices p) = track_payloads fs i \<and>
     (\<forall>sl \<in> set (mp_slices p). slice_ok fs (strip_for strip i) sl) \<and>
     Some (mp_base_decode_time p) = start_time fs i \<and>
     (\<forall>s \<in> set (mp_samples p). sm_duration s \<le> U32_MAX) \<and>
     (gapless fs i \<longrightarrow> map sm_duration (mp_samples p) = map sm_duration (track_samples fs i)))"

lemma plan_track_carries:
  assumes "\<forall>f \<in> set fs. fragment_fits f" and "plan_track fs strip i (plans, n) = Inr (plans', n')"
  shows "if track_samples fs i = [] then plans' = plans
    else \<exists>p. plans' = plans @ [p] \<and> mp_track_id p = i \<and> plan_carries fs strip p"
proof -
  obtain tj where each: "for_each (enumerate 0 fs) (join_fragment i strip)
      \<lparr> tj_samples = [], tj_slices = [], tj_base = None, tj_expected_next = None, tj_adjustments = n \<rparr> = Inr tj"
    and plans': "plans' = (case tj_base tj of
               Some base \<Rightarrow>
                 if tj_samples tj = [] then plans
                 else plans @ [\<lparr> mp_track_id = i, mp_base_decode_time = base, mp_samples = tj_samples tj, mp_slices = tj_slices tj \<rparr>]
             | None \<Rightarrow> plans)"
    using assms(2) by (auto simp: plan_track_def and_then_Inr)
  have "joined fs (strip_for strip i) i []
      \<lparr> tj_samples = [], tj_slices = [], tj_base = None, tj_expected_next = None, tj_adjustments = n \<rparr>"
    by (simp add: joined_def track_samples_def track_payloads_def start_time_def expected_time_def List.map_filter_def)
  then have "joined fs (strip_for strip i) i fs tj"
    using join_fragments [OF assms(1), of "[]" fs strip i _ tj] each by simp
  then have j: "map timeless (tj_samples tj) = map timeless (track_samples fs i)"
    "map sm_size (tj_samples tj) = map ml_output_len (tj_slices tj)"
    "map (slice_source fs) (tj_slices tj) = track_payloads fs i" "\<forall>sl \<in> set (tj_slices tj). slice_ok fs (strip_for strip i) sl"
    "tj_base tj = start_time fs i" "\<forall>s \<in> set (tj_samples tj). sm_duration s \<le> U32_MAX"
    "gapless fs i \<longrightarrow> map sm_duration (tj_samples tj) = map sm_duration (track_samples fs i)"
    by (simp_all add: joined_def)
  have empty: "tj_samples tj = [] \<longleftrightarrow> track_samples fs i = []" using arg_cong [OF j(1), of length] by (simp flip: length_0_conv)
  have "tj_base tj \<noteq> None" if "track_samples fs i \<noteq> []"
  proof -
    from that have "\<not> (\<forall>f \<in> set fs. fragment_samples i f = [])" by (simp add: track_samples_def)
    then obtain f where "f \<in> set fs" "fragment_track f i \<noteq> None"
      by (auto simp: fragment_samples_def split: option.splits)
    then have "List.map_filter (\<lambda>f. fragment_track f i) fs \<noteq> []" by (auto simp: List.map_filter_def filter_empty_conv)
    then have "start_time fs i \<noteq> None" by (simp add: start_time_def split: list.split)
    then show ?thesis by (simp add: j(5))
  qed
  note present = this
  show ?thesis
  proof (cases "track_samples fs i = []")
    case True
    then show ?thesis using empty by (simp add: plans' split: option.split)
  next
    case False
    then obtain base where base: "tj_base tj = Some base" using present by auto
    let ?p = "\<lparr> mp_track_id = i, mp_base_decode_time = base, mp_samples = tj_samples tj, mp_slices = tj_slices tj \<rparr>"
    have "plans' = plans @ [?p]" using False empty base by (simp add: plans')
    moreover have "plan_carries fs strip ?p" using j base by (simp add: plan_carries_def)
    ultimately show ?thesis using False by (intro if_not_P [THEN iffD2] exI [of _ ?p]) simp_all
  qed
qed

lemma plan_tracks_carry:
  assumes "\<forall>f \<in> set fs. fragment_fits f"
  shows "for_each ids (plan_track fs strip) (plans, n) = Inr (plans', n') \<Longrightarrow>
    \<exists>new. plans' = plans @ new \<and> map mp_track_id new = filter (\<lambda>i. track_samples fs i \<noteq> []) ids \<and> (\<forall>p \<in> set new. plan_carries fs strip p)"
proof (induction ids arbitrary: plans n)
  case (Cons i ids)
  then obtain plans1 n1 where one: "plan_track fs strip i (plans, n) = Inr (plans1, n1)"
    and rest: "for_each ids (plan_track fs strip) (plans1, n1) = Inr (plans', n')"
    by (auto simp: and_then_Inr)
  from Cons.IH [OF rest] obtain new where new: "plans' = plans1 @ new"
    "map mp_track_id new = filter (\<lambda>i. track_samples fs i \<noteq> []) ids" "\<forall>p \<in> set new. plan_carries fs strip p"
    by blast
  show ?case
  proof (cases "track_samples fs i = []")
    case True
    then show ?thesis using plan_track_carries [OF assms one] new by auto
  next
    case False
    then obtain p where "plans1 = plans @ [p]" "mp_track_id p = i" "plan_carries fs strip p"
      using plan_track_carries [OF assms one] by auto
    then show ?thesis using new False by (intro exI [of _ "p # new"]) simp
  qed
qed simp

lemma track_union_fold:
  "distinct ids \<Longrightarrow> distinct (fold (\<lambda>t ids. if tf_track_id t \<in> set ids then ids else ids @ [tf_track_id t]) ts ids) \<and>
   set (fold (\<lambda>t ids. if tf_track_id t \<in> set ids then ids else ids @ [tf_track_id t]) ts ids) = set ids \<union> tf_track_id ` set ts"
  by (induction ts arbitrary: ids) auto

lemma track_union_facts:
  "distinct (track_union fs)" "set (track_union fs) = tf_track_id ` (\<Union>f \<in> set fs. set (fr_tracks f))"
  using track_union_fold [of "[]" "concat (map fr_tracks fs)"] by (auto simp: track_union_def)

section \<open>The bytes of the segment\<close>

text \<open>What a sample becomes on its way into the segment.\<close>

definition carried :: "nat option \<Rightarrow> byte list \<Rightarrow> byte list" where
  "carried strip source =
     (case strip of None \<Rightarrow> source
      | Some lsz \<Rightarrow> (case hevc_sample_without_parameter_sets source lsz of Inl e \<Rightarrow> [] | Inr kept \<Rightarrow> kept))"

lemma slice_payload_carried:
  assumes "slice_ok fs strip sl" and "slice_payload fs sl out = Inr out'"
  shows "out' = out @ carried strip (slice_source fs sl)" "length (carried strip (slice_source fs sl)) = ml_output_len sl"
proof -
  have e: "saturating_add_u64 (ml_start sl) (ml_source_len sl) = ml_start sl + ml_source_len sl"
    using assms(1) by (simp add: slice_ok_def saturating_add_u64_def)
  show "out' = out @ carried strip (slice_source fs sl)" "length (carried strip (slice_source fs sl)) = ml_output_len sl"
    using assms e
    by (auto simp: slice_payload_def slice_ok_def Let_def carried_def slice_source_def and_then_Inr split: option.splits if_splits)
qed

lemma slice_payloads_carried:
  "\<forall>sl \<in> set sls. slice_ok fs (ml_strip sl) sl \<Longrightarrow> for_each sls (slice_payload fs) out = Inr out' \<Longrightarrow>
   out' = out @ concat (map (\<lambda>sl. carried (ml_strip sl) (slice_source fs sl)) sls) \<and>
   (\<forall>sl \<in> set sls. length (carried (ml_strip sl) (slice_source fs sl)) = ml_output_len sl)"
proof (induction sls arbitrary: out)
  case (Cons sl sls)
  then obtain out1 where one: "slice_payload fs sl out = Inr out1" and rest: "for_each sls (slice_payload fs) out1 = Inr out'"
    by (auto simp: and_then_Inr)
  have "slice_ok fs (ml_strip sl) sl" using Cons.prems(1) by simp
  note head = slice_payload_carried [OF this one]
  show ?case using Cons.IH [OF _ rest] Cons.prems(1) head by simp
qed simp

end
