(* ===== verification/Fmp4Groups.thy ===== *)
theory Fmp4Groups
  imports Fmp4Segmenter Fmp4Joins
begin

text \<open>
  What a segmenter does with its fragments, one push at a time: the group of fragments behind every
  published segment, and the media of a track in a list of fragments, sample by sample with its
  decode time and its bytes. No group loses, repeats or moves a sample.
\<close>

section \<open>The media of a track\<close>

type_synonym medium = "nat \<times> sample \<times> byte list"

fun samples_media :: "byte list \<Rightarrow> nat \<Rightarrow> nat \<Rightarrow> sample list \<Rightarrow> medium list" where
  "samples_media bytes time start [] = []"
| "samples_media bytes time start (s # ss) =
     (time, forget_place s, take (sm_size s) (drop start bytes)) #
     samples_media bytes (wrapping_add_u64 time (sm_duration s)) (start + sm_size s) ss"

definition time_after :: "nat \<Rightarrow> sample list \<Rightarrow> nat" where
  "time_after time ss = fold (\<lambda>s t. wrapping_add_u64 t (sm_duration s)) ss time"

fun runs_media :: "byte list \<Rightarrow> nat \<Rightarrow> run list \<Rightarrow> medium list" where
  "runs_media bytes time [] = []"
| "runs_media bytes time (rn # rns) =
     samples_media bytes time (rn_data_offset rn) (rn_samples rn) @ runs_media bytes (time_after time (rn_samples rn)) rns"

definition fragment_media :: "nat \<Rightarrow> fragment \<Rightarrow> medium list" where
  "fragment_media i f = (case fragment_track f i of None \<Rightarrow> [] | Some tf \<Rightarrow> runs_media (fr_bytes f) (tf_base_decode_time tf) (tf_runs tf))"

definition media :: "nat \<Rightarrow> fragment list \<Rightarrow> medium list" where
  "media i fs = concat (map (fragment_media i) fs)"

lemma media_simps [simp]:
  "media i [] = []" "media i (f # fs) = fragment_media i f @ media i fs" "media i (fs @ gs) = media i fs @ media i gs"
  by (simp_all add: media_def)

lemma media_concat: "media i (concat fss) = concat (map (media i) fss)"
  by (induction fss) simp_all

lemma time_after_simps [simp]:
  "time_after t [] = t" "time_after t (s # ss) = time_after (wrapping_add_u64 t (sm_duration s)) ss"
  by (simp_all add: time_after_def)

lemma samples_media_append:
  "samples_media bytes t p (ss @ ts) =
     samples_media bytes t p ss @ samples_media bytes (time_after t ss) (p + (\<Sum>s \<leftarrow> ss. sm_size s)) ts"
  by (induction ss arbitrary: t p) (simp_all add: add.assoc)

lemma time_after_append: "time_after t (ss @ ts) = time_after (time_after t ss) ts"
  by (simp add: time_after_def)

lemma samples_media_forget [simp]: "samples_media bytes t p (map forget_place ss) = samples_media bytes t p ss"
  by (induction ss arbitrary: t p) (simp_all add: forget_place_def)

lemma time_after_forget [simp]: "time_after t (map forget_place ss) = time_after t ss"
  by (induction ss arbitrary: t) (simp_all add: forget_place_def)

text \<open>The bytes of a run may stand in another buffer, at another place.\<close>

lemma samples_media_moved:
  assumes "take (\<Sum>s \<leftarrow> ss. sm_size s) (drop p bytes) = take (\<Sum>s \<leftarrow> ss. sm_size s) (drop q bytes')"
  shows "samples_media bytes t p ss = samples_media bytes' t q ss"
  using assms
proof (induction ss arbitrary: t p q)
  case (Cons s ss)
  have "take (sm_size s) (take (\<Sum>s \<leftarrow> s # ss. sm_size s) (drop p bytes)) = take (sm_size s) (take (\<Sum>s \<leftarrow> s # ss. sm_size s) (drop q bytes'))"
    "drop (sm_size s) (take (\<Sum>s \<leftarrow> s # ss. sm_size s) (drop p bytes)) = drop (sm_size s) (take (\<Sum>s \<leftarrow> s # ss. sm_size s) (drop q bytes'))"
    using Cons.prems by simp_all
  then show ?case using Cons.IH [of "p + sm_size s" "q + sm_size s"] by (simp add: drop_take add.commute)
qed simp

lemma fragment_media_track: "fragment_track f i = None \<Longrightarrow> fragment_media i f = []"
  by (simp add: fragment_media_def)

section \<open>The step of a push\<close>

fun opt_list :: "'a option \<Rightarrow> 'a list" where
  "opt_list None = []"
| "opt_list (Some x) = [x]"

definition published_as :: "segmenter \<Rightarrow> published \<Rightarrow> fragment list \<Rightarrow> bool" where
  "published_as s p g \<longleftrightarrow> merge_retaining g (sr_init s) (sequence_of (pb_index p)) (sr_retain s) = Inr (pb_segment p)"

text \<open>What no operation changes.\<close>

definition settings :: "segmenter \<Rightarrow> init_segment \<times> cut_policy \<times> nat \<times> boundaries option \<times> bool \<times> bool" where
  "settings s = (sr_init s, sr_policy s, sr_video_timescale s, sr_boundaries s, sr_encoded_audio_boundaries s, sr_retain s)"

lemma on_film_time_frame:
  "on_film_time f s = (r, s') \<Longrightarrow> settings s' = settings s \<and> sr_next_index s' = sr_next_index s"
  by (auto simp: on_film_time_def learn_delta_def Let_def settings_def then_do_def split: option.splits sum.splits if_splits)

lemma flush_Inr:
  assumes "flush reason s = (Inr p, s')"
  shows "published_as s p (sr_pending s)" "pb_index p = sr_next_index s" "pb_reason p = reason" "settings s' = settings s"
    "sr_pending s' = []" "sr_next_index s' = wrapping_add_u64 (sr_next_index s) 1" "sr_media_time s' = sr_media_time s"
  using assms by (auto simp: flush_def Let_def published_as_def settings_def split: sum.splits)

lemma count_fragment_fields [simp]:
  "settings (count_fragment cls s) = settings s" "sr_pending (count_fragment cls s) = sr_pending s"
  "sr_next_index (count_fragment cls s) = sr_next_index s" "sr_media_time (count_fragment cls s) = sr_media_time s"
  "sr_init (count_fragment cls s) = sr_init s"
  by (simp_all add: count_fragment_def settings_def Let_def)

lemma accept_fields [simp]:
  "fst (accept f x s) = Inr x" "settings (snd (accept f x s)) = settings s" "sr_pending (snd (accept f x s)) = sr_pending s @ [f]"
  "sr_next_index (snd (accept f x s)) = sr_next_index s" "sr_media_time (snd (accept f x s)) = sr_media_time s"
  by (simp_all add: accept_def settings_def)

lemma split_encoded_audio_Inr:
  assumes "split_encoded_audio f s = (Inr g, s')"
  shows "settings s' = settings s" "sr_next_index s' = sr_next_index s" "sr_media_time s' = sr_media_time s"
    and "\<exists>prefix. sr_pending s' = sr_pending s @ prefix \<and>
      (prefix = [] \<and> g = f \<or>
       (\<exists>boundary opt. take_encoded_audio_before f (sr_init s) boundary (sr_video_timescale s) = Inr (opt, g) \<and>
          prefix = opt_list opt))"
proof -
  consider "s' = s" "g = f"
    | boundary opt where "take_encoded_audio_before f (sr_init s) boundary (sr_video_timescale s) = Inr (opt, g)"
        "settings s' = settings s" "sr_next_index s' = sr_next_index s" "sr_media_time s' = sr_media_time s"
        "sr_pending s' = sr_pending s @ opt_list opt"
    using assms by (fastforce simp: split_encoded_audio_def settings_def split: if_splits option.splits sum.splits)
  note c = this
  show "settings s' = settings s" by (cases rule: c) simp_all
  show "sr_next_index s' = sr_next_index s" by (cases rule: c) simp_all
  show "sr_media_time s' = sr_media_time s" by (cases rule: c) simp_all
  show "\<exists>prefix. sr_pending s' = sr_pending s @ prefix \<and>
      (prefix = [] \<and> g = f \<or>
       (\<exists>boundary opt. take_encoded_audio_before f (sr_init s) boundary (sr_video_timescale s) = Inr (opt, g) \<and>
          prefix = opt_list opt))"
    by (cases rule: c) (simp, blast)
qed

text \<open>A push either adds its fragment, or closes the pending run and opens the next one with it.\<close>

lemma push_fragment_Inr:
  assumes "push_fragment f s = (Inr r, s')"
  obtains f1 s1 where "on_film_time f s = (Inr f1, s1)" "settings s' = settings s" "sr_media_time s' = sr_media_time s1"
    and "segment_cut (count_fragment (classify f1 (sr_init s1)) s1) f1 (classify f1 (sr_init s1)) = Inr None \<and> r = None \<and>
         sr_pending s' = sr_pending s1 @ [f1] \<and> sr_next_index s' = sr_next_index s
       \<or> (\<exists>reason p f2 s2 prefix. r = Some p \<and>
         segment_cut (count_fragment (classify f1 (sr_init s1)) s1) f1 (classify f1 (sr_init s1)) = Inr (Some reason) \<and>
         split_encoded_audio f1 (count_fragment (classify f1 (sr_init s1)) s1) = (Inr f2, s2) \<and>
         sr_pending s2 = sr_pending s1 @ prefix \<and> published_as s p (sr_pending s1 @ prefix) \<and> pb_reason p = reason \<and>
         pb_index p = sr_next_index s \<and> sr_pending s' = [f2] \<and> sr_next_index s' = wrapping_add_u64 (sr_next_index s) 1)"
proof -
  obtain f1 s1 where film: "on_film_time f s = (Inr f1, s1)"
    using assms by (auto simp: push_fragment_def then_do_Inr)
  let ?cls = "classify f1 (sr_init s1)" let ?s = "count_fragment ?cls s1"
  have s1: "settings s1 = settings s" "sr_next_index s1 = sr_next_index s" using on_film_time_frame [OF film] by auto
  have same: "published_as x = published_as y" if "settings x = settings y" for x y
    using that by (simp add: published_as_def settings_def fun_eq_iff)
  obtain cut where cut: "segment_cut ?s f1 ?cls = Inr cut"
    using assms film by (cases "segment_cut ?s f1 ?cls") (auto simp: push_fragment_def Let_def)
  show ?thesis
  proof (cases cut)
    case None
    then have acc: "accept f1 None ?s = (Inr r, s')" using assms film cut by (simp add: push_fragment_def Let_def)
    have "r = None" "settings s' = settings s" "sr_pending s' = sr_pending s1 @ [f1]" "sr_next_index s' = sr_next_index s"
      "sr_media_time s' = sr_media_time s1"
      using accept_fields [of f1 "None :: published option" ?s] s1 unfolding acc by simp_all
    then show ?thesis using that [OF film] cut None by simp
  next
    case (Some reason)
    obtain f2 s2 p s3 where steps: "split_encoded_audio f1 ?s = (Inr f2, s2)" "flush reason s2 = (Inr p, s3)"
      "accept f2 (Some p) s3 = (Inr r, s')"
      using assms film cut Some by (auto simp: push_fragment_def Let_def then_do_Inr)
    obtain prefix where prefix: "sr_pending s2 = sr_pending s1 @ prefix"
      using split_encoded_audio_Inr(4) [OF steps(1)] by auto
    note split = split_encoded_audio_Inr(1-3) [OF steps(1)] and fl = flush_Inr [OF steps(2)]
    have "r = Some p" "settings s' = settings s" "sr_pending s' = [f2]" "sr_next_index s' = wrapping_add_u64 (sr_next_index s) 1"
      "sr_media_time s' = sr_media_time s1"
      using accept_fields [of f2 "Some p" s3] s1 split fl unfolding steps(3) by simp_all
    moreover have "published_as s p (sr_pending s1 @ prefix)" "pb_index p = sr_next_index s" "pb_reason p = reason"
      using fl(1-3) prefix split s1 same [of s2 s] by simp_all
    ultimately show ?thesis using that [OF film] cut Some steps(1) prefix by blast
  qed
qed


section \<open>Encoded audio moves, and nothing else\<close>

lemma samples_before_spec:
  "samples_before cutoff v ss time len n = Inr (time', len', n') \<Longrightarrow>
   \<exists>m. n' = n + m \<and> m \<le> length ss \<and> time' = time_after time (take m ss) \<and> len' = len + (\<Sum>s \<leftarrow> take m ss. sm_size s)"
proof (induction ss arbitrary: time len n)
  case (Cons s ss)
  show ?case
  proof (cases "cutoff \<le> time * v")
    case True
    then show ?thesis using Cons.prems by (intro exI [of _ 0]) simp
  next
    case False
    then have rest: "time + sm_duration s \<le> USIZE_MAX" "len + sm_size s \<le> USIZE_MAX"
      "samples_before cutoff v ss (time + sm_duration s) (len + sm_size s) (n + 1) = Inr (time', len', n')"
      using Cons.prems by (auto simp: checked_add_usize_def split: if_splits)
    from Cons.IH [OF rest(3)] obtain m where "n' = n + 1 + m" "m \<le> length ss"
      "time' = time_after (time + sm_duration s) (take m ss)" "len' = len + sm_size s + (\<Sum>s \<leftarrow> take m ss. sm_size s)" by blast
    then show ?thesis using rest(1) by (intro exI [of _ "Suc m"]) simp
  qed
qed simp

lemma runs_media_filter: "runs_media bytes t (filter (\<lambda>rn. rn_samples rn \<noteq> []) rns) = runs_media bytes t rns"
  by (induction rns arbitrary: t) simp_all

lemma run_moved:
  fixes off n :: nat
  assumes "length payload = (\<Sum>s \<leftarrow> ss. sm_size s)" and "payload = take (\<Sum>s \<leftarrow> ss. sm_size s) (drop off bytes)"
  shows "samples_media (out @ payload @ tail) t (length out) (map forget_place ss) = samples_media bytes t off ss"
  using assms by (auto intro!: samples_media_moved)

lemma take_runs_media:
  "take_runs cutoff v bytes rns time out = Inr (ts, ks, time', out') \<Longrightarrow>
   (\<exists>extra. out' = out @ extra) \<and> (ts = [] \<longrightarrow> time' = time \<and> out' = out) \<and>
   runs_media bytes time rns = runs_media (out' @ tail) time ts @ runs_media bytes time' ks"
proof (induction rns arbitrary: time out ts ks)
  case (Cons rn rns)
  obtain t1 len n where sb: "samples_before cutoff v (rn_samples rn) time 0 0 = Inr (t1, len, n)"
    using Cons.prems by (auto simp: and_then_Inr)
  let ?ss = "take n (rn_samples rn)"
  have n: "n \<le> length (rn_samples rn)" "t1 = time_after time ?ss" "len = (\<Sum>s \<leftarrow> ?ss. sm_size s)"
    using samples_before_spec [OF sb] by auto
  show ?case
  proof (cases "n = 0")
    case True
    then show ?thesis using Cons.prems sb n by simp
  next
    case False
    have place: "rn_data_offset rn + len \<le> length bytes" "rn_data_offset rn + len \<le> USIZE_MAX"
      using Cons.prems sb False by (auto simp: and_then_Inr checked_add_usize_def split: if_splits)
    let ?payload = "take len (drop (rn_data_offset rn) bytes)"
    let ?taken = "rn\<lparr> rn_data_offset_at := None, rn_data_offset := length out, rn_samples := map forget_place ?ss \<rparr>"
    let ?kept = "rn\<lparr> rn_data_offset := rn_data_offset rn + len, rn_data_offset_at := None, rn_samples := drop n (rn_samples rn) \<rparr>"
    have moved: "samples_media (out @ ?payload @ tail) time (length out) (map forget_place ?ss) = samples_media bytes time (rn_data_offset rn) ?ss" for tail
      using place(1) n(3) by (intro run_moved) simp_all
    have split: "samples_media bytes time (rn_data_offset rn) (rn_samples rn) =
        samples_media bytes time (rn_data_offset rn) ?ss @ samples_media bytes t1 (rn_data_offset rn + len) (drop n (rn_samples rn))"
      "time_after t1 (drop n (rn_samples rn)) = time_after time (rn_samples rn)"
      using samples_media_append [of bytes time "rn_data_offset rn" ?ss "drop n (rn_samples rn)"]
        time_after_append [of time ?ss "drop n (rn_samples rn)"] n by simp_all
    show ?thesis
    proof (cases "drop n (rn_samples rn) = []")
      case False
      then have "ts = [?taken]" "ks = ?kept # rns" "time' = t1" "out' = out @ ?payload"
        using Cons.prems sb place \<open>n \<noteq> 0\<close> by (auto simp: checked_add_usize_def Let_def)
      then show ?thesis using moved [of tail] split by simp
    next
      case True
      then obtain ts' ks' where rest: "take_runs cutoff v bytes rns t1 (out @ ?payload) = Inr (ts', ks', time', out')"
        "ts = ?taken # ts'" "ks = ?kept # ks'"
        using Cons.prems sb place \<open>n \<noteq> 0\<close> by (auto simp: checked_add_usize_def Let_def and_then_Inr)
      from Cons.IH [OF rest(1)] obtain extra where extra: "out' = (out @ ?payload) @ extra"
        and IH: "runs_media bytes t1 rns = runs_media (out' @ tail) t1 ts' @ runs_media bytes time' ks'" by blast
      have "t1 = time_after time (rn_samples rn)" using split(2) unfolding True by simp
      moreover have "time_after time (map forget_place ?ss) = t1" by (simp add: n(2) [symmetric])
      moreover have "runs_media bytes time (rn # rns) = samples_media bytes time (rn_data_offset rn) ?ss @ runs_media bytes (time_after time (rn_samples rn)) rns"
        using split(1) unfolding True by simp
      ultimately show ?thesis using moved [of "extra @ tail"] rest(2) rest(3) [unfolded True] extra IH by simp
    qed
  qed
qed simp


text \<open>The media of a list of track fragments over one buffer.\<close>

definition tracks_media :: "byte list \<Rightarrow> nat \<Rightarrow> track_fragment list \<Rightarrow> medium list" where
  "tracks_media bytes i tfs =
     (case find (\<lambda>t. tf_track_id t = i) tfs of None \<Rightarrow> [] | Some tf \<Rightarrow> runs_media bytes (tf_base_decode_time tf) (tf_runs tf))"

lemma fragment_media_tracks: "fragment_media i f = tracks_media (fr_bytes f) i (fr_tracks f)"
  by (simp add: fragment_media_def tracks_media_def fragment_track_def)

lemma find_append: "find P (xs @ ys) = (case find P xs of Some x \<Rightarrow> Some x | None \<Rightarrow> find P ys)"
  by (induction xs) simp_all

lemma tracks_media_snoc:
  "tf_track_id tf \<notin> set (map tf_track_id tfs) \<Longrightarrow>
   tracks_media bytes i (tfs @ [tf]) =
     (if tf_track_id tf = i then runs_media bytes (tf_base_decode_time tf) (tf_runs tf) else tracks_media bytes i tfs)"
  by (induction tfs) (auto simp: tracks_media_def)

lemma tracks_media_absent: "i \<notin> set (map tf_track_id tfs) \<Longrightarrow> tracks_media bytes i tfs = []"
  by (induction tfs) (auto simp: tracks_media_def)

lemma runs_media_empty: "\<forall>rn \<in> set rns. rn_samples rn = [] \<Longrightarrow> runs_media bytes t rns = []"
  by (induction rns arbitrary: t) simp_all

lemma tracks_media_filter:
  "distinct (map tf_track_id tfs) \<Longrightarrow>
   tracks_media bytes i (filter (\<lambda>t. 0 < tf_sample_count t) tfs) = tracks_media bytes i tfs"
proof (induction tfs)
  case (Cons tf tfs)
  have absent: "tracks_media bytes i (filter (\<lambda>t. 0 < tf_sample_count t) tfs) = []" if "tf_track_id tf = i"
    using Cons.prems that by (intro tracks_media_absent) auto
  show ?case
  proof (cases "0 < tf_sample_count tf")
    case True
    then show ?thesis using Cons by (simp add: tracks_media_def)
  next
    case False
    then have "runs_media bytes t (tf_runs tf) = []" for t by (intro runs_media_empty) (auto simp: tf_sample_count_def)
    then show ?thesis using False Cons absent by (auto simp: tracks_media_def)
  qed
qed simp

text \<open>The loop of \<open>take_encoded_audio_before\<close> over the tracks seen so far.\<close>

definition carries_audio :: "init_segment \<Rightarrow> nat \<Rightarrow> bool" where
  "carries_audio ini i \<longleftrightarrow> (\<exists>info \<in> set (in_tracks ini). tr_id info = i \<and> tr_kind info = Audio)"

definition prefix_ok :: "init_segment \<Rightarrow> byte list \<Rightarrow> track_fragment list \<Rightarrow> prefix_state \<Rightarrow> bool" where
  "prefix_ok ini bytes seen st = (case st of (out, taken, left) \<Rightarrow>
     map tf_track_id left = map tf_track_id seen \<and> distinct (map tf_track_id taken) \<and> set (map tf_track_id taken) \<subseteq> set (map tf_track_id seen) \<and>
     (\<forall>tf \<in> set taken. carries_audio ini (tf_track_id tf)) \<and>
     (\<forall>i. \<not> carries_audio ini i \<longrightarrow> find (\<lambda>t. tf_track_id t = i) left = find (\<lambda>t. tf_track_id t = i) seen) \<and>
     (\<forall>tail i. tracks_media bytes i seen = tracks_media (out @ tail) i taken @ tracks_media bytes i left))"

lemma prefix_ok_kept:
  assumes "prefix_ok ini bytes seen (out, taken, left)" and "tf_track_id tf \<notin> set (map tf_track_id seen)"
  shows "prefix_ok ini bytes (seen @ [tf]) (out, taken, left @ [tf])"
proof -
  have left: "tf_track_id tf \<notin> set (map tf_track_id left)" and taken: "tf_track_id tf \<notin> set (map tf_track_id taken)"
    using assms by (auto simp: prefix_ok_def)
  have "tracks_media b (tf_track_id tf) taken = []" for b using taken by (rule tracks_media_absent)
  then show ?thesis
    using assms tracks_media_snoc [OF assms(2)] tracks_media_snoc [OF left] by (auto simp: prefix_ok_def find_append)
qed

lemma prefix_ok_split:
  assumes "prefix_ok ini bytes seen (out, taken, left)" and new: "tf_track_id tf \<notin> set (map tf_track_id seen)"
    and same: "tf_track_id t1 = tf_track_id tf" "tf_track_id t2 = tf_track_id tf"
    and audio: "carries_audio ini (tf_track_id tf)"
    and moved: "\<And>tail. runs_media bytes (tf_base_decode_time tf) (tf_runs tf) =
      runs_media ((out @ extra) @ tail) (tf_base_decode_time t1) (tf_runs t1) @ runs_media bytes (tf_base_decode_time t2) (tf_runs t2)"
  shows "prefix_ok ini bytes (seen @ [tf]) (out @ extra, taken @ [t1], left @ [t2])"
proof -
  have left: "tf_track_id t2 \<notin> set (map tf_track_id left)" and taken: "tf_track_id t1 \<notin> set (map tf_track_id taken)"
    using assms by (auto simp: prefix_ok_def)
  have old: "tracks_media bytes i seen = tracks_media ((out @ extra) @ tail) i taken @ tracks_media bytes i left" for i tail
    using assms(1) by (simp add: prefix_ok_def)
  have "tracks_media bytes i (seen @ [tf]) = tracks_media ((out @ extra) @ tail) i (taken @ [t1]) @ tracks_media bytes i (left @ [t2])" for i tail
    unfolding tracks_media_snoc [OF new] tracks_media_snoc [OF left] tracks_media_snoc [OF taken] same
    using moved [of tail] old [of i tail] by simp
  moreover have "find (\<lambda>t. tf_track_id t = i) (left @ [t2]) = find (\<lambda>t. tf_track_id t = i) (seen @ [tf])" if "\<not> carries_audio ini i" for i
  proof -
    have "tf_track_id tf \<noteq> i" using that audio by auto
    then show ?thesis using assms(1) that same by (simp add: prefix_ok_def find_append split: option.splits)
  qed
  ultimately show ?thesis using assms by (auto simp: prefix_ok_def)
qed

lemma take_track_ok:
  assumes "take_track ini boundary v bytes tf st = Inr st'" and "prefix_ok ini bytes seen st"
    and new: "tf_track_id tf \<notin> set (map tf_track_id seen)"
  shows "prefix_ok ini bytes (seen @ [tf]) st'"
proof -
  obtain out taken left where st: "st = (out, taken, left)" by (cases st)
  note kept = prefix_ok_kept [OF assms(2) [unfolded st] new]
  show ?thesis
  proof (cases "find (\<lambda>info. tr_id info = tf_track_id tf \<and> tr_kind info = Audio) (in_tracks ini)")
    case None
    then have "st' = (out, taken, left @ [tf])" using assms(1) st by (simp add: take_track_def)
    then show ?thesis using kept by simp
  next
    case (Some info)
    then have audio: "carries_audio ini (tf_track_id tf)"
      by (auto simp: find_Some_iff carries_audio_def)
    obtain ts ks time out' where runs:
      "take_runs (boundary * tr_timescale info) v bytes (tf_runs tf) (tf_base_decode_time tf) out = Inr (ts, ks, time, out')"
      using assms(1) Some st by (auto simp: take_track_def and_then_Inr)
    note m = take_runs_media [OF runs]
    obtain extra where extra: "out' = out @ extra" using m by blast
    show ?thesis
    proof (cases "ts = []")
      case True
      then have "st' = (out, taken, left @ [tf])" using assms(1) Some st runs m by (simp add: take_track_def)
      then show ?thesis using kept by simp
    next
      case False
      then have st': "st' = (out @ extra, taken @ [tf\<lparr> tf_runs := ts \<rparr>],
          left @ [tf\<lparr> tf_base_decode_time := time, tf_runs := filter (\<lambda>rn. rn_samples rn \<noteq> []) ks \<rparr>])"
        using assms(1) Some st runs extra by (simp add: take_track_def)
      show ?thesis unfolding st'
        by (rule prefix_ok_split [OF assms(2) [unfolded st] new _ _ audio]) (use m extra in \<open>simp_all add: runs_media_filter\<close>)
    qed
  qed
qed

lemma take_tracks_ok:
  "for_each tfs (take_track ini boundary v bytes) st = Inr st' \<Longrightarrow> prefix_ok ini bytes seen st \<Longrightarrow>
   distinct (map tf_track_id (seen @ tfs)) \<Longrightarrow> prefix_ok ini bytes (seen @ tfs) st'"
proof (induction tfs arbitrary: st seen)
  case (Cons tf tfs)
  obtain st1 where st1: "take_track ini boundary v bytes tf st = Inr st1" "for_each tfs (take_track ini boundary v bytes) st1 = Inr st'"
    using Cons.prems(1) by (auto simp: and_then_Inr)
  have "prefix_ok ini bytes (seen @ [tf]) st1" using take_track_ok [OF st1(1) Cons.prems(2)] Cons.prems(3) by auto
  from Cons.IH [OF st1(2) this] Cons.prems(3) show ?case by simp
qed simp

lemma find_kept:
  "find (\<lambda>t. tf_track_id t = j) tfs = Some tf \<Longrightarrow> distinct (map tf_track_id tfs) \<Longrightarrow> P tf \<Longrightarrow>
   find (\<lambda>t. tf_track_id t = j) (filter P tfs) = Some tf"
  by (induction tfs) (auto split: if_splits)

lemma take_encoded_audio_media:
  assumes "take_encoded_audio_before f ini boundary v = Inr (opt, g)" and distinct: "distinct (map tf_track_id (fr_tracks f))"
  shows "media i (opt_list opt) @ fragment_media i g = fragment_media i f"
    and "x \<in> set (opt_list opt) \<Longrightarrow> tf \<in> set (fr_tracks x) \<Longrightarrow> carries_audio ini (tf_track_id tf)"
    and "\<not> carries_audio ini j \<Longrightarrow> \<forall>tf \<in> set (fr_tracks f). 0 < tf_sample_count tf \<Longrightarrow> fragment_track g j = fragment_track f j"
proof -
  obtain out taken left where loop: "for_each (fr_tracks f) (take_track ini boundary v (fr_bytes f)) ([], [], []) = Inr (out, taken, left)"
    and opt: "opt = (if taken = [] then None else Some \<lparr> fr_bytes = out, fr_mdat_payload = (0, length out), fr_tracks = taken \<rparr>)"
    and g: "g = f\<lparr> fr_tracks := filter (\<lambda>t. 0 < tf_sample_count t) left \<rparr>"
    using assms(1) by (auto simp: take_encoded_audio_before_def and_then_Inr)
  have "prefix_ok ini (fr_bytes f) [] ([], [], [])" by (simp add: prefix_ok_def tracks_media_def)
  from take_tracks_ok [OF loop this] distinct have ok: "prefix_ok ini (fr_bytes f) (fr_tracks f) (out, taken, left)" by simp
  then have d: "distinct (map tf_track_id left)" using distinct by (simp add: prefix_ok_def)
  have "tracks_media (fr_bytes f) i (fr_tracks f) = tracks_media (out @ []) i taken @ tracks_media (fr_bytes f) i left"
    using ok unfolding prefix_ok_def by blast
  then have m: "tracks_media (fr_bytes f) i (fr_tracks f) = tracks_media out i taken @ tracks_media (fr_bytes f) i left" by simp
  have "media i (opt_list opt) = tracks_media out i taken"
    by (simp add: opt fragment_media_tracks tracks_media_def)
  moreover have "fragment_media i g = tracks_media (fr_bytes f) i left"
    by (simp add: g fragment_media_tracks tracks_media_filter [OF d])
  ultimately show "media i (opt_list opt) @ fragment_media i g = fragment_media i f"
    using m by (simp add: fragment_media_tracks)
  show "x \<in> set (opt_list opt) \<Longrightarrow> tf \<in> set (fr_tracks x) \<Longrightarrow> carries_audio ini (tf_track_id tf)"
    using ok by (auto simp: opt prefix_ok_def split: if_splits)
  show "fragment_track g j = fragment_track f j" if "\<not> carries_audio ini j" "\<forall>tf \<in> set (fr_tracks f). 0 < tf_sample_count tf"
  proof -
    have same: "find (\<lambda>t. tf_track_id t = j) left = find (\<lambda>t. tf_track_id t = j) (fr_tracks f)" using ok that(1) by (simp add: prefix_ok_def)
    have "find (\<lambda>t. tf_track_id t = j) (filter (\<lambda>t. 0 < tf_sample_count t) left) = find (\<lambda>t. tf_track_id t = j) left"
    proof (cases "find (\<lambda>t. tf_track_id t = j) left")
      case None
      then have "find (\<lambda>t. tf_track_id t = j) (filter (\<lambda>t. 0 < tf_sample_count t) left) = None" by (auto simp: find_None_iff)
      then show ?thesis using None by simp
    next
      case (Some tf)
      then have "tf \<in> set (fr_tracks f)" using same by (auto simp: find_Some_iff)
      then show ?thesis using that(2) find_kept [OF Some d] Some by simp
    qed
    then show ?thesis using same by (simp add: g fragment_track_def)
  qed
qed

end
