(* ===== verification/Fmp4Planned.thy ===== *)
theory Fmp4Planned
  imports Fmp4Groups
begin

text \<open>
  A whole run of a segmenter: what it published, from which fragments, and what it still holds. The
  invariant follows every push; a planned generation in addition keeps each group between the two
  boundaries of its plan entry.
\<close>

section \<open>Clocks\<close>

lemma scale_ticks_ceil:
  assumes "ticks \<le> U64_MAX" and "from_ts \<le> U32_MAX" and "to_ts \<le> U32_MAX"
  shows "scale_ticks ticks from_ts to_ts = min ((ticks * max to_ts 1 + (max from_ts 1 - 1)) div max from_ts 1) U64_MAX"
proof -
  have "ticks * max to_ts 1 \<le> U64_MAX * U32_MAX" using assms by (intro mult_le_mono) auto
  then have "ticks * max to_ts 1 + (max from_ts 1 - 1) \<le> U128_MAX" "ticks * max to_ts 1 \<le> U128_MAX" using assms(2) by auto
  then show ?thesis by (simp add: scale_ticks_def Let_def)
qed

lemma scale_ticks_same: "ticks \<le> U64_MAX \<Longrightarrow> ts \<le> U32_MAX \<Longrightarrow> scale_ticks ticks ts ts = ticks"
proof -
  assume *: "ticks \<le> U64_MAX" "ts \<le> U32_MAX"
  define d where "d = max ts 1"
  have "0 < d" by (simp add: d_def)
  then have "(ticks * d + (d - 1)) div d = ticks + (d - 1) div d" by (intro div_mult_self3) simp
  then have "(ticks * d + (d - 1)) div d = ticks" using \<open>0 < d\<close> by simp
  then show ?thesis using * unfolding scale_ticks_ceil [OF *(1,2,2)] d_def by simp
qed

text \<open>Between two clocks an interval grows by less than one tick of the clock it is scaled to.\<close>

lemma scale_ticks_less_than_a_tick:
  assumes "ticks \<le> U64_MAX" and "from_ts \<le> U32_MAX" and "to_ts \<le> U32_MAX" and "scale_ticks ticks from_ts to_ts < U64_MAX"
  shows "ticks * max to_ts 1 \<le> scale_ticks ticks from_ts to_ts * max from_ts 1"
    and "scale_ticks ticks from_ts to_ts * max from_ts 1 < ticks * max to_ts 1 + max from_ts 1"
proof -
  define d where "d = max from_ts 1"
  define x where "x = ticks * max to_ts 1"
  have d: "0 < d" by (simp add: d_def)
  have eq: "scale_ticks ticks from_ts to_ts = (x + (d - 1)) div d"
    using assms by (simp add: scale_ticks_ceil d_def x_def)
  have "x + (d - 1) = (x + (d - 1)) div d * d + (x + (d - 1)) mod d" by simp
  moreover have "(x + (d - 1)) mod d < d" using d by simp
  ultimately have "x \<le> (x + (d - 1)) div d * d" "(x + (d - 1)) div d * d < x + d" using d by linarith+
  then show "ticks * max to_ts 1 \<le> scale_ticks ticks from_ts to_ts * max from_ts 1"
    "scale_ticks ticks from_ts to_ts * max from_ts 1 < ticks * max to_ts 1 + max from_ts 1"
    unfolding eq by (simp_all add: d_def x_def)
qed

lemma scale_signed_same: "i64_ok d \<Longrightarrow> ts \<le> U32_MAX \<Longrightarrow> d \<noteq> I64_MIN \<Longrightarrow> scale_signed d ts ts = d"
proof -
  assume *: "i64_ok d" "ts \<le> U32_MAX" "d \<noteq> I64_MIN"
  then have "nat \<bar>d\<bar> \<le> U64_MAX" "int (nat \<bar>d\<bar>) = \<bar>d\<bar>" "\<bar>d\<bar> \<le> I64_MAX" by (auto simp: i64_ok_def)
  then show ?thesis using scale_ticks_same [of "nat \<bar>d\<bar>" ts] *(2) by (simp add: scale_signed_def Let_def)
qed

section \<open>The fragments on the timeline of the film\<close>

text \<open>The tables of an initialization segment and the values of its types.\<close>

definition init_ok :: "init_segment \<Rightarrow> bool" where
  "init_ok ini \<longleftrightarrow> distinct (map tr_id (in_tracks ini)) \<and> (\<forall>t \<in> set (in_tracks ini). tr_timescale t \<le> U32_MAX)"

definition fragment_shape :: "fragment \<Rightarrow> bool" where
  "fragment_shape f \<longleftrightarrow> distinct (map tf_track_id (fr_tracks f)) \<and>
     (\<forall>tf \<in> set (fr_tracks f). int (tf_base_decode_time tf) \<le> I64_MAX \<and> 0 < tf_sample_count tf)"

definition video_times :: "segmenter \<Rightarrow> fragment list \<Rightarrow> nat list" where
  "video_times s fs = List.map_filter (film_time_of s) fs"

lemma video_times_simps [simp]:
  "video_times s [] = []" "video_times s (fs @ gs) = video_times s fs @ video_times s gs"
  "video_times s [f] = (case film_time_of s f of None \<Rightarrow> [] | Some t \<Rightarrow> [t])"
  by (simp_all add: video_times_def List.map_filter_def split: option.splits)

definition learned :: "segmenter \<Rightarrow> fragment list \<Rightarrow> int option" where
  "learned s fs =
     (case sr_media_time s of
        None \<Rightarrow> None
      | Some m \<Rightarrow>
          (case mt_delta m of
             Some d \<Rightarrow> Some d
           | None \<Rightarrow> (case video_times s fs of [] \<Rightarrow> None | b # _ \<Rightarrow> Some (int (mt_start_ticks m) - int b))))"

definition moved :: "segmenter \<Rightarrow> int option \<Rightarrow> fragment \<Rightarrow> fragment" where
  "moved s d f = (case d of None \<Rightarrow> f | Some d \<Rightarrow> shift_fragment s d f)"

definition film_fragments :: "segmenter \<Rightarrow> fragment list \<Rightarrow> fragment list" where
  "film_fragments s fs = map (moved s (learned s fs)) fs"

text \<open>Two segmenters of the same settings answer the same questions.\<close>

lemma same_settings:
  assumes "settings s = settings s'"
  shows "film_time_of s = film_time_of s'" "shift_fragment s = shift_fragment s'" "moved s = moved s'" "video_times s = video_times s'"
    "published_as s = published_as s'" "sr_init s = sr_init s'" "sr_boundaries s = sr_boundaries s'"
proof -
  have "timescale_of s = timescale_of s'" using assms by (simp add: settings_def fun_eq_iff timescale_of_def split: option.splits)
  then show ft: "film_time_of s = film_time_of s'" and sh: "shift_fragment s = shift_fragment s'"
    using assms by (simp_all add: settings_def fun_eq_iff film_time_of_def shift_fragment_def track_shift_def)
  show "moved s = moved s'" "video_times s = video_times s'" by (simp_all add: fun_eq_iff moved_def video_times_def ft sh split: option.splits)
  show "published_as s = published_as s'" "sr_init s = sr_init s'" "sr_boundaries s = sr_boundaries s'"
    using assms by (simp_all add: settings_def fun_eq_iff published_as_def)
qed

lemma find_map_id:
  "(\<And>t. tf_track_id (g t) = tf_track_id t) \<Longrightarrow>
   find (\<lambda>t. tf_track_id t = i) (map g tfs) = map_option g (find (\<lambda>t. tf_track_id t = i) tfs)"
  by (induction tfs) simp_all

lemma moved_None [simp]: "moved s None = (\<lambda>f. f)"
  by (simp add: moved_def fun_eq_iff)

lemma fragment_track_shift:
  "fragment_track (shift_fragment s d f) i = map_option (\<lambda>t. t\<lparr> tf_base_decode_time :=
     saturating_add_signed (tf_base_decode_time t) (track_shift s d i) \<rparr>) (fragment_track f i)"
proof -
  have "fragment_track (shift_fragment s d f) i = map_option (\<lambda>t. t\<lparr> tf_base_decode_time :=
     saturating_add_signed (tf_base_decode_time t) (track_shift s d (tf_track_id t)) \<rparr>) (fragment_track f i)"
    by (simp add: shift_fragment_def fragment_track_def find_map_id)
  moreover have "tf_track_id t = i" if "fragment_track f i = Some t" for t
    using that by (auto simp: fragment_track_def find_Some_iff)
  ultimately show ?thesis by (cases "fragment_track f i") simp_all
qed

lemma shape_moved:
  "fragment_shape f \<Longrightarrow> distinct (map tf_track_id (fr_tracks (moved s d f))) \<and> (\<forall>tf \<in> set (fr_tracks (moved s d f)). 0 < tf_sample_count tf)"
  by (auto simp: fragment_shape_def moved_def shift_fragment_def comp_def tf_sample_count_def split: option.splits)

lemma film_time_moved_None: "film_time_of s (moved s d f) = None \<longleftrightarrow> film_time_of s f = None"
  by (auto simp: film_time_of_def moved_def fragment_track_shift split: option.splits bind_splits)

text \<open>What putting a fragment on film time does, in terms of all fragments seen so far.\<close>

definition clock_ok :: "segmenter \<Rightarrow> fragment list \<Rightarrow> segmenter \<Rightarrow> bool" where
  "clock_ok s0 raw s \<longleftrightarrow> sr_media_time s = map_option (\<lambda>m. m\<lparr> mt_delta := learned s0 raw \<rparr>) (sr_media_time s0)"

lemma learned_snoc:
  "learned s (fs @ [f]) = (case learned s fs of Some d \<Rightarrow> Some d | None \<Rightarrow>
     (case sr_media_time s of None \<Rightarrow> None | Some m \<Rightarrow> map_option (\<lambda>b. int (mt_start_ticks m) - int b) (film_time_of s f)))"
  by (auto simp: learned_def split: option.splits list.splits)

lemma on_film_time_Inr:
  assumes "on_film_time f s = (Inr f1, s1)" and clock: "clock_ok s0 raw s" and same: "settings s = settings s0"
  shows "f1 = moved s0 (learned s0 (raw @ [f])) f" "clock_ok s0 (raw @ [f]) s1"
    and "sr_pending s1 = (if learned s0 raw = None then map (moved s0 (learned s0 (raw @ [f]))) (sr_pending s) else sr_pending s)"
    and "learned s0 (raw @ [f]) = Some d \<Longrightarrow> learned s0 raw = None \<Longrightarrow> i64_ok d \<and> refuse_if_any_track_lands_before_zero s f d = Inr ()"
proof -
  have ini: "sr_init s = sr_init s0" and shift: "shift_fragment s = shift_fragment s0"
    using same_settings [OF same] by simp_all
  have "f1 = moved s0 (learned s0 (raw @ [f])) f \<and> clock_ok s0 (raw @ [f]) s1 \<and>
    sr_pending s1 = (if learned s0 raw = None then map (moved s0 (learned s0 (raw @ [f]))) (sr_pending s) else sr_pending s) \<and>
    (learned s0 (raw @ [f]) = Some d \<longrightarrow> learned s0 raw = None \<longrightarrow> i64_ok d \<and> refuse_if_any_track_lands_before_zero s f d = Inr ())"
  proof (cases "sr_media_time s0")
    case None
    then show ?thesis using assms(1) clock
      by (simp add: on_film_time_def clock_ok_def learned_def moved_def)
  next
    case (Some m)
    show ?thesis
    proof (cases "learned s0 raw")
      case (Some d')
      then show ?thesis using assms(1) clock \<open>sr_media_time s0 = Some m\<close> shift
        by (simp add: on_film_time_def clock_ok_def learned_snoc moved_def)
    next
      case None
      show ?thesis
      proof (cases "film_time_of s0 f")
        case None
        then have "init_video (sr_init s0) \<noteq> None \<longrightarrow> fragment_track f (tr_id (the (init_video (sr_init s0)))) = None"
          by (auto simp: film_time_of_def split: bind_splits)
        then show ?thesis using assms(1) clock \<open>sr_media_time s0 = Some m\<close> \<open>learned s0 raw = None\<close> None ini
          by (auto simp: on_film_time_def clock_ok_def learned_snoc moved_def map_idI split: option.splits)
      next
        case (Some base)
        then obtain video tf where v: "init_video (sr_init s0) = Some video" "fragment_track f (tr_id video) = Some tf" "tf_base_decode_time tf = base"
          by (auto simp: film_time_of_def bind_eq_Some_conv)
        let ?d = "int (mt_start_ticks m) - int base"
        have l: "learned s0 (raw @ [f]) = Some ?d" using \<open>learned s0 raw = None\<close> \<open>sr_media_time s0 = Some m\<close> Some by (simp add: learned_snoc)
        have media: "sr_media_time s = Some (m\<lparr> mt_delta := None \<rparr>)" using clock \<open>sr_media_time s0 = Some m\<close> \<open>learned s0 raw = None\<close> by (simp add: clock_ok_def)
        obtain u where ok: "i64_ok ?d" "refuse_if_any_track_lands_before_zero s f ?d = Inr u"
          and s1: "s1 = s\<lparr> sr_media_time := Some (m\<lparr> mt_delta := Some ?d \<rparr>), sr_pending := map (shift_fragment s ?d) (sr_pending s) \<rparr>"
          and f1: "f1 = shift_fragment s1 ?d f"
          using assms(1) media ini v by (auto simp: on_film_time_def learn_delta_def Let_def then_do_Inr split: if_splits sum.splits)
        have "settings s1 = settings s0" using same by (simp add: s1 settings_def)
        then show ?thesis using ok s1 f1 l \<open>learned s0 raw = None\<close> \<open>sr_media_time s0 = Some m\<close> shift same_settings(2) [of s1 s0]
          by (auto simp: clock_ok_def moved_def)
      qed
    qed
  qed
  then show "f1 = moved s0 (learned s0 (raw @ [f])) f" "clock_ok s0 (raw @ [f]) s1"
    and "sr_pending s1 = (if learned s0 raw = None then map (moved s0 (learned s0 (raw @ [f]))) (sr_pending s) else sr_pending s)"
    and "learned s0 (raw @ [f]) = Some d \<Longrightarrow> learned s0 raw = None \<Longrightarrow> i64_ok d \<and> refuse_if_any_track_lands_before_zero s f d = Inr ()"
    by blast+
qed


section \<open>The first video fragment lands on its plan entry\<close>

lemma init_video_track: "init_ok ini \<Longrightarrow> init_video ini = Some v \<Longrightarrow>
   find (\<lambda>t. tr_id t = tr_id v) (in_tracks ini) = Some v \<and> tr_timescale v \<le> U32_MAX \<and> \<not> carries_audio ini (tr_id v)"
proof -
  assume *: "init_ok ini" "init_video ini = Some v"
  then have v: "v \<in> set (in_tracks ini)" "tr_kind v = Video" by (auto simp: init_video_def find_Some_iff)
  have d: "distinct (map tr_id (in_tracks ini))" using * by (simp add: init_ok_def)
  have "find (\<lambda>t. tr_id t = tr_id v) ts = Some v" if "v \<in> set ts" "distinct (map tr_id ts)" for ts
    using that by (induction ts) (auto simp: image_iff)
  moreover have "\<not> carries_audio ini (tr_id v)"
  proof
    assume "carries_audio ini (tr_id v)"
    then obtain info where info: "info \<in> set (in_tracks ini)" "tr_id info = tr_id v" "tr_kind info = Audio" by (auto simp: carries_audio_def)
    have "inj_on tr_id (set (in_tracks ini))" using d by (simp add: distinct_map)
    from inj_onD [OF this info(2,1) v(1)] show False using info(3) v(2) by simp
  qed
  ultimately show ?thesis using v d * by (simp add: init_ok_def)
qed

lemma video_shift:
  assumes ok: "init_ok (sr_init s)" and v: "init_video (sr_init s) = Some v"
    and ts: "sr_video_timescale s = max (tr_timescale v) 1" and d: "i64_ok d" "d \<noteq> I64_MIN"
  shows "track_shift s d (tr_id v) = d"
proof -
  have "timescale_of s (tr_id v) = sr_video_timescale s" using init_video_track [OF ok v] ts by (simp add: timescale_of_def)
  moreover have "sr_video_timescale s \<le> U32_MAX" using init_video_track [OF ok v] ts by simp
  ultimately show ?thesis using d by (simp add: track_shift_def scale_signed_same)
qed

lemma film_time_moved:
  assumes "init_ok (sr_init s)" and "init_video (sr_init s) = Some v" and "sr_video_timescale s = max (tr_timescale v) 1"
    and "i64_ok d" "d \<noteq> I64_MIN" and "film_time_of s f = Some base"
  shows "film_time_of s (moved s (Some d) f) = Some (saturating_add_signed base d)"
  using assms video_shift [OF assms(1-5)]
  by (auto simp: film_time_of_def moved_def fragment_track_shift bind_eq_Some_conv)

section \<open>The invariant of a run\<close>

text \<open>The video times of a group lie between the boundaries of its plan entry.\<close>

definition between :: "nat list \<Rightarrow> nat \<Rightarrow> nat list \<Rightarrow> bool" where
  "between starts k ts \<longleftrightarrow> ts \<noteq> [] \<and> starts ! k \<le> hd ts \<and> (Suc k < length starts \<longrightarrow> (\<forall>t \<in> set ts. t < starts ! Suc k))"

definition run_ok :: "segmenter \<Rightarrow> fragment list \<Rightarrow> published list \<Rightarrow> fragment list list \<Rightarrow> segmenter \<Rightarrow> bool" where
  "run_ok s0 raw ps groups s \<longleftrightarrow>
     settings s = settings s0 \<and> clock_ok s0 raw s \<and> list_all2 (published_as s0) ps groups \<and>
     map pb_index ps = [sr_next_index s0 ..< sr_next_index s0 + length ps] \<and>
     sr_next_index s = sr_next_index s0 + length ps \<and> length ps \<le> length raw \<and>
     (\<forall>i. media i (concat groups @ sr_pending s) = media i (film_fragments s0 raw)) \<and>
     (sr_media_time s0 \<noteq> None \<and> learned s0 raw = None \<longrightarrow> groups = [] \<and> sr_pending s = raw)"

definition plan_ok :: "segmenter \<Rightarrow> nat list \<Rightarrow> fragment list \<Rightarrow> fragment list list \<Rightarrow> segmenter \<Rightarrow> bool" where
  "plan_ok s0 starts raw groups s \<longleftrightarrow>
     (\<forall>k < length groups. between starts k (video_times s0 (groups ! k))) \<and>
     (learned s0 raw \<noteq> None \<longrightarrow> length groups < length starts \<and> between starts (length groups) (video_times s0 (sr_pending s)))"

text \<open>How a segmenter that follows a plan begins.\<close>

definition follows_plan :: "segmenter \<Rightarrow> nat list \<Rightarrow> bool" where
  "follows_plan s starts \<longleftrightarrow>
     init_ok (sr_init s) \<and> starts \<noteq> [] \<and> sorted_wrt (<) starts \<and> (\<forall>t \<in> set starts. t \<le> U64_MAX) \<and>
     sr_boundaries s = Some \<lparr> bd_first_index = sr_next_index s, bd_starts = starts \<rparr> \<and>
     sr_media_time s = Some \<lparr> mt_start_ticks = hd starts, mt_delta = None \<rparr> \<and> sr_pending s = [] \<and>
     (\<exists>v. init_video (sr_init s) = Some v \<and> sr_video_timescale s = max (tr_timescale v) 1)"


text \<open>A closed group and the fragment behind it: the media of the fragment that arrived, and no video before it.\<close>

lemma split_keeps_media:
  assumes "split_encoded_audio f s = (Inr g, s')" and "sr_pending s' = sr_pending s @ prefix"
    and "distinct (map tf_track_id (fr_tracks f))" and "\<forall>tf \<in> set (fr_tracks f). 0 < tf_sample_count tf"
  shows "media i prefix @ fragment_media i g = fragment_media i f"
    and "init_ok (sr_init s) \<Longrightarrow> video_times s prefix = [] \<and> film_time_of s g = film_time_of s f"
proof -
  from split_encoded_audio_Inr(4) [OF assms(1)] assms(2)
  consider "prefix = []" "g = f" | boundary opt where
    "take_encoded_audio_before f (sr_init s) boundary (sr_video_timescale s) = Inr (opt, g)" "prefix = opt_list opt" by auto
  note c = this
  show "media i prefix @ fragment_media i g = fragment_media i f"
    by (cases rule: c) (use take_encoded_audio_media(1) [OF _ assms(3)] in simp_all)
  show "video_times s prefix = [] \<and> film_time_of s g = film_time_of s f" if ok: "init_ok (sr_init s)"
  proof (cases rule: c)
    case 2
    note t = take_encoded_audio_media(2,3) [OF 2(1) assms(3)]
    have "film_time_of s x = None" if x: "x \<in> set (opt_list opt)" for x
    proof (cases "init_video (sr_init s)")
      case (Some v)
      have "tf_track_id tf \<noteq> tr_id v" if "tf \<in> set (fr_tracks x)" for tf
        using t(1) [OF x that] init_video_track [OF ok Some] by metis
      then have "fragment_track x (tr_id v) = None" by (auto simp: fragment_track_def find_None_iff)
      then show ?thesis using Some by (simp add: film_time_of_def)
    qed (simp add: film_time_of_def)
    then have "video_times s prefix = []" using 2(2) by (cases opt) simp_all
    moreover have "film_time_of s g = film_time_of s f"
      using t(2) [OF _ assms(4)] init_video_track [OF ok]
      by (cases "init_video (sr_init s)") (auto simp: film_time_of_def)
    ultimately show ?thesis by simp
  qed simp
qed

lemma film_fragments_snoc:
  "film_fragments s (raw @ [f]) =
     map (moved s (learned s (raw @ [f]))) raw @ [moved s (learned s (raw @ [f])) f]"
  "learned s raw \<noteq> None \<Longrightarrow> map (moved s (learned s (raw @ [f]))) raw = film_fragments s raw"
  by (auto simp: film_fragments_def learned_snoc split: option.splits)

text \<open>The pending run once the new fragment is on film time, and the media in front of it.\<close>

lemma film_step:
  assumes run: "run_ok s0 raw ps groups s" and film: "on_film_time f s = (Inr f1, s1)"
  shows "media i (concat groups @ sr_pending s1) @ fragment_media i f1 = media i (film_fragments s0 (raw @ [f]))"
    and "f1 = moved s0 (learned s0 (raw @ [f])) f" "clock_ok s0 (raw @ [f]) s1"
    and "sr_media_time s0 \<noteq> None \<Longrightarrow> learned s0 (raw @ [f]) = None \<Longrightarrow> groups = [] \<and> sr_pending s1 = raw \<and> f1 = f"
proof -
  have s: "settings s = settings s0" "clock_ok s0 raw s"
    and m: "media i (concat groups @ sr_pending s) = media i (film_fragments s0 raw)"
    and wait: "sr_media_time s0 \<noteq> None \<Longrightarrow> learned s0 raw = None \<Longrightarrow> groups = [] \<and> sr_pending s = raw"
    using run by (auto simp: run_ok_def)
  note o = on_film_time_Inr [OF film s(2,1)]
  show f1: "f1 = moved s0 (learned s0 (raw @ [f])) f" "clock_ok s0 (raw @ [f]) s1" by (rule o)+
  show "media i (concat groups @ sr_pending s1) @ fragment_media i f1 = media i (film_fragments s0 (raw @ [f]))"
  proof (cases "learned s0 raw")
    case (Some d)
    then show ?thesis using m o(3) f1(1) by (simp add: film_fragments_snoc)
  next
    case None
    show ?thesis
    proof (cases "sr_media_time s0 = None")
      case True
      then have "learned s0 xs = None" for xs by (simp add: learned_def)
      then show ?thesis using m o(3) f1(1) by (simp add: film_fragments_def)
    next
      case False
      then show ?thesis using wait None o(3) f1(1) by (simp add: film_fragments_snoc)
    qed
  qed
  show "groups = [] \<and> sr_pending s1 = raw \<and> f1 = f" if "sr_media_time s0 \<noteq> None" "learned s0 (raw @ [f]) = None"
    using that wait o(3) f1(1) by (auto simp: learned_snoc split: option.splits)
qed


section \<open>Every push keeps the invariant\<close>

lemma segment_cut_counts: "segment_cut (s\<lparr> sr_counts := x \<rparr>) f c = segment_cut s f c"
proof -
  have "entry_after (s\<lparr> sr_counts := x \<rparr>) = entry_after s" "film_time_of (s\<lparr> sr_counts := x \<rparr>) = film_time_of s"
    by (simp_all add: fun_eq_iff entry_after_def film_time_of_def)
  then have "planned_cut (s\<lparr> sr_counts := x \<rparr>) plan f c = planned_cut s plan f c" for plan
    unfolding planned_cut_def by (simp cong: option.case_cong if_cong)
  moreover have "policy_cut (s\<lparr> sr_counts := x \<rparr>) f c = policy_cut s f c" by (simp add: policy_cut_def)
  ultimately show ?thesis unfolding segment_cut_def by (simp cong: option.case_cong if_cong)
qed

lemma segment_cut_count: "segment_cut (count_fragment c s) f c' = segment_cut s f c'"
  unfolding count_fragment_def Let_def by (rule segment_cut_counts)

lemma planned_cut_Some:
  assumes "planned_cut s plan f class = Inr (Some reason)"
  obtains dts where "film_time_of s f = Some dts" "entry_after s plan < length (bd_starts plan)" "bd_starts plan ! entry_after s plan \<le> dts"
    "wrapping_add_u64 (entry_after s plan) 1 < length (bd_starts plan) \<Longrightarrow> dts < bd_starts plan ! wrapping_add_u64 (entry_after s plan) 1"
  using assms by (auto simp: planned_cut_def nth_opt_def Let_def split: if_splits option.splits)

lemma planned_cut_None:
  assumes "planned_cut s plan f class = Inr None" and "sr_pending s \<noteq> []" and "film_time_of s f = Some dts"
    and "entry_after s plan < length (bd_starts plan)"
  shows "dts < bd_starts plan ! entry_after s plan"
  using assms by (auto simp: planned_cut_def nth_opt_def Let_def split: if_splits option.splits)

lemma video_times_waiting:
  "sr_media_time s = Some \<lparr> mt_start_ticks = t, mt_delta = None \<rparr> \<Longrightarrow> learned s raw = None \<longleftrightarrow> video_times s raw = []"
  by (auto simp: learned_def split: list.splits)

lemma video_times_map_moved: "video_times s fs = [] \<Longrightarrow> video_times s (map (moved s d) fs) = []"
  by (auto simp: video_times_def List.map_filter_def filter_empty_conv film_time_moved_None)

text \<open>The fragment that anchors a planned generation stands exactly at the start of its plan entry.\<close>

lemma anchor_time:
  assumes follow: "follows_plan s0 starts" and shape: "fragment_shape f" and video: "film_time_of s0 f = Some base"
    and d: "d = int (hd starts) - int base" "i64_ok d"
  shows "film_time_of s0 (moved s0 (Some d) f) = Some (hd starts)"
proof -
  obtain v where v: "init_video (sr_init s0) = Some v" "sr_video_timescale s0 = max (tr_timescale v) 1" and ok: "init_ok (sr_init s0)"
    using follow by (auto simp: follows_plan_def)
  obtain tf where "fragment_track f (tr_id v) = Some tf" "tf_base_decode_time tf = base" using video v by (auto simp: film_time_of_def)
  then have "int base \<le> I64_MAX" using shape by (auto simp: fragment_shape_def fragment_track_def find_Some_iff)
  then have "d \<noteq> I64_MIN" using d by auto
  then have "film_time_of s0 (moved s0 (Some d) f) = Some (saturating_add_signed base d)"
    using film_time_moved [OF ok v d(2) _ video] by simp
  moreover have "hd starts \<le> U64_MAX" using follow by (auto simp: follows_plan_def)
  ultimately show ?thesis using d(1) by (simp add: saturating_add_signed_def)
qed


text \<open>The state in which the cut is decided, in terms of the run so far.\<close>

lemma run_clock:
  assumes run: "run_ok s0 raw ps groups s" and film: "on_film_time f s = (Inr f1, s1)" and follow: "follows_plan s0 starts"
    and plan: "plan_ok s0 starts raw groups s" and shape: "fragment_shape f" and room: "sr_next_index s0 + length raw + 2 \<le> U64_MAX"
  defines "bd \<equiv> \<lparr> bd_first_index = sr_next_index s0, bd_starts = starts \<rparr>"
  shows "sr_boundaries s1 = Some bd" "entry_after s1 bd = Suc (length groups)"
    "wrapping_add_u64 (entry_after s1 bd) 1 = Suc (Suc (length groups))" "film_time_of s1 = film_time_of s0"
    and "learned s0 (raw @ [f]) = None \<Longrightarrow> film_time_of s0 f1 = None"
    and "learned s0 raw \<noteq> None \<Longrightarrow> length groups < length starts \<and> between starts (length groups) (video_times s0 (sr_pending s1))"
    and "learned s0 raw = None \<Longrightarrow> learned s0 (raw @ [f]) \<noteq> None \<Longrightarrow>
      groups = [] \<and> video_times s0 (sr_pending s1) = [] \<and> film_time_of s0 f1 = Some (hd starts)"
proof -
  have same: "settings s = settings s0" "settings s1 = settings s0" using run on_film_time_frame [OF film] by (simp_all add: run_ok_def)
  note run' = run [unfolded run_ok_def]
  have len: "length ps = length groups" "length groups \<le> length raw" using run' by (auto dest: list_all2_lengthD)
  have next1: "sr_next_index s1 = sr_next_index s0 + length groups" using run' len on_film_time_frame [OF film] by simp
  show "sr_boundaries s1 = Some bd" using follow same_settings(7) [OF same(2)] by (simp add: follows_plan_def bd_def)
  have fit: "length groups + 2 \<le> U64_MAX" "sr_next_index s0 + length groups \<le> U64_MAX" using room len(2) by linarith+
  show e: "entry_after s1 bd = Suc (length groups)" using fit next1 by (simp add: entry_after_def bd_def)
  show "wrapping_add_u64 (entry_after s1 bd) 1 = Suc (Suc (length groups))" using fit by (simp add: e)
  show "film_time_of s1 = film_time_of s0" using same_settings(1) [OF same(2)] .
  have media: "sr_media_time s0 = Some \<lparr> mt_start_ticks = hd starts, mt_delta = None \<rparr>" using follow by (simp add: follows_plan_def)
  have clock: "clock_ok s0 raw s" using run' by simp
  note o = on_film_time_Inr [OF film clock same(1)] and fs = film_step [OF run film]
  show "film_time_of s0 f1 = None" if none: "learned s0 (raw @ [f]) = None"
  proof -
    have "video_times s0 (raw @ [f]) = []" using none video_times_waiting [OF media] by simp
    then show ?thesis using fs(4) none media by (auto split: option.splits)
  qed
  show "length groups < length starts \<and> between starts (length groups) (video_times s0 (sr_pending s1))" if "learned s0 raw \<noteq> None"
  proof -
    have "sr_pending s1 = sr_pending s" using that o(3) by (cases "learned s0 raw") simp_all
    then show ?thesis using plan that by (simp add: plan_ok_def)
  qed
  show "groups = [] \<and> video_times s0 (sr_pending s1) = [] \<and> film_time_of s0 f1 = Some (hd starts)"
    if none: "learned s0 raw = None" and some: "learned s0 (raw @ [f]) \<noteq> None"
  proof -
    have raw: "groups = []" "sr_pending s = raw" "video_times s0 raw = []"
      using run' media none video_times_waiting [OF media] by auto
    obtain base where base: "film_time_of s0 f = Some base" "learned s0 (raw @ [f]) = Some (int (hd starts) - int base)"
      using some none media by (auto simp: learned_snoc split: option.splits)
    have d: "i64_ok (int (hd starts) - int base)" using o(4) base(2) none by blast
    have f1: "f1 = moved s0 (Some (int (hd starts) - int base)) f" using fs(2) base(2) by simp
    have "film_time_of s0 f1 = Some (hd starts)"
      unfolding f1 by (rule anchor_time [OF follow shape base(1) refl d])
    moreover have "video_times s0 (sr_pending s1) = []" using o(3) none raw(2,3) video_times_map_moved by simp
    ultimately show ?thesis using raw(1) by simp
  qed
qed

lemma plan_join:
  assumes run: "run_ok s0 raw ps groups s" and film: "on_film_time f s = (Inr f1, s1)" and follow: "follows_plan s0 starts"
    and plan: "plan_ok s0 starts raw groups s" and shape: "fragment_shape f" and room: "sr_next_index s0 + length raw + 2 \<le> U64_MAX"
    and cut: "segment_cut (count_fragment c s1) f1 c = Inr None" and s': "sr_pending s' = sr_pending s1 @ [f1]"
  shows "plan_ok s0 starts (raw @ [f]) groups s'"
proof -
  let ?bd = "\<lparr> bd_first_index = sr_next_index s0, bd_starts = starts \<rparr>"
  note k = run_clock [OF run film follow plan shape room]
  have planned: "planned_cut s1 ?bd f1 c = Inr None"
    using cut k(1) by (simp add: segment_cut_count) (simp add: segment_cut_def)
  have "length groups < length starts \<and> between starts (length groups) (video_times s0 (sr_pending s1 @ [f1]))"
    if some: "learned s0 (raw @ [f]) \<noteq> None"
  proof (cases "learned s0 raw = None")
    case True
    have "0 < length starts" "Suc 0 < length starts \<Longrightarrow> starts ! 0 < starts ! Suc 0" "hd starts = starts ! 0"
      using follow by (auto simp: follows_plan_def sorted_wrt_iff_nth_less hd_conv_nth)
    then show ?thesis using k(7) [OF True some] by (simp add: between_def)
  next
    case False
    note old = k(6) [OF False]
    then have ne: "sr_pending s1 \<noteq> []" by (auto simp: between_def)
    show ?thesis
    proof (cases "film_time_of s0 f1")
      case None
      then show ?thesis using old by simp
    next
      case (Some dts)
      have "dts < starts ! Suc (length groups)" if "Suc (length groups) < length starts"
        using planned_cut_None [OF planned ne, of dts] Some k(2,4) that by simp
      then show ?thesis using old Some by (auto simp: between_def)
    qed
  qed
  then show ?thesis using plan s' by (simp add: plan_ok_def)
qed

lemma plan_close:
  assumes run: "run_ok s0 raw ps groups s" and film: "on_film_time f s = (Inr f1, s1)" and follow: "follows_plan s0 starts"
    and plan: "plan_ok s0 starts raw groups s" and shape: "fragment_shape f" and room: "sr_next_index s0 + length raw + 2 \<le> U64_MAX"
    and cut: "segment_cut (count_fragment c s1) f1 c = Inr (Some reason)"
    and split: "video_times s0 prefix = []" "film_time_of s0 f2 = film_time_of s0 f1" and s': "sr_pending s' = [f2]"
  shows "plan_ok s0 starts (raw @ [f]) (groups @ [sr_pending s1 @ prefix]) s'"
proof -
  let ?bd = "\<lparr> bd_first_index = sr_next_index s0, bd_starts = starts \<rparr>"
  note k = run_clock [OF run film follow plan shape room]
  have "planned_cut s1 ?bd f1 c = Inr (Some reason)"
    using cut k(1) by (simp add: segment_cut_count) (simp add: segment_cut_def)
  from planned_cut_Some [OF this] obtain dts where dts: "film_time_of s0 f1 = Some dts" "Suc (length groups) < length starts"
    "starts ! Suc (length groups) \<le> dts" "Suc (Suc (length groups)) < length starts \<Longrightarrow> dts < starts ! Suc (Suc (length groups))"
    using k(2-4) by auto
  have some: "learned s0 (raw @ [f]) \<noteq> None" using k(5) dts(1) by auto
  have old: "learned s0 raw \<noteq> None"
  proof
    assume none: "learned s0 raw = None"
    have "starts ! 0 < starts ! Suc 0" "hd starts = starts ! 0" if "Suc 0 < length starts"
      using that follow by (auto simp: follows_plan_def sorted_wrt_iff_nth_less hd_conv_nth)
    then show False using k(7) [OF none some] dts(1-3) by simp
  qed
  have "between starts (length groups) (video_times s0 (sr_pending s1 @ prefix))" using k(6) [OF old] split(1) by simp
  moreover have "between starts (Suc (length groups)) (video_times s0 [f2])" using dts split(2) by (simp add: between_def)
  ultimately show ?thesis using plan dts(2) s' by (simp add: plan_ok_def nth_append less_Suc_eq)
qed

lemma run_step:
  assumes run: "run_ok s0 raw ps groups s" and push: "push_fragment f s = (Inr r, s')" and shape: "fragment_shape f"
    and planned: "sr_media_time s0 \<noteq> None \<Longrightarrow> sr_boundaries s0 \<noteq> None" and room: "sr_next_index s0 + length raw + 2 \<le> U64_MAX"
  obtains groups' where "run_ok s0 (raw @ [f]) (ps @ opt_list r) groups' s'"
    and "\<And>starts. follows_plan s0 starts \<Longrightarrow> plan_ok s0 starts raw groups s \<Longrightarrow> plan_ok s0 starts (raw @ [f]) groups' s'"
proof -
  from push_fragment_Inr [OF push] obtain f1 s1 where film: "on_film_time f s = (Inr f1, s1)"
    and s': "settings s' = settings s" "sr_media_time s' = sr_media_time s1"
    and c: "segment_cut (count_fragment (classify f1 (sr_init s1)) s1) f1 (classify f1 (sr_init s1)) = Inr None \<and> r = None \<and>
         sr_pending s' = sr_pending s1 @ [f1] \<and> sr_next_index s' = sr_next_index s
       \<or> (\<exists>reason p f2 s2 prefix. r = Some p \<and>
         segment_cut (count_fragment (classify f1 (sr_init s1)) s1) f1 (classify f1 (sr_init s1)) = Inr (Some reason) \<and>
         split_encoded_audio f1 (count_fragment (classify f1 (sr_init s1)) s1) = (Inr f2, s2) \<and>
         sr_pending s2 = sr_pending s1 @ prefix \<and> published_as s p (sr_pending s1 @ prefix) \<and> pb_reason p = reason \<and>
         pb_index p = sr_next_index s \<and> sr_pending s' = [f2] \<and> sr_next_index s' = wrapping_add_u64 (sr_next_index s) 1)"
    by blast
  let ?s = "count_fragment (classify f1 (sr_init s1)) s1"
  have same: "settings s = settings s0" "settings s1 = settings s0" "settings ?s = settings s0"
    using run on_film_time_frame [OF film] by (simp_all add: run_ok_def)
  note facts = run [unfolded run_ok_def] and fs = film_step [OF run film]
  have clock: "clock_ok s0 (raw @ [f]) s'" using fs(3) s'(2) by (simp add: clock_ok_def)
  from c show thesis
  proof (elim disjE exE conjE)
    assume cut: "segment_cut ?s f1 (classify f1 (sr_init s1)) = Inr None" "r = None" "sr_pending s' = sr_pending s1 @ [f1]" "sr_next_index s' = sr_next_index s"
    have "run_ok s0 (raw @ [f]) (ps @ opt_list r) groups s'"
      using facts fs(1,4) s'(1) cut(2-4) same clock by (simp add: run_ok_def)
    then show thesis by (rule that) (rule plan_join [OF run film _ _ shape room cut(1,3)])
  next
    fix reason p f2 s2 prefix
    assume r: "r = Some p" and cut: "segment_cut ?s f1 (classify f1 (sr_init s1)) = Inr (Some reason)"
      and split: "split_encoded_audio f1 ?s = (Inr f2, s2)" "sr_pending s2 = sr_pending s1 @ prefix"
      and p: "published_as s p (sr_pending s1 @ prefix)" "pb_index p = sr_next_index s"
      and next': "sr_pending s' = [f2]" "sr_next_index s' = wrapping_add_u64 (sr_next_index s) 1"
    have f1: "distinct (map tf_track_id (fr_tracks f1))" "\<forall>tf \<in> set (fr_tracks f1). 0 < tf_sample_count tf"
      using shape_moved [OF shape] fs(2) by simp_all
    note keeps = split_keeps_media [OF split(1) _ f1, of prefix]
    have split2: "sr_pending s2 = sr_pending ?s @ prefix" using split(2) by simp
    have m: "media i (concat (groups @ [sr_pending s1 @ prefix]) @ sr_pending s') = media i (film_fragments s0 (raw @ [f]))" for i
      using fs(1) [of i] keeps(1) [OF split2, of i] next'(1) by simp
    have "length ps \<le> length raw" "sr_next_index s = sr_next_index s0 + length ps" using facts by simp_all
    then have n: "sr_next_index s' = sr_next_index s0 + length ps + 1" using next'(2) room by simp
    have waits: "\<not> (sr_media_time s0 \<noteq> None \<and> learned s0 (raw @ [f]) = None)"
    proof
      assume w: "sr_media_time s0 \<noteq> None \<and> learned s0 (raw @ [f]) = None"
      then obtain plan where plan: "sr_boundaries s1 = Some plan" using planned same_settings(7) [OF same(2)] by auto
      have "planned_cut s1 plan f1 (classify f1 (sr_init s1)) = Inr (Some reason)"
        using cut plan by (simp add: segment_cut_count) (simp add: segment_cut_def)
      from planned_cut_Some [OF this] obtain dts where "film_time_of s1 f1 = Some dts" by blast
      then have "film_time_of s0 f = Some dts" using fs(4) w same_settings(1) [OF same(2)] by simp
      then show False using w by (auto simp: learned_snoc split: option.splits)
    qed
    have pub: "list_all2 (published_as s0) (ps @ [p]) (groups @ [sr_pending s1 @ prefix])"
      using facts p(1) same_settings(5) [OF same(1)] by (simp add: list_all2_appendI)
    have "run_ok s0 (raw @ [f]) (ps @ opt_list r) (groups @ [sr_pending s1 @ prefix]) s'"
      using facts s'(1) r p(2) m n same clock pub waits unfolding run_ok_def by (simp add: upt_conv_Cons)
    then show thesis
    proof (rule that)
      fix starts assume follow: "follows_plan s0 starts" and plan: "plan_ok s0 starts raw groups s"
      have "sr_init ?s = sr_init s0" using same_settings(6) [OF same(3)] .
      then have "video_times s0 prefix = [] \<and> film_time_of s0 f2 = film_time_of s0 f1"
        using keeps(2) [OF split2] follow same_settings(1,4) [OF same(3)] by (simp add: follows_plan_def)
      then show "plan_ok s0 starts (raw @ [f]) (groups @ [sr_pending s1 @ prefix]) s'"
        using plan_close [OF run film follow plan shape room cut _ _ next'(1)] by blast
    qed
  qed
qed

end
