(* ===== verification/Fmp4Ending.thy ===== *)
theory Fmp4Ending
  imports Fmp4Planned
begin

text \<open>
  The end of a stream: \<open>end_of_stream_chunks\<close> deals the pending media of every track out to chunks.
  Every sample reaches a chunk, in order, with its time and its bytes, and no chunk but the first
  lasts longer than the ceiling.
\<close>

section \<open>Dealing a track out\<close>

text \<open>Nothing of the track lies behind the open chunk.\<close>

definition open_at :: "nat \<Rightarrow> nat \<Rightarrow> fragment list list \<Rightarrow> bool" where
  "open_at i k chunks \<longleftrightarrow> (\<forall>j < length chunks. k < j \<longrightarrow> media i (chunks ! j) = [])"

lemma concat_media_nil: "\<forall>c \<in> set chunks. media i c = [] \<Longrightarrow> media i (concat chunks) = []"
  by (induction chunks) simp_all

lemma media_at:
  assumes "k < length cs"
  shows "media i (concat cs) = media i (concat (take k cs)) @ media i (cs ! k) @ media i (concat (drop (Suc k) cs))"
    and "media i (concat (cs[k := cs ! k @ [f]])) =
      media i (concat (take k cs)) @ media i (cs ! k) @ fragment_media i f @ media i (concat (drop (Suc k) cs))"
proof -
  have "concat cs = concat (take k cs) @ cs ! k @ concat (drop (Suc k) cs)"
    using arg_cong [OF id_take_nth_drop [OF assms], of concat] by simp
  then show "media i (concat cs) = media i (concat (take k cs)) @ media i (cs ! k) @ media i (concat (drop (Suc k) cs))" by simp
  show "media i (concat (cs[k := cs ! k @ [f]])) =
      media i (concat (take k cs)) @ media i (cs ! k) @ fragment_media i f @ media i (concat (drop (Suc k) cs))"
    using assms by (simp add: upd_conv_take_nth_drop)
qed

lemma media_list_update:
  assumes "k < length chunks" and "open_at i k chunks"
  shows "media i (concat (chunks[k := chunks ! k @ [f]])) = media i (concat chunks) @ fragment_media i f"
proof -
  have "media i (concat (drop (Suc k) chunks)) = []"
  proof (rule concat_media_nil, rule ballI)
    fix c assume "c \<in> set (drop (Suc k) chunks)"
    then obtain j where "j < length (drop (Suc k) chunks)" "c = drop (Suc k) chunks ! j" by (auto simp: in_set_conv_nth)
    then show "media i c = []" using assms(2) by (simp add: open_at_def)
  qed
  then show ?thesis by (simp add: media_at [OF assms(1)])
qed

lemma concat_replicate_nil [simp]: "concat (replicate n []) = []"
  by (induction n) simp_all

lemma put_chunk_media:
  assumes "open_at i k chunks"
  shows "media i (concat (put_chunk k f chunks)) = media i (concat chunks) @ fragment_media i f" "open_at i k (put_chunk k f chunks)"
proof -
  let ?padded = "if length chunks \<le> k then chunks @ replicate (k + 1 - length chunks) [] else chunks"
  have k: "k < length ?padded" by simp
  have pad: "open_at i k ?padded" "media i (concat ?padded) = media i (concat chunks)"
    using assms by (auto simp: open_at_def nth_append)
  show "media i (concat (put_chunk k f chunks)) = media i (concat chunks) @ fragment_media i f"
    unfolding put_chunk_def Let_def using media_list_update [OF k pad(1)] pad(2) by simp
  show "open_at i k (put_chunk k f chunks)"
    using pad(1) unfolding put_chunk_def Let_def open_at_def by simp
qed

lemma put_chunk_other:
  assumes "fragment_media i f = []"
  shows "media i (concat (put_chunk k f chunks)) = media i (concat chunks)"
proof -
  let ?padded = "if length chunks \<le> k then chunks @ replicate (k + 1 - length chunks) [] else chunks"
  have k: "k < length ?padded" by simp
  have "media i (concat (?padded[k := ?padded ! k @ [f]])) = media i (concat ?padded)"
    unfolding media_at [OF k] using assms by simp
  then show ?thesis by (simp add: put_chunk_def Let_def)
qed

lemma group_fragment_media:
  "fragment_media i (group_fragment f t rn g st) =
     (if i = tr_id t then samples_media (fr_bytes f) (ss_time st) (ss_offset st) g else [])"
  by (simp add: group_fragment_def fragment_media_def fragment_track_def)

lemma take_group_state:
  assumes "take_group t lims ss st = Inr (g, rest, st')" and "ss_offset st + (\<Sum>s \<leftarrow> ss. sm_size s) \<le> U64_MAX"
  shows "ss_time st' = time_after (ss_time st) g" "ss_offset st' = ss_offset st + (\<Sum>s \<leftarrow> g. sm_size s)" "ss_chunk st' = ss_chunk st"
    "ss = g @ rest"
proof -
  have "ss_time st' = time_after (ss_time st) g \<and> ss_offset st' = ss_offset st + (\<Sum>s \<leftarrow> g. sm_size s) \<and> ss_chunk st' = ss_chunk st"
    using assms
  proof (induction ss arbitrary: st g)
    case (Cons s ss)
    show ?case
    proof (cases "chunk_is_full lims s st")
      case True
      then show ?thesis using Cons.prems by (auto simp: over_ceiling_def split: if_splits)
    next
      case False
      then obtain g' where "take_group t lims ss (past_sample s st) = Inr (g', rest, st')" "g = s # g'"
        using Cons.prems(1) by (auto simp: over_ceiling_def and_then_Inr split: if_splits)
      moreover have "ss_offset (past_sample s st) = ss_offset st + sm_size s" using Cons.prems(2) by (simp add: past_sample_def)
      ultimately show ?thesis using Cons.IH [of "past_sample s st" g'] Cons.prems(2) by (simp add: past_sample_def)
    qed
  qed simp
  then show "ss_time st' = time_after (ss_time st) g" "ss_offset st' = ss_offset st + (\<Sum>s \<leftarrow> g. sm_size s)" "ss_chunk st' = ss_chunk st" by auto
  show "ss = g @ rest" using assms(1) by (rule take_group_append)
qed

text \<open>What one step of the deal has to keep: the media dealt so far, and the other tracks alone.\<close>

definition dealt :: "nat \<Rightarrow> medium list \<Rightarrow> split_state \<times> fragment list list \<Rightarrow> split_state \<times> fragment list list \<Rightarrow> bool" where
  "dealt i ms stc stc' \<longleftrightarrow>
     (open_at i (ss_chunk (fst stc)) (snd stc) \<longrightarrow>
        open_at i (ss_chunk (fst stc')) (snd stc') \<and> media i (concat (snd stc')) = media i (concat (snd stc)) @ ms) \<and>
     (\<forall>j. j \<noteq> i \<longrightarrow> media j (concat (snd stc')) = media j (concat (snd stc)))"

lemma dealt_refl: "dealt i [] stc stc"
  by (simp add: dealt_def)

lemma dealt_trans: "dealt i ms a b \<Longrightarrow> dealt i ns b c \<Longrightarrow> dealt i (ms @ ns) a c"
  by (simp add: dealt_def)

lemma split_samples_dealt:
  "split_samples t lims f rn ss (st, chunks) = Inr stc' \<Longrightarrow> ss_offset st + (\<Sum>s \<leftarrow> ss. sm_size s) \<le> U64_MAX \<Longrightarrow>
   dealt (tr_id t) (samples_media (fr_bytes f) (ss_time st) (ss_offset st) ss) (st, chunks) stc' \<and>
   ss_time (fst stc') = time_after (ss_time st) ss"
proof (induction "length ss" arbitrary: ss st chunks rule: less_induct)
  case less
  show ?case
  proof (cases ss)
    case Nil
    then show ?thesis using less.prems(1) by (auto simp: split_samples.simps dealt_refl)
  next
    case (Cons s ss')
    have step: "dealt (tr_id t) (samples_media (fr_bytes f) (ss_time st) (ss_offset st) ss) (st, chunks) stc' \<and>
        ss_time (fst stc') = time_after (ss_time st) ss"
      if nf: "\<not> chunk_is_full lims s st" and run: "split_samples t lims f rn ss (st, chunks) = Inr stc'"
        and room: "ss_offset st + (\<Sum>s \<leftarrow> ss. sm_size s) \<le> U64_MAX" for st
    proof -
      obtain g rest st1 where g: "take_group t lims (s # ss') st = Inr (g, rest, st1)"
        and rec: "split_samples t lims f rn rest (st1, put_chunk (ss_chunk st) (group_fragment f t rn g st) chunks) = Inr stc'"
        using run nf unfolding Cons by (subst (asm) split_samples.simps) (auto simp: and_then_Inr over_ceiling_def simp del: take_group.simps split: if_splits)
      note gs = take_group_state [OF g, OF room [unfolded Cons]]
      let ?chunks = "put_chunk (ss_chunk st) (group_fragment f t rn g st) chunks"
      have first: "dealt (tr_id t) (samples_media (fr_bytes f) (ss_time st) (ss_offset st) g) (st, chunks) (st1, ?chunks)"
        using put_chunk_media [of "tr_id t" "ss_chunk st" chunks "group_fragment f t rn g st"] gs(3)
        by (auto simp: dealt_def group_fragment_media put_chunk_other)
      have "length rest < length ss" using take_group_shrinks [OF g nf] Cons by simp
      moreover have ss: "ss = g @ rest" using gs(4) Cons by simp
      moreover have "ss_offset st1 + (\<Sum>s \<leftarrow> rest. sm_size s) \<le> U64_MAX" using room gs(2) by (simp add: ss)
      ultimately have "dealt (tr_id t) (samples_media (fr_bytes f) (ss_time st1) (ss_offset st1) rest) (st1, ?chunks) stc' \<and>
          ss_time (fst stc') = time_after (ss_time st1) rest" using less.hyps rec by blast
      then show ?thesis using dealt_trans [OF first] gs(1,2) by (simp add: ss samples_media_append time_after_append)
    qed
    show ?thesis
    proof (cases "chunk_is_full lims s st")
      case True
      let ?st = "st\<lparr> ss_chunk := ss_chunk st + 1, ss_ticks := 0 \<rparr>"
      have "split_samples t lims f rn ss (?st, chunks) = Inr stc'"
        using less.prems(1) True unfolding Cons by (subst (asm) split_samples.simps) (auto simp: over_ceiling_def split: if_splits)
      from step [OF chunk_is_full_fresh this] less.prems(2)
      have "dealt (tr_id t) (samples_media (fr_bytes f) (ss_time st) (ss_offset st) ss) (?st, chunks) stc'"
        "ss_time (fst stc') = time_after (ss_time st) ss" by simp_all
      moreover have "dealt (tr_id t) [] (st, chunks) (?st, chunks)" by (auto simp: dealt_def open_at_def)
      ultimately show ?thesis using dealt_trans by fastforce
    next
      case False
      then show ?thesis using step less.prems by blast
    qed
  qed
qed

text \<open>The samples of every run lie inside their fragment, and the fragment inside the address space.\<close>

definition in_bounds :: "fragment \<Rightarrow> bool" where
  "in_bounds f \<longleftrightarrow> (\<forall>tf \<in> set (fr_tracks f). \<forall>rn \<in> set (tf_runs tf). rn_data_offset rn + run_byte_len rn \<le> USIZE_MAX)"

lemma split_run_eq:
  "split_run t lims f rn (st, chunks) = split_samples t lims f rn (rn_samples rn) (st\<lparr> ss_offset := rn_data_offset rn \<rparr>, chunks)"
  by (simp add: split_run_def)

lemma split_runs_dealt:
  "for_each rns (split_run t lims f) stc = Inr stc' \<Longrightarrow> \<forall>rn \<in> set rns. rn_data_offset rn + run_byte_len rn \<le> USIZE_MAX \<Longrightarrow>
   dealt (tr_id t) (runs_media (fr_bytes f) (ss_time (fst stc)) rns) stc stc'"
proof (induction rns arbitrary: stc)
  case Nil
  then show ?case by (simp add: dealt_refl)
next
  case (Cons rn rns)
  obtain st chunks where stc: "stc = (st, chunks)" by (cases stc)
  obtain stc1 where one: "split_samples t lims f rn (rn_samples rn) (st\<lparr> ss_offset := rn_data_offset rn \<rparr>, chunks) = Inr stc1"
    and rest: "for_each rns (split_run t lims f) stc1 = Inr stc'"
    using Cons.prems(1) split_run_eq [of t lims f rn st chunks] by (auto simp: and_then_Inr stc)
  have "dealt (tr_id t) (samples_media (fr_bytes f) (ss_time st) (rn_data_offset rn) (rn_samples rn)) (st, chunks) stc1"
    "ss_time (fst stc1) = time_after (ss_time st) (rn_samples rn)"
    using split_samples_dealt [OF one] Cons.prems(2) by (simp_all add: run_byte_len_def dealt_def)
  then show ?case using dealt_trans Cons.IH [OF rest] Cons.prems(2) by (fastforce simp: stc)
qed

lemma split_fragments_dealt:
  "for_each fs (split_fragment t lims) stc = Inr stc' \<Longrightarrow> \<forall>f \<in> set fs. in_bounds f \<Longrightarrow> dealt (tr_id t) (media (tr_id t) fs) stc stc'"
proof (induction fs arbitrary: stc)
  case Nil
  then show ?case by (simp add: dealt_refl)
next
  case (Cons f fs)
  obtain st chunks where stc: "stc = (st, chunks)" by (cases stc)
  obtain stc1 where one: "split_fragment t lims f (st, chunks) = Inr stc1" and rest: "for_each fs (split_fragment t lims) stc1 = Inr stc'"
    using Cons.prems(1) by (auto simp: and_then_Inr stc)
  have "dealt (tr_id t) (fragment_media (tr_id t) f) (st, chunks) stc1"
  proof (cases "fragment_track f (tr_id t)")
    case None
    then show ?thesis using one by (simp add: split_fragment_def fragment_media_def dealt_refl)
  next
    case (Some tf)
    then have "\<forall>rn \<in> set (tf_runs tf). rn_data_offset rn + run_byte_len rn \<le> USIZE_MAX"
      using Cons.prems(2) by (auto simp: in_bounds_def dest!: fragment_track_Some)
    moreover have "for_each (tf_runs tf) (split_run t lims f) (st\<lparr> ss_time := tf_base_decode_time tf \<rparr>, chunks) = Inr stc1"
      using one Some by (simp add: split_fragment_def)
    ultimately show ?thesis using split_runs_dealt [of "tf_runs tf" t lims f] Some by (fastforce simp: fragment_media_def dealt_def)
  qed
  then show ?case using dealt_trans Cons.IH [OF rest] Cons.prems(2) by (fastforce simp: stc)
qed

lemma split_track_media:
  assumes "split_track s v t chunks = Inr chunks'" and "\<forall>f \<in> set (sr_pending s). in_bounds f" and "media (tr_id t) (concat chunks) = []"
  shows "media (tr_id t) (concat chunks') = media (tr_id t) (sr_pending s)"
    and "j \<noteq> tr_id t \<Longrightarrow> media j (concat chunks') = media j (concat chunks)"
proof -
  obtain st where "for_each (sr_pending s) (split_fragment t (limits_of s v t))
      (\<lparr> ss_chunk = 0, ss_ticks = 0, ss_time = 0, ss_offset = 0 \<rparr>, chunks) = Inr (st, chunks')"
    using assms(1) by (auto simp: split_track_def and_then_Inr)
  from split_fragments_dealt [OF this assms(2)] have d: "dealt (tr_id t) (media (tr_id t) (sr_pending s))
      (\<lparr> ss_chunk = 0, ss_ticks = 0, ss_time = 0, ss_offset = 0 \<rparr>, chunks) (st, chunks')" .
  have "media (tr_id t) c = []" if "c \<in> set chunks" for c
    using assms(3) that by (auto simp: media_concat)
  then have "open_at (tr_id t) 0 chunks" by (simp add: open_at_def)
  then show "media (tr_id t) (concat chunks') = media (tr_id t) (sr_pending s)" using d assms(3) by (simp add: dealt_def)
  show "j \<noteq> tr_id t \<Longrightarrow> media j (concat chunks') = media j (concat chunks)" using d by (simp add: dealt_def)
qed

lemma split_tracks_media:
  "for_each ts (split_track s v) chunks = Inr chunks' \<Longrightarrow> \<forall>f \<in> set (sr_pending s). in_bounds f \<Longrightarrow> distinct (map tr_id ts) \<Longrightarrow>
   (\<forall>t \<in> set ts. media (tr_id t) (concat chunks) = []) \<Longrightarrow>
   (\<forall>t \<in> set ts. media (tr_id t) (concat chunks') = media (tr_id t) (sr_pending s)) \<and>
   (\<forall>j. j \<notin> tr_id ` set ts \<longrightarrow> media j (concat chunks') = media j (concat chunks))"
proof (induction ts arbitrary: chunks)
  case (Cons t ts)
  obtain chunks1 where one: "split_track s v t chunks = Inr chunks1" and rest: "for_each ts (split_track s v) chunks1 = Inr chunks'"
    using Cons.prems(1) by (auto simp: and_then_Inr)
  note m = split_track_media [OF one Cons.prems(2)]
  have "media (tr_id t) (concat chunks) = []" using Cons.prems(4) by simp
  note m = m [OF this]
  have "\<forall>u \<in> set ts. media (tr_id u) (concat chunks1) = []"
  proof
    fix u assume "u \<in> set ts"
    then have "tr_id u \<noteq> tr_id t" using Cons.prems(3) by (simp, metis image_eqI)
    then show "media (tr_id u) (concat chunks1) = []" using m(2) Cons.prems(4) \<open>u \<in> set ts\<close> by simp
  qed
  note IH = Cons.IH [OF rest Cons.prems(2) _ this]
  show ?case using IH Cons.prems(3) m by auto
qed simp

lemma concat_filter_nonempty: "concat (filter (\<lambda>c. c \<noteq> []) cs) = concat cs"
  by (induction cs) simp_all

lemma end_of_stream_media:
  assumes "end_of_stream_chunks s = Inr chunks" and "\<forall>f \<in> set (sr_pending s). in_bounds f"
    and "distinct (map tr_id (in_tracks (sr_init s)))" and "t \<in> set (in_tracks (sr_init s))"
  shows "media (tr_id t) (concat chunks) = media (tr_id t) (sr_pending s)"
proof -
  obtain all where "for_each (in_tracks (sr_init s)) (split_track s (sum_u64 (map (\<lambda>f. video_duration f (sr_init s)) (sr_pending s)))) [] = Inr all"
    "chunks = filter (\<lambda>c. c \<noteq> []) all"
    using assms(1) by (auto simp: end_of_stream_chunks_def Let_def and_then_Inr split: if_splits)
  then show ?thesis using split_tracks_media [OF _ assms(2,3), of _ "[]" all] assms(4) by (simp add: concat_filter_nonempty)
qed


section \<open>Publication of the chunks\<close>

lemma finish_chunk_Inr:
  assumes "finish_chunk s (n, c) ps = Inr ps1"
  shows "\<exists>q. ps1 = ps @ [q] \<and> published_as s q c \<and> pb_index q = wrapping_add_u64 (sr_next_index s) n \<and> pb_reason q = EndOfStream"
  using assms by (auto simp: finish_chunk_def and_then_Inr Let_def published_as_def split: if_splits)

lemma finish_chunks:
  "for_each (enumerate n cs) (finish_chunk s) ps = Inr ps' \<Longrightarrow> sr_next_index s + n + length cs \<le> U64_MAX \<Longrightarrow>
   \<exists>qs. ps' = ps @ qs \<and> list_all2 (published_as s) qs cs \<and>
     map pb_index qs = [sr_next_index s + n ..< sr_next_index s + n + length cs] \<and> (\<forall>q \<in> set qs. pb_reason q = EndOfStream)"
proof (induction cs arbitrary: n ps)
  case (Cons c cs)
  obtain ps1 where one: "finish_chunk s (n, c) ps = Inr ps1" and loop: "for_each (enumerate (Suc n) cs) (finish_chunk s) ps1 = Inr ps'"
    using Cons.prems(1) by (auto simp: and_then_Inr)
  from finish_chunk_Inr [OF one] obtain q where q: "ps1 = ps @ [q]" "published_as s q c" "pb_index q = sr_next_index s + n" "pb_reason q = EndOfStream"
    using Cons.prems(2) by auto
  have rest: "for_each (enumerate (Suc n) cs) (finish_chunk s) (ps @ [q]) = Inr ps'" using loop q(1) by simp
  from Cons.IH [OF rest] Cons.prems(2) obtain qs where "ps' = (ps @ [q]) @ qs" "list_all2 (published_as s) qs cs"
    "map pb_index qs = [sr_next_index s + Suc n ..< sr_next_index s + Suc n + length cs]" "\<forall>q \<in> set qs. pb_reason q = EndOfStream" by auto
  moreover have "[a ..< a + length (c # cs)] = a # [a + 1 ..< a + 1 + length cs]" for a
    by (simp add: upt_conv_Cons del: upt_Suc)
  ultimately show ?case using q by (intro exI [of _ "q # qs"]) (simp del: upt_Suc)
qed simp

lemma finish_chunks_length: "for_each (enumerate n cs) (finish_chunk s) ps = Inr ps' \<Longrightarrow> length ps' = length ps + length cs"
  by (induction cs arbitrary: n ps) (auto simp: and_then_Inr dest!: finish_chunk_Inr)

lemma finish_stream_Inr:
  assumes fin: "finish_stream s = (Inr qs, s')" and room: "sr_next_index s + length qs \<le> U64_MAX"
    and ok: "\<forall>f \<in> set (sr_pending s). in_bounds f" "distinct (map tr_id (in_tracks (sr_init s)))"
  obtains groups where "list_all2 (published_as s) qs groups" "map pb_index qs = [sr_next_index s ..< sr_next_index s + length qs]"
    "\<And>t. t \<in> set (in_tracks (sr_init s)) \<Longrightarrow> media (tr_id t) (concat groups) = media (tr_id t) (sr_pending s)" "sr_pending s' = []"
proof (cases "sr_pending s = []")
  case True
  then show thesis using fin that [of "[]"] by (simp add: finish_stream_def)
next
  case False
  then obtain chunks where chunks: "end_of_stream_chunks s = Inr chunks" "for_each (enumerate 0 chunks) (finish_chunk s) [] = Inr qs"
    and s': "sr_pending s' = []"
    using fin by (auto simp: finish_stream_def and_then_Inr split: sum.splits)
  have len: "length qs = length chunks" using finish_chunks_length [OF chunks(2)] by simp
  from finish_chunks [OF chunks(2)] room len show thesis
    using that [of chunks] end_of_stream_media [OF chunks(1) ok] s' by auto
qed

section \<open>No chunk but the first outlasts the ceiling\<close>

definition media_ticks :: "nat \<Rightarrow> fragment list \<Rightarrow> nat" where
  "media_ticks i fs = (\<Sum>m \<leftarrow> media i fs. sm_duration (fst (snd m)))"

lemma media_ticks_simps [simp]:
  "media_ticks i [] = 0" "media_ticks i (fs @ gs) = media_ticks i fs + media_ticks i gs"
  by (simp_all add: media_ticks_def)

lemma samples_media_ticks: "(\<Sum>m \<leftarrow> samples_media bytes t p ss. sm_duration (fst (snd m))) = (\<Sum>s \<leftarrow> ss. sm_duration s)"
  by (induction ss arbitrary: t p) (simp_all add: forget_place_def)

lemma group_ticks:
  "media_ticks i [group_fragment f t rn g st] = (if i = tr_id t then \<Sum>s \<leftarrow> g. sm_duration s else 0)"
  by (simp add: media_ticks_def group_fragment_media samples_media_ticks)

text \<open>
  The ticks of a track in a chunk; the chunks behind the first, how much of its allowance the open
  one has used, and the other tracks as they were.
\<close>

definition column :: "nat \<Rightarrow> fragment list list \<Rightarrow> nat \<Rightarrow> nat" where
  "column i chunks j = (if j < length chunks then media_ticks i (chunks ! j) else 0)"

definition within :: "nat \<Rightarrow> nat \<Rightarrow> fragment list list \<Rightarrow> split_state \<times> fragment list list \<Rightarrow> bool" where
  "within i ceiling old stc \<longleftrightarrow>
     (\<forall>j. 0 < j \<longrightarrow> column i (snd stc) j \<le> ceiling) \<and> (\<forall>j. ss_chunk (fst stc) < j \<longrightarrow> column i (snd stc) j = 0) \<and>
     (0 < ss_chunk (fst stc) \<longrightarrow> ss_ticks (fst stc) \<le> ceiling \<and> column i (snd stc) (ss_chunk (fst stc)) = ss_ticks (fst stc)) \<and>
     (\<forall>i'. i' \<noteq> i \<longrightarrow> column i' (snd stc) = column i' old)"

lemma take_group_ticks:
  assumes "take_group t lims ss st = Inr (g, rest, st')" and "0 < ss_chunk st" and "ss_ticks st \<le> sl_ceiling lims" and "sl_ceiling lims < U64_MAX"
  shows "ss_ticks st' = ss_ticks st + (\<Sum>s \<leftarrow> g. sm_duration s) \<and> ss_ticks st' \<le> sl_ceiling lims \<and> ss_chunk st' = ss_chunk st"
  using assms(1-3)
proof (induction ss arbitrary: st g)
  case (Cons s ss)
  show ?case
  proof (cases "chunk_is_full lims s st")
    case True
    then show ?thesis using Cons.prems by (auto simp: over_ceiling_def split: if_splits)
  next
    case False
    then have d: "sm_duration s \<le> sl_ceiling lims" and fits: "ss_ticks st + sm_duration s \<le> sl_ceiling lims"
      using Cons.prems assms(4) by (auto simp: over_ceiling_def chunk_is_full_def Let_def saturating_add_u64_def split: if_splits)
    obtain g' where g': "take_group t lims ss (past_sample s st) = Inr (g', rest, st')" "g = s # g'"
      using Cons.prems(1) False d by (auto simp: and_then_Inr)
    have "ss_ticks (past_sample s st) = ss_ticks st + sm_duration s" "ss_chunk (past_sample s st) = ss_chunk st"
      using fits assms(4) by (simp_all add: past_sample_def)
    then show ?thesis using Cons.IH [OF g'(1)] Cons.prems(2) fits g'(2) by simp
  qed
qed simp

lemma take_group_chunk: "take_group t lims ss st = Inr (g, rest, st') \<Longrightarrow> ss_chunk st' = ss_chunk st"
  by (induction ss arbitrary: st g) (auto simp: over_ceiling_def and_then_Inr past_sample_def split: if_splits)

lemma column_put: "column i (put_chunk k f chunks) j = column i chunks j + (if j = k then media_ticks i [f] else 0)"
  by (auto simp: column_def put_chunk_def Let_def nth_list_update nth_append)

lemma within_put:
  assumes w: "within (tr_id t) (sl_ceiling lims) old (st, chunks)" and g: "take_group t lims ss st = Inr (g, rest, st1)" and c: "sl_ceiling lims < U64_MAX"
  shows "within (tr_id t) (sl_ceiling lims) old (st1, put_chunk (ss_chunk st) (group_fragment f t rn g st) chunks)"
proof -
  have same: "ss_chunk st1 = ss_chunk st" using take_group_chunk [OF g] .
  have t: "ss_ticks st1 = ss_ticks st + (\<Sum>s \<leftarrow> g. sm_duration s) \<and> ss_ticks st1 \<le> sl_ceiling lims" if "0 < ss_chunk st"
    using take_group_ticks [OF g that _ c] w that by (auto simp: within_def)
  have "column i' (put_chunk (ss_chunk st) (group_fragment f t rn g st) chunks) = column i' chunks" if "i' \<noteq> tr_id t" for i'
    using that by (auto simp: fun_eq_iff column_put group_ticks)
  then show ?thesis using w t same by (auto simp: within_def column_put group_ticks)
qed

lemma split_samples_within:
  "split_samples t lims f rn ss (st, chunks) = Inr stc' \<Longrightarrow> within (tr_id t) (sl_ceiling lims) old (st, chunks) \<Longrightarrow> sl_ceiling lims < U64_MAX \<Longrightarrow>
   within (tr_id t) (sl_ceiling lims) old stc'"
proof (induction t lims f rn ss "(st, chunks)" arbitrary: st chunks rule: split_samples.induct)
  case (1 t lims f rn)
  then show ?case by (auto simp: split_samples.simps)
next
  case (2 t lims f rn s ss)
  show ?case
  proof (cases "chunk_is_full lims s st")
    case True
    let ?st = "st\<lparr> ss_chunk := ss_chunk st + 1, ss_ticks := 0 \<rparr>"
    have d: "\<not> sl_ceiling lims < sm_duration s" and run: "split_samples t lims f rn (s # ss) (?st, chunks) = Inr stc'"
      using 2(3) True by (subst (asm) split_samples.simps, auto simp: over_ceiling_def split: if_splits)+
    have "within (tr_id t) (sl_ceiling lims) old (?st, chunks)" using 2(4) by (auto simp: within_def)
    then show ?thesis using 2(1) [OF refl d True run] 2(5) by blast
  next
    case False
    then obtain g rest st1 where d: "\<not> sl_ceiling lims < sm_duration s" and g: "take_group t lims (s # ss) st = Inr (g, rest, st1)"
      and rec: "split_samples t lims f rn rest (st1, put_chunk (ss_chunk st) (group_fragment f t rn g st) chunks) = Inr stc'"
      using 2(3) by (subst (asm) split_samples.simps) (auto simp: and_then_Inr over_ceiling_def simp del: take_group.simps split: if_splits)
    show ?thesis using 2(2) [OF refl d False g refl refl rec] within_put [OF 2(4) g 2(5)] 2(5) by blast
  qed
qed

lemma for_each_keeps:
  assumes "for_each xs body st = Inr st'" and "P st" and "\<And>x st st'. body x st = Inr st' \<Longrightarrow> P st \<Longrightarrow> P st'"
  shows "P st'"
  using assms(1,2) by (induction xs arbitrary: st) (simp, metis and_then_Inr assms(3) for_each.simps(2))

lemma split_fragment_within:
  assumes "split_fragment t lims f stc = Inr stc'" and "within (tr_id t) (sl_ceiling lims) old stc" and "sl_ceiling lims < U64_MAX"
  shows "within (tr_id t) (sl_ceiling lims) old stc'"
proof -
  obtain st chunks where stc: "stc = (st, chunks)" by (cases stc)
  have run: "within (tr_id t) (sl_ceiling lims) old b" if "split_run t lims f rn a = Inr b" "within (tr_id t) (sl_ceiling lims) old a" for rn a b
  proof -
    obtain st chunks where a: "a = (st, chunks)" by (cases a)
    have "within (tr_id t) (sl_ceiling lims) old (st\<lparr> ss_offset := rn_data_offset rn \<rparr>, chunks)" using that(2) by (simp add: within_def a)
    then show ?thesis using split_samples_within that(1) assms(3) unfolding a split_run_eq by blast
  qed
  show ?thesis
  proof (cases "fragment_track f (tr_id t)")
    case None
    then show ?thesis using assms(1,2) by (simp add: split_fragment_def stc)
  next
    case (Some tf)
    then have "for_each (tf_runs tf) (split_run t lims f) (st\<lparr> ss_time := tf_base_decode_time tf \<rparr>, chunks) = Inr stc'"
      using assms(1) by (simp add: split_fragment_def stc)
    moreover have "within (tr_id t) (sl_ceiling lims) old (st\<lparr> ss_time := tf_base_decode_time tf \<rparr>, chunks)"
      using assms(2) by (simp add: within_def stc)
    ultimately show ?thesis by (rule for_each_keeps) (rule run)
  qed
qed

lemma split_track_within:
  assumes "split_track s v t chunks = Inr chunks'" and c: "sl_ceiling (limits_of s v t) < U64_MAX" and fresh: "column (tr_id t) chunks = (\<lambda>_. 0)"
  shows "0 < j \<Longrightarrow> column (tr_id t) chunks' j \<le> sl_ceiling (limits_of s v t)" "i \<noteq> tr_id t \<Longrightarrow> column i chunks' = column i chunks"
proof -
  let ?st = "\<lparr> ss_chunk = 0, ss_ticks = 0, ss_time = 0, ss_offset = 0 \<rparr>"
  obtain st where run: "for_each (sr_pending s) (split_fragment t (limits_of s v t)) (?st, chunks) = Inr (st, chunks')"
    using assms(1) by (auto simp: split_track_def and_then_Inr)
  have "within (tr_id t) (sl_ceiling (limits_of s v t)) chunks (?st, chunks)" using fresh by (simp add: within_def)
  from for_each_keeps [OF run, where P = "within (tr_id t) (sl_ceiling (limits_of s v t)) chunks", OF this]
  have "within (tr_id t) (sl_ceiling (limits_of s v t)) chunks (st, chunks')" using split_fragment_within c by blast
  then show "0 < j \<Longrightarrow> column (tr_id t) chunks' j \<le> sl_ceiling (limits_of s v t)" "i \<noteq> tr_id t \<Longrightarrow> column i chunks' = column i chunks"
    by (auto simp: within_def)
qed

definition ceiling_of :: "segmenter \<Rightarrow> track \<Rightarrow> nat" where
  "ceiling_of s t = max (scale_ticks (max_ticks (sr_policy s)) (sr_video_timescale s) (max (tr_timescale t) 1)) 1"

lemma split_tracks_within:
  "for_each ts (split_track s v) chunks = Inr chunks' \<Longrightarrow> \<forall>t \<in> set ts. ceiling_of s t < U64_MAX \<Longrightarrow> distinct (map tr_id ts) \<Longrightarrow>
   \<forall>t \<in> set ts. column (tr_id t) chunks = (\<lambda>_. 0) \<Longrightarrow>
   (\<forall>t \<in> set ts. \<forall>j > 0. column (tr_id t) chunks' j \<le> ceiling_of s t) \<and> (\<forall>i. i \<notin> tr_id ` set ts \<longrightarrow> column i chunks' = column i chunks)"
proof (induction ts arbitrary: chunks)
  case (Cons t ts)
  obtain chunks1 where one: "split_track s v t chunks = Inr chunks1" and rest: "for_each ts (split_track s v) chunks1 = Inr chunks'"
    using Cons.prems(1) by (auto simp: and_then_Inr)
  have c: "sl_ceiling (limits_of s v t) = ceiling_of s t" by (simp add: limits_of_def ceiling_of_def Let_def)
  note w = split_track_within [OF one, unfolded c]
  have fresh: "column (tr_id t) chunks = (\<lambda>_. 0)" and "ceiling_of s t < U64_MAX" using Cons.prems(2,4) by simp_all
  note w = w [OF this(2,1)]
  have ne: "tr_id u \<noteq> tr_id t" if "u \<in> set ts" for u using that Cons.prems(3) by (simp, metis image_eqI)
  have "\<forall>u \<in> set ts. column (tr_id u) chunks1 = (\<lambda>_. 0)" using w(2) ne Cons.prems(4) by simp
  from Cons.IH [OF rest _ _ this] Cons.prems(2,3) w ne show ?case by auto
qed simp

lemma set_tl_filter: "set (tl (filter P xs)) \<subseteq> set (tl xs)"
proof (cases xs)
  case (Cons x ys)
  have "set (tl (filter P ys)) \<subseteq> set (filter P ys)" by (cases "filter P ys") auto
  then have "set (tl (filter P ys)) \<subseteq> set ys" using filter_is_subset [of P ys] by (rule subset_trans)
  then show ?thesis using Cons by auto
qed simp

lemma end_of_stream_bounded:
  assumes "end_of_stream_chunks s = Inr chunks" and "distinct (map tr_id (in_tracks (sr_init s)))"
    and "\<forall>t \<in> set (in_tracks (sr_init s)). ceiling_of s t < U64_MAX" and t: "t \<in> set (in_tracks (sr_init s))" and c: "c \<in> set (tl chunks)"
  shows "media_ticks (tr_id t) c \<le> ceiling_of s t"
proof -
  obtain all where all: "for_each (in_tracks (sr_init s)) (split_track s (sum_u64 (map (\<lambda>f. video_duration f (sr_init s)) (sr_pending s)))) [] = Inr all"
    "chunks = filter (\<lambda>c. c \<noteq> []) all"
    using assms(1) by (auto simp: end_of_stream_chunks_def Let_def and_then_Inr split: if_splits)
  have "c \<in> set (tl all)" using c set_tl_filter [of "\<lambda>c. c \<noteq> []" all] by (auto simp: all(2))
  then obtain j where j: "Suc j < length all" "all ! Suc j = c" by (cases all) (auto simp: in_set_conv_nth)
  have "column (tr_id t) all (Suc j) \<le> ceiling_of s t"
    using split_tracks_within [OF all(1) assms(3,2)] t by (simp add: column_def fun_eq_iff)
  then show ?thesis using j by (simp add: column_def)
qed

end
