(* ===== verification/Fmp4RoundTrip.thy ===== *)
theory Fmp4RoundTrip
  imports Fmp4Merge
begin

text \<open>
  Writing and reading back: what \<open>write_segment\<close> lays out is what \<open>FragmentReader\<close> finds. The
  layout of the \<open>moof\<close> after its offsets were patched, the parse of one written \<open>traf\<close>, and the
  walk of the reader over a whole segment.
\<close>

unbundle bit_operations_syntax

section \<open>The layout of the patched box\<close>

definition traf_of :: "merge_plan \<Rightarrow> nat \<Rightarrow> byte list" where
  "traf_of p offset = write_box (ascii ''traf'') (traf_head p @ be_bytes 4 offset @ traf_rows p)"

fun slots_of :: "nat \<Rightarrow> merge_plan list \<Rightarrow> nat list" where
  "slots_of n [] = []"
| "slots_of n (p # ps) = (n + 8 + length (traf_head p)) # slots_of (n + length (traf_of p 0)) ps"

fun data_offsets :: "nat \<Rightarrow> merge_plan list \<Rightarrow> nat list" where
  "data_offsets base [] = []"
| "data_offsets base (p # ps) = base # data_offsets (base + plan_byte_len p) ps"

definition trafs_of :: "merge_plan list \<Rightarrow> nat list \<Rightarrow> byte list" where
  "trafs_of plans offsets = concat (map2 traf_of plans offsets)"

lemma length_traf_of: "length (traf_of p offset) = 8 + length (traf_head p) + 4 + length (traf_rows p)"
  by (simp add: traf_of_def)

lemma append_traf_eq:
  "append_traf p (moof, slots) = (moof @ traf_of p 0, slots @ [length moof + 8 + length (traf_head p)])"
  by (simp add: append_traf_def traf_of_def write_box_def Let_def add.assoc)

lemma fold_append_traf:
  "fold append_traf plans (moof, slots) = (moof @ concat (map (\<lambda>p. traf_of p 0) plans), slots @ slots_of (length moof) plans)"
  by (induction plans arbitrary: moof slots) (simp_all add: append_traf_eq)

definition mfhd_of :: "nat \<Rightarrow> byte list" where
  "mfhd_of sequence = write_box (ascii ''mfhd'') (be_bytes 4 0 @ be_bytes 4 sequence)"

definition moof_front :: "nat \<Rightarrow> nat \<Rightarrow> byte list" where
  "moof_front moof_size sequence = be_bytes 4 moof_size @ ascii ''moof'' @ mfhd_of sequence"

lemma length_moof_front [simp]: "length (moof_front n sequence) = 24"
  by (simp add: moof_front_def mfhd_of_def)

lemma build_moof_eq:
  "build_moof plans sequence =
     (let rest = concat (map (\<lambda>p. traf_of p 0) plans); n = 24 + length rest in
      (moof_front n sequence @ rest, slots_of 24 plans))"
  by (simp add: build_moof_def fold_append_traf moof_front_def mfhd_of_def write_box_def Let_def)

lemma patch_traf:
  "patch_u32 (moof @ traf_of p 0 @ rest) (length moof + 8 + length (traf_head p)) offset = Inr (moof @ traf_of p offset @ rest)"
  by (simp add: patch_u32_def traf_of_def write_box_def)

lemma length_trafs_const: "length (concat (map (\<lambda>p. traf_of p 0) plans)) = (\<Sum>p \<leftarrow> plans. length (traf_of p 0))"
  by (induction plans) simp_all

lemma patch_offsets_layout:
  assumes "patch_offsets n plans (slots_of (length moof) plans) base (moof @ concat (map (\<lambda>p. traf_of p 0) plans)) = Inr r"
  shows "r = moof @ trafs_of plans (data_offsets (n + 8 + base) plans) \<and>
    (\<forall>o1 \<in> set (data_offsets (n + 8 + base) plans). o1 \<le> 2147483647)"
  using assms
proof (induction plans arbitrary: moof base)
  case Nil
  then show ?case by (simp add: trafs_of_def)
next
  case (Cons p plans)
  have "patch_offsets n plans (slots_of (length (moof @ traf_of p (n + 8 + base))) plans) (base + plan_byte_len p)
      ((moof @ traf_of p (n + 8 + base)) @ concat (map (\<lambda>p. traf_of p 0) plans)) = Inr r"
    and small: "n + 8 + base \<le> 2147483647"
    using Cons.prems patch_traf [of moof p "concat (map (\<lambda>p. traf_of p 0) plans)" "n + 8 + base"]
    by (auto simp: Let_def length_traf_of split: if_splits)
  from Cons.IH [OF this(1)] small show ?case
    by (simp add: trafs_of_def add.assoc)
qed

section \<open>Reading numbers back\<close>

lemma be_u32_at: "b = xs @ be_bytes 4 v @ ys \<Longrightarrow> p = length xs \<Longrightarrow> v \<le> U32_MAX \<Longrightarrow> be_u32 b p = Inr v"
  by (simp add: from_be_bytes)

lemma be_u64_at: "b = xs @ be_bytes 8 v @ ys \<Longrightarrow> p = length xs \<Longrightarrow> v \<le> U64_MAX \<Longrightarrow> be_u64 b p = Inr v"
  by (simp add: from_be_bytes)

lemma as_i32_bytes: "- 2147483648 \<le> x \<Longrightarrow> x \<le> 2147483647 \<Longrightarrow> as_i32 (nat (x mod 4294967296)) = x"
proof (cases "0 \<le> x")
  assume "- 2147483648 \<le> x" "\<not> 0 \<le> x"
  then have "x mod 4294967296 = x + 4294967296"
    using mod_pos_pos_trivial [of "x + 4294967296" 4294967296] by simp
  then show ?thesis using \<open>- 2147483648 \<le> x\<close> \<open>\<not> 0 \<le> x\<close> by (simp add: as_i32_def)
qed (simp add: as_i32_def)

section \<open>One run\<close>

definition sample_fits :: "sample \<Rightarrow> bool" where
  "sample_fits s \<longleftrightarrow> sm_duration s \<le> U32_MAX \<and> sm_size s \<le> U32_MAX \<and> - 2147483648 \<le> sm_cto s \<and> sm_cto s \<le> 2147483647"

abbreviation carries_cto :: "sample list \<Rightarrow> bool" where
  "carries_cto ss \<equiv> \<exists>s \<in> set ss. sm_cto s \<noteq> 0"

abbreviation row_width :: "bool \<Rightarrow> nat" where
  "row_width has_cto \<equiv> (if has_cto then 16 else 12)"

lemma trun_flags_cto [simp]: "trun_flags ss AND 0x800 \<noteq> 0 \<longleftrightarrow> carries_cto ss"
  by (simp add: trun_flags_def Let_def)

lemma trun_flags_bits:
  "trun_flags ss AND 1 \<noteq> 0" "trun_flags ss AND 4 = 0" "trun_flags ss AND 0x100 \<noteq> 0" "trun_flags ss AND 0x200 \<noteq> 0"
  "trun_flags ss AND 0x400 \<noteq> 0"
  by (simp_all add: trun_flags_def Let_def)

lemma length_sample_row [simp]: "length (sample_row has_cto s) = row_width has_cto"
  by (simp add: sample_row_def i32_bytes_def)

lemma sample_rows_length: "length (concat (map (sample_row has_cto) ss)) = length ss * row_width has_cto"
  by (induction ss) simp_all

lemma unat_u32: "unat (w :: 32 word) \<le> U32_MAX"
  using unsigned_less [of w, where 'a = nat] by simp

text \<open>The first word of the run box: the version in its top byte, the flags below.\<close>

lemma trun_word:
  fixes ss :: "sample list"
  defines "w \<equiv> unat (push_bit 24 (of_nat (trun_version ss)) OR trun_flags ss)"
  shows "w \<le> U32_MAX" "(of_nat w :: 32 word) AND 0x00ffffff = trun_flags ss"
    "hd (be_bytes 4 w) = of_nat (trun_version ss)" "trun_version ss \<le> 1"
proof -
  have flags: "trun_flags ss = 0x701 \<or> trun_flags ss = 0xF01"
    by (simp add: trun_flags_def Let_def)
  have version: "trun_version ss = 0 \<or> trun_version ss = 1" by (simp add: trun_version_def)
  then show "trun_version ss \<le> 1" by auto
  show "w \<le> U32_MAX" by (simp add: w_def unat_u32)
  show "(of_nat w :: 32 word) AND 0x00ffffff = trun_flags ss"
    using flags version by (auto simp: w_def)
  show "hd (be_bytes 4 w) = of_nat (trun_version ss)"
  proof -
    have "hd (be_bytes 4 w) = of_nat (w div 16777216)" using be_bytes.simps(2) [of 3 w] by simp
    moreover have "w div 16777216 = trun_version ss" using flags version by (auto simp: w_def)
    ultimately show ?thesis by simp
  qed
qed

text \<open>What a parser makes of a row: the sample, and the place of its size field.\<close>

fun reread :: "nat \<Rightarrow> bool \<Rightarrow> nat \<Rightarrow> sample list \<Rightarrow> sample list" where
  "reread base has_cto p [] = []"
| "reread base has_cto p (s # ss) =
     s\<lparr> sm_size_at := Some (base + p + 4) \<rparr> # reread base has_cto (p + row_width has_cto) ss"

lemma cto_bytes_read:
  assumes "sample_fits s" and "version = 0 \<Longrightarrow> 0 \<le> sm_cto s"
  shows "nat (clamp_i32 (sm_cto s) mod 4294967296) \<le> U32_MAX"
    "(if version = 0 then int (nat (clamp_i32 (sm_cto s) mod 4294967296)) else as_i32 (nat (clamp_i32 (sm_cto s) mod 4294967296))) = sm_cto s"
proof -
  have clamp: "clamp_i32 (sm_cto s) = sm_cto s" using assms(1) by (simp add: clamp_i32_def sample_fits_def)
  have "sm_cto s mod 4294967296 < 4294967296" by simp
  then show "nat (clamp_i32 (sm_cto s) mod 4294967296) \<le> U32_MAX" by (simp add: clamp)
  show "(if version = 0 then int (nat (clamp_i32 (sm_cto s) mod 4294967296)) else as_i32 (nat (clamp_i32 (sm_cto s) mod 4294967296))) = sm_cto s"
    using assms as_i32_bytes [of "sm_cto s"] by (auto simp: clamp sample_fits_def)
qed

lemma parse_sample_row:
  assumes fits: "sample_fits s"
    and bits: "flags AND 0x100 \<noteq> 0" "flags AND 0x200 \<noteq> 0" "flags AND 0x400 \<noteq> 0" "flags AND 0x800 \<noteq> 0 \<longleftrightarrow> has_cto"
    and cto: "\<not> has_cto \<Longrightarrow> sm_cto s = 0" "version = 0 \<Longrightarrow> 0 \<le> sm_cto s"
  shows "parse_sample (pre @ sample_row has_cto s @ post) base version flags defaults None i (length pre)
    = Inr (s\<lparr> sm_size_at := Some (base + length pre + 4) \<rparr>, length pre + row_width has_cto)"
proof -
  let ?raw = "nat (clamp_i32 (sm_cto s) mod 4294967296)"
  let ?b = "pre @ sample_row has_cto s @ post"
  have dur: "be_u32 ?b (length pre) = Inr (sm_duration s)"
    by (rule be_u32_at [where xs = pre]) (use fits in \<open>auto simp: sample_row_def sample_fits_def\<close>)
  have sz: "be_u32 ?b (length pre + 4) = Inr (sm_size s)"
    by (rule be_u32_at [where xs = "pre @ be_bytes 4 (sm_duration s)"]) (use fits in \<open>auto simp: sample_row_def sample_fits_def\<close>)
  have fl: "be_u32 ?b (length pre + 8) = Inr (unat (sm_flags s))"
    by (rule be_u32_at [where xs = "pre @ be_bytes 4 (sm_duration s) @ be_bytes 4 (sm_size s)"])
      (auto simp: sample_row_def unat_u32)
  have ct: "be_u32 ?b (length pre + 12) = Inr ?raw" if has_cto
    by (rule be_u32_at [where xs = "pre @ be_bytes 4 (sm_duration s) @ be_bytes 4 (sm_size s) @ be_bytes 4 (unat (sm_flags s))"])
      (use that cto_bytes_read(1) [OF fits cto(2)] in \<open>auto simp: sample_row_def i32_bytes_def\<close>)
  obtain B where B: "B = ?b" by simp
  obtain d z f where defaults: "defaults = (d, z, f)" by (cases defaults)
  have read: "be_u32 B (length pre) = Inr (sm_duration s)" "be_u32 B (length pre + 4) = Inr (sm_size s)"
    "be_u32 B (length pre + 8) = Inr (unat (sm_flags s))" "has_cto \<Longrightarrow> be_u32 B (length pre + 12) = Inr ?raw"
    using dur sz fl ct by (simp_all add: B)
  have "parse_sample B base version flags defaults None i (length pre)
    = Inr (s\<lparr> sm_size_at := Some (base + length pre + 4) \<rparr>, length pre + row_width has_cto)"
  proof (cases has_cto)
    case True
    have "parse_sample B base version flags defaults None i (length pre)
      = Inr (s\<lparr> sm_size_at := Some (base + length pre + 4), sm_cto := (if version = 0 then int ?raw else as_i32 ?raw) \<rparr>, length pre + 16)"
      using True read bits unfolding defaults parse_sample_def run_field_def
      by (simp add: add.assoc del: be_u32_in)
    moreover have "s\<lparr> sm_size_at := Some (base + length pre + 4), sm_cto := sm_cto s \<rparr> = s\<lparr> sm_size_at := Some (base + length pre + 4) \<rparr>"
      by (cases s) simp
    ultimately show ?thesis
      using True by (simp only: cto_bytes_read(2) [OF fits, of version, OF cto(2)] if_True)
  next
    case False
    then have "sm_cto s = 0" using cto(1) by simp
    then show ?thesis
      using False read bits unfolding defaults parse_sample_def run_field_def
      by (simp add: add.assoc del: be_u32_in)
  qed
  then show ?thesis by (simp add: B)
qed

lemma parse_sample_rows:
  assumes "\<forall>s \<in> set ss. sample_fits s \<and> (\<not> has_cto \<longrightarrow> sm_cto s = 0) \<and> (version = 0 \<longrightarrow> 0 \<le> sm_cto s)"
    and bits: "flags AND 0x100 \<noteq> 0" "flags AND 0x200 \<noteq> 0" "flags AND 0x400 \<noteq> 0" "flags AND 0x800 \<noteq> 0 \<longleftrightarrow> has_cto"
  shows "parse_samples (pre @ concat (map (sample_row has_cto) ss) @ post) base version flags defaults None i (length pre) (length ss)
    = Inr (reread base has_cto (length pre) ss)"
  using assms(1)
proof (induction ss arbitrary: pre i)
  case (Cons s ss)
  let ?b = "pre @ sample_row has_cto s @ concat (map (sample_row has_cto) ss) @ post"
  have "parse_sample ?b base version flags defaults None i (length pre)
      = Inr (s\<lparr> sm_size_at := Some (base + length pre + 4) \<rparr>, length pre + row_width has_cto)"
    by (rule parse_sample_row) (use Cons.prems bits in auto)
  moreover have "parse_samples ?b base version flags defaults None (Suc i) (length pre + row_width has_cto) (length ss)
      = Inr (reread base has_cto (length pre + row_width has_cto) ss)"
    using Cons.IH [of "pre @ sample_row has_cto s" "Suc i"] Cons.prems by simp
  ultimately show ?case by simp
qed simp

definition trun_payload :: "merge_plan \<Rightarrow> nat \<Rightarrow> byte list" where
  "trun_payload p offset =
     be_bytes 4 (unat (push_bit 24 (of_nat (trun_version (mp_samples p))) OR trun_flags (mp_samples p))) @
     be_bytes 4 (length (mp_samples p)) @ be_bytes 4 offset @ traf_rows p"

definition plan_fits :: "merge_plan \<Rightarrow> bool" where
  "plan_fits p \<longleftrightarrow> 0 < mp_track_id p \<and> mp_track_id p \<le> U32_MAX \<and> mp_base_decode_time p \<le> U64_MAX \<and>
     length (mp_samples p) \<le> MAX_SAMPLES_PER_RUN \<and> (\<forall>s \<in> set (mp_samples p). sample_fits s)"

definition reread_run :: "merge_plan \<Rightarrow> nat \<Rightarrow> nat \<Rightarrow> run" where
  "reread_run p base offset =
     (let ss = mp_samples p in
      \<lparr> rn_version = trun_version ss, rn_composition_offsets_present = carries_cto ss, rn_data_offset = offset,
        rn_data_offset_at = Some (base + 8), rn_samples = reread base (carries_cto ss) 12 ss \<rparr>)"

lemma parse_written_trun:
  assumes "plan_fits p" and "offset \<le> 2147483647"
  shows "parse_trun (trun_payload p offset) base defaults continue_from = Inr (reread_run p base offset)"
proof -
  let ?ss = "mp_samples p" and ?b = "trun_payload p offset"
  let ?w = "unat (push_bit 24 (of_nat (trun_version ?ss)) OR trun_flags ?ss)"
  let ?front = "be_bytes 4 ?w @ be_bytes 4 (length ?ss) @ be_bytes 4 offset"
  note word = trun_word [of ?ss]
  have len: "length ?ss \<le> 1048576" using assms(1) by (simp add: plan_fits_def MAX_SAMPLES_PER_RUN_def)
  have blen: "length ?b = 12 + length ?ss * row_width (carries_cto ?ss)"
    by (simp add: trun_payload_def traf_rows_def sample_rows_length)
  have "hd ?b = of_nat (trun_version ?ss)" using word(3) by (simp add: trun_payload_def hd_append)
  moreover have "?b \<noteq> []" by (simp add: trun_payload_def)
  ultimately have b0: "?b ! 0 = of_nat (trun_version ?ss)" by (simp add: hd_conv_nth)
  have version: "unat (of_nat (trun_version ?ss) :: byte) = trun_version ?ss"
    using word(4) by (simp add: unat_of_nat)
  have w0: "be_u32 ?b 0 = Inr ?w"
    by (rule be_u32_at [where xs = "[]"]) (use word(1) in \<open>simp_all add: trun_payload_def\<close>)
  have w4: "be_u32 ?b 4 = Inr (length ?ss)"
    by (rule be_u32_at [where xs = "be_bytes 4 ?w"]) (use len in \<open>simp_all add: trun_payload_def\<close>)
  have w8: "be_u32 ?b 8 = Inr offset"
    by (rule be_u32_at [where xs = "be_bytes 4 ?w @ be_bytes 4 (length ?ss)"]) (use assms(2) in \<open>simp_all add: trun_payload_def\<close>)
  have bytes: "bytes_per_sample (trun_flags ?ss) = row_width (carries_cto ?ss)"
    using trun_flags_bits [of ?ss] by (simp add: bytes_per_sample_def)
  have samples: "parse_samples ?b base (trun_version ?ss) (trun_flags ?ss) defaults None 0 12 (length ?ss)
      = Inr (reread base (carries_cto ?ss) 12 ?ss)"
  proof -
    have "parse_samples (?front @ concat (map (sample_row (carries_cto ?ss)) ?ss) @ []) base (trun_version ?ss) (trun_flags ?ss)
        defaults None 0 (length ?front) (length ?ss) = Inr (reread base (carries_cto ?ss) (length ?front) ?ss)"
      by (rule parse_sample_rows) (use assms(1) trun_flags_bits [of ?ss] in \<open>auto simp: plan_fits_def trun_version_def split: if_splits\<close>)
    then show ?thesis by (simp add: trun_payload_def traf_rows_def)
  qed
  have room: "\<not> length ?b < saturating_add_u64 12 (saturating_mul_u64 (length ?ss) (row_width (carries_cto ?ss)))"
    using blen len by (simp add: saturating_add_u64_def saturating_mul_u64_def)
  have small: "\<not> (1 :: byte) < of_nat (trun_version ?ss)"
    using word(4) by (auto simp: trun_version_def)
  have nonneg: "\<not> as_i32 offset < 0" using assms(2) by (simp add: as_i32_def)
  show ?thesis
    using blen len b0 version w0 w4 w8 samples room small nonneg trun_flags_bits [of ?ss] word(2)
    by (simp add: parse_trun_def parse_data_offset_def parse_first_flags_def reread_run_def Let_def bytes MAX_SAMPLES_PER_RUN_def)
qed

section \<open>One track fragment\<close>

definition tfhd_payload :: "merge_plan \<Rightarrow> byte list" where
  "tfhd_payload p = be_bytes 4 0x00020000 @ be_bytes 4 (mp_track_id p)"

definition tfdt_payload :: "merge_plan \<Rightarrow> byte list" where
  "tfdt_payload p = be_bytes 4 0x01000000 @ be_bytes 8 (mp_base_decode_time p)"

definition traf_boxes :: "merge_plan \<Rightarrow> nat \<Rightarrow> (byte list \<times> byte list) list" where
  "traf_boxes p offset =
     [(ascii ''tfhd'', tfhd_payload p), (ascii ''tfdt'', tfdt_payload p), (ascii ''trun'', trun_payload p offset)]"

abbreviation boxes_bytes :: "(byte list \<times> byte list) list \<Rightarrow> byte list" where
  "boxes_bytes bs \<equiv> concat (map (\<lambda>(ty, payload). write_box ty payload) bs)"

lemma length_payloads [simp]:
  "length (tfhd_payload p) = 8" "length (tfdt_payload p) = 12"
  "length (trun_payload p offset) = 12 + length (mp_samples p) * row_width (carries_cto (mp_samples p))"
  by (simp_all add: tfhd_payload_def tfdt_payload_def trun_payload_def traf_rows_def sample_rows_length)

lemma traf_payload_boxes: "traf_head p @ be_bytes 4 offset @ traf_rows p = boxes_bytes (traf_boxes p offset)"
proof -
  have "8 + 4 + 4 + 4 + length (mp_samples p) * (if trun_flags (mp_samples p) AND 0x00000800 \<noteq> 0 then 16 else 12)
      = 8 + length (trun_payload p offset)"
    by simp
  then show ?thesis
    unfolding traf_boxes_def traf_head_def Let_def
    by (simp add: write_box_def tfhd_payload_def tfdt_payload_def trun_payload_def del: length_payloads(3) trun_flags_cto)
qed

lemma slice_at: "b = xs @ ys @ zs \<Longrightarrow> s = length xs \<Longrightarrow> e = s + length ys \<Longrightarrow> slice_range b s e = Inr ys"
  by simp

lemma parse_written_tfhd:
  assumes "plan_fits p"
  shows "\<exists>defaults. parse_tfhd (tfhd_payload p) tracks fresh_traf = Inr (fresh_traf\<lparr> ts_track_id := mp_track_id p, ts_defaults := defaults \<rparr>)"
proof -
  have "be_u32 (tfhd_payload p) 0 = Inr 0x20000"
    by (rule be_u32_at [where xs = "[]"]) (simp_all add: tfhd_payload_def)
  moreover have "be_u32 (tfhd_payload p) 4 = Inr (mp_track_id p)"
    by (rule be_u32_at [where xs = "be_bytes 4 0x20000"]) (use assms in \<open>simp_all add: tfhd_payload_def plan_fits_def\<close>)
  ultimately show ?thesis
    by (simp add: parse_tfhd_def optional_default_def Let_def fresh_traf_def split: option.split del: be_u32_in)
qed

lemma parse_written_tfdt:
  assumes "plan_fits p"
  shows "parse_tfdt (tfdt_payload p) st = Inr (st\<lparr> ts_base_decode_time := mp_base_decode_time p \<rparr>)"
proof -
  have "be_u64 (tfdt_payload p) 4 = Inr (mp_base_decode_time p)"
    by (rule be_u64_at [where xs = "be_bytes 4 0x01000000"]) (use assms in \<open>simp_all add: tfdt_payload_def plan_fits_def\<close>)
  moreover have "tfdt_payload p ! 0 = 1"
    using be_bytes.simps(2) [of 3 "0x01000000"] by (simp add: tfdt_payload_def)
  moreover have "tfdt_payload p \<noteq> []" by (simp add: tfdt_payload_def)
  ultimately show ?thesis by (simp add: parse_tfdt_def del: be_u64_in)
qed

definition reread_traf :: "nat \<Rightarrow> merge_plan \<Rightarrow> nat \<Rightarrow> track_fragment" where
  "reread_traf base p offset =
     \<lparr> tf_track_id = mp_track_id p, tf_base_decode_time = mp_base_decode_time p, tf_runs = [reread_run p (base + 44) offset] \<rparr>"

lemma parse_written_traf:
  assumes "plan_fits p" "offset \<le> 2147483647"
    and small: "length (boxes_bytes (traf_boxes p offset)) \<le> MAX_BOX_BYTES"
  shows "parse_traf (boxes_bytes (traf_boxes p offset)) base tracks = Inr (reread_traf base p offset)"
proof -
  let ?hd = "write_box (ascii ''tfhd'') (tfhd_payload p)" and ?dt = "write_box (ascii ''tfdt'') (tfdt_payload p)"
  obtain b where b: "b = boxes_bytes (traf_boxes p offset)" by simp
  have bytes: "b = ?hd @ ?dt @ write_box (ascii ''trun'') (trun_payload p offset)"
    by (simp add: b traf_boxes_def)
  have cs: "children b = Inr (written_children 0 (traf_boxes p offset))"
    unfolding b by (rule children_written) (use small in \<open>simp_all add: traf_boxes_def\<close>)
  obtain defaults where tfhd: "parse_tfhd (tfhd_payload p) tracks fresh_traf = Inr (fresh_traf\<lparr> ts_track_id := mp_track_id p, ts_defaults := defaults \<rparr>)"
    using parse_written_tfhd [OF assms(1)] by blast
  have s1: "slice_range b 8 16 = Inr (tfhd_payload p)"
    by (rule slice_at [where xs = "be_bytes 4 16 @ ascii ''tfhd''"]) (simp_all add: bytes write_box_def)
  have s2: "slice_range b 24 36 = Inr (tfdt_payload p)"
    by (rule slice_at [where xs = "?hd @ be_bytes 4 20 @ ascii ''tfdt''"]) (simp_all add: bytes write_box_def)
  have s3: "slice_range b 44 (44 + length (trun_payload p offset)) = Inr (trun_payload p offset)"
    by (rule slice_at [where xs = "?hd @ ?dt @ be_bytes 4 (8 + length (trun_payload p offset)) @ ascii ''trun''" and zs = "[]"])
      (simp_all add: bytes write_box_def)
  have "for_each (written_children 0 (traf_boxes p offset)) (parse_traf_child b base tracks) fresh_traf
      = Inr \<lparr> ts_track_id = mp_track_id p, ts_base_decode_time = mp_base_decode_time p, ts_defaults = defaults,
          ts_runs = [reread_run p (base + 44) offset],
          ts_running_offset = wrapping_add_u64 offset (run_byte_len (reread_run p (base + 44) offset)) \<rparr>"
    using s1 s2 s3 tfhd
    by (simp add: traf_boxes_def parse_traf_child_def header_of_def parse_written_tfdt [OF assms(1)]
        parse_written_trun [OF assms(1,2)] fresh_traf_def reread_run_def Let_def del: length_payloads(3) slice_range_in)
  then show ?thesis
    using cs assms(1) by (simp add: parse_traf_def b [symmetric] reread_traf_def plan_fits_def)
qed

section \<open>The whole movie fragment box\<close>

type_synonym placed_plan = "merge_plan \<times> nat"

abbreviation traf_box :: "placed_plan \<Rightarrow> byte list \<times> byte list" where
  "traf_box po \<equiv> (ascii ''traf'', boxes_bytes (traf_boxes (fst po) (snd po)))"

fun reread_trafs :: "nat \<Rightarrow> placed_plan list \<Rightarrow> track_fragment list" where
  "reread_trafs n [] = []"
| "reread_trafs n (po # pos) =
     reread_traf (n + 8) (fst po) (snd po) # reread_trafs (n + 8 + length (snd (traf_box po))) pos"

definition placed_fits :: "placed_plan \<Rightarrow> bool" where
  "placed_fits po \<longleftrightarrow> plan_fits (fst po) \<and> snd po \<le> 2147483647"

lemma read_written_trafs:
  assumes "\<forall>po \<in> set pos. placed_fits po" and "body = pre @ boxes_bytes (map traf_box pos)" and "length body \<le> MAX_BOX_BYTES"
  shows "for_each (written_children (length pre) (map traf_box pos)) (parse_moof_child body header_len tracks) out
    = Inr (out @ reread_trafs (header_len + length pre) pos)"
  using assms
proof (induction pos arbitrary: pre out)
  case (Cons po pos)
  let ?payload = "snd (traf_box po)"
  have slice: "slice_range body (length pre + 8) (length pre + 8 + length ?payload) = Inr ?payload"
    by (rule slice_at [where xs = "pre @ be_bytes 4 (8 + length ?payload) @ ascii ''traf''" and zs = "boxes_bytes (map traf_box pos)"])
      (simp_all add: Cons.prems(2) write_box_def)
  have traf: "parse_traf ?payload (header_len + (length pre + 8)) tracks = Inr (reread_traf (header_len + (length pre + 8)) (fst po) (snd po))"
    unfolding snd_conv by (rule parse_written_traf) (use Cons.prems in \<open>simp_all add: placed_fits_def\<close>)
  have rest: "for_each (written_children (length pre + 8 + length ?payload) (map traf_box pos)) (parse_moof_child body header_len tracks)
      (out @ [reread_traf (header_len + (length pre + 8)) (fst po) (snd po)])
    = Inr ((out @ [reread_traf (header_len + (length pre + 8)) (fst po) (snd po)])
        @ reread_trafs (header_len + (length pre + 8 + length ?payload)) pos)"
    using Cons.IH [of "pre @ write_box (ascii ''traf'') ?payload"] Cons.prems by (simp add: add.assoc)
  have "parse_moof_child body header_len tracks (header_of (ascii ''traf'') ?payload, length pre + 8, length pre + 8 + length ?payload) out
      = Inr (out @ [reread_traf (header_len + (length pre + 8)) (fst po) (snd po)])"
    using slice traf by (simp add: parse_moof_child_def header_of_def del: slice_range_in)
  then show ?case using rest by (simp add: add.assoc)
qed simp

definition moof_of :: "nat \<Rightarrow> placed_plan list \<Rightarrow> byte list" where
  "moof_of sequence pos = write_box (ascii ''moof'') (mfhd_of sequence @ boxes_bytes (map traf_box pos))"

lemma parse_written_moof:
  assumes "\<forall>po \<in> set pos. placed_fits po" and "pos \<noteq> []" and "length (moof_of sequence pos) \<le> MAX_BOX_BYTES"
  shows "parse_moof (moof_of sequence pos) 8 tracks = Inr (reread_trafs 24 pos)"
proof -
  let ?bs = "(ascii ''mfhd'', be_bytes 4 0 @ be_bytes 4 sequence) # map traf_box pos"
  let ?body = "mfhd_of sequence @ boxes_bytes (map traf_box pos)"
  have body: "slice_range (moof_of sequence pos) 8 (length (moof_of sequence pos)) = Inr ?body"
    by (rule slice_at [where xs = "be_bytes 4 (8 + length ?body) @ ascii ''moof''" and zs = "[]"])
      (simp_all add: moof_of_def write_box_def)
  have boxes: "boxes_bytes ?bs = ?body" by (simp add: mfhd_of_def)
  have "children (boxes_bytes ?bs) = Inr (written_children 0 ?bs)"
    by (rule children_written) (use assms(3) in \<open>auto simp: moof_of_def mfhd_of_def\<close>)
  then have cs: "children ?body = Inr (written_children 0 ?bs)" by (simp only: boxes)
  have mfhd: "length (mfhd_of sequence) = 16" by (simp add: mfhd_of_def)
  have "for_each (written_children (length (mfhd_of sequence)) (map traf_box pos)) (parse_moof_child ?body 8 tracks) []
      = Inr ([] @ reread_trafs (8 + length (mfhd_of sequence)) pos)"
    by (rule read_written_trafs) (use assms in \<open>simp_all add: moof_of_def\<close>)
  then have "for_each (written_children 0 ?bs) (parse_moof_child ?body 8 tracks) [] = Inr (reread_trafs 24 pos)"
    by (simp add: parse_moof_child_def header_of_def mfhd)
  then show ?thesis using body cs assms(2) by (cases pos) (simp_all add: parse_moof_def del: slice_range_in)
qed

section \<open>The walk of the reader over a segment\<close>

definition skippable :: "byte list \<times> byte list \<Rightarrow> bool" where
  "skippable b \<longleftrightarrow> fst b \<in> {ascii ''styp'', ascii ''sidx''} \<and> 8 + length (snd b) \<le> MAX_BOX_BYTES"

lemma skip_written:
  assumes "skippable b" and "fd_init_done r" and "fd_buf r = pre @ write_box (fst b) (snd b) @ post" and "fd_pos r = length pre"
  shows "next_unit r = next_unit (r\<lparr> fd_pos := length pre + length (write_box (fst b) (snd b)) \<rparr>)"
proof -
  have ty: "length (fst b) = 4" using assms(1) by (auto simp: skippable_def)
  have "peek_box (fd_buf r) (fd_pos r) = Inr (Some (header_of (fst b) (snd b)))"
    unfolding peek_box_def assms(3,4) by (rule peek_written) (use ty assms(1) in \<open>simp_all add: skippable_def\<close>)
  then have "next_round r = Continue (r\<lparr> fd_pos := length pre + length (write_box (fst b) (snd b)) \<rparr>)"
    using assms ty by (auto simp: next_round_def media_round_def have_box_def header_of_def skip_box_def skippable_def)
  then show ?thesis by (simp add: next_unit.simps [of r])
qed

lemma skip_written_boxes:
  assumes "\<forall>b \<in> set bs. skippable b" and "fd_init_done r" and "fd_buf r = pre @ boxes_bytes bs @ post" and "fd_pos r = length pre"
  shows "next_unit r = next_unit (r\<lparr> fd_pos := length (pre @ boxes_bytes bs) \<rparr>)"
  using assms
proof (induction bs arbitrary: pre r)
  case Nil
  then show ?case by (cases r) simp
next
  case (Cons b bs)
  let ?w = "write_box (fst b) (snd b)"
  let ?r = "r\<lparr> fd_pos := length pre + length ?w \<rparr>"
  have buf: "fd_buf r = pre @ ?w @ boxes_bytes bs @ post" using Cons.prems(3) by (cases b) simp
  have "next_unit r = next_unit ?r"
    by (rule skip_written [OF _ Cons.prems(2) buf Cons.prems(4)]) (use Cons.prems(1) in simp)
  also have "next_unit ?r = next_unit (?r\<lparr> fd_pos := length ((pre @ ?w) @ boxes_bytes bs) \<rparr>)"
    by (rule Cons.IH) (use Cons.prems buf in simp_all)
  finally show ?case by (cases b) simp
qed

definition segment_fragment :: "nat \<Rightarrow> placed_plan list \<Rightarrow> byte list \<Rightarrow> fragment" where
  "segment_fragment sequence pos payload =
     (let moof = moof_of sequence pos; bytes = moof @ write_box (ascii ''mdat'') payload in
      \<lparr> fr_bytes = bytes, fr_mdat_payload = (length moof + 8, length bytes), fr_tracks = reread_trafs 24 pos \<rparr>)"

lemma read_written_fragment:
  assumes "\<forall>po \<in> set pos. placed_fits po" and "pos \<noteq> []"
    and "length (moof_of sequence pos) \<le> MAX_BOX_BYTES" and "8 + length payload \<le> MAX_BOX_BYTES"
    and "fd_init_done r" and "fd_buf r = pre @ moof_of sequence pos @ write_box (ascii ''mdat'') payload" and "fd_pos r = length pre"
  shows "next_unit r = (Inr (Some (FragmentUnit (segment_fragment sequence pos payload))), r\<lparr> fd_buf := [], fd_pos := 0 \<rparr>)"
proof -
  let ?moof = "moof_of sequence pos" and ?mdat = "write_box (ascii ''mdat'') payload"
  let ?inner = "mfhd_of sequence @ boxes_bytes (map traf_box pos)"
  have moof: "?moof = write_box (ascii ''moof'') ?inner" by (simp add: moof_of_def)
  have mlen: "length ?moof = 8 + length ?inner" by (simp add: moof)
  have peek1: "peek_box (fd_buf r) (length pre) = Inr (Some (header_of (ascii ''moof'') ?inner))"
    unfolding peek_box_def assms(6) moof by (rule peek_written) (use assms(3) moof in simp_all)
  have "peek_box_before ((pre @ ?moof) @ ?mdat @ []) (length (pre @ ?moof)) None = Inr (Some (header_of (ascii ''mdat'') payload))"
    by (rule peek_written) (use assms(4) in simp_all)
  then have peek2: "peek_box (fd_buf r) (length pre + (8 + length ?inner)) = Inr (Some (header_of (ascii ''mdat'') payload))"
    by (simp add: peek_box_def assms(6) mlen)
  have s1: "slice_range (fd_buf r) (length pre) (length pre + (8 + length ?inner)) = Inr ?moof"
    by (rule slice_at [where xs = pre and zs = ?mdat]) (use assms(6) mlen in simp_all)
  have s2: "slice_range (fd_buf r) (length pre) (length pre + (8 + length ?inner) + (8 + length payload)) = Inr (?moof @ ?mdat)"
    by (rule slice_at [where xs = pre and zs = "[]"]) (use assms(6) mlen in simp_all)
  have parse: "parse_moof ?moof 8 (fd_tracks r) = Inr (reread_trafs 24 pos)"
    by (rule parse_written_moof [OF assms(1-3)])
  have total: "length (fd_buf r) = length pre + (8 + length ?inner) + (8 + length payload)" using assms(6) mlen by simp
  have "fragment_round (header_of (ascii ''moof'') ?inner) r
      = Return (Inr (Some (FragmentUnit (segment_fragment sequence pos payload)))) (r\<lparr> fd_buf := [], fd_pos := 0 \<rparr>)"
    unfolding fragment_round_def assms(7) Let_def
    using peek2 s1 s2 parse total mlen
    by (simp add: header_of_def segment_fragment_def compact_buf_def Let_def del: slice_range_in)
  then have "next_round r = Return (Inr (Some (FragmentUnit (segment_fragment sequence pos payload)))) (r\<lparr> fd_buf := [], fd_pos := 0 \<rparr>)"
    using peek1 total assms(5,7) by (simp add: next_round_def media_round_def have_box_def header_of_def)
  then show ?thesis by (simp add: next_unit.simps [of r])
qed

lemma drain_empty: "fd_buf r = [] \<Longrightarrow> fd_pos r = 0 \<Longrightarrow> drain r = ([], None, r)"
  by (simp add: drain.simps [of r] next_unit.simps [of r] next_round_def peek_box_def peek_box_before_def)

lemma read_segment_layout:
  assumes "\<forall>b \<in> set bs. skippable b" and "\<forall>po \<in> set pos. placed_fits po" and "pos \<noteq> []"
    and "length (moof_of sequence pos) \<le> MAX_BOX_BYTES" and "8 + length payload \<le> MAX_BOX_BYTES"
    and "fd_init_done r" "fd_pos r = 0"
    and "fd_buf r = boxes_bytes bs @ moof_of sequence pos @ write_box (ascii ''mdat'') payload"
  shows "drain r = ([FragmentUnit (segment_fragment sequence pos payload)], None, r\<lparr> fd_buf := [], fd_pos := 0 \<rparr>)"
proof -
  have "next_unit r = next_unit (r\<lparr> fd_pos := length ([] @ boxes_bytes bs) \<rparr>)"
    by (rule skip_written_boxes) (use assms in simp_all)
  also have "\<dots> = (Inr (Some (FragmentUnit (segment_fragment sequence pos payload))), r\<lparr> fd_buf := [], fd_pos := 0 \<rparr>)"
    using read_written_fragment [of pos sequence payload "r\<lparr> fd_pos := length ([] @ boxes_bytes bs) \<rparr>" "boxes_bytes bs"] assms by simp
  finally show ?thesis by (simp add: drain.simps [of r] drain_empty)
qed

end
