(* ===== verification/Fmp4Promises.thy ===== *)
theory Fmp4Promises
  imports Fmp4RoundTrip Fmp4Joins
begin

text \<open>
  What a merged segment promises to its readers: it is one fragment that carries the samples of
  its sources, byte for byte, track by track.
\<close>

section \<open>The layout of a written segment\<close>

lemma styp_box: "STYP = write_box (ascii ''styp'') (ascii ''msdh'' @ [0, 0, 0, 0] @ ascii ''msdh'' @ ascii ''msix'')"
proof -
  have "be_bytes 4 24 = [0, 0, 0, 24 :: byte]" by (simp add: be_bytes_numeral)
  then show ?thesis by (simp add: STYP_def write_box_def)
qed

lemma sidx_box: "\<exists>payload. length payload = 44 \<and> write_sidx i ts ept fo rs d = write_box (ascii ''sidx'') payload"
  unfolding write_sidx_def write_box_def SIDX_BYTES_def
  by (intro exI [of _ "be_bytes 4 0x01000000 @ be_bytes 4 i @ be_bytes 4 ts @ be_bytes 8 ept @ be_bytes 8 fo @ be_bytes 2 0 @
       be_bytes 2 1 @ be_bytes 4 (rs mod 0x80000000) @ be_bytes 4 d @ be_bytes 4 0x80000000"]) simp

lemma sidxs_boxes: "\<exists>bs. (\<forall>b \<in> set bs. skippable b) \<and> write_sidxs ini rs plans = boxes_bytes bs"
proof (induction plans)
  case (Cons p plans)
  then obtain bs where bs: "\<forall>b \<in> set bs. skippable b" "write_sidxs ini rs plans = boxes_bytes bs" by blast
  obtain payload where "length payload = 44" and "write_sidxs ini rs (p # plans) = write_box (ascii ''sidx'') payload @ write_sidxs ini rs plans"
    using sidx_box by (simp add: Let_def) blast
  then show ?case
    using bs by (intro exI [of _ "(ascii ''sidx'', payload) # bs"]) (simp add: skippable_def MAX_BOX_BYTES_def)
qed (auto intro: exI [of _ "[]"])

lemma front_boxes: "\<exists>bs. (\<forall>b \<in> set bs. skippable b) \<and> STYP @ write_sidxs ini rs plans = boxes_bytes bs"
proof -
  obtain bs where "\<forall>b \<in> set bs. skippable b" "write_sidxs ini rs plans = boxes_bytes bs" using sidxs_boxes by blast
  then show ?thesis
    by (intro exI [of _ "(ascii ''styp'', ascii ''msdh'' @ [0, 0, 0, 0] @ ascii ''msdh'' @ ascii ''msix'') # bs"])
      (simp add: styp_box skippable_def MAX_BOX_BYTES_def)
qed

definition moof_size :: "merge_plan list \<Rightarrow> nat" where
  "moof_size plans = 24 + (\<Sum>p \<leftarrow> plans. length (traf_of p 0))"

definition placed :: "merge_plan list \<Rightarrow> placed_plan list" where
  "placed plans = zip plans (data_offsets (moof_size plans + 8) plans)"

lemma length_data_offsets [simp]: "length (data_offsets base plans) = length plans"
  by (induction plans arbitrary: base) simp_all

lemma traf_of_box: "traf_of p offset = write_box (ascii ''traf'') (snd (traf_box (p, offset)))"
  by (simp add: traf_of_def traf_payload_boxes)

lemma trafs_boxes: "trafs_of plans offsets = boxes_bytes (map traf_box (zip plans offsets))"
  unfolding trafs_of_def by (induction plans offsets rule: list_induct2') (simp_all add: traf_of_box)

lemma length_trafs_of: "length offsets = length plans \<Longrightarrow> length (trafs_of plans offsets) = (\<Sum>p \<leftarrow> plans. length (traf_of p 0))"
  unfolding trafs_of_def by (induction plans offsets rule: list_induct2') (simp_all add: length_traf_of)

lemma moof_of_placed:
  "moof_front (moof_size plans) sequence @ trafs_of plans (data_offsets (moof_size plans + 8) plans) = moof_of sequence (placed plans)"
proof -
  let ?t = "trafs_of plans (data_offsets (moof_size plans + 8) plans)"
  have "moof_size plans = 8 + length (mfhd_of sequence @ ?t)"
    by (simp add: moof_size_def length_trafs_of mfhd_of_def)
  then show ?thesis by (simp add: moof_front_def moof_of_def write_box_def placed_def trafs_boxes)
qed

lemma length_moof_of: "length (moof_of sequence (placed plans)) = moof_size plans"
  by (simp add: moof_of_placed [symmetric] length_trafs_of moof_size_def)

definition plan_output :: "fragment list \<Rightarrow> merge_plan \<Rightarrow> byte list list" where
  "plan_output fs p = map (\<lambda>sl. carried (ml_strip sl) (slice_source fs sl)) (mp_slices p)"

lemma write_segment_layout:
  assumes "write_segment fs ini sequence plans = Inr out" and "\<forall>p \<in> set plans. \<forall>sl \<in> set (mp_slices p). slice_ok fs (ml_strip sl) sl"
  obtains bs where "\<forall>b \<in> set bs. skippable b"
    and "out = boxes_bytes bs @ moof_of sequence (placed plans) @ write_box (ascii ''mdat'') (concat (concat (map (plan_output fs) plans)))"
    and "\<forall>po \<in> set (placed plans). snd po \<le> 2147483647"
    and "\<forall>p \<in> set plans. map length (plan_output fs p) = map ml_output_len (mp_slices p)"
proof -
  let ?zeros = "concat (map (\<lambda>p. traf_of p 0) plans)" and ?n = "moof_size plans"
  let ?total = "sum_list (map plan_byte_len plans)"
  have n: "24 + length ?zeros = ?n" by (simp add: moof_size_def length_trafs_const)
  have moof: "build_moof plans sequence = (moof_front ?n sequence @ ?zeros, slots_of 24 plans)"
    by (simp add: build_moof_eq Let_def n del: length_concat)
  obtain patched where total: "?total + 8 \<le> U32_MAX"
    and patch: "patch_offsets ?n plans (slots_of 24 plans) 0 (moof_front ?n sequence @ ?zeros) = Inr patched"
    and each: "for_each (concat (map mp_slices plans)) (slice_payload fs)
      (STYP @ write_sidxs ini (?n + (?total + 8)) plans @ patched @ be_bytes 4 (?total + 8) @ ascii ''mdat'') = Inr out"
    using assms(1) n
    by (auto simp: write_segment_def moof checked_add_usize_def and_then_Inr split: if_splits simp del: length_concat)
  have slots: "slots_of 24 plans = slots_of (length (moof_front ?n sequence)) plans" by simp
  note layout = patch_offsets_layout [OF patch [unfolded slots]]
  have patched: "patched = moof_of sequence (placed plans)" and small: "\<forall>o1 \<in> set (data_offsets (?n + 8) plans). o1 \<le> 2147483647"
    using layout moof_of_placed [of plans sequence] by simp_all
  have ok: "\<forall>sl \<in> set (concat (map mp_slices plans)). slice_ok fs (ml_strip sl) sl" using assms(2) by auto
  note carried = slice_payloads_carried [OF ok each]
  have lens: "\<forall>p \<in> set plans. map length (plan_output fs p) = map ml_output_len (mp_slices p)"
    using carried by (auto simp: plan_output_def)
  have payload: "concat (map (\<lambda>sl. carried (ml_strip sl) (slice_source fs sl)) (concat (map mp_slices plans)))
      = concat (concat (map (plan_output fs) plans))"
    by (induction plans) (simp_all add: plan_output_def)
  have "length (concat (plan_output fs p)) = plan_byte_len p" if "p \<in> set plans" for p
    using lens that by (simp add: length_concat plan_byte_len_def)
  then have "length (concat (concat (map (plan_output fs) plans))) = ?total"
    by (induction plans) simp_all
  then have mdat: "be_bytes 4 (?total + 8) @ ascii ''mdat'' @ concat (concat (map (plan_output fs) plans))
      = write_box (ascii ''mdat'') (concat (concat (map (plan_output fs) plans)))"
    by (simp add: write_box_def add.commute)
  obtain bs where bs: "\<forall>b \<in> set bs. skippable b" "STYP @ write_sidxs ini (?n + (?total + 8)) plans = boxes_bytes bs"
    using front_boxes by blast
  have out: "out = (STYP @ write_sidxs ini (?n + (?total + 8)) plans) @ patched @
      (be_bytes 4 (?total + 8) @ ascii ''mdat'' @ concat (concat (map (plan_output fs) plans)))"
    using carried payload by simp
  show ?thesis
  proof (rule that [OF bs(1) _ _ lens])
    show "out = boxes_bytes bs @ moof_of sequence (placed plans) @ write_box (ascii ''mdat'') (concat (concat (map (plan_output fs) plans)))"
      using out unfolding bs(2) patched mdat .
    show "\<forall>po \<in> set (placed plans). snd po \<le> 2147483647"
      using small by (auto simp: placed_def dest: set_zip_rightD)
  qed
qed

section \<open>Where the bytes of a plan are\<close>

lemma run_payloads_at:
  "bytes = pre @ concat outs @ post \<Longrightarrow> map sm_size ss = map length outs \<Longrightarrow> run_payloads bytes (length pre) ss = outs"
proof (induction ss arbitrary: pre outs)
  case (Cons s ss)
  then obtain o1 outs' where outs: "outs = o1 # outs'" "sm_size s = length o1" "map sm_size ss = map length outs'" by (cases outs) auto
  have "run_payloads bytes (length (pre @ o1)) ss = outs'"
    by (rule Cons.IH) (use Cons.prems(1) outs in simp_all)
  then show ?case using Cons.prems(1) outs by simp
qed simp

lemma map_sm_size_reread [simp]: "map sm_size (reread base has_cto p ss) = map sm_size ss"
  by (induction ss arbitrary: p) simp_all

lemma map_fields_reread [simp]:
  "map timeless (reread base has_cto p ss) = map timeless ss" "map sm_duration (reread base has_cto p ss) = map sm_duration ss"
  by (induction ss arbitrary: p) simp_all

lemma plans_lie_in_payload:
  assumes "\<forall>p \<in> set plans. length (concat (outs p)) = plan_byte_len p" and "length pre = base"
  shows "\<forall>(p, offset) \<in> set (zip plans (data_offsets base plans)).
    \<exists>xs ys. pre @ concat (concat (map outs plans)) = xs @ concat (outs p) @ ys \<and> length xs = offset"
  using assms
proof (induction plans arbitrary: pre base)
  case (Cons p plans)
  have rest: "\<forall>(q, offset) \<in> set (zip plans (data_offsets (base + plan_byte_len p) plans)).
    \<exists>xs ys. (pre @ concat (outs p)) @ concat (concat (map outs plans)) = xs @ concat (outs q) @ ys \<and> length xs = offset"
    by (rule Cons.IH) (use Cons.prems in simp_all)
  have first: "\<exists>xs ys. pre @ concat (concat (map outs (p # plans))) = xs @ concat (outs p) @ ys \<and> length xs = base"
    by (rule exI [of _ pre], rule exI [of _ "concat (concat (map outs plans))"]) (use Cons.prems(2) in simp)
  show ?case using rest first by auto
qed simp

lemma placed_ids: "map (mp_track_id \<circ> fst) (placed plans) = map mp_track_id plans"
  unfolding placed_def by (simp only: map_map [symmetric] map_fst_zip length_data_offsets)

lemma reread_trafs_ids: "map tf_track_id (reread_trafs n pos) = map (mp_track_id \<circ> fst) pos"
  by (induction pos arbitrary: n) (simp_all add: reread_traf_def)

lemma reread_trafs_of:
  "tf \<in> set (reread_trafs n pos) \<Longrightarrow> \<exists>base. \<exists>po \<in> set pos. tf = reread_traf base (fst po) (snd po)"
proof (induction pos arbitrary: n)
  case (Cons po pos)
  show ?case
  proof (cases "tf = reread_traf (n + 8) (fst po) (snd po)")
    case False
    then have "tf \<in> set (reread_trafs (n + 8 + length (snd (traf_box po))) pos)" using Cons.prems by simp
    from Cons.IH [OF this] show ?thesis by auto
  qed auto
qed simp

lemma find_by_id:
  "distinct (map tf_track_id tfs) \<Longrightarrow> tf \<in> set tfs \<Longrightarrow> find (\<lambda>t. tf_track_id t = tf_track_id tf) tfs = Some tf"
  by (induction tfs) (auto simp: image_iff)

section \<open>The segment is its sources\<close>

lemma plan_of_source:
  assumes "plan_carries fs strip p" and "\<forall>f \<in> set fs. fragment_fits f" and "mp_track_id p \<in> set (track_union fs)"
    and "length (track_samples fs (mp_track_id p)) \<le> MAX_SAMPLES_PER_RUN"
  shows "plan_fits p"
proof -
  let ?i = "mp_track_id p"
  have carries: "map timeless (mp_samples p) = map timeless (track_samples fs ?i)"
    "map sm_size (mp_samples p) = map ml_output_len (mp_slices p)" "\<forall>sl \<in> set (mp_slices p). slice_ok fs (strip_for strip ?i) sl"
    "Some (mp_base_decode_time p) = start_time fs ?i" "\<forall>s \<in> set (mp_samples p). sm_duration s \<le> U32_MAX"
    using assms(1) by (simp_all add: plan_carries_def Let_def)
  obtain f tf where f: "f \<in> set fs" "tf \<in> set (fr_tracks f)" "tf_track_id tf = ?i"
    using assms(3) by (auto simp: track_union_facts)
  have "0 < tf_track_id tf" "tf_track_id tf \<le> U32_MAX" using assms(2) f(1,2) by (auto simp: fragment_fits_def)
  then have id: "0 < ?i" "?i \<le> U32_MAX" by (simp_all add: f(3))
  have cto: "- 2147483648 \<le> sm_cto s \<and> sm_cto s \<le> 2147483647" if "s \<in> set (track_samples fs ?i)" for s
  proof -
    from that obtain g where g: "g \<in> set fs" "s \<in> set (fragment_samples ?i g)" by (auto simp: track_samples_def)
    then obtain tg where "fragment_track g ?i = Some tg" "s \<in> set (tf_samples tg)"
      by (cases "fragment_track g ?i") (auto simp: fragment_samples_def)
    then have "source_sample_fits s"
      using assms(2) g(1) fragment_track_Some [of g ?i tg] unfolding fragment_fits_def by blast
    then show ?thesis by (simp add: source_sample_fits_def)
  qed
  have "sm_cto ` set (mp_samples p) = sm_cto ` set (track_samples fs ?i)"
    using arg_cong [OF carries(1), of "\<lambda>xs. snd ` set xs"] by (simp add: image_image)
  also have "\<dots> \<subseteq> {x. - 2147483648 \<le> x \<and> x \<le> 2147483647}" using cto by blast
  finally have cto2: "\<forall>s \<in> set (mp_samples p). - 2147483648 \<le> sm_cto s \<and> sm_cto s \<le> 2147483647" by auto
  have "set (map sm_size (mp_samples p)) \<subseteq> {n. n \<le> U32_MAX}"
    unfolding carries(2) using carries(3) by (auto simp: slice_ok_def)
  then have sizes: "\<forall>s \<in> set (mp_samples p). sm_size s \<le> U32_MAX" by auto
  have base: "mp_base_decode_time p \<le> U64_MAX"
  proof -
    obtain tfs where "List.map_filter (\<lambda>f. fragment_track f ?i) fs = tfs" "tfs \<noteq> []" "mp_base_decode_time p = tf_base_decode_time (hd tfs)"
      using carries(4) by (auto simp: start_time_def split: list.splits)
    then have "hd tfs \<in> set (List.map_filter (\<lambda>f. fragment_track f ?i) fs)" by simp
    then obtain g where g: "g \<in> set fs" "fragment_track g ?i = Some (hd tfs)"
      by (auto simp: List.map_filter_def)
    then show ?thesis
      using assms(2) fragment_track_Some [OF g(2)] \<open>mp_base_decode_time p = tf_base_decode_time (hd tfs)\<close>
      unfolding fragment_fits_def by fastforce
  qed
  have "length (mp_samples p) \<le> MAX_SAMPLES_PER_RUN" using arg_cong [OF carries(1), of length] assms(4) by simp
  then show ?thesis using id base cto2 sizes carries(5) by (simp add: plan_fits_def sample_fits_def)
qed

definition carries_track :: "fragment list \<Rightarrow> (nat \<times> nat) option \<Rightarrow> fragment \<Rightarrow> nat \<Rightarrow> bool" where
  "carries_track fs strip frag i \<longleftrightarrow>
     fragment_payloads i frag = map (carried (strip_for strip i)) (track_payloads fs i) \<and>
     map timeless (fragment_samples i frag) = map timeless (track_samples fs i) \<and>
     start_time [frag] i = start_time fs i \<and>
     (gapless fs i \<longrightarrow> map sm_duration (fragment_samples i frag) = map sm_duration (track_samples fs i))"

lemma written_plan_carries:
  assumes carries: "\<forall>p \<in> set plans. plan_carries fs strip p" and distinct: "distinct (map mp_track_id plans)"
    and lens: "\<forall>p \<in> set plans. map length (plan_output fs p) = map ml_output_len (mp_slices p)"
    and p: "p \<in> set plans"
  shows "carries_track fs strip (segment_fragment sequence (placed plans) (concat (concat (map (plan_output fs) plans)))) (mp_track_id p)"
proof -
  let ?frag = "segment_fragment sequence (placed plans) (concat (concat (map (plan_output fs) plans)))"
  let ?i = "mp_track_id p"
  have ids: "map tf_track_id (fr_tracks ?frag) = map mp_track_id plans"
    by (simp add: segment_fragment_def Let_def reread_trafs_ids placed_ids del: comp_apply)
  have c: "map timeless (mp_samples p) = map timeless (track_samples fs ?i)"
    "map sm_size (mp_samples p) = map ml_output_len (mp_slices p)" "map (slice_source fs) (mp_slices p) = track_payloads fs ?i"
    "\<forall>sl \<in> set (mp_slices p). slice_ok fs (strip_for strip ?i) sl" "Some (mp_base_decode_time p) = start_time fs ?i"
    "gapless fs ?i \<longrightarrow> map sm_duration (mp_samples p) = map sm_duration (track_samples fs ?i)"
    using carries p by (simp_all add: plan_carries_def Let_def)
  have "?i \<in> set (map tf_track_id (fr_tracks ?frag))" using p by (simp add: ids)
  then obtain tf where tf: "tf \<in> set (fr_tracks ?frag)" "tf_track_id tf = ?i" by auto
  then obtain base q offset where q: "(q, offset) \<in> set (placed plans)" "tf = reread_traf base q offset"
    by (auto simp: segment_fragment_def Let_def dest!: reread_trafs_of)
  have "q \<in> set plans" using q(1) by (auto simp: placed_def dest: set_zip_leftD)
  then have qp: "q = p" using distinct p q(2) tf(2) by (auto simp: reread_traf_def distinct_map inj_on_def)
  have track: "fragment_track ?frag ?i = Some tf"
    using find_by_id [of "fr_tracks ?frag" tf] ids distinct tf by (simp add: fragment_track_def)
  have samples: "fragment_samples ?i ?frag = reread (base + 44) (carries_cto (mp_samples p)) 12 (mp_samples p)"
    by (simp add: fragment_samples_def track q(2) qp reread_traf_def tf_samples_def reread_run_def Let_def)
  have out: "plan_output fs p = map (carried (strip_for strip ?i)) (track_payloads fs ?i)"
    unfolding plan_output_def c(3) [symmetric] map_map comp_def
    by (rule map_cong [OF refl]) (use c(4) in \<open>simp add: slice_ok_def\<close>)
  let ?pre = "moof_of sequence (placed plans) @ be_bytes 4 (8 + length (concat (concat (map (plan_output fs) plans)))) @ ascii ''mdat''"
  have lenp: "\<forall>p \<in> set plans. length (concat (plan_output fs p)) = plan_byte_len p"
    using lens by (simp add: length_concat plan_byte_len_def)
  have pre: "length ?pre = moof_size plans + 8" by (simp add: length_moof_of)
  from plans_lie_in_payload [OF lenp pre] q(1) qp obtain xs ys where
    at: "?pre @ concat (concat (map (plan_output fs) plans)) = xs @ concat (plan_output fs p) @ ys" "length xs = offset"
    unfolding placed_def [of plans] by fastforce
  have bytes: "fr_bytes ?frag = xs @ concat (plan_output fs p) @ ys"
    using at(1) by (simp add: segment_fragment_def Let_def write_box_def)
  have "fragment_payloads ?i ?frag = run_payloads (fr_bytes ?frag) (length xs) (fragment_samples ?i ?frag)"
    unfolding samples
    by (simp add: fragment_payloads_def track q(2) qp reread_traf_def runs_payloads_def reread_run_def Let_def at(2))
  also have "\<dots> = plan_output fs p"
    by (rule run_payloads_at [OF bytes]) (use lens p c(2) in \<open>simp add: samples\<close>)
  finally have payloads: "fragment_payloads ?i ?frag = map (carried (strip_for strip ?i)) (track_payloads fs ?i)" by (simp add: out)
  have "start_time [?frag] ?i = Some (mp_base_decode_time p)"
    by (simp add: start_time_def List.map_filter_def track q(2) qp reread_traf_def)
  then show ?thesis using payloads c(1,5,6) by (simp add: carries_track_def samples)
qed

text \<open>Two fragments of one track, behind two bytes each that stand for their boxes.\<close>

definition demo_source :: "nat \<Rightarrow> byte list \<Rightarrow> fragment" where
  "demo_source t bytes = \<lparr> fr_bytes = [9, 9] @ bytes, fr_mdat_payload = (2, 2 + length bytes), fr_tracks =
     [\<lparr> tf_track_id = 1, tf_base_decode_time = t, tf_runs = [\<lparr> rn_version = 0, rn_composition_offsets_present = True,
        rn_data_offset = 2, rn_data_offset_at = None, rn_samples =
          [\<lparr> sm_duration = 40, sm_size = length bytes, sm_size_at = None, sm_flags = 0x2000000, sm_cto = 80 \<rparr>] \<rparr>] \<rparr>] \<rparr>"

definition demo_sources :: "fragment list" where
  "demo_sources = [demo_source 1000 [1, 2, 3], demo_source 1040 [4, 5]]"

definition demo_movie :: init_segment where
  "demo_movie = \<lparr> in_bytes = [], in_tracks = [fresh_track\<lparr> tr_id := 1, tr_kind := Audio, tr_timescale := 48000 \<rparr>] \<rparr>"

definition demo_plan :: merge_plan where
  "demo_plan = \<lparr> mp_track_id = 1, mp_base_decode_time = 1000,
     mp_samples = [\<lparr> sm_duration = 40, sm_size = 3, sm_size_at = None, sm_flags = 0x2000000, sm_cto = 80 \<rparr>,
                   \<lparr> sm_duration = 40, sm_size = 2, sm_size_at = None, sm_flags = 0x2000000, sm_cto = 80 \<rparr>],
     mp_slices = [\<lparr> ml_fragment = 0, ml_start = 2, ml_source_len = 3, ml_output_len = 3, ml_strip = None \<rparr>,
                  \<lparr> ml_fragment = 1, ml_start = 2, ml_source_len = 2, ml_output_len = 2, ml_strip = None \<rparr>] \<rparr>"

lemma demo_plans: "for_each (track_union demo_sources) (plan_track demo_sources None) ([], 0) = Inr ([demo_plan], 0)"
  by (simp add: demo_sources_def demo_source_def demo_plan_def track_union_def plan_track_def join_fragment_def
      fragment_track_def join_run_def join_sample_def checked_add_usize_def absorb_join_def runs_duration_def Let_def)

lemma demo_plan_parts:
  "mp_track_id demo_plan = 1" "mp_base_decode_time demo_plan = 1000" "plan_byte_len demo_plan = 5" "plan_duration demo_plan = 80"
  "mp_slices demo_plan = [\<lparr> ml_fragment = 0, ml_start = 2, ml_source_len = 3, ml_output_len = 3, ml_strip = None \<rparr>,
     \<lparr> ml_fragment = 1, ml_start = 2, ml_source_len = 2, ml_output_len = 2, ml_strip = None \<rparr>]"
  "length (traf_of demo_plan n) = 96"
  by (simp_all add: demo_plan_def plan_byte_len_def plan_duration_def length_traf_of traf_head_def traf_rows_def
      sample_rows_length Let_def trun_flags_def)

lemma demo_written: "\<exists>out. write_segment demo_sources demo_movie 7 [demo_plan] = Inr out \<and> length out \<le> 1000"
proof -
  have patch: "patch_u32 (moof_front 120 7 @ traf_of demo_plan 0) (32 + length (traf_head demo_plan)) 128
      = Inr (moof_front 120 7 @ traf_of demo_plan 128)"
    using patch_traf [of "moof_front 120 7" demo_plan "[]" 128] by simp
  show ?thesis
    using patch
    by (simp add: write_segment_def build_moof_eq Let_def checked_add_usize_def demo_plan_parts slice_payload_def demo_sources_def
        demo_source_def saturating_add_u64_def STYP_def write_sidx_def SIDX_BYTES_def)
qed

text \<open>C5: Merging loses nothing: a reader that is fed the merged segment finds exactly one fragment, with
  the tracks of the sources that have samples, in order of appearance; every track carries the samples
  of its sources one by one, with the bytes they had (or those bytes without their parameter sets,
  on the track that sheds them), the same flags and composition offsets, the same starting time,
  and, when the sources leave no gap, the same durations.\<close>

theorem merged_segment_reads_back:
  assumes merge: "merge_retaining fs ini sequence retain = Inr seg" and strip: "strip_track ini retain = Inr strip"
    and fits: "\<forall>f \<in> set fs. fragment_fits f" "\<forall>i. length (track_samples fs i) \<le> MAX_SAMPLES_PER_RUN"
      "length (sg_bytes seg) \<le> MAX_BOX_BYTES"
    and reader: "fd_init_done r" "fd_buf r = []" "fd_pos r = 0"
  shows "\<exists>frag. drain (push_bytes (sg_bytes seg) r) = ([FragmentUnit frag], None, r) \<and>
    map tf_track_id (fr_tracks frag) = filter (\<lambda>i. track_samples fs i \<noteq> []) (track_union fs) \<and>
    (\<forall>tf \<in> set (fr_tracks frag). carries_track fs strip frag (tf_track_id tf))"
proof -
  obtain plans n where plans: "for_each (track_union fs) (plan_track fs strip) ([], 0) = Inr (plans, n)" "plans \<noteq> []"
    and out: "write_segment fs ini sequence plans = Inr (sg_bytes seg)"
    using merge strip by (auto simp: merge_retaining_def and_then_Inr split: if_splits)
  from plan_tracks_carry [OF fits(1) plans(1)] have
    ids: "map mp_track_id plans = filter (\<lambda>i. track_samples fs i \<noteq> []) (track_union fs)" and carry: "\<forall>p \<in> set plans. plan_carries fs strip p"
    by auto
  have ok: "\<forall>p \<in> set plans. \<forall>sl \<in> set (mp_slices p). slice_ok fs (ml_strip sl) sl"
    using carry by (auto simp: plan_carries_def Let_def slice_ok_def)
  obtain bs where bs: "\<forall>b \<in> set bs. skippable b"
    and bytes: "sg_bytes seg = boxes_bytes bs @ moof_of sequence (placed plans) @
      write_box (ascii ''mdat'') (concat (concat (map (plan_output fs) plans)))"
    and small: "\<forall>po \<in> set (placed plans). snd po \<le> 2147483647"
    and lens: "\<forall>p \<in> set plans. map length (plan_output fs p) = map ml_output_len (mp_slices p)"
    by (rule write_segment_layout [OF out ok])
  let ?payload = "concat (concat (map (plan_output fs) plans))"
  let ?frag = "segment_fragment sequence (placed plans) ?payload"
  have ids2: "set (map mp_track_id plans) \<subseteq> set (track_union fs)" unfolding ids by auto
  have "plan_fits p" if "p \<in> set plans" for p
    by (rule plan_of_source [of fs strip]) (use that carry fits ids2 in auto)
  then have placed_fits: "\<forall>po \<in> set (placed plans). placed_fits po"
    using small by (auto simp: placed_fits_def placed_def dest: set_zip_leftD)
  have nonempty: "placed plans \<noteq> []" using plans(2) by (cases plans) (simp_all add: placed_def)
  have "drain (push_bytes (sg_bytes seg) r)
      = ([FragmentUnit ?frag], None, (push_bytes (sg_bytes seg) r)\<lparr> fd_buf := [], fd_pos := 0 \<rparr>)"
    by (rule read_segment_layout [OF bs placed_fits nonempty]) (use fits(3) reader bytes in simp_all)
  moreover have "(push_bytes (sg_bytes seg) r)\<lparr> fd_buf := [], fd_pos := 0 \<rparr> = r"
    using reader by (cases r) (simp add: push_bytes_def)
  moreover have distinct: "distinct (map mp_track_id plans)" by (simp add: ids track_union_facts)
  moreover have tracks: "map tf_track_id (fr_tracks ?frag) = map mp_track_id plans"
    by (simp add: segment_fragment_def Let_def reread_trafs_ids placed_ids del: comp_apply)
  moreover have "carries_track fs strip ?frag (tf_track_id tf)" if "tf \<in> set (fr_tracks ?frag)" for tf
  proof -
    have "tf_track_id tf \<in> set (map mp_track_id plans)" using that unfolding tracks [symmetric] by simp
    then obtain p where "p \<in> set plans" "mp_track_id p = tf_track_id tf" by auto
    then show ?thesis using written_plan_carries [OF carry distinct lens] by metis
  qed
  ultimately show ?thesis using ids by (intro exI [of _ ?frag]) simp
qed

theorem merged_segment_reads_back_witness:
  "\<exists>seg frag. merge_retaining demo_sources demo_movie 7 True = Inr seg \<and>
     drain (push_bytes (sg_bytes seg) (reader_new\<lparr> fd_init_done := True \<rparr>)) = ([FragmentUnit frag], None, reader_new\<lparr> fd_init_done := True \<rparr>) \<and>
     map tf_track_id (fr_tracks frag) = [1] \<and> fragment_payloads 1 frag = [[1, 2, 3], [4, 5]]"
proof -
  obtain out where out: "write_segment demo_sources demo_movie 7 [demo_plan] = Inr out" "length out \<le> 1000"
    using demo_written by blast
  have strip: "strip_track demo_movie True = Inr None"
    by (simp add: strip_track_def init_video_def demo_movie_def)
  then obtain seg where seg: "merge_retaining demo_sources demo_movie 7 True = Inr seg" "sg_bytes seg = out"
    using demo_plans out by (simp add: merge_retaining_def demo_sources_def)
  have source: "track_samples demo_sources i = [] \<or> length (track_samples demo_sources i) = 2" for i
    by (simp add: track_samples_def fragment_samples_def demo_sources_def demo_source_def fragment_track_def tf_samples_def)
  have fits: "\<forall>f \<in> set demo_sources. fragment_fits f" "\<forall>i. length (track_samples demo_sources i) \<le> MAX_SAMPLES_PER_RUN"
    "length (sg_bytes seg) \<le> MAX_BOX_BYTES"
  proof -
    show "\<forall>f \<in> set demo_sources. fragment_fits f"
      by (simp add: fragment_fits_def source_sample_fits_def demo_sources_def demo_source_def tf_samples_def)
    show "\<forall>i. length (track_samples demo_sources i) \<le> MAX_SAMPLES_PER_RUN"
    proof
      fix i show "length (track_samples demo_sources i) \<le> MAX_SAMPLES_PER_RUN"
        using source [of i] by (auto simp: MAX_SAMPLES_PER_RUN_def)
    qed
    show "length (sg_bytes seg) \<le> MAX_BOX_BYTES" using out(2) seg(2) by (simp add: MAX_BOX_BYTES_def)
  qed
  obtain frag where frag: "drain (push_bytes (sg_bytes seg) (reader_new\<lparr> fd_init_done := True \<rparr>))
        = ([FragmentUnit frag], None, reader_new\<lparr> fd_init_done := True \<rparr>)"
      "map tf_track_id (fr_tracks frag) = filter (\<lambda>i. track_samples demo_sources i \<noteq> []) (track_union demo_sources)"
      "\<forall>tf \<in> set (fr_tracks frag). carries_track demo_sources None frag (tf_track_id tf)"
    using merged_segment_reads_back [OF seg(1) strip fits, of "reader_new\<lparr> fd_init_done := True \<rparr>"] by (auto simp: reader_new_def)
  have "track_union demo_sources = [1]" by (simp add: track_union_def demo_sources_def demo_source_def)
  moreover have "track_samples demo_sources 1 \<noteq> []"
    by (simp add: track_samples_def fragment_samples_def demo_sources_def demo_source_def fragment_track_def tf_samples_def)
  ultimately have ids: "map tf_track_id (fr_tracks frag) = [1]" using frag(2) by simp
  then have "carries_track demo_sources None frag 1" using frag(3) by auto
  moreover have "track_payloads demo_sources 1 = [[1, 2, 3], [4, 5]]"
    by (simp add: track_payloads_def fragment_payloads_def demo_sources_def demo_source_def fragment_track_def runs_payloads_def)
  ultimately have "fragment_payloads 1 frag = [[1, 2, 3], [4, 5]]"
    by (simp add: carries_track_def strip_for_def carried_def)
  then show ?thesis using seg(1) frag(1) ids by (intro exI [of _ seg] exI [of _ frag]) simp
qed

end
