(* ===== verification/Fmp4Total.thy ===== *)
theory Fmp4Total
  imports Fmp4Promises
begin

text \<open>
  When a merge is sure to succeed: fragments whose samples lie inside them, at least one sample, no
  parameter sets to shed, and a segment small enough for the signed offsets of a \<open>trun\<close>. And when
  it has nothing to repair: a track whose fragments follow each other without a gap.
\<close>

section \<open>Plans\<close>

definition well_placed :: "fragment \<Rightarrow> bool" where
  "well_placed f \<longleftrightarrow> length (fr_bytes f) \<le> USIZE_MAX \<and>
     (\<forall>tf \<in> set (fr_tracks f). \<forall>rn \<in> set (tf_runs tf). rn_data_offset rn + run_byte_len rn \<le> length (fr_bytes f) \<and>
        (\<forall>s \<in> set (rn_samples rn). sm_size s \<le> U32_MAX))"

lemma join_samples_succeed:
  "start + (\<Sum>s \<leftarrow> ss. sm_size s) \<le> length bytes \<Longrightarrow> length bytes \<le> USIZE_MAX \<Longrightarrow> \<forall>s \<in> set ss. sm_size s \<le> U32_MAX \<Longrightarrow>
   \<exists>e tj'. for_each ss (join_sample bytes fi None) (start, tj) = Inr (e, tj') \<and> tj_adjustments tj' = tj_adjustments tj"
proof (induction ss arbitrary: start tj)
  case (Cons s ss)
  have room: "start + sm_size s + (\<Sum>s \<leftarrow> ss. sm_size s) \<le> length bytes" "start + sm_size s \<le> USIZE_MAX" "start + sm_size s \<le> length bytes"
    using Cons.prems by simp_all
  obtain tj1 where one: "join_sample bytes fi None s (start, tj) = Inr (start + sm_size s, tj1)" "tj_adjustments tj1 = tj_adjustments tj"
    using room Cons.prems(3) by (simp add: join_sample_def checked_add_usize_def)
  show ?case using Cons.IH [OF room(1) Cons.prems(2), of tj1] Cons.prems(3) one by simp
qed simp

lemma join_runs_succeed:
  "\<forall>rn \<in> set rns. rn_data_offset rn + run_byte_len rn \<le> length bytes \<and> (\<forall>s \<in> set (rn_samples rn). sm_size s \<le> U32_MAX) \<Longrightarrow>
   length bytes \<le> USIZE_MAX \<Longrightarrow>
   \<exists>tj'. for_each rns (join_run bytes fi None) tj = Inr tj' \<and> tj_adjustments tj' = tj_adjustments tj"
proof (induction rns arbitrary: tj)
  case (Cons rn rns)
  obtain e tj1 where "for_each (rn_samples rn) (join_sample bytes fi None) (rn_data_offset rn, tj) = Inr (e, tj1)"
    "tj_adjustments tj1 = tj_adjustments tj"
    using join_samples_succeed [of "rn_data_offset rn" "rn_samples rn" bytes fi tj] Cons.prems by (auto simp: run_byte_len_def)
  then have "join_run bytes fi None rn tj = Inr tj1" by (simp add: join_run_def)
  then show ?case using Cons.IH [of tj1] Cons.prems \<open>tj_adjustments tj1 = tj_adjustments tj\<close> by simp
qed simp

lemma join_fragment_succeeds:
  assumes "well_placed f"
  shows "\<exists>tj'. join_fragment i None (fi, f) tj = Inr tj' \<and>
    ((case (fragment_track f i, tj_expected_next tj) of (Some tf, Some e) \<Rightarrow> tf_base_decode_time tf = e | _ \<Rightarrow> True) \<longrightarrow>
      tj_adjustments tj' = tj_adjustments tj)"
proof (cases "fragment_track f i")
  case None
  then show ?thesis by (simp add: join_fragment_def)
next
  case (Some tf)
  define tj0 where "tj0 = (case tj_base tj of
      None \<Rightarrow> tj\<lparr> tj_base := Some (tf_base_decode_time tf) \<rparr> | Some _ \<Rightarrow> absorb_join (tf_base_decode_time tf) tj)"
  have runs: "\<forall>rn \<in> set (tf_runs tf). rn_data_offset rn + run_byte_len rn \<le> length (fr_bytes f) \<and> (\<forall>s \<in> set (rn_samples rn). sm_size s \<le> U32_MAX)"
    "length (fr_bytes f) \<le> USIZE_MAX"
    using assms fragment_track_Some [OF Some] by (auto simp: well_placed_def)
  obtain tj1 where tj1: "for_each (tf_runs tf) (join_run (fr_bytes f) fi None) tj0 = Inr tj1" "tj_adjustments tj1 = tj_adjustments tj0"
    using join_runs_succeed [OF runs] by blast
  show ?thesis
  proof (intro exI conjI impI)
    show "join_fragment i None (fi, f) tj = Inr (tj1\<lparr> tj_expected_next := Some (end_time tf) \<rparr>)"
      using Some tj1 by (simp add: join_fragment_def Let_def tj0_def end_time_def)
    assume "case (fragment_track f i, tj_expected_next tj) of (Some tf, Some e) \<Rightarrow> tf_base_decode_time tf = e | _ \<Rightarrow> True"
    then have "tj_adjustments tj0 = tj_adjustments tj"
      using Some by (auto simp: tj0_def absorb_join_def split: option.splits)
    then show "tj_adjustments (tj1\<lparr> tj_expected_next := Some (end_time tf) \<rparr>) = tj_adjustments tj" using tj1(2) by simp
  qed
qed

text \<open>A join that succeeds has seen the fragments; without a gap it changed no duration.\<close>

lemma join_fragment_expected:
  "join_fragment i strip (fi, f) tj = Inr tj' \<Longrightarrow> tj_expected_next tj' = next_time i f (tj_expected_next tj)"
  by (auto simp: join_fragment_def next_time_def end_time_def Let_def and_then_Inr split: option.splits)

lemma join_all_succeed:
  "\<forall>f \<in> set fs. well_placed f \<Longrightarrow>
   \<exists>tj'. for_each (enumerate n fs) (join_fragment i None) tj = Inr tj' \<and>
     (gapless_from i (tj_expected_next tj) fs \<longrightarrow> tj_adjustments tj' = tj_adjustments tj)"
proof (induction fs arbitrary: n tj)
  case (Cons f fs)
  have "well_placed f" using Cons.prems by simp
  then obtain tj1 where one: "join_fragment i None (n, f) tj = Inr tj1"
    and keep: "(case (fragment_track f i, tj_expected_next tj) of (Some tf, Some e) \<Rightarrow> tf_base_decode_time tf = e | _ \<Rightarrow> True) \<longrightarrow>
      tj_adjustments tj1 = tj_adjustments tj"
    using join_fragment_succeeds by blast
  note next1 = join_fragment_expected [OF one]
  obtain tj' where "for_each (enumerate (Suc n) fs) (join_fragment i None) tj1 = Inr tj'"
    "gapless_from i (tj_expected_next tj1) fs \<longrightarrow> tj_adjustments tj' = tj_adjustments tj1"
    using Cons.IH [of "Suc n" tj1] Cons.prems by auto
  then show ?case using one keep next1 by (intro exI [of _ tj']) simp
qed simp

lemma plan_track_succeeds:
  assumes "\<forall>f \<in> set fs. well_placed f"
  shows "\<exists>plans' n'. plan_track fs None i (plans, n) = Inr (plans', n') \<and> (gapless fs i \<longrightarrow> n' = n)"
proof -
  let ?tj = "\<lparr> tj_samples = [], tj_slices = [], tj_base = None, tj_expected_next = None, tj_adjustments = n \<rparr>"
  obtain tj where "for_each (enumerate 0 fs) (join_fragment i None) ?tj = Inr tj" "gapless fs i \<longrightarrow> tj_adjustments tj = n"
    using join_all_succeed [OF assms, of 0 i ?tj] by (auto simp: gapless_def)
  then show ?thesis by (simp add: plan_track_def)
qed

lemma plan_tracks_succeed:
  assumes "\<forall>f \<in> set fs. well_placed f"
  shows "\<exists>plans' n'. for_each ids (plan_track fs None) (plans, n) = Inr (plans', n') \<and> ((\<forall>i \<in> set ids. gapless fs i) \<longrightarrow> n' = n)"
proof (induction ids arbitrary: plans n)
  case (Cons i ids)
  obtain plans1 n1 where one: "plan_track fs None i (plans, n) = Inr (plans1, n1)" "gapless fs i \<longrightarrow> n1 = n"
    using plan_track_succeeds [OF assms] by blast
  obtain plans' n' where "for_each ids (plan_track fs None) (plans1, n1) = Inr (plans', n')" "(\<forall>i \<in> set ids. gapless fs i) \<longrightarrow> n' = n1"
    using Cons.IH [of plans1 n1] by blast
  then show ?case using one by (intro exI [of _ plans'] exI [of _ n']) auto
qed simp

section \<open>The segment\<close>

lemma patch_offsets_succeed:
  "n + 8 + base + sum_list (map plan_byte_len plans) \<le> 2147483647 \<Longrightarrow>
   \<exists>r. patch_offsets n plans (slots_of (length moof) plans) base (moof @ concat (map (\<lambda>p. traf_of p 0) plans)) = Inr r \<and>
     length r = length (moof @ concat (map (\<lambda>p. traf_of p 0) plans))"
proof (induction plans arbitrary: moof base)
  case (Cons p plans)
  have "n + 8 + (base + plan_byte_len p) + sum_list (map plan_byte_len plans) \<le> 2147483647" using Cons.prems by simp
  from Cons.IH [OF this, of "moof @ traf_of p (n + 8 + base)"] Cons.prems show ?case
    using patch_traf [of moof p "concat (map (\<lambda>p. traf_of p 0) plans)" "n + 8 + base"]
    by (auto simp: length_traf_of)
qed simp

lemma slice_payloads_succeed:
  "\<forall>sl \<in> set sls. slice_ok fs None sl \<Longrightarrow> \<exists>out'. for_each sls (slice_payload fs) out = Inr out'"
proof (induction sls arbitrary: out)
  case (Cons sl sls)
  have ok: "slice_ok fs None sl" using Cons.prems by simp
  have "saturating_add_u64 (ml_start sl) (ml_source_len sl) = ml_start sl + ml_source_len sl"
    using ok by (simp add: slice_ok_def saturating_add_u64_def)
  then obtain out1 where "slice_payload fs sl out = Inr out1" using ok by (auto simp: slice_payload_def slice_ok_def Let_def)
  then show ?case using Cons.IH [of out1] Cons.prems by simp
qed simp

definition plan_size :: "merge_plan \<Rightarrow> nat" where
  "plan_size p = length (traf_of p 0) + plan_byte_len p"

lemma write_segment_succeeds:
  assumes size: "32 + sum_list (map plan_size plans) \<le> 2147483647" and ok: "\<forall>p \<in> set plans. \<forall>sl \<in> set (mp_slices p). slice_ok fs None sl"
  shows "\<exists>out. write_segment fs ini sequence plans = Inr out"
proof -
  let ?zeros = "concat (map (\<lambda>p. traf_of p 0) plans)" and ?n = "moof_size plans"
  let ?total = "sum_list (map plan_byte_len plans)"
  have n: "24 + length ?zeros = ?n" by (simp add: moof_size_def length_trafs_const)
  have moof: "build_moof plans sequence = (moof_front ?n sequence @ ?zeros, slots_of 24 plans)"
    by (simp add: build_moof_eq Let_def n del: length_concat)
  have split: "sum_list (map plan_size plans) = (\<Sum>p \<leftarrow> plans. length (traf_of p 0)) + ?total"
    by (induction plans) (simp_all add: plan_size_def)
  then have room: "?n + 8 + 0 + ?total \<le> 2147483647" "?total + 8 \<le> U32_MAX" using size by (simp_all add: moof_size_def)
  obtain patched where patched: "patch_offsets ?n plans (slots_of 24 plans) 0 (moof_front ?n sequence @ ?zeros) = Inr patched"
    using patch_offsets_succeed [OF room(1), of "moof_front ?n sequence"] by auto
  have "\<forall>sl \<in> set (concat (map mp_slices plans)). slice_ok fs None sl" using ok by auto
  from slice_payloads_succeed [OF this] obtain out where
    "for_each (concat (map mp_slices plans)) (slice_payload fs)
      (STYP @ write_sidxs ini (?n + (?total + 8)) plans @ patched @ be_bytes 4 (?total + 8) @ ascii ''mdat'') = Inr out"
    by blast
  then show ?thesis using patched n room(2)
    by (simp add: write_segment_def moof checked_add_usize_def del: length_concat)
qed


lemma run_payloads_length: "sum_list (map length (run_payloads bytes start ss)) \<le> (\<Sum>s \<leftarrow> ss. sm_size s)"
proof (induction ss arbitrary: start)
  case (Cons s ss)
  show ?case using Cons.IH [of "start + sm_size s"] by simp
qed simp

lemma track_payloads_length: "sum_list (map length (track_payloads fs i)) \<le> (\<Sum>s \<leftarrow> track_samples fs i. sm_size s)"
proof -
  have runs: "sum_list (map length (runs_payloads bytes rns)) \<le> (\<Sum>s \<leftarrow> concat (map rn_samples rns). sm_size s)" for bytes rns
    by (induction rns) (simp_all add: runs_payloads_def add_mono run_payloads_length)
  have "sum_list (map length (fragment_payloads i f)) \<le> (\<Sum>s \<leftarrow> fragment_samples i f. sm_size s)" for f
    by (simp add: fragment_payloads_def fragment_samples_def tf_samples_def runs split: option.split)
  then show ?thesis by (induction fs) (simp_all add: track_payloads_def track_samples_def add_mono)
qed

text \<open>A bound on what a track adds to the segment, from its samples alone.\<close>

definition track_cost :: "fragment list \<Rightarrow> nat \<Rightarrow> nat" where
  "track_cost fs i = 100 + 16 * length (track_samples fs i) + (\<Sum>s \<leftarrow> track_samples fs i. sm_size s)"

lemma plan_cost:
  assumes "plan_carries fs None p"
  shows "plan_size p \<le> track_cost fs (mp_track_id p)"
proof -
  have c: "length (mp_samples p) = length (track_samples fs (mp_track_id p))"
    "map (slice_source fs) (mp_slices p) = track_payloads fs (mp_track_id p)" "\<forall>sl \<in> set (mp_slices p). slice_ok fs None sl"
    using assms arg_cong [where f = length] by (auto simp: plan_carries_def Let_def strip_for_def dest!: map_eq_imp_length_eq)
  have "map length (map (slice_source fs) (mp_slices p)) = map ml_output_len (mp_slices p)"
    using c(3) by (auto simp: slice_source_def slice_ok_def)
  then have "plan_byte_len p = sum_list (map length (track_payloads fs (mp_track_id p)))" unfolding plan_byte_len_def c(2) by simp
  then have "plan_byte_len p \<le> (\<Sum>s \<leftarrow> track_samples fs (mp_track_id p). sm_size s)" using track_payloads_length by simp
  moreover have "length (traf_rows p) \<le> 16 * length (mp_samples p)"
    by (simp add: traf_rows_def sample_rows_length del: length_concat)
  moreover have "length (traf_of p 0) = 64 + length (traf_rows p)" by (simp add: length_traf_of traf_head_def Let_def)
  ultimately show ?thesis using c(1) by (simp add: plan_size_def track_cost_def)
qed


lemma merge_succeeds:
  assumes placed: "\<forall>f \<in> set fs. well_placed f" and fits: "\<forall>f \<in> set fs. fragment_fits f"
    and strip: "strip_track ini retain = Inr None" and present: "i \<in> set (track_union fs)" "track_samples fs i \<noteq> []"
    and size: "32 + (\<Sum>i \<leftarrow> track_union fs. track_cost fs i) \<le> 2147483647"
  obtains seg where "merge_retaining fs ini sequence retain = Inr seg"
    "\<forall>i \<in> set (track_union fs). gapless fs i \<Longrightarrow> sg_tfdt_adjustments seg = 0"
proof -
  obtain plans n where plans: "for_each (track_union fs) (plan_track fs None) ([], 0) = Inr (plans, n)"
    and n: "(\<forall>i \<in> set (track_union fs). gapless fs i) \<longrightarrow> n = 0"
    using plan_tracks_succeed [OF placed, of "track_union fs" "[]" 0] by blast
  from plan_tracks_carry [OF fits plans] have ids: "map mp_track_id plans = filter (\<lambda>i. track_samples fs i \<noteq> []) (track_union fs)"
    and carry: "\<forall>p \<in> set plans. plan_carries fs None p" by auto
  have "i \<in> set (map mp_track_id plans)" using present by (simp add: ids)
  then have ne: "plans \<noteq> []" by auto
  have "sum_list (map plan_size plans) \<le> (\<Sum>i \<leftarrow> map mp_track_id plans. track_cost fs i)"
    using carry plan_cost by (induction plans) (auto intro: add_mono)
  also have "\<dots> \<le> (\<Sum>i \<leftarrow> track_union fs. track_cost fs i)"
    unfolding ids by (rule sum_list_filter_le_nat)
  finally have size': "32 + sum_list (map plan_size plans) \<le> 2147483647" using size by simp
  have "\<forall>p \<in> set plans. \<forall>sl \<in> set (mp_slices p). slice_ok fs None sl"
    using carry by (auto simp: plan_carries_def Let_def strip_for_def)
  from write_segment_succeeds [OF size' this] obtain out where out: "write_segment fs ini sequence plans = Inr out" by blast
  have "fs \<noteq> []" using present(2) by (auto simp: track_samples_def)
  then show thesis using strip plans ne out n by (intro that [of "\<lparr> sg_bytes = out, sg_tfdt_adjustments = n, sg_video_ticks =
      (case Option.bind (init_video ini) (\<lambda>v. find (\<lambda>p. mp_track_id p = tr_id v) plans) of None \<Rightarrow> 0 | Some p \<Rightarrow> plan_duration p) \<rparr>"])
    (simp_all add: merge_retaining_def)
qed

end
