(* ===== verification/Fmp4Published.thy ===== *)
theory Fmp4Published
  imports Fmp4Ending Fmp4Total
begin

text \<open>
  What a segmenter promises about a whole stream: the plan decides which fragment belongs to which
  segment, nothing is lost between the fragments and the segments, and the end of the stream is
  dealt out within the ceiling.
\<close>

section \<open>Streams\<close>

fun push_all :: "fragment list \<Rightarrow> segmenter \<Rightarrow> published list answer" where
  "push_all [] s = (Inr [], s)"
| "push_all (f # fs) s =
     then_do (push_fragment f s) (\<lambda>r s. then_do (push_all fs s) (\<lambda>ps s. (Inr (opt_list r @ ps), s)))"

definition segment_stream :: "fragment list \<Rightarrow> segmenter \<Rightarrow> published list answer" where
  "segment_stream fs s = then_do (push_all fs s) (\<lambda>ps s. then_do (finish_stream s) (\<lambda>qs s. (Inr (ps @ qs), s)))"

lemma push_all_snoc:
  "push_all (fs @ [f]) s =
     then_do (push_all fs s) (\<lambda>ps s. then_do (push_fragment f s) (\<lambda>r s. (Inr (ps @ opt_list r), s)))"
proof (induction fs arbitrary: s)
  case Nil
  show ?case by (auto simp: then_do_def split: prod.splits sum.splits)
next
  case (Cons g fs)
  obtain r s1 where g: "push_fragment g s = (r, s1)" by (cases "push_fragment g s")
  show ?case
  proof (cases r)
    case (Inr x)
    obtain ps s2 where fs: "push_all fs s1 = (ps, s2)" by (cases "push_all fs s1")
    show ?thesis
      using Cons.IH [of s1] g Inr fs by (cases ps; cases "push_fragment f s2"; cases "fst (push_fragment f s2)") auto
  qed (simp add: g)
qed

section \<open>The pending fragments stay inside their bytes\<close>

definition runs_in_bounds :: "run list \<Rightarrow> bool" where
  "runs_in_bounds rns \<longleftrightarrow> (\<forall>rn \<in> set rns. rn_data_offset rn + run_byte_len rn \<le> USIZE_MAX)"

lemma in_bounds_runs: "in_bounds f \<longleftrightarrow> (\<forall>tf \<in> set (fr_tracks f). runs_in_bounds (tf_runs tf))"
  by (simp add: in_bounds_def runs_in_bounds_def)

lemma take_runs_bounds:
  "take_runs cutoff v bytes rns time out = Inr (ts, ks, time', out') \<Longrightarrow> runs_in_bounds rns \<Longrightarrow> runs_in_bounds ks"
proof (induction rns arbitrary: time out ts ks)
  case (Cons rn rns)
  obtain t1 len n where sb: "samples_before cutoff v (rn_samples rn) time 0 0 = Inr (t1, len, n)"
    using Cons.prems by (auto simp: and_then_Inr)
  have "len = (\<Sum>s \<leftarrow> take n (rn_samples rn). sm_size s)" using samples_before_spec [OF sb] by auto
  then have bytes: "rn_data_offset rn + len + (\<Sum>s \<leftarrow> drop n (rn_samples rn). sm_size s) = rn_data_offset rn + run_byte_len rn"
    by (simp add: run_byte_len_def) (metis append_take_drop_id map_append sum_list_append)
  have rest: "runs_in_bounds rns" and rn: "rn_data_offset rn + run_byte_len rn \<le> USIZE_MAX" using Cons.prems(2) by (simp_all add: runs_in_bounds_def)
  let ?kept = "rn\<lparr> rn_data_offset := rn_data_offset rn + len, rn_data_offset_at := None, rn_samples := drop n (rn_samples rn) \<rparr>"
  have kept: "rn_data_offset ?kept + run_byte_len ?kept \<le> USIZE_MAX" using bytes rn by (simp add: run_byte_len_def)
  have "\<exists>ks'. (ks = ?kept # ks' \<and> runs_in_bounds ks') \<or> ks = rn # rns"
  proof (cases "n = 0")
    case True
    then show ?thesis using Cons.prems(1) sb by simp
  next
    case False
    have fits: "rn_data_offset rn + len \<le> USIZE_MAX" "rn_data_offset rn + len \<le> length bytes"
      using Cons.prems(1) sb False by (auto simp: checked_add_usize_def split: if_splits)
    show ?thesis
    proof (cases "drop n (rn_samples rn) = []")
      case False
      then show ?thesis using Cons.prems(1) sb \<open>n \<noteq> 0\<close> fits rest by (auto simp: checked_add_usize_def Let_def)
    next
      case True
      then obtain ts' ks' where "take_runs cutoff v bytes rns t1 (out @ take len (drop (rn_data_offset rn) bytes)) = Inr (ts', ks', time', out')"
        "ks = ?kept # ks'"
        using Cons.prems(1) sb \<open>n \<noteq> 0\<close> fits by (auto simp: checked_add_usize_def Let_def and_then_Inr)
      then show ?thesis using Cons.IH rest by blast
    qed
  qed
  then show ?case using kept rest rn by (auto simp: runs_in_bounds_def)
qed simp

lemma take_track_bounds:
  assumes "take_track ini boundary v bytes tf (out, taken, left) = Inr (out', taken', left')"
    and "runs_in_bounds (tf_runs tf)" and "\<forall>t \<in> set left. runs_in_bounds (tf_runs t)"
  shows "\<forall>t \<in> set left'. runs_in_bounds (tf_runs t)"
  using assms take_runs_bounds
  by (fastforce simp: take_track_def and_then_Inr runs_in_bounds_def split: option.splits if_splits)

lemma take_encoded_audio_bounds:
  assumes "take_encoded_audio_before f ini boundary v = Inr (opt, g)" and "in_bounds f"
  shows "in_bounds g"
proof -
  obtain out taken left where loop: "for_each (fr_tracks f) (take_track ini boundary v (fr_bytes f)) ([], [], []) = Inr (out, taken, left)"
    and g: "g = f\<lparr> fr_tracks := filter (\<lambda>t. 0 < tf_sample_count t) left \<rparr>"
    using assms(1) by (auto simp: take_encoded_audio_before_def and_then_Inr)
  have "\<forall>t \<in> set (snd (snd st')). runs_in_bounds (tf_runs t)"
    if "for_each tfs (take_track ini boundary v (fr_bytes f)) st = Inr st'" "\<forall>t \<in> set tfs. runs_in_bounds (tf_runs t)"
      "\<forall>t \<in> set (snd (snd st)). runs_in_bounds (tf_runs t)" for tfs st st'
    using that
  proof (induction tfs arbitrary: st)
    case (Cons tf tfs)
    obtain st1 where one: "take_track ini boundary v (fr_bytes f) tf st = Inr st1" and rest: "for_each tfs (take_track ini boundary v (fr_bytes f)) st1 = Inr st'"
      using Cons.prems(1) by (auto simp: and_then_Inr)
    have "\<forall>t \<in> set (snd (snd st1)). runs_in_bounds (tf_runs t)"
      using take_track_bounds [of ini boundary v "fr_bytes f" tf "fst st" "fst (snd st)" "snd (snd st)" "fst st1" "fst (snd st1)" "snd (snd st1)"]
        one Cons.prems(2,3) by simp
    then show ?case using Cons.IH [OF rest] Cons.prems(2) by simp
  qed simp
  from this [OF loop] assms(2) show ?thesis by (auto simp: g in_bounds_runs)
qed

lemma in_bounds_moved: "in_bounds f \<Longrightarrow> in_bounds (moved s d f)"
  by (auto simp: in_bounds_def moved_def shift_fragment_def split: option.splits)

lemma push_keeps_bounds:
  assumes push: "push_fragment f s = (Inr r, s')" and run: "run_ok s0 raw ps groups s" and "in_bounds f" "\<forall>g \<in> set (sr_pending s). in_bounds g"
  shows "\<forall>g \<in> set (sr_pending s'). in_bounds g"
proof -
  from push_fragment_Inr [OF push] obtain f1 s1 where film: "on_film_time f s = (Inr f1, s1)"
    and c: "sr_pending s' = sr_pending s1 @ [f1] \<or> (\<exists>f2 s2. split_encoded_audio f1 (count_fragment (classify f1 (sr_init s1)) s1) = (Inr f2, s2) \<and> sr_pending s' = [f2])"
    by metis
  have clock: "clock_ok s0 raw s" "settings s = settings s0" using run by (simp_all add: run_ok_def)
  note o = on_film_time_Inr [OF film clock]
  have f1: "in_bounds f1" using o(1) in_bounds_moved assms(3) by simp
  have pending: "\<forall>g \<in> set (sr_pending s1). in_bounds g" using o(3) in_bounds_moved assms(4) by (auto split: if_splits)
  from c show ?thesis
  proof
    assume "\<exists>f2 s2. split_encoded_audio f1 (count_fragment (classify f1 (sr_init s1)) s1) = (Inr f2, s2) \<and> sr_pending s' = [f2]"
    then obtain f2 s2 where split: "split_encoded_audio f1 (count_fragment (classify f1 (sr_init s1)) s1) = (Inr f2, s2)" "sr_pending s' = [f2]" by blast
    then have "in_bounds f2" using split_encoded_audio_Inr(4) [OF split(1)] take_encoded_audio_bounds f1 by blast
    then show ?thesis using split(2) by simp
  qed (use f1 pending in simp)
qed

section \<open>The run of a stream\<close>

text \<open>How a segmenter begins: live, or on a plan.\<close>

definition begins :: "segmenter \<Rightarrow> bool" where
  "begins s \<longleftrightarrow> sr_pending s = [] \<and> init_ok (sr_init s) \<and> (sr_media_time s = None \<or> (\<exists>starts. follows_plan s starts))"

lemma run_start: "begins s0 \<Longrightarrow> run_ok s0 [] [] [] s0"
  by (auto simp: begins_def run_ok_def clock_ok_def learned_def film_fragments_def follows_plan_def)

lemma push_all_run:
  "push_all fs s0 = (Inr ps, s) \<Longrightarrow> begins s0 \<Longrightarrow> \<forall>f \<in> set fs. fragment_shape f \<and> in_bounds f \<Longrightarrow> sr_next_index s0 + length fs + 2 \<le> U64_MAX \<Longrightarrow>
   \<exists>groups. run_ok s0 fs ps groups s \<and> (\<forall>f \<in> set (sr_pending s). in_bounds f) \<and> (\<forall>starts. follows_plan s0 starts \<longrightarrow> plan_ok s0 starts fs groups s)"
proof (induction fs arbitrary: ps s rule: rev_induct)
  case Nil
  then have "run_ok s0 [] [] [] s" "sr_pending s = []" using run_start by (simp_all add: begins_def)
  moreover have "plan_ok s0 starts [] [] s" if "follows_plan s0 starts" for starts
    using that by (simp add: plan_ok_def learned_def follows_plan_def)
  ultimately show ?case using Nil by (intro exI [of _ "[]"]) simp
next
  case (snoc f fs)
  obtain ps1 s1 r where front: "push_all fs s0 = (Inr ps1, s1)" and push: "push_fragment f s1 = (Inr r, s)" and ps: "ps = ps1 @ opt_list r"
    using snoc.prems(1) by (auto simp: push_all_snoc then_do_Inr)
  obtain groups where run: "run_ok s0 fs ps1 groups s1" and bounds: "\<forall>f \<in> set (sr_pending s1). in_bounds f"
    and plan: "\<forall>starts. follows_plan s0 starts \<longrightarrow> plan_ok s0 starts fs groups s1"
    using snoc.IH [OF front snoc.prems(2)] snoc.prems(3,4) by auto
  have planned: "sr_media_time s0 \<noteq> None \<Longrightarrow> sr_boundaries s0 \<noteq> None" using snoc.prems(2) by (auto simp: begins_def follows_plan_def)
  have shape: "fragment_shape f" "in_bounds f" using snoc.prems(3) by simp_all
  have room: "sr_next_index s0 + length fs + 2 \<le> U64_MAX" using snoc.prems(4) by simp
  obtain groups' where "run_ok s0 (fs @ [f]) (ps1 @ opt_list r) groups' s"
    "\<And>starts. follows_plan s0 starts \<Longrightarrow> plan_ok s0 starts fs groups s1 \<Longrightarrow> plan_ok s0 starts (fs @ [f]) groups' s"
    using run_step [OF run push shape(1) planned room] by blast
  then show ?case using plan push_keeps_bounds [OF push run shape(2) bounds] ps by (intro exI [of _ groups']) simp
qed


lemma new_segmenter_begins: "init_ok ini \<Longrightarrow> begins (segmenter_new ini policy)"
  by (simp add: begins_def segmenter_new_def)

lemma planned_segmenter_follows:
  assumes "init_ok ini" and "sorted_wrt (<) starts" and "\<forall>t \<in> set starts. t \<le> U64_MAX"
    and "following ini policy n starts = Inr s \<or> following_encoded ini policy n starts = Inr s"
  shows "follows_plan s starts" "sr_next_index s = n"
proof -
  have "\<exists>s1. following ini policy n starts = Inr s1 \<and> (s = s1 \<or> s = s1\<lparr> sr_encoded_audio_boundaries := True \<rparr>)"
    using assms(4) by (auto simp: following_encoded_def and_then_Inr)
  then have "follows_plan s starts \<and> sr_next_index s = n"
    using assms(1-3)
    by (auto simp: following_def resuming_at_def segmenter_new_def follows_plan_def and_then_Inr split: list.splits if_splits)
  then show "follows_plan s starts" "sr_next_index s = n" by simp_all
qed

section \<open>The promises\<close>

text \<open>C9: The plan is normative. A generation that follows a plan from entry n on publishes its segments
  under the consecutive indices n, n + 1, ..., and the segment published under index n + k is the
  merge of a group of fragments with video whose decode times, put on the timeline of the film, begin
  at or after the start of the k-th planned entry and all lie before the start of the next one.\<close>

theorem plan_is_followed:
  assumes "init_ok ini" and "sorted_wrt (<) starts" and "\<forall>t \<in> set starts. t \<le> U64_MAX"
    and made: "following ini policy n starts = Inr s0 \<or> following_encoded ini policy n starts = Inr s0"
    and run: "push_all fs s0 = (Inr ps, s)" and shapes: "\<forall>f \<in> set fs. fragment_shape f \<and> in_bounds f" and "n + length fs + 2 \<le> U64_MAX"
  shows "\<exists>groups. list_all2 (published_as s0) ps groups \<and> map pb_index ps = [n ..< n + length ps] \<and>
    (\<forall>k < length groups. between starts k (video_times s0 (groups ! k)))"
proof -
  note s0 = planned_segmenter_follows [OF assms(1-3) made]
  have "begins s0" using s0(1) by (auto simp: begins_def follows_plan_def)
  from push_all_run [OF run this shapes] s0 assms(7) obtain groups where "run_ok s0 fs ps groups s" "plan_ok s0 starts fs groups s" by auto
  then show ?thesis using s0(2) by (intro exI [of _ groups]) (simp add: run_ok_def plan_ok_def)
qed

text \<open>C8: Nothing is lost between the fragments and the segments. Over a whole stream, pushed and finished
  without an error, the groups behind the published segments carry, for every track of the movie,
  exactly the samples of the fragments pushed: in order, each once, with its bytes, duration, flags,
  composition offset and its decode time on the timeline of the film.\<close>

theorem nothing_is_lost:
  assumes "begins s0" and run: "segment_stream fs s0 = (Inr ps, s)" and shapes: "\<forall>f \<in> set fs. fragment_shape f \<and> in_bounds f"
    and room: "sr_next_index s0 + length fs + 2 \<le> U64_MAX" "sr_next_index s0 + length ps \<le> U64_MAX"
  shows "\<exists>groups. list_all2 (published_as s0) ps groups \<and> map pb_index ps = [sr_next_index s0 ..< sr_next_index s0 + length ps] \<and>
    (\<forall>t \<in> set (in_tracks (sr_init s0)). media (tr_id t) (concat groups) = media (tr_id t) (film_fragments s0 fs))"
proof -
  obtain qs1 s1 qs2 where pushed: "push_all fs s0 = (Inr qs1, s1)" and finished: "finish_stream s1 = (Inr qs2, s)" and ps: "ps = qs1 @ qs2"
    using run by (auto simp: segment_stream_def then_do_Inr)
  obtain groups where r: "run_ok s0 fs qs1 groups s1" and bounds: "\<forall>f \<in> set (sr_pending s1). in_bounds f"
    using push_all_run [OF pushed assms(1) shapes room(1)] by blast
  have set1: "settings s1 = settings s0" and next1: "sr_next_index s1 = sr_next_index s0 + length qs1"
    and pub1: "list_all2 (published_as s0) qs1 groups" and idx1: "map pb_index qs1 = [sr_next_index s0 ..< sr_next_index s0 + length qs1]"
    and lost1: "\<And>t. t \<in> set (in_tracks (sr_init s0)) \<Longrightarrow> media (tr_id t) (concat groups @ sr_pending s1) = media (tr_id t) (film_fragments s0 fs)"
    using r by (auto simp only: run_ok_def)
  have same: "published_as s1 = published_as s0" "sr_init s1 = sr_init s0" using set1 same_settings(5,6) [of s1 s0] by simp_all
  have ok: "distinct (map tr_id (in_tracks (sr_init s1)))" using assms(1) same(2) by (simp add: begins_def init_ok_def)
  have room1: "sr_next_index s1 + length qs2 \<le> U64_MAX" using room(2) next1 ps by simp
  obtain rest where rest: "list_all2 (published_as s1) qs2 rest" "map pb_index qs2 = [sr_next_index s1 ..< sr_next_index s1 + length qs2]"
    "\<And>t. t \<in> set (in_tracks (sr_init s1)) \<Longrightarrow> media (tr_id t) (concat rest) = media (tr_id t) (sr_pending s1)"
    using finish_stream_Inr [OF finished room1 bounds ok] by blast
  have "[sr_next_index s0 ..< sr_next_index s0 + length qs1] @ [sr_next_index s1 ..< sr_next_index s1 + length qs2] =
      [sr_next_index s0 ..< sr_next_index s0 + length ps]"
    using upt_add_eq_append [of "sr_next_index s0" "sr_next_index s0 + length qs1" "length qs2"] by (simp add: next1 ps add.assoc del: upt_Suc)
  then have "map pb_index ps = [sr_next_index s0 ..< sr_next_index s0 + length ps]" using idx1 rest(2) unfolding ps map_append by simp
  moreover have "list_all2 (published_as s0) ps (groups @ rest)" using pub1 rest(1) unfolding ps same by (rule list_all2_appendI)
  moreover have "media (tr_id t) (concat (groups @ rest)) = media (tr_id t) (film_fragments s0 fs)"
    if "t \<in> set (in_tracks (sr_init s0))" for t
  proof -
    have "media (tr_id t) (concat rest) = media (tr_id t) (sr_pending s1)" using rest(3) that same(2) by simp
    moreover have "media (tr_id t) (concat groups @ sr_pending s1) = media (tr_id t) (film_fragments s0 fs)" using lost1 that .
    ultimately show ?thesis by simp
  qed
  ultimately show ?thesis by blast
qed

text \<open>C10: The tail of a stream keeps to the ceiling. Of the segments published at the end of a stream every
  one but the first is the merge of a group in which no track outlasts the time ceiling of the
  policy, measured on the clock of that track.\<close>

theorem tail_within_ceiling:
  assumes fin: "finish_stream s = (Inr (p # ps), s')" and ids: "distinct (map tr_id (in_tracks (sr_init s)))"
    and ceilings: "\<forall>t \<in> set (in_tracks (sr_init s)). ceiling_of s t < U64_MAX" and room: "sr_next_index s + length (p # ps) \<le> U64_MAX"
  shows "\<exists>g groups. list_all2 (published_as s) (p # ps) (g # groups) \<and>
    (\<forall>h \<in> set groups. \<forall>t \<in> set (in_tracks (sr_init s)). media_ticks (tr_id t) h \<le> ceiling_of s t)"
proof -
  obtain chunks where chunks: "end_of_stream_chunks s = Inr chunks" "for_each (enumerate 0 chunks) (finish_chunk s) [] = Inr (p # ps)"
    using fin by (auto simp: finish_stream_def and_then_Inr split: sum.splits if_splits)
  from finish_chunks_length [OF chunks(2)] have "length chunks = length (p # ps)" by simp
  then have "sr_next_index s + 0 + length chunks \<le> U64_MAX" using room by simp
  from finish_chunks [OF chunks(2) this] have pub: "list_all2 (published_as s) (p # ps) chunks" by auto
  then obtain g groups where "chunks = g # groups" by (cases chunks) auto
  then show ?thesis using pub end_of_stream_bounded [OF chunks(1) ids ceilings] by (intro exI [of _ g] exI [of _ groups]) auto
qed

text \<open>An interval put on another clock keeps its direction and is rounded away from zero by less than a tick.\<close>

lemma scale_signed_rounds:
  assumes d: "\<bar>d\<bar> \<le> int U64_MAX" and ts: "from_ts \<le> U32_MAX" "to_ts \<le> U32_MAX" "0 < from_ts" "0 < to_ts"
    and room: "\<bar>d\<bar> * int to_ts \<le> I64_MAX * int from_ts"
  shows "0 \<le> sgn d * (scale_signed d from_ts to_ts * int from_ts - d * int to_ts) \<and>
    sgn d * (scale_signed d from_ts to_ts * int from_ts - d * int to_ts) < int from_ts"
proof -
  define n where "n = nat \<bar>d\<bar>"
  have n: "n \<le> U64_MAX" "int n = \<bar>d\<bar>" using d by (simp_all add: n_def)
  have "int (n * to_ts) \<le> int (nat I64_MAX * from_ts)" using room n(2) by simp
  then have "n * to_ts \<le> nat I64_MAX * from_ts" by (simp only: of_nat_le_iff)
  then have "n * to_ts + (from_ts - 1) \<le> (from_ts - 1) + nat I64_MAX * from_ts" by simp
  then have "(n * to_ts + (from_ts - 1)) div from_ts \<le> ((from_ts - 1) + nat I64_MAX * from_ts) div from_ts" by (rule div_le_mono)
  also have "\<dots> = nat I64_MAX" using ts(3) by (subst div_mult_self1) simp_all
  finally have small: "scale_ticks n from_ts to_ts \<le> nat I64_MAX"
    unfolding scale_ticks_ceil [OF n(1) ts(1,2)] using ts(3,4) by (simp add: max_absorb1 Suc_leI)
  have nz: "scale_ticks n from_ts to_ts = 0" if "d = 0"
    using that scale_ticks_ceil [OF n(1) ts(1,2)] ts(3) by (simp add: n_def)
  have "min (int (scale_ticks n from_ts to_ts)) I64_MAX = int (scale_ticks n from_ts to_ts)" using small by simp
  then have signed: "scale_signed d from_ts to_ts = sgn d * int (scale_ticks n from_ts to_ts)"
    using nz unfolding scale_signed_def n_def [symmetric] Let_def by (simp add: sgn_if)
  have exact: "int n * int to_ts \<le> int (scale_ticks n from_ts to_ts) * int from_ts"
    "int (scale_ticks n from_ts to_ts) * int from_ts < int n * int to_ts + int from_ts"
    using scale_ticks_less_than_a_tick [OF n(1) ts(1,2)] small ts(3,4)
    by (simp_all flip: of_nat_mult of_nat_add add: max_absorb1 Suc_leI)
  have "d = sgn d * int n" using n(2) by (simp add: mult.commute abs_sgn)
  then show ?thesis using exact n(2) unfolding signed by (cases "d = 0"; cases "0 < d") (auto simp: sgn_if)
qed

text \<open>Where the tracks of a fragment stand: their runs, and the decode time put through a map.\<close>

definition standing :: "(nat \<Rightarrow> int \<Rightarrow> int) \<Rightarrow> fragment \<Rightarrow> (nat \<times> run list \<times> int) list" where
  "standing place f = map (\<lambda>tf. (tf_track_id tf, tf_runs tf, place (tf_track_id tf) (int (tf_base_decode_time tf)))) (fr_tracks f)"

lemma standing_shift:
  "standing (\<lambda>i t. t) (shift_fragment s d f) = standing (\<lambda>i t. max 0 (min (int U64_MAX) (t + track_shift s d i))) f"
  by (simp add: standing_def shift_fragment_def saturating_add_signed_def)

lemma refused_below_zero:
  "refuse_if_any_track_lands_before_zero s f d = Inr () \<Longrightarrow>
   \<forall>tf \<in> set (fr_tracks f). 0 \<le> int (tf_base_decode_time tf) + track_shift s d (tf_track_id tf)"
proof -
  have "for_each tfs (\<lambda>t _. let at = int (tf_base_decode_time t) + track_shift s d (tf_track_id t) in
      if at < 0 then over_limit (LandsBeforeZero (tf_track_id t) at) else Inr ()) () = Inr () \<Longrightarrow>
      \<forall>tf \<in> set tfs. 0 \<le> int (tf_base_decode_time tf) + track_shift s d (tf_track_id tf)" for tfs
    by (induction tfs) (auto simp: and_then_Inr Let_def split: if_splits)
  then show "refuse_if_any_track_lands_before_zero s f d = Inr () \<Longrightarrow> ?thesis"
    by (simp add: refuse_if_any_track_lands_before_zero_def)
qed

lemma timescale_range:
  assumes "init_ok (sr_init s)" and "init_video (sr_init s) = Some v" and "sr_video_timescale s = max (tr_timescale v) 1"
  shows "0 < sr_video_timescale s" "sr_video_timescale s \<le> U32_MAX" "0 < timescale_of s i" "timescale_of s i \<le> U32_MAX"
proof -
  show v: "0 < sr_video_timescale s" "sr_video_timescale s \<le> U32_MAX" using assms init_video_track [OF assms(1,2)] by auto
  show "0 < timescale_of s i" using v by (simp add: timescale_of_def less_max_iff_disj split: option.split)
  show "timescale_of s i \<le> U32_MAX"
    using v assms(1) by (auto simp: timescale_of_def init_ok_def find_Some_iff split: option.split)
qed

text \<open>C11: Placing a generation on the film. The first fragment with video that is accepted has its picture
  exactly at the start of the plan entry. Every track moves by the interval the picture moved by, put on
  the clock of that track and rounded away from zero by less than one tick of it. The anchor is refused
  when one of its own tracks would land below zero, so its tracks stand at their time plus the shift,
  up to the largest value of the field. The fragments that waited for the anchor move by the same shift
  without that check: a track of theirs that would land before the film begins is put at zero.\<close>

theorem only_the_anchor_is_checked:
  assumes ok: "init_ok (sr_init s)" and video: "init_video (sr_init s) = Some v" "sr_video_timescale s = max (tr_timescale v) 1"
    and waiting: "sr_media_time s = Some mt" "mt_delta mt = None" "mt_start_ticks mt \<le> U64_MAX"
    and anchor: "film_time_of s f = Some base" "int base \<le> I64_MAX"
    and placed: "on_film_time f s = (Inr f', s')" and delta: "delta = int (mt_start_ticks mt) - int base"
  shows "film_time_of s f' = Some (mt_start_ticks mt) \<and>
    standing (\<lambda>i t. t) f' = standing (\<lambda>i t. min (int U64_MAX) (t + track_shift s delta i)) f \<and>
    (\<forall>tf \<in> set (fr_tracks f). 0 \<le> int (tf_base_decode_time tf) + track_shift s delta (tf_track_id tf)) \<and>
    map (standing (\<lambda>i t. t)) (sr_pending s') =
      map (standing (\<lambda>i t. max 0 (min (int U64_MAX) (t + track_shift s delta i)))) (sr_pending s) \<and>
    (\<forall>i. \<bar>delta\<bar> * int (timescale_of s i) \<le> I64_MAX * int (sr_video_timescale s) \<longrightarrow>
       sgn delta * (track_shift s delta i * int (sr_video_timescale s) - delta * int (timescale_of s i)) \<in> {0 ..< int (sr_video_timescale s)})"
proof -
  obtain tf where tf: "fragment_track f (tr_id v) = Some tf" "tf_base_decode_time tf = base"
    using anchor(1) video(1) by (auto simp: film_time_of_def)
  have learn: "i64_ok delta" "refuse_if_any_track_lands_before_zero s f delta = Inr ()" "sr_pending s' = map (shift_fragment s delta) (sr_pending s)"
    "f' = shift_fragment s' delta f" "sr_init s' = sr_init s" "sr_video_timescale s' = sr_video_timescale s"
    using placed waiting video(1) tf delta by (auto simp: on_film_time_def learn_delta_def then_do_Inr Let_def split: if_splits sum.splits)
  have "track_shift s' = track_shift s" using learn(5,6) by (simp add: fun_eq_iff track_shift_def timescale_of_def cong: option.case_cong)
  then have f': "f' = shift_fragment s delta f" using learn(4) by (simp add: shift_fragment_def)
  have "delta \<noteq> I64_MIN" using anchor(2) delta by auto
  from film_time_moved [OF ok video learn(1) this anchor(1)]
  have film: "film_time_of s f' = Some (mt_start_ticks mt)" using delta waiting(3) by (simp add: f' moved_def saturating_add_signed_def)
  note nonneg = refused_below_zero [OF learn(2)]
  then have own: "standing (\<lambda>i t. t) f' = standing (\<lambda>i t. min (int U64_MAX) (t + track_shift s delta i)) f"
    unfolding f' standing_shift by (auto simp: standing_def max_absorb2)
  have range: "\<bar>delta\<bar> \<le> int U64_MAX" using learn(1) by (auto simp: i64_ok_def)
  have "sgn delta * (track_shift s delta i * int (sr_video_timescale s) - delta * int (timescale_of s i)) \<in> {0 ..< int (sr_video_timescale s)}"
    if "\<bar>delta\<bar> * int (timescale_of s i) \<le> I64_MAX * int (sr_video_timescale s)" for i
    using scale_signed_rounds [OF range timescale_range(2,4,1,3) [OF ok video] that] by (simp add: track_shift_def)
  then show ?thesis using film own nonneg by (simp add: learn(3) standing_shift comp_def)
qed

end
