(* ===== verification/Fmp4Generation.thy ===== *)
theory Fmp4Generation
  imports Fmp4Published
begin

text \<open>
  A small generation pushed through the segmenter: a plan of two entries, two fragments, and the
  tail of a radio stream. The promises of the segmenter are applied to it.
\<close>

section \<open>A generation of two entries\<close>

definition generation_policy :: cut_policy where
  "generation_policy = \<lparr> floor_ticks = 6000, first_floor_ticks = 2000, max_bytes = 1000000, max_ticks = 40, strict_max_ticks = None \<rparr>"

definition demo_track :: "track_kind \<Rightarrow> nat \<Rightarrow> track" where
  "demo_track kind timescale =
     \<lparr> tr_id = 1, tr_kind = kind, tr_timescale = timescale, tr_has_edit_list = False, tr_codec = None, tr_dolby_vision_config = False,
       tr_nal_length_size = 0, tr_default_sample_duration = 0, tr_default_sample_size = 0, tr_default_sample_flags = 0 \<rparr>"

definition demo_film :: init_segment where
  "demo_film = \<lparr> in_bytes = [], in_tracks = [demo_track Video 1000] \<rparr>"

definition demo_entries :: "nat list" where
  "demo_entries = [1000, 1040]"

definition demo_pipe :: "fragment list" where
  "demo_pipe = [demo_source 0 [1, 2, 3], demo_source 40 [4, 5]]"

definition demo_generation :: segmenter where
  "demo_generation = (segmenter_new demo_film generation_policy)\<lparr> sr_next_index := 5,
     sr_media_time := Some \<lparr> mt_start_ticks = 1000, mt_delta = None \<rparr>,
     sr_boundaries := Some \<lparr> bd_first_index = 5, bd_starts = demo_entries \<rparr> \<rparr>"

lemma demo_following: "following demo_film generation_policy 5 demo_entries = Inr demo_generation"
  by (simp add: following_def resuming_at_def demo_generation_def demo_entries_def init_video_def demo_film_def demo_track_def)

lemma demo_film_parts: "init_ok demo_film" "init_video demo_film = Some (demo_track Video 1000)" "in_tracks demo_film = [demo_track Video 1000]"
  "strip_track demo_film retain = Inr None"
  by (simp_all add: init_ok_def demo_film_def init_video_def demo_track_def strip_track_def)

lemma demo_shapes: "\<forall>f \<in> set demo_pipe. fragment_shape f \<and> in_bounds f"
  by (simp add: demo_pipe_def demo_source_def fragment_shape_def in_bounds_def run_byte_len_def tf_sample_count_def)

text \<open>One sample between two bytes is merged, whatever the track's place in it.\<close>

lemma demo_merge: "\<exists>seg. merge_retaining [demo_source t bytes] ini sequence False = Inr seg"
  if "length bytes \<le> 10" "t \<le> 2000" "strip_track ini False = Inr None"
proof -
  let ?f = "demo_source t bytes"
  have placed: "\<forall>f \<in> set [?f]. well_placed f" using that(1) by (simp add: well_placed_def demo_source_def run_byte_len_def)
  have fits: "\<forall>f \<in> set [?f]. fragment_fits f" using that(1,2) by (simp add: fragment_fits_def source_sample_fits_def demo_source_def tf_samples_def)
  have union: "track_union [?f] = [1]" by (simp add: track_union_def demo_source_def)
  have samples: "track_samples [?f] 1 = [\<lparr> sm_duration = 40, sm_size = length bytes, sm_size_at = None, sm_flags = 0x2000000, sm_cto = 80 \<rparr>]"
    by (simp add: track_samples_def fragment_samples_def fragment_track_def demo_source_def tf_samples_def)
  have size: "32 + (\<Sum>i \<leftarrow> track_union [?f]. track_cost [?f] i) \<le> 2147483647"
    using that(1) by (simp add: union track_cost_def samples del: One_nat_def)
  show ?thesis by (rule merge_succeeds [OF placed fits that(3) _ _ size, of 1]) (auto simp: union samples [simplified])
qed

definition demo_state :: "fragment list \<Rightarrow> nat \<Rightarrow> segmenter \<Rightarrow> bool" where
  "demo_state fs n s \<longleftrightarrow> sr_pending s = fs \<and> sr_next_index s = n \<and> settings s = settings demo_generation \<and>
     sr_media_time s = Some \<lparr> mt_start_ticks = 1000, mt_delta = Some 1000 \<rparr>"

lemma demo_settings:
  "settings s = settings demo_generation \<longleftrightarrow>
   sr_init s = demo_film \<and> sr_policy s = generation_policy \<and> sr_video_timescale s = 1000 \<and>
   sr_boundaries s = Some \<lparr> bd_first_index = 5, bd_starts = demo_entries \<rparr> \<and> \<not> sr_encoded_audio_boundaries s \<and> \<not> sr_retain s"
  by (auto simp: settings_def demo_generation_def segmenter_new_def demo_film_parts demo_track_def)

lemma demo_track_id: "tr_id (demo_track kind ts) = 1"
  by (simp add: demo_track_def)

lemma demo_shift:
  assumes "sr_init s = demo_film" and "sr_video_timescale s = 1000" and "t \<le> 1000"
  shows "track_shift s 1000 i = 1000" "shift_fragment s 1000 (demo_source t bytes) = demo_source (t + 1000) bytes"
proof -
  show one: "track_shift s 1000 i = 1000" for i
    using assms scale_signed_same [of 1000 1000] by (simp add: track_shift_def timescale_of_def demo_film_parts demo_track_def i64_ok_def)
  show "shift_fragment s 1000 (demo_source t bytes) = demo_source (t + 1000) bytes"
    using assms(3) by (simp add: shift_fragment_def demo_source_def one saturating_add_signed_def nat_add_distrib)
qed

lemma demo_first: "\<exists>s. push_fragment (demo_source 0 bytes) demo_generation = (Inr None, s) \<and> demo_state [demo_source 1000 bytes] 5 s"
proof -
  have set0: "settings demo_generation = settings demo_generation" ..
  note g = set0 [unfolded demo_settings]
  have rest: "sr_media_time demo_generation = Some \<lparr> mt_start_ticks = 1000, mt_delta = None \<rparr>" "sr_pending demo_generation = []" "sr_next_index demo_generation = 5"
    by (simp_all add: demo_generation_def segmenter_new_def)
  have anchor: "fragment_track (demo_source 0 bytes) (tr_id (demo_track Video 1000)) = Some (hd (fr_tracks (demo_source 0 bytes)))"
    "tf_base_decode_time (hd (fr_tracks (demo_source 0 bytes))) = 0"
    by (simp_all add: fragment_track_def demo_source_def demo_track_def)
  have safe: "refuse_if_any_track_lands_before_zero demo_generation (demo_source 0 bytes) 1000 = Inr ()"
    using g by (simp add: refuse_if_any_track_lands_before_zero_def demo_source_def demo_shift(1) [of _ 0] Let_def)
  have film: "on_film_time (demo_source 0 bytes) demo_generation =
      (Inr (demo_source 1000 bytes), demo_generation\<lparr> sr_media_time := Some \<lparr> mt_start_ticks = 1000, mt_delta = Some 1000 \<rparr>, sr_pending := [] \<rparr>)"
    using g safe demo_shift(2) [of "demo_generation\<lparr> sr_media_time := Some \<lparr> mt_start_ticks = 1000, mt_delta = Some 1000 \<rparr>, sr_pending := [] \<rparr>" 0 bytes]
    by (simp add: on_film_time_def rest demo_film_parts anchor learn_delta_def i64_ok_def then_do_def)
  show ?thesis
    using g by (simp add: push_fragment_def film segment_cut_count segment_cut_def planned_cut_def rest accept_def demo_state_def Let_def
        settings_def count_fragment_def)
qed

lemma demo_second:
  assumes "demo_state [demo_source 1000 [1, 2, 3]] 5 s"
  shows "\<exists>p s'. push_fragment (demo_source 40 [4, 5]) s = (Inr (Some p), s') \<and> demo_state [demo_source 1040 [4, 5]] 6 s'"
proof -
  have state: "sr_pending s = [demo_source 1000 [1, 2, 3]]" "sr_next_index s = 5" "settings s = settings demo_generation"
    "sr_media_time s = Some \<lparr> mt_start_ticks = 1000, mt_delta = Some 1000 \<rparr>"
    using assms by (simp_all add: demo_state_def)
  note g = state(3) [unfolded demo_settings]
  let ?f = "demo_source 1040 [4, 5]"
  have film: "on_film_time (demo_source 40 [4, 5]) s = (Inr ?f, s)"
    using g demo_shift(2) [of s 40 "[4, 5]"] by (simp add: on_film_time_def state)
  have place: "film_time_of s ?f = Some 1040"
    using g by (simp add: film_time_of_def demo_film_parts fragment_track_def demo_source_def demo_track_def)
  obtain reason where cut: "segment_cut s ?f (classify ?f (sr_init s)) = Inr (Some reason)"
    using g place by (simp add: segment_cut_def planned_cut_def state entry_after_def wrapping_sub_u64_def nth_opt_def demo_entries_def Let_def)
  let ?c = "count_fragment (classify ?f (sr_init s)) s"
  have settings: "settings ?c = settings demo_generation" using state(3) by simp
  note c = settings [unfolded demo_settings]
  obtain seg where "merge_retaining [demo_source 1000 [1, 2, 3]] demo_film (sequence_of 5) False = Inr seg"
    using demo_merge [of "[1, 2, 3]" 1000 demo_film "sequence_of 5"] demo_film_parts(4) by auto
  then have flush: "\<exists>p s'. flush reason ?c = (Inr p, s') \<and> sr_pending s' = [] \<and> sr_next_index s' = 6 \<and> settings s' = settings ?c \<and> sr_media_time s' = sr_media_time ?c"
    using c g by (simp add: flush_def state settings_def)
  have split: "split_encoded_audio ?f ?c = (Inr ?f, ?c)" using c g by (simp add: split_encoded_audio_def)
  obtain p s' where s': "flush reason ?c = (Inr p, s')" "sr_pending s' = []" "sr_next_index s' = 6" "settings s' = settings demo_generation"
    "sr_media_time s' = Some \<lparr> mt_start_ticks = 1000, mt_delta = Some 1000 \<rparr>"
    using flush settings state(4) by auto
  have cut': "(segment_cut ?c ?f (classify ?f (sr_init s)), ?c) = (Inr (Some reason), ?c)" by (simp add: segment_cut_count cut)
  have pushed: "push_fragment (demo_source 40 [4, 5]) s = accept ?f (Some p) s'"
    unfolding push_fragment_def film Let_def then_do_simps cut' by (simp add: split s'(1))
  have "demo_state [?f] 6 (snd (accept ?f (Some p) s'))" by (simp add: demo_state_def s')
  moreover have "accept ?f (Some p) s' = (Inr (Some p), snd (accept ?f (Some p) s'))" by (simp add: prod_eq_iff)
  ultimately show ?thesis unfolding pushed by metis
qed

lemma demo_third:
  assumes "demo_state [demo_source 1040 [4, 5]] 6 s"
  shows "\<exists>p s'. finish_stream s = (Inr [p], s')"
proof -
  have state: "sr_pending s = [demo_source 1040 [4, 5]]" "sr_next_index s = 6" "settings s = settings demo_generation"
    using assms by (simp_all add: demo_state_def)
  note g = state(3) [unfolded demo_settings]
  have scale: "scale_ticks 40 1000 1000 = 40" using scale_ticks_same [of 40 1000] by simp
  have v: "video_duration (demo_source 1040 [4, 5]) (sr_init s) = 40"
    using g by (simp add: video_duration_def demo_film_parts fragment_track_def demo_source_def demo_track_def tf_duration_def tf_samples_def)
  have lims: "limits_of s 40 (demo_track Video 1000) = \<lparr> sl_first = 40, sl_ceiling = 40, sl_boundary_sample = True \<rparr>"
    using g by (simp add: limits_of_def generation_policy_def demo_track_def scale)
  have chunks: "end_of_stream_chunks s = Inr [[demo_source 1040 [4, 5]]]"
    using g v lims
    by (simp add: end_of_stream_chunks_def state demo_film_parts split_track_def split_fragment_def split_run_def split_samples.simps
        chunk_is_full_def past_sample_def put_chunk_def demo_track_id group_fragment_def fragment_track_def demo_source_def sum_u64_def Let_def)
  obtain seg where "merge_retaining [demo_source 1040 [4, 5]] demo_film (sequence_of 6) False = Inr seg"
    using demo_merge [of "[4, 5]" 1040 demo_film "sequence_of 6"] demo_film_parts(4) by auto
  then show ?thesis
    using g by (simp add: finish_stream_def state chunks finish_chunk_def generation_policy_def Let_def)
qed

lemma demo_run:
  "\<exists>p s q s'. push_all demo_pipe demo_generation = (Inr [p], s) \<and> segment_stream demo_pipe demo_generation = (Inr [p, q], s')"
proof -
  obtain s1 where 1: "push_fragment (demo_source 0 [1, 2, 3]) demo_generation = (Inr None, s1)" "demo_state [demo_source 1000 [1, 2, 3]] 5 s1"
    using demo_first by blast
  obtain p s2 where 2: "push_fragment (demo_source 40 [4, 5]) s1 = (Inr (Some p), s2)" "demo_state [demo_source 1040 [4, 5]] 6 s2"
    using demo_second [OF 1(2)] by blast
  obtain q s3 where 3: "finish_stream s2 = (Inr [q], s3)" using demo_third [OF 2(2)] by blast
  show ?thesis by (simp add: segment_stream_def demo_pipe_def 1(1) 2(1) 3)
qed

lemma demo_starts: "sorted_wrt (<) demo_entries" "\<forall>t \<in> set demo_entries. t \<le> U64_MAX" "sr_next_index demo_generation = 5" "begins demo_generation"
proof -
  show *: "sorted_wrt (<) demo_entries" "\<forall>t \<in> set demo_entries. t \<le> U64_MAX" by (simp_all add: demo_entries_def)
  note s = planned_segmenter_follows [OF demo_film_parts(1) * , of generation_policy 5 demo_generation]
  show "sr_next_index demo_generation = 5" using s(2) demo_following by blast
  show "begins demo_generation" using s(1) demo_following by (auto simp: begins_def follows_plan_def)
qed

theorem plan_is_followed_witness:
  "\<exists>p s g. push_all demo_pipe demo_generation = (Inr [p], s) \<and> published_as demo_generation p g \<and> pb_index p = 5 \<and>
    between demo_entries 0 (video_times demo_generation g)"
proof -
  obtain p s q s' where run: "push_all demo_pipe demo_generation = (Inr [p], s)" using demo_run by blast
  have "5 + length demo_pipe + 2 \<le> U64_MAX" by (simp add: demo_pipe_def)
  from plan_is_followed [OF demo_film_parts(1) demo_starts(1,2) disjI1 [OF demo_following] run demo_shapes this]
  obtain groups where "list_all2 (published_as demo_generation) [p] groups" "map pb_index [p] = [5 ..< 5 + length [p]]"
    "\<forall>k < length groups. between demo_entries k (video_times demo_generation (groups ! k))" by blast
  then show ?thesis using run by (auto simp: list_all2_Cons1)
qed

theorem nothing_is_lost_witness:
  "\<exists>p q s groups. segment_stream demo_pipe demo_generation = (Inr [p, q], s) \<and> list_all2 (published_as demo_generation) [p, q] groups \<and>
    [pb_index p, pb_index q] = [5, 6] \<and> media 1 (concat groups) = media 1 (film_fragments demo_generation demo_pipe)"
proof -
  obtain p q s where run: "segment_stream demo_pipe demo_generation = (Inr [p, q], s)" using demo_run by blast
  have room: "sr_next_index demo_generation + length demo_pipe + 2 \<le> U64_MAX" "sr_next_index demo_generation + length [p, q] \<le> U64_MAX"
    by (simp_all add: demo_starts demo_pipe_def)
  have "tr_id t = 1" if "t \<in> set (in_tracks (sr_init demo_generation))" for t
    using that by (simp add: demo_generation_def segmenter_new_def demo_film_parts demo_track_def)
  moreover have "in_tracks (sr_init demo_generation) = [demo_track Video 1000]" by (simp add: demo_generation_def segmenter_new_def demo_film_parts)
  ultimately have t: "demo_track Video 1000 \<in> set (in_tracks (sr_init demo_generation))" "tr_id (demo_track Video 1000) = 1" by simp_all
  from nothing_is_lost [OF demo_starts(4) run demo_shapes room] obtain groups where
    "list_all2 (published_as demo_generation) [p, q] groups" "map pb_index [p, q] = [5 ..< 5 + length [p, q]]"
    "media 1 (concat groups) = media 1 (film_fragments demo_generation demo_pipe)"
    using t demo_starts(3) by force
  then show ?thesis using run by (intro exI [of _ p] exI [of _ q] exI [of _ s] exI [of _ groups]) (simp add: upt_rec)
qed
definition demo_radio :: init_segment where
  "demo_radio = \<lparr> in_bytes = [], in_tracks = [demo_track Audio 1] \<rparr>"

definition demo_tail :: segmenter where
  "demo_tail = (segmenter_new demo_radio generation_policy)\<lparr> sr_pending := demo_pipe \<rparr>"

lemma demo_tail_parts:
  "sr_pending demo_tail = demo_pipe" "sr_init demo_tail = demo_radio" "in_tracks demo_radio = [demo_track Audio 1]" "sr_next_index demo_tail = 0"
  "sr_policy demo_tail = generation_policy" "sr_retain demo_tail = False" "init_video demo_radio = None" "strip_track demo_radio retain = Inr None"
  by (simp_all add: demo_tail_def segmenter_new_def demo_radio_def init_video_def demo_track_def strip_track_def)

lemma demo_ceiling: "ceiling_of demo_tail (demo_track Audio 1) = 40"
  using scale_ticks_same [of 40 1] by (simp add: ceiling_of_def demo_tail_def segmenter_new_def demo_track_def generation_policy_def demo_radio_def init_video_def)

lemma demo_limits: "limits_of demo_tail 0 (demo_track Audio 1) = \<lparr> sl_first = 40, sl_ceiling = 40, sl_boundary_sample = False \<rparr>"
  using demo_ceiling scale_ticks_same [of 0 1] by (simp add: ceiling_of_def limits_of_def demo_tail_def segmenter_new_def demo_track_def generation_policy_def
    demo_radio_def init_video_def)

lemma demo_chunks: "end_of_stream_chunks demo_tail = Inr [[demo_source 0 [1, 2, 3]], [demo_source 40 [4, 5]]]"
  using demo_limits
  by (simp add: end_of_stream_chunks_def demo_tail_parts video_duration_def sum_u64_def demo_pipe_def split_track_def split_fragment_def split_run_def split_samples.simps
        chunk_is_full_def past_sample_def put_chunk_def demo_track_id group_fragment_def fragment_track_def demo_source_def saturating_add_u64_def Let_def)

lemma demo_tail_finished: "\<exists>p q s'. finish_stream demo_tail = (Inr [p, q], s')"
proof -
  obtain g where g: "merge_retaining [demo_source 0 [1, 2, 3]] demo_radio (sequence_of 0) False = Inr g"
    using demo_merge [of "[1, 2, 3]" 0 demo_radio "sequence_of 0"] demo_tail_parts by auto
  obtain h where h: "merge_retaining [demo_source 40 [4, 5]] demo_radio (sequence_of 1) False = Inr h"
    using demo_merge [of "[4, 5]" 40 demo_radio "sequence_of 1"] demo_tail_parts by auto
  show ?thesis
    using g h by (simp add: finish_stream_def demo_tail_parts demo_chunks finish_chunk_def generation_policy_def demo_pipe_def Let_def)
qed

theorem tail_within_ceiling_witness:
  "\<exists>p q s g h. finish_stream demo_tail = (Inr [p, q], s) \<and> published_as demo_tail p g \<and> published_as demo_tail q h \<and>
    media_ticks 1 h \<le> 40"
proof -
  obtain p q s where run: "finish_stream demo_tail = (Inr [p, q], s)" using demo_tail_finished by blast
  have ids: "distinct (map tr_id (in_tracks (sr_init demo_tail)))" "\<forall>t \<in> set (in_tracks (sr_init demo_tail)). ceiling_of demo_tail t < U64_MAX"
    "sr_next_index demo_tail + length [p, q] \<le> U64_MAX"
    by (simp_all add: demo_tail_parts demo_ceiling [simplified])
  from tail_within_ceiling [OF run ids] obtain g groups where g: "list_all2 (published_as demo_tail) [p, q] (g # groups)"
    "\<forall>h \<in> set groups. \<forall>t \<in> set (in_tracks (sr_init demo_tail)). media_ticks (tr_id t) h \<le> ceiling_of demo_tail t" by blast
  then obtain h where "groups = [h]" by (auto simp: list_all2_Cons1)
  then show ?thesis using g run by (auto simp: demo_tail_parts demo_ceiling [simplified] demo_track_id)
qed

section \<open>Audio ahead of the anchor\<close>

definition demo_cinema :: init_segment where
  "demo_cinema = \<lparr> in_bytes = [], in_tracks = [demo_track Video 1000, (demo_track Audio 1000)\<lparr> tr_id := 2 \<rparr>] \<rparr>"

definition demo_sound :: "nat \<Rightarrow> track_fragment" where
  "demo_sound t = (hd (fr_tracks (demo_source t [7])))\<lparr> tf_track_id := 2 \<rparr>"

definition demo_waiting :: segmenter where
  "demo_waiting = (segmenter_new demo_cinema generation_policy)\<lparr> sr_media_time := Some \<lparr> mt_start_ticks = 1000, mt_delta = None \<rparr>,
     sr_pending := [(demo_source 0 [7])\<lparr> fr_tracks := [demo_sound 100] \<rparr>] \<rparr>"

lemma demo_waiting_parts:
  "init_video (sr_init demo_waiting) = Some (demo_track Video 1000)" "sr_media_time demo_waiting = Some \<lparr> mt_start_ticks = 1000, mt_delta = None \<rparr>"
  "sr_pending demo_waiting = [(demo_source 0 [7])\<lparr> fr_tracks := [demo_sound 100] \<rparr>]"
  by (simp_all add: demo_waiting_def segmenter_new_def demo_cinema_def init_video_def demo_track_def)

lemma demo_waiting_shift: "i \<in> {1, 2} \<Longrightarrow> track_shift demo_waiting (- 500) i = - 500"
  using scale_signed_same [of "- 500" 1000]
  by (auto simp: track_shift_def timescale_of_def demo_waiting_def segmenter_new_def demo_cinema_def init_video_def demo_track_def i64_ok_def)

lemma demo_anchor:
  "film_time_of demo_waiting (demo_source 1500 [4, 5]) = Some 1500"
  "\<exists>f s. on_film_time (demo_source 1500 [4, 5]) demo_waiting = (Inr f, s)"
proof -
  show "film_time_of demo_waiting (demo_source 1500 [4, 5]) = Some 1500"
    by (simp add: film_time_of_def demo_waiting_parts demo_track_id fragment_track_def demo_source_def)
  have "refuse_if_any_track_lands_before_zero demo_waiting (demo_source 1500 [4, 5]) (- 500) = Inr ()"
    using demo_waiting_shift [of 1] by (simp add: refuse_if_any_track_lands_before_zero_def demo_source_def Let_def)
  moreover have "fragment_track (demo_source 1500 [4, 5]) 1 = Some (hd (fr_tracks (demo_source 1500 [4, 5])))"
    "tf_base_decode_time (hd (fr_tracks (demo_source 1500 [4, 5]))) = 1500"
    by (simp_all add: fragment_track_def demo_source_def)
  ultimately show "\<exists>f s. on_film_time (demo_source 1500 [4, 5]) demo_waiting = (Inr f, s)"
    by (simp add: on_film_time_def demo_waiting_parts demo_track_id learn_delta_def i64_ok_def Let_def)
qed

theorem only_the_anchor_is_checked_witness:
  "\<exists>f s. on_film_time (demo_source 1500 [4, 5]) demo_waiting = (Inr f, s) \<and> film_time_of demo_waiting f = Some 1000 \<and>
     map (standing (\<lambda>i t. t)) (sr_pending s) = [[(2, tf_runs (demo_sound 100), 0)]]"
proof -
  obtain f s where run: "on_film_time (demo_source 1500 [4, 5]) demo_waiting = (Inr f, s)" using demo_anchor(2) by blast
  have setting: "init_ok (sr_init demo_waiting)" "sr_video_timescale demo_waiting = max (tr_timescale (demo_track Video 1000)) 1"
    by (simp_all add: demo_waiting_def segmenter_new_def demo_cinema_def init_ok_def init_video_def demo_track_def)
  have delta: "- 500 = int (mt_start_ticks \<lparr> mt_start_ticks = 1000, mt_delta = None \<rparr>) - int 1500" by simp
  have sound: "standing place ((demo_source 0 [7])\<lparr> fr_tracks := [demo_sound 100] \<rparr>) = [(2, tf_runs (demo_sound 100), place 2 100)]" for place
    by (simp add: standing_def demo_sound_def demo_source_def)
  from only_the_anchor_is_checked [OF setting(1) demo_waiting_parts(1) setting(2) demo_waiting_parts(2) _ _ demo_anchor(1) _ run delta]
  have "film_time_of demo_waiting f = Some 1000"
    "map (standing (\<lambda>i t. t)) (sr_pending s) = [[(2, tf_runs (demo_sound 100), 0)]]"
    by (simp_all add: demo_waiting_parts sound demo_waiting_shift)
  then show ?thesis using run by (intro exI conjI)
qed

end
