(* ===== verification/Spec2Isabelle.thy ===== *)
theory Spec2Isabelle
  imports Landing Timeline TitleStore ProdSched ScratchProgress AdmissionHandoff WaitWorld
    PgsPromises Fmp4Generation
begin

text \<open>
  A verification library for the planning and accounting core of the plurx media server.
  A film is described once by an index of its fragments, planned into segments, produced by a
  process that a scheduler steers, and stored on a disk that two ledgers keep within its bounds.
  The theories, in the order the program composes them:

  \<^item> \<^theory_text>\<open>Prelude\<close>: Rust's integer types with their saturating, wrapping and checked operations, its
    sort and ordered map, keyed stores and sums over them.
  \<^item> \<^theory_text>\<open>CutPolicy\<close> (\<^verbatim>\<open>plurx-core/src/fmp4.rs\<close>): the parsed fragment, \<^verbatim>\<open>classify\<close> (the class of the
    opening keyframe, read from the length-prefixed units of the first sample) and
    \<^verbatim>\<open>CutPolicy::cut_before\<close>. The locale \<^theory_text>\<open>cut_rule\<close> is what a planner needs of a policy.
  \<^item> \<^theory_text>\<open>Fmp4Boxes\<close>, \<^theory_text>\<open>Fmp4Parse\<close>, \<^theory_text>\<open>Fmp4Reader\<close>, \<^theory_text>\<open>Fmp4Merge\<close> (\<^verbatim>\<open>plurx-core/src/fmp4.rs\<close>): the
    container. Bounded reads and box headers; the track table of \<^verbatim>\<open>moov\<close> and the runs of \<^verbatim>\<open>moof\<close>;
    \<^verbatim>\<open>FragmentReader\<close>, which cuts a pipe into units, proved never to panic and not to depend on how
    the bytes arrive; and \<^verbatim>\<open>merge\<close> with everything it writes. \<^theory_text>\<open>Fmp4RoundTrip\<close> reads a written
    segment back, \<^theory_text>\<open>Fmp4Joins\<close> says what a join keeps of its sources, and \<^theory_text>\<open>Fmp4Promises\<close> puts the
    two together.
  \<^item> \<^theory_text>\<open>Fmp4Segmenter\<close> (\<^verbatim>\<open>Segmenter\<close> of the same file): the fragments of a generation put on the
    timeline of the film, cut by the policy or by a plan, merged and published; its error type
    distinguishes what is malformed, what is refused and what would panic. \<^theory_text>\<open>Fmp4Groups\<close> says what
    one push does to the samples, \<^theory_text>\<open>Fmp4Planned\<close> keeps the invariant of a run of pushes and the
    place of each group in the plan, \<^theory_text>\<open>Fmp4Ending\<close> follows the samples through the split of the
    tail, \<^theory_text>\<open>Fmp4Total\<close> shows when a merge succeeds, \<^theory_text>\<open>Fmp4Published\<close> has the promises for a whole
    stream and \<^theory_text>\<open>Fmp4Generation\<close> applies them to a small one.
  \<^item> \<^theory_text>\<open>FragmentIndex\<close>, \<^theory_text>\<open>SegPlan\<close>, \<^theory_text>\<open>Landing\<close>, \<^theory_text>\<open>Timeline\<close> (\<^verbatim>\<open>plurx-core/src/segplan.rs\<close>): the index
    with its identity and recorded refusals; \<^verbatim>\<open>plan_copy\<close> and \<^verbatim>\<open>plan_transcode\<close>, proved to be the greedy
    partition of the rows and the two second grid; the matcher that places a repositioned
    producer; the normalization of timeline annotations.
  \<^item> \<^theory_text>\<open>F64\<close> and \<^theory_text>\<open>TitleStore\<close> (\<^verbatim>\<open>plurxd/src/titlestore.rs\<close>): the manifest of a rendition, its admission and
    eviction. The locale \<^theory_text>\<open>segment_store\<close> is the contract the scheduler reads it through.
  \<^item> \<^theory_text>\<open>ProdSched\<close> (\<^verbatim>\<open>plurxd/src/prodsched.rs\<close>): \<^verbatim>\<open>decide\<close>, with what its decisions guarantee a blocked
    reader, the room they ask for and the bounds of filling ahead.
  \<^item> \<^theory_text>\<open>ScratchLedger\<close>, \<^theory_text>\<open>ScratchGuards\<close>, \<^theory_text>\<open>ScratchProgress\<close> (\<^verbatim>\<open>plurxd/src/scratch_ledger.rs\<close>): the charge of
    every scratch allocation; all critical sections as a step relation over the ledger and the
    guards it handed out, with the invariant that ties the counters to the guards; and what
    only moves forward along any interleaving. Where the code drops the lock and takes it again to
    collect an allocation, the section (\<^theory_text>\<open>finish_section\<close>, \<^theory_text>\<open>unpin_section\<close>, \<^theory_text>\<open>unlink_section\<close>,
    \<^theory_text>\<open>abandon_section\<close>) and \<^theory_text>\<open>collect\<close> are steps of their own; an authorization has three sections.
  \<^item> \<^theory_text>\<open>Admission\<close>, \<^theory_text>\<open>AdmissionGrants\<close>, \<^theory_text>\<open>AdmissionFamily\<close>, \<^theory_text>\<open>AdmissionPool\<close>, \<^theory_text>\<open>AdmissionInvariant\<close>,
    \<^theory_text>\<open>AdmissionHandoff\<close> (\<^verbatim>\<open>plurxd/src/admission.rs\<close>): the permit state behind the transcode pools and
    every operation on it; what a grant and the question before a release promise; families of permits;
    the pool with its live guards as a step relation, and the proof that every counter is a
    count over the guards; the handoff of a permit through a reservation nobody else can take.
  \<^item> \<^theory_text>\<open>WaitPool\<close>, \<^theory_text>\<open>WaitWorld\<close> (\<^verbatim>\<open>plurxd/src/waitpool.rs\<close>): the bounded pool of requests blocked on a
    segment; the guards and the messages sent as a step relation, with the proof that every
    wait ends through exactly one path; the demands a scheduler reads.
  \<^item> \<^theory_text>\<open>PgsRle\<close>, \<^theory_text>\<open>PgsObjects\<close>, \<^theory_text>\<open>PgsTrack\<close>, \<^theory_text>\<open>PgsStream\<close> (\<^verbatim>\<open>plurx-pgs/src/lib.rs\<close>): the decoder of
    bitmap subtitles. The strict run-length decoder with its grammar and an encoder it inverts;
    palettes, fragmented objects, the cache and the crop; the timeline and one display set; the
    two passes over the file and the entry points. \<^theory_text>\<open>PgsSafety\<close> proves that no input makes it
    panic, \<^theory_text>\<open>PgsAgree\<close> that the passes accept the same files, and \<^theory_text>\<open>PgsPromises\<close> what a returned
    track is. The segment decoders of libpgs, SHA-256 and the hex text are fields of \<^theory_text>\<open>pgs_env\<close>;
    the cancellation flag is a function of the number of loads, the file its bytes and the
    fault that may end them.

  Conventions. \<^verbatim>\<open>u32\<close>, \<^verbatim>\<open>u64\<close> and \<^verbatim>\<open>usize\<close> values are naturals and \<^verbatim>\<open>i64\<close> values integers, with the bound
  of the type written out where the code saturates, wraps or checks; the release profile does
  not check arithmetic, so a plain addition or subtraction wraps (a debug build would panic there:
  the running offset of a \<^verbatim>\<open>traf\<close> with an absurd number of runs; the row end of a bitmap and the
  crop of an object, which never wrap behind the checks of the decoder). Bit-level code uses words. Strings are lists
  of bytes. A panic or an early return is a branch of the result type. \<^verbatim>\<open>HashMap\<close>s are association
  lists with distinct keys, whose order nothing observes; every section under a lock is one
  step. Loops are structural or measured recursions, so every definition is total and no fuel
  is needed.

  Not modelled: of \<^verbatim>\<open>fmp4.rs\<close> the segmenter of planned audio alone, the promotion of parameter sets and HDR10 metadata, the Dolby Vision
  record, the facts of sample entries, the rewriting of samples and the encoded grid; the playlist text, the asynchronous
  waits and wake-ups, the smoothing of measured encoder speeds, process control around ffmpeg, HTTP and session
  handling, live television, sharing, the replicated store and clustering, the clients and the vendored
  code.
\<close>

end
